(* ===== verification/Go_Prelude.thy ===== *)
theory Go_Prelude
  imports Main "HOL-Library.AList" "HOL-Library.Multiset" "HOL-Library.Sublist"
    "HOL-Library.Char_ord" "HOL-Library.List_Lexorder" "HOL-Library.Word"
begin

text \<open>
  The parts of Go and of its standard library that the modelled packages use, and the lemmas the
  component theories share.

  \<^item> Go strings are byte sequences, modelled as \<^typ>\<open>string\<close>; a \<^typ>\<open>char\<close> is a byte, and Go's
    \<open><\<close> on strings is the lexicographic order of \<open>List_Lexorder\<close> over the byte order of \<open>Char_ord\<close>.
  \<^item> \<open>strings.TrimSpace\<close> removes the UTF-8 encodings of Unicode white space at both ends.
  \<^item> \<open>strings.ToLower\<close> and \<open>strings.EqualFold\<close> are used by the program against ASCII literals only;
    the definitions here agree with Go on every comparison with an ASCII literal.
  \<^item> \<open>time.Time\<close> is an integer number of nanoseconds with 0 as the zero time, and \<open>time.Duration\<close>
    an integer in nanoseconds; \<open>Sub\<close> saturates at 64 bits as Go's does.
  \<^item> \<open>sort.SliceStable\<close> is the stable insertion sort by a \<open>less\<close> function. The locale \<open>strict_weak\<close>
    is its contract with the caller: \<open>less\<close> is a strict weak order.
  \<^item> Go maps are association lists with distinct keys, or functions into an option type.
\<close>

section \<open>Named collections\<close>

named_theorems go_simps \<open>unfolding rules of the modelled library functions\<close>
named_theorems inv_intros \<open>preservation lemmas of component invariants\<close>

section \<open>Results\<close>

type_synonym ('e, 'a) result = "'e + 'a"

fun and_then :: "'e + 'a \<Rightarrow> ('a \<Rightarrow> 'e + 'b) \<Rightarrow> 'e + 'b" where
  "and_then (Inl e) f = Inl e"
| "and_then (Inr a) f = f a"

section \<open>Strings\<close>

definition space_runes :: "string list" where
  "space_runes =
     [[CHR 0x20], [CHR 0x09], [CHR 0x0A], [CHR 0x0B], [CHR 0x0C], [CHR 0x0D],
      [CHR 0xC2, CHR 0x85], [CHR 0xC2, CHR 0xA0], [CHR 0xE1, CHR 0x9A, CHR 0x80],
      [CHR 0xE2, CHR 0x80, CHR 0x80], [CHR 0xE2, CHR 0x80, CHR 0x81],
      [CHR 0xE2, CHR 0x80, CHR 0x82], [CHR 0xE2, CHR 0x80, CHR 0x83],
      [CHR 0xE2, CHR 0x80, CHR 0x84], [CHR 0xE2, CHR 0x80, CHR 0x85],
      [CHR 0xE2, CHR 0x80, CHR 0x86], [CHR 0xE2, CHR 0x80, CHR 0x87],
      [CHR 0xE2, CHR 0x80, CHR 0x88], [CHR 0xE2, CHR 0x80, CHR 0x89],
      [CHR 0xE2, CHR 0x80, CHR 0x8A], [CHR 0xE2, CHR 0x80, CHR 0xA8],
      [CHR 0xE2, CHR 0x80, CHR 0xA9], [CHR 0xE2, CHR 0x80, CHR 0xAF],
      [CHR 0xE2, CHR 0x81, CHR 0x9F], [CHR 0xE3, CHR 0x80, CHR 0x80]]"

text \<open>Removes every leading occurrence of one of the given encodings.\<close>

function strip :: "string list \<Rightarrow> string \<Rightarrow> string" where
  "strip encs s =
     (case find (\<lambda>e. e \<noteq> [] \<and> prefix e s) encs of
        None \<Rightarrow> s
      | Some e \<Rightarrow> strip encs (drop (length e) s))"
  by pat_completeness auto
termination
proof (relation "measure (\<lambda>(encs, s). length s)")
  show "wf (measure (\<lambda>(encs :: string list, s :: string). length s))" by simp
next
  fix encs s e
  assume "find (\<lambda>e. e \<noteq> [] \<and> prefix e s) encs = Some e"
  then have "e \<noteq> [] \<and> prefix e s" by (auto simp: find_Some_iff)
  then show "((encs, drop (length e) s), (encs, s)) \<in> measure (\<lambda>(encs, s). length s)"
    by (auto simp: prefix_def)
qed

declare strip.simps [simp del]

definition trim_space :: "string \<Rightarrow> string" where
  "trim_space s = rev (strip (map rev space_runes) (rev (strip space_runes s)))"

definition ascii_lower :: "char \<Rightarrow> char" where
  "ascii_lower c =
     (let n = (of_char c :: nat) in if 65 \<le> n \<and> n \<le> 90 then char_of (n + 32) else c)"

text \<open>
  Two runes outside ASCII have an ASCII lower case: the Kelvin sign (bytes E2 84 AA) and the
  capital I with dot (bytes C4 B0). Every other rune outside ASCII stays outside ASCII.
\<close>

fun to_lower :: "string \<Rightarrow> string" where
  "to_lower [] = []"
| "to_lower (a # s) =
     (case s of
        b # c # t \<Rightarrow>
          if a = CHR 0xE2 \<and> b = CHR 0x84 \<and> c = CHR 0xAA then CHR ''k'' # to_lower t
          else if a = CHR 0xC4 \<and> b = CHR 0xB0 then CHR ''i'' # to_lower (c # t)
          else ascii_lower a # to_lower s
      | [b] \<Rightarrow> if a = CHR 0xC4 \<and> b = CHR 0xB0 then [CHR ''i''] else ascii_lower a # to_lower s
      | [] \<Rightarrow> [ascii_lower a])"

text \<open>
  Simple case folding against an ASCII literal: besides ASCII case, only the Kelvin sign folds
  to \<open>k\<close> and the long s (bytes C5 BF) to \<open>s\<close>.
\<close>

fun fold_case :: "string \<Rightarrow> string" where
  "fold_case [] = []"
| "fold_case (a # s) =
     (case s of
        b # c # t \<Rightarrow>
          if a = CHR 0xE2 \<and> b = CHR 0x84 \<and> c = CHR 0xAA then CHR ''k'' # fold_case t
          else if a = CHR 0xC5 \<and> b = CHR 0xBF then CHR ''s'' # fold_case (c # t)
          else ascii_lower a # fold_case s
      | [b] \<Rightarrow> if a = CHR 0xC5 \<and> b = CHR 0xBF then [CHR ''s''] else ascii_lower a # fold_case s
      | [] \<Rightarrow> [ascii_lower a])"

definition equal_fold :: "string \<Rightarrow> string \<Rightarrow> bool" where
  "equal_fold s t \<longleftrightarrow> fold_case s = fold_case t"

text \<open>
  \<open>unicode.IsControl\<close> holds of U+0000 to U+001F and U+007F to U+009F, the latter block in UTF-8
  as C2 80 to C2 9F.
\<close>

fun has_control :: "string \<Rightarrow> bool" where
  "has_control [] = False"
| "has_control (a # s) =
     ((of_char a :: nat) < 32 \<or> of_char a = (127::nat)
      \<or> (a = CHR 0xC2 \<and> (case s of b # _ \<Rightarrow> 128 \<le> (of_char b :: nat) \<and> of_char b \<le> (159::nat)
                          | [] \<Rightarrow> False))
      \<or> has_control s)"

definition is_hex32 :: "string \<Rightarrow> bool" where
  "is_hex32 s \<longleftrightarrow> length s = 32 \<and> list_all (\<lambda>c. c \<in> set ''abcdef0123456789'') s"

definition digit_char :: "nat \<Rightarrow> char" where
  "digit_char d = char_of (48 + d)"

fun show_nat :: "nat \<Rightarrow> string" where
  "show_nat n = (if n < 10 then [digit_char n] else show_nat (n div 10) @ [digit_char (n mod 10)])"

declare show_nat.simps [simp del]

definition show_int :: "int \<Rightarrow> string" where
  "show_int i = (if i < 0 then CHR ''-'' # show_nat (nat (- i)) else show_nat (nat i))"

text \<open>
  \<open>strconv.Atoi\<close>: an optional sign and decimal digits, refused outside the 64-bit range; and the
  part of a string after the last occurrence of a byte (\<open>strings.LastIndex\<close>), when there is one.
\<close>

definition is_digit :: "char \<Rightarrow> bool" where
  "is_digit c \<longleftrightarrow> 48 \<le> (of_char c :: nat) \<and> of_char c \<le> (57 :: nat)"

definition digits_value :: "string \<Rightarrow> int" where
  "digits_value s = fold (\<lambda>c n. 10 * n + (of_char c - 48)) s 0"

definition atoi :: "string \<Rightarrow> int option" where
  "atoi s =
     (let neg = (s \<noteq> [] \<and> hd s = CHR ''-'');
          ds = (if s \<noteq> [] \<and> (hd s = CHR ''-'' \<or> hd s = CHR ''+'') then tl s else s);
          n = (if neg then - digits_value ds else digits_value ds)
      in if ds = [] \<or> \<not> list_all is_digit ds \<or> n < - (2 ^ 63) \<or> 2 ^ 63 \<le> n
         then None else Some n)"

definition after_last :: "char \<Rightarrow> string \<Rightarrow> string option" where
  "after_last c s = (if c \<in> set s then Some (rev (takeWhile (\<lambda>x. x \<noteq> c) (rev s))) else None)"

section \<open>Time\<close>

type_synonym gotime = int
type_synonym duration = int

definition is_zero_time :: "gotime \<Rightarrow> bool" where
  "is_zero_time t \<longleftrightarrow> t = 0"

definition second :: duration where
  "second = 1000000000"

definition max_duration :: duration where
  "max_duration = 2 ^ 63 - 1"

definition min_duration :: duration where
  "min_duration = - (2 ^ 63)"

definition time_sub :: "gotime \<Rightarrow> gotime \<Rightarrow> duration" where
  "time_sub a b = max min_duration (min max_duration (a - b))"

section \<open>Sorting and selection\<close>

fun insert_by :: "('a \<Rightarrow> 'a \<Rightarrow> bool) \<Rightarrow> 'a \<Rightarrow> 'a list \<Rightarrow> 'a list" where
  "insert_by lt x [] = [x]"
| "insert_by lt x (y # ys) = (if lt y x then y # insert_by lt x ys else x # y # ys)"

fun stable_sort :: "('a \<Rightarrow> 'a \<Rightarrow> bool) \<Rightarrow> 'a list \<Rightarrow> 'a list" where
  "stable_sort lt [] = []"
| "stable_sort lt (x # xs) = insert_by lt x (stable_sort lt xs)"

definition sort_strings :: "string list \<Rightarrow> string list" where
  "sort_strings = stable_sort (<)"

text \<open>
  The recency loop \<open>if best == nil || c.After(best) { best = c }\<close>: the first of the
  most recent candidates is kept.
\<close>

fun newest :: "('a \<Rightarrow> 'a \<Rightarrow> bool) \<Rightarrow> 'a option \<Rightarrow> 'a list \<Rightarrow> 'a option" where
  "newest after best [] = best"
| "newest after best (c # cs) =
     newest after (case best of None \<Rightarrow> Some c | Some b \<Rightarrow> if after c b then Some c else best) cs"


section \<open>Lemmas on results and strings\<close>

lemma and_then_Inr_iff: "and_then r f = Inr b \<longleftrightarrow> (\<exists>a. r = Inr a \<and> f a = Inr b)"
  by (cases r) auto

lemma and_then_Inl_iff:
  "and_then r f = Inl e \<longleftrightarrow> r = Inl e \<or> (\<exists>a. r = Inr a \<and> f a = Inl e)"
  by (cases r) auto

lemma strip_None: "find (\<lambda>e. e \<noteq> [] \<and> prefix e s) encs = None \<Longrightarrow> strip encs s = s"
  by (subst strip.simps) simp

lemma strip_suffix: "suffix (strip encs s) s"
proof (induction encs s rule: strip.induct)
  case (1 encs s)
  show ?case
  proof (cases "find (\<lambda>e. e \<noteq> [] \<and> prefix e s) encs")
    case None
    then show ?thesis by (simp add: strip_None)
  next
    case (Some e)
    then have "suffix (strip encs (drop (length e) s)) (drop (length e) s)" by (rule "1")
    moreover have "suffix (drop (length e) s) s" by (simp add: suffix_drop)
    ultimately have "suffix (strip encs (drop (length e) s)) s" by (rule suffix_order.trans)
    then show ?thesis by (subst strip.simps) (simp add: Some)
  qed
qed

lemma strip_clean: "find (\<lambda>e. e \<noteq> [] \<and> prefix e (strip encs s)) encs = None"
proof (induction encs s rule: strip.induct)
  case (1 encs s)
  show ?case
  proof (cases "find (\<lambda>e. e \<noteq> [] \<and> prefix e s) encs")
    case None
    then show ?thesis by (simp add: strip_None)
  next
    case (Some e)
    have "strip encs s = strip encs (drop (length e) s)"
      by (subst strip.simps) (simp add: Some)
    then show ?thesis using "1.IH" [OF Some] by simp
  qed
qed

lemma strip_prefix_clean:
  assumes "find (\<lambda>e. e \<noteq> [] \<and> prefix e s) encs = None" and "prefix t s"
  shows "strip encs t = t"
proof (rule strip_None)
  show "find (\<lambda>e. e \<noteq> [] \<and> prefix e t) encs = None"
    using assms by (auto simp: find_None_iff intro: prefix_order.trans)
qed

lemma trim_space_idem [simp]: "trim_space (trim_space s) = trim_space s"
proof -
  define l where "l = strip space_runes s"
  define r where "r = strip (map rev space_runes) (rev l)"
  have clean_l: "find (\<lambda>e. e \<noteq> [] \<and> prefix e l) space_runes = None"
    by (simp add: l_def strip_clean)
  have "suffix r (rev l)" by (simp add: r_def strip_suffix)
  then have "prefix (rev r) l" by (simp add: suffix_to_prefix)
  with clean_l have left: "strip space_runes (rev r) = rev r" by (rule strip_prefix_clean)
  have right: "strip (map rev space_runes) r = r"
    by (rule strip_None) (simp add: r_def strip_clean)
  have "trim_space s = rev r" by (simp add: trim_space_def l_def r_def)
  then show ?thesis by (simp add: trim_space_def left right)
qed

lemma trim_space_Nil [simp]: "trim_space [] = []"
  by (simp add: trim_space_def strip_None space_runes_def)

lemma trim_space_length: "length (trim_space s) \<le> length s"
proof -
  have "length (strip (map rev space_runes) (rev (strip space_runes s)))
        \<le> length (rev (strip space_runes s))"
    by (rule suffix_length_le [OF strip_suffix])
  also have "\<dots> \<le> length s"
    using suffix_length_le [OF strip_suffix [of space_runes s]] by simp
  finally show ?thesis by (simp add: trim_space_def)
qed

section \<open>Lemmas on decimal numbers\<close>

lemma of_char_digit: "d < 10 \<Longrightarrow> of_char (digit_char d) = (48 + d :: nat)"
  by (simp add: digit_char_def of_char_of)

lemma of_char_digit_int: "d < 10 \<Longrightarrow> of_char (digit_char d) = (48 + int d :: int)"
  using of_char_digit [of d] by (metis of_nat_of_char of_nat_add of_nat_numeral)

lemma is_digit_digit_char [simp]: "d < 10 \<Longrightarrow> is_digit (digit_char d)"
  by (simp add: is_digit_def of_char_digit)

lemma show_nat_nonempty [simp]: "show_nat n \<noteq> []"
  by (subst show_nat.simps) simp

lemma show_nat_digits: "list_all is_digit (show_nat n)"
proof (induction n rule: show_nat.induct)
  case (1 n)
  show ?case
  proof (cases "n < 10")
    case True
    then show ?thesis by (subst show_nat.simps) simp
  next
    case False
    then show ?thesis using "1.IH" by (subst show_nat.simps) simp
  qed
qed

lemma digits_value_snoc: "digits_value (s @ [c]) = 10 * digits_value s + (of_char c - 48)"
  by (simp add: digits_value_def)

lemma digits_value_show_nat [simp]: "digits_value (show_nat n) = int n"
proof (induction n rule: show_nat.induct)
  case (1 n)
  show ?case
  proof (cases "n < 10")
    case True
    then have "digits_value (show_nat n) = of_char (digit_char n) - 48"
      by (subst show_nat.simps) (simp add: digits_value_def)
    then show ?thesis using True by (simp add: of_char_digit_int)
  next
    case False
    have "digits_value (show_nat n)
        = 10 * int (n div 10) + (of_char (digit_char (n mod 10)) - 48)"
      using "1.IH" False by (subst show_nat.simps) (simp add: digits_value_snoc)
    moreover have "10 * int (n div 10) + int (n mod 10) = int n" by presburger
    ultimately show ?thesis by (simp add: of_char_digit_int)
  qed
qed

lemma is_digit_not: "is_digit c \<Longrightarrow> c \<noteq> CHR '':'' \<and> c \<noteq> CHR ''-'' \<and> c \<noteq> CHR ''+''"
  by (auto simp: is_digit_def)

lemma hd_show_nat: "hd (show_nat n) \<noteq> CHR ''-'' \<and> hd (show_nat n) \<noteq> CHR ''+''"
  using show_nat_digits [of n] is_digit_not by (cases "show_nat n") auto

lemma atoi_show_nat: "n < 2 ^ 63 \<Longrightarrow> atoi (show_nat n) = Some (int n)"
proof -
  assume n: "n < 2 ^ 63"
  then have "int n < 2 ^ 63" by (simp add: zless_nat_eq_int_zless)
  then show ?thesis using hd_show_nat [of n] show_nat_digits [of n] by (simp add: atoi_def Let_def)
qed

lemma after_last_append: "c \<notin> set t \<Longrightarrow> after_last c (s @ c # t) = Some t"
proof -
  assume c: "c \<notin> set t"
  have "takeWhile (\<lambda>x. x \<noteq> c) (rev t @ c # rev s) = rev t"
    using c by (subst takeWhile_append2) auto
  then show ?thesis by (simp add: after_last_def)
qed

section \<open>Lemmas on time\<close>

lemma time_sub_le_iff:
  "min_duration \<le> d \<Longrightarrow> d < max_duration \<Longrightarrow> time_sub a b \<le> d \<longleftrightarrow> a - b \<le> d"
  by (auto simp: time_sub_def min_duration_def max_duration_def)

lemma time_sub_bounds: "min_duration \<le> time_sub a b \<and> time_sub a b \<le> max_duration"
  by (auto simp: time_sub_def min_duration_def max_duration_def)

section \<open>Lemmas on sorting\<close>

lemma mset_insert_by [simp]: "mset (insert_by lt x ys) = add_mset x (mset ys)"
  by (induction ys) auto

lemma mset_stable_sort [simp]: "mset (stable_sort lt xs) = mset xs"
  by (induction xs) auto

lemma set_stable_sort [simp]: "set (stable_sort lt xs) = set xs"
  by (metis mset_stable_sort set_mset_mset)

lemma length_stable_sort [simp]: "length (stable_sort lt xs) = length xs"
  by (metis mset_stable_sort size_mset)

lemma distinct_stable_sort [simp]: "distinct (stable_sort lt xs) \<longleftrightarrow> distinct xs"
  by (metis mset_stable_sort mset_eq_imp_distinct_iff)

lemma distinct_map_stable_sort [simp]:
  "distinct (map f (stable_sort lt xs)) \<longleftrightarrow> distinct (map f xs)"
  by (metis mset_map mset_stable_sort mset_eq_imp_distinct_iff)

lemma stable_sort_Nil_iff [simp]: "stable_sort lt xs = [] \<longleftrightarrow> xs = []"
  by (metis length_0_conv length_stable_sort)

text \<open>
  The contract between \<open>sort.SliceStable\<close> (and the recency loop) and its callers: the caller's
  \<open>less\<close> is a strict weak order. Then the result is ordered and equivalent elements keep
  their order; sorting twice changes nothing.
\<close>

locale strict_weak =
  fixes lt :: "'a \<Rightarrow> 'a \<Rightarrow> bool"
  assumes irrefl: "\<not> lt x x"
    and trans: "lt x y \<Longrightarrow> lt y z \<Longrightarrow> lt x z"
    and comparable: "lt x z \<Longrightarrow> lt x y \<or> lt y z"
begin

lemma asym: "lt x y \<Longrightarrow> \<not> lt y x"
  using irrefl trans by blast

lemma sorted_insert_by:
  "sorted_wrt (\<lambda>a b. \<not> lt b a) ys \<Longrightarrow> sorted_wrt (\<lambda>a b. \<not> lt b a) (insert_by lt x ys)"
proof (induction ys)
  case Nil
  then show ?case by simp
next
  case (Cons y ys)
  have set_ins: "set (insert_by lt x ys) = insert x (set ys)"
    by (metis mset_insert_by set_mset_add_mset_insert set_mset_mset)
  show ?case
  proof (cases "lt y x")
    case True
    then have "\<not> lt x y" by (rule asym)
    with True Cons show ?thesis by (auto simp: set_ins)
  next
    case False
    have "\<not> lt z x" if "z \<in> set ys" for z
    proof
      assume "lt z x"
      moreover have "\<not> lt z y" using Cons.prems that by simp
      ultimately show False using comparable [of z x y] False by blast
    qed
    with False Cons.prems show ?thesis by simp
  qed
qed

lemma sorted_stable_sort: "sorted_wrt (\<lambda>a b. \<not> lt b a) (stable_sort lt xs)"
  by (induction xs) (auto simp: sorted_insert_by)

lemma stable_sort_sorted:
  "sorted_wrt (\<lambda>a b. \<not> lt b a) xs \<Longrightarrow> stable_sort lt xs = xs"
proof (induction xs)
  case Nil
  then show ?case by simp
next
  case (Cons x xs)
  then show ?case by (cases xs) auto
qed

lemma stable_sort_idem: "stable_sort lt (stable_sort lt xs) = stable_sort lt xs"
  by (rule stable_sort_sorted [OF sorted_stable_sort])

lemma filter_insert_by_eq:
  "(\<And>a. P a \<Longrightarrow> \<not> lt a x) \<Longrightarrow> P x \<Longrightarrow> filter P (insert_by lt x ys) = x # filter P ys"
  by (induction ys) auto

lemma filter_insert_by_neq: "\<not> P x \<Longrightarrow> filter P (insert_by lt x ys) = filter P ys"
  by (induction ys) auto

lemma stable_sort_stable:
  "filter (\<lambda>b. \<not> lt a b \<and> \<not> lt b a) (stable_sort lt xs)
   = filter (\<lambda>b. \<not> lt a b \<and> \<not> lt b a) xs"
proof (induction xs)
  case Nil
  then show ?case by simp
next
  case (Cons x xs)
  let ?P = "\<lambda>b. \<not> lt a b \<and> \<not> lt b a"
  show ?case
  proof (cases "?P x")
    case True
    have "\<not> lt b x" if "?P b" for b
      using True that comparable [of b x a] by blast
    then have "filter ?P (insert_by lt x (stable_sort lt xs)) = x # filter ?P (stable_sort lt xs)"
      using True by (intro filter_insert_by_eq) auto
    then show ?thesis using True Cons.IH by simp
  next
    case False
    then have "filter ?P (insert_by lt x (stable_sort lt xs)) = filter ?P (stable_sort lt xs)"
      by (rule filter_insert_by_neq)
    then show ?thesis using False Cons.IH by simp
  qed
qed

text \<open>The first match in sorted order is a minimal match.\<close>

lemma find_stable_sort:
  assumes "find P (stable_sort lt xs) = Some x"
  shows "x \<in> set xs \<and> P x \<and> (\<forall>y \<in> set xs. P y \<longrightarrow> \<not> lt y x)"
proof -
  have gen: "x \<in> set ys \<and> P x \<and> (\<forall>y \<in> set ys. P y \<longrightarrow> \<not> lt y x)"
    if "find P ys = Some x" "sorted_wrt (\<lambda>a b. \<not> lt b a) ys" for ys
    using that by (induction ys) (auto simp: irrefl split: if_splits)
  show ?thesis using gen [OF assms sorted_stable_sort] by simp
qed

text \<open>The loop that keeps the newest candidate returns a maximal element.\<close>

lemma newest_None_iff: "newest lt best cs = None \<longleftrightarrow> best = None \<and> cs = []"
  by (induction lt best cs rule: newest.induct) (auto split: option.splits)

lemma newest_in: "newest lt best cs = Some m \<Longrightarrow> m \<in> set cs \<union> set_option best"
  by (induction lt best cs rule: newest.induct) (auto split: option.splits if_splits)

lemma newest_max:
  "newest lt best cs = Some m \<Longrightarrow> c \<in> set cs \<union> set_option best \<Longrightarrow> \<not> lt c m"
proof (induction cs arbitrary: best c)
  case Nil
  then show ?case using irrefl by auto
next
  case (Cons d cs)
  let ?b = "case best of None \<Rightarrow> Some d | Some b \<Rightarrow> if lt d b then Some d else best"
  have m: "newest lt ?b cs = Some m" using Cons.prems(1) by simp
  have step: "\<not> lt e m" if "e \<in> set cs \<union> set_option ?b" for e
    using Cons.IH [OF m] that by blast
  have "?b \<noteq> None" by (cases best) auto
  then obtain b where b: "?b = Some b" by blast
  have bm: "\<not> lt b m" using step b by auto
  have "\<not> lt d b"
    using b irrefl asym by (cases best) (auto split: if_splits)
  moreover have "\<not> lt e b" if "best = Some e" for e
    using b that irrefl asym by (auto split: if_splits)
  ultimately have "\<not> lt c b \<or> c \<in> set cs" using Cons.prems(2) by auto
  then show ?case
  proof
    assume "\<not> lt c b"
    then show ?thesis using bm comparable [of c m b] by blast
  next
    assume "c \<in> set cs"
    then show ?thesis using step by blast
  qed
qed

end

text \<open>A key function into a linear order, compared with \<open><\<close>, is such a contract.\<close>

locale key_order =
  fixes key :: "'a \<Rightarrow> 'k :: linorder"
begin

lemma key_strict_weak: "strict_weak (\<lambda>x y. key x < key y)"
  by unfold_locales auto

end

sublocale key_order \<subseteq> by_key: strict_weak "\<lambda>x y. key x < key y"
  by (rule key_strict_weak)

interpretation string_order: strict_weak "(<) :: string \<Rightarrow> string \<Rightarrow> bool"
  by unfold_locales auto

lemma sort_strings_sorted: "sorted (sort_strings xs)"
proof -
  have "sorted_wrt (\<lambda>a b. \<not> b < a) (stable_sort (<) xs)"
    by (rule string_order.sorted_stable_sort)
  then show ?thesis by (simp add: sort_strings_def sorted_wrt_iff_nth_less not_less sorted_iff_nth_mono_less)
qed

lemma sort_strings_eq_sort: "sort_strings xs = sort xs"
proof (rule properties_for_sort [symmetric])
  show "mset (sort_strings xs) = mset xs" by (simp add: sort_strings_def)
qed (rule sort_strings_sorted)

lemma set_sort_strings [simp]: "set (sort_strings xs) = set xs"
  by (simp add: sort_strings_def)

lemma mset_sort_strings [simp]: "mset (sort_strings xs) = mset xs"
  by (simp add: sort_strings_def)

lemma distinct_sort_strings [simp]: "distinct (sort_strings xs) \<longleftrightarrow> distinct xs"
  by (simp add: sort_strings_def)

lemma length_sort_strings [simp]: "length (sort_strings xs) = length xs"
  by (simp add: sort_strings_def)

lemma sort_strings_idem [simp]: "sort_strings (sort_strings xs) = sort_strings xs"
  unfolding sort_strings_def by (rule string_order.stable_sort_idem)

lemma find_stable_sort_None [simp]:
  "find P (stable_sort lt xs) = None \<longleftrightarrow> (\<forall>x \<in> set xs. \<not> P x)"
  by (auto simp: find_None_iff)

section \<open>Lemmas on association lists\<close>

lemma map_of_update [simp]: "map_of (AList.update k v m) = (map_of m)(k \<mapsto> v)"
  by (rule AList.update_conv')

lemma map_of_delete [simp]: "map_of (AList.delete k m) = (map_of m)(k := None)"
  by (rule AList.delete_conv')

lemma map_of_in_set: "map_of m k = Some v \<Longrightarrow> (k, v) \<in> set m"
  by (rule map_of_SomeD)

lemma distinct_keys_map_of:
  "distinct (map fst m) \<Longrightarrow> (k, v) \<in> set m \<Longrightarrow> map_of m k = Some v"
  by simp

end
