(* ===== verification/State_Model.thy ===== *)
theory State_Model
  imports Go_Prelude
begin

text \<open>
  The data model of \<open>internal/model/state.go\<close>: compositor state, windows with their placement
  and terminal evidence, and the recovery inventory, with the two normalisations that every
  checkpoint goes through. Pointers are options; a deep copy is the identity on values.
  A \<open>float64\<close> is its IEEE bit pattern; the sizes of a placement are only copied here.
\<close>

section \<open>Data\<close>

type_synonym float64 = "64 word"

record workspace =
  ws_id :: string
  ws_index :: int
  ws_name :: string
  ws_output :: string

record workspace_ref =
  ref_name :: string
  ref_output :: string
  ref_index :: int

record placement =
  pl_column :: "int option"
  pl_row :: "int option"
  pl_is_floating :: "bool option"
  pl_tile_size :: "float64 list"
  pl_window_size :: "int list"

record terminal =
  t_cwd :: string
  t_process_tags :: "string list"
  t_session_tag :: string
  t_session_tag_exact :: bool

record window =
  w_key :: string
  w_app_id :: string
  w_workspace_id :: string
  w_workspace_ref :: "workspace_ref option"
  w_pid :: int
  w_title :: string
  w_is_focused :: bool
  w_placement :: "placement option"
  w_terminal :: "terminal option"

record state =
  st_workspaces :: "workspace list"
  st_windows :: "window list"

record recovery_session =
  rs_name :: string
  rs_cwd :: string
  rs_workspace_ref :: "workspace_ref option"
  rs_placement :: "placement option"
  rs_placement_observed_at :: "gotime option"
  rs_captured_column_occupied :: bool
  rs_visible :: bool

record recovery_inventory =
  ri_active_sessions :: "string list"
  ri_sessions :: "recovery_session list"

definition empty_ref :: workspace_ref where
  "empty_ref = \<lparr>ref_name = [], ref_output = [], ref_index = 0\<rparr>"

text \<open>The zero value of \<open>RecoverySession\<close>.\<close>

definition zero_recovery :: recovery_session where
  "zero_recovery =
     \<lparr>rs_name = [], rs_cwd = [], rs_workspace_ref = None, rs_placement = None,
      rs_placement_observed_at = None, rs_captured_column_occupied = False, rs_visible = False\<rparr>"

definition ref_of_workspace :: "workspace \<Rightarrow> workspace_ref" where
  "ref_of_workspace w = \<lparr>ref_name = ws_name w, ref_output = ws_output w, ref_index = ws_index w\<rparr>"

section \<open>Normalisation\<close>

definition workspace_less :: "workspace \<Rightarrow> workspace \<Rightarrow> bool" where
  "workspace_less a b =
     (if ws_index a \<noteq> ws_index b then ws_index a < ws_index b else ws_id a < ws_id b)"

definition normalize_terminal :: "terminal \<Rightarrow> terminal" where
  "normalize_terminal t = t\<lparr>t_process_tags := sort_strings (t_process_tags t)\<rparr>"

definition normalize_window :: "window \<Rightarrow> window" where
  "normalize_window w = w\<lparr>w_terminal := map_option normalize_terminal (w_terminal w)\<rparr>"

definition normalize :: "state \<Rightarrow> state" where
  "normalize s =
     \<lparr>st_workspaces = stable_sort workspace_less (st_workspaces s),
      st_windows = map normalize_window
        (stable_sort (\<lambda>a b. w_key a < w_key b) (st_windows s))\<rparr>"

definition normalize_recovery :: "recovery_inventory \<Rightarrow> recovery_inventory" where
  "normalize_recovery r =
     \<lparr>ri_active_sessions = sort_strings (ri_active_sessions r),
      ri_sessions = stable_sort (\<lambda>a b. rs_name a < rs_name b) (ri_sessions r)\<rparr>"

definition strip_title :: "window \<Rightarrow> window" where
  "strip_title w = w\<lparr>w_title := []\<rparr>"

text \<open>
  \<open>json.Marshal\<close> of a state omits the focus flag of a window and the provenance flag of a
  terminal (both tagged \<open>json:"-"\<close>). The value that is marshalled is the state with these
  two fields cleared; the JSON text is a function of it.
\<close>

definition json_terminal :: "terminal \<Rightarrow> terminal" where
  "json_terminal t = t\<lparr>t_session_tag_exact := False\<rparr>"

definition json_window :: "window \<Rightarrow> window" where
  "json_window w =
     w\<lparr>w_is_focused := False, w_terminal := map_option json_terminal (w_terminal w)\<rparr>"

definition json_state :: "state \<Rightarrow> state" where
  "json_state s = s\<lparr>st_windows := map json_window (st_windows s)\<rparr>"

definition semantic_state :: "state \<Rightarrow> state" where
  "semantic_state s =
     (let norm = normalize s in norm\<lparr>st_windows := map strip_title (st_windows norm)\<rparr>)"

text \<open>
  \<open>json.Marshal\<close> refuses a float that is an infinity or not a number, and a time whose UTC
  year is outside 0 to 9999. The year 1 begins at 0; the year 0 has 31622400 seconds, and the
  year 10000 begins 315537897600 seconds after the year 1.
\<close>

definition float_finite :: "float64 \<Rightarrow> bool" where
  "float_finite f \<longleftrightarrow> and f 0x7FF0000000000000 \<noteq> 0x7FF0000000000000"

definition json_time_ok :: "gotime \<Rightarrow> bool" where
  "json_time_ok t \<longleftrightarrow> - (31622400 * second) \<le> t \<and> t < 315537897600 * second"

definition json_placement_ok :: "placement option \<Rightarrow> bool" where
  "json_placement_ok p = (case p of None \<Rightarrow> True | Some pl \<Rightarrow> list_all float_finite (pl_tile_size pl))"

definition json_state_ok :: "state \<Rightarrow> bool" where
  "json_state_ok s \<longleftrightarrow> list_all (\<lambda>w. json_placement_ok (w_placement w)) (st_windows s)"

definition json_recovery_ok :: "recovery_inventory \<Rightarrow> bool" where
  "json_recovery_ok r \<longleftrightarrow>
     list_all (\<lambda>e. json_placement_ok (rs_placement e)
                   \<and> (case rs_placement_observed_at e of None \<Rightarrow> True | Some t \<Rightarrow> json_time_ok t))
       (ri_sessions r)"

text \<open>
  \<open>Hash\<close> marshals the semantic state and digests it. The digest of the marshalled value,
  \<open>"sha256:" + hex (sha256 (json v))\<close>, is the argument \<open>digest\<close>; \<^term>\<open>None\<close> is the error of
  the encoder.
\<close>

definition state_hash :: "(state \<Rightarrow> string) \<Rightarrow> state \<Rightarrow> string option" where
  "state_hash digest s =
     (let norm = semantic_state s
      in if json_state_ok norm then Some (digest (json_state norm)) else None)"

text \<open>A change of titles, as a shell prompt or a progress spinner makes it.\<close>

definition retitle :: "(window \<Rightarrow> string) \<Rightarrow> state \<Rightarrow> state" where
  "retitle f s = s\<lparr>st_windows := map (\<lambda>w. w\<lparr>w_title := f w\<rparr>) (st_windows s)\<rparr>"

section \<open>Orders\<close>

interpretation workspace_order: strict_weak workspace_less
  by unfold_locales (auto simp: workspace_less_def split: if_splits)

interpretation window_key: key_order w_key .

interpretation session_name: key_order rs_name .

section \<open>Lemmas\<close>

lemma w_key_normalize_window [simp]: "w_key (normalize_window w) = w_key w"
  by (simp add: normalize_window_def)

lemma normalize_terminal_idem [simp]:
  "normalize_terminal (normalize_terminal t) = normalize_terminal t"
  by (simp add: normalize_terminal_def)

lemma normalize_window_idem [simp]: "normalize_window (normalize_window w) = normalize_window w"
  by (cases "w_terminal w") (simp_all add: normalize_window_def)

lemma stable_sort_map_key:
  assumes "\<And>x. x \<in> set xs \<Longrightarrow> key (f x) = key x"
  shows "stable_sort (\<lambda>a b. key a < (key b :: 'k :: linorder)) (map f xs)
         = map f (stable_sort (\<lambda>a b. key a < key b) xs)"
proof -
  have ins: "insert_by (\<lambda>a b. key a < key b) (f x) (map f ys)
             = map f (insert_by (\<lambda>a b. key a < key b) x ys)"
    if "key (f x) = key x" and "\<And>y. y \<in> set ys \<Longrightarrow> key (f y) = key y" for x ys
    using that by (induction ys) auto
  show ?thesis
    using assms
  proof (induction xs)
    case Nil
    show ?case by simp
  next
    case (Cons x xs)
    have "insert_by (\<lambda>a b. key a < key b) (f x)
            (map f (stable_sort (\<lambda>a b. key a < key b) xs))
          = map f (insert_by (\<lambda>a b. key a < key b) x
              (stable_sort (\<lambda>a b. key a < key b) xs))"
      by (rule ins) (use Cons.prems in auto)
    with Cons show ?case by simp
  qed
qed

lemma normalize_idem: "normalize (normalize s) = normalize s"
proof -
  have "stable_sort (\<lambda>a b. w_key a < w_key b)
          (map normalize_window (stable_sort (\<lambda>a b. w_key a < w_key b) (st_windows s)))
        = map normalize_window (stable_sort (\<lambda>a b. w_key a < w_key b) (st_windows s))"
    by (simp add: stable_sort_map_key window_key.by_key.stable_sort_idem)
  then show ?thesis
    by (simp add: normalize_def workspace_order.stable_sort_idem o_def)
qed

lemma normalize_recovery_idem: "normalize_recovery (normalize_recovery r) = normalize_recovery r"
  by (simp add: normalize_recovery_def session_name.by_key.stable_sort_idem)

lemma st_windows_normalize_sorted:
  "sorted (map w_key (st_windows (normalize s)))"
proof -
  have "sorted_wrt (\<lambda>a b. \<not> w_key b < w_key a)
          (stable_sort (\<lambda>a b. w_key a < w_key b) (st_windows s))"
    by (rule window_key.by_key.sorted_stable_sort)
  then show ?thesis
    by (simp add: normalize_def o_def sorted_map not_less)
qed

lemma set_ri_active_normalize [simp]:
  "set (ri_active_sessions (normalize_recovery r)) = set (ri_active_sessions r)"
  by (simp add: normalize_recovery_def)

lemma set_ri_sessions_normalize [simp]:
  "set (ri_sessions (normalize_recovery r)) = set (ri_sessions r)"
  by (simp add: normalize_recovery_def)

section \<open>Properties\<close>

text \<open>
  Normalisation is a canonical form. Normalising twice is normalising once, and the windows
  come out in key order; the multisets of workspaces and of window keys are unchanged.
\<close>

theorem normalize_canonical:
  "normalize (normalize s) = normalize s
   \<and> sorted (map w_key (st_windows (normalize s)))
   \<and> mset (st_workspaces (normalize s)) = mset (st_workspaces s)
   \<and> mset (map w_key (st_windows (normalize s))) = mset (map w_key (st_windows s))"
proof (intro conjI)
  show "mset (map w_key (st_windows (normalize s))) = mset (map w_key (st_windows s))"
    by (simp add: normalize_def o_def flip: mset_map)
       (simp add: mset_map)
  show "mset (st_workspaces (normalize s)) = mset (st_workspaces s)"
    by (simp add: normalize_def)
qed (rule normalize_idem, rule st_windows_normalize_sorted)

text \<open>
  The checkpoint hash is semantic. It does not depend on window titles, on the focus or
  provenance flags, nor on whether the state was normalised before.
\<close>

theorem state_hash_semantic:
  "state_hash digest (retitle f s) = state_hash digest s
   \<and> state_hash digest (normalize s) = state_hash digest s"
proof
  let ?lt = "\<lambda>a b. w_key a < w_key b"
  let ?t = "\<lambda>w. w\<lparr>w_title := f w\<rparr>"
  have "stable_sort ?lt (map ?t (st_windows s)) = map ?t (stable_sort ?lt (st_windows s))"
    by (rule stable_sort_map_key) simp
  then have "semantic_state (retitle f s) = semantic_state s"
    by (simp add: semantic_state_def normalize_def retitle_def Let_def o_def strip_title_def
        normalize_window_def)
  then show "state_hash digest (retitle f s) = state_hash digest s"
    by (simp add: state_hash_def)
  show "state_hash digest (normalize s) = state_hash digest s"
    by (simp add: state_hash_def semantic_state_def normalize_idem)
qed

end
