(* ===== verification/Checkpoint_Store.thy ===== *)
theory Checkpoint_Store
  imports State_Model
begin

text \<open>
  The rolling checkpoint store of \<open>internal/checkpoints/store.go\<close>: validation, reading, the
  temp-write, fsync, rename, directory-fsync publication, listing and pruning.

  The checkpoints directory is an association list from file names to contents. A content is
  what the strict JSON decoder makes of the bytes: \<open>Json c\<close> when they decode to exactly one
  checkpoint \<open>c\<close>, \<open>Malformed\<close> when they do not. Writing stores the JSON view of the value (the
  fields that are marshalled), which the decoder returns for strings that are valid UTF-8. The
  two digests and the file name digest are the arguments \<open>digest\<close>, \<open>idigest\<close> and \<open>path_name\<close>.
  System calls that can fail are oracles in the argument \<open>faults\<close>.
\<close>

section \<open>Data\<close>

record checkpoint =
  cp_boot_id :: string
  cp_host :: string
  cp_profile :: string
  cp_observed_at :: gotime
  cp_state :: state
  cp_state_hash :: string
  cp_recovery :: recovery_inventory
  cp_integrity_hash :: string

datatype recovery_error =
    Length_Mismatch
  | Invalid_Active string
  | Metadata_Not_Unique string
  | Empty_Observation_Time string
  | Incomplete_Occupancy string

datatype validate_error =
    Boot_Id_Required
  | Host_Required
  | Profile_Required
  | Observed_At_Required
  | State_Hash_Required
  | State_Hash_Failed
  | State_Hash_Mismatch
  | Recovery_Invalid recovery_error
  | Recovery_Hash_Failed
  | Integrity_Hash_Mismatch

section \<open>Validation\<close>

fun check_active :: "string list \<Rightarrow> string list \<Rightarrow> recovery_error option" where
  "check_active active [] = None"
| "check_active active (name # names) =
     (if trim_space name = [] \<or> name \<noteq> trim_space name \<or> name \<in> set active
      then Some (Invalid_Active name)
      else check_active (name # active) names)"

definition complete_row_one :: "recovery_session \<Rightarrow> bool" where
  "complete_row_one s \<longleftrightarrow>
     rs_placement_observed_at s \<noteq> None \<and> rs_workspace_ref s \<noteq> None
     \<and> (case rs_placement s of None \<Rightarrow> False
        | Some p \<Rightarrow> pl_column p \<noteq> None \<and> pl_row p = Some 1)"

fun check_sessions ::
    "string list \<Rightarrow> string list \<Rightarrow> recovery_session list \<Rightarrow> recovery_error option"
where
  "check_sessions active seen [] = None"
| "check_sessions active seen (s # ss) =
     (if rs_name s \<notin> set active \<or> rs_name s \<in> set seen
      then Some (Metadata_Not_Unique (rs_name s))
      else if (case rs_placement_observed_at s of None \<Rightarrow> False | Some t \<Rightarrow> is_zero_time t)
      then Some (Empty_Observation_Time (rs_name s))
      else if rs_captured_column_occupied s \<and> \<not> complete_row_one s
      then Some (Incomplete_Occupancy (rs_name s))
      else check_sessions active (rs_name s # seen) ss)"

definition validate_recovery :: "recovery_inventory \<Rightarrow> recovery_error option" where
  "validate_recovery r =
     (if length (ri_active_sessions r) \<noteq> length (ri_sessions r) then Some Length_Mismatch
      else case check_active [] (ri_active_sessions r) of
          Some e \<Rightarrow> Some e
        | None \<Rightarrow> check_sessions (ri_active_sessions r) [] (ri_sessions r))"

definition recovery_integrity_hash ::
    "(state \<times> recovery_inventory \<Rightarrow> string) \<Rightarrow> state \<Rightarrow> recovery_inventory \<Rightarrow> string option"
where
  "recovery_integrity_hash idigest s r =
     (let norm = semantic_state s; rec = normalize_recovery r
      in if json_state_ok norm \<and> json_recovery_ok rec
         then Some (idigest (json_state norm, rec)) else None)"

definition validate_checkpoint ::
    "(state \<Rightarrow> string) \<Rightarrow> (state \<times> recovery_inventory \<Rightarrow> string) \<Rightarrow> checkpoint
     \<Rightarrow> validate_error option"
where
  "validate_checkpoint digest idigest c =
     (if trim_space (cp_boot_id c) = [] then Some Boot_Id_Required
      else if trim_space (cp_host c) = [] then Some Host_Required
      else if trim_space (cp_profile c) = [] then Some Profile_Required
      else if is_zero_time (cp_observed_at c) then Some Observed_At_Required
      else if trim_space (cp_state_hash c) = [] then Some State_Hash_Required
      else case state_hash digest (cp_state c) of
        None \<Rightarrow> Some State_Hash_Failed
      | Some hash \<Rightarrow>
          if hash \<noteq> cp_state_hash c then Some State_Hash_Mismatch
          else case validate_recovery (cp_recovery c) of
            Some e \<Rightarrow> Some (Recovery_Invalid e)
          | None \<Rightarrow>
              (case recovery_integrity_hash idigest (cp_state c) (cp_recovery c) of
                 None \<Rightarrow> Some Recovery_Hash_Failed
               | Some want \<Rightarrow>
                   if cp_integrity_hash c \<noteq> want then Some Integrity_Hash_Mismatch else None))"

definition normalize_checkpoint :: "checkpoint \<Rightarrow> checkpoint" where
  "normalize_checkpoint c =
     c\<lparr>cp_state := normalize (cp_state c), cp_recovery := normalize_recovery (cp_recovery c)\<rparr>"

definition json_checkpoint :: "checkpoint \<Rightarrow> checkpoint" where
  "json_checkpoint c = c\<lparr>cp_state := json_state (cp_state c)\<rparr>"

section \<open>Reading\<close>

datatype content = Json checkpoint | Malformed | Unreadable | Directory

type_synonym dir = "(string \<times> content) list"

type_synonym path_name = "string \<Rightarrow> string \<Rightarrow> string \<Rightarrow> string"

datatype read_error = Not_Exist | Io_Error | Decode_Error | Validation_Error validate_error

definition read_path ::
    "(state \<Rightarrow> string) \<Rightarrow> (state \<times> recovery_inventory \<Rightarrow> string) \<Rightarrow> dir \<Rightarrow> string
     \<Rightarrow> read_error + checkpoint"
where
  "read_path digest idigest d name =
     (case map_of d name of
        None \<Rightarrow> Inl Not_Exist
      | Some Unreadable \<Rightarrow> Inl Io_Error
      | Some Directory \<Rightarrow> Inl Io_Error
      | Some Malformed \<Rightarrow> Inl Decode_Error
      | Some (Json c) \<Rightarrow>
          (let c' = normalize_checkpoint c
           in case validate_checkpoint digest idigest c' of
                Some e \<Rightarrow> Inl (Validation_Error e)
              | None \<Rightarrow> Inr c'))"

datatype store_error =
    Not_Found
  | Read_Failed read_error
  | Identity_Mismatch
  | Invalid_Checkpoint validate_error
  | Marshal_Failed
  | Refuse_Replace_Invalid
  | Temp_Failed
  | Write_Failed
  | Sync_Failed
  | Close_Failed
  | Rename_Failed
  | Sync_Dir_Failed
  | Read_Dir_Failed

definition has_identity :: "checkpoint \<Rightarrow> string \<Rightarrow> string \<Rightarrow> string \<Rightarrow> bool" where
  "has_identity c boot host profile \<longleftrightarrow>
     cp_boot_id c = boot \<and> cp_host c = host \<and> cp_profile c = profile"

definition store_read ::
    "(state \<Rightarrow> string) \<Rightarrow> (state \<times> recovery_inventory \<Rightarrow> string) \<Rightarrow> path_name \<Rightarrow> dir
     \<Rightarrow> string \<Rightarrow> string \<Rightarrow> string \<Rightarrow> store_error + checkpoint"
where
  "store_read digest idigest path_name d boot host profile =
     (case read_path digest idigest d (path_name boot host profile) of
        Inl Not_Exist \<Rightarrow> Inl Not_Found
      | Inl e \<Rightarrow> Inl (Read_Failed e)
      | Inr c \<Rightarrow> if has_identity c boot host profile then Inr c else Inl Identity_Mismatch)"

section \<open>Writing\<close>

record write_faults =
  wf_temp_ok :: bool
  wf_write_ok :: bool
  wf_sync_ok :: bool
  wf_close_ok :: bool
  wf_rename_ok :: bool
  wf_sync_dir_ok :: bool
  wf_remove_temp_ok :: bool

definition json_checkpoint_ok :: "checkpoint \<Rightarrow> bool" where
  "json_checkpoint_ok c \<longleftrightarrow>
     json_time_ok (cp_observed_at c) \<and> json_state_ok (cp_state c) \<and> json_recovery_ok (cp_recovery c)"

text \<open>
  The result of \<open>Write\<close> and the sequence of directories it leaves on disk, one after each system
  call that changes the directory or a file in it. The deferred function removes the temporary
  file when an error is returned, even after the rename, where there is none any more.
\<close>

definition fail_write ::
    "write_faults \<Rightarrow> string \<Rightarrow> store_error \<Rightarrow> dir list \<Rightarrow> (store_error + string) \<times> dir list"
where
  "fail_write faults tmp e trace =
     (Inl e, if wf_remove_temp_ok faults then trace @ [AList.delete tmp (last trace)] else trace)"

definition store_write ::
    "(state \<Rightarrow> string) \<Rightarrow> (state \<times> recovery_inventory \<Rightarrow> string) \<Rightarrow> path_name
     \<Rightarrow> write_faults \<Rightarrow> string \<Rightarrow> dir \<Rightarrow> checkpoint \<Rightarrow> (store_error + string) \<times> dir list"
where
  "store_write digest idigest path_name faults tmp d c0 =
     (let c = normalize_checkpoint c0;
          path = path_name (cp_boot_id c) (cp_host c) (cp_profile c) in
      case validate_checkpoint digest idigest c of
        Some e \<Rightarrow> (Inl (Invalid_Checkpoint e), [d])
      | None \<Rightarrow>
          if \<not> json_checkpoint_ok c then (Inl Marshal_Failed, [d])
          else if (case store_read digest idigest path_name d
                     (cp_boot_id c) (cp_host c) (cp_profile c) of
                     Inr _ \<Rightarrow> False | Inl Not_Found \<Rightarrow> False | Inl _ \<Rightarrow> True)
          then (Inl Refuse_Replace_Invalid, [d])
          else if \<not> wf_temp_ok faults then (Inl Temp_Failed, [d])
          else
            let d1 = AList.update tmp Malformed d;
                d2 = AList.update tmp (Json (json_checkpoint c)) d1;
                d3 = AList.update path (Json (json_checkpoint c)) (AList.delete tmp d2)
            in if \<not> wf_write_ok faults then fail_write faults tmp Write_Failed [d, d1]
               else if \<not> wf_sync_ok faults then fail_write faults tmp Sync_Failed [d, d1, d2]
               else if \<not> wf_close_ok faults then fail_write faults tmp Close_Failed [d, d1, d2]
               else if \<not> wf_rename_ok faults then fail_write faults tmp Rename_Failed [d, d1, d2]
               else if \<not> wf_sync_dir_ok faults
               then fail_write faults tmp Sync_Dir_Failed [d, d1, d2, d3]
               else (Inr path, [d, d1, d2, d3]))"

section \<open>Listing\<close>

definition has_json_ext :: "string \<Rightarrow> bool" where
  "has_json_ext name \<longleftrightarrow> suffix ''.json'' name"

datatype issue = Read_Issue string read_error | Filename_Issue string

text \<open>One entry of the directory: skipped, an issue, or a checkpoint.\<close>

definition scan_entry ::
    "(state \<Rightarrow> string) \<Rightarrow> (state \<times> recovery_inventory \<Rightarrow> string) \<Rightarrow> path_name \<Rightarrow> dir
     \<Rightarrow> string \<times> content \<Rightarrow> (issue + checkpoint) option"
where
  "scan_entry digest idigest path_name d entry =
     (let name = fst entry in
      if snd entry = Directory \<or> \<not> has_json_ext name then None
      else case read_path digest idigest d name of
          Inl e \<Rightarrow> Some (Inl (Read_Issue name e))
        | Inr c \<Rightarrow>
            if name \<noteq> path_name (cp_boot_id c) (cp_host c) (cp_profile c)
            then Some (Inl (Filename_Issue name))
            else Some (Inr c))"

fun scan_entries ::
    "(string \<times> content \<Rightarrow> (issue + checkpoint) option) \<Rightarrow> dir \<Rightarrow> checkpoint list \<times> issue list"
where
  "scan_entries f [] = ([], [])"
| "scan_entries f (entry # rest) =
     (let (cs, is) = scan_entries f rest in
      case f entry of
        None \<Rightarrow> (cs, is)
      | Some (Inl i) \<Rightarrow> (cs, i # is)
      | Some (Inr c) \<Rightarrow> (c # cs, is))"

definition checkpoint_less :: "checkpoint \<Rightarrow> checkpoint \<Rightarrow> bool" where
  "checkpoint_less a b =
     (if cp_observed_at a \<noteq> cp_observed_at b then cp_observed_at a < cp_observed_at b
      else if cp_host a \<noteq> cp_host b then cp_host a < cp_host b
      else if cp_profile a \<noteq> cp_profile b then cp_profile a < cp_profile b
      else cp_boot_id a < cp_boot_id b)"

text \<open>What \<open>os.ReadDir\<close> answers: a directory that does not exist yet reads as empty.\<close>

datatype dir_read = Dir_Missing | Dir_Unreadable | Dir_Entries dir

definition store_list ::
    "(state \<Rightarrow> string) \<Rightarrow> (state \<times> recovery_inventory \<Rightarrow> string) \<Rightarrow> path_name \<Rightarrow> dir_read
     \<Rightarrow> store_error + checkpoint list \<times> issue list"
where
  "store_list digest idigest path_name r =
     (case r of
        Dir_Missing \<Rightarrow> Inr ([], [])
      | Dir_Unreadable \<Rightarrow> Inl Read_Dir_Failed
      | Dir_Entries d \<Rightarrow>
          (let (cs, is) = scan_entries (scan_entry digest idigest path_name d) d
           in Inr (stable_sort checkpoint_less cs, is)))"

definition store_history ::
    "(state \<Rightarrow> string) \<Rightarrow> (state \<times> recovery_inventory \<Rightarrow> string) \<Rightarrow> path_name \<Rightarrow> dir_read
     \<Rightarrow> string \<Rightarrow> string \<Rightarrow> store_error + checkpoint list"
where
  "store_history digest idigest path_name r host profile =
     and_then (store_list digest idigest path_name r)
       (\<lambda>(all, _). Inr (filter (\<lambda>c. cp_host c = host \<and> cp_profile c = profile) all))"

section \<open>Pruning\<close>

definition prior_newer :: "checkpoint \<Rightarrow> checkpoint \<Rightarrow> bool" where
  "prior_newer a b \<longleftrightarrow>
     cp_observed_at b < cp_observed_at a
     \<or> (cp_observed_at a = cp_observed_at b \<and> cp_boot_id b < cp_boot_id a)"

definition prune_candidate ::
    "(state \<Rightarrow> string) \<Rightarrow> (state \<times> recovery_inventory \<Rightarrow> string) \<Rightarrow> path_name \<Rightarrow> dir
     \<Rightarrow> string \<times> content \<Rightarrow> (string \<times> checkpoint) option"
where
  "prune_candidate digest idigest path_name d entry =
     (case scan_entry digest idigest path_name d entry of
        Some (Inr c) \<Rightarrow> Some (fst entry, c)
      | _ \<Rightarrow> None)"

definition identity_of :: "checkpoint \<Rightarrow> string \<times> string" where
  "identity_of c = (cp_host c, cp_profile c)"

text \<open>The protected paths of the current boot and the map of the newest prior checkpoints.\<close>

fun scan_prior ::
    "string \<Rightarrow> (string \<times> checkpoint) list \<Rightarrow> ((string \<times> string) \<times> (string \<times> checkpoint)) list
     \<Rightarrow> ((string \<times> string) \<times> (string \<times> checkpoint)) list"
where
  "scan_prior current [] newest_prior = newest_prior"
| "scan_prior current ((path, c) # cs) newest_prior =
     scan_prior current cs
       (if cp_boot_id c = current then newest_prior
        else case map_of newest_prior (identity_of c) of
            None \<Rightarrow> AList.update (identity_of c) (path, c) newest_prior
          | Some (_, previous) \<Rightarrow>
              if prior_newer c previous
              then AList.update (identity_of c) (path, c) newest_prior else newest_prior)"

definition protected_paths :: "string \<Rightarrow> (string \<times> checkpoint) list \<Rightarrow> string list" where
  "protected_paths current cands =
     map fst (filter (\<lambda>(path, c). cp_boot_id c = current) cands)
     @ map (fst \<circ> snd) (scan_prior current cands [])"

datatype prune_error =
    Current_Boot_Required
  | Prune_Read_Dir_Failed
  | Remove_Failed string
  | Prune_Sync_Failed

fun remove_expired ::
    "(string \<Rightarrow> bool) \<Rightarrow> string list \<Rightarrow> gotime \<Rightarrow> (string \<times> checkpoint) list \<Rightarrow> nat \<Rightarrow> dir
     \<Rightarrow> (string option \<times> nat) \<times> dir"
where
  "remove_expired remove_ok protected cutoff [] removed d = ((None, removed), d)"
| "remove_expired remove_ok protected cutoff ((path, c) # cs) removed d =
     (if path \<in> set protected \<or> \<not> cp_observed_at c < cutoff
      then remove_expired remove_ok protected cutoff cs removed d
      else if \<not> remove_ok path then ((Some path, removed), d)
      else remove_expired remove_ok protected cutoff cs (Suc removed) (AList.delete path d))"

definition prune ::
    "(state \<Rightarrow> string) \<Rightarrow> (state \<times> recovery_inventory \<Rightarrow> string) \<Rightarrow> path_name
     \<Rightarrow> (string \<Rightarrow> bool) \<Rightarrow> bool \<Rightarrow> gotime \<Rightarrow> string \<Rightarrow> dir_read
     \<Rightarrow> (prune_error option \<times> nat) \<times> dir_read"
where
  "prune digest idigest path_name remove_ok dir_sync_ok cutoff boot r =
     (let current = trim_space boot in
      if current = [] then ((Some Current_Boot_Required, 0), r)
      else case r of
        Dir_Missing \<Rightarrow> ((None, 0), r)
      | Dir_Unreadable \<Rightarrow> ((Some Prune_Read_Dir_Failed, 0), r)
      | Dir_Entries d \<Rightarrow>
          (let cands = List.map_filter (prune_candidate digest idigest path_name d) d in
           case remove_expired remove_ok (protected_paths current cands) cutoff cands 0 d of
             ((Some path, removed), d') \<Rightarrow> ((Some (Remove_Failed path), removed), Dir_Entries d')
           | ((None, removed), d') \<Rightarrow>
               if 0 < removed \<and> \<not> dir_sync_ok
               then ((Some Prune_Sync_Failed, removed), Dir_Entries d')
               else ((None, removed), Dir_Entries d')))"

text \<open>What \<open>validateRecovery\<close> asks of one metadata entry.\<close>

definition session_ok :: "recovery_session \<Rightarrow> bool" where
  "session_ok s \<longleftrightarrow>
     rs_placement_observed_at s \<noteq> Some 0
     \<and> (rs_captured_column_occupied s \<longrightarrow> complete_row_one s)"

definition target_path :: "path_name \<Rightarrow> checkpoint \<Rightarrow> string" where
  "target_path path_name c = path_name (cp_boot_id c) (cp_host c) (cp_profile c)"

definition stored_view :: "checkpoint \<Rightarrow> checkpoint" where
  "stored_view c = json_checkpoint (normalize_checkpoint c)"

text \<open>A concrete store: one checkpoint of boot b1 for host h, profile p, and constant digests.\<close>

definition ex_digest :: "state \<Rightarrow> string" where "ex_digest s = ''d''"
definition ex_idigest :: "state \<times> recovery_inventory \<Rightarrow> string" where "ex_idigest r = ''i''"
definition ex_path_name :: path_name where "ex_path_name b h p = b @ h @ p @ ''.json''"

definition ex_faults :: write_faults where
  "ex_faults = \<lparr>wf_temp_ok = True, wf_write_ok = True, wf_sync_ok = True, wf_close_ok = True,
     wf_rename_ok = True, wf_sync_dir_ok = True, wf_remove_temp_ok = True\<rparr>"

definition ex_checkpoint :: "string \<Rightarrow> gotime \<Rightarrow> checkpoint" where
  "ex_checkpoint boot t =
     \<lparr>cp_boot_id = boot, cp_host = ''h'', cp_profile = ''p'', cp_observed_at = t,
      cp_state = \<lparr>st_workspaces = [], st_windows = []\<rparr>, cp_state_hash = ''d'',
      cp_recovery = \<lparr>ri_active_sessions = [''s''],
        ri_sessions = [\<lparr>rs_name = ''s'', rs_cwd = [], rs_workspace_ref = None,
          rs_placement = None, rs_placement_observed_at = None,
          rs_captured_column_occupied = False, rs_visible = False\<rparr>]\<rparr>,
      cp_integrity_hash = ''i''\<rparr>"

definition ex_dir :: dir where
  "ex_dir = [(''b1hp.json'', Json (ex_checkpoint ''b1'' 5)), (''b2hp.json'', Json (ex_checkpoint ''b2'' 7))]"

section \<open>Orders\<close>

interpretation checkpoint_order: strict_weak checkpoint_less
  by unfold_locales (auto simp: checkpoint_less_def split: if_splits)

interpretation prior_order: strict_weak "\<lambda>a b. prior_newer (snd a) (snd b)"
  by unfold_locales (auto simp: prior_newer_def)

section \<open>Lemmas on validation\<close>

lemma check_active_None_iff:
  "check_active seen names = None \<longleftrightarrow>
     distinct names \<and> set names \<inter> set seen = {} \<and> (\<forall>n \<in> set names. n \<noteq> [] \<and> trim_space n = n)"
  by (induction seen names rule: check_active.induct) auto

lemma check_sessions_None_iff:
  "check_sessions active seen ss = None \<longleftrightarrow>
     distinct (map rs_name ss) \<and> rs_name ` set ss \<subseteq> set active \<and> rs_name ` set ss \<inter> set seen = {}
     \<and> (\<forall>s \<in> set ss. session_ok s)"
  by (induction active seen ss rule: check_sessions.induct)
     (auto simp: session_ok_def is_zero_time_def split: option.splits)

section \<open>Lemmas on the JSON view\<close>

lemma json_window_normalize [simp]: "normalize_window (json_window w) = json_window (normalize_window w)"
  by (cases "w_terminal w") (simp_all add: normalize_window_def json_window_def
      normalize_terminal_def json_terminal_def)

lemma w_key_json_window [simp]: "w_key (json_window w) = w_key w"
  by (simp add: json_window_def)

lemma json_window_idem [simp]: "json_window (json_window w) = json_window w"
  by (cases "w_terminal w") (simp_all add: json_window_def json_terminal_def)

lemma normalize_json_state: "normalize (json_state s) = json_state (normalize s)"
  by (simp add: normalize_def json_state_def stable_sort_map_key o_def)

lemma json_state_idem [simp]: "json_state (json_state s) = json_state s"
  by (simp add: json_state_def o_def)

lemma semantic_json_state: "semantic_state (json_state s) = json_state (semantic_state s)"
  by (simp add: semantic_state_def normalize_json_state Let_def)
     (simp add: json_state_def strip_title_def json_window_def)

lemma semantic_normalize [simp]: "semantic_state (normalize s) = semantic_state s"
  by (simp add: semantic_state_def normalize_idem)

lemma json_state_ok_json [simp]: "json_state_ok (json_state s) = json_state_ok s"
  by (simp add: json_state_ok_def json_state_def json_window_def list_all_iff)

section \<open>Lemmas on publication\<close>

lemma normalize_checkpoint_idem [simp]:
  "normalize_checkpoint (normalize_checkpoint c) = normalize_checkpoint c"
  by (simp add: normalize_checkpoint_def normalize_idem normalize_recovery_idem)

lemma normalize_json_checkpoint:
  "normalize_checkpoint (json_checkpoint c) = json_checkpoint (normalize_checkpoint c)"
  by (simp add: normalize_checkpoint_def json_checkpoint_def normalize_json_state)

lemma state_hash_json [simp]: "state_hash digest (json_state s) = state_hash digest s"
  by (simp add: state_hash_def semantic_json_state Let_def)

lemma integrity_json [simp]:
  "recovery_integrity_hash idigest (json_state s) r = recovery_integrity_hash idigest s r"
  by (simp add: recovery_integrity_hash_def semantic_json_state Let_def)

lemma validate_json_checkpoint [simp]:
  "validate_checkpoint digest idigest (json_checkpoint c) = validate_checkpoint digest idigest c"
  by (simp add: validate_checkpoint_def json_checkpoint_def split: option.split)

lemma validate_normalize_checkpoint [simp]:
  "state_hash digest (cp_state (normalize_checkpoint c)) = state_hash digest (cp_state c)"
  by (simp add: normalize_checkpoint_def state_hash_def Let_def)

lemma identity_views [simp]:
  "cp_boot_id (json_checkpoint (normalize_checkpoint c)) = cp_boot_id c"
  "cp_host (json_checkpoint (normalize_checkpoint c)) = cp_host c"
  "cp_profile (json_checkpoint (normalize_checkpoint c)) = cp_profile c"
  "cp_boot_id (normalize_checkpoint c) = cp_boot_id c"
  "cp_host (normalize_checkpoint c) = cp_host c"
  "cp_profile (normalize_checkpoint c) = cp_profile c"
  by (simp_all add: json_checkpoint_def normalize_checkpoint_def)

text \<open>Every directory of the trace holds the old or the new content at the target.\<close>

lemma store_write_trace:
  assumes "store_write digest idigest path_name faults tmp d c = (res, trace)"
    and "d' \<in> set trace" and "tmp \<noteq> target_path path_name c"
  shows "(map_of d' (target_path path_name c) = map_of d (target_path path_name c)
          \<or> map_of d' (target_path path_name c) = Some (Json (stored_view c)))
         \<and> (\<forall>n. n \<noteq> target_path path_name c \<and> n \<noteq> tmp \<longrightarrow> map_of d' n = map_of d n)"
  using assms
  by (auto simp: store_write_def fail_write_def Let_def target_path_def stored_view_def
      split: option.splits if_splits sum.splits store_error.splits)

lemma store_write_InrD:
  assumes "store_write digest idigest path_name faults tmp d c = (Inr path, trace)"
  shows "path = target_path path_name c
    \<and> validate_checkpoint digest idigest (normalize_checkpoint c) = None
    \<and> last trace = AList.update path (Json (stored_view c))
        (AList.delete tmp (AList.update tmp (Json (stored_view c)) (AList.update tmp Malformed d)))"
  using assms
  by (auto simp: store_write_def fail_write_def Let_def target_path_def stored_view_def
      split: option.splits if_splits sum.splits store_error.splits)

lemma store_write_InlD:
  assumes "store_write digest idigest path_name faults tmp d c = (Inl e, trace)"
    and "tmp \<noteq> target_path path_name c" and "e \<noteq> Sync_Dir_Failed"
  shows "map_of (last trace) (target_path path_name c) = map_of d (target_path path_name c)"
  using assms
  by (auto simp: store_write_def fail_write_def Let_def target_path_def
      split: option.splits if_splits sum.splits store_error.splits)

lemma store_write_ReadyD:
  assumes "store_write digest idigest path_name faults tmp d c = (Inr path, trace)"
  shows "map_of (last trace) path = Some (Json (stored_view c))"
  using store_write_InrD [OF assms] by simp

section \<open>Lemmas on listing\<close>

lemma set_scan_entries:
  "set (fst (scan_entries f d)) = {c. \<exists>entry \<in> set d. f entry = Some (Inr c)}
   \<and> set (snd (scan_entries f d)) = {i. \<exists>entry \<in> set d. f entry = Some (Inl i)}"
proof (induction d)
  case Nil
  then show ?case by simp
next
  case (Cons entry rest)
  obtain cs "is" where r: "scan_entries f rest = (cs, is)" by (cases "scan_entries f rest") auto
  show ?case
  proof (cases "f entry")
    case None
    with Cons r show ?thesis by auto
  next
    case (Some x)
    with Cons r show ?thesis by (cases x) auto
  qed
qed

lemma sorted_checkpoints_observed:
  "sorted_wrt (\<lambda>a b. \<not> checkpoint_less b a) cs \<Longrightarrow> sorted (map cp_observed_at cs)"
  by (induction cs) (auto simp: checkpoint_less_def split: if_splits)

section \<open>Lemmas on pruning\<close>

lemma map_of_scan_prior:
  "map_of (scan_prior current cands np) k =
     newest (\<lambda>a b. prior_newer (snd a) (snd b)) (map_of np k)
       (filter (\<lambda>(path, c). cp_boot_id c \<noteq> current \<and> identity_of c = k) cands)"
proof (induction current cands np rule: scan_prior.induct)
  case (1 current np)
  then show ?case by simp
next
  case (2 current path c cs np)
  show ?case
  proof (cases "cp_boot_id c = current")
    case True
    with 2 show ?thesis by simp
  next
    case False
    then show ?thesis
      using 2 by (cases "identity_of c = k") (auto split: option.splits)
  qed
qed

lemma remove_expired_frame:
  assumes "remove_expired ok prot cutoff cands n d = (res, d')"
    and "map_of d' p \<noteq> map_of d p"
  shows "p \<notin> set prot \<and> (\<exists>c. (p, c) \<in> set cands \<and> cp_observed_at c < cutoff)"
  using assms
proof (induction ok prot cutoff cands n d rule: remove_expired.induct)
  case (1 ok prot cutoff removed d)
  then show ?case by simp
next
  case (2 ok prot cutoff path c cs removed d)
  show ?case
  proof (cases "path \<in> set prot \<or> \<not> cp_observed_at c < cutoff")
    case True
    with 2 show ?thesis by auto
  next
    case False
    show ?thesis
    proof (cases "ok path")
      case True
      show ?thesis
      proof (cases "p = path")
        case True
        with False show ?thesis by auto
      next
        case pne: False
        have "remove_expired ok prot cutoff cs (Suc removed) (AList.delete path d) = (res, d')"
          using "2.prems"(1) False True by simp
        moreover have "map_of d' p \<noteq> map_of (AList.delete path d) p"
          using "2.prems"(2) pne by simp
        ultimately show ?thesis using "2.IH"(2) False True by auto
      qed
    next
      case notok: False
      with "2.prems" False show ?thesis by auto
    qed
  qed
qed

lemma remove_expired_absent:
  "remove_expired ok prot cutoff cands n d = (res, d') \<Longrightarrow> map_of d p = None \<Longrightarrow> map_of d' p = None"
  by (induction ok prot cutoff cands n d rule: remove_expired.induct) (auto split: if_splits)

lemma remove_expired_complete:
  assumes "remove_expired ok prot cutoff cands n d = ((None, n'), d')"
    and "(p, c) \<in> set cands" and "p \<notin> set prot" and "cp_observed_at c < cutoff"
  shows "map_of d' p = None"
  using assms
proof (induction ok prot cutoff cands n d rule: remove_expired.induct)
  case (1 ok prot cutoff removed d)
  then show ?case by simp
next
  case (2 ok prot cutoff path c' cs removed d)
  show ?case
  proof (cases "path \<in> set prot \<or> \<not> cp_observed_at c' < cutoff")
    case True
    with 2 show ?thesis by auto
  next
    case False
    then have ok: "ok path" using "2.prems"(1) by (auto split: if_splits)
    have rec: "remove_expired ok prot cutoff cs (Suc removed) (AList.delete path d)
               = ((None, n'), d')"
      using "2.prems"(1) False ok by simp
    show ?thesis
    proof (cases "(p, c) \<in> set cs")
      case True
      then show ?thesis using "2.IH"(2) False ok rec "2.prems"(3,4) by auto
    next
      case notin: False
      then have "p = path" using "2.prems"(2) by auto
      then have "map_of (AList.delete path d) p = None" by simp
      then show ?thesis
        using remove_expired_frame [OF rec, of p] remove_expired_absent [OF rec]
        by auto
    qed
  qed
qed

section \<open>Examples\<close>

lemma ex_write:
  "store_write ex_digest ex_idigest ex_path_name ex_faults ''t'' ex_dir (ex_checkpoint ''b1'' 9)
   = (Inr ''b1hp.json'', snd (store_write ex_digest ex_idigest ex_path_name ex_faults ''t'' ex_dir
        (ex_checkpoint ''b1'' 9)))"
  by (rule prod_eqI) (code_simp, simp)

lemma ex_list:
  "store_list ex_digest ex_idigest ex_path_name (Dir_Entries ex_dir)
   = Inr ([ex_checkpoint ''b1'' 5, ex_checkpoint ''b2'' 7], [])"
  by code_simp

lemma ex_prune:
  "prune ex_digest ex_idigest ex_path_name (\<lambda>_. True) True 6 ''b9'' (Dir_Entries ex_dir)
   = ((None, 1), Dir_Entries [(''b2hp.json'', Json (ex_checkpoint ''b2'' 7))])"
  by code_simp

section \<open>Properties\<close>

text \<open>
  \<open>validateRecovery\<close> accepts exactly the inventories whose allow-list consists of distinct,
  non-empty, trimmed names with exactly one metadata entry each, in which no observation time is
  zero and column occupancy is only claimed with a complete row-one placement.
\<close>

theorem validate_recovery_iff:
  "validate_recovery r = None \<longleftrightarrow>
     distinct (ri_active_sessions r)
     \<and> (\<forall>n \<in> set (ri_active_sessions r). n \<noteq> [] \<and> trim_space n = n)
     \<and> mset (map rs_name (ri_sessions r)) = mset (ri_active_sessions r)
     \<and> (\<forall>s \<in> set (ri_sessions r). rs_placement_observed_at s \<noteq> Some 0
           \<and> (rs_captured_column_occupied s \<longrightarrow> complete_row_one s))"
  (is "?lhs \<longleftrightarrow> ?rhs")
proof -
  let ?A = "ri_active_sessions r" and ?N = "map rs_name (ri_sessions r)"
  have lhs: "?lhs \<longleftrightarrow> length ?A = length ?N \<and> distinct ?A
      \<and> (\<forall>n \<in> set ?A. n \<noteq> [] \<and> trim_space n = n) \<and> distinct ?N \<and> set ?N \<subseteq> set ?A
      \<and> (\<forall>s \<in> set (ri_sessions r). session_ok s)"
  proof -
    have "?lhs \<longleftrightarrow> length ?A = length ?N \<and> check_active [] ?A = None
        \<and> check_sessions ?A [] (ri_sessions r) = None"
      by (auto simp: validate_recovery_def split: option.splits)
    then show ?thesis by (auto simp: check_active_None_iff check_sessions_None_iff)
  qed
  have "length ?A = length ?N \<and> distinct ?A \<and> distinct ?N \<and> set ?N \<subseteq> set ?A
        \<longleftrightarrow> distinct ?A \<and> mset ?N = mset ?A"
  proof
    assume l: "length ?A = length ?N \<and> distinct ?A \<and> distinct ?N \<and> set ?N \<subseteq> set ?A"
    then have "card (set ?N) = card (set ?A)" by (metis distinct_card)
    then have "set ?N = set ?A" using l by (intro card_subset_eq) auto
    then show "distinct ?A \<and> mset ?N = mset ?A" using l set_eq_iff_mset_eq_distinct by blast
  next
    assume r: "distinct ?A \<and> mset ?N = mset ?A"
    then show "length ?A = length ?N \<and> distinct ?A \<and> distinct ?N \<and> set ?N \<subseteq> set ?A"
      by (metis mset_eq_imp_distinct_iff mset_eq_length mset_eq_setD order_refl)
  qed
  then show ?thesis unfolding lhs session_ok_def by blast
qed

theorem validate_recovery_iff_witness:
  "mset (map rs_name (ri_sessions (cp_recovery (ex_checkpoint ''b1'' 5))))
     = mset (ri_active_sessions (cp_recovery (ex_checkpoint ''b1'' 5)))
   \<and> distinct (ri_active_sessions (cp_recovery (ex_checkpoint ''b1'' 5)))"
proof -
  have "validate_recovery (cp_recovery (ex_checkpoint ''b1'' 5)) = None" by code_simp
  then show ?thesis
    using validate_recovery_iff [of "cp_recovery (ex_checkpoint ''b1'' 5)"] by simp
qed

text \<open>
  C10: publication is atomic. Whatever system call fails, every directory that \<open>Write\<close> leaves on
  disk on its way holds either the old content of the target file or the complete new
  checkpoint, and all other files but the temporary one are untouched. Unless only the final
  directory fsync failed, an error means that the target still has its old content.
\<close>

theorem store_write_atomic:
  assumes "store_write digest idigest path_name faults tmp d c = (res, trace)"
    and "tmp \<noteq> target_path path_name c"
  shows "(\<forall>d' \<in> set trace.
      (map_of d' (target_path path_name c) = map_of d (target_path path_name c)
       \<or> map_of d' (target_path path_name c) = Some (Json (stored_view c)))
      \<and> (\<forall>n. n \<noteq> target_path path_name c \<and> n \<noteq> tmp \<longrightarrow> map_of d' n = map_of d n))
    \<and> (\<forall>e. res = Inl e \<and> e \<noteq> Sync_Dir_Failed \<longrightarrow>
         map_of (last trace) (target_path path_name c) = map_of d (target_path path_name c))"
  using assms store_write_trace [OF assms(1) _ assms(2)] store_write_InlD [OF _ assms(2)]
  by blast

theorem store_write_atomic_witness:
  "list_all (\<lambda>d'. map_of d' ''b2hp.json'' = Some (Json (ex_checkpoint ''b2'' 7)))
     (snd (store_write ex_digest ex_idigest ex_path_name ex_faults ''t'' ex_dir
        (ex_checkpoint ''b1'' 9)))"
proof -
  have t: "target_path ex_path_name (ex_checkpoint ''b1'' 9) = ''b1hp.json''"
    by (simp add: target_path_def ex_path_name_def ex_checkpoint_def)
  have m: "map_of ex_dir ''b2hp.json'' = Some (Json (ex_checkpoint ''b2'' 7))"
    by (simp add: ex_dir_def)
  show ?thesis
    using store_write_atomic [OF ex_write] unfolding t using m by (simp add: list_all_iff)
qed

text \<open>
  A written checkpoint is read back. After a successful \<open>Write\<close>, \<open>Read\<close> with the same
  identity returns the normalised checkpoint (its JSON view), at the returned path.
\<close>

theorem store_write_read:
  assumes w: "store_write digest idigest path_name faults tmp d c = (Inr path, trace)"
  shows "path = target_path path_name c
    \<and> store_read digest idigest path_name (last trace) (cp_boot_id c) (cp_host c) (cp_profile c)
      = Inr (stored_view c)"
proof -
  have p: "path = target_path path_name c"
    and v: "validate_checkpoint digest idigest (normalize_checkpoint c) = None"
    using store_write_InrD [OF w] by auto
  have m: "map_of (last trace) (target_path path_name c) = Some (Json (stored_view c))"
    using store_write_ReadyD [OF w] p by simp
  have n: "normalize_checkpoint (stored_view c) = stored_view c"
    by (simp add: stored_view_def normalize_json_checkpoint)
  have "validate_checkpoint digest idigest (stored_view c) = None"
    using v by (simp add: stored_view_def)
  then have "read_path digest idigest (last trace) (target_path path_name c) = Inr (stored_view c)"
    by (simp add: read_path_def m n)
  then show ?thesis
    using p by (simp add: store_read_def target_path_def has_identity_def stored_view_def)
qed

theorem store_write_read_witness:
  "store_read ex_digest ex_idigest ex_path_name
     (last (snd (store_write ex_digest ex_idigest ex_path_name ex_faults ''t'' ex_dir
        (ex_checkpoint ''b1'' 9)))) ''b1'' ''h'' ''p''
   = Inr (stored_view (ex_checkpoint ''b1'' 9))"
proof -
  have "cp_boot_id (ex_checkpoint ''b1'' 9) = ''b1''" "cp_host (ex_checkpoint ''b1'' 9) = ''h''"
    "cp_profile (ex_checkpoint ''b1'' 9) = ''p''"
    by (simp_all add: ex_checkpoint_def)
  then show ?thesis using store_write_read [OF ex_write] by simp
qed

text \<open>
  \<open>List\<close> is complete and ordered. It returns exactly the valid checkpoints stored under the
  file name of their own identity, oldest first; every other \<open>.json\<close> file becomes an issue and
  hides nothing.
\<close>

theorem store_list_complete:
  assumes "store_list digest idigest path_name (Dir_Entries d) = Inr (cs, is)"
  shows "set cs = {c. \<exists>name content. (name, content) \<in> set d \<and> content \<noteq> Directory
            \<and> has_json_ext name \<and> read_path digest idigest d name = Inr c
            \<and> name = target_path path_name c}
    \<and> sorted (map cp_observed_at cs)
    \<and> (\<forall>name content. (name, content) \<in> set d \<and> content \<noteq> Directory \<and> has_json_ext name
          \<and> \<not> (\<exists>c \<in> set cs. name = target_path path_name c \<and> read_path digest idigest d name = Inr c)
          \<longrightarrow> Filename_Issue name \<in> set is \<or> (\<exists>e. Read_Issue name e \<in> set is))"
proof -
  let ?f = "scan_entry digest idigest path_name d"
  have cs: "cs = stable_sort checkpoint_less (fst (scan_entries ?f d))"
    and is_eq: "is = snd (scan_entries ?f d)"
    using assms by (auto simp: store_list_def split: prod.splits)
  have set_cs: "set cs = {c. \<exists>entry \<in> set d. ?f entry = Some (Inr c)}"
    using cs set_scan_entries [of ?f d] by simp
  have set_is: "set is = {i. \<exists>entry \<in> set d. ?f entry = Some (Inl i)}"
    using is_eq set_scan_entries [of ?f d] by simp
  have entry: "?f (name, content) = Some (Inr c) \<longleftrightarrow> content \<noteq> Directory \<and> has_json_ext name
      \<and> read_path digest idigest d name = Inr c \<and> name = target_path path_name c"
    for name content c
    by (auto simp: scan_entry_def target_path_def split: sum.splits)
  have one: "set cs = {c. \<exists>name content. (name, content) \<in> set d \<and> content \<noteq> Directory
            \<and> has_json_ext name \<and> read_path digest idigest d name = Inr c
            \<and> name = target_path path_name c}"
    unfolding set_cs Bex_def split_paired_Ex entry by blast
  have "sorted_wrt (\<lambda>a b. \<not> checkpoint_less b a) cs"
    unfolding cs by (rule checkpoint_order.sorted_stable_sort)
  then have two: "sorted (map cp_observed_at cs)" by (rule sorted_checkpoints_observed)
  have three: "Filename_Issue name \<in> set is \<or> (\<exists>e. Read_Issue name e \<in> set is)"
    if "(name, content) \<in> set d" "content \<noteq> Directory" "has_json_ext name"
      "\<not> (\<exists>c \<in> set cs. name = target_path path_name c \<and> read_path digest idigest d name = Inr c)"
    for name content
  proof (cases "read_path digest idigest d name")
    case (Inl e)
    then have "?f (name, content) = Some (Inl (Read_Issue name e))"
      using that by (simp add: scan_entry_def)
    then have "Read_Issue name e \<in> set is" using that(1) set_is by blast
    then show ?thesis by blast
  next
    case (Inr c)
    have "name \<noteq> target_path path_name c"
      using Inr that one by blast
    then have "?f (name, content) = Some (Inl (Filename_Issue name))"
      using that Inr by (simp add: scan_entry_def target_path_def)
    then have "Filename_Issue name \<in> set is" using that(1) set_is by blast
    then show ?thesis by blast
  qed
  show ?thesis using one two three by blast
qed

theorem store_list_complete_witness:
  "sorted (map cp_observed_at [ex_checkpoint ''b1'' 5, ex_checkpoint ''b2'' 7])
   \<and> read_path ex_digest ex_idigest ex_dir ''b1hp.json'' = Inr (ex_checkpoint ''b1'' 5)"
proof -
  have t: "target_path ex_path_name (ex_checkpoint ''b1'' 5) = ''b1hp.json''"
    by (simp add: target_path_def ex_path_name_def ex_checkpoint_def)
  have m: "ex_checkpoint ''b1'' 5 \<in> set [ex_checkpoint ''b1'' 5, ex_checkpoint ''b2'' 7]" by simp
  note all = store_list_complete [OF ex_list]
  from all have "read_path ex_digest ex_idigest ex_dir
      (target_path ex_path_name (ex_checkpoint ''b1'' 5)) = Inr (ex_checkpoint ''b1'' 5)"
    using m unfolding conj_assoc by (elim conjE) (simp only: mem_Collect_eq, blast)
  then show ?thesis using all t by simp
qed

text \<open>
  C3: pruning keeps every recovery source. Whatever removal fails, the file of a checkpoint of
  the current boot is untouched, for every prior-boot checkpoint some prior-boot checkpoint of
  the same host and profile that is at least as new is untouched, and a file only changes when
  it holds a valid checkpoint observed before the cutoff.
\<close>

theorem prune_retains:
  assumes "prune digest idigest path_name remove_ok dir_sync_ok cutoff boot (Dir_Entries d)
           = (res, Dir_Entries d')"
    and cands: "cands = List.map_filter (prune_candidate digest idigest path_name d) d"
  shows "(\<forall>(p, c) \<in> set cands. cp_boot_id c = trim_space boot \<longrightarrow> map_of d' p = map_of d p)
    \<and> (\<forall>(p, c) \<in> set cands. cp_boot_id c \<noteq> trim_space boot \<longrightarrow>
         (\<exists>(p', c') \<in> set cands. cp_boot_id c' \<noteq> trim_space boot \<and> identity_of c' = identity_of c
             \<and> \<not> prior_newer c c' \<and> map_of d' p' = map_of d p'))
    \<and> (\<forall>p. map_of d' p \<noteq> map_of d p \<longrightarrow> (\<exists>c. (p, c) \<in> set cands \<and> cp_observed_at c < cutoff))"
proof -
  let ?cur = "trim_space boot"
  let ?prot = "protected_paths ?cur cands"
  have frame: "p \<notin> set ?prot \<and> (\<exists>c. (p, c) \<in> set cands \<and> cp_observed_at c < cutoff)"
    if "map_of d' p \<noteq> map_of d p" for p
  proof -
    have "?cur \<noteq> []" using assms(1) that by (auto simp: prune_def)
    then obtain r where "remove_expired remove_ok ?prot cutoff cands 0 d = (r, d')"
      using assms(1) cands by (auto simp: prune_def Let_def split: prod.splits option.splits if_splits)
    then show ?thesis using that by (rule remove_expired_frame)
  qed
  have "map_of d' p = map_of d p" if "(p, c) \<in> set cands" "cp_boot_id c = ?cur" for p c
    using frame [of p] that by (force simp: protected_paths_def)
  then have current: "\<forall>(p, c) \<in> set cands. cp_boot_id c = ?cur \<longrightarrow> map_of d' p = map_of d p"
    by auto
  have "\<exists>(p', c') \<in> set cands. cp_boot_id c' \<noteq> ?cur \<and> identity_of c' = identity_of c
             \<and> \<not> prior_newer c c' \<and> map_of d' p' = map_of d p'"
    if pc: "(p, c) \<in> set cands" "cp_boot_id c \<noteq> ?cur" for p c
  proof -
    let ?lt = "\<lambda>a b :: string \<times> checkpoint. prior_newer (snd a) (snd b)"
    let ?F = "filter (\<lambda>(path, x). cp_boot_id x \<noteq> ?cur \<and> identity_of x = identity_of c) cands"
    have inF: "(p, c) \<in> set ?F" using pc by simp
    then have "?F \<noteq> []" by (metis empty_iff list.set(1))
    then have "newest ?lt None ?F \<noteq> None" by (simp only: prior_order.newest_None_iff) simp
    then obtain m where m: "newest ?lt None ?F = Some m" by blast
    have mF: "m \<in> set ?F" using prior_order.newest_in [OF m] by simp
    have max: "\<not> prior_newer c (snd m)" using prior_order.newest_max [OF m, of "(p, c)"] inF by simp
    have "map_of (scan_prior ?cur cands []) (identity_of c) = Some m"
      using m by (simp add: map_of_scan_prior)
    then have "(identity_of c, m) \<in> set (scan_prior ?cur cands [])" by (rule map_of_SomeD)
    then have "fst m \<in> set ?prot" by (force simp: protected_paths_def)
    then have "map_of d' (fst m) = map_of d (fst m)" using frame by blast
    with mF max show ?thesis by (intro bexI [of _ m]) auto
  qed
  then have prior: "\<forall>(p, c) \<in> set cands. cp_boot_id c \<noteq> ?cur \<longrightarrow>
         (\<exists>(p', c') \<in> set cands. cp_boot_id c' \<noteq> ?cur \<and> identity_of c' = identity_of c
             \<and> \<not> prior_newer c c' \<and> map_of d' p' = map_of d p')"
    by auto
  have "\<forall>p. map_of d' p \<noteq> map_of d p \<longrightarrow> (\<exists>c. (p, c) \<in> set cands \<and> cp_observed_at c < cutoff)"
    using frame by blast
  with current prior show ?thesis by (intro conjI)
qed

theorem prune_retains_witness:
  "map_of [(''b2hp.json'', Json (ex_checkpoint ''b2'' 7))] ''b1hp.json'' \<noteq> map_of ex_dir ''b1hp.json''
   \<and> (\<exists>c. (''b1hp.json'', c)
          \<in> set (List.map_filter (prune_candidate ex_digest ex_idigest ex_path_name ex_dir) ex_dir)
        \<and> cp_observed_at c < 6)"
proof -
  have n: "map_of [(''b2hp.json'', Json (ex_checkpoint ''b2'' 7))] ''b1hp.json''
           \<noteq> map_of ex_dir ''b1hp.json''"
    by (simp add: ex_dir_def)
  then show ?thesis using prune_retains [OF ex_prune refl] by blast
qed

end
