(* ===== verification/Resume_Planner.thy ===== *)
theory Resume_Planner
  imports Checkpoint_Store
begin

text \<open>
  The pure planner of plain resume, \<open>internal/resume/planner.go\<close>: \<open>Select\<close> chooses a prior-boot
  checkpoint by capture time alone, \<open>Build\<close> turns its terminal windows into plan items, and
  \<open>ResolveWorkspace\<close> finds the current workspace of a captured one.

  Every message the code stores in a \<open>Reason\<close> or \<open>PlacementWarning\<close> field is a constructor; the
  empty string is \<open>No_Reason\<close>, \<open>No_Warning\<close>; the texts of the executor, which carry the
  message of an error, are \<open>Reason_Text\<close>. An empty \<open>Status\<close> is \<open>No_Status\<close>.
\<close>

section \<open>Data\<close>

datatype item_status =
    No_Status
  | Ready
  | Restored
  | Already_Open
  | Unavailable
  | Degraded
  | Stale
  | Failed
  | Skipped

datatype candidate_status =
    Candidate_Ready
  | Candidate_Empty
  | Candidate_Stale
  | Candidate_Not_Found

datatype candidate_source = No_Source | Current_Active_Catalog | Prior_Active_Allow_List

datatype placement_source = No_Placement_Source | Current_Sticky | Prior_Recovery | Placement_None

datatype reason =
    No_Reason
  | No_Prior_Checkpoint
  | Exceeds_Max_Age
  | No_Terminal_Windows
  | No_Verified_Session
  | Duplicate_Captured_Session
  | Session_Already_Open
  | Session_Not_Available
  | Unresolved_Leave_On_Current
  | Unresolved_Workspace
  | Current_Catalog_With_Sticky
  | No_Prior_Recovery_Point
  | Newest_Prior_Allow_List
  | Prior_Has_No_Active
  | Prior_Exceeds_Max_Age
  | Dead_Blocked_By_Age
  | Excluded_By_Status string
  | Excluded_By_Unknown_Status
  | Session_Exactly_Open
  | Placement_Unavailable_Skip
  | Placement_Unavailable
  | Placement_Unavailable_Launch_Current
  | Reason_Text string

datatype warning =
    No_Warning
  | Captured_Workspace_Unresolved
  | No_Sticky_Observation
  | Sticky_Exceeds_Max_Age
  | Sticky_Exceeds_Max_Age_Active_Allowed
  | Sticky_Exceeds_Max_Age_Dead_Blocked
  | Sticky_Unresolved

datatype match_method = By_Name | By_Output_Index | By_Index

datatype policy = Policy_Skip | Policy_Current | Policy_Fail | Policy_Other string

record select_options =
  so_current_boot_id :: string
  so_host :: string
  so_profile :: string
  so_now :: gotime
  so_max_age :: duration

record selection =
  sel_status :: candidate_status
  sel_source :: candidate_source
  sel_checkpoint :: "checkpoint option"
  sel_age :: duration
  sel_reason :: reason

record workspace_target =
  wt_id :: string
  wt_name :: string
  wt_output :: string
  wt_index :: int
  wt_method :: match_method

datatype layout_status =
    No_Layout_Status
  | Layout_Not_Requested
  | Layout_Applied
  | Layout_Degraded
  | Layout_Unsupported

record item =
  it_window_key :: string
  it_app_id :: string
  it_session :: string
  it_cwd :: string
  it_status :: item_status
  it_reason :: reason
  it_candidate_source :: candidate_source
  it_zellij_status :: string
  it_placement_source :: placement_source
  it_placement_observed_at :: "gotime option"
  it_placement_age :: duration
  it_placement_warning :: warning
  it_current_window_key :: string
  it_current_window_id :: int
  it_captured_workspace :: workspace_ref
  it_captured_placement :: "placement option"
  it_captured_column_occupied :: bool
  it_workspace :: "workspace_target option"
  it_layout_status :: layout_status
  it_layout_reason :: string

record summary =
  sm_ready :: nat
  sm_restored :: nat
  sm_already_open :: nat
  sm_unavailable :: nat
  sm_degraded :: nat
  sm_stale :: nat
  sm_failed :: nat
  sm_skipped :: nat

record plan =
  pn_status :: candidate_status
  pn_source :: candidate_source
  pn_boot_id :: string
  pn_captured_at :: gotime
  pn_age :: duration
  pn_reason :: reason
  pn_items :: "item list"
  pn_summary :: summary

definition zero_summary :: summary where
  "zero_summary =
     \<lparr>sm_ready = 0, sm_restored = 0, sm_already_open = 0, sm_unavailable = 0, sm_degraded = 0,
      sm_stale = 0, sm_failed = 0, sm_skipped = 0\<rparr>"

text \<open>The zero value of \<open>Item\<close>.\<close>

definition zero_item :: item where
  "zero_item =
     \<lparr>it_window_key = [], it_app_id = [], it_session = [], it_cwd = [], it_status = No_Status,
      it_reason = No_Reason, it_candidate_source = No_Source, it_zellij_status = [],
      it_placement_source = No_Placement_Source, it_placement_observed_at = None,
      it_placement_age = 0, it_placement_warning = No_Warning, it_current_window_key = [],
      it_current_window_id = 0, it_captured_workspace = empty_ref, it_captured_placement = None,
      it_captured_column_occupied = False, it_workspace = None,
      it_layout_status = No_Layout_Status, it_layout_reason = []\<rparr>"

definition new_planner :: "policy \<Rightarrow> policy" where
  "new_planner p = (case p of Policy_Other _ \<Rightarrow> Policy_Current | _ \<Rightarrow> p)"

section \<open>Terminal windows\<close>

definition is_terminal :: "string \<Rightarrow> bool" where
  "is_terminal app \<longleftrightarrow>
     to_lower (trim_space app) \<in> {''kitty'', ''alacritty'', ''foot'', ''wezterm''}"

definition terminal_windows :: "state \<Rightarrow> window list" where
  "terminal_windows s =
     stable_sort (\<lambda>a b. w_key a < w_key b) (filter (\<lambda>w. is_terminal (w_app_id w)) (st_windows s))"

definition captured_workspace_ref :: "window \<Rightarrow> workspace list \<Rightarrow> workspace_ref" where
  "captured_workspace_ref w wss =
     (let by_id =
        (case find (\<lambda>ws. trim_space (ws_id ws) = trim_space (w_workspace_id w)) wss of
           Some ws \<Rightarrow> ref_of_workspace ws | None \<Rightarrow> empty_ref)
      in case w_workspace_ref w of
           None \<Rightarrow> by_id
         | Some r \<Rightarrow>
             if trim_space (ref_name r) \<noteq> [] \<or> trim_space (ref_output r) \<noteq> [] \<or> 0 < ref_index r
             then r else by_id)"

definition same_workspace_ref :: "workspace_ref \<Rightarrow> workspace_ref \<Rightarrow> bool" where
  "same_workspace_ref l r =
     (if ref_name l \<noteq> [] \<and> ref_name r \<noteq> [] then ref_name l = ref_name r
      else if ref_output l \<noteq> [] \<and> ref_output r \<noteq> [] \<and> 0 < ref_index l \<and> 0 < ref_index r
      then ref_output l = ref_output r \<and> ref_index l = ref_index r
      else 0 < ref_index l \<and> ref_index l = ref_index r)"

definition session_tag_is :: "window \<Rightarrow> string \<Rightarrow> bool" where
  "session_tag_is w session \<longleftrightarrow>
     (case w_terminal w of None \<Rightarrow> False | Some t \<Rightarrow> trim_space (t_session_tag t) = session)"

text \<open>The loop over the captured windows: some other window shares the column.\<close>

definition captured_column_occupied ::
    "state \<Rightarrow> workspace_ref \<Rightarrow> placement option \<Rightarrow> string \<Rightarrow> string \<Rightarrow> bool"
where
  "captured_column_occupied s ws pl key session =
     (case pl of
        None \<Rightarrow> False
      | Some p \<Rightarrow>
          (case pl_column p of
             None \<Rightarrow> False
           | Some col \<Rightarrow>
               pl_row p = Some 1
               \<and> list_ex (\<lambda>w.
                    \<not> (w_key w = key
                       \<or> (case w_placement w of None \<Rightarrow> True | Some q \<Rightarrow> pl_column q \<noteq> Some col))
                    \<and> \<not> (key = [] \<and> session_tag_is w session)
                    \<and> same_workspace_ref ws (captured_workspace_ref w (st_workspaces s)))
                   (st_windows s)))"

definition new_item :: "window \<Rightarrow> state \<Rightarrow> item" where
  "new_item w s =
     (let ws = captured_workspace_ref w (st_workspaces s);
          session = (case w_terminal w of None \<Rightarrow> [] | Some t \<Rightarrow> trim_space (t_session_tag t));
          cwd = (case w_terminal w of None \<Rightarrow> [] | Some t \<Rightarrow> trim_space (t_cwd t))
      in zero_item
           \<lparr>it_window_key := w_key w, it_app_id := w_app_id w, it_session := session, it_cwd := cwd,
            it_captured_placement := w_placement w, it_captured_workspace := ws,
            it_captured_column_occupied :=
              captured_column_occupied s ws (w_placement w) (w_key w) session\<rparr>)"

text \<open>The map of the first window of each session in key order, and the set of trimmed names.\<close>

fun add_open :: "window list \<Rightarrow> (string \<times> window) list \<Rightarrow> (string \<times> window) list" where
  "add_open [] out = out"
| "add_open (w # ws) out =
     add_open ws
       (if \<not> is_terminal (w_app_id w) then out
        else case w_terminal w of
            None \<Rightarrow> out
          | Some t \<Rightarrow>
              let session = trim_space (t_session_tag t)
              in if session \<noteq> [] \<and> map_of out session = None
                 then AList.update session w out else out)"

definition current_session_windows :: "state \<Rightarrow> (string \<times> window) list" where
  "current_session_windows s = add_open (stable_sort (\<lambda>a b. w_key a < w_key b) (st_windows s)) []"

definition string_set :: "string list \<Rightarrow> string list" where
  "string_set values = remdups (filter (\<lambda>v. v \<noteq> []) (map trim_space values))"

definition runtime_window_id :: "string \<Rightarrow> int option" where
  "runtime_window_id key =
     (case after_last CHR '':'' key of
        None \<Rightarrow> None
      | Some digits \<Rightarrow>
          if digits = [] then None
          else case atoi digits of
              None \<Rightarrow> None
            | Some i \<Rightarrow> if i \<le> 0 then None else Some i)"

section \<open>Workspace resolution\<close>

definition target_of :: "workspace \<Rightarrow> match_method \<Rightarrow> workspace_target" where
  "target_of w m =
     \<lparr>wt_id = ws_id w, wt_name = ws_name w, wt_output = ws_output w, wt_index = ws_index w,
      wt_method = m\<rparr>"

definition resolve_workspace :: "workspace_ref \<Rightarrow> workspace list \<Rightarrow> workspace_target option" where
  "resolve_workspace captured current =
     (let wss = stable_sort workspace_less current;
          name = trim_space (ref_name captured);
          output = trim_space (ref_output captured)
      in case (if name \<noteq> [] then find (\<lambda>w. trim_space (ws_name w) = name) wss else None) of
           Some w \<Rightarrow> Some (target_of w By_Name)
         | None \<Rightarrow>
             (case (if output \<noteq> [] \<and> 0 < ref_index captured
                    then find (\<lambda>w. trim_space (ws_output w) = output
                                   \<and> ws_index w = ref_index captured) wss
                    else None) of
                Some w \<Rightarrow> Some (target_of w By_Output_Index)
              | None \<Rightarrow>
                  if 0 < ref_index captured
                  then map_option (\<lambda>w. target_of w By_Index)
                         (find (\<lambda>w. ws_index w = ref_index captured) wss)
                  else None))"

section \<open>Selection\<close>

definition eligible :: "select_options \<Rightarrow> checkpoint \<Rightarrow> bool" where
  "eligible opts c \<longleftrightarrow>
     trim_space (cp_boot_id c) \<noteq> []
     \<and> trim_space (cp_boot_id c) \<noteq> trim_space (so_current_boot_id opts)
     \<and> (so_host opts = [] \<or> cp_host c = so_host opts)
     \<and> (so_profile opts = [] \<or> cp_profile c = so_profile opts)"

text \<open>The loop of \<open>Select\<close> over the candidates.\<close>

fun select_newest ::
    "select_options \<Rightarrow> checkpoint option \<Rightarrow> checkpoint list \<Rightarrow> checkpoint option"
where
  "select_newest opts selected [] = selected"
| "select_newest opts selected (c # cs) =
     select_newest opts
       (if \<not> eligible opts c then selected
        else case selected of
            None \<Rightarrow> Some c
          | Some s \<Rightarrow> if cp_observed_at s < cp_observed_at c then Some c else selected) cs"

definition not_found :: "candidate_source \<Rightarrow> reason \<Rightarrow> selection" where
  "not_found src r =
     \<lparr>sel_status = Candidate_Not_Found, sel_source = src, sel_checkpoint = None, sel_age = 0,
      sel_reason = r\<rparr>"

definition checkpoint_age :: "gotime \<Rightarrow> gotime \<Rightarrow> duration" where
  "checkpoint_age observed now =
     (if is_zero_time now then 0
      else let age = time_sub now observed in if age < 0 then 0 else age)"

definition select :: "checkpoint list \<Rightarrow> select_options \<Rightarrow> selection" where
  "select candidates opts =
     (case select_newest opts None candidates of
        None \<Rightarrow> not_found No_Source No_Prior_Checkpoint
      | Some c \<Rightarrow>
          (let age = checkpoint_age (cp_observed_at c) (so_now opts);
               sel = \<lparr>sel_status = Candidate_Ready, sel_source = No_Source,
                      sel_checkpoint = Some c, sel_age = age, sel_reason = No_Reason\<rparr>
           in if 0 < so_max_age opts \<and> so_max_age opts < age
              then sel\<lparr>sel_status := Candidate_Stale, sel_reason := Exceeds_Max_Age\<rparr>
              else if terminal_windows (cp_state c) = []
              then sel\<lparr>sel_status := Candidate_Empty, sel_reason := No_Terminal_Windows\<rparr>
              else sel))"

section \<open>Building a plan\<close>

definition count_status :: "summary \<Rightarrow> item \<Rightarrow> summary" where
  "count_status s it =
     (case it_status it of
        Ready \<Rightarrow> s\<lparr>sm_ready := Suc (sm_ready s)\<rparr>
      | Restored \<Rightarrow> s\<lparr>sm_restored := Suc (sm_restored s)\<rparr>
      | Already_Open \<Rightarrow> s\<lparr>sm_already_open := Suc (sm_already_open s)\<rparr>
      | Unavailable \<Rightarrow> s\<lparr>sm_unavailable := Suc (sm_unavailable s)\<rparr>
      | Degraded \<Rightarrow> s\<lparr>sm_degraded := Suc (sm_degraded s)\<rparr>
      | Stale \<Rightarrow> s\<lparr>sm_stale := Suc (sm_stale s)\<rparr>
      | Failed \<Rightarrow> s\<lparr>sm_failed := Suc (sm_failed s)\<rparr>
      | Skipped \<Rightarrow> s\<lparr>sm_skipped := Suc (sm_skipped s)\<rparr>
      | No_Status \<Rightarrow> s)"

definition summarize :: "plan \<Rightarrow> plan" where
  "summarize p = p\<lparr>pn_summary := fold (\<lambda>it s. count_status s it) (pn_items p) (pn_summary p)\<rparr>"

definition start_plan :: "selection \<Rightarrow> plan" where
  "start_plan sel =
     \<lparr>pn_status = sel_status sel, pn_source = sel_source sel, pn_boot_id = [], pn_captured_at = 0,
      pn_age = sel_age sel, pn_reason = sel_reason sel, pn_items = [], pn_summary = zero_summary\<rparr>"

definition stale_item :: "selection \<Rightarrow> checkpoint \<Rightarrow> window \<Rightarrow> item" where
  "stale_item sel c w =
     (new_item w (cp_state c))\<lparr>it_status := Stale, it_reason := sel_reason sel\<rparr>"

text \<open>
  One iteration of the loop of \<open>Build\<close> over the captured windows, with the set of sessions seen
  before it: the finished item and the set after it.
\<close>

definition plan_window ::
    "policy \<Rightarrow> workspace list \<Rightarrow> (string \<times> window) list \<Rightarrow> string list \<Rightarrow> string list \<Rightarrow> item
     \<Rightarrow> item \<times> string list"
where
  "plan_window pol wss opened available seen it =
     (let session = it_session it in
      if session = []
      then (it\<lparr>it_status := Unavailable, it_reason := No_Verified_Session\<rparr>, seen)
      else if session \<in> set seen
      then (it\<lparr>it_status := Skipped, it_reason := Duplicate_Captured_Session\<rparr>, seen)
      else
        (case map_of opened session of
           Some w \<Rightarrow>
             (let it1 = it\<lparr>it_status := Already_Open, it_reason := Session_Already_Open,
                  it_current_window_key := w_key w,
                  it_current_window_id :=
                    (case runtime_window_id (w_key w) of None \<Rightarrow> 0 | Some i \<Rightarrow> i)\<rparr>
              in case resolve_workspace (it_captured_workspace it) wss of
                   Some t \<Rightarrow> it1\<lparr>it_workspace := Some t\<rparr>
                 | None \<Rightarrow> it1\<lparr>it_placement_warning := Captured_Workspace_Unresolved\<rparr>)
         | None \<Rightarrow>
             if session \<notin> set available
             then it\<lparr>it_status := Unavailable, it_reason := Session_Not_Available\<rparr>
             else
               (case resolve_workspace (it_captured_workspace it) wss of
                  Some t \<Rightarrow> it\<lparr>it_status := Ready, it_workspace := Some t\<rparr>
                | None \<Rightarrow>
                    (case pol of
                       Policy_Current \<Rightarrow>
                         it\<lparr>it_status := Degraded, it_reason := Unresolved_Leave_On_Current\<rparr>
                     | Policy_Fail \<Rightarrow>
                         it\<lparr>it_status := Failed, it_reason := Unresolved_Workspace\<rparr>
                     | _ \<Rightarrow> it\<lparr>it_status := Skipped, it_reason := Unresolved_Workspace\<rparr>)),
         session # seen))"

fun plan_windows ::
    "(string list \<Rightarrow> item \<Rightarrow> item \<times> string list) \<Rightarrow> string list \<Rightarrow> item list \<Rightarrow> item list"
where
  "plan_windows step seen [] = []"
| "plan_windows step seen (it # its) =
     (let (it', seen') = step seen it in it' # plan_windows step seen' its)"

definition build :: "policy \<Rightarrow> selection \<Rightarrow> state \<Rightarrow> string list \<Rightarrow> plan" where
  "build pol sel current available =
     (let p = start_plan sel in
      case sel_checkpoint sel of
        None \<Rightarrow> p
      | Some c \<Rightarrow>
          (let p1 = p\<lparr>pn_boot_id := cp_boot_id c, pn_captured_at := cp_observed_at c\<rparr>;
               captured = terminal_windows (cp_state c)
           in if sel_status sel = Candidate_Empty then p1
              else if sel_status sel = Candidate_Stale
              then summarize (p1\<lparr>pn_items := map (stale_item sel c) captured\<rparr>)
              else
                summarize (p1\<lparr>pn_items :=
                  plan_windows
                    (plan_window pol (st_workspaces current) (current_session_windows current)
                       (string_set available))
                    [] (map (\<lambda>w. new_item w (cp_state c)) captured)\<rparr>)))"

section \<open>Descriptions\<close>

text \<open>What each preference of \<open>ResolveWorkspace\<close> asks of a workspace, in the order it is tried.\<close>

fun ref_matches :: "workspace_ref \<Rightarrow> match_method \<Rightarrow> workspace \<Rightarrow> bool" where
  "ref_matches r By_Name w \<longleftrightarrow>
     trim_space (ref_name r) \<noteq> [] \<and> trim_space (ws_name w) = trim_space (ref_name r)"
| "ref_matches r By_Output_Index w \<longleftrightarrow>
     trim_space (ref_output r) \<noteq> [] \<and> 0 < ref_index r
     \<and> trim_space (ws_output w) = trim_space (ref_output r) \<and> ws_index w = ref_index r"
| "ref_matches r By_Index w \<longleftrightarrow> 0 < ref_index r \<and> ws_index w = ref_index r"

fun preferred :: "match_method \<Rightarrow> match_method list" where
  "preferred By_Name = []"
| "preferred By_Output_Index = [By_Name]"
| "preferred By_Index = [By_Name, By_Output_Index]"

text \<open>The statuses that claim the session: no two items of a plan may claim the same one.\<close>

definition claims_session :: "item \<Rightarrow> bool" where
  "claims_session it \<longleftrightarrow> it_status it \<in> {Ready, Already_Open, Degraded, Failed}"

fun counter :: "item_status \<Rightarrow> summary \<Rightarrow> nat" where
  "counter No_Status s = 0"
| "counter Ready s = sm_ready s"
| "counter Restored s = sm_restored s"
| "counter Already_Open s = sm_already_open s"
| "counter Unavailable s = sm_unavailable s"
| "counter Degraded s = sm_degraded s"
| "counter Stale s = sm_stale s"
| "counter Failed s = sm_failed s"
| "counter Skipped s = sm_skipped s"

definition all_statuses :: "item_status list" where
  "all_statuses = [Ready, Restored, Already_Open, Unavailable, Degraded, Stale, Failed, Skipped]"

text \<open>A prior boot with one workspace and three terminals, two of them of the same session.\<close>

definition ex_window :: "string \<Rightarrow> string \<Rightarrow> window" where
  "ex_window key session =
     \<lparr>w_key = key, w_app_id = ''kitty'', w_workspace_id = ''1'',
      w_workspace_ref = Some \<lparr>ref_name = ''dev'', ref_output = [], ref_index = 1\<rparr>,
      w_pid = 7, w_title = [], w_is_focused = False, w_placement = None,
      w_terminal = Some \<lparr>t_cwd = ''/'', t_process_tags = [], t_session_tag = session,
        t_session_tag_exact = True\<rparr>\<rparr>"

definition ex_workspace :: workspace where
  "ex_workspace = \<lparr>ws_id = ''4'', ws_index = 2, ws_name = ''dev'', ws_output = ''DP-1''\<rparr>"

definition ex_prior :: "string \<Rightarrow> gotime \<Rightarrow> checkpoint" where
  "ex_prior boot t =
     (ex_checkpoint boot t)\<lparr>cp_state :=
        \<lparr>st_workspaces = [], st_windows = [ex_window ''w:3'' ''a'', ex_window ''w:1'' ''a'',
           ex_window ''w:2'' ''b'']\<rparr>\<rparr>"

definition ex_select :: select_options where
  "ex_select = \<lparr>so_current_boot_id = ''b9'', so_host = ''h'', so_profile = ''p'', so_now = 10,
     so_max_age = 0\<rparr>"

definition ex_current :: state where
  "ex_current = \<lparr>st_workspaces = [ex_workspace], st_windows = []\<rparr>"

section \<open>Orders\<close>

interpretation observed_order: strict_weak "\<lambda>a b. cp_observed_at b < cp_observed_at a"
  by unfold_locales auto

section \<open>Lemmas\<close>

lemma select_newest_eq:
  "select_newest opts best cs =
     newest (\<lambda>a b. cp_observed_at b < cp_observed_at a) best (filter (eligible opts) cs)"
  by (induction opts best cs rule: select_newest.induct) (auto split: option.split)

lemma sel_checkpoint_select: "sel_checkpoint (select cs opts) = select_newest opts None cs"
  by (simp add: select_def not_found_def Let_def split: option.split)

lemma newest_map:
  assumes "\<And>a b. after (f a) (f b) = after a b"
  shows "newest after (map_option f best) (map f cs) = map_option f (newest after best cs)"
proof (induction cs arbitrary: best)
  case Nil
  then show ?case by simp
next
  case (Cons c cs)
  show ?case
  proof (cases best)
    case None
    then show ?thesis using Cons [of "Some c"] by simp
  next
    case (Some b)
    then show ?thesis using Cons [of "Some c"] Cons [of "Some b"] by (simp add: assms)
  qed
qed

lemma counter_count_status:
  "st \<noteq> No_Status \<Longrightarrow>
   counter st (count_status s it) = counter st s + (if it_status it = st then 1 else 0)"
  by (cases st; cases "it_status it") (simp_all add: count_status_def)

lemma counter_fold:
  "st \<noteq> No_Status \<Longrightarrow>
   counter st (fold (\<lambda>it s. count_status s it) its s)
   = counter st s + length (filter (\<lambda>it. it_status it = st) its)"
  by (induction its arbitrary: s) (simp_all add: counter_count_status)

lemma counter_zero [simp]: "counter st zero_summary = 0"
  by (cases st) (simp_all add: zero_summary_def)

lemma summarize_items [simp]: "pn_items (summarize p) = pn_items p"
  by (simp add: summarize_def)

lemma counter_summarize:
  "st \<noteq> No_Status \<Longrightarrow> pn_summary p = zero_summary \<Longrightarrow>
   counter st (pn_summary (summarize p)) = length (filter (\<lambda>it. it_status it = st) (pn_items p))"
  by (simp add: summarize_def counter_fold)

lemma it_window_key_new_item [simp]: "it_window_key (new_item w s) = w_key w"
  by (simp add: new_item_def Let_def)

lemma it_status_new_item [simp]: "it_status (new_item w s) = No_Status"
  by (simp add: new_item_def Let_def zero_item_def)

text \<open>One iteration keeps the identity of the item and always decides.\<close>

lemma plan_window_frame:
  "it_window_key (fst (plan_window pol wss opened av seen it)) = it_window_key it
   \<and> it_session (fst (plan_window pol wss opened av seen it)) = it_session it
   \<and> it_captured_workspace (fst (plan_window pol wss opened av seen it)) = it_captured_workspace it
   \<and> it_status (fst (plan_window pol wss opened av seen it)) \<noteq> No_Status"
  by (simp add: plan_window_def Let_def split: option.split policy.split)

lemma plan_window_ready:
  "it_status it = No_Status \<Longrightarrow> it_status (fst (plan_window pol wss opened av seen it)) = Ready
   \<Longrightarrow> it_session it \<in> set av \<and> map_of opened (it_session it) = None
     \<and> it_workspace (fst (plan_window pol wss opened av seen it))
         = resolve_workspace (it_captured_workspace it) wss
     \<and> resolve_workspace (it_captured_workspace it) wss \<noteq> None"
  by (auto simp: plan_window_def Let_def split: if_splits option.splits policy.splits)

lemma plan_window_claims:
  "claims_session (fst (plan_window pol wss opened av seen it))
   \<Longrightarrow> it_session it \<notin> set seen \<and> snd (plan_window pol wss opened av seen it) = it_session it # seen"
  by (auto simp: plan_window_def Let_def claims_session_def split: if_splits)

lemma plan_window_seen:
  "set seen \<subseteq> set (snd (plan_window pol wss opened av seen it))"
  by (auto simp: plan_window_def Let_def)

lemma plan_windows_keys:
  "map it_window_key (plan_windows (plan_window pol wss opened av) seen its) = map it_window_key its"
  by (induction its arbitrary: seen) (simp_all add: split_beta plan_window_frame)

lemma plan_windows_in:
  assumes "x \<in> set (plan_windows (plan_window pol wss opened av) seen its)"
  obtains it seen' where "it \<in> set its" and "x = fst (plan_window pol wss opened av seen' it)"
proof -
  have "\<exists>it seen'. it \<in> set its \<and> x = fst (plan_window pol wss opened av seen' it)"
    using assms
  proof (induction its arbitrary: seen)
    case Nil
    then show ?case by simp
  next
    case (Cons it its)
    then show ?case by (simp add: split_beta) blast
  qed
  then show ?thesis using that by blast
qed

lemma plan_windows_claims:
  "distinct (map it_session (filter claims_session (plan_windows (plan_window pol wss opened av) seen its)))
   \<and> it_session ` set (filter claims_session (plan_windows (plan_window pol wss opened av) seen its))
       \<inter> set seen = {}"
proof (induction its arbitrary: seen)
  case Nil
  then show ?case by simp
next
  case (Cons it its)
  let ?r = "plan_window pol wss opened av seen it"
  let ?rest = "filter claims_session (plan_windows (plan_window pol wss opened av) (snd ?r) its)"
  have ih: "distinct (map it_session ?rest)" "it_session ` set ?rest \<inter> set (snd ?r) = {}"
    using Cons.IH [of "snd ?r"] by auto
  show ?case
  proof (cases "claims_session (fst ?r)")
    case True
    have s: "it_session it \<notin> set seen" "snd ?r = it_session it # seen"
      using plan_window_claims [OF True] by auto
    then show ?thesis using ih True plan_window_frame [of pol wss opened av seen it]
      by (auto simp: split_beta)
  next
    case False
    then show ?thesis using ih plan_window_seen [of seen pol wss opened av it]
      by (auto simp: split_beta)
  qed
qed

lemma build_ready:
  "sel_checkpoint sel = Some c \<Longrightarrow> sel_status sel = Candidate_Ready \<Longrightarrow>
   pn_items (build pol sel current available) =
     plan_windows (plan_window pol (st_workspaces current) (current_session_windows current)
        (string_set available)) [] (map (\<lambda>w. new_item w (cp_state c)) (terminal_windows (cp_state c)))"
  by (simp add: build_def Let_def)

lemma set_string_set [simp]: "set (string_set vs) = {v. v \<noteq> [] \<and> (\<exists>x \<in> set vs. v = trim_space x)}"
  by (auto simp: string_set_def)


lemma find_guard: "(if b then find P xs else None) = find (\<lambda>x. b \<and> P x) xs"
  by (simp add: find_None_iff [THEN iffD2])

lemma resolve_workspace_eq:
  "resolve_workspace r wss =
    (let first = (\<lambda>m. find (ref_matches r m) (stable_sort workspace_less wss))
     in case first By_Name of
          Some w \<Rightarrow> Some (target_of w By_Name)
        | None \<Rightarrow>
            (case first By_Output_Index of
               Some w \<Rightarrow> Some (target_of w By_Output_Index)
             | None \<Rightarrow> map_option (\<lambda>w. target_of w By_Index) (first By_Index)))"
proof -
  have "ref_matches r By_Name = (\<lambda>w. trim_space (ref_name r) \<noteq> []
          \<and> trim_space (ws_name w) = trim_space (ref_name r))"
    and "ref_matches r By_Output_Index = (\<lambda>w. (trim_space (ref_output r) \<noteq> [] \<and> 0 < ref_index r)
          \<and> trim_space (ws_output w) = trim_space (ref_output r) \<and> ws_index w = ref_index r)"
    and "ref_matches r By_Index = (\<lambda>w. 0 < ref_index r \<and> ws_index w = ref_index r)"
    by (auto simp: fun_eq_iff)
  then show ?thesis
    unfolding resolve_workspace_def Let_def by (simp only: find_guard [symmetric] option.map if_distrib)
      (simp split: option.split)
qed

section \<open>Example\<close>

lemma ex_select_result:
  "select [ex_prior ''b1'' 5, ex_checkpoint ''b9'' 9, ex_prior ''b2'' 7] ex_select =
     \<lparr>sel_status = Candidate_Ready, sel_source = No_Source, sel_checkpoint = Some (ex_prior ''b2'' 7),
      sel_age = 3, sel_reason = No_Reason\<rparr>"
  by code_simp

lemma ex_build_result:
  "map (\<lambda>it. (it_window_key it, it_session it, it_status it))
     (pn_items (build Policy_Current
        (select [ex_prior ''b1'' 5, ex_checkpoint ''b9'' 9, ex_prior ''b2'' 7] ex_select)
        ex_current [''a'']))
   = [(''w:1'', ''a'', Ready), (''w:2'', ''b'', Unavailable), (''w:3'', ''a'', Skipped)]"
  by code_simp

section \<open>Properties\<close>

text \<open>
  \<open>Select\<close> chooses by capture time before looking at the contents. The chosen checkpoint is a
  newest eligible one of another boot; there is none exactly when no candidate is eligible; and
  replacing the contents of the checkpoints, keeping identity and capture time, never changes
  which one is chosen. So an empty newest checkpoint never falls back to an older one.
\<close>

theorem select_newest_prior:
  assumes "\<And>c. cp_boot_id (f c) = cp_boot_id c \<and> cp_host (f c) = cp_host c
               \<and> cp_profile (f c) = cp_profile c \<and> cp_observed_at (f c) = cp_observed_at c"
  shows "(case sel_checkpoint (select cs opts) of
       None \<Rightarrow> \<not> (\<exists>x \<in> set cs. eligible opts x)
     | Some c \<Rightarrow> c \<in> set cs \<and> eligible opts c
         \<and> (\<forall>x \<in> set cs. eligible opts x \<longrightarrow> cp_observed_at x \<le> cp_observed_at c))
    \<and> sel_checkpoint (select (map f cs) opts) = map_option f (sel_checkpoint (select cs opts))"
proof
  let ?after = "\<lambda>a b. cp_observed_at b < cp_observed_at a"
  have sel: "sel_checkpoint (select cs opts) = newest ?after None (filter (eligible opts) cs)" for cs
    by (simp add: sel_checkpoint_select select_newest_eq)
  show "case sel_checkpoint (select cs opts) of
       None \<Rightarrow> \<not> (\<exists>x \<in> set cs. eligible opts x)
     | Some c \<Rightarrow> c \<in> set cs \<and> eligible opts c
         \<and> (\<forall>x \<in> set cs. eligible opts x \<longrightarrow> cp_observed_at x \<le> cp_observed_at c)"
  proof (cases "sel_checkpoint (select cs opts)")
    case None
    then have "filter (eligible opts) cs = []"
      unfolding sel observed_order.newest_None_iff by simp
    then show ?thesis using None by (auto simp: filter_empty_conv)
  next
    case (Some c)
    then have n: "newest ?after None (filter (eligible opts) cs) = Some c" by (simp add: sel)
    have "cp_observed_at x \<le> cp_observed_at c" if "x \<in> set cs" "eligible opts x" for x
      using observed_order.newest_max [OF n, of x] that by simp
    then show ?thesis using Some observed_order.newest_in [OF n] by simp
  qed
  have "eligible opts (f c) = eligible opts c" for c using assms [of c] by (simp add: eligible_def)
  then have "filter (eligible opts) (map f cs) = map f (filter (eligible opts) cs)"
    by (simp add: filter_map o_def)
  then show "sel_checkpoint (select (map f cs) opts) = map_option f (sel_checkpoint (select cs opts))"
    using newest_map [of ?after f None "filter (eligible opts) cs"] assms by (simp add: sel)
qed

theorem select_newest_prior_witness:
  "sel_checkpoint (select (map (\<lambda>c. c\<lparr>cp_state := \<lparr>st_workspaces = [], st_windows = []\<rparr>\<rparr>)
      [ex_prior ''b1'' 5, ex_checkpoint ''b9'' 9, ex_prior ''b2'' 7]) ex_select)
   = Some (ex_checkpoint ''b2'' 7)"
proof -
  let ?f = "\<lambda>c. c\<lparr>cp_state := \<lparr>st_workspaces = [], st_windows = []\<rparr>\<rparr>"
  have "sel_checkpoint (select (map ?f [ex_prior ''b1'' 5, ex_checkpoint ''b9'' 9, ex_prior ''b2'' 7]) ex_select)
      = map_option ?f (sel_checkpoint (select [ex_prior ''b1'' 5, ex_checkpoint ''b9'' 9, ex_prior ''b2'' 7] ex_select))"
    by (rule select_newest_prior [THEN conjunct2]) simp
  then show ?thesis by (simp add: ex_select_result) (simp add: ex_prior_def ex_checkpoint_def)
qed

text \<open>
  \<open>Build\<close> accounts for every captured terminal and never restores a session twice. A plan for
  a ready selection has one item per captured terminal window, in key order; the items that
  claim a session (ready, already open, degraded, failed) have pairwise different sessions; and
  an item is ready only when its session is available, is not open in a current terminal and its
  workspace resolves, to the workspace the item carries.
\<close>

theorem build_accounts:
  assumes "sel_checkpoint sel = Some c" and "sel_status sel = Candidate_Ready"
    and items: "items = pn_items (build pol sel current available)"
  shows "map it_window_key items = map w_key (terminal_windows (cp_state c))
    \<and> distinct (map it_session (filter claims_session items))
    \<and> (\<forall>it \<in> set items. it_status it \<noteq> No_Status
         \<and> (it_status it = Ready \<longrightarrow> it_session it \<in> set (string_set available)
            \<and> map_of (current_session_windows current) (it_session it) = None
            \<and> it_workspace it \<noteq> None
            \<and> it_workspace it
                = resolve_workspace (it_captured_workspace it) (st_workspaces current)))"
proof -
  let ?step = "plan_window pol (st_workspaces current) (current_session_windows current)
                 (string_set available)"
  let ?its = "map (\<lambda>w. new_item w (cp_state c)) (terminal_windows (cp_state c))"
  have e: "items = plan_windows ?step [] ?its" using assms by (simp only: build_ready)
  have each: "it_status x \<noteq> No_Status
      \<and> (it_status x = Ready \<longrightarrow> it_session x \<in> set (string_set available)
          \<and> map_of (current_session_windows current) (it_session x) = None
          \<and> it_workspace x \<noteq> None
          \<and> it_workspace x = resolve_workspace (it_captured_workspace x) (st_workspaces current))"
    if xin: "x \<in> set items" for x
  proof -
    obtain it seen where it: "it \<in> set ?its" "x = fst (?step seen it)"
      using plan_windows_in [OF xin [unfolded e]] by blast
    then have "it_status it = No_Status" by auto
    then show ?thesis using it(2) plan_window_ready [of it] plan_window_frame by (metis (no_types))
  qed
  have "map it_window_key items = map w_key (terminal_windows (cp_state c))"
    by (simp add: e plan_windows_keys)
  moreover have "distinct (map it_session (filter claims_session items))"
    unfolding e using plan_windows_claims by blast
  ultimately show ?thesis using each by blast
qed

theorem build_accounts_witness:
  "map w_key (terminal_windows (cp_state (ex_prior ''b2'' 7))) = [''w:1'', ''w:2'', ''w:3'']"
proof -
  let ?sel = "select [ex_prior ''b1'' 5, ex_checkpoint ''b9'' 9, ex_prior ''b2'' 7] ex_select"
  have "sel_checkpoint ?sel = Some (ex_prior ''b2'' 7)" "sel_status ?sel = Candidate_Ready"
    by (simp_all add: ex_select_result)
  from build_accounts [OF this refl, of Policy_Current ex_current "[''a'']"]
  have "map it_window_key (pn_items (build Policy_Current ?sel ex_current [''a'']))
        = map w_key (terminal_windows (cp_state (ex_prior ''b2'' 7)))"
    by blast
  moreover have "map it_window_key (pn_items (build Policy_Current ?sel ex_current [''a'']))
        = map fst (map (\<lambda>it. (it_window_key it, it_session it, it_status it))
            (pn_items (build Policy_Current ?sel ex_current [''a''])))"
    by simp
  ultimately show ?thesis by (simp only: ex_build_result list.map fst_conv)
qed

text \<open>
  \<open>ResolveWorkspace\<close> answers with a current workspace that the captured reference matches by
  the reported method, the first of those in index and id order; no preferred method matches
  any workspace; and without an answer no method matches any workspace.
\<close>

theorem resolve_workspace_sound:
  "case resolve_workspace r wss of
     None \<Rightarrow> list_all (\<lambda>w. \<not> ref_matches r By_Name w \<and> \<not> ref_matches r By_Output_Index w
                        \<and> \<not> ref_matches r By_Index w) wss
   | Some t \<Rightarrow> list_all (\<lambda>w. list_all (\<lambda>m. \<not> ref_matches r m w) (preferred (wt_method t))) wss
       \<and> list_ex (\<lambda>w. t = target_of w (wt_method t) \<and> ref_matches r (wt_method t) w
             \<and> list_all (\<lambda>w'. \<not> (ref_matches r (wt_method t) w' \<and> workspace_less w' w)) wss) wss"
proof -
  let ?s = "stable_sort workspace_less wss"
  let ?find = "\<lambda>m. find (ref_matches r m) ?s"
  note res = resolve_workspace_eq [of r wss]
  have min: "w \<in> set wss \<and> ref_matches r m w
      \<and> (\<forall>y \<in> set wss. ref_matches r m y \<longrightarrow> \<not> workspace_less y w)"
    if "?find m = Some w" for m w
    using that by (rule workspace_order.find_stable_sort)
  have none: "\<forall>w \<in> set wss. \<not> ref_matches r m w" if "?find m = None" for m
    using that by (simp only: find_stable_sort_None)
  have hit: "list_ex (\<lambda>w. target_of v m = target_of w m \<and> ref_matches r m w
      \<and> list_all (\<lambda>w'. \<not> (ref_matches r m w' \<and> workspace_less w' w)) wss) wss"
    if "?find m = Some v" for m v
    using min [OF that] by (auto simp: list_ex_iff list_all_iff)
  have wtm: "wt_method (target_of w m) = m" for w m by (simp add: target_of_def)
  show ?thesis
  proof (cases "?find By_Name")
    case (Some w)
    then have "resolve_workspace r wss = Some (target_of w By_Name)"
      by (simp only: res Let_def option.case)
    then show ?thesis using hit [OF Some] by (simp add: wtm list_all_iff)
  next
    case n1: None
    show ?thesis
    proof (cases "?find By_Output_Index")
      case (Some w)
      then have "resolve_workspace r wss = Some (target_of w By_Output_Index)"
        by (simp only: res Let_def n1 option.case)
      then show ?thesis using hit [OF Some] none [OF n1]
        by (simp add: wtm list_all_iff del: ref_matches.simps)
    next
      case n2: None
      show ?thesis
      proof (cases "?find By_Index")
        case (Some w)
        then have "resolve_workspace r wss = Some (target_of w By_Index)"
          by (simp only: res Let_def n1 n2 option.case option.map)
        then show ?thesis using hit [OF Some] none [OF n1] none [OF n2]
          by (simp add: wtm list_all_iff del: ref_matches.simps)
      next
        case n3: None
        then have "resolve_workspace r wss = None"
          by (simp only: res Let_def n1 n2 option.case option.map)
        then show ?thesis using none [OF n1] none [OF n2] none [OF n3]
          by (simp add: list_all_iff del: ref_matches.simps)
      qed
    qed
  qed
qed

text \<open>
  The summary of a built plan counts its items: each counter is the number of items with its
  status, whatever the selection was.
\<close>

theorem build_summary_counts:
  "list_all (\<lambda>st. counter st (pn_summary (build pol sel current available))
       = length (filter (\<lambda>it. it_status it = st) (pn_items (build pol sel current available))))
     all_statuses"
  by (simp add: all_statuses_def build_def Let_def counter_summarize start_plan_def
      zero_summary_def [symmetric] split: option.split del: counter.simps)


end
