(* ===== verification/Niri_Adapter.thy ===== *)
theory Niri_Adapter
  imports Complex_Main Resume_Planner
begin

text \<open>
  The Niri adapter, \<open>internal/niri/adapter.go\<close>: from a decoded JSON snapshot to the state of the
  data model. The payload types are the values that \<open>json.Unmarshal\<close> fills in. A value of Go
  type \<open>any\<close> is \<open>json_any\<close>: null, a string, a number (sign and exact magnitude of the float64),
  or any other value with the text \<open>fmt.Sprint\<close> gives for it.
\<close>

section \<open>Payload\<close>

datatype json_any = J_Null | J_String string | J_Number bool rat | J_Other string

record workspace_payload =
  wp_id :: json_any
  wp_index :: int
  wp_name :: json_any
  wp_output :: json_any

record layout_payload =
  lp_pos :: "int list"
  lp_tile_size :: "float64 list"
  lp_window_size :: "int list"

record window_payload =
  np_id :: int
  np_app_id :: json_any
  np_title :: string
  np_workspace_id :: json_any
  np_pid :: int
  np_is_focused :: bool
  np_is_floating :: "bool option"
  np_layout :: "layout_payload option"

text \<open>The two attempts to decode: a snapshot object, else a list of windows.\<close>

datatype decoded =
    Snapshot "workspace_payload list" "window_payload list"
  | Windows_Only "window_payload list"
  | Undecodable

section \<open>Conversion\<close>

text \<open>The format verb %.0f rounds to the nearest integer, halves to the even one.\<close>

definition round_half_even :: "rat \<Rightarrow> int" where
  "round_half_even r =
     (let f = \<lfloor>r\<rfloor>; d = r - of_int f
      in if d < 1 / 2 then f else if 1 / 2 < d then f + 1 else if even f then f else f + 1)"

definition value_as_string :: "json_any \<Rightarrow> string \<times> bool" where
  "value_as_string v =
     (case v of
        J_Null \<Rightarrow> ([], False)
      | J_String x \<Rightarrow> (x, x \<noteq> [])
      | J_Number neg m \<Rightarrow>
          ((if neg then ''-'' else []) @ show_nat (nat (round_half_even m)), True)
      | J_Other x \<Rightarrow> (x, True))"

definition workspace_of_payload :: "workspace_payload \<Rightarrow> workspace" where
  "workspace_of_payload w =
     \<lparr>ws_id = fst (value_as_string (wp_id w)), ws_index = wp_index w,
      ws_name = fst (value_as_string (wp_name w)), ws_output = fst (value_as_string (wp_output w))\<rparr>"

text \<open>The references by identifier; a later workspace of the same identifier wins.\<close>

fun workspace_refs :: "workspace list \<Rightarrow> (string \<times> workspace_ref) list
    \<Rightarrow> (string \<times> workspace_ref) list" where
  "workspace_refs [] refs = refs"
| "workspace_refs (w # ws) refs =
     workspace_refs ws
       (if ws_id w \<noteq> [] \<and> (ws_name w \<noteq> [] \<or> ws_output w \<noteq> [] \<or> 0 < ws_index w)
        then AList.update (ws_id w) (ref_of_workspace w) refs else refs)"

definition placement_from_payload :: "window_payload \<Rightarrow> placement option" where
  "placement_from_payload w =
     (let p = (case np_layout w of
                 None \<Rightarrow> \<lparr>pl_column = None, pl_row = None, pl_is_floating = np_is_floating w,
                         pl_tile_size = [], pl_window_size = []\<rparr>
               | Some l \<Rightarrow> \<lparr>pl_column = (case lp_pos l of c # _ \<Rightarrow> Some c | [] \<Rightarrow> None),
                           pl_row = (case lp_pos l of _ # r # _ \<Rightarrow> Some r | _ \<Rightarrow> None),
                           pl_is_floating = np_is_floating w,
                           pl_tile_size = lp_tile_size l, pl_window_size = lp_window_size l\<rparr>)
      in if pl_column p = None \<and> pl_is_floating p = None \<and> pl_tile_size p = []
            \<and> pl_window_size p = [] then None else Some p)"

definition window_of_payload :: "(string \<times> workspace_ref) list \<Rightarrow> window_payload \<Rightarrow> window" where
  "window_of_payload refs w =
     (let app = fst (value_as_string (np_app_id w));
          ws = fst (value_as_string (np_workspace_id w))
      in \<lparr>w_key = ''w:'' @ app @ '':'' @ show_int (np_id w), w_app_id = app, w_workspace_id = ws,
          w_workspace_ref = map_of refs ws, w_pid = np_pid w, w_title = np_title w,
          w_is_focused = np_is_focused w, w_placement = placement_from_payload w,
          w_terminal = None\<rparr>)"

definition parse_snapshot :: "decoded \<Rightarrow> state option" where
  "parse_snapshot d =
     (let of_payload = (\<lambda>wss ws.
            (let workspaces = map workspace_of_payload wss
             in normalize \<lparr>st_workspaces = workspaces,
                  st_windows = map (window_of_payload (workspace_refs workspaces [])) ws\<rparr>))
      in case d of
           Snapshot wss ws \<Rightarrow> Some (of_payload wss ws)
         | Windows_Only ws \<Rightarrow> Some (of_payload [] ws)
         | Undecodable \<Rightarrow> None)"

definition ex_window_payload :: window_payload where
  "ex_window_payload =
     \<lparr>np_id = 42, np_app_id = J_String ''kitty'', np_title = ''t'', np_workspace_id = J_Number False 3,
      np_pid = 9, np_is_focused = True, np_is_floating = None,
      np_layout = Some \<lparr>lp_pos = [2, 1], lp_tile_size = [], lp_window_size = [800, 600]\<rparr>\<rparr>"

section \<open>Lemmas\<close>

lemma w_key_window_of_payload:
  "w_key (window_of_payload refs w) =
     ''w:'' @ fst (value_as_string (np_app_id w)) @ '':'' @ show_int (np_id w)"
  by (simp add: window_of_payload_def Let_def)

lemma no_colon_show_nat: "CHR '':'' \<notin> set (show_nat n)"
  using show_nat_digits [of n] is_digit_not by (auto simp: list_all_iff)

lemma runtime_window_id_key:
  assumes "0 < i" and "i < 2 ^ 63"
  shows "runtime_window_id (p @ CHR '':'' # show_int i) = Some i"
proof -
  have n: "nat i < 2 ^ 63" using assms by (simp add: nat_less_iff)
  have s: "show_int i = show_nat (nat i)" using assms by (simp add: show_int_def)
  then have "after_last CHR '':'' (p @ CHR '':'' # show_int i) = Some (show_nat (nat i))"
    using no_colon_show_nat by (simp add: after_last_append)
  then show ?thesis using atoi_show_nat [OF n] assms by (simp add: runtime_window_id_def)
qed

lemma map_of_workspace_refs:
  "map_of (workspace_refs ws refs) k = Some r \<Longrightarrow>
   map_of refs k = Some r \<or> (\<exists>w \<in> set ws. ws_id w = k \<and> r = ref_of_workspace w)"
  by (induction ws refs rule: workspace_refs.induct) (auto split: if_splits)

lemma map_of_workspace_refs_None:
  "map_of (workspace_refs ws refs) k = None \<Longrightarrow>
   map_of refs k = None \<and> \<not> (\<exists>w \<in> set ws. ws_id w = k \<and> k \<noteq> []
        \<and> (ws_name w \<noteq> [] \<or> ws_output w \<noteq> [] \<or> 0 < ws_index w))"
  by (induction ws refs rule: workspace_refs.induct) (auto split: if_splits)

lemma parse_snapshot_Some:
  assumes "parse_snapshot d = Some s"
  shows "\<exists>wss ws. s = normalize \<lparr>st_workspaces = map workspace_of_payload wss,
     st_windows = map (window_of_payload (workspace_refs (map workspace_of_payload wss) [])) ws\<rparr>"
proof (cases d)
  case (Snapshot wss ws)
  then show ?thesis using assms by (intro exI [of _ wss] exI [of _ ws]) (simp add: parse_snapshot_def Let_def)
next
  case (Windows_Only ws)
  then show ?thesis using assms by (intro exI [of _ "[]"] exI [of _ ws]) (simp add: parse_snapshot_def Let_def)
next
  case Undecodable
  then show ?thesis using assms by (simp add: parse_snapshot_def)
qed

section \<open>Properties\<close>

text \<open>
  Window identifiers survive the key. For every window of a parsed snapshot with a positive
  identifier, \<open>runtimeWindowID\<close> of the key the adapter builds returns the identifier, whatever
  bytes the application identifier holds.
\<close>

theorem window_key_roundtrip:
  assumes "0 < np_id w" and "np_id w < 2 ^ 63"
  shows "runtime_window_id (w_key (window_of_payload refs w)) = Some (np_id w)"
proof -
  have "w_key (window_of_payload refs w)
        = (''w:'' @ fst (value_as_string (np_app_id w))) @ CHR '':'' # show_int (np_id w)"
    by (simp add: w_key_window_of_payload)
  then show ?thesis by (simp only: runtime_window_id_key [OF assms])
qed

theorem window_key_roundtrip_witness:
  "runtime_window_id (w_key (window_of_payload [] ex_window_payload)) = Some 42"
  using window_key_roundtrip [of ex_window_payload "[]"] by (simp add: ex_window_payload_def)

text \<open>
  Placement references are sound. In a parsed snapshot every window either carries the
  reference (name, output, index) of a reported workspace with its own workspace identifier, or
  no workspace with that identifier has anything to refer to.
\<close>

theorem snapshot_refs_sound:
  assumes "parse_snapshot d = Some s"
  shows "\<forall>w \<in> set (st_windows s).
     (case w_workspace_ref w of
        Some r \<Rightarrow> \<exists>ws \<in> set (st_workspaces s). ws_id ws = w_workspace_id w \<and> r = ref_of_workspace ws
      | None \<Rightarrow> \<not> (\<exists>ws \<in> set (st_workspaces s). ws_id ws = w_workspace_id w \<and> ws_id ws \<noteq> []
                  \<and> (ws_name ws \<noteq> [] \<or> ws_output ws \<noteq> [] \<or> 0 < ws_index ws)))"
proof -
  from assms obtain wss ws where s:
    "s = normalize \<lparr>st_workspaces = map workspace_of_payload wss,
           st_windows = map (window_of_payload (workspace_refs (map workspace_of_payload wss) [])) ws\<rparr>"
    by (metis parse_snapshot_Some)
  let ?refs = "workspace_refs (map workspace_of_payload wss) []"
  have wsp: "set (st_workspaces s) = set (map workspace_of_payload wss)"
    by (simp add: s normalize_def)
  show ?thesis
  proof
    fix w assume "w \<in> set (st_windows s)"
    then obtain p where "w = normalize_window (window_of_payload ?refs p)"
      by (auto simp: s normalize_def)
    then have w: "w_workspace_ref w = map_of ?refs (w_workspace_id w)"
      by (simp add: normalize_window_def window_of_payload_def Let_def)
    show "case w_workspace_ref w of
        Some r \<Rightarrow> \<exists>ws \<in> set (st_workspaces s). ws_id ws = w_workspace_id w \<and> r = ref_of_workspace ws
      | None \<Rightarrow> \<not> (\<exists>ws \<in> set (st_workspaces s). ws_id ws = w_workspace_id w \<and> ws_id ws \<noteq> []
                  \<and> (ws_name ws \<noteq> [] \<or> ws_output ws \<noteq> [] \<or> 0 < ws_index ws))"
    proof (cases "w_workspace_ref w")
      case None
      then have "map_of ?refs (w_workspace_id w) = None" using w by simp
      from map_of_workspace_refs_None [OF this] None show ?thesis unfolding wsp by auto
    next
      case (Some r)
      then have "map_of ?refs (w_workspace_id w) = Some r" using w by simp
      from map_of_workspace_refs [OF this] Some show ?thesis unfolding wsp by auto
    qed
  qed
qed

theorem snapshot_refs_sound_witness:
  "\<exists>s w. parse_snapshot (Snapshot
       [\<lparr>wp_id = J_Number False 3, wp_index = 1, wp_name = J_String ''dev'', wp_output = J_Null\<rparr>]
       [ex_window_payload]) = Some s
     \<and> st_windows s = [w] \<and> w_workspace_ref w \<noteq> None
     \<and> (\<exists>ws. st_workspaces s = [ws] \<and> ws_id ws = w_workspace_id w)"
proof -
  let ?d = "Snapshot
       [\<lparr>wp_id = J_Number False 3, wp_index = 1, wp_name = J_String ''dev'', wp_output = J_Null\<rparr>]
       [ex_window_payload]"
  let ?w = "window_of_payload [(''3'', \<lparr>ref_name = ''dev'', ref_output = [], ref_index = 1\<rparr>)] ex_window_payload"
  let ?ws = "\<lparr>ws_id = ''3'', ws_index = 1, ws_name = ''dev'', ws_output = []\<rparr>"
  have p: "parse_snapshot ?d = Some \<lparr>st_workspaces = [?ws], st_windows = [?w]\<rparr>"
    by code_simp
  have r: "w_workspace_ref ?w \<noteq> None" by code_simp
  from snapshot_refs_sound [OF p] r have "ws_id ?ws = w_workspace_id ?w" by auto
  then show ?thesis using p r by simp
qed

end
