(* ===== verification/Zellij_Catalog.thy ===== *)
theory Zellij_Catalog
  imports Go_Prelude
begin

text \<open>
  The session catalog of \<open>internal/zellijlive\<close>: the safety statuses, the exact lookup, and the
  assembly of one catalog from the operating system's answers (the output of
  \<open>zellij list-sessions\<close>, the entries of the socket directory with their \<open>lstat\<close> results, and
  the entries of the resurrection cache). Those answers are the record \<open>observe_env\<close>. The digest
  behind \<open>SessionID\<close> and the kernel query behind \<open>ExactSocketIDAt\<close> are answers too.
\<close>

section \<open>Data\<close>

datatype zstatus =
    Active
  | Dead_Resurrectable
  | Missing
  | Prefix_Only
  | Duplicate
  | Socket_Invalid
  | Other_Status string

record session =
  zs_name :: string
  zs_id :: string
  zs_exact_id :: string
  zs_status :: zstatus

text \<open>A nil map or slice is \<^term>\<open>None\<close>; it reads like an empty one.\<close>

record catalog =
  cat_sessions :: "(string \<times> session) list option"
  cat_names :: "string list option"
  cat_cache_available :: bool

definition session_map :: "catalog \<Rightarrow> (string \<times> session) list" where
  "session_map c = (case cat_sessions c of None \<Rightarrow> [] | Some m \<Rightarrow> m)"

definition name_list :: "catalog \<Rightarrow> string list" where
  "name_list c = (case cat_names c of None \<Rightarrow> [] | Some ns \<Rightarrow> ns)"

definition session_with :: "string \<Rightarrow> zstatus \<Rightarrow> session" where
  "session_with name st = \<lparr>zs_name = name, zs_id = [], zs_exact_id = [], zs_status = st\<rparr>"

section \<open>Exact lookup\<close>

definition exact :: "catalog \<Rightarrow> string \<Rightarrow> session" where
  "exact c name =
     (case map_of (session_map c) name of
        Some s \<Rightarrow> s
      | None \<Rightarrow>
          if list_ex (\<lambda>cand. length name < length cand \<and> take (length name) cand = name)
               (name_list c)
          then session_with name Prefix_Only
          else session_with name Missing)"

section \<open>Names\<close>

definition is_cont :: "char \<Rightarrow> bool" where
  "is_cont c \<longleftrightarrow> 128 \<le> (of_char c :: nat) \<and> of_char c \<le> (191::nat)"

definition byte_in :: "nat \<Rightarrow> nat \<Rightarrow> char \<Rightarrow> bool" where
  "byte_in lo hi c \<longleftrightarrow> lo \<le> of_char c \<and> of_char c \<le> hi"

fun utf8_valid :: "string \<Rightarrow> bool" where
  "utf8_valid [] = True"
| "utf8_valid (a # s) =
     (if byte_in 0 127 a then utf8_valid s
      else if byte_in 194 223 a then
        (case s of b # t \<Rightarrow> is_cont b \<and> utf8_valid t | [] \<Rightarrow> False)
      else if byte_in 224 239 a then
        (case s of b # c # t \<Rightarrow>
            (if a = CHR 0xE0 then byte_in 160 191 b
             else if a = CHR 0xED then byte_in 128 159 b else is_cont b)
            \<and> is_cont c \<and> utf8_valid t
         | _ \<Rightarrow> False)
      else if byte_in 240 244 a then
        (case s of b # c # d # t \<Rightarrow>
            (if a = CHR 0xF0 then byte_in 144 191 b
             else if a = CHR 0xF4 then byte_in 128 143 b else is_cont b)
            \<and> is_cont c \<and> is_cont d \<and> utf8_valid t
         | _ \<Rightarrow> False)
      else False)"

definition safe_session_name :: "string \<Rightarrow> bool" where
  "safe_session_name name \<longleftrightarrow>
     name \<noteq> [] \<and> name \<noteq> ''.'' \<and> name \<noteq> ''..'' \<and> length name \<le> 255
     \<and> CHR ''/'' \<notin> set name \<and> utf8_valid name \<and> trim_space name = name \<and> \<not> has_control name"

text \<open>
  \<open>bufio.ScanLines\<close>: lines end at a newline, a carriage return before it is dropped, and the
  text after the last newline is a line unless it is empty. The scanner's token bound of 64 KiB
  only refuses lines that \<open>safe_session_name\<close> refuses as well.
\<close>

fun split_newline :: "string \<Rightarrow> string list" where
  "split_newline [] = [[]]"
| "split_newline (c # s) =
     (if c = CHR 0x0A then [] # split_newline s
      else (case split_newline s of l # ls \<Rightarrow> (c # l) # ls | [] \<Rightarrow> [[c]]))"

definition drop_cr :: "string \<Rightarrow> string" where
  "drop_cr l = (if l \<noteq> [] \<and> last l = CHR 0x0D then butlast l else l)"

definition scan_lines :: "string \<Rightarrow> string list" where
  "scan_lines s =
     (let ls = split_newline s
      in map drop_cr (if last ls = [] then butlast ls else ls))"

definition parse_lines :: "string \<Rightarrow> string list option" where
  "parse_lines payload =
     (let names = scan_lines payload
      in if list_all safe_session_name names then Some names else None)"

section \<open>One observation\<close>

definition max_socket_path_bytes :: nat where "max_socket_path_bytes = 107"
definition max_catalog_bytes :: nat where "max_catalog_bytes = 1048576"
definition max_catalog_entries :: nat where "max_catalog_entries = 4096"

datatype dir_check = Dir_Owned | Dir_Absent | Dir_Refused

datatype command_error = Exit_Code int | Other_Failure

record lstat =
  is_socket :: bool
  is_symlink :: bool
  stat_uid :: int
  stat_dev :: nat
  stat_ino :: nat

record dir_entry =
  de_name :: string
  de_is_dir :: bool
  de_lstat :: "lstat option"
  de_exact_id :: string

datatype read_dir = Entries "dir_entry list" | Dir_Not_Exist | Read_Failure

record observe_env =
  env_uid :: int
  env_boot_id :: string
  env_contract_dir :: string
  env_base_before :: dir_check
  env_contract_before :: dir_check
  env_cache_temp_ok :: bool
  env_ctx_err :: bool
  env_stdout :: string
  env_stderr :: string
  env_command_err :: "command_error option"
  env_base_after :: dir_check
  env_contract_after :: dir_check
  env_sockets :: read_dir
  env_dead :: read_dir

datatype observe_error =
    Socket_Base_Refused
  | Contract_Dir_Refused
  | Temp_Cache_Failed
  | List_Failed
  | Unexpected_Diagnostic
  | Parse_Failed
  | Socket_Read_Failed
  | Entry_Bound_Exceeded
  | Dead_Read_Failed
  | Dead_Bound_Exceeded

definition no_sessions_message :: string where
  "no_sessions_message = ''No active zellij sessions found.'' @ [CHR 0x0A]"

definition empty_catalog_reply :: "observe_env \<Rightarrow> bool" where
  "empty_catalog_reply e \<longleftrightarrow>
     \<not> env_ctx_err e \<and> env_command_err e = Some (Exit_Code 1)
     \<and> env_stdout e = [] \<and> env_stderr e = no_sessions_message"

definition entries_of :: "read_dir \<Rightarrow> dir_entry list" where
  "entries_of r = (case r of Entries es \<Rightarrow> es | _ \<Rightarrow> [])"

text \<open>The status of one socket entry, in the order of the loop's checks.\<close>

definition socket_session ::
    "(string \<Rightarrow> string \<Rightarrow> nat \<Rightarrow> nat \<Rightarrow> string) \<Rightarrow> observe_env \<Rightarrow> string list \<Rightarrow> dir_entry \<Rightarrow> session"
where
  "socket_session session_id e listed entry =
     (let name = de_name entry in
      if \<not> safe_session_name name
         \<or> max_socket_path_bytes < length (env_contract_dir e) + 1 + length name
      then session_with name Socket_Invalid
      else case de_lstat entry of
          None \<Rightarrow> session_with name Socket_Invalid
        | Some info \<Rightarrow>
            if \<not> is_socket info \<or> is_symlink info then session_with name Socket_Invalid
            else if stat_uid info \<noteq> env_uid e then session_with name Socket_Invalid
            else if count_list listed name \<noteq> 1 then session_with name Duplicate
            else \<lparr>zs_name = name,
                  zs_id = session_id (env_boot_id e) name (stat_dev info) (stat_ino info),
                  zs_exact_id = de_exact_id entry, zs_status = Active\<rparr>)"

fun add_sockets ::
    "(dir_entry \<Rightarrow> session) \<Rightarrow> dir_entry list \<Rightarrow> (string \<times> session) list
     \<Rightarrow> (string \<times> session) list"
where
  "add_sockets f [] m = m"
| "add_sockets f (d # ds) m = add_sockets f ds (AList.update (de_name d) (f d) m)"

text \<open>The loop over the counts of the listed names; a map's keys come in no fixed order.\<close>

fun add_listed ::
    "string list \<Rightarrow> string list \<Rightarrow> (string \<times> session) list \<Rightarrow> (string \<times> session) list"
where
  "add_listed listed [] m = m"
| "add_listed listed (name # names) m =
     add_listed listed names
       (if 1 < count_list listed name then AList.update name (session_with name Duplicate) m
        else if map_of m name = None then AList.update name (session_with name Missing) m
        else m)"

fun add_dead :: "dir_entry list \<Rightarrow> (string \<times> session) list \<Rightarrow> (string \<times> session) list" where
  "add_dead [] m = m"
| "add_dead (d # ds) m =
     add_dead ds
       (if \<not> de_is_dir d then m
        else if map_of m (de_name d) = None
        then AList.update (de_name d) (session_with (de_name d) Dead_Resurrectable) m
        else m)"

definition observe ::
    "(string \<Rightarrow> string \<Rightarrow> nat \<Rightarrow> nat \<Rightarrow> string) \<Rightarrow> observe_env \<Rightarrow> observe_error + catalog"
where
  "observe session_id e =
     (if env_base_before e = Dir_Refused then Inl Socket_Base_Refused
      else if env_contract_before e = Dir_Refused then Inl Contract_Dir_Refused
      else if \<not> env_cache_temp_ok e then Inl Temp_Cache_Failed
      else if env_command_err e \<noteq> None \<and> \<not> empty_catalog_reply e then Inl List_Failed
      else if env_stderr e \<noteq> [] \<and> \<not> empty_catalog_reply e then Inl Unexpected_Diagnostic
      else case parse_lines (env_stdout e) of
        None \<Rightarrow> Inl Parse_Failed
      | Some listed \<Rightarrow>
          if env_base_after e = Dir_Refused then Inl Socket_Base_Refused
          else if env_contract_after e = Dir_Refused then Inl Contract_Dir_Refused
          else if env_sockets e = Read_Failure then Inl Socket_Read_Failed
          else if max_catalog_entries < length (entries_of (env_sockets e))
                  \<or> max_catalog_entries < length listed then Inl Entry_Bound_Exceeded
          else
            let sockets = add_sockets (socket_session session_id e listed)
                            (entries_of (env_sockets e)) [];
                live = add_listed listed (remdups listed) sockets
            in if env_dead e = Read_Failure then Inl Dead_Read_Failed
               else if max_catalog_entries < length (entries_of (env_dead e))
               then Inl Dead_Bound_Exceeded
               else
                 let all = add_dead (entries_of (env_dead e)) live
                 in Inr \<lparr>cat_sessions = Some all,
                        cat_names = Some (sort_strings (map fst all)),
                        cat_cache_available =
                          (case env_dead e of Entries _ \<Rightarrow> True | _ \<Rightarrow> False)\<rparr>)"

section \<open>Well-formed catalogs\<close>

definition wf_catalog :: "catalog \<Rightarrow> bool" where
  "wf_catalog c \<longleftrightarrow>
     distinct (map fst (session_map c))
     \<and> name_list c = sort_strings (map fst (session_map c))
     \<and> (\<forall>(n, s) \<in> set (session_map c). zs_name s = n)"

definition keyed_by_name :: "(string \<times> session) list \<Rightarrow> bool" where
  "keyed_by_name m \<longleftrightarrow> distinct (map fst m) \<and> (\<forall>n s. map_of m n = Some s \<longrightarrow> zs_name s = n)"

definition live_socket :: "observe_env \<Rightarrow> dir_entry \<Rightarrow> bool" where
  "live_socket e d \<longleftrightarrow>
     safe_session_name (de_name d)
     \<and> length (env_contract_dir e) + 1 + length (de_name d) \<le> max_socket_path_bytes
     \<and> (\<exists>info. de_lstat d = Some info \<and> is_socket info \<and> \<not> is_symlink info
               \<and> stat_uid info = env_uid e)"

text \<open>
  A host with one live session \<open>a\<close>, a foreign socket \<open>b\<close> and a cached session \<open>c\<close>.
\<close>

definition ex_socket :: "string \<Rightarrow> int \<Rightarrow> dir_entry" where
  "ex_socket name uid =
     \<lparr>de_name = name, de_is_dir = False,
      de_lstat = Some \<lparr>is_socket = True, is_symlink = False, stat_uid = uid, stat_dev = 1, stat_ino = 2\<rparr>,
      de_exact_id = ''x''\<rparr>"

definition ex_observe :: observe_env where
  "ex_observe =
     \<lparr>env_uid = 1000, env_boot_id = ''boot'', env_contract_dir = ''/run/z'',
      env_base_before = Dir_Owned, env_contract_before = Dir_Owned, env_cache_temp_ok = True,
      env_ctx_err = False, env_stdout = ''a'' @ [CHR 0x0A] @ ''b'' @ [CHR 0x0A], env_stderr = [],
      env_command_err = None, env_base_after = Dir_Owned, env_contract_after = Dir_Owned,
      env_sockets = Entries [ex_socket ''a'' 1000, ex_socket ''b'' 0],
      env_dead = Entries [\<lparr>de_name = ''c'', de_is_dir = True, de_lstat = None, de_exact_id = []\<rparr>]\<rparr>"

definition ex_session_id :: "string \<Rightarrow> string \<Rightarrow> nat \<Rightarrow> nat \<Rightarrow> string" where
  "ex_session_id boot name dev ino = name @ ''-id''"

section \<open>Lemmas\<close>

lemma zs_name_session_with [simp]: "zs_name (session_with n st) = n"
  by (simp add: session_with_def)

lemma zs_status_session_with [simp]: "zs_status (session_with n st) = st"
  by (simp add: session_with_def)

lemma exact_recorded: "map_of (session_map c) name = Some s \<Longrightarrow> exact c name = s"
  by (simp add: exact_def)

lemma exact_absent_status:
  "map_of (session_map c) name = None \<Longrightarrow> zs_status (exact c name) \<in> {Prefix_Only, Missing}"
  by (simp add: exact_def)

text \<open>Only a recorded session can be Active or Dead_Resurrectable.\<close>

lemma exact_live_recorded:
  assumes "zs_status (exact c name) \<notin> {Prefix_Only, Missing}"
  shows "map_of (session_map c) name = Some (exact c name)"
proof (cases "map_of (session_map c) name")
  case None
  then show ?thesis using assms exact_absent_status [of c name] by blast
next
  case (Some s)
  then show ?thesis by (simp add: exact_recorded)
qed

lemma wf_catalog_name: "wf_catalog c \<Longrightarrow> zs_name (exact c name) = name"
  by (auto simp: exact_def wf_catalog_def dest: map_of_SomeD split: option.splits)

lemma keyed_update [inv_intros]:
  "keyed_by_name m \<Longrightarrow> zs_name s = n \<Longrightarrow> keyed_by_name (AList.update n s m)"
  by (auto simp: keyed_by_name_def distinct_update)

lemma keyed_Nil [inv_intros]: "keyed_by_name []"
  by (simp add: keyed_by_name_def)

lemma zs_name_socket_session [simp]: "zs_name (socket_session sid e listed d) = de_name d"
  by (simp add: socket_session_def Let_def split: option.splits)

lemma keyed_add_sockets [inv_intros]:
  "keyed_by_name m \<Longrightarrow> (\<And>d. zs_name (f d) = de_name d) \<Longrightarrow> keyed_by_name (add_sockets f ds m)"
  by (induction ds arbitrary: m) (auto intro: keyed_update)

lemma keyed_add_listed [inv_intros]:
  "keyed_by_name m \<Longrightarrow> keyed_by_name (add_listed listed names m)"
  by (induction names arbitrary: m) (simp_all add: keyed_update)

lemma keyed_add_dead [inv_intros]: "keyed_by_name m \<Longrightarrow> keyed_by_name (add_dead ds m)"
  by (induction ds arbitrary: m) (simp_all add: keyed_update)

lemma map_of_add_sockets_other:
  "n \<notin> de_name ` set ds \<Longrightarrow> map_of (add_sockets f ds m) n = map_of m n"
  by (induction ds arbitrary: m) auto

lemma map_of_add_sockets_in:
  "distinct (map de_name ds) \<Longrightarrow> d \<in> set ds \<Longrightarrow>
   map_of (add_sockets f ds m) (de_name d) = Some (f d)"
proof (induction ds arbitrary: m)
  case Nil
  then show ?case by simp
next
  case (Cons x ds)
  show ?case
  proof (cases "d = x")
    case True
    with Cons.prems show ?thesis by (simp add: map_of_add_sockets_other)
  next
    case False
    with Cons show ?thesis by simp
  qed
qed

lemma map_of_add_listed:
  assumes "distinct names"
  shows "map_of (add_listed listed names m) n =
    (if n \<in> set names \<and> 1 < count_list listed n then Some (session_with n Duplicate)
     else if n \<in> set names \<and> map_of m n = None then Some (session_with n Missing)
     else map_of m n)"
  using assms by (induction names arbitrary: m) auto

lemma map_of_add_dead:
  "map_of (add_dead ds m) n =
    (if map_of m n \<noteq> None then map_of m n
     else if \<exists>d \<in> set ds. de_is_dir d \<and> de_name d = n
     then Some (session_with n Dead_Resurrectable) else None)"
  by (induction ds arbitrary: m) auto

lemma observe_InrD:
  assumes "observe sid e = Inr c"
  obtains listed where "parse_lines (env_stdout e) = Some listed"
    and "cat_sessions c =
      Some (add_dead (entries_of (env_dead e))
        (add_listed listed (remdups listed)
          (add_sockets (socket_session sid e listed) (entries_of (env_sockets e)) [])))"
    and "cat_names c = Some (sort_strings (map fst (session_map c)))"
    and "length (entries_of (env_sockets e)) \<le> max_catalog_entries"
    and "length listed \<le> max_catalog_entries"
    and "length (entries_of (env_dead e)) \<le> max_catalog_entries"
  using assms
  by (auto simp: observe_def Let_def session_map_def not_less split: if_splits option.splits)

lemma socket_session_active_iff:
  "zs_status (socket_session sid e listed d) = Active
   \<longleftrightarrow> live_socket e d \<and> count_list listed (de_name d) = 1"
  by (auto simp: socket_session_def live_socket_def Let_def split: option.splits)

section \<open>Example\<close>

lemma ex_observe_Inr:
  "observe ex_session_id ex_observe =
     Inr \<lparr>cat_sessions = Some
            [(''a'', \<lparr>zs_name = ''a'', zs_id = ''a-id'', zs_exact_id = ''x'', zs_status = Active\<rparr>),
             (''b'', session_with ''b'' Socket_Invalid),
             (''c'', session_with ''c'' Dead_Resurrectable)],
          cat_names = Some [''a'', ''b'', ''c''], cat_cache_available = True\<rparr>"
  by code_simp

lemma ex_observe_listing: "parse_lines (env_stdout ex_observe) = Some [''a'', ''b'']"
  by code_simp

lemma ex_observe_dirs: "distinct (map de_name (entries_of (env_sockets ex_observe)))"
  by code_simp

section \<open>Properties\<close>

text \<open>
  A successful observation yields a well-formed catalog: the names are exactly the recorded
  sessions in sorted order without repetition, and each record carries its own name, so that the
  exact lookup never answers with the record of another session.
\<close>

theorem observe_wf:
  assumes "observe sid e = Inr c"
  shows "wf_catalog c \<and> zs_name (exact c name) = name"
proof -
  from assms obtain listed where
    sess: "cat_sessions c = Some (add_dead (entries_of (env_dead e))
        (add_listed listed (remdups listed)
          (add_sockets (socket_session sid e listed) (entries_of (env_sockets e)) [])))"
    and names: "cat_names c = Some (sort_strings (map fst (session_map c)))"
    by (rule observe_InrD)
  have "keyed_by_name (session_map c)"
    unfolding session_map_def sess option.case
    by (intro inv_intros) simp
  then have "wf_catalog c"
    using names by (auto simp: wf_catalog_def name_list_def keyed_by_name_def)
  then show ?thesis by (simp add: wf_catalog_name)
qed

theorem observe_wf_witness:
  "\<exists>c. observe ex_session_id ex_observe = Inr c \<and> wf_catalog c \<and> zs_name (exact c ''b'') = ''b''"
  using observe_wf [OF ex_observe_Inr] ex_observe_Inr by blast

text \<open>
  The meaning of ACTIVE. In a successful observation a name is ACTIVE exactly when the
  socket directory holds an owned, direct, safely named socket of that name and the listing
  names it exactly once. A cache entry, a name listed twice, a symbolic link, a foreign socket
  or a name that is only listed never is.
\<close>

theorem observe_active_iff:
  assumes obs: "observe sid e = Inr c"
    and listing: "parse_lines (env_stdout e) = Some listed"
    and dirs: "distinct (map de_name (entries_of (env_sockets e)))"
  shows "zs_status (exact c name) = Active \<longleftrightarrow>
    (\<exists>d \<in> set (entries_of (env_sockets e)).
        de_name d = name \<and> live_socket e d \<and> count_list listed name = 1)"
proof -
  let ?ds = "entries_of (env_sockets e)"
  let ?sock = "add_sockets (socket_session sid e listed) ?ds []"
  let ?live = "add_listed listed (remdups listed) ?sock"
  have m: "session_map c = add_dead (entries_of (env_dead e)) ?live"
    using obs listing by (auto elim!: observe_InrD simp: session_map_def)
  show ?thesis
  proof (cases "\<exists>d \<in> set ?ds. de_name d = name")
    case True
    then obtain d where d: "d \<in> set ?ds" "de_name d = name" by blast
    with dirs have sock: "map_of ?sock name = Some (socket_session sid e listed d)"
      using map_of_add_sockets_in by blast
    have uniq: "d' = d" if "d' \<in> set ?ds" "de_name d' = name" for d'
      using dirs d that by (metis distinct_map inj_on_def)
    have lv: "map_of ?live name =
        (if 1 < count_list listed name then Some (session_with name Duplicate)
         else Some (socket_session sid e listed d))"
      using sock by (auto simp: map_of_add_listed count_list_0_iff)
    then have "exact c name =
        (if 1 < count_list listed name then session_with name Duplicate
         else socket_session sid e listed d)"
      by (auto simp: m map_of_add_dead intro!: exact_recorded)
    then have "zs_status (exact c name) = Active \<longleftrightarrow>
        live_socket e d \<and> count_list listed name = 1"
      using d socket_session_active_iff [of sid e listed d] by auto
    then show ?thesis using d uniq by blast
  next
    case False
    then have "name \<notin> de_name ` set ?ds" by auto
    then have sock: "map_of ?sock name = None" by (simp add: map_of_add_sockets_other)
    have "zs_status (exact c name) \<noteq> Active"
    proof
      assume a: "zs_status (exact c name) = Active"
      then have "map_of (session_map c) name = Some (exact c name)"
        by (intro exact_live_recorded) simp
      then show False
        using a sock
        by (auto simp: m map_of_add_dead map_of_add_listed split: if_splits
            dest!: arg_cong [where f = zs_status])
    qed
    with False show ?thesis by blast
  qed
qed

theorem observe_active_iff_witness:
  "(\<exists>c. observe ex_session_id ex_observe = Inr c \<and> zs_status (exact c ''a'') = Active
      \<and> zs_status (exact c ''b'') \<noteq> Active)"
proof -
  have "zs_status (exact c ''a'') = Active \<and> zs_status (exact c ''b'') \<noteq> Active"
    if "observe ex_session_id ex_observe = Inr c" for c
    using observe_active_iff [OF that ex_observe_listing ex_observe_dirs, of "''a''"]
      observe_active_iff [OF that ex_observe_listing ex_observe_dirs, of "''b''"]
    by (simp add: ex_observe_def entries_of_def ex_socket_def live_socket_def
        safe_session_name_def max_socket_path_bytes_def) code_simp
  then show ?thesis using ex_observe_Inr by blast
qed

end
