(* ===== verification/Capture.thy ===== *)
theory Capture
  imports Niri_Adapter Zellij_Catalog
begin

text \<open>
  One capture, \<open>internal/capture/runner.go\<close>: the ACTIVE names of an authoritative catalog, the
  recovery inventory with its sticky placement, and the transaction \<open>CaptureOnce\<close>. What the
  collector, the cataloger, the boot identifier source, the clock and the working-directory
  resolver answer is the record \<open>observation\<close>; the checkpoint store is a pair of operations on a
  store state, as in the Go interface \<open>CheckpointStore\<close>, with the locale \<open>recovery_store\<close> as its
  contract and \<open>Checkpoint_Store\<close> as its provider.
\<close>

section \<open>The authoritative allow-list\<close>

datatype catalog_error =
    Ambiguous_Name string
  | No_Record string
  | Ambiguous_Record string
  | Non_Authoritative string zstatus
  | Unknown_Status string string

fun check_names ::
    "(string \<times> session) list \<Rightarrow> string list \<Rightarrow> string list \<Rightarrow> catalog_error + string list"
where
  "check_names sessions seen [] = Inr seen"
| "check_names sessions seen (name # names) =
     (if trim_space name = [] \<or> name \<noteq> trim_space name \<or> name \<in> set seen
      then Inl (Ambiguous_Name name)
      else if map_of sessions name = None then Inl (No_Record name)
      else check_names sessions (name # seen) names)"

text \<open>The loop over the session map; which of several errors is returned depends on its order.\<close>

fun collect_active ::
    "string list \<Rightarrow> string list \<Rightarrow> (string \<times> session) list \<Rightarrow> catalog_error + string list"
where
  "collect_active seen active [] = Inr active"
| "collect_active seen active ((name, s) # rest) =
     (if name \<notin> set seen \<or> zs_name s \<noteq> name then Inl (Ambiguous_Record name)
      else case zs_status s of
          Active \<Rightarrow> collect_active seen (active @ [name]) rest
        | Dead_Resurrectable \<Rightarrow> collect_active seen active rest
        | Other_Status st \<Rightarrow> Inl (Unknown_Status name st)
        | st \<Rightarrow> Inl (Non_Authoritative name st))"

definition authoritative_active_sessions :: "catalog \<Rightarrow> catalog_error + string list" where
  "authoritative_active_sessions c =
     and_then (check_names (session_map c) [] (name_list c))
       (\<lambda>seen. and_then (collect_active seen [] (session_map c)) (\<lambda>active. Inr (sort_strings active)))"

section \<open>The recovery inventory\<close>

definition complete_recovery_placement :: "window \<Rightarrow> bool" where
  "complete_recovery_placement w \<longleftrightarrow>
     w_workspace_ref w \<noteq> None
     \<and> (case w_placement w of
          None \<Rightarrow> False
        | Some p \<Rightarrow> pl_is_floating p = Some True \<or> (pl_column p \<noteq> None \<and> pl_row p \<noteq> None))"

definition recovery_workspace_ref :: "window \<Rightarrow> workspace list \<Rightarrow> workspace_ref option" where
  "recovery_workspace_ref w wss =
     (let by_id = map_option ref_of_workspace
            (find (\<lambda>ws. w_workspace_id w \<noteq> [] \<and> ws_id ws = w_workspace_id w) wss)
      in case w_workspace_ref w of
           None \<Rightarrow> by_id
         | Some r \<Rightarrow>
             if ref_name r \<noteq> [] \<or> ref_output r \<noteq> [] \<or> 0 < ref_index r then Some r else by_id)"

definition same_captured_workspace :: "workspace list \<Rightarrow> window \<Rightarrow> window \<Rightarrow> bool" where
  "same_captured_workspace wss l r =
     (if w_workspace_id l \<noteq> [] \<and> w_workspace_id r \<noteq> [] then w_workspace_id l = w_workspace_id r
      else case (recovery_workspace_ref l wss, recovery_workspace_ref r wss) of
          (Some a, Some b) \<Rightarrow> same_workspace_ref a b
        | _ \<Rightarrow> False)"

definition recovery_column_occupied :: "state \<Rightarrow> window \<Rightarrow> bool" where
  "recovery_column_occupied s target =
     (case w_placement target of
        None \<Rightarrow> False
      | Some p \<Rightarrow>
          (case pl_column p of
             None \<Rightarrow> False
           | Some col \<Rightarrow>
               pl_row p = Some 1
               \<and> list_ex (\<lambda>other.
                    w_key other \<noteq> w_key target
                    \<and> same_captured_workspace (st_workspaces s) target other
                    \<and> (case w_placement other of
                         None \<Rightarrow> True
                       | Some q \<Rightarrow> pl_column q = None \<or> pl_column q = Some col))
                   (st_windows s)))"

fun start_sessions :: "string list \<Rightarrow> (string \<times> recovery_session) list
    \<Rightarrow> (string \<times> recovery_session) list" where
  "start_sessions [] m = m"
| "start_sessions (n # ns) m = start_sessions ns (AList.update n (zero_recovery\<lparr>rs_name := n\<rparr>) m)"

definition merge_prior :: "recovery_session \<Rightarrow> recovery_session \<Rightarrow> recovery_session" where
  "merge_prior current prior =
     (let c1 = (if rs_cwd current = [] \<and> rs_cwd prior \<noteq> [] then current\<lparr>rs_cwd := rs_cwd prior\<rparr>
                else current)
      in if rs_placement_observed_at c1 = None \<and> rs_placement_observed_at prior \<noteq> None
         then c1\<lparr>rs_workspace_ref := rs_workspace_ref prior, rs_placement := rs_placement prior,
                 rs_placement_observed_at := rs_placement_observed_at prior,
                 rs_captured_column_occupied := rs_captured_column_occupied prior\<rparr>
         else c1)"

fun merge_sessions :: "recovery_session list \<Rightarrow> (string \<times> recovery_session) list
    \<Rightarrow> (string \<times> recovery_session) list" where
  "merge_sessions [] m = m"
| "merge_sessions (p # ps) m =
     merge_sessions ps
       (case map_of m (rs_name p) of
          None \<Rightarrow> m
        | Some current \<Rightarrow> AList.update (rs_name p) (merge_prior current p) m)"

text \<open>The walk over the history, newest checkpoint first.\<close>

fun merge_history :: "checkpoint list \<Rightarrow> (string \<times> recovery_session) list
    \<Rightarrow> (string \<times> recovery_session) list" where
  "merge_history [] m = m"
| "merge_history (c # cs) m = merge_history cs (merge_sessions (ri_sessions (cp_recovery c)) m)"

definition exactly_tagged :: "string \<Rightarrow> window \<Rightarrow> bool" where
  "exactly_tagged name w \<longleftrightarrow>
     (case w_terminal w of None \<Rightarrow> False
      | Some t \<Rightarrow> t_session_tag_exact t \<and> t_session_tag t = name)"

definition visible_windows :: "state \<Rightarrow> string \<Rightarrow> window list" where
  "visible_windows s name = filter (exactly_tagged name) (st_windows s)"

text \<open>The final value of one session: its unique exactly tagged window overrides the history.\<close>

definition observe_session ::
    "state \<Rightarrow> gotime \<Rightarrow> (string \<Rightarrow> string option) option \<Rightarrow> string \<Rightarrow> recovery_session
     \<Rightarrow> recovery_session"
where
  "observe_session s observed resolver name session =
     (let matches = visible_windows s name;
          s0 = session\<lparr>rs_visible := matches \<noteq> []\<rparr>;
          s1 = (case matches of
                  [w] \<Rightarrow>
                    (let cwd = (case w_terminal w of None \<Rightarrow> [] | Some t \<Rightarrow> trim_space (t_cwd t));
                         c = (if cwd \<noteq> [] then s0\<lparr>rs_cwd := cwd\<rparr> else s0)
                     in if complete_recovery_placement w
                        then c\<lparr>rs_workspace_ref := w_workspace_ref w, rs_placement := w_placement w,
                               rs_captured_column_occupied := recovery_column_occupied s w,
                               rs_placement_observed_at := Some observed\<rparr>
                        else c)
                | _ \<Rightarrow> s0)
      in case resolver of
           None \<Rightarrow> s1
         | Some resolve \<Rightarrow>
             if length matches = 1 then s1
             else (case resolve name of
                     None \<Rightarrow> s1
                   | Some cwd \<Rightarrow>
                       if trim_space cwd \<noteq> [] then s1\<lparr>rs_cwd := trim_space cwd\<rparr> else s1))"

definition build_recovery_inventory ::
    "state \<Rightarrow> string list \<Rightarrow> checkpoint list \<Rightarrow> gotime \<Rightarrow> (string \<Rightarrow> string option) option
     \<Rightarrow> recovery_inventory"
where
  "build_recovery_inventory s active history observed resolver =
     (let by_name = merge_history (rev history) (start_sessions active [])
      in normalize_recovery
           \<lparr>ri_active_sessions = active,
            ri_sessions =
              map (\<lambda>name. observe_session s observed resolver name
                     (case map_of by_name name of None \<Rightarrow> zero_recovery | Some r \<Rightarrow> r)) active\<rparr>)"

section \<open>The transaction\<close>

record runner =
  rn_has_store :: bool
  rn_has_cataloger :: bool
  rn_state_dir :: string
  rn_host :: string
  rn_profile :: string

text \<open>\<open>NewRunner\<close> of a state directory, host and profile; the cataloger has a default.\<close>

definition new_runner :: "bool \<Rightarrow> string \<Rightarrow> string \<Rightarrow> string \<Rightarrow> runner" where
  "new_runner has_store state_dir host profile =
     \<lparr>rn_has_store = has_store, rn_has_cataloger = True, rn_state_dir = trim_space state_dir,
      rn_host = trim_space host, rn_profile = trim_space profile\<rparr>"

record observation =
  ob_lock_ok :: bool
  ob_state :: "state option"
  ob_catalog :: "observe_error + catalog"
  ob_boot :: "string option"
  ob_now :: gotime
  ob_resolver :: "(string \<Rightarrow> string option) option"

datatype 'e capture_error =
    Store_Unavailable
  | Catalog_Unavailable
  | State_Dir_Required
  | Lock_Failed
  | Collect_Failed
  | Observe_Failed observe_error
  | Catalog_Ambiguous catalog_error
  | Boot_Failed
  | Boot_Empty
  | History_Failed 'e
  | State_Hash_Error
  | Integrity_Hash_Error
  | Publish_Failed 'e

definition capture_once ::
    "(checkpoint \<Rightarrow> 's \<Rightarrow> ('e + string) \<times> 's) \<Rightarrow> ('s \<Rightarrow> string \<Rightarrow> string \<Rightarrow> 'e + checkpoint list)
     \<Rightarrow> (state \<Rightarrow> string) \<Rightarrow> (state \<times> recovery_inventory \<Rightarrow> string) \<Rightarrow> runner \<Rightarrow> observation \<Rightarrow> 's
     \<Rightarrow> ('e capture_error + string \<times> string) \<times> 's"
where
  "capture_once write history digest idigest rn ob s =
     (if \<not> rn_has_store rn then (Inl Store_Unavailable, s)
      else if \<not> rn_has_cataloger rn then (Inl Catalog_Unavailable, s)
      else if rn_state_dir rn = [] then (Inl State_Dir_Required, s)
      else if \<not> ob_lock_ok ob then (Inl Lock_Failed, s)
      else case ob_state ob of
        None \<Rightarrow> (Inl Collect_Failed, s)
      | Some collected \<Rightarrow>
          (let st = normalize collected in
           case ob_catalog ob of
             Inl e \<Rightarrow> (Inl (Observe_Failed e), s)
           | Inr catalog \<Rightarrow>
               (case authoritative_active_sessions catalog of
                  Inl e \<Rightarrow> (Inl (Catalog_Ambiguous e), s)
                | Inr active \<Rightarrow>
                    (case ob_boot ob of
                       None \<Rightarrow> (Inl Boot_Failed, s)
                     | Some boot0 \<Rightarrow>
                         (let boot = trim_space boot0 in
                          if boot = [] then (Inl Boot_Empty, s)
                          else case history s (rn_host rn) (rn_profile rn) of
                            Inl e \<Rightarrow> (Inl (History_Failed e), s)
                          | Inr past \<Rightarrow>
                              (let observed = ob_now ob;
                                   recovery = build_recovery_inventory st active past observed
                                                (ob_resolver ob)
                               in case state_hash digest st of
                                    None \<Rightarrow> (Inl State_Hash_Error, s)
                                  | Some hash \<Rightarrow>
                                      (case recovery_integrity_hash idigest st recovery of
                                         None \<Rightarrow> (Inl Integrity_Hash_Error, s)
                                       | Some integrity \<Rightarrow>
                                           (case write
                                              \<lparr>cp_boot_id = boot, cp_host = rn_host rn,
                                               cp_profile = rn_profile rn,
                                               cp_observed_at = observed, cp_state = st,
                                               cp_state_hash = hash, cp_recovery = recovery,
                                               cp_integrity_hash = integrity\<rparr> s of
                                              (Inl e, s') \<Rightarrow> (Inl (Publish_Failed e), s')
                                            | (Inr path, s') \<Rightarrow> (Inr (path, hash), s')))))))))"

text \<open>
  The rolling store as the capture uses it: \<open>pathName\<close> appends \<open>.json\<close> to a hexadecimal digest and
  \<open>os.CreateTemp\<close> fills a random part into \<open>.checkpoint-*.tmp\<close>.
\<close>

definition hex_path_name :: "path_name \<Rightarrow> path_name" where
  "hex_path_name hexid boot host profile = hexid boot host profile @ ''.json''"

definition temp_name :: "string \<Rightarrow> string" where
  "temp_name r = ''.checkpoint-'' @ r @ ''.tmp''"

definition rolling_write ::
    "(state \<Rightarrow> string) \<Rightarrow> (state \<times> recovery_inventory \<Rightarrow> string) \<Rightarrow> path_name \<Rightarrow> write_faults
     \<Rightarrow> string \<Rightarrow> checkpoint \<Rightarrow> dir \<Rightarrow> (store_error + string) \<times> dir"
where
  "rolling_write digest idigest hexid faults r c d =
     (case store_write digest idigest (hex_path_name hexid) faults (temp_name r) d c of
        (res, trace) \<Rightarrow> (res, last trace))"

definition rolling_history ::
    "(state \<Rightarrow> string) \<Rightarrow> (state \<times> recovery_inventory \<Rightarrow> string) \<Rightarrow> path_name
     \<Rightarrow> dir \<Rightarrow> string \<Rightarrow> string \<Rightarrow> store_error + checkpoint list"
where
  "rolling_history digest idigest hexid d host profile =
     store_history digest idigest (hex_path_name hexid) (Dir_Entries d) host profile"

definition rolling_file :: "path_name \<Rightarrow> dir \<Rightarrow> checkpoint \<Rightarrow> content option" where
  "rolling_file hexid d c = map_of d (target_path (hex_path_name hexid) c)"

text \<open>\<open>CaptureOnce\<close> on the rolling store.\<close>

definition rolling_capture ::
    "(state \<Rightarrow> string) \<Rightarrow> (state \<times> recovery_inventory \<Rightarrow> string) \<Rightarrow> path_name \<Rightarrow> write_faults
     \<Rightarrow> string \<Rightarrow> runner \<Rightarrow> observation \<Rightarrow> dir
     \<Rightarrow> (store_error capture_error + string \<times> string) \<times> dir"
where
  "rolling_capture digest idigest hexid faults r =
     capture_once (rolling_write digest idigest hexid faults r) (rolling_history digest idigest hexid)
       digest idigest"

text \<open>A first capture with one ACTIVE session \<open>a\<close> and a kitty window that shows it.\<close>

definition ex_capture_catalog :: catalog where
  "ex_capture_catalog =
     \<lparr>cat_sessions = Some [(''a'', session_with ''a'' Active),
                           (''z'', session_with ''z'' Dead_Resurrectable)],
      cat_names = Some [''a'', ''z''], cat_cache_available = True\<rparr>"

definition ex_observation :: observation where
  "ex_observation =
     \<lparr>ob_lock_ok = True,
      ob_state = Some \<lparr>st_workspaces = [ex_workspace],
        st_windows = [(ex_window ''w:kitty:1'' ''a'')\<lparr>w_placement := Some \<lparr>pl_column = Some 2,
          pl_row = Some 1, pl_is_floating = Some False, pl_tile_size = [], pl_window_size = []\<rparr>\<rparr>]\<rparr>,
      ob_catalog = Inr ex_capture_catalog, ob_boot = Some ''b1'', ob_now = 8, ob_resolver = None\<rparr>"

definition ex_runner :: runner where
  "ex_runner = new_runner True ''/state'' ''h'' ''p''"

definition ex_past :: checkpoint where
  "ex_past =
     (ex_checkpoint ''b0'' 5)\<lparr>cp_recovery :=
        \<lparr>ri_active_sessions = [''a''],
         ri_sessions = [zero_recovery\<lparr>rs_name := ''a'', rs_cwd := ''/src'',
           rs_placement_observed_at := Some 5\<rparr>]\<rparr>\<rparr>"

definition ex_hexid :: path_name where
  "ex_hexid b h p = b @ h @ p"

section \<open>Descriptions\<close>

text \<open>The placement of a recovery session is one observed fact of four components.\<close>

definition placement_fact ::
    "recovery_session \<Rightarrow> workspace_ref option \<times> placement option \<times> gotime option \<times> bool" where
  "placement_fact r =
     (rs_workspace_ref r, rs_placement r, rs_placement_observed_at r, rs_captured_column_occupied r)"

definition past_entries :: "checkpoint list \<Rightarrow> recovery_session list" where
  "past_entries history = concat (map (\<lambda>c. ri_sessions (cp_recovery c)) (rev history))"

text \<open>The newest entry of the history that observed a placement of the session.\<close>

definition sticky_source :: "checkpoint list \<Rightarrow> string \<Rightarrow> recovery_session option" where
  "sticky_source history n =
     find (\<lambda>p. rs_name p = n \<and> rs_placement_observed_at p \<noteq> None) (past_entries history)"

definition expected_placement ::
    "state \<Rightarrow> checkpoint list \<Rightarrow> gotime \<Rightarrow> string
     \<Rightarrow> workspace_ref option \<times> placement option \<times> gotime option \<times> bool"
where
  "expected_placement s history observed n =
     (case filter complete_recovery_placement
        (if length (visible_windows s n) = 1 then visible_windows s n else []) of
        [w] \<Rightarrow> (w_workspace_ref w, w_placement w, Some observed, recovery_column_occupied s w)
      | _ \<Rightarrow> (case sticky_source history n of
                None \<Rightarrow> (None, None, None, False)
              | Some p \<Rightarrow> placement_fact p))"

section \<open>Lemmas on the allow-list\<close>

lemma check_names_Inr:
  "check_names sessions seen names = Inr out \<Longrightarrow>
   set out = set seen \<union> set names \<and> (\<forall>n \<in> set names. n \<noteq> [] \<and> trim_space n = n)"
proof (induction sessions seen names rule: check_names.induct)
  case (1 sessions seen)
  then show ?case by simp
next
  case (2 sessions seen name names)
  let ?bad = "trim_space name = [] \<or> name \<noteq> trim_space name \<or> name \<in> set seen"
  have ok: "\<not> ?bad" "map_of sessions name \<noteq> None"
    using "2.prems" by (simp_all only: check_names.simps split: if_splits) simp_all
  then have "check_names sessions (name # seen) names = Inr out"
    using "2.prems" by (simp only: check_names.simps if_False)
  from "2.IH" [OF ok this] ok show ?case by auto
qed

lemma collect_active_Inr:
  "collect_active seen active m = Inr out \<Longrightarrow>
   out = active @ map fst (filter (\<lambda>(n, s). zs_status s = Active) m) \<and> fst ` set m \<subseteq> set seen"
proof (induction seen active m rule: collect_active.induct)
  case (1 seen active)
  then show ?case by simp
next
  case (2 seen active name s rest)
  then have ok: "name \<in> set seen" "zs_name s = name" by (auto split: if_splits)
  have st: "zs_status s = Active \<or> zs_status s = Dead_Resurrectable"
    using "2.prems" ok by (cases "zs_status s") simp_all
  then show ?case
  proof
    assume "zs_status s = Active"
    then show ?thesis using 2 ok by simp
  next
    assume "zs_status s = Dead_Resurrectable"
    then show ?thesis using 2 ok by simp
  qed
qed

lemma authoritative_Inr:
  assumes "authoritative_active_sessions c = Inr active" and "distinct (map fst (session_map c))"
  shows "distinct active \<and> list_all (\<lambda>n. n \<noteq> [] \<and> trim_space n = n) active
    \<and> set active = {n. \<exists>s. map_of (session_map c) n = Some s \<and> zs_status s = Active}"
proof -
  obtain seen out where
    n: "check_names (session_map c) [] (name_list c) = Inr seen"
    and a: "collect_active seen [] (session_map c) = Inr out"
    and act: "active = sort_strings out"
    using assms(1) by (auto simp: authoritative_active_sessions_def and_then_Inr_iff)
  let ?live = "map fst (filter (\<lambda>(n, s). zs_status s = Active) (session_map c))"
  have out: "out = ?live" "fst ` set (session_map c) \<subseteq> set seen"
    using collect_active_Inr [OF a] by auto
  have "distinct ?live" using assms(2) by (simp add: distinct_map_filter)
  moreover have "set ?live = {n. \<exists>s. map_of (session_map c) n = Some s \<and> zs_status s = Active}"
  proof -
    have "map_of (session_map c) n = Some s \<longleftrightarrow> (n, s) \<in> set (session_map c)" for n s
      using assms(2) by (rule map_of_eq_Some_iff)
    then show ?thesis by force
  qed
  moreover have "list_all (\<lambda>n. n \<noteq> [] \<and> trim_space n = n) ?live"
  proof -
    have "set ?live \<subseteq> set (name_list c)" using check_names_Inr [OF n] out(2) by auto
    then show ?thesis using check_names_Inr [OF n] unfolding list_all_iff by blast
  qed
  ultimately show ?thesis by (simp add: act out list_all_iff)
qed

section \<open>Lemmas on the inventory\<close>

lemma map_of_start_sessions:
  "map_of (start_sessions ns m) n =
     (if n \<in> set ns then Some (zero_recovery\<lparr>rs_name := n\<rparr>) else map_of m n)"
  by (induction ns arbitrary: m) auto

lemma map_of_merge_sessions:
  "map_of (merge_sessions ps m) n =
     map_option (\<lambda>c. fold (\<lambda>p c. merge_prior c p) (filter (\<lambda>p. rs_name p = n) ps) c) (map_of m n)"
proof (induction ps arbitrary: m)
  case Nil
  then show ?case by (cases "map_of m n") simp_all
next
  case (Cons p ps)
  then show ?case by (cases "map_of m (rs_name p)"; cases "map_of m n") auto
qed

lemma map_of_merge_history:
  "map_of (merge_history cs m) n =
     map_option (\<lambda>c. fold (\<lambda>p c. merge_prior c p)
        (filter (\<lambda>p. rs_name p = n) (concat (map (\<lambda>c. ri_sessions (cp_recovery c)) cs))) c)
       (map_of m n)"
proof (induction cs arbitrary: m)
  case Nil
  then show ?case by (cases "map_of m n") simp_all
next
  case (Cons c cs)
  then show ?case by (simp add: map_of_merge_sessions option.map_comp o_def)
qed

lemma rs_name_merged [simp]:
  "rs_name (fold (\<lambda>p c. merge_prior c p) ps c) = rs_name c"
  by (induction ps arbitrary: c) (simp_all add: merge_prior_def Let_def)

lemma merged_placement:
  "placement_fact (fold (\<lambda>p c. merge_prior c p) ps c) =
     (if rs_placement_observed_at c \<noteq> None then placement_fact c
      else case find (\<lambda>p. rs_placement_observed_at p \<noteq> None) ps of
          None \<Rightarrow> placement_fact c | Some p \<Rightarrow> placement_fact p)"
proof (induction ps arbitrary: c)
  case Nil
  then show ?case by simp
next
  case (Cons p ps)
  have step: "placement_fact (merge_prior c p) =
      (if rs_placement_observed_at c = None \<and> rs_placement_observed_at p \<noteq> None
       then placement_fact p else placement_fact c)"
    by (auto simp: merge_prior_def placement_fact_def Let_def)
  have obs: "rs_placement_observed_at r = fst (snd (snd (placement_fact r)))" for r
    by (simp add: placement_fact_def)
  show ?case
    using Cons [of "merge_prior c p"] step obs [of "merge_prior c p"] obs [of p] obs [of c]
    by (auto split: option.split)
qed

lemma session_ok_placement:
  "placement_fact r = placement_fact r' \<Longrightarrow> session_ok r = session_ok r'"
  by (simp add: placement_fact_def session_ok_def complete_row_one_def)

lemma rs_name_observe_session [simp]:
  "rs_name (observe_session s t resolver n r) = rs_name r"
  by (simp add: observe_session_def Let_def split: list.split option.split)

lemma observe_session_placement:
  "placement_fact (observe_session s t resolver n r) =
     (case filter complete_recovery_placement
        (if length (visible_windows s n) = 1 then visible_windows s n else []) of
        [w] \<Rightarrow> (w_workspace_ref w, w_placement w, Some t, recovery_column_occupied s w)
      | _ \<Rightarrow> placement_fact r)"
  by (auto simp: observe_session_def placement_fact_def Let_def split: list.split option.split)

lemma complete_occupied:
  assumes "complete_recovery_placement w" and "t \<noteq> 0"
    and "placement_fact r = (w_workspace_ref w, w_placement w, Some t, recovery_column_occupied s w)"
  shows "session_ok r"
  using assms
  by (auto simp: session_ok_def complete_row_one_def placement_fact_def complete_recovery_placement_def
      recovery_column_occupied_def split: option.splits)

text \<open>The entry the inventory holds for an active name.\<close>

definition inventory_entry ::
    "state \<Rightarrow> string list \<Rightarrow> checkpoint list \<Rightarrow> gotime \<Rightarrow> (string \<Rightarrow> string option) option \<Rightarrow> string
     \<Rightarrow> recovery_session"
where
  "inventory_entry s active history t resolver n =
     observe_session s t resolver n
       (fold (\<lambda>p c. merge_prior c p) (filter (\<lambda>p. rs_name p = n) (past_entries history))
          (zero_recovery\<lparr>rs_name := n\<rparr>))"

lemma build_inventory_eq:
  "build_recovery_inventory s active history t resolver =
     normalize_recovery \<lparr>ri_active_sessions = active,
       ri_sessions = map (inventory_entry s active history t resolver) active\<rparr>"
  by (simp add: build_recovery_inventory_def inventory_entry_def map_of_merge_history
      map_of_start_sessions past_entries_def Let_def cong: map_cong)

lemma rs_name_inventory_entry [simp]: "rs_name (inventory_entry s active history t resolver n) = n"
  by (simp add: inventory_entry_def)

lemma find_filter: "find P (filter Q xs) = find (\<lambda>x. Q x \<and> P x) xs"
  by (induction xs) auto

lemma inventory_entry_placement:
  "placement_fact (inventory_entry s active history t resolver n) = expected_placement s history t n"
proof -
  have "placement_fact (fold (\<lambda>p c. merge_prior c p) (filter (\<lambda>p. rs_name p = n) (past_entries history))
          (zero_recovery\<lparr>rs_name := n\<rparr>))
        = (case sticky_source history n of None \<Rightarrow> (None, None, None, False) | Some p \<Rightarrow> placement_fact p)"
    unfolding merged_placement find_filter sticky_source_def
    by (simp add: zero_recovery_def placement_fact_def split: option.split)
  then show ?thesis
    by (simp only: inventory_entry_def observe_session_placement expected_placement_def)
qed

lemma expected_placement_ok:
  assumes "placement_fact r = expected_placement s history t n" and "t \<noteq> 0"
    and past: "\<And>p. p \<in> set (past_entries history) \<Longrightarrow> session_ok p"
  shows "session_ok r"
proof -
  let ?fs = "filter complete_recovery_placement
        (if length (visible_windows s n) = 1 then visible_windows s n else [])"
  consider (one) w where "?fs = [w]" | (other) "?fs = [] \<or> (\<exists>x y zs. ?fs = x # y # zs)"
    by (metis list.exhaust)
  then show ?thesis
  proof cases
    case one
    then have "complete_recovery_placement w" by (metis filter_eq_ConsD)
    moreover have "placement_fact r = (w_workspace_ref w, w_placement w, Some t, recovery_column_occupied s w)"
      using assms(1) one by (simp only: expected_placement_def list.case)
    ultimately show ?thesis using assms(2) by (intro complete_occupied)
  next
    case other
    then have e: "expected_placement s history t n =
        (case sticky_source history n of None \<Rightarrow> (None, None, None, False) | Some p \<Rightarrow> placement_fact p)"
      by (elim disjE exE) (simp_all only: expected_placement_def list.case)
    show ?thesis
    proof (cases "sticky_source history n")
      case None
      then show ?thesis using assms(1) e by (simp add: placement_fact_def session_ok_def)
    next
      case (Some p)
      then have "p \<in> set (past_entries history)"
        by (auto simp: sticky_source_def find_Some_iff)
      then have "session_ok p" by (rule past)
      moreover have "placement_fact r = placement_fact p" using assms(1) e Some by simp
      ultimately show ?thesis using session_ok_placement by blast
    qed
  qed
qed

section \<open>The contract with the store\<close>

text \<open>
  What the capture relies on: the history only holds checkpoints with a valid inventory, a
  successful write stores the view of the checkpoint, and a failed one, unless its outcome is
  doubtful, changes no stored checkpoint.
\<close>

locale recovery_store =
  fixes publish :: "checkpoint \<Rightarrow> 's \<Rightarrow> ('e + string) \<times> 's"
    and history :: "'s \<Rightarrow> string \<Rightarrow> string \<Rightarrow> 'e + checkpoint list"
    and stored :: "'s \<Rightarrow> checkpoint \<Rightarrow> 'v"
    and view :: "checkpoint \<Rightarrow> 'v"
    and doubtful :: "'e \<Rightarrow> bool"
  assumes history_valid:
      "history s h p = Inr cs \<Longrightarrow> c \<in> set cs \<Longrightarrow> validate_recovery (cp_recovery c) = None"
    and write_stores: "publish c s = (Inr path, s') \<Longrightarrow> stored s' c = view c"
    and write_refuses: "publish c s = (Inl e, s') \<Longrightarrow> \<not> doubtful e \<Longrightarrow> stored s' x = stored s x"
begin

lemma capture_steps:
  assumes "capture_once publish history digest idigest rn ob s = (Inr (path, hash), s')"
  obtains cat active boot past st integrity where
    "ob_state ob = Some st" "ob_catalog ob = Inr cat"
    "authoritative_active_sessions cat = Inr active"
    "ob_boot ob = Some boot" "history s (rn_host rn) (rn_profile rn) = Inr past"
    "publish \<lparr>cp_boot_id = trim_space boot, cp_host = rn_host rn, cp_profile = rn_profile rn,
       cp_observed_at = ob_now ob, cp_state = normalize st, cp_state_hash = hash,
       cp_recovery = build_recovery_inventory (normalize st) active past (ob_now ob) (ob_resolver ob),
       cp_integrity_hash = integrity\<rparr> s = (Inr path, s')"
  using assms
  by (auto simp: capture_once_def Let_def split: if_splits option.splits sum.splits prod.splits)

lemma capture_published:
  assumes "capture_once publish history digest idigest rn ob s = (Inr (path, hash), s')"
  obtains c cat active boot past st where
    "ob_state ob = Some st" "ob_catalog ob = Inr cat"
    "authoritative_active_sessions cat = Inr active"
    "ob_boot ob = Some boot" "history s (rn_host rn) (rn_profile rn) = Inr past"
    "cp_boot_id c = trim_space boot" "cp_host c = rn_host rn" "cp_profile c = rn_profile rn"
    "cp_observed_at c = ob_now ob" "cp_state c = normalize st" "cp_state_hash c = hash"
    "cp_recovery c = build_recovery_inventory (normalize st) active past (ob_now ob) (ob_resolver ob)"
    "publish c s = (Inr path, s')" "stored s' c = view c"
proof -
  obtain cat active boot past st integrity where e:
    "ob_state ob = Some st" "ob_catalog ob = Inr cat"
    "authoritative_active_sessions cat = Inr active"
    "ob_boot ob = Some boot" "history s (rn_host rn) (rn_profile rn) = Inr past"
    "publish \<lparr>cp_boot_id = trim_space boot, cp_host = rn_host rn, cp_profile = rn_profile rn,
       cp_observed_at = ob_now ob, cp_state = normalize st, cp_state_hash = hash,
       cp_recovery = build_recovery_inventory (normalize st) active past (ob_now ob) (ob_resolver ob),
       cp_integrity_hash = integrity\<rparr> s = (Inr path, s')"
    using assms by (rule capture_steps)
  show ?thesis
    by (rule that [OF e(1-5) _ _ _ _ _ _ _ e(6)]) (simp_all add: write_stores [OF e(6)])
qed

lemma capture_failed:
  assumes "capture_once publish history digest idigest rn ob s = (Inl e, s')"
    and "\<And>x. e = Publish_Failed x \<Longrightarrow> \<not> doubtful x"
  shows "stored s' c = stored s c"
  using assms
  by (auto simp: capture_once_def Let_def intro: write_refuses
      split: if_splits option.splits sum.splits prod.splits)

end

lemma store_list_valid:
  assumes "store_list digest idigest path_name (Dir_Entries d) = Inr (cs, is)" and "c \<in> set cs"
  shows "validate_recovery (cp_recovery c) = None"
proof -
  let ?f = "scan_entry digest idigest path_name d"
  have "set cs = set (fst (scan_entries ?f d))"
    using assms(1) by (auto simp: store_list_def split: prod.splits)
  then obtain entry where "?f entry = Some (Inr c)"
    using assms(2) set_scan_entries [of ?f d] by auto
  then have "read_path digest idigest d (fst entry) = Inr c"
    by (auto simp: scan_entry_def Let_def split: if_splits sum.splits)
  then have "validate_checkpoint digest idigest c = None"
    by (auto simp: read_path_def Let_def split: option.splits content.splits)
  then show ?thesis
    by (auto simp: validate_checkpoint_def split: if_splits option.splits)
qed

lemma temp_name_not_target: "temp_name r \<noteq> target_path (hex_path_name hexid) c"
proof
  assume "temp_name r = target_path (hex_path_name hexid) c"
  then have "last (temp_name r) = last (target_path (hex_path_name hexid) c)" by simp
  then show False by (simp add: temp_name_def target_path_def hex_path_name_def)
qed

interpretation rolling: recovery_store
  "rolling_write digest idigest hexid faults r" "rolling_history digest idigest hexid"
  "rolling_file hexid" "\<lambda>c. Some (Json (stored_view c))" "\<lambda>e. e = Sync_Dir_Failed"
  for digest idigest hexid faults r
proof
  fix d h p cs c
  assume "rolling_history digest idigest hexid d h p = Inr cs" and "c \<in> set cs"
  then obtain all "is" where
    "store_list digest idigest (hex_path_name hexid) (Dir_Entries d) = Inr (all, is)" "c \<in> set all"
    by (auto simp: rolling_history_def store_history_def and_then_Inr_iff)
  then show "validate_recovery (cp_recovery c) = None" by (rule store_list_valid)
next
  fix c :: checkpoint and d :: dir and path :: string and d' :: dir
  assume "rolling_write digest idigest hexid faults r c d = (Inr path, d')"
  then obtain trace where
    w: "store_write digest idigest (hex_path_name hexid) faults (temp_name r) d c = (Inr path, trace)"
    "d' = last trace"
    by (auto simp: rolling_write_def split: prod.splits)
  show "rolling_file hexid d' c = Some (Json (stored_view c))"
    using store_write_ReadyD [OF w(1)] store_write_InrD [OF w(1)] w(2)
    by (simp add: rolling_file_def)
next
  fix c x :: checkpoint and d d' :: dir and e :: store_error
  assume "rolling_write digest idigest hexid faults r c d = (Inl e, d')" and e: "e \<noteq> Sync_Dir_Failed"
  then obtain trace where
    w: "store_write digest idigest (hex_path_name hexid) faults (temp_name r) d c = (Inl e, trace)"
    "d' = last trace"
    by (auto simp: rolling_write_def split: prod.splits)
  have "trace \<noteq> []"
    using w(1) by (auto simp: store_write_def fail_write_def Let_def split: option.splits if_splits sum.splits store_error.splits)
  then have in_trace: "d' \<in> set trace" using w(2) by simp
  show "rolling_file hexid d' x = rolling_file hexid d x"
  proof (cases "target_path (hex_path_name hexid) x = target_path (hex_path_name hexid) c")
    case True
    then show ?thesis
      using store_write_InlD [OF w(1) temp_name_not_target e] w(2) by (simp add: rolling_file_def)
  next
    case False
    then show ?thesis
      using store_write_trace [OF w(1) in_trace temp_name_not_target] temp_name_not_target [of r hexid x]
      by (simp add: rolling_file_def)
  qed
qed

section \<open>Example\<close>

lemma ex_capture_result:
  "fst (rolling_capture ex_digest ex_idigest ex_hexid ex_faults ''1'' ex_runner ex_observation [])
   = Inr (''b1hp.json'', ''d'')"
  by code_simp

section \<open>Properties\<close>

text \<open>
  C23: the inventory a capture builds is always valid and its placement is sticky. For the ACTIVE
  names of an authoritative catalog, a valid history and a non-zero clock, \<open>validateRecovery\<close>
  accepts the result; the allow-list is the sorted ACTIVE names; and each session carries one
  observed placement fact as a whole: that of its only exactly tagged window when it is
  complete, else that of the newest history entry that observed one, else none.
\<close>

theorem capture_inventory_valid:
  assumes act: "authoritative_active_sessions cat = Inr active"
    and keys: "distinct (map fst (session_map cat))"
    and past: "\<And>c. c \<in> set history \<Longrightarrow> validate_recovery (cp_recovery c) = None"
    and now: "observed \<noteq> 0"
    and inven: "inven = build_recovery_inventory s active history observed resolver"
  shows "validate_recovery inven = None
    \<and> sorted (ri_active_sessions inven)
    \<and> set (ri_active_sessions inven)
        = {n. \<exists>z. map_of (session_map cat) n = Some z \<and> zs_status z = Active}
    \<and> (\<forall>e \<in> set (ri_sessions inven). placement_fact e = expected_placement s history observed (rs_name e))"
proof -
  let ?entry = "inventory_entry s active history observed resolver"
  note a = authoritative_Inr [OF act keys]
  have e: "inven = normalize_recovery \<lparr>ri_active_sessions = active, ri_sessions = map ?entry active\<rparr>"
    by (simp add: inven build_inventory_eq)
  have entries: "set (ri_sessions inven) = ?entry ` set active" by (simp add: e)
  have ok: "session_ok p" if "p \<in> set (past_entries history)" for p
  proof -
    from that obtain c where c: "c \<in> set history" "p \<in> set (ri_sessions (cp_recovery c))"
      by (auto simp: past_entries_def)
    show ?thesis using past [OF c(1)] c(2)
      by (auto simp: validate_recovery_def check_sessions_None_iff split: if_splits option.splits)
  qed
  have entry_ok: "session_ok (?entry n)" for n
    using inventory_entry_placement now ok by (rule expected_placement_ok)
  have "validate_recovery inven = None"
  proof -
    have "distinct (ri_active_sessions inven)" using a by (simp add: e normalize_recovery_def)
    moreover have "distinct (map rs_name (ri_sessions inven))"
      using a by (simp add: e normalize_recovery_def o_def)
    moreover have "check_active [] (ri_active_sessions inven) = None"
      using a by (simp add: check_active_None_iff e normalize_recovery_def list_all_iff)
    moreover have "check_sessions (ri_active_sessions inven) [] (ri_sessions inven) = None"
      unfolding check_sessions_None_iff using calculation(2) entry_ok
      by (simp add: entries) (auto simp: e)
    ultimately show ?thesis by (simp add: validate_recovery_def e normalize_recovery_def)
  qed
  moreover have "sorted (ri_active_sessions inven)"
    by (simp add: e normalize_recovery_def sort_strings_sorted)
  moreover have "set (ri_active_sessions inven)
        = {n. \<exists>z. map_of (session_map cat) n = Some z \<and> zs_status z = Active}"
    using a by (simp add: e)
  moreover have "\<forall>e \<in> set (ri_sessions inven).
      placement_fact e = expected_placement s history observed (rs_name e)"
    by (auto simp: entries inventory_entry_placement)
  ultimately show ?thesis by blast
qed

theorem capture_inventory_valid_witness:
  "validate_recovery (build_recovery_inventory ex_current [''a''] [ex_past] 8 None) = None"
proof -
  have "authoritative_active_sessions ex_capture_catalog = Inr [''a'']" by code_simp
  moreover have "distinct (map fst (session_map ex_capture_catalog))" by code_simp
  moreover have "validate_recovery (cp_recovery c) = None" if "c \<in> set [ex_past]" for c
    using that by simp code_simp
  ultimately show ?thesis using capture_inventory_valid [OF _ _ _ _ refl, of ex_capture_catalog "[''a'']" "[ex_past]" 8]
    by simp
qed

text \<open>
  A failed capture never supersedes a checkpoint. Whatever the collector, the cataloger, the
  clock and the file system answer, when \<open>CaptureOnce\<close> fails every published checkpoint file has
  its old content, unless the very last directory fsync is what failed.
\<close>

theorem capture_failure_keeps:
  assumes "rolling_capture digest idigest hexid faults r rn ob d = (Inl e, d')"
    and "e \<noteq> Publish_Failed Sync_Dir_Failed"
  shows "rolling_file hexid d' c = rolling_file hexid d c"
  using assms unfolding rolling_capture_def by (blast intro: rolling.capture_failed)

theorem capture_failure_keeps_witness:
  "rolling_file ex_hexid (snd (rolling_capture ex_digest ex_idigest ex_hexid
      (ex_faults\<lparr>wf_rename_ok := False\<rparr>) ''1'' ex_runner ex_observation []))
     (ex_checkpoint ''b1'' 5) = None"
proof -
  let ?run = "rolling_capture ex_digest ex_idigest ex_hexid (ex_faults\<lparr>wf_rename_ok := False\<rparr>)
      ''1'' ex_runner ex_observation []"
  have "fst ?run = Inl (Publish_Failed Rename_Failed)" by code_simp
  then have "?run = (Inl (Publish_Failed Rename_Failed), snd ?run)" by (simp add: prod_eq_iff)
  from capture_failure_keeps [OF this, of "ex_checkpoint ''b1'' 5"] show ?thesis
    by (simp add: rolling_file_def)
qed

text \<open>
  A successful capture publishes what it observed. The file of the returned path holds the
  view of a checkpoint of the running boot, host and profile with the returned state hash, the
  normalised state, the capture time and the inventory built from the ACTIVE names and the
  valid history of that host and profile.
\<close>

theorem capture_publishes:
  assumes "rolling_capture digest idigest hexid faults r rn ob d = (Inr (path, hash), d')"
    and "ob_catalog ob = Inr cat" and "ob_state ob = Some st"
  shows "\<exists>c active past.
      map_of d' path = Some (Json (stored_view c)) \<and> path = target_path (hex_path_name hexid) c
    \<and> cp_host c = rn_host rn \<and> cp_profile c = rn_profile rn \<and> cp_observed_at c = ob_now ob
    \<and> cp_state c = normalize st \<and> cp_state_hash c = hash
    \<and> authoritative_active_sessions cat = Inr active
    \<and> rolling_history digest idigest hexid d (rn_host rn) (rn_profile rn) = Inr past
    \<and> cp_recovery c
        = build_recovery_inventory (normalize st) active past (ob_now ob) (ob_resolver ob)"
proof -
  from assms(1) obtain c cat' active boot past st' where c:
    "ob_state ob = Some st'" "ob_catalog ob = Inr cat'"
    "authoritative_active_sessions cat' = Inr active"
    "rolling_history digest idigest hexid d (rn_host rn) (rn_profile rn) = Inr past"
    "cp_host c = rn_host rn" "cp_profile c = rn_profile rn"
    "cp_observed_at c = ob_now ob" "cp_state c = normalize st'" "cp_state_hash c = hash"
    "cp_recovery c = build_recovery_inventory (normalize st') active past (ob_now ob) (ob_resolver ob)"
    "rolling_write digest idigest hexid faults r c d = (Inr path, d')"
    "rolling_file hexid d' c = Some (Json (stored_view c))"
    unfolding rolling_capture_def by (rule rolling.capture_published)
  then obtain trace where
    "store_write digest idigest (hex_path_name hexid) faults (temp_name r) d c = (Inr path, trace)"
    by (auto simp: rolling_write_def split: prod.splits)
  then have p: "path = target_path (hex_path_name hexid) c" by (blast dest: store_write_InrD)
  have "map_of d' path = Some (Json (stored_view c))" using c p by (simp add: rolling_file_def)
  then show ?thesis using c p assms(2,3) by auto
qed

theorem capture_publishes_witness:
  "\<exists>c. map_of (snd (rolling_capture ex_digest ex_idigest ex_hexid ex_faults ''1'' ex_runner
         ex_observation [])) ''b1hp.json'' = Some (Json (stored_view c))
     \<and> cp_observed_at c = 8 \<and> cp_host c = ''h''"
proof -
  let ?run = "rolling_capture ex_digest ex_idigest ex_hexid ex_faults ''1'' ex_runner ex_observation []"
  have "?run = (Inr (''b1hp.json'', ''d''), snd ?run)"
    using ex_capture_result by (intro prod_eqI) simp_all
  moreover have "ob_catalog ex_observation = Inr ex_capture_catalog" "ob_now ex_observation = 8"
    "ob_state ex_observation = Some (the (ob_state ex_observation))" "rn_host ex_runner = ''h''"
    by code_simp+
  ultimately show ?thesis using capture_publishes by (metis (no_types))
qed

end
