(* ===== verification/Session_Inventory.thy ===== *)
theory Session_Inventory
  imports Zellij_Catalog
begin

text \<open>
  The inventory of active session incarnations, \<open>internal/mirror/session_inventory.go\<close>, with the
  name and identifier checks it uses: \<open>ValidateSession\<close> of \<open>remote.go\<close> and the base64 form of an
  incarnation identifier. Nil and empty slices or maps differ here, so both are options.
\<close>

section \<open>Base64 for URLs, without padding\<close>

text \<open>\<open>base64.RawURLEncoding\<close> over bytes as numbers; its decoder skips line breaks.\<close>

definition b64_alphabet :: string where
  "b64_alphabet = ''ABCDEFGHIJKLMNOPQRSTUVWXYZabcdefghijklmnopqrstuvwxyz0123456789-_''"

definition b64_char :: "nat \<Rightarrow> char" where
  "b64_char v = b64_alphabet ! v"

fun index_of :: "char \<Rightarrow> string \<Rightarrow> nat option" where
  "index_of c [] = None"
| "index_of c (x # xs) = (if c = x then Some 0 else map_option Suc (index_of c xs))"

definition b64_value :: "char \<Rightarrow> nat option" where
  "b64_value c = index_of c b64_alphabet"

fun b64_encode :: "nat list \<Rightarrow> string" where
  "b64_encode (a # b # c # r) =
     b64_char (a div 4) # b64_char ((a mod 4) * 16 + b div 16)
     # b64_char ((b mod 16) * 4 + c div 64) # b64_char (c mod 64) # b64_encode r"
| "b64_encode [a, b] =
     [b64_char (a div 4), b64_char ((a mod 4) * 16 + b div 16), b64_char ((b mod 16) * 4)]"
| "b64_encode [a] = [b64_char (a div 4), b64_char ((a mod 4) * 16)]"
| "b64_encode [] = []"

fun b64_bytes :: "nat list \<Rightarrow> nat list option" where
  "b64_bytes (p # q # r # s # rest) =
     map_option (\<lambda>bs. (p * 4 + q div 16) # ((q mod 16) * 16 + r div 4) # ((r mod 4) * 64 + s) # bs)
       (b64_bytes rest)"
| "b64_bytes [p, q, r] = Some [p * 4 + q div 16, (q mod 16) * 16 + r div 4]"
| "b64_bytes [p, q] = Some [p * 4 + q div 16]"
| "b64_bytes [p] = None"
| "b64_bytes [] = Some []"

fun all_some :: "'a option list \<Rightarrow> 'a list option" where
  "all_some [] = Some []"
| "all_some (None # xs) = None"
| "all_some (Some x # xs) = map_option (Cons x) (all_some xs)"

definition b64_decode :: "string \<Rightarrow> nat list option" where
  "b64_decode s =
     (case all_some (map b64_value (filter (\<lambda>c. c \<noteq> CHR 0x0A \<and> c \<noteq> CHR 0x0D) s)) of
        None \<Rightarrow> None
      | Some vs \<Rightarrow> b64_bytes vs)"

definition valid_session_id :: "string \<Rightarrow> bool" where
  "valid_session_id i \<longleftrightarrow>
     prefix ''ses_'' i
     \<and> (case b64_decode (drop 4 i) of
          None \<Rightarrow> False
        | Some digest \<Rightarrow> length digest = 32 \<and> ''ses_'' @ b64_encode digest = i)"

section \<open>The inventory\<close>

record session_inventory =
  si_generated_at :: gotime
  si_active :: "string list option"
  si_ids :: "(string \<times> string) list option"

datatype inventory_error =
    Context_Done
  | Observe_Catalog_Failed observe_error
  | Incomplete_Catalog
  | Inconsistent_Entry string
  | Lacks_Exact_Id string
  | Uncertain_Status string zstatus
  | No_Complete_Inventory
  | No_Timestamp
  | Inconsistent_Size
  | Invalid_Name string
  | Invalid_Incarnation string
  | Session_Unavailable string
  | Response_Bound
  | Decode_Failed

definition validate_session :: "string \<Rightarrow> bool" where
  "validate_session s \<longleftrightarrow>
     \<not> (s = [] \<or> 256 < length s \<or> trim_space s \<noteq> s \<or> has_control s)"

definition lookup_id :: "(string \<times> string) list \<Rightarrow> string \<Rightarrow> string" where
  "lookup_id ids n = (case map_of ids n of None \<Rightarrow> [] | Some i \<Rightarrow> i)"

fun check_incarnations ::
    "(string \<times> string) list \<Rightarrow> string list \<Rightarrow> string list \<Rightarrow> string list \<Rightarrow> inventory_error option"
where
  "check_incarnations ids seen_names seen_ids [] = None"
| "check_incarnations ids seen_names seen_ids (n # ns) =
     (if \<not> validate_session n \<or> \<not> safe_session_name n \<or> n \<in> set seen_names
      then Some (Invalid_Name n)
      else if \<not> valid_session_id (lookup_id ids n) \<or> lookup_id ids n \<in> set seen_ids
      then Some (Invalid_Incarnation n)
      else check_incarnations ids (n # seen_names) (lookup_id ids n # seen_ids) ns)"

definition validate_inventory :: "session_inventory \<Rightarrow> inventory_error option" where
  "validate_inventory inven =
     (case (si_active inven, si_ids inven) of
        (Some active, Some ids) \<Rightarrow>
          if is_zero_time (si_generated_at inven) then Some No_Timestamp
          else if max_catalog_entries < length active \<or> length active \<noteq> length ids
          then Some Inconsistent_Size
          else check_incarnations ids [] [] active
      | _ \<Rightarrow> Some No_Complete_Inventory)"

text \<open>The loop of \<open>ObserveSessionInventory\<close> over the catalog names.\<close>

fun collect_incarnations ::
    "(string \<times> session) list \<Rightarrow> string list \<Rightarrow> string list \<Rightarrow> (string \<times> string) list \<Rightarrow> string list
     \<Rightarrow> inventory_error + string list \<times> (string \<times> string) list"
where
  "collect_incarnations sessions seen active ids [] = Inr (active, ids)"
| "collect_incarnations sessions seen active ids (n # ns) =
     (case map_of sessions n of
        None \<Rightarrow> Inl (Inconsistent_Entry n)
      | Some s \<Rightarrow>
          if zs_name s \<noteq> n \<or> n \<in> set seen then Inl (Inconsistent_Entry n)
          else case zs_status s of
              Active \<Rightarrow>
                if zs_exact_id s = [] then Inl (Lacks_Exact_Id n)
                else collect_incarnations sessions (n # seen) (active @ [n])
                       (AList.update n (zs_exact_id s) ids) ns
            | Dead_Resurrectable \<Rightarrow> collect_incarnations sessions (n # seen) active ids ns
            | st \<Rightarrow> Inl (Uncertain_Status n st))"

definition observe_session_inventory ::
    "bool \<Rightarrow> observe_error + catalog \<Rightarrow> bool \<Rightarrow> gotime \<Rightarrow> inventory_error + session_inventory"
where
  "observe_session_inventory ctx_done_before cat_result ctx_done_after now =
     (if ctx_done_before then Inl Context_Done
      else case cat_result of
        Inl e \<Rightarrow> Inl (Observe_Catalog_Failed e)
      | Inr c \<Rightarrow>
          if ctx_done_after then Inl Context_Done
          else
            (case (cat_names c, cat_sessions c) of
               (Some names, Some sessions) \<Rightarrow>
                 if length names \<noteq> length sessions \<or> max_catalog_entries < length names
                 then Inl Incomplete_Catalog
                 else and_then (collect_incarnations sessions [] [] [] names)
                   (\<lambda>(active, ids).
                      let inven = \<lparr>si_generated_at = now, si_active = Some (sort_strings active),
                                   si_ids = Some ids\<rparr>
                      in case validate_inventory inven of
                           Some e \<Rightarrow> Inl e | None \<Rightarrow> Inr inven)
             | _ \<Rightarrow> Inl Incomplete_Catalog))"

text \<open>\<open>DecodeSessionInventory\<close> of a payload of the given size with the value its JSON decodes to.\<close>

definition decode_session_inventory ::
    "nat \<Rightarrow> session_inventory option \<Rightarrow> inventory_error + session_inventory"
where
  "decode_session_inventory payload_bytes decoded =
     (if max_catalog_bytes < payload_bytes then Inl Response_Bound
      else case decoded of
        None \<Rightarrow> Inl Decode_Failed
      | Some inven \<Rightarrow>
          (case validate_inventory inven of Some e \<Rightarrow> Inl e | None \<Rightarrow> Inr inven))"

definition exact_session_id :: "session_inventory \<Rightarrow> string \<Rightarrow> inventory_error + string" where
  "exact_session_id inven n =
     (case validate_inventory inven of
        Some e \<Rightarrow> Inl e
      | None \<Rightarrow>
          (case si_ids inven of
             None \<Rightarrow> Inl (Session_Unavailable n)
           | Some ids \<Rightarrow>
               (case map_of ids n of None \<Rightarrow> Inl (Session_Unavailable n) | Some i \<Rightarrow> Inr i)))"

section \<open>Lemmas on base64\<close>

lemma length_b64_alphabet: "length b64_alphabet = 64"
  by (simp add: b64_alphabet_def)

lemma distinct_b64_alphabet: "distinct b64_alphabet"
  by (simp add: b64_alphabet_def)

lemma index_of_nth: "distinct xs \<Longrightarrow> v < length xs \<Longrightarrow> index_of (xs ! v) xs = Some v"
proof (induction xs arbitrary: v)
  case Nil
  then show ?case by simp
next
  case (Cons x xs)
  then show ?case by (cases v) (auto simp: nth_mem)
qed

lemma b64_value_char [simp]: "v < 64 \<Longrightarrow> b64_value (b64_char v) = Some v"
  by (simp add: b64_value_def b64_char_def index_of_nth distinct_b64_alphabet length_b64_alphabet)

lemma b64_char_no_break: "v < 64 \<Longrightarrow> b64_char v \<noteq> CHR 0x0A \<and> b64_char v \<noteq> CHR 0x0D"
proof -
  assume "v < 64"
  then have "b64_char v \<in> set b64_alphabet"
    by (simp add: b64_char_def length_b64_alphabet)
  moreover have "CHR 0x0A \<notin> set b64_alphabet" "CHR 0x0D \<notin> set b64_alphabet"
    by (simp_all add: b64_alphabet_def)
  ultimately show ?thesis by metis
qed

text \<open>The sextets of a byte list, which the encoder maps to characters.\<close>

fun sextets :: "nat list \<Rightarrow> nat list" where
  "sextets (a # b # c # r) =
     (a div 4) # ((a mod 4) * 16 + b div 16) # ((b mod 16) * 4 + c div 64) # (c mod 64) # sextets r"
| "sextets [a, b] = [a div 4, (a mod 4) * 16 + b div 16, (b mod 16) * 4]"
| "sextets [a] = [a div 4, (a mod 4) * 16]"
| "sextets [] = []"

lemma b64_encode_sextets: "b64_encode bs = map b64_char (sextets bs)"
  by (induction bs rule: sextets.induct) simp_all

lemma pack_16 [simp]:
  "y < 16 \<Longrightarrow> (x * 16 + y) div 16 = (x :: nat)" "y < 16 \<Longrightarrow> (x * 16 + y) mod 16 = (y :: nat)"
  by auto

lemma pack_4 [simp]:
  "y < 4 \<Longrightarrow> (x * 4 + y) div 4 = (x :: nat)" "y < 4 \<Longrightarrow> (x * 4 + y) mod 4 = (y :: nat)"
  by auto

lemma pack_bound:
  "x < 4 \<Longrightarrow> y < 16 \<Longrightarrow> x * 16 + y < (64 :: nat)"
  "x < 16 \<Longrightarrow> y < 4 \<Longrightarrow> x * 4 + y < (64 :: nat)"
  by auto

lemma byte_parts:
  "(b :: nat) < 256 \<Longrightarrow> b div 4 < 64" "b < 256 \<Longrightarrow> b div 16 < 16" "b < 256 \<Longrightarrow> b div 64 < 4"
  by auto

lemma sextets_bound: "list_all (\<lambda>b. b < 256) bs \<Longrightarrow> list_all (\<lambda>v. v < 64) (sextets bs)"
proof (induction bs rule: sextets.induct)
  case (1 a b c r)
  then show ?case
    by (simp add: pack_bound byte_parts)
next
  case (2 a b)
  then show ?case using pack_bound(2) [of "b mod 16" 0] by (simp add: pack_bound(1) byte_parts)
next
  case (3 a)
  then show ?case using pack_bound(1) [of "a mod 4" 0] by (simp add: byte_parts)
qed simp

lemma b64_bytes_sextets: "list_all (\<lambda>b. b < 256) bs \<Longrightarrow> b64_bytes (sextets bs) = Some bs"
proof (induction bs rule: sextets.induct)
  case (1 a b c r)
  then show ?case
    by (simp add: byte_parts)
next
  case (2 a b)
  then show ?case using pack_4(1) [of 0 "b mod 16"] by (simp add: byte_parts)
next
  case (3 a)
  then show ?case using pack_16(1) [of 0 "a mod 4"] by simp
qed simp

lemma all_some_map_Some: "(\<And>x. x \<in> set xs \<Longrightarrow> f x = Some (g x)) \<Longrightarrow> all_some (map f xs) = Some (map g xs)"
  by (induction xs) auto

lemma b64_decode_encode:
  assumes "list_all (\<lambda>b. b < 256) bs"
  shows "b64_decode (b64_encode bs) = Some bs"
proof -
  have v: "list_all (\<lambda>v. v < 64) (sextets bs)" using assms by (rule sextets_bound)
  have "filter (\<lambda>c. c \<noteq> CHR 0x0A \<and> c \<noteq> CHR 0x0D) (b64_encode bs) = b64_encode bs"
    using v b64_char_no_break by (simp add: b64_encode_sextets filter_id_conv list_all_iff)
  moreover have "all_some (map b64_value (b64_encode bs)) = Some (sextets bs)"
    using v all_some_map_Some [of "sextets bs" "b64_value \<circ> b64_char" id]
    by (simp add: b64_encode_sextets list_all_iff o_def)
  ultimately show ?thesis using assms by (simp add: b64_decode_def b64_bytes_sextets)
qed

lemma index_of_bound: "index_of c xs = Some v \<Longrightarrow> v < length xs"
  by (induction xs arbitrary: v) (auto split: if_splits)

lemma b64_bytes_bound:
  "b64_bytes vs = Some bs \<Longrightarrow> list_all (\<lambda>v. v < 64) vs \<Longrightarrow> list_all (\<lambda>b. b < 256) bs"
proof (induction vs arbitrary: bs rule: b64_bytes.induct)
  case (1 p q r s rest)
  have "q mod 16 < 16" "r mod 4 < 4" "q div 16 < 4" "r div 4 < 16" using "1.prems" by auto
  then show ?case using 1 by auto
next
  case (2 p q r)
  have "q mod 16 < 16" "q div 16 < 4" "r div 4 < 16" using "2.prems" by auto
  then show ?case using 2 by auto
next
  case (3 p q)
  have "q div 16 < 4" using "3.prems" by auto
  then show ?case using 3 by auto
qed simp_all

lemma all_some_bound:
  "all_some (map f xs) = Some vs \<Longrightarrow> (\<And>x v. f x = Some v \<Longrightarrow> P v) \<Longrightarrow> list_all P vs"
proof (induction xs arbitrary: vs)
  case Nil
  then show ?case by simp
next
  case (Cons x xs)
  then show ?case by (cases "f x") auto
qed

lemma b64_decode_bound: "b64_decode s = Some bs \<Longrightarrow> list_all (\<lambda>b. b < 256) bs"
proof -
  assume "b64_decode s = Some bs"
  then obtain vs where
    vs: "all_some (map b64_value (filter (\<lambda>c. c \<noteq> CHR 0x0A \<and> c \<noteq> CHR 0x0D) s)) = Some vs"
    and b: "b64_bytes vs = Some bs"
    by (auto simp: b64_decode_def split: option.splits)
  have "list_all (\<lambda>v. v < 64) vs"
    using vs by (rule all_some_bound) (auto simp: b64_value_def length_b64_alphabet dest: index_of_bound)
  with b show ?thesis by (rule b64_bytes_bound)
qed

section \<open>Lemmas on the inventory\<close>

lemma check_incarnations_None:
  "check_incarnations ids sn si ns = None \<Longrightarrow>
   distinct ns \<and> set ns \<inter> set sn = {}
   \<and> distinct (map (lookup_id ids) ns) \<and> lookup_id ids ` set ns \<inter> set si = {}
   \<and> (\<forall>n \<in> set ns. valid_session_id (lookup_id ids n) \<and> validate_session n \<and> safe_session_name n)"
proof (induction ids sn si ns rule: check_incarnations.induct)
  case (1 ids sn si)
  then show ?case by simp
next
  case (2 ids sn si n ns)
  have a: "\<not> (\<not> validate_session n \<or> \<not> safe_session_name n \<or> n \<in> set sn)"
    using "2.prems" by (simp only: check_incarnations.simps split: if_splits) simp_all
  have b: "\<not> (\<not> valid_session_id (lookup_id ids n) \<or> lookup_id ids n \<in> set si)"
    using "2.prems" a by (simp only: check_incarnations.simps if_False split: if_splits) simp_all
  have "check_incarnations ids (n # sn) (lookup_id ids n # si) ns = None"
    using "2.prems" a b by (simp only: check_incarnations.simps if_False)
  from "2.IH" [OF a b this] a b show ?case by auto
qed

lemma valid_session_id_nonempty: "valid_session_id i \<Longrightarrow> i \<noteq> []"
  by (auto simp: valid_session_id_def)

lemma lookup_id_valid: "valid_session_id (lookup_id ids n) \<Longrightarrow> map_of ids n = Some (lookup_id ids n)"
  using valid_session_id_nonempty by (auto simp: lookup_id_def split: option.splits)

lemma collect_incarnations_Inr:
  assumes "collect_incarnations sessions seen active ids ns = Inr (active', ids')"
  shows "map_of ids' n =
    (if n \<in> set ns \<and> (\<exists>s. map_of sessions n = Some s \<and> zs_status s = Active)
     then map_option zs_exact_id (map_of sessions n) else map_of ids n)"
  using assms
proof (induction sessions seen active ids ns rule: collect_incarnations.induct)
  case (1 sessions seen active ids)
  then show ?case by simp
next
  case (2 sessions seen active ids m ns)
  then obtain s where s: "map_of sessions m = Some s" by (auto split: option.splits)
  with 2 have ok: "\<not> (zs_name s \<noteq> m \<or> m \<in> set seen)" by (auto split: if_splits)
  have "zs_status s = Active \<or> zs_status s = Dead_Resurrectable"
    using "2.prems" s ok by (cases "zs_status s") (auto split: if_splits)
  then show ?case
  proof
    assume a: "zs_status s = Active"
    then have x: "zs_exact_id s \<noteq> []" using "2.prems" s ok by (auto split: if_splits)
    have r: "collect_incarnations sessions (m # seen) (active @ [m])
        (AList.update m (zs_exact_id s) ids) ns = Inr (active', ids')"
      using "2.prems" s ok a x by simp
    from "2.IH"(1) [OF s ok a x r] show ?thesis using s a by auto
  next
    assume a: "zs_status s = Dead_Resurrectable"
    have r: "collect_incarnations sessions (m # seen) active ids ns = Inr (active', ids')"
      using "2.prems" s ok a by simp
    from "2.IH"(2) [OF s ok a r] show ?thesis using s a by auto
  qed
qed

lemma collect_incarnations_active:
  assumes "collect_incarnations sessions seen active ids ns = Inr (active', ids')"
    and "map_of ids' n = Some i" and "map_of ids n = None \<or> n \<in> set active"
  shows "n \<in> set active'"
  using assms
proof (induction sessions seen active ids ns rule: collect_incarnations.induct)
  case (1 sessions seen active ids)
  then show ?case by auto
next
  case (2 sessions seen active ids m ns)
  then obtain s where s: "map_of sessions m = Some s" by (auto split: option.splits)
  with 2 have ok: "\<not> (zs_name s \<noteq> m \<or> m \<in> set seen)" by (auto split: if_splits)
  have "zs_status s = Active \<or> zs_status s = Dead_Resurrectable"
    using "2.prems" s ok by (cases "zs_status s") (auto split: if_splits)
  then show ?case
  proof
    assume a: "zs_status s = Active"
    then have x: "zs_exact_id s \<noteq> []" using "2.prems" s ok by (auto split: if_splits)
    have r: "collect_incarnations sessions (m # seen) (active @ [m])
        (AList.update m (zs_exact_id s) ids) ns = Inr (active', ids')"
      using "2.prems" s ok a x by simp
    show ?thesis by (rule "2.IH"(1) [OF s ok a x r "2.prems"(2)]) (use "2.prems"(3) in auto)
  next
    assume a: "zs_status s = Dead_Resurrectable"
    have r: "collect_incarnations sessions (m # seen) active ids ns = Inr (active', ids')"
      using "2.prems" s ok a by simp
    show ?thesis by (rule "2.IH"(2) [OF s ok a r "2.prems"(2,3)])
  qed
qed

section \<open>Example\<close>

definition ex_id :: "nat \<Rightarrow> string" where
  "ex_id k = ''ses_'' @ b64_encode (replicate 32 k)"

definition ex_exact_catalog :: catalog where
  "ex_exact_catalog =
     \<lparr>cat_sessions = Some
        [(''a'', \<lparr>zs_name = ''a'', zs_id = [], zs_exact_id = ex_id 7, zs_status = Active\<rparr>),
         (''b'', session_with ''b'' Dead_Resurrectable)],
      cat_names = Some [''a'', ''b''], cat_cache_available = True\<rparr>"

lemma ex_inventory:
  "observe_session_inventory False (Inr ex_exact_catalog) False 5 =
     Inr \<lparr>si_generated_at = 5, si_active = Some [''a''], si_ids = Some [(''a'', ex_id 7)]\<rparr>"
  by code_simp

section \<open>Properties\<close>

text \<open>
  \<open>validSessionID\<close> accepts exactly the canonical texts: the prefix \<open>ses_\<close> followed by the
  encoding of 32 bytes. So no two accepted identifiers stand for the same digest, and line
  breaks or stray trailing bits, which the decoder tolerates, are refused.
\<close>

theorem valid_session_id_iff:
  "valid_session_id i \<longleftrightarrow>
     (\<exists>bs. length bs = 32 \<and> list_all (\<lambda>b. b < 256) bs \<and> i = ''ses_'' @ b64_encode bs)"
proof
  assume "valid_session_id i"
  then obtain bs where "b64_decode (drop 4 i) = Some bs" "length bs = 32" "''ses_'' @ b64_encode bs = i"
    by (auto simp: valid_session_id_def split: option.splits)
  then show "\<exists>bs. length bs = 32 \<and> list_all (\<lambda>b. b < 256) bs \<and> i = ''ses_'' @ b64_encode bs"
    using b64_decode_bound by blast
next
  assume "\<exists>bs. length bs = 32 \<and> list_all (\<lambda>b. b < 256) bs \<and> i = ''ses_'' @ b64_encode bs"
  then obtain bs where bs: "length bs = 32" "list_all (\<lambda>b. b < 256) bs" "i = ''ses_'' @ b64_encode bs"
    by blast
  have "drop 4 i = b64_encode bs" using bs(3) by simp
  then show "valid_session_id i"
    using bs b64_decode_encode [OF bs(2)] by (simp add: valid_session_id_def)
qed

text \<open>
  The exact identity comes from one complete observation. After a successful observation,
  \<open>ExactSessionID\<close> of a name answers \<open>i\<close> exactly when the catalog records the name as ACTIVE with the
  exact identity \<open>i\<close>; every identity is well-formed and no two names share one.
\<close>

theorem observed_exact_ids:
  assumes "observe_session_inventory False (Inr c) False now = Inr inven"
    and "set (name_list c) = fst ` set (session_map c)"
  shows "(exact_session_id inven n = Inr i \<longleftrightarrow>
      (\<exists>s. map_of (session_map c) n = Some s \<and> zs_status s = Active \<and> zs_exact_id s = i))
    \<and> (exact_session_id inven n = Inr i \<and> exact_session_id inven m = Inr i \<longrightarrow>
         n = m \<and> valid_session_id i)"
proof -
  obtain names sessions active ids where
    c: "cat_names c = Some names" "cat_sessions c = Some sessions"
    and col: "collect_incarnations sessions [] [] [] names = Inr (active, ids)"
    and inven: "inven = \<lparr>si_generated_at = now, si_active = Some (sort_strings active), si_ids = Some ids\<rparr>"
    and valid: "validate_inventory inven = None"
    using assms(1)
    by (auto simp: observe_session_inventory_def and_then_Inr_iff Let_def
        split: if_splits option.splits)
  have chk: "check_incarnations ids [] [] (sort_strings active) = None"
    using valid by (auto simp: validate_inventory_def inven split: if_splits)
  have names: "set names = fst ` set sessions"
    using assms(2) c by (simp add: name_list_def session_map_def)
  have ids: "map_of ids k = (if \<exists>s. map_of sessions k = Some s \<and> zs_status s = Active
      then map_option zs_exact_id (map_of sessions k) else None)" for k
    using collect_incarnations_Inr [OF col, of k] names
    by (auto dest: map_of_SomeD intro: rev_image_eqI)
  have ex: "exact_session_id inven k = Inr j \<longleftrightarrow> map_of ids k = Some j" for k j
    using valid by (auto simp: exact_session_id_def inven split: option.splits)
  have one: "exact_session_id inven n = Inr i \<longleftrightarrow>
      (\<exists>s. map_of (session_map c) n = Some s \<and> zs_status s = Active \<and> zs_exact_id s = i)"
    unfolding ex ids by (auto simp: session_map_def c)
  note k = check_incarnations_None [OF chk]
  have dom: "k \<in> set active" if "map_of ids k = Some j" for k j
    by (rule collect_incarnations_active [OF col that]) simp
  have two: "n = m \<and> valid_session_id i" if "map_of ids n = Some i" "map_of ids m = Some i"
  proof -
    have "n \<in> set active" "m \<in> set active" using that dom by auto
    moreover have "lookup_id ids n = i" "lookup_id ids m = i" using that by (simp_all add: lookup_id_def)
    moreover have "inj_on (lookup_id ids) (set active)" using k by (simp add: distinct_map)
    moreover have "valid_session_id (lookup_id ids n)" using k \<open>n \<in> set active\<close> by simp
    ultimately show ?thesis by (metis inj_onD)
  qed
  have "exact_session_id inven n = Inr i \<and> exact_session_id inven m = Inr i \<longrightarrow>
         n = m \<and> valid_session_id i"
    unfolding ex using two by blast
  with one show ?thesis by (rule conjI)
qed

theorem observed_exact_ids_witness:
  "exact_session_id \<lparr>si_generated_at = 5, si_active = Some [''a''], si_ids = Some [(''a'', ex_id 7)]\<rparr> ''a''
   = Inr (ex_id 7)"
proof -
  have "set (name_list ex_exact_catalog) = fst ` set (session_map ex_exact_catalog)"
    by (simp add: ex_exact_catalog_def name_list_def session_map_def)
  from observed_exact_ids [OF ex_inventory this, of "''a''" "ex_id 7"] show ?thesis
    by (simp add: ex_exact_catalog_def session_map_def)
qed

end
