(* ===== verification/Recovery_Coordinator.thy ===== *)
theory Recovery_Coordinator
  imports Session_Inventory
begin

text \<open>
  The shared recovery coordinator, \<open>internal/mirror/session_recovery.go\<close>: members (one per terminal
  helper), host probes with backoff, and the admission of at most two attachment attempts that
  are not ready yet.

  The members map holds pointers in Go; a probe remembers which member objects it observed. Here
  a member carries the number of its allocation, \<open>rm_ref\<close>, and pointer equality is equality of
  these numbers. Maps are association lists with distinct keys; every loop over a map has a
  result that does not depend on the order. An operation that would dereference a nil pointer
  returns \<^term>\<open>None\<close>.
\<close>

section \<open>Data\<close>

record control_request =
  rq_token :: string
  rq_client :: string
  rq_session :: string
  rq_session_id :: string
  rq_attempt :: string
  rq_event :: string
  rq_state :: string
  rq_retry :: bool

record recovery_member =
  rm_ref :: nat
  rm_identity :: control_request
  rm_proposed :: string
  rm_active :: string
  rm_retired :: string
  rm_deadline :: gotime
  rm_ready :: bool
  rm_ended :: bool
  rm_reset :: bool

record session_retry =
  sr_failures :: nat
  sr_at :: gotime

datatype probe_failure = Probe_Error string | Invalid_Inventory inventory_error

datatype recovery_reason =
    Waiting_For_Observation
  | Observation_Unavailable probe_failure
  | Waiting_For_Admission
  | Session_Backoff

record session_recovery =
  rc_members :: "(string \<times> recovery_member) list"
  rc_order :: "string list"
  rc_sessions :: "(string \<times> session_retry) list"
  rc_available :: bool
  rc_checking :: bool
  rc_wanted :: bool
  rc_reason :: recovery_reason
  rc_next_probe :: gotime
  rc_last_probe :: gotime
  rc_failures :: nat
  rc_sequence :: "64 word"
  rc_observing :: "(string \<times> nat) list"
  rc_inventory :: session_inventory
  rc_next_ref :: nat

record session_grant =
  sg_attempt :: string
  sg_deadline :: gotime

record control_reply =
  ry_checking :: bool
  ry_reason :: recovery_reason
  ry_retry_at :: gotime
  ry_grant :: "session_grant option"
  ry_ended :: bool
  ry_reset :: bool
  ry_cancel_attempt :: string

datatype exchange_error = Invalid_Identity | Token_Registered | Identity_Changed

definition new_session_recovery :: session_recovery where
  "new_session_recovery =
     \<lparr>rc_members = [], rc_order = [], rc_sessions = [], rc_available = False, rc_checking = False,
      rc_wanted = False, rc_reason = Waiting_For_Observation, rc_next_probe = 0, rc_last_probe = 0,
      rc_failures = 0, rc_sequence = 0, rc_observing = [],
      rc_inventory = \<lparr>si_generated_at = 0, si_active = None, si_ids = None\<rparr>, rc_next_ref = 0\<rparr>"

section \<open>Probes\<close>

definition recovery_delay :: "nat \<Rightarrow> duration" where
  "recovery_delay failures = min (30 * second) (second * 2 ^ min failures 5)"

definition observed_id :: "session_recovery \<Rightarrow> string \<Rightarrow> string" where
  "observed_id s name =
     (case si_ids (rc_inventory s) of None \<Rightarrow> [] | Some ids \<Rightarrow> lookup_id ids name)"

definition request_probe :: "gotime \<Rightarrow> session_recovery \<Rightarrow> session_recovery" where
  "request_probe now s =
     (if rc_checking s then s
      else
        (let earliest = rc_last_probe s + second;
             due = (if now < earliest then earliest else now)
         in s\<lparr>rc_wanted := True,
              rc_next_probe :=
                (if is_zero_time (rc_next_probe s) \<or> due < rc_next_probe s then due
                 else rc_next_probe s)\<rparr>))"

definition begin_probe :: "gotime \<Rightarrow> session_recovery \<Rightarrow> session_recovery \<times> 64 word option" where
  "begin_probe now s =
     (if rc_checking s \<or> rc_members s = [] \<or> now < rc_next_probe s then (s, None)
      else
        (let waiting = list_ex (\<lambda>(c, m). \<not> rm_ready m \<and> \<not> rm_ended m) (rc_members s)
         in if \<not> rc_wanted s \<and> \<not> waiting then (s, None)
            else
              (let n = rc_sequence s + 1
               in (s\<lparr>rc_checking := True, rc_wanted := False, rc_last_probe := now,
                     rc_sequence := n,
                     rc_observing := map (\<lambda>(c, m). (c, rm_ref m)) (rc_members s)\<rparr>,
                   Some n))))"

definition mismatched :: "session_recovery \<Rightarrow> recovery_member \<Rightarrow> bool" where
  "mismatched s m \<longleftrightarrow>
     observed_id s (rq_session (rm_identity m)) \<noteq> rq_session_id (rm_identity m)"

definition end_member :: "recovery_member \<Rightarrow> recovery_member" where
  "end_member m = m\<lparr>rm_ended := True, rm_active := [], rm_ready := False\<rparr>"

text \<open>The loop over the observed members.\<close>

fun end_observed :: "(string \<times> nat) list \<Rightarrow> session_recovery \<Rightarrow> session_recovery" where
  "end_observed [] s = s"
| "end_observed ((c, r) # rest) s =
     end_observed rest
       (case map_of (rc_members s) c of
          None \<Rightarrow> s
        | Some m \<Rightarrow>
            if rm_ref m = r \<and> mismatched s m
            then s\<lparr>rc_members := AList.update c (end_member m) (rc_members s)\<rparr> else s)"

section \<open>Admission\<close>

definition pending :: "recovery_member \<Rightarrow> bool" where
  "pending m \<longleftrightarrow> rm_active m \<noteq> [] \<and> \<not> rm_ready m"

definition expire :: "gotime \<Rightarrow> session_recovery \<Rightarrow> session_recovery" where
  "expire now s =
     s\<lparr>rc_members := map (\<lambda>(c, m).
        (c, if pending m \<and> \<not> now < rm_deadline m then m\<lparr>rm_reset := True\<rparr> else m))
        (rc_members s)\<rparr>"

definition admissible ::
    "gotime \<Rightarrow> session_recovery \<Rightarrow> string list \<Rightarrow> session_retry \<Rightarrow> recovery_member \<Rightarrow> bool"
where
  "admissible now s busy retry m \<longleftrightarrow>
     \<not> (rm_ended m \<or> rm_reset m \<or> rm_active m \<noteq> [] \<or> rm_proposed m = rm_retired m
        \<or> rq_session_id (rm_identity m) \<in> set busy \<or> now < sr_at retry \<or> mismatched s m)"

definition admitted :: "gotime \<Rightarrow> recovery_member \<Rightarrow> recovery_member" where
  "admitted now m = m\<lparr>rm_active := rm_proposed m, rm_deadline := now + 15 * second\<rparr>"

text \<open>
  The rotation loop: at most \<open>n\<close> iterations, while fewer than two attempts are pending.
\<close>

fun admit_loop ::
    "gotime \<Rightarrow> nat \<Rightarrow> nat \<Rightarrow> string list \<Rightarrow> session_recovery \<Rightarrow> session_recovery option"
where
  "admit_loop now 0 n_pending busy s = Some s"
| "admit_loop now (Suc n) n_pending busy s =
     (if \<not> n_pending < 2 then Some s
      else case rc_order s of
        [] \<Rightarrow> None
      | c # rest \<Rightarrow>
          (let s1 = s\<lparr>rc_order := rest @ [c]\<rparr> in
           case map_of (rc_members s) c of
             None \<Rightarrow> None
           | Some m \<Rightarrow>
               (case map_of (rc_sessions s) (rq_session_id (rm_identity m)) of
                  None \<Rightarrow> None
                | Some retry \<Rightarrow>
                    if \<not> admissible now s busy retry m then admit_loop now n n_pending busy s1
                    else admit_loop now n (Suc n_pending)
                           (rq_session_id (rm_identity m) # busy)
                           (s1\<lparr>rc_members := AList.update c (admitted now m) (rc_members s)\<rparr>))))"

definition admit :: "gotime \<Rightarrow> session_recovery \<Rightarrow> session_recovery option" where
  "admit now s =
     (let s1 = expire now s in
      if \<not> rc_available s1 then Some s1
      else
        (let waiting = filter pending (map snd (rc_members s1))
         in admit_loop now (length (rc_order s1)) (length waiting)
              (map (\<lambda>m. rq_session_id (rm_identity m)) waiting) s1))"

definition finish_probe ::
    "64 word \<Rightarrow> gotime \<Rightarrow> session_inventory \<Rightarrow> string option \<Rightarrow> session_recovery
     \<Rightarrow> session_recovery option"
where
  "finish_probe n now inven err s =
     (if \<not> rc_checking s \<or> n \<noteq> rc_sequence s then Some s
      else
        (let failure =
           (case err of
              Some e \<Rightarrow> Some (Probe_Error e)
            | None \<Rightarrow> map_option Invalid_Inventory (validate_inventory inven));
             s1 = s\<lparr>rc_checking := False\<rparr>
         in case failure of
              Some f \<Rightarrow>
                Some (s1\<lparr>rc_available := False, rc_reason := Observation_Unavailable f,
                         rc_next_probe := now + recovery_delay (rc_failures s),
                         rc_failures := min (rc_failures s + 1) 6, rc_observing := []\<rparr>)
            | None \<Rightarrow>
                (let s2 = s1\<lparr>rc_available := True, rc_failures := 0,
                             rc_reason := Waiting_For_Admission, rc_inventory := inven,
                             rc_next_probe := now + 30 * second\<rparr>;
                     s3 = (end_observed (rc_observing s) s2)\<lparr>rc_observing := []\<rparr>;
                     s4 = (if list_ex (\<lambda>(c, m). \<not> rm_ended m \<and> mismatched s3 m) (rc_members s3)
                           then request_probe now s3 else s3)
                 in admit now s4)))"

section \<open>Exchange\<close>

definition valid_recovery_request :: "control_request \<Rightarrow> bool" where
  "valid_recovery_request r \<longleftrightarrow>
     is_hex32 (rq_client r) \<and> is_hex32 (rq_token r) \<and> is_hex32 (rq_attempt r)
     \<and> valid_session_id (rq_session_id r) \<and> safe_session_name (rq_session r)
     \<and> rq_state r \<in> {''offline'', ''checking'', ''connecting'', ''ready''}
     \<and> rq_event r \<in> {[], ''ready'', ''lost''}"

definition put_member :: "string \<Rightarrow> recovery_member \<Rightarrow> session_recovery \<Rightarrow> session_recovery" where
  "put_member c m s = s\<lparr>rc_members := AList.update c m (rc_members s)\<rparr>"

definition new_member :: "nat \<Rightarrow> control_request \<Rightarrow> recovery_member" where
  "new_member ref r =
     (let ready = (rq_state r = ''ready'');
          reset = (rq_state r = ''connecting'' \<or> (rq_event r \<noteq> [] \<and> rq_state r \<noteq> ''ready''))
      in \<lparr>rm_ref = ref, rm_identity = r, rm_proposed = rq_attempt r,
          rm_active = (if ready then rq_attempt r else []),
          rm_retired = (if reset then rq_attempt r else []),
          rm_deadline = 0, rm_ready = ready, rm_ended = False, rm_reset = reset\<rparr>)"

definition register :: "control_request \<Rightarrow> gotime \<Rightarrow> session_recovery \<Rightarrow> session_recovery" where
  "register r now s =
     request_probe now
       (s\<lparr>rc_members := AList.update (rq_client r) (new_member (rc_next_ref s) r) (rc_members s),
          rc_order := rc_order s @ [rq_client r],
          rc_sessions :=
            (if map_of (rc_sessions s) (rq_session_id r) = None
             then AList.update (rq_session_id r) \<lparr>sr_failures = 0, sr_at = 0\<rparr> (rc_sessions s)
             else rc_sessions s),
          rc_next_ref := Suc (rc_next_ref s)\<rparr>)"

definition fail :: "string \<Rightarrow> recovery_member \<Rightarrow> gotime \<Rightarrow> session_recovery \<Rightarrow> session_recovery option"
where
  "fail c m now s =
     (let sid = rq_session_id (rm_identity m) in
      case map_of (rc_sessions s) sid of
        None \<Rightarrow> None
      | Some retry \<Rightarrow>
          Some ((put_member c
                   (m\<lparr>rm_retired := rm_active m, rm_active := [], rm_ready := False,
                      rm_reset := False\<rparr>) s)
                \<lparr>rc_sessions := AList.update sid
                   \<lparr>sr_failures = min (sr_failures retry + 1) 6,
                    sr_at = now + recovery_delay (sr_failures retry)\<rparr> (rc_sessions s)\<rparr>))"

text \<open>
  The event part of \<open>exchange\<close> for the member \<open>m\<close> of the caller: whether it continues to admission
  (otherwise the caller is resynchronised at once), and the state.
\<close>

definition apply_event ::
    "control_request \<Rightarrow> gotime \<Rightarrow> recovery_member \<Rightarrow> session_recovery
     \<Rightarrow> (bool \<times> session_recovery) option"
where
  "apply_event r now m s =
     (let c = rq_client r; att = rq_attempt r in
      if rq_event r = [] then
        Some (True, if rm_active m = [] \<and> \<not> rm_reset m \<and> att \<noteq> rm_retired m
                    then put_member c (m\<lparr>rm_proposed := att\<rparr>) s else s)
      else if rq_event r = ''lost'' \<and> att = rm_retired m then
        Some (True, if rm_active m = [] then put_member c (m\<lparr>rm_reset := False\<rparr>) s else s)
      else if att \<noteq> rm_active m \<or> rm_active m = [] then Some (False, s)
      else if rq_event r = ''ready'' then
        (if \<not> rm_ready m \<and> (rm_reset m \<or> \<not> now < rm_deadline m) then Some (False, s)
         else if map_of (rc_sessions s) (rq_session_id r) = None then None
         else Some (True,
                (put_member c (m\<lparr>rm_ready := True\<rparr>) s)
                  \<lparr>rc_sessions := AList.update (rq_session_id r) \<lparr>sr_failures = 0, sr_at = 0\<rparr>
                     (rc_sessions s)\<rparr>))
      else if rq_event r = ''lost'' then
        map_option (\<lambda>s'. (True, request_probe now s')) (fail c m now s)
      else Some (True, s))"

definition reply :: "session_recovery \<Rightarrow> recovery_member \<Rightarrow> gotime \<Rightarrow> bool \<Rightarrow> control_reply" where
  "reply s m now reset =
     (let retry = map_of (rc_sessions s) (rq_session_id (rm_identity m));
          backoff = (case retry of None \<Rightarrow> False | Some t \<Rightarrow> now < sr_at t)
      in \<lparr>ry_checking = rc_checking s,
          ry_reason = (if backoff then Session_Backoff else rc_reason s),
          ry_retry_at =
            (case retry of
               Some t \<Rightarrow> if now < sr_at t then sr_at t
                        else if \<not> rc_available s \<or> rc_checking s then rc_next_probe s else 0
             | None \<Rightarrow> if \<not> rc_available s \<or> rc_checking s then rc_next_probe s else 0),
          ry_grant =
            (if \<not> reset \<and> \<not> rm_ended m \<and> rm_active m \<noteq> [] \<and> \<not> rm_ready m
             then Some \<lparr>sg_attempt = rm_active m, sg_deadline = rm_deadline m\<rparr> else None),
          ry_ended = rm_ended m, ry_reset = reset,
          ry_cancel_attempt =
            (if rm_reset m \<and> rm_active m \<noteq> [] \<and> \<not> rm_ready m then rm_active m else [])\<rparr>)"

text \<open>The part of \<open>exchange\<close> after the member is found or registered.\<close>

definition exchange_member ::
    "control_request \<Rightarrow> gotime \<Rightarrow> session_recovery
     \<Rightarrow> ((exchange_error + control_reply) \<times> session_recovery) option"
where
  "exchange_member r now s0 =
     (let c = rq_client r;
          s1 = (if rq_retry r then request_probe now s0 else s0);
          s2 = expire now s1
      in case map_of (rc_members s2) c of
           None \<Rightarrow> None
         | Some m \<Rightarrow>
             if rm_active m \<noteq> [] \<and> rq_attempt r \<noteq> rm_active m
             then Some (Inr (reply s2 m now True), s2)
             else
               (case apply_event r now m s2 of
                  None \<Rightarrow> None
                | Some (False, s3) \<Rightarrow>
                    map_option (\<lambda>m3. (Inr (reply s3 m3 now True), s3)) (map_of (rc_members s3) c)
                | Some (True, s3) \<Rightarrow>
                    (case map_of (rc_members s3) c of
                       None \<Rightarrow> None
                     | Some m3 \<Rightarrow>
                         (let s4 = (if rq_state r = ''connecting'' \<and> rm_active m3 \<noteq> rq_attempt r
                                       \<and> rq_attempt r \<noteq> rm_retired m3
                                    then put_member c (m3\<lparr>rm_reset := True\<rparr>) s3 else s3)
                          in case admit now s4 of
                               None \<Rightarrow> None
                             | Some s5 \<Rightarrow>
                                 map_option
                                   (\<lambda>m5. (Inr (reply s5 m5 now
                                           (rm_reset m5 \<or> rq_attempt r = rm_retired m5)), s5))
                                   (map_of (rc_members s5) c)))))"

definition exchange ::
    "control_request \<Rightarrow> gotime \<Rightarrow> session_recovery
     \<Rightarrow> ((exchange_error + control_reply) \<times> session_recovery) option"
where
  "exchange r now s =
     (if \<not> valid_recovery_request r then Some (Inl Invalid_Identity, s)
      else case map_of (rc_members s) (rq_client r) of
        None \<Rightarrow>
          if list_ex (\<lambda>(c, m). rq_token (rm_identity m) = rq_token r) (rc_members s)
          then Some (Inl Token_Registered, s)
          else exchange_member r now (register r now s)
      | Some m \<Rightarrow>
          if rq_token (rm_identity m) \<noteq> rq_token r \<or> rq_session (rm_identity m) \<noteq> rq_session r
             \<or> rq_session_id (rm_identity m) \<noteq> rq_session_id r
          then Some (Inl Identity_Changed, s)
          else exchange_member r now s)"

definition remove :: "string \<Rightarrow> session_recovery \<Rightarrow> session_recovery" where
  "remove client s =
     (case map_of (rc_members s) client of
        None \<Rightarrow> s
      | Some m \<Rightarrow>
          (let sid = rq_session_id (rm_identity m);
               s1 = s\<lparr>rc_members := AList.delete client (rc_members s),
                      rc_order := remove1 client (rc_order s)\<rparr>
           in if list_ex (\<lambda>(c, m'). rq_session_id (rm_identity m') = sid) (rc_members s1) then s1
              else s1\<lparr>rc_sessions := AList.delete sid (rc_sessions s1)\<rparr>))"

section \<open>Runs\<close>

text \<open>
  The operations the server performs under its lock, and the states they reach.
\<close>

datatype recovery_op =
    Op_Exchange control_request gotime
  | Op_Begin gotime
  | Op_Finish "64 word" gotime session_inventory "string option"
  | Op_Admit gotime
  | Op_Remove string

fun run_op :: "recovery_op \<Rightarrow> session_recovery \<Rightarrow> session_recovery option" where
  "run_op (Op_Exchange r now) s = map_option snd (exchange r now s)"
| "run_op (Op_Begin now) s = Some (fst (begin_probe now s))"
| "run_op (Op_Finish n now inven err) s = finish_probe n now inven err s"
| "run_op (Op_Admit now) s = admit now s"
| "run_op (Op_Remove c) s = Some (remove c s)"

inductive reachable :: "session_recovery \<Rightarrow> bool" where
  start: "reachable new_session_recovery"
| step: "reachable s \<Longrightarrow> run_op op s = Some s' \<Longrightarrow> reachable s'"

section \<open>Invariant\<close>

definition sid :: "recovery_member \<Rightarrow> string" where
  "sid m = rq_session_id (rm_identity m)"

definition member_ok :: "recovery_member \<Rightarrow> bool" where
  "member_ok m \<longleftrightarrow> rm_proposed m \<noteq> [] \<and> (rm_ready m \<longrightarrow> rm_active m \<noteq> [])"

definition pend :: "(string \<rightharpoonup> recovery_member) \<Rightarrow> string set" where
  "pend M = {c. \<exists>m. M c = Some m \<and> pending m}"

text \<open>At most two attempts are pending, and no two of them for the same session incarnation.\<close>

definition slots_ok :: "(string \<rightharpoonup> recovery_member) \<Rightarrow> bool" where
  "slots_ok M \<longleftrightarrow> card (pend M) \<le> 2 \<and> inj_on (\<lambda>c. sid (the (M c))) (pend M)"

definition sids :: "(string \<rightharpoonup> recovery_member) \<Rightarrow> string set" where
  "sids M = {x. \<exists>c m. M c = Some m \<and> sid m = x}"

definition parts_ok ::
    "(string \<times> recovery_member) list \<Rightarrow> string list \<Rightarrow> (string \<times> session_retry) list \<Rightarrow> bool"
where
  "parts_ok mem order ses \<longleftrightarrow>
     distinct (map fst mem) \<and> distinct order \<and> set order = dom (map_of mem)
     \<and> distinct (map fst ses) \<and> dom (map_of ses) = sids (map_of mem)
     \<and> (\<forall>c m. map_of mem c = Some m \<longrightarrow> member_ok m) \<and> slots_ok (map_of mem)"

definition coord_inv :: "session_recovery \<Rightarrow> bool" where
  "coord_inv s \<longleftrightarrow> parts_ok (rc_members s) (rc_order s) (rc_sessions s)"

section \<open>Lemmas on the invariant\<close>

lemma finite_pend [simp]: "finite (pend (map_of mem))"
  by (rule finite_subset [OF _ finite_dom_map_of [of mem]]) (auto simp: pend_def)

lemma slots_put:
  assumes "M c = Some m" and "sid m' = sid m" and "pending m' \<Longrightarrow> pending m"
    and "slots_ok M" and "finite (pend M)"
  shows "slots_ok (M(c \<mapsto> m'))"
proof -
  have sub: "pend (M(c \<mapsto> m')) \<subseteq> pend M" using assms by (auto simp: pend_def split: if_splits)
  then have "card (pend (M(c \<mapsto> m'))) \<le> 2"
    using assms(4,5) card_mono [OF assms(5) sub] by (simp add: slots_ok_def)
  moreover have "inj_on (\<lambda>x. sid (the ((M(c \<mapsto> m')) x))) (pend (M(c \<mapsto> m')))"
  proof (rule inj_onI)
    fix x y
    assume x: "x \<in> pend (M(c \<mapsto> m'))" and y: "y \<in> pend (M(c \<mapsto> m'))"
      and eq: "sid (the ((M(c \<mapsto> m')) x)) = sid (the ((M(c \<mapsto> m')) y))"
    have same: "sid (the ((M(c \<mapsto> m')) z)) = sid (the (M z))" for z
      using assms(1,2) by simp
    have "inj_on (\<lambda>z. sid (the (M z))) (pend M)" using assms(4) by (simp add: slots_ok_def)
    then show "x = y" using x y eq sub unfolding same by (metis inj_onD subsetD)
  qed
  ultimately show ?thesis by (simp add: slots_ok_def)
qed

lemma sids_put: "M c = Some m \<Longrightarrow> sid m' = sid m \<Longrightarrow> sids (M(c \<mapsto> m')) = sids M"
  by (auto simp: sids_def) (metis option.inject)+

lemma parts_put:
  assumes "parts_ok mem order ses" and "map_of mem c = Some m"
    and "sid m' = sid m" and "pending m' \<Longrightarrow> pending m" and "member_ok m'"
  shows "parts_ok (AList.update c m' mem) order ses"
proof -
  have "slots_ok ((map_of mem)(c \<mapsto> m'))"
    using assms by (intro slots_put [of _ c m]) (auto simp: parts_ok_def)
  moreover have "sids ((map_of mem)(c \<mapsto> m')) = sids (map_of mem)"
    using assms(2,3) by (rule sids_put)
  ultimately show ?thesis
    using assms by (auto simp: parts_ok_def distinct_update)
qed

lemma parts_sessions:
  "parts_ok mem order ses \<Longrightarrow> k \<in> dom (map_of ses) \<Longrightarrow> parts_ok mem order (AList.update k v ses)"
  by (auto simp: parts_ok_def distinct_update insert_absorb)

lemma parts_session_some:
  "parts_ok mem order ses \<Longrightarrow> map_of mem c = Some m \<Longrightarrow> \<exists>t. map_of ses (sid m) = Some t"
proof -
  assume ok: "parts_ok mem order ses" and m: "map_of mem c = Some m"
  from m have "sid m \<in> sids (map_of mem)" unfolding sids_def by blast
  then have "sid m \<in> dom (map_of ses)" using ok by (simp add: parts_ok_def)
  then show ?thesis by blast
qed

lemma parts_order: "parts_ok mem order ses \<Longrightarrow> set order' = set order \<Longrightarrow> distinct order' \<Longrightarrow> parts_ok mem order' ses"
  by (simp add: parts_ok_def)

lemma request_probe_frame [simp]:
  "rc_members (request_probe now s) = rc_members s"
  "rc_order (request_probe now s) = rc_order s"
  "rc_sessions (request_probe now s) = rc_sessions s"
  "rc_inventory (request_probe now s) = rc_inventory s"
  "rc_available (request_probe now s) = rc_available s"
  by (simp_all add: request_probe_def Let_def)

lemma coord_request_probe [inv_intros]: "coord_inv s \<Longrightarrow> coord_inv (request_probe now s)"
  by (simp add: coord_inv_def)

lemma expire_fields [simp]:
  "rc_order (expire now s) = rc_order s"
  "rc_sessions (expire now s) = rc_sessions s"
  "rc_inventory (expire now s) = rc_inventory s"
  "rc_available (expire now s) = rc_available s"
  by (simp_all add: expire_def)

definition expire_member :: "gotime \<Rightarrow> recovery_member \<Rightarrow> recovery_member" where
  "expire_member now m =
     (if pending m \<and> \<not> now < rm_deadline m then m\<lparr>rm_reset := True\<rparr> else m)"

lemma map_of_expire: "map_of (rc_members (expire now s)) c = map_option (expire_member now) (map_of (rc_members s) c)"
proof -
  have "rc_members (expire now s) = map (\<lambda>(c, m). (c, expire_member now m)) (rc_members s)"
    by (simp add: expire_def expire_member_def)
  then show ?thesis by (simp add: map_of_map)
qed

lemma expire_member_frame [simp]:
  "sid (expire_member now m) = sid m"
  "pending (expire_member now m) = pending m"
  "member_ok (expire_member now m) = member_ok m"
  "rm_active (expire_member now m) = rm_active m"
  "rm_ready (expire_member now m) = rm_ready m"
  "rm_ended (expire_member now m) = rm_ended m"
  "rm_proposed (expire_member now m) = rm_proposed m"
  "rm_retired (expire_member now m) = rm_retired m"
  "rm_deadline (expire_member now m) = rm_deadline m"
  "rm_identity (expire_member now m) = rm_identity m"
  by (simp_all add: expire_member_def sid_def pending_def member_ok_def)

lemma keys_expire: "map fst (rc_members (expire now s)) = map fst (rc_members s)"
  by (simp add: expire_def o_def split_beta)

lemma coord_expire [inv_intros]:
  assumes "coord_inv s"
  shows "coord_inv (expire now s)"
proof -
  let ?M = "map_of (rc_members s)" and ?E = "map_of (rc_members (expire now s))"
  have e: "?E c = map_option (expire_member now) (?M c)" for c by (rule map_of_expire)
  have pend: "pend ?E = pend ?M" by (auto simp: pend_def e)
  have "inj_on (\<lambda>c. sid (the (?E c))) (pend ?M)"
  proof -
    have "sid (the (?E c)) = sid (the (?M c))" if "c \<in> pend ?M" for c
      using that by (auto simp: pend_def e)
    moreover have "inj_on (\<lambda>c. sid (the (?M c))) (pend ?M)"
      using assms by (simp add: coord_inv_def parts_ok_def slots_ok_def)
    ultimately show ?thesis by (simp cong: inj_on_cong)
  qed
  then have "slots_ok ?E"
    using assms pend by (simp add: slots_ok_def coord_inv_def parts_ok_def)
  moreover have "sids ?E = sids ?M" by (fastforce simp: sids_def e)
  moreover have "dom ?E = dom ?M" by (auto simp: dom_def e)
  moreover have "distinct (map fst (rc_members (expire now s)))"
    using assms by (simp add: keys_expire coord_inv_def parts_ok_def)
  ultimately show ?thesis using assms by (auto simp: coord_inv_def parts_ok_def e)
qed

lemma pend_count:
  "distinct (map fst mem) \<Longrightarrow> length (filter pending (map snd mem)) = card (pend (map_of mem))
   \<and> set (map sid (filter pending (map snd mem))) = (\<lambda>c. sid (the (map_of mem c))) ` pend (map_of mem)"
proof (induction mem)
  case Nil
  then show ?case by (simp add: pend_def)
next
  case (Cons e mem)
  obtain c m where e: "e = (c, m)" by (cases e)
  have notin: "map_of mem c = None" using Cons.prems e by (simp add: map_of_eq_None_iff)
  have p: "pend (map_of (e # mem)) = (if pending m then insert c (pend (map_of mem)) else pend (map_of mem))"
    using notin by (auto simp: pend_def e)
  have cn: "c \<notin> pend (map_of mem)" using notin by (simp add: pend_def)
  have img: "(\<lambda>x. sid (the (map_of (e # mem) x))) ` pend (map_of mem)
      = (\<lambda>x. sid (the (map_of mem x))) ` pend (map_of mem)"
    using cn by (intro image_cong) (auto simp: e)
  have ih: "length (filter pending (map snd mem)) = card (pend (map_of mem))"
    "set (map sid (filter pending (map snd mem)))
      = (\<lambda>c. sid (the (map_of mem c))) ` pend (map_of mem)"
    using Cons by simp_all
  show ?case
  proof (cases "pending m")
    case True
    have "filter pending (map snd (e # mem)) = m # filter pending (map snd mem)"
      using True e by simp
    then show ?thesis using ih p True cn img e by (simp only: list.map list.size list.set if_True
        card_insert_disjoint [OF finite_pend] image_insert) simp
  next
    case False
    have "filter pending (map snd (e # mem)) = filter pending (map snd mem)"
      using False e by simp
    then show ?thesis using ih p False img by (simp only: if_False simp_thms)
  qed
qed

lemma admissibleD:
  assumes "admissible now s busy retry m"
  shows "rm_active m = []" and "sid m \<notin> set busy" and "\<not> rm_ended m" and "\<not> rm_reset m"
    and "rm_proposed m \<noteq> rm_retired m" and "\<not> now < sr_at retry" and "\<not> mismatched s m"
  using assms by (simp_all add: admissible_def sid_def)

lemma slots_admit:
  assumes "M c = Some m" and "\<not> pending m" and "finite (pend M)" and "slots_ok M"
    and "card (pend M) < 2" and "sid m \<notin> (\<lambda>x. sid (the (M x))) ` pend M"
    and "sid m' = sid m" and "pending m'"
  shows "slots_ok (M(c \<mapsto> m')) \<and> card (pend (M(c \<mapsto> m'))) = Suc (card (pend M))
    \<and> (\<lambda>x. sid (the ((M(c \<mapsto> m')) x))) ` pend (M(c \<mapsto> m'))
        = insert (sid m) ((\<lambda>x. sid (the (M x))) ` pend M)"
proof -
  have cn: "c \<notin> pend M" using assms(1,2) by (simp add: pend_def)
  have p: "pend (M(c \<mapsto> m')) = insert c (pend M)" using assms(1,8) by (auto simp: pend_def)
  have img: "(\<lambda>x. sid (the ((M(c \<mapsto> m')) x))) ` pend M = (\<lambda>x. sid (the (M x))) ` pend M"
    using cn by (intro image_cong) auto
  have inj: "inj_on (\<lambda>x. sid (the ((M(c \<mapsto> m')) x))) (pend M)"
  proof -
    have "inj_on (\<lambda>x. sid (the (M x))) (pend M)" using assms(4) by (simp add: slots_ok_def)
    moreover have "sid (the ((M(c \<mapsto> m')) x)) = sid (the (M x))" if "x \<in> pend M" for x
      using that cn by auto
    ultimately show ?thesis by (simp cong: inj_on_cong)
  qed
  have "inj_on (\<lambda>x. sid (the ((M(c \<mapsto> m')) x))) (insert c (pend M))"
    unfolding inj_on_insert using inj img assms(6,7) cn by simp
  then show ?thesis using p cn assms(3,5,7) img by (simp add: slots_ok_def)
qed

definition pend_sids :: "(string \<rightharpoonup> recovery_member) \<Rightarrow> string set" where
  "pend_sids M = (\<lambda>c. sid (the (M c))) ` pend M"

text \<open>One turn of the rotation: the member at the head exists, with its retry record.\<close>

lemma coord_turn:
  assumes "coord_inv s" and "rc_order s = c # rest"
  shows "\<exists>m t. map_of (rc_members s) c = Some m \<and> map_of (rc_sessions s) (sid m) = Some t
    \<and> coord_inv (s\<lparr>rc_order := rest @ [c]\<rparr>)"
proof -
  have inv: "parts_ok (rc_members s) (rc_order s) (rc_sessions s)"
    using assms(1) by (simp add: coord_inv_def)
  then have "c \<in> dom (map_of (rc_members s))" using assms(2) by (auto simp: parts_ok_def)
  then obtain m where m: "map_of (rc_members s) c = Some m" by blast
  moreover have "\<exists>t. map_of (rc_sessions s) (sid m) = Some t"
    using parts_session_some [OF inv m] .
  moreover have "parts_ok (rc_members s) (rest @ [c]) (rc_sessions s)"
    using inv assms(2) by (intro parts_order [OF inv]) (auto simp: parts_ok_def)
  ultimately show ?thesis by (auto simp: coord_inv_def)
qed

lemma admit_step:
  assumes "coord_inv s" and "rc_order s = c # rest" and m: "map_of (rc_members s) c = Some m"
    and adm: "admissible now s busy t m" and "n_pending < 2"
    and np: "n_pending = card (pend (map_of (rc_members s)))"
    and busy: "set busy = pend_sids (map_of (rc_members s))"
  shows "coord_inv (s\<lparr>rc_order := rest @ [c],
           rc_members := AList.update c (admitted now m) (rc_members s)\<rparr>)"
    and "Suc n_pending = card (pend (map_of (AList.update c (admitted now m) (rc_members s))))"
    and "insert (sid m) (set busy) = pend_sids (map_of (AList.update c (admitted now m) (rc_members s)))"
proof -
  note a = admissibleD [OF adm]
  have inv: "parts_ok (rc_members s) (rc_order s) (rc_sessions s)"
    using assms(1) by (simp add: coord_inv_def)
  have mok: "member_ok m" using inv m by (auto simp: parts_ok_def)
  have ready: "\<not> rm_ready m" using mok a(1) by (simp add: member_ok_def)
  have pnd: "\<not> pending m" "pending (admitted now m)" "sid (admitted now m) = sid m"
    "member_ok (admitted now m)"
    using a(1) mok ready by (simp_all add: pending_def admitted_def sid_def member_ok_def)
  define mem where "mem = AList.update c (admitted now m) (rc_members s)"
  have slots: "slots_ok (map_of mem) \<and> card (pend (map_of mem)) = Suc n_pending
      \<and> pend_sids (map_of mem) = insert (sid m) (set busy)"
    using slots_admit [of "map_of (rc_members s)" c m "admitted now m"]
      m pnd a(2) np busy assms(5) inv
    by (simp only: mem_def map_of_update pend_sids_def) (simp add: parts_ok_def)
  have inv1: "parts_ok (rc_members s) (rest @ [c]) (rc_sessions s)"
    using inv assms(2) by (intro parts_order [OF inv]) (auto simp: parts_ok_def)
  have "parts_ok mem (rest @ [c]) (rc_sessions s)"
    using inv1 slots m pnd(3,4) sids_put [of "map_of (rc_members s)" c m "admitted now m"]
    by (auto simp: mem_def parts_ok_def distinct_update)
  then show "coord_inv (s\<lparr>rc_order := rest @ [c],
           rc_members := AList.update c (admitted now m) (rc_members s)\<rparr>)"
    by (simp add: coord_inv_def mem_def)
  show "Suc n_pending = card (pend (map_of (AList.update c (admitted now m) (rc_members s))))"
    and "insert (sid m) (set busy) = pend_sids (map_of (AList.update c (admitted now m) (rc_members s)))"
    using slots by (simp_all only: mem_def)
qed

lemma admit_loop_ok:
  assumes "coord_inv s" and "n_pending = card (pend (map_of (rc_members s)))"
    and "set busy = pend_sids (map_of (rc_members s))" and "n \<le> length (rc_order s)"
  shows "\<exists>s'. admit_loop now n n_pending busy s = Some s' \<and> coord_inv s'"
  using assms
proof (induction now n n_pending busy s rule: admit_loop.induct)
  case (1 now n_pending busy s)
  then show ?case by simp
next
  case (2 now n n_pending busy s)
  show ?case
  proof (cases "n_pending < 2")
    case False
    then show ?thesis using "2.prems" by simp
  next
    case True
    then have nn: "\<not> \<not> n_pending < 2" by simp
    obtain c rest where order: "rc_order s = c # rest" using "2.prems"(4) by (cases "rc_order s") auto
    obtain m retry where m: "map_of (rc_members s) c = Some m"
      and retry: "map_of (rc_sessions s) (sid m) = Some retry"
      and inv1: "coord_inv (s\<lparr>rc_order := rest @ [c]\<rparr>)"
      using coord_turn [OF "2.prems"(1) order] by blast
    show ?thesis
    proof (cases "admissible now s busy retry m")
      case False
      have "\<exists>s'. admit_loop now n n_pending busy (s\<lparr>rc_order := rest @ [c]\<rparr>) = Some s' \<and> coord_inv s'"
        using "2.prems" inv1 order
        by (intro "2.IH"(1) [OF nn order refl m retry [unfolded sid_def] False]) simp_all
      then show ?thesis using True order m retry False by (simp add: sid_def)
    next
      case adm: True
      note step = admit_step [OF "2.prems"(1) order m adm True "2.prems"(2,3)]
      define mem where "mem = AList.update c (admitted now m) (rc_members s)"
      have "\<exists>s'. admit_loop now n (Suc n_pending) (rq_session_id (rm_identity m) # busy)
            (s\<lparr>rc_order := rest @ [c], rc_members := mem\<rparr>) = Some s' \<and> coord_inv s'"
        using "2.prems"(4) step [folded mem_def] order adm
        by (intro "2.IH"(2) [OF nn order refl m retry [unfolded sid_def], folded mem_def])
           (simp_all add: sid_def)
      then show ?thesis using True order m retry adm by (simp add: sid_def mem_def)
    qed
  qed
qed

lemma coord_admit:
  assumes "coord_inv s"
  shows "\<exists>s'. admit now s = Some s' \<and> coord_inv s'"
proof -
  let ?s1 = "expire now s"
  have inv: "coord_inv ?s1" using assms by (rule coord_expire)
  then have "distinct (map fst (rc_members ?s1))" by (simp add: coord_inv_def parts_ok_def)
  from pend_count [OF this] have
    "length (filter pending (map snd (rc_members ?s1))) = card (pend (map_of (rc_members ?s1)))"
    "set (map sid (filter pending (map snd (rc_members ?s1))))
       = pend_sids (map_of (rc_members ?s1))"
    by (auto simp: pend_sids_def)
  then show ?thesis
    using inv admit_loop_ok [OF inv _ _ order_refl, of "length (filter pending (map snd (rc_members ?s1)))"
        "map sid (filter pending (map snd (rc_members ?s1)))" now]
    by (auto simp: admit_def Let_def sid_def [abs_def])
qed

lemma admitted_idem [simp]: "admitted now (admitted now m) = admitted now m"
  by (simp add: admitted_def)

lemma mismatched_update [simp]:
  "mismatched (s\<lparr>rc_order := os\<rparr>) m = mismatched s m"
  "mismatched (s\<lparr>rc_members := ms\<rparr>) m = mismatched s m"
  "mismatched (s\<lparr>rc_observing := ob\<rparr>) m = mismatched s m"
  by (simp_all add: mismatched_def observed_id_def)

lemma admissible_update [simp]:
  "admissible now (s\<lparr>rc_order := os\<rparr>) busy t m = admissible now s busy t m"
  "admissible now (s\<lparr>rc_members := ms\<rparr>) busy t m = admissible now s busy t m"
  by (simp_all add: admissible_def)

lemma admissible_expire [simp]: "admissible now (expire t s) busy r m = admissible now s busy r m"
  by (simp add: admissible_def mismatched_def observed_id_def)

text \<open>Admission changes members only by admitting them.\<close>

lemma admit_loop_change:
  assumes "admit_loop now n np busy s = Some s'"
  shows "rc_sessions s' = rc_sessions s \<and> rc_inventory s' = rc_inventory s
    \<and> rc_available s' = rc_available s
    \<and> (map_of (rc_members s') c = map_of (rc_members s) c
       \<or> (\<exists>m t b. map_of (rc_members s) c = Some m \<and> map_of (rc_sessions s) (sid m) = Some t
            \<and> admissible now s b t m \<and> map_of (rc_members s') c = Some (admitted now m)))"
  using assms
proof (induction now n np busy s rule: admit_loop.induct)
  case (1 now np busy s)
  then show ?case by simp
next
  case (2 now n np busy s)
  show ?case
  proof (cases "np < 2")
    case False
    then show ?thesis using "2.prems" by simp
  next
    case True
    then have nn: "\<not> \<not> np < 2" by simp
    from "2.prems" True obtain k rest where order: "rc_order s = k # rest"
      by (auto split: list.splits)
    from "2.prems" True order obtain m where m: "map_of (rc_members s) k = Some m"
      by (auto simp: Let_def split: option.splits)
    from "2.prems" True order m obtain t where
      t: "map_of (rc_sessions s) (rq_session_id (rm_identity m)) = Some t"
      by (auto simp: Let_def split: option.splits)
    show ?thesis
    proof (cases "admissible now s busy t m")
      case False
      have "admit_loop now n np busy (s\<lparr>rc_order := rest @ [k]\<rparr>) = Some s'"
        using "2.prems" True order m t False by simp
      from "2.IH"(1) [OF nn order refl m t False this] show ?thesis by simp
    next
      case adm: True
      let ?mem = "AList.update k (admitted now m) (rc_members s)"
      have "admit_loop now n (Suc np) (rq_session_id (rm_identity m) # busy)
              (s\<lparr>rc_order := rest @ [k], rc_members := ?mem\<rparr>) = Some s'"
        using "2.prems" True order m t adm by simp
      note ih = "2.IH"(2) [OF nn order refl m t _ this]
      show ?thesis
      proof (cases "c = k")
        case True
        then have "map_of (rc_members s') c = Some (admitted now m)" using ih adm by auto
        then show ?thesis using ih adm m t True by (auto simp: sid_def)
      next
        case False
        then show ?thesis using ih adm by auto
      qed
    qed
  qed
qed

lemma admit_change:
  assumes "admit now s = Some s'"
  shows "rc_sessions s' = rc_sessions s \<and> rc_inventory s' = rc_inventory s
    \<and> rc_available s' = rc_available s
    \<and> (map_of (rc_members s') c = map_option (expire_member now) (map_of (rc_members s) c)
       \<or> (\<exists>m t b. map_of (rc_members s) c = Some m \<and> map_of (rc_sessions s) (sid m) = Some t
            \<and> rc_available s \<and> admissible now s b t (expire_member now m)
            \<and> map_of (rc_members s') c = Some (admitted now (expire_member now m))))"
proof (cases "rc_available s")
  case False
  then show ?thesis using assms by (auto simp: admit_def Let_def map_of_expire)
next
  case True
  then obtain np busy where
    "admit_loop now (length (rc_order (expire now s))) np busy (expire now s) = Some s'"
    using assms by (simp add: admit_def Let_def)
  from admit_loop_change [OF this, of c] show ?thesis
    using True by (auto simp: map_of_expire)
qed

lemma admit_dom: "admit now s = Some s' \<Longrightarrow> dom (map_of (rc_members s')) = dom (map_of (rc_members s))"
proof -
  assume a: "admit now s = Some s'"
  have "map_of (rc_members s') c = None \<longleftrightarrow> map_of (rc_members s) c = None" for c
    using admit_change [OF a, of c] by auto
  then show ?thesis by (auto simp: dom_def)
qed

section \<open>Every operation keeps the invariant\<close>

lemma coord_start: "coord_inv new_session_recovery"
  by (simp add: coord_inv_def parts_ok_def new_session_recovery_def sids_def slots_ok_def pend_def)

lemma coord_begin [inv_intros]: "coord_inv s \<Longrightarrow> coord_inv (fst (begin_probe now s))"
  by (simp add: begin_probe_def Let_def coord_inv_def)

lemma sid_end_member [simp]: "sid (end_member m) = sid m"
  by (simp add: end_member_def sid_def)

lemma coord_put:
  "coord_inv s \<Longrightarrow> map_of (rc_members s) c = Some m \<Longrightarrow> sid m' = sid m
   \<Longrightarrow> (pending m' \<Longrightarrow> pending m) \<Longrightarrow> member_ok m' \<Longrightarrow> coord_inv (put_member c m' s)"
  by (simp add: coord_inv_def put_member_def parts_put)

lemma coord_member_ok: "coord_inv s \<Longrightarrow> map_of (rc_members s) c = Some m \<Longrightarrow> member_ok m"
  by (auto simp: coord_inv_def parts_ok_def)

lemma coord_end_observed [inv_intros]: "coord_inv s \<Longrightarrow> coord_inv (end_observed obs s)"
proof (induction obs s rule: end_observed.induct)
  case (1 s)
  then show ?case by simp
next
  case (2 c r rest s)
  show ?case
  proof (cases "map_of (rc_members s) c")
    case None
    then show ?thesis using 2 by simp
  next
    case (Some m)
    have "coord_inv (put_member c (end_member m) s)"
      using coord_put [OF "2.prems" Some, of "end_member m"] coord_member_ok [OF "2.prems" Some]
      by (simp add: end_member_def sid_def pending_def member_ok_def)
    then show ?thesis using 2 Some by (simp add: put_member_def)
  qed
qed

lemma coord_fields [simp]:
  "coord_inv (s\<lparr>rc_checking := b\<rparr>) = coord_inv s"
  "coord_inv (s\<lparr>rc_observing := obs\<rparr>) = coord_inv s"
  by (simp_all add: coord_inv_def)

lemma coord_finish:
  assumes "coord_inv s"
  shows "\<exists>s'. finish_probe n now inven err s = Some s' \<and> coord_inv s'"
proof (cases "\<not> rc_checking s \<or> n \<noteq> rc_sequence s")
  case True
  then show ?thesis using assms by (simp add: finish_probe_def)
next
  case False
  let ?failure = "case err of Some e \<Rightarrow> Some (Probe_Error e)
                  | None \<Rightarrow> map_option Invalid_Inventory (validate_inventory inven)"
  show ?thesis
  proof (cases ?failure)
    case (Some f)
    then show ?thesis using assms False by (simp add: finish_probe_def Let_def coord_inv_def)
  next
    case None
    let ?s2 = "s\<lparr>rc_checking := False, rc_available := True, rc_failures := 0,
                 rc_reason := Waiting_For_Admission, rc_inventory := inven,
                 rc_next_probe := now + 30 * second\<rparr>"
    let ?s3 = "(end_observed (rc_observing s) ?s2)\<lparr>rc_observing := []\<rparr>"
    have "coord_inv ?s2" using assms by (simp add: coord_inv_def)
    then have "coord_inv ?s3" by (simp add: coord_end_observed)
    then have "coord_inv (if list_ex (\<lambda>(c, m). \<not> rm_ended m \<and> mismatched ?s3 m) (rc_members ?s3)
           then request_probe now ?s3 else ?s3)"
      by (simp add: coord_request_probe)
    from coord_admit [OF this, of now] show ?thesis
      using False None by (simp add: finish_probe_def Let_def)
  qed
qed

lemma valid_request_attempt: "valid_recovery_request r \<Longrightarrow> rq_attempt r \<noteq> []"
  by (auto simp: valid_recovery_request_def is_hex32_def)

lemma parts_register:
  assumes "parts_ok mem order ses" and "map_of mem c = None" and "\<not> pending m" and "member_ok m"
    and "ses' = (if map_of ses (sid m) = None then AList.update (sid m) t ses else ses)"
  shows "parts_ok (AList.update c m mem) (order @ [c]) ses'"
proof -
  let ?M = "map_of mem"
  have p: "pend (?M(c \<mapsto> m)) = pend ?M" using assms(2,3) by (auto simp: pend_def)
  have "inj_on (\<lambda>x. sid (the ((?M(c \<mapsto> m)) x))) (pend ?M)"
  proof -
    have "sid (the ((?M(c \<mapsto> m)) x)) = sid (the (?M x))" if "x \<in> pend ?M" for x
      using that assms(2) by (auto simp: pend_def)
    moreover have "inj_on (\<lambda>x. sid (the (?M x))) (pend ?M)"
      using assms(1) by (simp add: parts_ok_def slots_ok_def)
    ultimately show ?thesis by (simp cong: inj_on_cong)
  qed
  then have slots: "slots_ok (?M(c \<mapsto> m))" using assms(1) p by (simp add: slots_ok_def parts_ok_def)
  have sids: "sids (?M(c \<mapsto> m)) = insert (sid m) (sids ?M)"
  proof -
    have "(\<exists>k x. (?M(c \<mapsto> m)) k = Some x \<and> sid x = y)
          \<longleftrightarrow> y = sid m \<or> (\<exists>k x. ?M k = Some x \<and> sid x = y)" for y
      using assms(2) by (metis fun_upd_apply option.inject option.distinct(1))
    then show ?thesis by (auto simp: sids_def)
  qed
  have ses: "distinct (map fst ses')" "dom (map_of ses') = insert (sid m) (dom (map_of ses))"
    using assms(1,5) by (auto simp: parts_ok_def distinct_update)
  have "c \<notin> set order" using assms(1,2) by (auto simp: parts_ok_def)
  then show ?thesis using assms slots sids ses by (auto simp: parts_ok_def distinct_update)
qed

lemma new_member_identity [simp]: "rm_identity (new_member n r) = r"
  by (simp add: new_member_def Let_def)

lemma sid_new_member [simp]: "sid (new_member n r) = rq_session_id r"
  by (simp add: sid_def)

lemma coord_register:
  assumes "coord_inv s" and "map_of (rc_members s) (rq_client r) = None"
    and "valid_recovery_request r"
  shows "coord_inv (register r now s)"
proof -
  let ?m = "new_member (rc_next_ref s) r"
  have m: "\<not> pending ?m" "member_ok ?m"
    using valid_request_attempt [OF assms(3)]
    by (auto simp: new_member_def Let_def pending_def member_ok_def)
  have inv: "parts_ok (rc_members s) (rc_order s) (rc_sessions s)"
    using assms(1) by (simp add: coord_inv_def)
  show ?thesis
    using parts_register [OF inv assms(2) m refl, of "\<lparr>sr_failures = 0, sr_at = 0\<rparr>",
        unfolded sid_new_member]
    by (simp add: register_def coord_inv_def)
qed

lemma coord_fail:
  assumes "coord_inv s" and "map_of (rc_members s) c = Some m"
  shows "\<exists>s'. fail c m now s = Some s' \<and> coord_inv s'
    \<and> dom (map_of (rc_members s')) = dom (map_of (rc_members s))"
proof -
  have inv: "parts_ok (rc_members s) (rc_order s) (rc_sessions s)"
    using assms(1) by (simp add: coord_inv_def)
  obtain t where t: "map_of (rc_sessions s) (rq_session_id (rm_identity m)) = Some t"
    using parts_session_some [OF inv assms(2)] by (auto simp: sid_def)
  let ?m = "m\<lparr>rm_retired := rm_active m, rm_active := [], rm_ready := False, rm_reset := False\<rparr>"
  have "member_ok m" using coord_member_ok [OF assms] .
  then have "parts_ok (AList.update c ?m (rc_members s)) (rc_order s) (rc_sessions s)"
    by (intro parts_put [OF inv assms(2)]) (simp_all add: sid_def pending_def member_ok_def)
  then have "parts_ok (AList.update c ?m (rc_members s)) (rc_order s)
      (AList.update (rq_session_id (rm_identity m))
         \<lparr>sr_failures = min (sr_failures t + 1) 6, sr_at = now + recovery_delay (sr_failures t)\<rparr>
         (rc_sessions s))"
    by (rule parts_sessions) (use t in blast)
  then show ?thesis using t assms(2)
    by (auto simp: fail_def Let_def coord_inv_def put_member_def)
qed

lemma coord_apply_event:
  assumes "coord_inv s" and m: "map_of (rc_members s) (rq_client r) = Some m"
    and "rq_session_id (rm_identity m) = rq_session_id r" and "rq_attempt r \<noteq> []"
  shows "\<exists>b s'. apply_event r now m s = Some (b, s') \<and> coord_inv s'
    \<and> dom (map_of (rc_members s')) = dom (map_of (rc_members s))"
proof -
  have ok: "member_ok m" using coord_member_ok [OF assms(1) m] .
  have inv: "parts_ok (rc_members s) (rc_order s) (rc_sessions s)"
    using assms(1) by (simp add: coord_inv_def)
  obtain t where t: "map_of (rc_sessions s) (rq_session_id r) = Some t"
    using parts_session_some [OF inv m] assms(3) by (auto simp: sid_def)
  have dom: "dom (map_of (rc_members (put_member (rq_client r) m' s))) = dom (map_of (rc_members s))" for m'
    using m by (auto simp: put_member_def)
  have p1: "coord_inv (put_member (rq_client r) (m\<lparr>rm_proposed := rq_attempt r\<rparr>) s)"
    by (rule coord_put [OF assms(1) m]) (use ok assms(4) in \<open>auto simp: sid_def pending_def member_ok_def\<close>)
  have p2: "coord_inv (put_member (rq_client r) (m\<lparr>rm_reset := False\<rparr>) s)"
    by (rule coord_put [OF assms(1) m]) (use ok in \<open>auto simp: sid_def pending_def member_ok_def\<close>)
  have p3: "coord_inv ((put_member (rq_client r) (m\<lparr>rm_ready := True\<rparr>) s)
      \<lparr>rc_sessions := AList.update (rq_session_id r) \<lparr>sr_failures = 0, sr_at = 0\<rparr> (rc_sessions s)\<rparr>)"
    if "rm_active m \<noteq> []"
  proof -
    have "coord_inv (put_member (rq_client r) (m\<lparr>rm_ready := True\<rparr>) s)"
      by (rule coord_put [OF assms(1) m]) (use ok that in \<open>auto simp: sid_def pending_def member_ok_def\<close>)
    then have "parts_ok (rc_members (put_member (rq_client r) (m\<lparr>rm_ready := True\<rparr>) s)) (rc_order s) (rc_sessions s)"
      by (simp add: coord_inv_def put_member_def)
    from parts_sessions [OF this] t show ?thesis by (auto simp: coord_inv_def put_member_def)
  qed
  obtain s' where f: "fail (rq_client r) m now s = Some s'" "coord_inv s'"
    "dom (map_of (rc_members s')) = dom (map_of (rc_members s))"
    using coord_fail [OF assms(1) m] by blast
  show ?thesis
    using assms(1) p1 p2 p3 f t dom coord_request_probe [OF f(2)]
    by (simp add: apply_event_def Let_def) (auto simp: put_member_def)
qed

lemma coord_exchange_member:
  assumes "coord_inv s" and "map_of (rc_members s) (rq_client r) = Some m"
    and "rq_session_id (rm_identity m) = rq_session_id r" and "rq_attempt r \<noteq> []"
  shows "\<exists>res s'. exchange_member r now s = Some (res, s') \<and> coord_inv s'"
proof -
  let ?c = "rq_client r"
  define s2 where "s2 = expire now (if rq_retry r then request_probe now s else s)"
  have inv2: "coord_inv s2"
    unfolding s2_def using assms(1) by (simp add: coord_expire coord_request_probe)
  have m2: "map_of (rc_members s2) ?c = Some (expire_member now m)"
    unfolding s2_def using assms(2) by (simp add: map_of_expire)
  show ?thesis
  proof (cases "rm_active m \<noteq> [] \<and> rq_attempt r \<noteq> rm_active m")
    case True
    then show ?thesis using inv2 m2 by (simp add: exchange_member_def Let_def s2_def [symmetric])
  next
    case cont: False
    obtain b s3 where ev: "apply_event r now (expire_member now m) s2 = Some (b, s3)"
      and inv3: "coord_inv s3" and dom3: "dom (map_of (rc_members s3)) = dom (map_of (rc_members s2))"
      using coord_apply_event [OF inv2 m2 _ assms(4), of now] assms(3) by auto
    obtain m3 where m3: "map_of (rc_members s3) ?c = Some m3" using dom3 m2 by blast
    show ?thesis
    proof (cases b)
      case False
      then show ?thesis
        using cont inv2 m2 ev inv3 m3
        by (simp add: exchange_member_def Let_def s2_def [symmetric])
    next
      case True
      let ?s4 = "if rq_state r = ''connecting'' \<and> rm_active m3 \<noteq> rq_attempt r \<and> rq_attempt r \<noteq> rm_retired m3
                 then put_member ?c (m3\<lparr>rm_reset := True\<rparr>) s3 else s3"
      have put: "coord_inv (put_member ?c (m3\<lparr>rm_reset := True\<rparr>) s3)"
        by (rule coord_put [OF inv3 m3])
           (use coord_member_ok [OF inv3 m3] in \<open>auto simp: sid_def pending_def member_ok_def\<close>)
      have inv4: "coord_inv ?s4" using put inv3 by simp
      have "?c \<in> dom (map_of (rc_members ?s4))" using m3 by (auto simp: put_member_def)
      moreover obtain s5 where s5: "admit now ?s4 = Some s5" "coord_inv s5"
        using coord_admit [OF inv4] by blast
      ultimately have "?c \<in> dom (map_of (rc_members s5))" using admit_dom by blast
      then obtain m5 where "map_of (rc_members s5) ?c = Some m5" by blast
      then show ?thesis
        using cont True inv2 m2 ev m3 s5
        by (simp add: exchange_member_def Let_def s2_def [symmetric])
    qed
  qed
qed

lemma register_member:
  "map_of (rc_members (register r now s)) (rq_client r) = Some (new_member (rc_next_ref s) r)"
  by (simp add: register_def)

lemma coord_exchange:
  assumes "coord_inv s"
  shows "\<exists>res s'. exchange r now s = Some (res, s') \<and> coord_inv s'"
proof (cases "valid_recovery_request r")
  case False
  then show ?thesis using assms by (simp add: exchange_def)
next
  case valid: True
  note att = valid_request_attempt [OF valid]
  show ?thesis
  proof (cases "map_of (rc_members s) (rq_client r)")
    case None
    have "coord_inv (register r now s)" using assms None valid by (rule coord_register)
    from coord_exchange_member [OF this register_member _ att] show ?thesis
      using assms valid None by (simp add: exchange_def)
  next
    case (Some m)
    then show ?thesis
      using assms valid coord_exchange_member [OF assms Some _ att]
      by (auto simp: exchange_def)
  qed
qed

lemma coord_remove [inv_intros]:
  assumes "coord_inv s"
  shows "coord_inv (remove c s)"
proof (cases "map_of (rc_members s) c")
  case None
  then show ?thesis using assms by (simp add: remove_def)
next
  case (Some m)
  let ?M = "map_of (rc_members s)" and ?mem = "AList.delete c (rc_members s)"
  have inv: "parts_ok (rc_members s) (rc_order s) (rc_sessions s)"
    using assms by (simp add: coord_inv_def)
  have dk: "distinct (map fst ?mem)" using inv by (simp add: parts_ok_def distinct_delete)
  have order: "distinct (remove1 c (rc_order s))" "set (remove1 c (rc_order s)) = dom (?M(c := None))"
    using inv by (auto simp: parts_ok_def)
  have sub: "pend (?M(c := None)) \<subseteq> pend ?M" by (auto simp: pend_def split: if_splits)
  have "card (pend (?M(c := None))) \<le> 2"
    using card_mono [OF finite_pend sub] inv by (simp add: parts_ok_def slots_ok_def)
  moreover have "inj_on (\<lambda>x. sid (the ((?M(c := None)) x))) (pend (?M(c := None)))"
  proof (rule inj_onI)
    fix x y
    assume x: "x \<in> pend (?M(c := None))" and y: "y \<in> pend (?M(c := None))"
      and eq: "sid (the ((?M(c := None)) x)) = sid (the ((?M(c := None)) y))"
    then have "x \<noteq> c" "y \<noteq> c" by (auto simp: pend_def)
    moreover have "inj_on (\<lambda>z. sid (the (?M z))) (pend ?M)"
      using inv by (simp add: parts_ok_def slots_ok_def)
    ultimately show "x = y" using x y eq sub by (simp add: inj_on_def) blast
  qed
  ultimately have slots: "slots_ok (?M(c := None))" by (simp add: slots_ok_def)
  have ok: "\<forall>k x. (?M(c := None)) k = Some x \<longrightarrow> member_ok x"
    using inv by (auto simp: parts_ok_def)
  have ex: "list_ex (\<lambda>(k, m'). rq_session_id (rm_identity m') = sid m) ?mem
            \<longleftrightarrow> sid m \<in> sids (?M(c := None))"
  proof -
    have "sid m \<in> sids (?M(c := None)) \<longleftrightarrow> (\<exists>k x. map_of ?mem k = Some x \<and> sid x = sid m)"
      by (simp add: sids_def)
    also have "\<dots> \<longleftrightarrow> (\<exists>k x. (k, x) \<in> set ?mem \<and> sid x = sid m)"
      using map_of_eq_Some_iff [OF dk] by simp
    finally show ?thesis by (auto simp: list_ex_iff sid_def)
  qed
  have sids: "sids (?M(c := None)) \<subseteq> sids ?M" "sids ?M = insert (sid m) (sids (?M(c := None)))"
  proof -
    have one: "(\<exists>k x. (?M(c := None)) k = Some x \<and> sid x = y)
          \<Longrightarrow> \<exists>k x. ?M k = Some x \<and> sid x = y" for y
      by (metis fun_upd_apply option.distinct(1))
    have two: "(\<exists>k x. ?M k = Some x \<and> sid x = y)
          \<longleftrightarrow> y = sid m \<or> (\<exists>k x. (?M(c := None)) k = Some x \<and> sid x = y)" for y
      using Some by (metis fun_upd_apply option.inject option.distinct(1))
    show "sids (?M(c := None)) \<subseteq> sids ?M" unfolding sids_def using one by blast
    show "sids ?M = insert (sid m) (sids (?M(c := None)))" unfolding sids_def using two by blast
  qed
  have "dom (map_of (rc_sessions s)) = sids ?M" "distinct (map fst (rc_sessions s))"
    using inv by (simp_all add: parts_ok_def)
  then have "parts_ok ?mem (remove1 c (rc_order s))
      (if sid m \<in> sids (?M(c := None)) then rc_sessions s else AList.delete (sid m) (rc_sessions s))"
    using dk order slots ok sids by (auto simp: parts_ok_def distinct_delete)
  then show ?thesis
    using Some ex by (auto simp: remove_def Let_def coord_inv_def sid_def)
qed

lemma run_op_ok:
  assumes "coord_inv s"
  shows "\<exists>s'. run_op op s = Some s' \<and> coord_inv s'"
proof (cases op)
  case (Op_Exchange r now)
  then show ?thesis using coord_exchange [OF assms, of r now] by auto
qed (use assms coord_begin coord_finish coord_admit coord_remove in auto)

lemma reachable_inv: "reachable s \<Longrightarrow> coord_inv s"
proof (induction rule: reachable.induct)
  case start
  show ?case by (rule coord_start)
next
  case (step s op s')
  then show ?case using run_op_ok [of s op] by auto
qed

section \<open>Lemmas on grants\<close>

lemma apply_event_effect:
  assumes "apply_event r now m s = Some (True, s')"
    and m: "map_of (rc_members s) (rq_client r) = Some m"
    and act: "rm_active m = [] \<or> rq_attempt r = rm_active m"
  obtains m' where "map_of (rc_members s') (rq_client r) = Some m'"
    and "rm_active m' \<noteq> [] \<Longrightarrow> rm_active m' = rq_attempt r \<and> rm_active m = rq_attempt r
         \<and> (rm_ready m \<longrightarrow> rm_ready m')"
    and "rm_active m' = [] \<Longrightarrow> \<not> rm_reset m' \<Longrightarrow> rm_retired m' \<noteq> rq_attempt r
         \<Longrightarrow> rm_proposed m' = rq_attempt r"
    and "rm_identity m' = rm_identity m"
    and "rc_available s' = rc_available s" "rc_inventory s' = rc_inventory s"
proof -
  let ?c = "rq_client r" and ?att = "rq_attempt r"
  have put: "map_of (rc_members (put_member ?c x s)) ?c = Some x" for x by (simp add: put_member_def)
  have fr: "rc_available (put_member ?c x s) = rc_available s"
    "rc_inventory (put_member ?c x s) = rc_inventory s" for x
    by (simp_all add: put_member_def)
  consider (none) "rq_event r = []" | (replay) "rq_event r = ''lost''" "?att = rm_retired m"
    | (live) "rq_event r \<noteq> []" "\<not> (rq_event r = ''lost'' \<and> ?att = rm_retired m)" by blast
  then show thesis
  proof cases
    case none
    then have e: "s' = (if rm_active m = [] \<and> \<not> rm_reset m \<and> ?att \<noteq> rm_retired m
                     then put_member ?c (m\<lparr>rm_proposed := ?att\<rparr>) s else s)"
      using assms(1) by (simp add: apply_event_def Let_def)
    show ?thesis
    proof (cases "rm_active m = [] \<and> \<not> rm_reset m \<and> ?att \<noteq> rm_retired m")
      case True
      then show ?thesis using that [of "m\<lparr>rm_proposed := ?att\<rparr>"] e put fr by simp
    next
      case False
      then show ?thesis using that [of m] e m act by auto
    qed
  next
    case replay
    then have e: "s' = (if rm_active m = [] then put_member ?c (m\<lparr>rm_reset := False\<rparr>) s else s)"
      using assms(1) by (simp add: apply_event_def Let_def)
    show ?thesis
    proof (cases "rm_active m = []")
      case True
      then show ?thesis using that [of "m\<lparr>rm_reset := False\<rparr>"] e put fr replay by simp
    next
      case False
      then show ?thesis using that [of m] e m act by auto
    qed
  next
    case live
    then have a: "?att = rm_active m" "rm_active m \<noteq> []"
      using assms(1) by (auto simp: apply_event_def Let_def split: if_splits)
    show ?thesis
    proof (cases "rq_event r = ''ready''")
      case True
      then have "s' = (put_member ?c (m\<lparr>rm_ready := True\<rparr>) s)
            \<lparr>rc_sessions := AList.update (rq_session_id r) \<lparr>sr_failures = 0, sr_at = 0\<rparr> (rc_sessions s)\<rparr>"
        using assms(1) live a by (simp add: apply_event_def Let_def split: if_splits)
      then show ?thesis using that [of "m\<lparr>rm_ready := True\<rparr>"] put fr a by simp
    next
      case nr: False
      show ?thesis
      proof (cases "rq_event r = ''lost''")
        case True
        then obtain s1 where f: "fail ?c m now s = Some s1" "s' = request_probe now s1"
          using assms(1) live a by (auto simp: apply_event_def Let_def split: if_splits)
        let ?m = "m\<lparr>rm_retired := rm_active m, rm_active := [], rm_ready := False, rm_reset := False\<rparr>"
        have "map_of (rc_members s1) ?c = Some ?m" "rc_available s1 = rc_available s"
          "rc_inventory s1 = rc_inventory s"
          using f(1) by (auto simp: fail_def Let_def put_member_def split: option.splits)
        then show ?thesis using that [of ?m] f(2) a by simp
      next
        case False
        then have "s' = s" using assms(1) live a nr by (simp add: apply_event_def Let_def)
        then show ?thesis using that [of m] m a by simp
      qed
    qed
  qed
qed

lemma reply_grant:
  "ry_grant (reply s m now reset) = Some g \<Longrightarrow>
   \<not> reset \<and> \<not> rm_ended m \<and> pending m \<and> sg_attempt g = rm_active m \<and> sg_deadline g = rm_deadline m"
  by (auto simp: reply_def Let_def pending_def split: if_splits)

lemma exchange_member_grant:
  assumes ex: "exchange_member r now s = Some (Inr rep, s')"
    and m: "map_of (rc_members s) (rq_client r) = Some m"
    and g: "ry_grant rep = Some g"
  shows "sg_attempt g = rq_attempt r \<and> now < sg_deadline g
    \<and> ((rm_active m = rq_attempt r \<and> pending m)
       \<or> (rc_available s' \<and> observed_id s' (rq_session (rm_identity m)) = sid m))
    \<and> (\<exists>m5. map_of (rc_members s') (rq_client r) = Some m5 \<and> pending m5 \<and> rm_active m5 = sg_attempt g
         \<and> rm_deadline m5 = sg_deadline g \<and> rm_identity m5 = rm_identity m)"
proof -
  let ?c = "rq_client r" and ?att = "rq_attempt r"
  define s2 where "s2 = expire now (if rq_retry r then request_probe now s else s)"
  define m2 where "m2 = expire_member now m"
  have m2: "map_of (rc_members s2) ?c = Some m2"
    unfolding s2_def m2_def using m by (simp add: map_of_expire)
  have act: "rm_active m2 = [] \<or> ?att = rm_active m2"
  proof (rule ccontr)
    assume "\<not> ?thesis"
    then have "rep = reply s2 m2 now True"
      using ex m2 by (auto simp: exchange_member_def Let_def s2_def [symmetric])
    then show False using g reply_grant by metis
  qed
  obtain b s3 where ev: "apply_event r now m2 s2 = Some (b, s3)"
    using ex m2 act by (auto simp: exchange_member_def Let_def s2_def [symmetric] split: option.splits)
  have b: b
  proof (rule ccontr)
    assume "\<not> b"
    then obtain m3 where "rep = reply s3 m3 now True"
      using ex m2 act ev by (auto simp: exchange_member_def Let_def s2_def [symmetric])
    then show False using g reply_grant by metis
  qed
  obtain m3 where m3: "map_of (rc_members s3) ?c = Some m3"
    and live: "rm_active m3 \<noteq> [] \<Longrightarrow> rm_active m3 = ?att \<and> rm_active m2 = ?att
      \<and> (rm_ready m2 \<longrightarrow> rm_ready m3)"
    and idle: "rm_active m3 = [] \<Longrightarrow> \<not> rm_reset m3 \<Longrightarrow> rm_retired m3 \<noteq> ?att \<Longrightarrow> rm_proposed m3 = ?att"
    and same: "rm_identity m3 = rm_identity m2"
    using apply_event_effect [OF ev [unfolded eqTrueI [OF b]] m2 act] by metis
  define s4 where "s4 = (if rq_state r = ''connecting'' \<and> rm_active m3 \<noteq> ?att \<and> ?att \<noteq> rm_retired m3
                 then put_member ?c (m3\<lparr>rm_reset := True\<rparr>) s3 else s3)"
  obtain m4 where m4: "map_of (rc_members s4) ?c = Some m4"
    and m4_eq: "m4 = m3 \<or> m4 = m3\<lparr>rm_reset := True\<rparr>"
    using m3 unfolding s4_def
    by (cases "rq_state r = ''connecting'' \<and> rm_active m3 \<noteq> ?att \<and> ?att \<noteq> rm_retired m3")
       (auto simp: put_member_def)
  obtain s5 m5 where s5: "admit now s4 = Some s5" and m5: "map_of (rc_members s5) ?c = Some m5"
    and out: "rep = reply s5 m5 now (rm_reset m5 \<or> ?att = rm_retired m5)" "s' = s5"
  proof -
    have na: "(rm_active m2 \<noteq> [] \<and> ?att \<noteq> rm_active m2) = False" using act by blast
    have "(case admit now s4 of None \<Rightarrow> None
           | Some s5 \<Rightarrow> map_option (\<lambda>m5. (Inr (reply s5 m5 now (rm_reset m5 \<or> ?att = rm_retired m5)), s5))
                         (map_of (rc_members s5) ?c))
          = (Some (Inr rep, s') :: ((exchange_error + control_reply) \<times> session_recovery) option)"
      using ex unfolding exchange_member_def Let_def s2_def [symmetric]
      by (simp only: m2 ev eqTrueI [OF b] option.case na if_False prod.case bool.case m3
          s4_def [symmetric])
    then show ?thesis using that by (auto split: option.splits)
  qed
  have gr: "\<not> rm_reset m5" "?att \<noteq> rm_retired m5" "pending m5"
    "sg_attempt g = rm_active m5" "sg_deadline g = rm_deadline m5"
    using reply_grant [OF g [unfolded out(1)]] by auto
  have "m5 = expire_member now m4 \<or>
      (\<exists>b t. rc_available s4 \<and> admissible now s4 b t (expire_member now m4)
          \<and> m5 = admitted now (expire_member now m4))"
    using admit_change [OF s5, of ?c] m4 m5 by auto
  moreover from this have "rm_identity m5 = rm_identity m" using m4_eq same by (auto simp: m2_def admitted_def)
  then have last: "\<exists>m5. map_of (rc_members s') ?c = Some m5 \<and> pending m5 \<and> rm_active m5 = sg_attempt g
      \<and> rm_deadline m5 = sg_deadline g \<and> rm_identity m5 = rm_identity m"
    using m5 out(2) gr by auto
  ultimately show ?thesis
  proof (elim disjE)
    assume e: "m5 = expire_member now m4"
    have "rm_active m5 \<noteq> []" using gr(3) by (simp add: pending_def)
    then have "rm_active m3 \<noteq> []" using e m4_eq by auto
    then have a: "rm_active m3 = ?att" "rm_active m = ?att" "rm_ready m \<longrightarrow> rm_ready m3"
      using live by (auto simp: m2_def)
    have p: "pending m" using a e m4_eq gr(3) by (auto simp: pending_def)
    have "now < rm_deadline m5"
      using gr(1,3) e by (auto simp: expire_member_def pending_def split: if_splits)
    then show ?thesis using gr a e m4_eq p last by auto
  next
    assume "\<exists>b t. rc_available s4 \<and> admissible now s4 b t (expire_member now m4)
          \<and> m5 = admitted now (expire_member now m4)"
    then obtain busy t where av: "rc_available s4" and adm: "admissible now s4 busy t (expire_member now m4)"
      and e: "m5 = admitted now (expire_member now m4)" by blast
    note d = admissibleD [OF adm]
    have idle3: "rm_active m3 = []" "\<not> rm_reset m3"
      using d(1) gr(1) e m4_eq by (auto simp: admitted_def expire_member_def split: if_splits)
    have ret: "rm_retired m3 \<noteq> ?att" using gr(2) e m4_eq by (auto simp: admitted_def)
    have "rm_proposed m3 = ?att" using idle idle3 ret by blast
    then have one: "rm_active m5 = ?att" using e m4_eq by (auto simp: admitted_def)
    have "rm_deadline m5 = now + 15 * second" using e by (simp add: admitted_def)
    then have two: "now < rm_deadline m5" by (simp add: second_def)
    have "rc_available s5" "rc_inventory s5 = rc_inventory s4"
      using admit_change [OF s5, of ?c] av by auto
    moreover have "\<not> mismatched s4 (expire_member now m4)" using d(7) .
    moreover have "rm_identity m4 = rm_identity m" using m4_eq same by (auto simp: m2_def)
    ultimately show ?thesis
      using gr one two out(2) last by (simp add: mismatched_def observed_id_def sid_def)
  qed
qed

text \<open>
  What a pending attempt rests on: a state in which the host was available, its inventory listed the member's
  exact incarnation, and this attempt was pending with this deadline.
\<close>

definition vouched :: "session_recovery \<Rightarrow> string \<Rightarrow> recovery_member \<Rightarrow> bool" where
  "vouched t c m \<longleftrightarrow>
     rc_available t \<and> observed_id t (rq_session (rm_identity m)) = rq_session_id (rm_identity m)
     \<and> (\<exists>x. map_of (rc_members t) c = Some x \<and> pending x \<and> rm_active x = rm_active m
          \<and> rm_deadline x = rm_deadline m)"

definition same_attempt :: "recovery_member \<Rightarrow> recovery_member \<Rightarrow> bool" where
  "same_attempt x m \<longleftrightarrow>
     pending x \<and> rm_active x = rm_active m \<and> rm_deadline x = rm_deadline m \<and> rm_identity x = rm_identity m"

definition only_older :: "session_recovery \<Rightarrow> session_recovery \<Rightarrow> bool" where
  "only_older s s' \<longleftrightarrow>
     (\<forall>c m. map_of (rc_members s') c = Some m \<longrightarrow> pending m \<longrightarrow>
        (\<exists>x. map_of (rc_members s) c = Some x \<and> same_attempt x m))"

definition older_or_vouched :: "session_recovery \<Rightarrow> session_recovery \<Rightarrow> bool" where
  "older_or_vouched s s' \<longleftrightarrow>
     (\<forall>c m. map_of (rc_members s') c = Some m \<longrightarrow> pending m \<longrightarrow>
        vouched s' c m \<or> (\<exists>x. map_of (rc_members s) c = Some x \<and> same_attempt x m))"

lemma same_attempt_refl: "pending m \<Longrightarrow> same_attempt m m"
  by (simp add: same_attempt_def)

lemma only_older_same: "map_of (rc_members s') = map_of (rc_members s) \<Longrightarrow> only_older s s'"
  by (simp add: only_older_def same_attempt_refl)

lemma only_older_trans: "only_older s t \<Longrightarrow> only_older t u \<Longrightarrow> only_older s u"
  unfolding only_older_def same_attempt_def by metis

lemma older_then_vouched: "only_older s t \<Longrightarrow> older_or_vouched t u \<Longrightarrow> older_or_vouched s u"
  unfolding only_older_def older_or_vouched_def same_attempt_def by metis

lemma only_older_vouched: "only_older s t \<Longrightarrow> older_or_vouched s t"
  unfolding only_older_def older_or_vouched_def by blast

lemma older_put:
  assumes "map_of (rc_members s) c = Some x" and "pending m \<Longrightarrow> same_attempt x m"
    and "map_of (rc_members s') = (map_of (rc_members s))(c \<mapsto> m)"
  shows "only_older s s'"
  using assms by (auto simp: only_older_def same_attempt_refl)

lemma older_expire: "only_older s (expire now s)"
  unfolding only_older_def map_of_expire by (auto simp: same_attempt_def)

lemma older_admit:
  assumes a: "admit now s = Some s'"
  shows "older_or_vouched s s'"
  unfolding older_or_vouched_def
proof (intro allI impI)
  fix c m assume m: "map_of (rc_members s') c = Some m" "pending m"
  note ch = admit_change [OF a, of c]
  consider x where "map_of (rc_members s) c = Some x" "m = expire_member now x"
    | x t b where "rc_available s" "admissible now s b t (expire_member now x)"
        "m = admitted now (expire_member now x)"
  proof -
    have "map_option (expire_member now) (map_of (rc_members s) c) = Some m
      \<or> (\<exists>x t b. rc_available s \<and> admissible now s b t (expire_member now x) \<and> m = admitted now (expire_member now x))"
      using ch m(1) by (metis option.inject)
    then show thesis
    proof
      assume "map_option (expire_member now) (map_of (rc_members s) c) = Some m"
      then show thesis using that(1) by auto
    qed (use that(2) in blast)
  qed
  then show "vouched s' c m \<or> (\<exists>x. map_of (rc_members s) c = Some x \<and> same_attempt x m)"
  proof cases
    case 1
    then show ?thesis using m(2) by (auto simp: same_attempt_def)
  next
    case 2
    then have "\<not> mismatched s (expire_member now x)" by (simp add: admissible_def)
    then show ?thesis using 2 m ch by (auto simp: vouched_def mismatched_def observed_id_def admitted_def)
  qed
qed

lemma older_end_observed: "only_older s (end_observed obs s)"
proof (induction obs s rule: end_observed.induct)
  case (2 c r rest s)
  let ?s = "case map_of (rc_members s) c of None \<Rightarrow> s
    | Some m \<Rightarrow> if rm_ref m = r \<and> mismatched s m
        then s\<lparr>rc_members := AList.update c (end_member m) (rc_members s)\<rparr> else s"
  have "only_older s ?s"
  proof (cases "map_of (rc_members s) c")
    case (Some m)
    have "only_older s (s\<lparr>rc_members := AList.update c (end_member m) (rc_members s)\<rparr>)"
      by (rule older_put [OF Some, of "end_member m"]) (simp_all add: end_member_def pending_def)
    then show ?thesis using Some by (simp add: only_older_same)
  qed (simp add: only_older_same)
  with 2 show ?case using only_older_trans by simp
qed (simp add: only_older_same)

lemma older_apply_event:
  assumes m: "map_of (rc_members s) (rq_client r) = Some m" and e: "apply_event r now m s = Some (b, s')"
  shows "only_older s s'"
proof -
  let ?put = "\<lambda>x. (map_of (rc_members s))(rq_client r \<mapsto> x)"
  consider (same) "map_of (rc_members s') = map_of (rc_members s)"
    | (put) x where "map_of (rc_members s') = ?put x" "pending x \<longrightarrow> same_attempt m x"
  proof -
    have lost: "\<exists>x. map_of (rc_members t) = ?put x \<and> \<not> pending x" if "fail (rq_client r) m now s = Some t" for t
      using that by (auto simp: fail_def Let_def put_member_def pending_def split: option.splits)
    have "map_of (rc_members s') = map_of (rc_members s)
      \<or> (\<exists>x. map_of (rc_members s') = ?put x \<and> (pending x \<longrightarrow> same_attempt m x))"
      using e lost unfolding apply_event_def Let_def
      by (auto simp: put_member_def pending_def same_attempt_def split: if_splits)
    then show thesis using that by blast
  qed
  then show ?thesis
  proof cases
    case same
    then show ?thesis by (rule only_older_same)
  next
    case put
    then show ?thesis using older_put [OF m, of x s'] by blast
  qed
qed

lemma older_exchange_member:
  assumes "exchange_member r now s = Some (rep, s')"
  shows "older_or_vouched s s'"
proof -
  define s2 where "s2 = expire now (if rq_retry r then request_probe now s else s)"
  have s2: "only_older s s2"
    using older_expire [of "if rq_retry r then request_probe now s else s" now] only_older_same [of "request_probe now s" s]
      only_older_trans unfolding s2_def by (auto split: if_splits)
  obtain m where m: "map_of (rc_members s2) (rq_client r) = Some m"
    using assms by (auto simp: exchange_member_def Let_def s2_def [symmetric] split: option.splits)
  show ?thesis
  proof (cases "rm_active m \<noteq> [] \<and> rq_attempt r \<noteq> rm_active m")
    case True
    then have "s' = s2" using assms m by (auto simp: exchange_member_def Let_def s2_def [symmetric])
    then show ?thesis using s2 only_older_vouched by blast
  next
    case False
    then obtain b s3 where ev: "apply_event r now m s2 = Some (b, s3)"
      using assms m by (auto simp: exchange_member_def Let_def s2_def [symmetric] split: option.splits)
    have s3: "only_older s s3" using only_older_trans [OF s2 older_apply_event [OF m ev]] .
    show ?thesis
    proof (cases b)
      case no: False
      then have "s' = s3" using assms m False ev by (auto simp: exchange_member_def Let_def s2_def [symmetric])
      then show ?thesis using s3 only_older_vouched by blast
    next
      case yes: True
      obtain m3 where m3: "map_of (rc_members s3) (rq_client r) = Some m3"
        using assms m False ev yes by (auto simp: exchange_member_def Let_def s2_def [symmetric] split: option.splits)
      define s4 where "s4 = (if rq_state r = ''connecting'' \<and> rm_active m3 \<noteq> rq_attempt r
          \<and> rq_attempt r \<noteq> rm_retired m3 then put_member (rq_client r) (m3\<lparr>rm_reset := True\<rparr>) s3 else s3)"
      have "only_older s3 s4"
        using older_put [OF m3, of "m3\<lparr>rm_reset := True\<rparr>" "put_member (rq_client r) (m3\<lparr>rm_reset := True\<rparr>) s3"]
          only_older_same [of s3 s3]
        by (auto simp: s4_def put_member_def pending_def same_attempt_def)
      moreover have "admit now s4 = Some s'"
      proof -
        have na: "(rm_active m \<noteq> [] \<and> rq_attempt r \<noteq> rm_active m) = False" using False by blast
        have "(case admit now s4 of None \<Rightarrow> None
            | Some s5 \<Rightarrow> map_option (\<lambda>m5. (Inr (reply s5 m5 now (rm_reset m5 \<or> rq_attempt r = rm_retired m5)), s5))
                (map_of (rc_members s5) (rq_client r))) = Some (rep, s')"
          using assms unfolding exchange_member_def Let_def s2_def [symmetric]
          by (simp only: m ev eqTrueI [OF yes] option.case na if_False prod.case bool.case m3 s4_def [symmetric])
        then show ?thesis by (auto split: option.splits)
      qed
      ultimately show ?thesis using s3 only_older_trans older_then_vouched older_admit by metis
    qed
  qed
qed

lemma older_exchange: "exchange r now s = Some (rep, s') \<Longrightarrow> older_or_vouched s s'"
proof -
  assume e: "exchange r now s = Some (rep, s')"
  have "only_older s (register r now s)" if "map_of (rc_members s) (rq_client r) = None"
    using that by (auto simp: only_older_def register_def new_member_def Let_def pending_def same_attempt_def)
  then show ?thesis
    using e older_exchange_member older_then_vouched only_older_vouched [OF only_older_same [of s s]]
    by (auto simp: exchange_def split: if_splits option.splits)
qed

lemma older_finish: "finish_probe n now inven err s = Some s' \<Longrightarrow> older_or_vouched s s'"
proof -
  assume f: "finish_probe n now inven err s = Some s'"
  let ?failure = "case err of Some e \<Rightarrow> Some (Probe_Error e)
                  | None \<Rightarrow> map_option Invalid_Inventory (validate_inventory inven)"
  show ?thesis
  proof (cases "\<not> rc_checking s \<or> n \<noteq> rc_sequence s \<or> ?failure \<noteq> None")
    case True
    have "map_of (rc_members s') = map_of (rc_members s)"
    proof (cases "\<not> rc_checking s \<or> n \<noteq> rc_sequence s")
      case no: False
      with True obtain e where "?failure = Some e" by blast
      then show ?thesis using f no by (auto simp: finish_probe_def Let_def)
    qed (use f in \<open>simp add: finish_probe_def\<close>)
    then show ?thesis by (intro only_older_vouched only_older_same)
  next
    case False
    define s2 where "s2 = s\<lparr>rc_checking := False, rc_available := True, rc_failures := 0,
                 rc_reason := Waiting_For_Admission, rc_inventory := inven, rc_next_probe := now + 30 * second\<rparr>"
    define s3 where "s3 = (end_observed (rc_observing s) s2)\<lparr>rc_observing := []\<rparr>"
    define s4 where "s4 = (if list_ex (\<lambda>(c, m). \<not> rm_ended m \<and> mismatched s3 m) (rc_members s3)
           then request_probe now s3 else s3)"
    have "only_older s s2" by (rule only_older_same) (simp add: s2_def)
    moreover have "only_older s2 s3"
      using only_older_trans [OF older_end_observed only_older_same] by (simp add: s3_def)
    moreover have "only_older s3 s4" by (rule only_older_same) (simp add: s4_def)
    moreover have "admit now s4 = Some s'"
      using f False unfolding s4_def s3_def s2_def by (auto simp: finish_probe_def Let_def)
    ultimately show ?thesis using only_older_trans older_then_vouched older_admit by metis
  qed
qed

lemma older_run_op: "run_op op s = Some s' \<Longrightarrow> older_or_vouched s s'"
proof (cases op)
  case (Op_Remove c)
  then show "run_op op s = Some s' \<Longrightarrow> ?thesis"
    by (intro only_older_vouched)
      (auto simp: only_older_def remove_def Let_def map_of_delete restrict_map_def same_attempt_refl split: option.splits if_splits)
next
  case (Op_Begin now)
  then show "run_op op s = Some s' \<Longrightarrow> ?thesis"
    by (intro only_older_vouched only_older_same) (auto simp: begin_probe_def Let_def)
qed (auto simp: older_exchange older_finish older_admit)

text \<open>The states a run has visited, newest first.\<close>

inductive visited :: "session_recovery list \<Rightarrow> bool" where
  visited_start: "visited [new_session_recovery]"
| visited_step: "visited (s # h) \<Longrightarrow> run_op op s = Some s' \<Longrightarrow> visited (s' # s # h)"

lemma visited_vouched:
  "visited h \<Longrightarrow> h = s # h' \<Longrightarrow> map_of (rc_members s) c = Some m \<Longrightarrow> pending m \<Longrightarrow> \<exists>t \<in> set h. vouched t c m"
proof (induction arbitrary: s h' m rule: visited.induct)
  case visited_start
  then have "s = new_session_recovery" by simp
  with visited_start(2) show ?case by (simp add: new_session_recovery_def)
next
  case (visited_step u h op u')
  then have "vouched u' c m \<or> (\<exists>x. map_of (rc_members u) c = Some x \<and> same_attempt x m)"
    using older_run_op by (auto simp: older_or_vouched_def)
  then show ?case
  proof
    assume "\<exists>x. map_of (rc_members u) c = Some x \<and> same_attempt x m"
    then obtain x where x: "map_of (rc_members u) c = Some x" "same_attempt x m" by blast
    then have "pending x" by (simp add: same_attempt_def)
    with visited_step.IH [OF refl x(1)] obtain t where "t \<in> set (u # h)" "vouched t c x" by blast
    with x(2) show ?thesis by (auto simp: vouched_def same_attempt_def)
  qed auto
qed

section \<open>Lemmas on the rotation\<close>

text \<open>A member that the coordinator could admit in this state, given a free slot.\<close>

definition could_admit :: "gotime \<Rightarrow> session_recovery \<Rightarrow> string \<Rightarrow> bool" where
  "could_admit now s c \<longleftrightarrow>
     (\<exists>m t. map_of (rc_members s) c = Some m \<and> map_of (rc_sessions s) (sid m) = Some t
        \<and> \<not> rm_ended m \<and> \<not> rm_reset m \<and> rm_active m = [] \<and> rm_proposed m \<noteq> rm_retired m
        \<and> sid m \<notin> pend_sids (map_of (rc_members s)) \<and> \<not> now < sr_at t \<and> \<not> mismatched s m)"

lemma admit_loop_pend_sids:
  assumes "admit_loop now n np busy s = Some s'"
  shows "pend_sids (map_of (rc_members s)) \<subseteq> pend_sids (map_of (rc_members s'))"
proof
  fix x assume "x \<in> pend_sids (map_of (rc_members s))"
  then obtain c m where c: "map_of (rc_members s) c = Some m" "pending m" "x = sid m"
    by (auto simp: pend_sids_def pend_def)
  have "map_of (rc_members s') c = Some m"
    using admit_loop_change [OF assms, of c] c by (auto simp: admissible_def pending_def)
  then show "x \<in> pend_sids (map_of (rc_members s'))"
    using c by (auto simp: pend_sids_def pend_def intro!: image_eqI [of _ _ c])
qed

lemma not_could_admit:
  assumes run: "admit_loop now n np busy' s1 = Some s'"
    and m: "map_of (rc_members s1) c = Some m" and t: "map_of (rc_sessions s1) (sid m) = Some t"
    and no: "\<not> admissible now s1 busy t m" and busy: "set busy \<subseteq> pend_sids (map_of (rc_members s1))"
    and ok: "member_ok m"
  shows "\<not> could_admit now s' c"
proof
  assume "could_admit now s' c"
  then obtain x t' where x: "map_of (rc_members s') c = Some x" "map_of (rc_sessions s') (sid x) = Some t'"
    "\<not> rm_ended x" "\<not> rm_reset x" "rm_active x = []" "rm_proposed x \<noteq> rm_retired x"
    "sid x \<notin> pend_sids (map_of (rc_members s'))" "\<not> now < sr_at t'" "\<not> mismatched s' x"
    unfolding could_admit_def by blast
  note ch = admit_loop_change [OF run, of c]
  have "x \<noteq> admitted now m" using x(5) ok by (auto simp: admitted_def member_ok_def)
  then have xm: "x = m" using ch m x(1) by auto
  have "t' = t" using ch x(2) t xm by simp
  moreover have "\<not> mismatched s1 m" using ch x(9) xm by (simp add: mismatched_def observed_id_def)
  moreover have "sid m \<notin> set busy" using admit_loop_pend_sids [OF run] busy x(7) xm by auto
  ultimately show False using no x xm by (simp add: admissible_def sid_def)
qed

lemma admit_loop_all:
  assumes "admit_loop now n np busy s = Some s'"
    and "coord_inv s" and "np = card (pend (map_of (rc_members s)))"
    and "set busy = pend_sids (map_of (rc_members s))" and "n \<le> length (rc_order s)"
  shows "\<not> card (pend (map_of (rc_members s'))) < 2
    \<or> (\<forall>c \<in> set (take n (rc_order s)). \<not> could_admit now s' c)"
  using assms
proof (induction now n np busy s rule: admit_loop.induct)
  case (1 now np busy s)
  show ?case by simp
next
  case (2 now n np busy s)
  show ?case
  proof (cases "np < 2")
    case False
    then show ?thesis using "2.prems" by simp
  next
    case True
    then have nn: "\<not> \<not> np < 2" by simp
    obtain k rest where order: "rc_order s = k # rest" using "2.prems"(5) by (cases "rc_order s") auto
    obtain m t where m: "map_of (rc_members s) k = Some m"
      and t: "map_of (rc_sessions s) (sid m) = Some t" and inv1: "coord_inv (s\<lparr>rc_order := rest @ [k]\<rparr>)"
      using coord_turn [OF "2.prems"(2) order] by blast
    have ok: "member_ok m" using coord_member_ok [OF "2.prems"(2) m] .
    have take: "take n (rest @ [k]) = take n rest" using "2.prems"(5) order by simp
    show ?thesis
    proof (cases "admissible now s busy t m")
      case False
      have run: "admit_loop now n np busy (s\<lparr>rc_order := rest @ [k]\<rparr>) = Some s'"
        using "2.prems"(1) True order m t False by (simp add: sid_def)
      have "\<not> could_admit now s' k"
        by (rule not_could_admit [OF run, of k m t busy]) (use m t False ok "2.prems"(4) in simp_all)
      moreover have "\<not> card (pend (map_of (rc_members s'))) < 2
          \<or> (\<forall>c \<in> set (take n (rest @ [k])). \<not> could_admit now s' c)"
        using "2.IH"(1) [OF nn order refl m t [unfolded sid_def] False run inv1] "2.prems"(3-5) order
        by simp
      ultimately show ?thesis using take order by auto
    next
      case adm: True
      note step = admit_step [OF "2.prems"(2) order m adm True "2.prems"(3,4)]
      define mem where "mem = AList.update k (admitted now m) (rc_members s)"
      have run: "admit_loop now n (Suc np) (rq_session_id (rm_identity m) # busy)
          (s\<lparr>rc_order := rest @ [k], rc_members := mem\<rparr>) = Some s'"
        using "2.prems"(1) True order m t adm by (simp add: sid_def mem_def)
      have "map_of (rc_members s') k = Some (admitted now m)"
        using admit_loop_change [OF run, of k] by (auto simp: mem_def)
      then have "\<not> could_admit now s' k"
        using ok by (auto simp: could_admit_def admitted_def member_ok_def)
      moreover have "\<not> card (pend (map_of (rc_members s'))) < 2
          \<or> (\<forall>c \<in> set (take n (rest @ [k])). \<not> could_admit now s' c)"
        using "2.IH"(2) [OF nn order refl m t [unfolded sid_def], folded mem_def, OF _ run]
          adm step [folded mem_def] "2.prems"(5) order
        by (simp add: sid_def)
      ultimately show ?thesis using take order by auto
    qed
  qed
qed

section \<open>Example\<close>

text \<open>One helper registers, the host answers, and its attempt is admitted.\<close>

definition ex_request :: control_request where
  "ex_request =
     \<lparr>rq_token = replicate 32 CHR ''a'', rq_client = replicate 32 CHR ''c'', rq_session = ''a'',
      rq_session_id = ex_id 7, rq_attempt = replicate 32 CHR ''1'', rq_event = [],
      rq_state = ''offline'', rq_retry = False\<rparr>"

definition ex_inven :: session_inventory where
  "ex_inven = \<lparr>si_generated_at = 5, si_active = Some [''a''], si_ids = Some [(''a'', ex_id 7)]\<rparr>"

definition ex_now :: gotime where "ex_now = 100 * second"

definition ex_run :: "session_recovery option" where
  "ex_run =
     (case run_op (Op_Exchange ex_request ex_now) new_session_recovery of
        None \<Rightarrow> None
      | Some s \<Rightarrow>
          (case run_op (Op_Begin ex_now) s of
             None \<Rightarrow> None | Some s1 \<Rightarrow> run_op (Op_Finish 1 (ex_now + 1) ex_inven None) s1))"

lemma ex_run_reachable: "ex_run = Some s \<Longrightarrow> reachable s"
proof -
  assume "ex_run = Some s"
  then obtain s1 s2 where s: "run_op (Op_Exchange ex_request ex_now) new_session_recovery = Some s1"
    "run_op (Op_Begin ex_now) s1 = Some s2" "run_op (Op_Finish 1 (ex_now + 1) ex_inven None) s2 = Some s"
    by (auto simp: ex_run_def simp del: run_op.simps split: option.splits)
  show ?thesis
    by (rule reachable.step [OF reachable.step [OF reachable.step [OF reachable.start s(1)] s(2)] s(3)])
qed

lemma ex_run_available: "\<exists>s. ex_run = Some s \<and> rc_available s"
proof -
  have "(case ex_run of None \<Rightarrow> False | Some s \<Rightarrow> rc_available s)" by code_simp
  then show ?thesis by (auto split: option.splits)
qed

section \<open>Properties\<close>

text \<open>
  C1: admission control. In every reachable state of the coordinator at most two attempts are
  pending, no two of them for the same session incarnation, and every further operation the
  server may perform runs to completion: no nil member or retry record is ever dereferenced.
\<close>

theorem recovery_slots:
  assumes "reachable s"
  shows "length (filter pending (map snd (rc_members s))) \<le> 2
    \<and> distinct (map sid (filter pending (map snd (rc_members s))))
    \<and> (\<exists>s'. run_op op s = Some s')"
proof -
  let ?P = "filter pending (map snd (rc_members s))"
  have inv: "coord_inv s" using assms by (rule reachable_inv)
  then have dk: "distinct (map fst (rc_members s))" and sl: "slots_ok (map_of (rc_members s))"
    by (simp_all add: coord_inv_def parts_ok_def)
  note c = pend_count [OF dk]
  have "card (set (map sid ?P)) = card (pend (map_of (rc_members s)))"
    using c sl by (simp only: slots_ok_def card_image)
  then have "card (set (map sid ?P)) = length (map sid ?P)" using c by simp
  then have "distinct (map sid ?P)" by (rule card_distinct)
  moreover have "length ?P \<le> 2" using c sl by (simp add: slots_ok_def)
  moreover have "\<exists>s'. run_op op s = Some s'" using run_op_ok [OF inv] by blast
  ultimately show ?thesis by blast
qed

theorem recovery_slots_witness:
  "\<exists>s. ex_run = Some s \<and> length (filter pending (map snd (rc_members s))) \<le> 2"
  using ex_run_available recovery_slots [OF ex_run_reachable] by blast

text \<open>
  C28: a grant is only for the caller's own attempt, only while it can be used, and only on an observation. When an
  exchange grants in any run, the granted attempt is the attempt of the request and its deadline is in
  the future; and at this or an earlier state of the run the host was available, its inventory listed the
  exact session incarnation of the request under the session name of the request, and this very attempt was
  pending for this client with this very deadline.
\<close>

theorem grant_to_caller:
  assumes "visited (s # h)" and ex: "exchange r now s = Some (Inr rep, s')" and g: "ry_grant rep = Some g"
  shows "sg_attempt g = rq_attempt r \<and> now < sg_deadline g
    \<and> (\<exists>t \<in> set (s' # s # h). rc_available t \<and> observed_id t (rq_session r) = rq_session_id r
         \<and> (\<exists>x. map_of (rc_members t) (rq_client r) = Some x \<and> pending x \<and> rm_active x = rq_attempt r
              \<and> rm_deadline x = sg_deadline g))"
proof -
  have grant: "sg_attempt g = rq_attempt r \<and> now < sg_deadline g
    \<and> (\<exists>m. map_of (rc_members s') (rq_client r) = Some m \<and> pending m \<and> rm_active m = rq_attempt r
         \<and> rm_deadline m = sg_deadline g \<and> rq_session (rm_identity m) = rq_session r
         \<and> rq_session_id (rm_identity m) = rq_session_id r)"
  proof (cases "map_of (rc_members s) (rq_client r)")
    case None
    then have "exchange_member r now (register r now s) = Some (Inr rep, s')"
      using ex by (auto simp: exchange_def split: if_splits)
    from exchange_member_grant [OF this register_member g] show ?thesis by auto
  next
    case (Some m)
    then have "exchange_member r now s = Some (Inr rep, s')"
      and id: "rq_session (rm_identity m) = rq_session r" "rq_session_id (rm_identity m) = rq_session_id r"
      using ex by (auto simp: exchange_def split: if_splits)
    from exchange_member_grant [OF this(1) Some g] id show ?thesis by auto
  qed
  then obtain m where m: "map_of (rc_members s') (rq_client r) = Some m" "pending m" "rm_active m = rq_attempt r"
    "rm_deadline m = sg_deadline g" "rq_session (rm_identity m) = rq_session r"
    "rq_session_id (rm_identity m) = rq_session_id r"
    by blast
  have "run_op (Op_Exchange r now) s = Some s'" using ex by simp
  from visited_vouched [OF visited_step [OF assms(1) this] refl m(1,2)] m(3-6) grant
  show ?thesis by (auto simp: vouched_def)
qed

lemma ex_run_visited:
  assumes "ex_run = Some s"
  shows "\<exists>h. visited (s # h)"
proof -
  obtain s1 s2 where s: "run_op (Op_Exchange ex_request ex_now) new_session_recovery = Some s1"
    "run_op (Op_Begin ex_now) s1 = Some s2" "run_op (Op_Finish 1 (ex_now + 1) ex_inven None) s2 = Some s"
    using assms by (auto simp: ex_run_def simp del: run_op.simps split: option.splits)
  show ?thesis
    using visited_step [OF visited_step [OF visited_step [OF visited_start s(1)] s(2)] s(3)] by blast
qed

text \<open>The attempt of the example is admitted when the probe ends; the exchange after it grants.\<close>

theorem grant_to_caller_witness:
  "\<exists>s h rep s' g. ex_run = Some s \<and> exchange ex_request (ex_now + 2) s = Some (Inr rep, s')
     \<and> ry_grant rep = Some g \<and> sg_attempt g = rq_attempt ex_request \<and> ex_now + 2 < sg_deadline g
     \<and> (\<exists>t \<in> set (s' # s # h). rc_available t \<and> observed_id t ''a'' = ex_id 7)"
proof -
  have "(case ex_run of None \<Rightarrow> False
         | Some s \<Rightarrow> (case exchange ex_request (ex_now + 2) s of
              Some (Inr rep, s') \<Rightarrow> ry_grant rep \<noteq> None | _ \<Rightarrow> False))"
    by code_simp
  then obtain s rep s' g where ex: "ex_run = Some s"
    "exchange ex_request (ex_now + 2) s = Some (Inr rep, s')" "ry_grant rep = Some g"
    by (auto split: option.splits sum.splits prod.splits)
  obtain h where "visited (s # h)" using ex_run_visited [OF ex(1)] by blast
  moreover have "rq_session ex_request = ''a''" "rq_session_id ex_request = ex_id 7" by (simp_all add: ex_request_def)
  ultimately show ?thesis using grant_to_caller [OF _ ex(2,3)] ex by metis
qed

text \<open>
  Admission is work-conserving. After the coordinator admits in a reachable, available state,
  either two attempts are pending, or no member is left that it could still admit: not ended nor
  awaiting a reset, idle, with a fresh attempt, its backoff over, its incarnation observed and
  no pending attempt for it. So a failing session cannot starve the others.
\<close>

theorem admit_work_conserving:
  assumes "reachable s" and "rc_available s" and "admit now s = Some s'"
  shows "\<not> card (pend (map_of (rc_members s'))) < 2 \<or> (\<forall>c. \<not> could_admit now s' c)"
proof -
  let ?s1 = "expire now s"
  have inv: "coord_inv ?s1" using reachable_inv [OF assms(1)] by (rule coord_expire)
  then have dk: "distinct (map fst (rc_members ?s1))" by (simp add: coord_inv_def parts_ok_def)
  let ?w = "filter pending (map snd (rc_members ?s1))"
  have run: "admit_loop now (length (rc_order ?s1)) (length ?w) (map sid ?w) ?s1 = Some s'"
    using assms(2,3) by (simp add: admit_def Let_def sid_def [abs_def])
  have "\<not> card (pend (map_of (rc_members s'))) < 2
    \<or> (\<forall>c \<in> set (take (length (rc_order ?s1)) (rc_order ?s1)). \<not> could_admit now s' c)"
    by (rule admit_loop_all [OF run inv]) (use pend_count [OF dk] in \<open>auto simp: pend_sids_def\<close>)
  moreover have "c \<in> set (rc_order ?s1)" if "could_admit now s' c" for c
  proof -
    have "c \<in> dom (map_of (rc_members s'))" using that by (auto simp: could_admit_def)
    then have "c \<in> dom (map_of (rc_members s))" using admit_dom [OF assms(3)] by simp
    then have "c \<in> dom (map_of (rc_members ?s1))" by (auto simp: map_of_expire)
    then show ?thesis using inv by (simp add: coord_inv_def parts_ok_def)
  qed
  ultimately show ?thesis by auto
qed

theorem admit_work_conserving_witness:
  "\<exists>s s'. ex_run = Some s \<and> admit (ex_now + 3) s = Some s'
     \<and> (\<not> card (pend (map_of (rc_members s'))) < 2
        \<or> \<not> could_admit (ex_now + 3) s' (rq_client ex_request))"
proof -
  obtain s where s: "ex_run = Some s" "rc_available s" using ex_run_available by blast
  have r: "reachable s" using s(1) by (rule ex_run_reachable)
  obtain s' where "admit (ex_now + 3) s = Some s'" using coord_admit [OF reachable_inv [OF r]] by blast
  then show ?thesis using admit_work_conserving [OF r s(2)] s(1) by blast
qed

end
