(* ===== verification/Resume_All.thy ===== *)
theory Resume_All
  imports Resume_Planner Zellij_Catalog
begin

text \<open>
  The planner of \<open>resume --all\<close>, \<open>internal/resume/planner_all.go\<close>: the recovery point is the newest
  checkpoint of the current boot, else the newest prior one, and the candidates are the ACTIVE
  sessions of the catalog, respectively the allow-list of the prior checkpoint. The exact
  catalog status decides which of them may be launched.
\<close>

section \<open>Selection\<close>

definition all_in_scope :: "select_options \<Rightarrow> checkpoint \<Rightarrow> bool" where
  "all_in_scope opts c \<longleftrightarrow>
     trim_space (cp_boot_id c) \<noteq> []
     \<and> (so_host opts = [] \<or> cp_host c = so_host opts)
     \<and> (so_profile opts = [] \<or> cp_profile c = so_profile opts)"

definition keep_newer :: "checkpoint option \<Rightarrow> checkpoint \<Rightarrow> checkpoint option" where
  "keep_newer best c =
     (case best of
        None \<Rightarrow> Some c
      | Some b \<Rightarrow> if cp_observed_at b < cp_observed_at c then Some c else best)"

fun scan_all ::
    "select_options \<Rightarrow> checkpoint option \<times> checkpoint option \<Rightarrow> checkpoint list
     \<Rightarrow> checkpoint option \<times> checkpoint option"
where
  "scan_all opts best [] = best"
| "scan_all opts (current, prior) (c # cs) =
     scan_all opts
       (if \<not> all_in_scope opts c then (current, prior)
        else if cp_boot_id c = trim_space (so_current_boot_id opts)
        then (keep_newer current c, prior)
        else (current, keep_newer prior c)) cs"

definition select_all :: "checkpoint list \<Rightarrow> select_options \<Rightarrow> selection" where
  "select_all candidates opts =
     (case scan_all opts (None, None) candidates of
        (Some c, _) \<Rightarrow>
          \<lparr>sel_status = Candidate_Ready, sel_source = Current_Active_Catalog,
           sel_checkpoint = Some c, sel_age = checkpoint_age (cp_observed_at c) (so_now opts),
           sel_reason = Current_Catalog_With_Sticky\<rparr>
      | (None, None) \<Rightarrow> not_found Prior_Active_Allow_List No_Prior_Recovery_Point
      | (None, Some p) \<Rightarrow>
          (let sel = \<lparr>sel_status = Candidate_Ready, sel_source = Prior_Active_Allow_List,
                      sel_checkpoint = Some p,
                      sel_age = checkpoint_age (cp_observed_at p) (so_now opts),
                      sel_reason = Newest_Prior_Allow_List\<rparr>
           in if ri_active_sessions (cp_recovery p) = []
              then sel\<lparr>sel_status := Candidate_Empty, sel_reason := Prior_Has_No_Active\<rparr>
              else if 0 < so_max_age opts \<and> so_max_age opts < sel_age sel
              then sel\<lparr>sel_status := Candidate_Stale, sel_reason := Prior_Exceeds_Max_Age\<rparr>
              else sel))"

section \<open>Placement\<close>

record all_options =
  ao_now :: gotime
  ao_max_age :: duration

fun metadata_map :: "recovery_session list \<Rightarrow> (string \<times> recovery_session) list
    \<Rightarrow> (string \<times> recovery_session) list" where
  "metadata_map [] m = m"
| "metadata_map (s # ss) m = metadata_map ss (AList.update (rs_name s) s m)"

definition copy_recovery_placement :: "item \<Rightarrow> recovery_session \<Rightarrow> all_options \<Rightarrow> item" where
  "copy_recovery_placement it r opts =
     (case rs_placement_observed_at r of
        None \<Rightarrow> it\<lparr>it_placement_source := Placement_None,
                   it_placement_warning := No_Sticky_Observation\<rparr>
      | Some t \<Rightarrow>
          if is_zero_time t
          then it\<lparr>it_placement_source := Placement_None,
                  it_placement_warning := No_Sticky_Observation\<rparr>
          else
            (let it1 = (case rs_workspace_ref r of
                          None \<Rightarrow> it | Some ref \<Rightarrow> it\<lparr>it_captured_workspace := ref\<rparr>);
                 it2 = (case rs_placement r of
                          None \<Rightarrow> it1 | Some p \<Rightarrow> it1\<lparr>it_captured_placement := Some p\<rparr>);
                 age = checkpoint_age t (ao_now opts);
                 it3 = it2\<lparr>it_placement_observed_at := Some t, it_placement_age := age\<rparr>
             in if 0 < ao_max_age opts \<and> ao_max_age opts < age
                then it3\<lparr>it_placement_warning := Sticky_Exceeds_Max_Age\<rparr> else it3))"

definition resolve_all_placement :: "policy \<Rightarrow> item \<Rightarrow> state \<Rightarrow> bool \<Rightarrow> item" where
  "resolve_all_placement pol it current already_open =
     (case (if it_captured_placement it = None then None
            else resolve_workspace (it_captured_workspace it) (st_workspaces current)) of
        Some t \<Rightarrow>
          if already_open then it\<lparr>it_workspace := Some t\<rparr>
          else it\<lparr>it_workspace := Some t, it_status := Ready\<rparr>
      | None \<Rightarrow>
          if already_open
          then (if it_placement_warning it = No_Warning
                then it\<lparr>it_placement_warning := Sticky_Unresolved\<rparr> else it)
          else
            (case pol of
               Policy_Skip \<Rightarrow> it\<lparr>it_status := Skipped, it_reason := Placement_Unavailable_Skip\<rparr>
             | Policy_Fail \<Rightarrow> it\<lparr>it_status := Failed, it_reason := Placement_Unavailable\<rparr>
             | _ \<Rightarrow> it\<lparr>it_status := Degraded,
                       it_reason := Placement_Unavailable_Launch_Current\<rparr>))"

fun add_exact_open :: "window list \<Rightarrow> (string \<times> window) list \<Rightarrow> (string \<times> window) list" where
  "add_exact_open [] out = out"
| "add_exact_open (w # ws) out =
     add_exact_open ws
       (if \<not> is_terminal (w_app_id w) then out
        else case w_terminal w of
            None \<Rightarrow> out
          | Some t \<Rightarrow>
              if \<not> t_session_tag_exact t then out
              else let session = trim_space (t_session_tag t)
                   in if session \<noteq> [] \<and> map_of out session = None
                      then AList.update session w out else out)"

definition current_exact_session_windows :: "state \<Rightarrow> (string \<times> window) list" where
  "current_exact_session_windows s =
     add_exact_open (stable_sort (\<lambda>a b. w_key a < w_key b) (st_windows s)) []"

section \<open>Building a plan\<close>

definition status_string :: "zstatus \<Rightarrow> string" where
  "status_string st =
     (case st of
        Active \<Rightarrow> ''active''
      | Dead_Resurrectable \<Rightarrow> ''dead_resurrectable''
      | Missing \<Rightarrow> ''missing''
      | Prefix_Only \<Rightarrow> ''prefix_only''
      | Duplicate \<Rightarrow> ''duplicate''
      | Socket_Invalid \<Rightarrow> ''socket_invalid''
      | Other_Status s \<Rightarrow> s)"

definition recovery_item ::
    "selection \<Rightarrow> checkpoint \<Rightarrow> catalog \<Rightarrow> all_options \<Rightarrow> recovery_session \<Rightarrow> string \<Rightarrow> item"
where
  "recovery_item sel c cat opts recovery name =
     (let it = zero_item
            \<lparr>it_window_key := ''recovery:'' @ name, it_app_id := ''kitty'', it_session := name,
             it_cwd := trim_space (rs_cwd recovery), it_candidate_source := sel_source sel,
             it_zellij_status := status_string (zs_status (exact cat name)),
             it_placement_source :=
               (if sel_source sel = Current_Active_Catalog then Current_Sticky
                else Prior_Recovery)\<rparr>;
          it1 = copy_recovery_placement it recovery opts
      in it1\<lparr>it_captured_column_occupied :=
               rs_captured_column_occupied recovery
               \<or> captured_column_occupied (cp_state c) (it_captured_workspace it1)
                   (it_captured_placement it1) [] name\<rparr>)"

definition append_age_warning :: "warning \<Rightarrow> item \<Rightarrow> item" where
  "append_age_warning w it =
     (if it_placement_warning it = Sticky_Exceeds_Max_Age then it\<lparr>it_placement_warning := w\<rparr>
      else it)"

text \<open>The part of an iteration after the status switch.\<close>

definition place_candidate ::
    "policy \<Rightarrow> state \<Rightarrow> (string \<times> window) list \<Rightarrow> item \<Rightarrow> item"
where
  "place_candidate pol current opened it =
     (case map_of opened (it_session it) of
        Some w \<Rightarrow>
          resolve_all_placement pol
            (it\<lparr>it_status := Already_Open, it_reason := Session_Exactly_Open,
                it_current_window_key := w_key w,
                it_current_window_id :=
                  (case runtime_window_id (w_key w) of None \<Rightarrow> 0 | Some i \<Rightarrow> i)\<rparr>)
            current True
      | None \<Rightarrow> resolve_all_placement pol it current False)"

text \<open>One iteration of the loop over the candidates; \<^term>\<open>None\<close> when it adds no item.\<close>

definition plan_candidate ::
    "policy \<Rightarrow> selection \<Rightarrow> state \<Rightarrow> (string \<times> window) list \<Rightarrow> zstatus \<Rightarrow> item \<Rightarrow> item option"
where
  "plan_candidate pol sel current opened live it =
     (case live of
        Active \<Rightarrow>
          Some (place_candidate pol current opened
                  (append_age_warning Sticky_Exceeds_Max_Age_Active_Allowed it))
      | Dead_Resurrectable \<Rightarrow>
          if sel_source sel \<noteq> Prior_Active_Allow_List then None
          else if sel_status sel = Candidate_Stale
          then Some ((append_age_warning Sticky_Exceeds_Max_Age_Dead_Blocked it)
                       \<lparr>it_status := Stale, it_reason := Dead_Blocked_By_Age\<rparr>)
          else Some (place_candidate pol current opened it)
      | Other_Status _ \<Rightarrow>
          Some (it\<lparr>it_status := Unavailable, it_reason := Excluded_By_Unknown_Status\<rparr>)
      | _ \<Rightarrow>
          Some (it\<lparr>it_status := Unavailable,
                   it_reason := Excluded_By_Status (status_string live)\<rparr>))"

definition all_candidates :: "selection \<Rightarrow> checkpoint \<Rightarrow> catalog \<Rightarrow> string list" where
  "all_candidates sel c cat =
     sort_strings
       (if sel_source sel = Current_Active_Catalog
        then filter (\<lambda>n. zs_status (exact cat n) = Active) (name_list cat)
        else ri_active_sessions (cp_recovery c))"

definition build_all ::
    "policy \<Rightarrow> selection \<Rightarrow> state \<Rightarrow> catalog \<Rightarrow> all_options \<Rightarrow> plan"
where
  "build_all pol sel current cat opts =
     (let p = start_plan sel in
      case sel_checkpoint sel of
        None \<Rightarrow> p
      | Some c \<Rightarrow>
          (let p1 = p\<lparr>pn_boot_id := cp_boot_id c, pn_captured_at := cp_observed_at c\<rparr> in
           if sel_status sel = Candidate_Empty then p1
           else
             (let metadata = metadata_map (ri_sessions (cp_recovery c)) [];
                  opened = current_exact_session_windows current
              in summarize (p1\<lparr>pn_items :=
                   List.map_filter
                     (\<lambda>name.
                        let recovery = (case map_of metadata name of
                                          None \<Rightarrow> zero_recovery | Some r \<Rightarrow> r)
                        in plan_candidate pol sel current opened (zs_status (exact cat name))
                             (recovery_item sel c cat opts recovery name))
                     (all_candidates sel c cat)\<rparr>))))"

section \<open>Descriptions\<close>

text \<open>The statuses for which the executor launches a terminal.\<close>

definition launches :: "item \<Rightarrow> bool" where
  "launches it \<longleftrightarrow> it_status it \<in> {Ready, Degraded}"

text \<open>When the exact catalog status of a session admits a launch from this selection.\<close>

definition launch_admitted :: "selection \<Rightarrow> zstatus \<Rightarrow> bool" where
  "launch_admitted sel st \<longleftrightarrow>
     st = Active
     \<or> (st = Dead_Resurrectable \<and> sel_source sel = Prior_Active_Allow_List
        \<and> sel_status sel \<noteq> Candidate_Stale)"

text \<open>
  A prior boot with two allow-listed sessions and a catalog in which \<open>a\<close> is ACTIVE and \<open>b\<close> is dead.
\<close>

definition ex_all_checkpoint :: checkpoint where
  "ex_all_checkpoint =
     (ex_checkpoint ''b1'' 5)\<lparr>cp_recovery :=
        \<lparr>ri_active_sessions = [''b'', ''a''],
         ri_sessions = [zero_recovery\<lparr>rs_name := ''a''\<rparr>, zero_recovery\<lparr>rs_name := ''b''\<rparr>]\<rparr>\<rparr>"

definition ex_catalog :: catalog where
  "ex_catalog =
     \<lparr>cat_sessions = Some [(''a'', session_with ''a'' Active),
                           (''b'', session_with ''b'' Dead_Resurrectable)],
      cat_names = Some [''a'', ''b''], cat_cache_available = True\<rparr>"

definition ex_all_select :: "duration \<Rightarrow> select_options" where
  "ex_all_select max_age = \<lparr>so_current_boot_id = ''b9'', so_host = [], so_profile = [], so_now = 100,
     so_max_age = max_age\<rparr>"

definition ex_all_options :: all_options where
  "ex_all_options = \<lparr>ao_now = 100, ao_max_age = 10\<rparr>"

definition ex_empty_state :: state where
  "ex_empty_state = \<lparr>st_workspaces = [], st_windows = []\<rparr>"

section \<open>Lemmas\<close>

lemma keep_newer_newest:
  "newest (\<lambda>a b. cp_observed_at b < cp_observed_at a) best (c # cs)
   = newest (\<lambda>a b. cp_observed_at b < cp_observed_at a) (keep_newer best c) cs"
  by (simp add: keep_newer_def)

lemma scan_all_eq:
  "scan_all opts best cs =
    (newest (\<lambda>a b. cp_observed_at b < cp_observed_at a) (fst best)
       (filter (\<lambda>c. all_in_scope opts c \<and> cp_boot_id c = trim_space (so_current_boot_id opts)) cs),
     newest (\<lambda>a b. cp_observed_at b < cp_observed_at a) (snd best)
       (filter (\<lambda>c. all_in_scope opts c \<and> cp_boot_id c \<noteq> trim_space (so_current_boot_id opts)) cs))"
proof (induction opts best cs rule: scan_all.induct)
  case (1 opts best)
  then show ?case by (cases best) simp
next
  case (2 opts current prior c cs)
  show ?case
  proof (cases "all_in_scope opts c")
    case False
    with 2 show ?thesis by simp
  next
    case True
    with 2 show ?thesis
      by (cases "cp_boot_id c = trim_space (so_current_boot_id opts)")
         (simp_all add: keep_newer_newest del: newest.simps)
  qed
qed

lemma copy_recovery_placement_frame [simp]:
  "it_session (copy_recovery_placement it r opts) = it_session it"
  "it_status (copy_recovery_placement it r opts) = it_status it"
  "it_candidate_source (copy_recovery_placement it r opts) = it_candidate_source it"
  by (simp_all add: copy_recovery_placement_def Let_def split: option.split)

lemma it_session_recovery_item [simp]: "it_session (recovery_item sel c cat opts r name) = name"
  by (simp add: recovery_item_def Let_def)

lemma it_status_recovery_item [simp]: "it_status (recovery_item sel c cat opts r name) = No_Status"
  by (simp add: recovery_item_def Let_def zero_item_def)

lemma append_age_warning_frame [simp]:
  "it_session (append_age_warning w it) = it_session it"
  "it_status (append_age_warning w it) = it_status it"
  by (simp_all add: append_age_warning_def)

lemma resolve_all_placement_frame [simp]:
  "it_session (resolve_all_placement pol it current b) = it_session it"
  by (simp add: resolve_all_placement_def split: option.split policy.split)

lemma resolve_all_placement_open [simp]:
  "it_status (resolve_all_placement pol it current True) = it_status it"
  by (simp add: resolve_all_placement_def split: option.split policy.split)

lemma resolve_all_placement_new:
  "it_status (resolve_all_placement pol it current False) \<in> {Ready, Degraded, Skipped, Failed}"
  by (simp add: resolve_all_placement_def split: option.split policy.split)

lemma place_candidate_session [simp]:
  "it_session (place_candidate pol current opened it) = it_session it"
  by (simp add: place_candidate_def Let_def split: option.split)

lemma place_candidate_status:
  "it_status (place_candidate pol current opened it) \<in>
     (if map_of opened (it_session it) = None then {Ready, Degraded, Skipped, Failed}
      else {Already_Open})"
  using resolve_all_placement_new [of pol it current]
  by (simp add: place_candidate_def split: option.split)

lemma plan_candidate_session:
  "plan_candidate pol sel current opened live it = Some x \<Longrightarrow> it_session x = it_session it"
  by (auto simp: plan_candidate_def split: zstatus.splits if_splits)

lemma plan_candidate_Some:
  "live = Active \<or> sel_source sel = Prior_Active_Allow_List
   \<Longrightarrow> plan_candidate pol sel current opened live it \<noteq> None"
  by (auto simp: plan_candidate_def split: zstatus.split)

lemma plan_candidate_cases:
  assumes "plan_candidate pol sel current opened live it = Some x"
  obtains (placed) y where "launch_admitted sel live" "it_session y = it_session it"
      "x = place_candidate pol current opened y"
    | (stale) "live = Dead_Resurrectable" "it_status x = Stale"
    | (excluded) "live \<noteq> Active" "it_status x = Unavailable"
proof (cases live)
  case Active
  then show ?thesis
    using assms placed [of "append_age_warning Sticky_Exceeds_Max_Age_Active_Allowed it"]
    by (simp add: plan_candidate_def launch_admitted_def)
next
  case Dead_Resurrectable
  have src: "sel_source sel = Prior_Active_Allow_List"
    using assms Dead_Resurrectable by (simp add: plan_candidate_def split: if_splits)
  show ?thesis
  proof (cases "sel_status sel = Candidate_Stale")
    case True
    then have "it_status x = Stale"
      using assms Dead_Resurrectable src by (auto simp: plan_candidate_def)
    then show ?thesis using stale Dead_Resurrectable by blast
  next
    case False
    then show ?thesis
      using assms Dead_Resurrectable src placed [of it]
      by (simp add: plan_candidate_def launch_admitted_def)
  qed
qed (use assms excluded in \<open>auto simp: plan_candidate_def\<close>)

lemma place_candidate_safe:
  "it_status (place_candidate pol current opened y) \<in> {Ready, Degraded, Skipped, Failed, Already_Open}
   \<and> (launches (place_candidate pol current opened y) \<longrightarrow> map_of opened (it_session y) = None)"
  using place_candidate_status [of pol current opened y]
  by (auto simp: launches_def split: if_splits)

lemma plan_candidate_safe:
  assumes "plan_candidate pol sel current opened live it = Some x"
  shows "(launches x \<longrightarrow> launch_admitted sel live \<and> map_of opened (it_session it) = None)
    \<and> (live = Active \<longrightarrow> it_status x \<notin> {Stale, Unavailable})
    \<and> it_status x \<noteq> No_Status"
  using assms
proof (cases rule: plan_candidate_cases)
  case (placed y)
  then show ?thesis using place_candidate_safe [of pol current opened y] by auto
qed (auto simp: launches_def)

text \<open>The items of a plan, one application of the iteration for each candidate.\<close>

lemma build_all_items:
  assumes "sel_checkpoint sel = Some c" and "sel_status sel \<noteq> Candidate_Empty"
  obtains f where
    "pn_items (build_all pol sel current cat opts) = List.map_filter f (all_candidates sel c cat)"
    and "\<And>n. \<exists>it. it_session it = n \<and> it_status it = No_Status
          \<and> f n = plan_candidate pol sel current (current_exact_session_windows current)
                   (zs_status (exact cat n)) it"
proof
  let ?m = "metadata_map (ri_sessions (cp_recovery c)) []"
  let ?f = "\<lambda>n. plan_candidate pol sel current (current_exact_session_windows current)
        (zs_status (exact cat n))
        (recovery_item sel c cat opts (case map_of ?m n of None \<Rightarrow> zero_recovery | Some r \<Rightarrow> r) n)"
  show "pn_items (build_all pol sel current cat opts) = List.map_filter ?f (all_candidates sel c cat)"
    using assms by (simp add: build_all_def Let_def)
  show "\<exists>it. it_session it = n \<and> it_status it = No_Status
          \<and> ?f n = plan_candidate pol sel current (current_exact_session_windows current)
                   (zs_status (exact cat n)) it" for n
    by (intro exI conjI, rule it_session_recovery_item, rule it_status_recovery_item, rule refl)
qed

lemma map_filter_keys:
  "(\<And>n x. f n = Some x \<Longrightarrow> g x = n) \<Longrightarrow> (\<And>n. n \<in> set ns \<Longrightarrow> f n \<noteq> None)
   \<Longrightarrow> map g (List.map_filter f ns) = ns"
  by (induction ns) (auto simp: List.map_filter_simps split: option.split)

section \<open>Example\<close>

lemma ex_all_result:
  "map (\<lambda>it. (it_session it, it_status it))
     (pn_items (build_all Policy_Current (select_all [ex_all_checkpoint] (ex_all_select 10))
        ex_empty_state ex_catalog ex_all_options))
   = [(''a'', Degraded), (''b'', Stale)]"
  by code_simp

lemma ex_all_selection:
  "sel_checkpoint (select_all [ex_all_checkpoint] (ex_all_select 10)) = Some ex_all_checkpoint
   \<and> sel_status (select_all [ex_all_checkpoint] (ex_all_select 10)) = Candidate_Stale
   \<and> sel_source (select_all [ex_all_checkpoint] (ex_all_select 10)) = Prior_Active_Allow_List"
  by code_simp

section \<open>Properties\<close>

text \<open>
  C24: only safe sessions are launched. In every plan of \<open>BuildAll\<close> an item that the executor would
  launch belongs to the candidates of the selection, has an exact catalog status that admits the
  launch (ACTIVE, or dead but resurrectable from a fresh prior-boot allow-list), and its session
  is not open in an exactly observed terminal. A dead session is therefore never resurrected
  from the current-boot catalog nor from a stale recovery point, while age never blocks an
  ACTIVE one.
\<close>

theorem build_all_safe:
  assumes "sel_checkpoint sel = Some c"
    and "it \<in> set (pn_items (build_all pol sel current cat opts))"
  shows "it_session it \<in> set (all_candidates sel c cat)
    \<and> (launches it \<longrightarrow> launch_admitted sel (zs_status (exact cat (it_session it)))
         \<and> map_of (current_exact_session_windows current) (it_session it) = None)
    \<and> (zs_status (exact cat (it_session it)) = Active \<longrightarrow> it_status it \<notin> {Stale, Unavailable})
    \<and> it_status it \<noteq> No_Status"
proof (cases "sel_status sel = Candidate_Empty")
  case True
  then show ?thesis using assms by (simp add: build_all_def Let_def start_plan_def)
next
  case False
  obtain f where items:
      "pn_items (build_all pol sel current cat opts) = List.map_filter f (all_candidates sel c cat)"
    and f: "\<And>n. \<exists>it. it_session it = n \<and> it_status it = No_Status
          \<and> f n = plan_candidate pol sel current (current_exact_session_windows current)
                   (zs_status (exact cat n)) it"
    using build_all_items [OF assms(1) False] by metis
  from assms(2) obtain n where n: "n \<in> set (all_candidates sel c cat)" "f n = Some it"
    unfolding items by (auto simp: List.map_filter_def)
  obtain base where base: "it_session base = n"
    "plan_candidate pol sel current (current_exact_session_windows current)
       (zs_status (exact cat n)) base = Some it"
    using f [of n] n(2) by metis
  have "it_session it = n" using plan_candidate_session [OF base(2)] base(1) by simp
  then show ?thesis using n(1) plan_candidate_safe [OF base(2)] base(1) by metis
qed

theorem build_all_safe_witness:
  "list_ex (\<lambda>it. it_session it = ''a'' \<and> it_session it \<in> set [''a'', ''b'']
       \<and> launch_admitted (select_all [ex_all_checkpoint] (ex_all_select 10))
           (zs_status (exact ex_catalog (it_session it))))
     (pn_items (build_all Policy_Current (select_all [ex_all_checkpoint] (ex_all_select 10))
        ex_empty_state ex_catalog ex_all_options))"
proof -
  let ?sel = "select_all [ex_all_checkpoint] (ex_all_select 10)"
  let ?its = "pn_items (build_all Policy_Current ?sel ex_empty_state ex_catalog ex_all_options)"
  have c: "sel_checkpoint ?sel = Some ex_all_checkpoint" using ex_all_selection by blast
  have "(''a'', Degraded) \<in> set (map (\<lambda>it. (it_session it, it_status it)) ?its)"
    unfolding ex_all_result by simp
  then obtain it where it: "it \<in> set ?its" "it_session it = ''a''" "it_status it = Degraded"
    by auto
  have "all_candidates ?sel ex_all_checkpoint ex_catalog = [''a'', ''b'']" by code_simp
  then show ?thesis using build_all_safe [OF c it(1)] it
    by (auto simp: list_ex_iff launches_def)
qed

text \<open>
  \<open>BuildAll\<close> accounts for every candidate. From a current-boot selection the sessions of the
  plan are exactly the ACTIVE names of the catalog, from a prior-boot selection exactly the
  allow-list of the checkpoint, one item each, in order; nothing is dropped and nothing else is
  added.
\<close>

theorem build_all_complete:
  assumes "sel_checkpoint sel = Some c" and "sel_status sel \<noteq> Candidate_Empty"
    and "sel_source sel \<noteq> No_Source"
  shows "map it_session (pn_items (build_all pol sel current cat opts)) =
    sort (if sel_source sel = Current_Active_Catalog
          then filter (\<lambda>n. zs_status (exact cat n) = Active) (name_list cat)
          else ri_active_sessions (cp_recovery c))"
proof -
  obtain f where items:
      "pn_items (build_all pol sel current cat opts) = List.map_filter f (all_candidates sel c cat)"
    and f: "\<And>n. \<exists>it. it_session it = n \<and> it_status it = No_Status
          \<and> f n = plan_candidate pol sel current (current_exact_session_windows current)
                   (zs_status (exact cat n)) it"
    using build_all_items [OF assms(1,2)] by metis
  have "map it_session (List.map_filter f (all_candidates sel c cat)) = all_candidates sel c cat"
  proof (rule map_filter_keys)
    show "it_session x = n" if "f n = Some x" for n x
      using f [of n] that plan_candidate_session by metis
    show "f n \<noteq> None" if "n \<in> set (all_candidates sel c cat)" for n
    proof -
      have "zs_status (exact cat n) = Active \<or> sel_source sel = Prior_Active_Allow_List"
        using that assms(3) by (cases "sel_source sel") (auto simp: all_candidates_def)
      then show ?thesis using f [of n] plan_candidate_Some by metis
    qed
  qed
  then show ?thesis unfolding items by (simp add: all_candidates_def sort_strings_eq_sort)
qed

theorem build_all_complete_witness:
  "map it_session (pn_items (build_all Policy_Fail (select_all [ex_all_checkpoint] (ex_all_select 10))
        ex_empty_state ex_catalog ex_all_options)) = [''a'', ''b'']"
proof -
  let ?sel = "select_all [ex_all_checkpoint] (ex_all_select 10)"
  note s = ex_all_selection
  have "sel_checkpoint ?sel = Some ex_all_checkpoint" "sel_status ?sel \<noteq> Candidate_Empty"
    "sel_source ?sel \<noteq> No_Source" using s by simp_all
  from build_all_complete [OF this] s show ?thesis
    by (simp add: ex_all_checkpoint_def sort_strings_eq_sort [symmetric]) code_simp
qed

text \<open>
  \<open>SelectAll\<close> prefers the running boot. When a checkpoint of the current boot is in scope, a
  newest one is chosen and the ACTIVE catalog supplies the candidates; otherwise a newest
  checkpoint of another boot supplies its allow-list; without either nothing is found. Only the
  prior choice can be empty or stale.
\<close>

theorem select_all_prefers_current:
  "(let sel = select_all cs opts;
        current = filter (\<lambda>c. all_in_scope opts c
                     \<and> cp_boot_id c = trim_space (so_current_boot_id opts)) cs;
        prior = filter (\<lambda>c. all_in_scope opts c
                     \<and> cp_boot_id c \<noteq> trim_space (so_current_boot_id opts)) cs;
        newest_of = (\<lambda>xs. list_ex (\<lambda>x. sel_checkpoint sel = Some x
                     \<and> list_all (\<lambda>y. cp_observed_at y \<le> cp_observed_at x) xs) xs)
    in if current \<noteq> []
       then sel_source sel = Current_Active_Catalog \<and> sel_status sel = Candidate_Ready
            \<and> newest_of current
       else if prior \<noteq> []
       then sel_source sel = Prior_Active_Allow_List \<and> sel_status sel \<noteq> Candidate_Not_Found
            \<and> newest_of prior
       else sel_status sel = Candidate_Not_Found \<and> sel_checkpoint sel = None)"
proof -
  let ?after = "\<lambda>a b. cp_observed_at b < cp_observed_at a"
  let ?cur = "filter (\<lambda>c. all_in_scope opts c \<and> cp_boot_id c = trim_space (so_current_boot_id opts)) cs"
  let ?pri = "filter (\<lambda>c. all_in_scope opts c \<and> cp_boot_id c \<noteq> trim_space (so_current_boot_id opts)) cs"
  have scan: "scan_all opts (None, None) cs = (newest ?after None ?cur, newest ?after None ?pri)"
    by (simp add: scan_all_eq)
  have top: "list_ex (\<lambda>x. Some m = Some x \<and> list_all (\<lambda>y. cp_observed_at y \<le> cp_observed_at x) xs) xs"
    if "newest ?after None xs = Some m" for m xs
    using observed_order.newest_in [OF that] observed_order.newest_max [OF that]
    by (auto simp: list_ex_iff list_all_iff not_less)
  show ?thesis
  proof (cases "newest ?after None ?cur")
    case (Some m)
    then have ne: "?cur \<noteq> []" using observed_order.newest_None_iff [of None ?cur] by auto
    have "sel_checkpoint (select_all cs opts) = Some m"
      "sel_source (select_all cs opts) = Current_Active_Catalog"
      "sel_status (select_all cs opts) = Candidate_Ready"
      by (simp_all add: select_all_def scan Some)
    then show ?thesis using ne top [OF Some] by (simp only: Let_def if_True simp_thms)
  next
    case cn: None
    then have e: "?cur = []" using observed_order.newest_None_iff [of None ?cur] by auto
    show ?thesis
    proof (cases "newest ?after None ?pri")
      case (Some m)
      then have ne: "?pri \<noteq> []" using observed_order.newest_None_iff [of None ?pri] by auto
      have "sel_checkpoint (select_all cs opts) = Some m"
        "sel_source (select_all cs opts) = Prior_Active_Allow_List"
        "sel_status (select_all cs opts) \<noteq> Candidate_Not_Found"
        by (simp_all add: select_all_def scan Some cn Let_def)
      then show ?thesis using ne e top [OF Some] by (simp only: Let_def if_True if_False simp_thms)
    next
      case None
      then have e': "?pri = []" using observed_order.newest_None_iff [of None ?pri] by auto
      have "sel_checkpoint (select_all cs opts) = None"
        "sel_status (select_all cs opts) = Candidate_Not_Found"
        by (simp_all add: select_all_def scan None cn not_found_def)
      then show ?thesis using e e' by (simp only: Let_def if_False simp_thms)
    qed
  qed
qed


end
