(* ===== verification/Executor_World.thy ===== *)
theory Executor_World
  imports Resume_All
begin

text \<open>
  The world of the resume executor, \<open>internal/resume/executor.go\<close>. Its interfaces
  (\<open>Launcher\<close>, \<open>WindowObserver\<close>, \<open>AttachmentProbe\<close>, \<open>WorkspaceMover\<close>, \<open>LayoutApplier\<close>,
  \<open>ColumnOrderer\<close>, \<open>Cataloger\<close>, the clock and the process channel) are functions of the record
  \<open>outside\<close>: every answer may depend on everything that has happened. What has happened is the
  trace, newest event first, and every operation takes the trace and returns it extended.

  The four waiting loops of the code are one combinator, \<open>poll_loop\<close>. The contexts made by
  \<open>context.WithTimeout\<close> expire: a sleep takes at least \<open>PollInterval\<close>, so that the sleep
  number \<open>k\<close> of a wait can only succeed while \<open>k * PollInterval < Timeout\<close>. The sleeper is the
  built-in timer (\<open>Sleeper\<close> is nil in the program).
\<close>

section \<open>Data\<close>

type_synonym go_error = string

record launch_spec =
  ls_command :: string
  ls_args :: "string list"
  ls_env :: "string list"

record observed_window =
  ow_id :: int
  ow_pid :: int
  ow_app_id :: string
  ow_workspace_id :: string
  ow_column :: "int option"
  ow_row :: "int option"
  ow_is_focused :: bool

text \<open>A started process: its client PID and whether \<open>Done()\<close> is a channel.\<close>

record process =
  pr_pid :: int
  pr_has_done :: bool

record layout_result =
  lr_status :: layout_status
  lr_reason :: string

text \<open>A received exit value is an error or nil: \<^term>\<open>Some (Some err)\<close> or \<^term>\<open>Some None\<close>.\<close>

datatype event =
    Windows_Seen "go_error + observed_window list"
  | Probed int string "go_error + bool"
  | Started launch_spec "go_error + process option"
  | Exit_Polled process "go_error option option"
  | Killed process
  | Workspace_Moved int workspace_target "go_error option"
  | Layout_Asked int placement layout_result
  | Focus_Asked int "go_error option"
  | Column_Asked int "go_error option"
  | Slept bool
  | Catalog_Seen "go_error + catalog"
  | Clock_Read gotime

type_synonym trace = "event list"

record outside =
  on_windows :: "trace \<Rightarrow> go_error + observed_window list"
  on_attached :: "trace \<Rightarrow> int \<Rightarrow> string \<Rightarrow> go_error + bool"
  on_start :: "trace \<Rightarrow> launch_spec \<Rightarrow> go_error + process option"
  on_done :: "trace \<Rightarrow> process \<Rightarrow> go_error option option"
  on_move :: "trace \<Rightarrow> int \<Rightarrow> workspace_target \<Rightarrow> go_error option"
  on_layout :: "trace \<Rightarrow> int \<Rightarrow> placement \<Rightarrow> layout_result"
  on_focus :: "trace \<Rightarrow> int \<Rightarrow> go_error option"
  on_column :: "trace \<Rightarrow> int \<Rightarrow> go_error option"
  on_sleep :: "trace \<Rightarrow> bool"
  on_catalog :: "trace \<Rightarrow> go_error + catalog"
  on_now :: "trace \<Rightarrow> gotime"
  on_environ :: "string list"

text \<open>The interfaces of an executor that are not nil.\<close>

datatype dependency =
    Dep_Launcher | Dep_Observer | Dep_Probe | Dep_Mover | Dep_Layout | Dep_Orderer | Dep_Cataloger

record executor =
  ex_launcher_command :: string
  ex_timeout :: duration
  ex_poll_interval :: duration
  ex_recovery_max_age :: duration
  ex_deps :: "dependency list"

section \<open>Calls\<close>

definition see_windows :: "outside \<Rightarrow> trace \<Rightarrow> (go_error + observed_window list) \<times> trace" where
  "see_windows w h = (on_windows w h, Windows_Seen (on_windows w h) # h)"

definition probe :: "outside \<Rightarrow> int \<Rightarrow> string \<Rightarrow> trace \<Rightarrow> (go_error + bool) \<times> trace" where
  "probe w pid session h =
     (on_attached w h pid session, Probed pid session (on_attached w h pid session) # h)"

definition start_process ::
    "outside \<Rightarrow> launch_spec \<Rightarrow> trace \<Rightarrow> (go_error + process option) \<times> trace" where
  "start_process w spec h = (on_start w h spec, Started spec (on_start w h spec) # h)"

definition poll_done :: "outside \<Rightarrow> process \<Rightarrow> trace \<Rightarrow> go_error option option \<times> trace" where
  "poll_done w p h = (on_done w h p, Exit_Polled p (on_done w h p) # h)"

definition kill :: "process \<Rightarrow> trace \<Rightarrow> trace" where
  "kill p h = Killed p # h"

definition move_to_workspace ::
    "outside \<Rightarrow> int \<Rightarrow> workspace_target \<Rightarrow> trace \<Rightarrow> go_error option \<times> trace" where
  "move_to_workspace w i t h = (on_move w h i t, Workspace_Moved i t (on_move w h i t) # h)"

definition apply_layout :: "outside \<Rightarrow> int \<Rightarrow> placement \<Rightarrow> trace \<Rightarrow> layout_result \<times> trace" where
  "apply_layout w i p h = (on_layout w h i p, Layout_Asked i p (on_layout w h i p) # h)"

definition focus_window :: "outside \<Rightarrow> int \<Rightarrow> trace \<Rightarrow> go_error option \<times> trace" where
  "focus_window w i h = (on_focus w h i, Focus_Asked i (on_focus w h i) # h)"

definition move_column :: "outside \<Rightarrow> int \<Rightarrow> trace \<Rightarrow> go_error option \<times> trace" where
  "move_column w c h = (on_column w h c, Column_Asked c (on_column w h c) # h)"

definition see_catalog :: "outside \<Rightarrow> trace \<Rightarrow> (go_error + catalog) \<times> trace" where
  "see_catalog w h = (on_catalog w h, Catalog_Seen (on_catalog w h) # h)"

definition read_clock :: "outside \<Rightarrow> trace \<Rightarrow> gotime \<times> trace" where
  "read_clock w h = (on_now w h, Clock_Read (on_now w h) # h)"

section \<open>Waiting\<close>

text \<open>The number of sleeps of one wait that can succeed before its context expires.\<close>

definition polls :: "executor \<Rightarrow> nat" where
  "polls e = nat ((ex_timeout e + ex_poll_interval e - 1) div ex_poll_interval e)"

text \<open>\<open>sleep\<close> with \<open>n\<close> successful sleeps left: true when the context has expired.\<close>

definition sleep :: "outside \<Rightarrow> nat \<Rightarrow> trace \<Rightarrow> bool \<times> trace" where
  "sleep w n h = (let over = (n = 0 \<or> on_sleep w h) in (over, Slept over # h))"

text \<open>
  \<open>for { body; if sleep() != nil { return give_up } }\<close>, where the body either returns or
  goes on with a new value of the loop's variables.
\<close>

fun poll_loop ::
    "('s \<Rightarrow> trace \<Rightarrow> ('r + 's) \<times> trace) \<Rightarrow> ('s \<Rightarrow> 'r) \<Rightarrow> outside \<Rightarrow> nat \<Rightarrow> 's \<Rightarrow> trace \<Rightarrow> 'r \<times> trace"
where
  "poll_loop body give_up w 0 s h =
     (case body s h of
        (Inl r, h1) \<Rightarrow> (r, h1)
      | (Inr s1, h1) \<Rightarrow> (give_up s1, snd (sleep w 0 h1)))"
| "poll_loop body give_up w (Suc n) s h =
     (case body s h of
        (Inl r, h1) \<Rightarrow> (r, h1)
      | (Inr s1, h1) \<Rightarrow>
          (case sleep w (Suc n) h1 of
             (True, h2) \<Rightarrow> (give_up s1, h2)
           | (False, h2) \<Rightarrow> poll_loop body give_up w n s1 h2))"

definition process_exit_reason :: "string \<Rightarrow> go_error option \<Rightarrow> string" where
  "process_exit_reason message err =
     (case err of None \<Rightarrow> message | Some x \<Rightarrow> message @ '': '' @ x)"

text \<open>\<open>waitForWindow\<close>: the window of the launched PID, or the status and reason of its failure.\<close>

definition window_step ::
    "outside \<Rightarrow> process \<Rightarrow> go_error option \<Rightarrow> trace
     \<Rightarrow> (((item_status \<times> string) + observed_window) + go_error option) \<times> trace"
where
  "window_step w p last_err h =
     (case poll_done w p h of
        (Some None, h1) \<Rightarrow>
          (Inl (Inl (Failed, ''launcher exited before exact Niri PID correlation; forking or daemonizing launchers are unsupported'')), h1)
      | (Some (Some err), h1) \<Rightarrow>
          (Inl (Inl (Unavailable,
             process_exit_reason ''Zellij attach process exited before its Niri window appeared''
               (Some err))), h1)
      | (None, h1) \<Rightarrow>
          (case see_windows w h1 of
             (Inl err, h2) \<Rightarrow> (Inr (Some err), h2)
           | (Inr windows, h2) \<Rightarrow>
               (case filter (\<lambda>v. ow_pid v = pr_pid p) windows of
                  [] \<Rightarrow> (Inr last_err, h2)
                | [v] \<Rightarrow> if 0 < ow_id v then (Inl (Inr v), h2) else (Inr last_err, h2)
                | _ \<Rightarrow>
                    (Inl (Inl (Failed, ''Niri reported multiple windows for the launched client PID; correlation is ambiguous'')), h2))))"

definition wait_for_window ::
    "executor \<Rightarrow> outside \<Rightarrow> process \<Rightarrow> trace \<Rightarrow> ((item_status \<times> string) + observed_window) \<times> trace"
where
  "wait_for_window e w p h =
     poll_loop (window_step w p)
       (\<lambda>last_err. case last_err of
            Some err \<Rightarrow> Inl (Failed, ''exact launched-PID correlation timed out: '' @ err)
          | None \<Rightarrow>
              Inl (Failed, ''exact launched-PID correlation timed out; launcher may fork, daemonize, or lack Niri PID support''))
       w (polls e) None h"

text \<open>\<open>waitForAttachment\<close>: evidence in two consecutive polls with the process alive after each.\<close>

definition attachment_step ::
    "outside \<Rightarrow> process \<Rightarrow> string \<Rightarrow> go_error option \<times> nat \<Rightarrow> trace
     \<Rightarrow> ((item_status \<times> string) option + go_error option \<times> nat) \<times> trace"
where
  "attachment_step w p session s h =
     (case s of (last_err, confirmations) \<Rightarrow>
      case poll_done w p h of
        (Some err, h1) \<Rightarrow>
          (Inl (Some (Unavailable,
             process_exit_reason ''zellij attach exited without attachment evidence'' err)), h1)
      | (None, h1) \<Rightarrow>
          (case probe w (pr_pid p) session h1 of
             (Inl err, h2) \<Rightarrow> (Inr (Some err, 0), h2)
           | (Inr False, h2) \<Rightarrow> (Inr (last_err, 0), h2)
           | (Inr True, h2) \<Rightarrow>
               (case poll_done w p h2 of
                  (Some err, h3) \<Rightarrow>
                    (Inl (Some (Unavailable,
                       process_exit_reason ''zellij attach exited during attachment confirmation''
                         err)), h3)
                | (None, h3) \<Rightarrow>
                    if 2 \<le> confirmations + 1 then (Inl None, h3)
                    else (Inr (last_err, confirmations + 1), h3))))"

definition wait_for_attachment ::
    "executor \<Rightarrow> outside \<Rightarrow> process \<Rightarrow> string \<Rightarrow> trace \<Rightarrow> (item_status \<times> string) option \<times> trace"
where
  "wait_for_attachment e w p session h =
     poll_loop (attachment_step w p session)
       (\<lambda>s. case fst s of
            Some err \<Rightarrow> Some (Failed, ''attachment evidence timed out: '' @ err)
          | None \<Rightarrow> Some (Failed, ''attachment evidence timed out''))
       w (polls e) (None, 0) h"

text \<open>\<open>waitForObserved\<close>: \<^term>\<open>None\<close> when the expected window was seen as wanted.\<close>

definition observed_step ::
    "outside \<Rightarrow> process option \<Rightarrow> int \<Rightarrow> int \<Rightarrow> (observed_window \<Rightarrow> bool) \<Rightarrow> string
     \<Rightarrow> go_error option \<Rightarrow> trace \<Rightarrow> (string option + go_error option) \<times> trace"
where
  "observed_step w p wid pid matches description last_err h =
     (case (case p of None \<Rightarrow> (None, h) | Some q \<Rightarrow> poll_done w q h) of
        (Some err, h1) \<Rightarrow>
          (Inl (Some (process_exit_reason
             (''attached terminal exited before '' @ description @ '' was observed'') err)), h1)
      | (None, h1) \<Rightarrow>
          (case see_windows w h1 of
             (Inl err, h2) \<Rightarrow> (Inr (Some err), h2)
           | (Inr windows, h2) \<Rightarrow>
               if list_ex (\<lambda>v. ow_id v = wid \<and> (pid \<le> 0 \<or> ow_pid v = pid) \<and> matches v) windows
               then (Inl None, h2) else (Inr last_err, h2)))"

definition wait_for_observed ::
    "executor \<Rightarrow> outside \<Rightarrow> process option \<Rightarrow> int \<Rightarrow> int \<Rightarrow> (observed_window \<Rightarrow> bool) \<Rightarrow> string
     \<Rightarrow> trace \<Rightarrow> string option \<times> trace"
where
  "wait_for_observed e w p wid pid matches description h =
     poll_loop (observed_step w p wid pid matches description)
       (\<lambda>last_err. case last_err of
            Some err \<Rightarrow> Some (description @ '' could not be verified: '' @ err)
          | None \<Rightarrow> Some (description @ '' was not observed before timeout''))
       w (polls e) None h"

definition wait_for_workspace ::
    "executor \<Rightarrow> outside \<Rightarrow> process option \<Rightarrow> observed_window \<Rightarrow> string \<Rightarrow> trace
     \<Rightarrow> string option \<times> trace"
where
  "wait_for_workspace e w p expected workspace_id h =
     wait_for_observed e w p (ow_id expected) (ow_pid expected)
       (\<lambda>v. ow_workspace_id v = workspace_id) ''workspace movement'' h"

section \<open>Exact attachment evidence\<close>

text \<open>The windows of a list that the probe finds attached to a session; an error stops the scan.\<close>

fun attached_among ::
    "outside \<Rightarrow> string \<Rightarrow> observed_window list \<Rightarrow> trace
     \<Rightarrow> (go_error + observed_window list) \<times> trace"
where
  "attached_among w session [] h = (Inr [], h)"
| "attached_among w session (v # vs) h =
     (case probe w (ow_pid v) session h of
        (Inl err, h1) \<Rightarrow> (Inl err, h1)
      | (Inr b, h1) \<Rightarrow>
          (case attached_among w session vs h1 of
             (Inl err, h2) \<Rightarrow> (Inl err, h2)
           | (Inr ms, h2) \<Rightarrow> (Inr (if b then v # ms else ms), h2)))"

definition probed_window :: "observed_window \<Rightarrow> bool" where
  "probed_window v \<longleftrightarrow> 0 < ow_pid v \<and> 0 < ow_id v"

definition session_windows_from ::
    "outside \<Rightarrow> observed_window list \<Rightarrow> string \<Rightarrow> trace
     \<Rightarrow> (go_error + observed_window list) \<times> trace"
where
  "session_windows_from w windows session h =
     attached_among w session
       (filter (\<lambda>v. is_terminal (ow_app_id v) \<and> probed_window v) windows) h"

definition session_windows ::
    "outside \<Rightarrow> string \<Rightarrow> trace \<Rightarrow> (go_error + observed_window list) \<times> trace"
where
  "session_windows w session h =
     (case see_windows w h of
        (Inl err, h1) \<Rightarrow> (Inl err, h1)
      | (Inr windows, h1) \<Rightarrow> session_windows_from w windows session h1)"

definition all_attached_session_windows ::
    "outside \<Rightarrow> string \<Rightarrow> trace \<Rightarrow> (go_error + observed_window list) \<times> trace"
where
  "all_attached_session_windows w session h =
     (case see_windows w h of
        (Inl err, h1) \<Rightarrow> (Inl err, h1)
      | (Inr windows, h1) \<Rightarrow> attached_among w session (filter probed_window windows) h1)"

section \<open>Lemmas\<close>

text \<open>A waiting loop answers what its body or its giving up answers.\<close>

lemma poll_loop_post:
  assumes "\<And>s h r h1. body s h = (Inl r, h1) \<Longrightarrow> Q r" and "\<And>s. Q (give_up s)"
  shows "Q (fst (poll_loop body give_up w n s h))"
proof (induction n arbitrary: s h)
  case 0
  then show ?case using assms by (auto split: prod.split sum.split)
next
  case (Suc n)
  then show ?case using assms by (auto split: prod.split sum.split bool.split)
qed

text \<open>The sleeps that can succeed are those that begin before the timeout.\<close>

lemma le_div_iff: "0 < q \<Longrightarrow> a \<le> n div q \<longleftrightarrow> a * q \<le> n" for q a n :: int
proof
  assume q: "0 < q" and "a \<le> n div q"
  then have "a * q \<le> n div q * q" by simp
  also have "\<dots> \<le> n" using pos_mod_sign [OF q, of n] div_mult_mod_eq [of n q] by linarith
  finally show "a * q \<le> n" .
next
  assume q: "0 < q" and "a * q \<le> n"
  then show "a \<le> n div q" using zdiv_mono1 [of "a * q" n q] by simp
qed

lemma less_polls_iff:
  assumes "0 < ex_poll_interval e"
  shows "k < polls e \<longleftrightarrow> int k * ex_poll_interval e < ex_timeout e"
proof -
  define q where "q = ex_poll_interval e"
  have "k < polls e \<longleftrightarrow> int k + 1 \<le> (ex_timeout e + q - 1) div q"
    unfolding polls_def q_def by linarith
  also have "\<dots> \<longleftrightarrow> (int k + 1) * q \<le> ex_timeout e + q - 1"
    using assms by (simp add: q_def le_div_iff)
  also have "\<dots> \<longleftrightarrow> int k * q < ex_timeout e" by (auto simp: algebra_simps)
  finally show ?thesis by (simp add: q_def)
qed

end
