(* ===== verification/Column_Order.thy ===== *)
theory Column_Order
  imports Executor_World
begin

text \<open>
  The second phase of the resume executor, \<open>orderColumns\<close> of \<open>internal/resume/executor.go\<close>:
  the restored windows are moved to their captured columns, workspace by workspace, with an
  exact prediction of the workspace state after every focus and every column move.

  A target carries the fields of its plan item that the ordering reads (the code dereferences
  pointers that the collection has checked to be non-nil; nothing in this phase changes them).
  \<open>sort.Slice\<close> of the observed windows is by identifier; windows are assumed to be listed once.
\<close>

section \<open>Predicted workspace states\<close>

definition expected_focused_state ::
    "observed_window list \<Rightarrow> int \<Rightarrow> string + observed_window list" where
  "expected_focused_state before target_id =
     (if list_ex (\<lambda>v. ow_id v = target_id) before
      then Inr (map (\<lambda>v. v\<lparr>ow_is_focused := (ow_id v = target_id)\<rparr>) before)
      else Inl (''exact window '' @ show_int target_id @ '' is absent from its affected workspace''))"

text \<open>The new index of a column when the column \<open>source\<close> is moved to \<open>destination\<close>.\<close>

definition moved_column :: "int \<Rightarrow> int \<Rightarrow> int \<Rightarrow> int" where
  "moved_column source destination column =
     (if column = source then destination
      else if source < destination \<and> source < column \<and> column \<le> destination then column - 1
      else if destination < source \<and> destination \<le> column \<and> column < source then column + 1
      else column)"

definition expected_column_move ::
    "observed_window list \<Rightarrow> int \<Rightarrow> int \<Rightarrow> string + observed_window list" where
  "expected_column_move before target_id destination =
     (case find (\<lambda>v. ow_id v = target_id) before of
        Some v \<Rightarrow>
          if \<not> ow_is_focused v
          then Inl (''exact window '' @ show_int target_id @ '' lost focus before column move'')
          else (case ow_column v of
              None \<Rightarrow>
                Inl (''exact window '' @ show_int target_id @ '' has no observable source column'')
            | Some source \<Rightarrow>
                Inr (map (\<lambda>u. u\<lparr>ow_column := map_option (moved_column source destination) (ow_column u)\<rparr>)
                       before))
      | None \<Rightarrow>
          Inl (''exact window '' @ show_int target_id @ '' has no observable source column''))"

definition same_optional_int :: "int option \<Rightarrow> int option \<Rightarrow> bool" where
  "same_optional_int l r \<longleftrightarrow>
     (case (l, r) of (None, None) \<Rightarrow> True | (Some a, Some b) \<Rightarrow> a = b | _ \<Rightarrow> False)"

definition same_observed :: "observed_window \<Rightarrow> observed_window \<Rightarrow> bool" where
  "same_observed l r \<longleftrightarrow>
     ow_id l = ow_id r \<and> ow_pid l = ow_pid r \<and> ow_app_id l = ow_app_id r
     \<and> ow_workspace_id l = ow_workspace_id r \<and> ow_is_focused l = ow_is_focused r
     \<and> same_optional_int (ow_column l) (ow_column r) \<and> same_optional_int (ow_row l) (ow_row r)"

definition same_workspace_state :: "observed_window list \<Rightarrow> observed_window list \<Rightarrow> bool" where
  "same_workspace_state l r \<longleftrightarrow>
     length l = length r \<and> list_all (\<lambda>p. same_observed (fst p) (snd p)) (zip l r)"

definition window_at_exact_column ::
    "observed_window list \<Rightarrow> int \<Rightarrow> string \<Rightarrow> int \<Rightarrow> bool" where
  "window_at_exact_column windows wid workspace_id column \<longleftrightarrow>
     (case find (\<lambda>v. ow_id v = wid) windows of
        None \<Rightarrow> False
      | Some v \<Rightarrow> ow_workspace_id v = workspace_id \<and> ow_column v = Some column)"

section \<open>Targets\<close>

record column_target =
  ct_item :: nat
  ct_window :: observed_window
  ct_workspace :: workspace_target
  ct_column :: int
  ct_row :: "int option"
  ct_occupied :: bool
  ct_session :: string

definition targets_at_exact_columns ::
    "observed_window list \<Rightarrow> string \<Rightarrow> column_target list \<Rightarrow> bool" where
  "targets_at_exact_columns windows workspace_id ts \<longleftrightarrow>
     list_all (\<lambda>t. window_at_exact_column windows (ow_id (ct_window t)) workspace_id (ct_column t)) ts"

definition workspace_target_less :: "workspace_target \<Rightarrow> workspace_target \<Rightarrow> bool" where
  "workspace_target_less l r \<longleftrightarrow>
     (if wt_index l \<noteq> wt_index r then wt_index l < wt_index r
      else if wt_output l \<noteq> wt_output r then wt_output l < wt_output r
      else if wt_name l \<noteq> wt_name r then wt_name l < wt_name r
      else wt_id l < wt_id r)"

definition target_before :: "column_target \<Rightarrow> column_target \<Rightarrow> bool" where
  "target_before l r \<longleftrightarrow>
     (if workspace_target_less (ct_workspace l) (ct_workspace r) then True
      else if workspace_target_less (ct_workspace r) (ct_workspace l) then False
      else if ct_column l \<noteq> ct_column r then ct_column r < ct_column l
      else ct_session l < ct_session r)"

definition stacked_text :: string where
  "stacked_text = ''captured stacked rows are unsupported without consume or expel actions''"

fun stacked_reason :: "int list \<Rightarrow> column_target list \<Rightarrow> string" where
  "stacked_reason columns [] = []"
| "stacked_reason columns (t # ts) =
     (if ct_occupied t \<or> (case ct_row t of None \<Rightarrow> False | Some r \<Rightarrow> 1 < r) then stacked_text
      else if ct_column t \<in> set columns then stacked_text
      else stacked_reason (ct_column t # columns) ts)"

definition mark_column_result :: "layout_status \<Rightarrow> string \<Rightarrow> item \<Rightarrow> item" where
  "mark_column_result status text it =
     (if status = Layout_Applied then
        (if it_layout_status it = Layout_Not_Requested \<or> it_layout_status it = No_Layout_Status
         then it\<lparr>it_layout_status := Layout_Applied\<rparr> else it)
      else
        (let it1 =
           (if status = Layout_Degraded \<or> it_layout_status it = Layout_Degraded
            then it\<lparr>it_layout_status := Layout_Degraded\<rparr> else it\<lparr>it_layout_status := status\<rparr>)
         in if text \<noteq> []
            then it1\<lparr>it_layout_reason :=
                   (if it_layout_reason it1 \<noteq> [] then it_layout_reason it1 @ ''; '' else []) @ text\<rparr>
            else it1))"

text \<open>Marking the items of a list of targets.\<close>

fun mark_targets :: "layout_status \<Rightarrow> string \<Rightarrow> nat list \<Rightarrow> item list \<Rightarrow> item list" where
  "mark_targets status text [] items = items"
| "mark_targets status text (i # rest) items =
     mark_targets status text rest (items[i := mark_column_result status text (items ! i)])"

section \<open>Observed transitions\<close>

definition observe_workspace ::
    "outside \<Rightarrow> string \<Rightarrow> trace \<Rightarrow> (go_error + observed_window list) \<times> trace" where
  "observe_workspace w workspace_id h =
     (case see_windows w h of
        (Inl err, h1) \<Rightarrow> (Inl err, h1)
      | (Inr windows, h1) \<Rightarrow>
          (Inr (stable_sort (\<lambda>a b. ow_id a < ow_id b)
                  (filter (\<lambda>v. ow_workspace_id v = workspace_id) windows)), h1))"

definition transition_step ::
    "outside \<Rightarrow> string \<Rightarrow> observed_window list \<Rightarrow> observed_window list \<Rightarrow> string
     \<Rightarrow> go_error option \<Rightarrow> trace \<Rightarrow> (string option + go_error option) \<times> trace"
where
  "transition_step w workspace_id before expected description last_err h =
     (case observe_workspace w workspace_id h of
        (Inl err, h1) \<Rightarrow> (Inr (Some err), h1)
      | (Inr observed, h1) \<Rightarrow>
          if same_workspace_state observed expected then (Inl None, h1)
          else if \<not> same_workspace_state observed before
          then (Inl (Some (description @ '' produced an unexpected workspace mutation'')), h1)
          else (Inr last_err, h1))"

definition wait_for_workspace_transition ::
    "executor \<Rightarrow> outside \<Rightarrow> string \<Rightarrow> observed_window list \<Rightarrow> observed_window list \<Rightarrow> string
     \<Rightarrow> trace \<Rightarrow> string option \<times> trace"
where
  "wait_for_workspace_transition e w workspace_id before expected description h =
     poll_loop (transition_step w workspace_id before expected description)
       (\<lambda>last_err. case last_err of
            Some err \<Rightarrow> Some (description @ '' could not be observed: '' @ err)
          | None \<Rightarrow> Some (description @ '' was not observed before timeout''))
       w (polls e) None h"

section \<open>Ordering one workspace\<close>

text \<open>Focusing one window, from a verified state to the state with that window focused.\<close>

definition focus_target ::
    "executor \<Rightarrow> outside \<Rightarrow> string \<Rightarrow> int \<Rightarrow> observed_window list \<Rightarrow> trace
     \<Rightarrow> (string + observed_window list) \<times> trace"
where
  "focus_target e w workspace_id wid expected h =
     (case observe_workspace w workspace_id h of
        (Inl err, h1) \<Rightarrow> (Inl (''capture workspace before focus: '' @ err), h1)
      | (Inr before_focus, h1) \<Rightarrow>
          if \<not> same_workspace_state before_focus expected
          then (Inl ''workspace changed unexpectedly between verified ordering actions'', h1)
          else
            (case expected_focused_state before_focus wid of
               Inl err \<Rightarrow> (Inl err, h1)
             | Inr after_focus \<Rightarrow>
                 (case focus_window w wid h1 of
                    (Some err, h2) \<Rightarrow>
                      (Inl (''focus exact window '' @ show_int wid @ '': '' @ err), h2)
                  | (None, h2) \<Rightarrow>
                      (case wait_for_workspace_transition e w workspace_id before_focus after_focus
                              ''exact focus'' h2 of
                         (Some err, h3) \<Rightarrow> (Inl err, h3)
                       | (None, h3) \<Rightarrow> (Inr after_focus, h3)))))"

text \<open>Moving the focused column, from the focused state to the predicted one.\<close>

definition move_target ::
    "executor \<Rightarrow> outside \<Rightarrow> string \<Rightarrow> int \<Rightarrow> int \<Rightarrow> observed_window list \<Rightarrow> trace
     \<Rightarrow> (string + observed_window list) \<times> trace"
where
  "move_target e w workspace_id wid column after_focus h =
     (case observe_workspace w workspace_id h of
        (Inl err, h1) \<Rightarrow> (Inl (''capture workspace before column move: '' @ err), h1)
      | (Inr before_move, h1) \<Rightarrow>
          if \<not> same_workspace_state before_move after_focus
          then (Inl ''workspace changed unexpectedly after exact focus'', h1)
          else
            (case expected_column_move before_move wid column of
               Inl err \<Rightarrow> (Inl err, h1)
             | Inr after_move \<Rightarrow>
                 (case move_column w column h1 of
                    (Some err, h2) \<Rightarrow>
                      (Inl (''move focused column to index '' @ show_int column @ '': '' @ err), h2)
                  | (None, h2) \<Rightarrow>
                      (case wait_for_workspace_transition e w workspace_id before_move after_move
                              ''whole-column move'' h2 of
                         (Some err, h3) \<Rightarrow> (Inl err, h3)
                       | (None, h3) \<Rightarrow> (Inr after_move, h3)))))"

text \<open>One descending pass: the new verified state and whether anything moved.\<close>

fun order_pass ::
    "executor \<Rightarrow> outside \<Rightarrow> string \<Rightarrow> column_target list \<Rightarrow> observed_window list \<Rightarrow> bool \<Rightarrow> trace
     \<Rightarrow> (string + observed_window list \<times> bool) \<times> trace"
where
  "order_pass e w workspace_id [] expected moved h = (Inr (expected, moved), h)"
| "order_pass e w workspace_id (t # ts) expected moved h =
     (if window_at_exact_column expected (ow_id (ct_window t)) workspace_id (ct_column t)
      then order_pass e w workspace_id ts expected moved h
      else
        (case focus_target e w workspace_id (ow_id (ct_window t)) expected h of
           (Inl err, h1) \<Rightarrow> (Inl err, h1)
         | (Inr after_focus, h1) \<Rightarrow>
             (case move_target e w workspace_id (ow_id (ct_window t)) (ct_column t) after_focus h1 of
                (Inl err, h2) \<Rightarrow> (Inl err, h2)
              | (Inr after_move, h2) \<Rightarrow>
                  order_pass e w workspace_id ts after_move True h2)))"

definition no_convergence :: string where
  "no_convergence = ''absolute target columns did not converge''"

definition no_progress :: string where
  "no_progress = ''absolute target columns made no progress''"

text \<open>The loop over passes with \<open>r\<close> passes left, from \<open>len(group) + 1\<close> on.\<close>

fun order_passes ::
    "executor \<Rightarrow> outside \<Rightarrow> string \<Rightarrow> column_target list \<Rightarrow> nat \<Rightarrow> observed_window list \<Rightarrow> trace
     \<Rightarrow> (string + observed_window list) \<times> trace"
where
  "order_passes e w workspace_id members 0 expected h =
     (if targets_at_exact_columns expected workspace_id members then (Inr expected, h)
      else (Inl no_convergence, h))"
| "order_passes e w workspace_id members (Suc r) expected h =
     (if targets_at_exact_columns expected workspace_id members then (Inr expected, h)
      else
        (case order_pass e w workspace_id members expected False h of
           (Inl err, h1) \<Rightarrow> (Inl err, h1)
         | (Inr (expected1, moved), h1) \<Rightarrow>
             if \<not> moved then (Inl no_progress, h1)
             else order_passes e w workspace_id members r expected1 h1))"

text \<open>The final observation: \<^term>\<open>None\<close> when every target is where it belongs.\<close>

definition final_check ::
    "outside \<Rightarrow> string \<Rightarrow> column_target list \<Rightarrow> observed_window list \<Rightarrow> trace
     \<Rightarrow> string option \<times> trace"
where
  "final_check w workspace_id members expected h =
     (case observe_workspace w workspace_id h of
        (Inl err, h1) \<Rightarrow> (Some (''final workspace observation: '' @ err), h1)
      | (Inr final, h1) \<Rightarrow>
          if \<not> same_workspace_state final expected
          then (Some ''workspace changed unexpectedly before final ordering verification'', h1)
          else
            (case find (\<lambda>t. \<not> window_at_exact_column final (ow_id (ct_window t)) workspace_id
                              (ct_column t)) members of
               None \<Rightarrow> (None, h1)
             | Some t \<Rightarrow>
                 (Some (''final workspace observation does not place exact window ''
                        @ show_int (ow_id (ct_window t)) @ '' at column '' @ show_int (ct_column t)),
                  h1)))"

definition order_group ::
    "executor \<Rightarrow> outside \<Rightarrow> string \<Rightarrow> column_target list \<Rightarrow> trace \<Rightarrow> string option \<times> trace"
where
  "order_group e w workspace_id members h =
     (case observe_workspace w workspace_id h of
        (Inl err, h1) \<Rightarrow> (Some (''capture workspace before ordering: '' @ err), h1)
      | (Inr expected, h1) \<Rightarrow>
          (case order_passes e w workspace_id members (length members + 1) expected h1 of
             (Inl err, h2) \<Rightarrow> (Some err, h2)
           | (Inr expected1, h2) \<Rightarrow> final_check w workspace_id members expected1 h2))"

section \<open>Ordering all workspaces\<close>

definition same_group :: "column_target \<Rightarrow> column_target \<Rightarrow> bool" where
  "same_group t u \<longleftrightarrow> wt_id (ct_workspace u) = wt_id (ct_workspace t)"

function order_groups ::
    "executor \<Rightarrow> outside \<Rightarrow> column_target list \<Rightarrow> item list \<Rightarrow> trace \<Rightarrow> item list \<times> trace"
where
  "order_groups e w [] items h = (items, h)"
| "order_groups e w (t # ts) items h =
     (let workspace_id = wt_id (ct_workspace t);
          members = t # takeWhile (same_group t) ts;
          rest = dropWhile (same_group t) ts;
          indices = map ct_item members;
          stacked = stacked_reason [] members
      in if stacked \<noteq> []
         then order_groups e w rest (mark_targets Layout_Unsupported stacked indices items) h
         else
           (case order_group e w workspace_id members h of
              (Some err, h1) \<Rightarrow>
                order_groups e w rest
                  (mark_targets Layout_Degraded (''workspace column ordering failed: '' @ err)
                     indices items) h1
            | (None, h1) \<Rightarrow>
                order_groups e w rest (mark_targets Layout_Applied [] indices items) h1))"
  by pat_completeness auto
termination
  by (relation "measure (\<lambda>(e, w, ts, items, h). length ts)")
     (auto simp: less_Suc_eq_le length_dropWhile_le)

declare order_groups.simps [simp del]

text \<open>The targets with a captured column; those without a workspace are marked unsupported.\<close>

fun collect_ordered ::
    "(nat \<times> observed_window) list \<Rightarrow> item list \<Rightarrow> column_target list \<times> item list" where
  "collect_ordered [] items = ([], items)"
| "collect_ordered ((i, v) # rest) items =
     (case (case it_captured_placement (items ! i) of None \<Rightarrow> None | Some p \<Rightarrow>
              (case pl_column p of None \<Rightarrow> None | Some c \<Rightarrow> Some (p, c))) of
        None \<Rightarrow> collect_ordered rest items
      | Some (p, c) \<Rightarrow>
          (case it_workspace (items ! i) of
             None \<Rightarrow>
               collect_ordered rest
                 (items[i := mark_column_result Layout_Unsupported
                               ''column order requires a resolved workspace'' (items ! i)])
           | Some t \<Rightarrow>
               (case collect_ordered rest items of
                  (ts, items1) \<Rightarrow>
                    (\<lparr>ct_item = i, ct_window = v, ct_workspace = t, ct_column = c,
                      ct_row = pl_row p, ct_occupied = it_captured_column_occupied (items ! i),
                      ct_session = it_session (items ! i)\<rparr> # ts, items1))))"

text \<open>The deferred focus restoration.\<close>

definition restore_focus :: "executor \<Rightarrow> outside \<Rightarrow> int \<Rightarrow> trace \<Rightarrow> trace" where
  "restore_focus e w focused_id h =
     (if focused_id \<le> 0 then h
      else case focus_window w focused_id h of
          (Some _, h1) \<Rightarrow> h1
        | (None, h1) \<Rightarrow>
            snd (wait_for_observed e w None focused_id 0 ow_is_focused ''focus restoration'' h1))"

definition order_columns ::
    "executor \<Rightarrow> outside \<Rightarrow> (nat \<times> observed_window) list \<Rightarrow> int \<Rightarrow> item list \<Rightarrow> trace
     \<Rightarrow> item list \<times> trace"
where
  "order_columns e w targets focused_id items h =
     (case collect_ordered targets items of
        (ordered, items1) \<Rightarrow>
          if ordered = [] then (items1, h)
          else if Dep_Orderer \<notin> set (ex_deps e)
          then (mark_targets Layout_Unsupported ''verified Niri column ordering is unavailable''
                  (map ct_item ordered) items1, h)
          else
            (case order_groups e w (stable_sort target_before ordered) items1 h of
               (items2, h1) \<Rightarrow> (items2, restore_focus e w focused_id h1)))"

end
