(* ===== verification/Niri_Actions.thy ===== *)
theory Niri_Actions
  imports State_Model
begin

text \<open>
  The size that \<open>ApplyLayout\<close> of \<open>internal/resume/runtime.go\<close> asks of Niri, used by the resume executor
  and by the application of saved projections.
\<close>

text \<open>
  \<open>int(math.Round(x))\<close> of a float64 given by its bits: to the nearest integer, halves away from
  zero. What is not a finite number of 64 bits converts to the least integer, as on amd64.
\<close>

definition round_float :: "float64 \<Rightarrow> int" where
  "round_float x =
     (let biased = unat (take_bit 11 (drop_bit 52 x));
          fraction = uint (take_bit 52 x);
          significand = (if biased = 0 then fraction else fraction + 2 ^ 52);
          scale = (if biased = 0 then 1 else biased);
          magnitude =
            (if 1075 \<le> scale then significand * 2 ^ (scale - 1075)
             else (significand + 2 ^ (1074 - scale)) div 2 ^ (1075 - scale));
          rounded = (if bit x 63 then - magnitude else magnitude)
      in if biased = 2047 \<or> rounded < - (2 ^ 63) \<or> 2 ^ 63 \<le> rounded then - (2 ^ 63) else rounded)"

definition preferred_size :: "placement \<Rightarrow> int \<times> int \<times> bool" where
  "preferred_size p =
     (let window_size =
        (pl_window_size p ! 0, pl_window_size p ! 1,
         0 < pl_window_size p ! 0 \<and> 0 < pl_window_size p ! 1)
      in if pl_is_floating p = Some True \<and> 2 \<le> length (pl_window_size p) then window_size
         else if 2 \<le> length (pl_tile_size p)
         then (round_float (pl_tile_size p ! 0), round_float (pl_tile_size p ! 1),
               0 < round_float (pl_tile_size p ! 0) \<and> 0 < round_float (pl_tile_size p ! 1))
         else if 2 \<le> length (pl_window_size p) then window_size
         else (0, 0, False))"

end
