(* ===== verification/Executor.thy ===== *)
theory Executor
  imports Column_Order Niri_Actions
begin

text \<open>
  The resume executor, \<open>Apply\<close> of \<open>internal/resume/executor.go\<close>: every actionable item is mapped
  to its one exactly attached window or launched, verified, placed and sized; then the columns
  are ordered (\<open>Column_Order\<close>). The plan item a Go function mutates through a pointer is
  returned updated.
\<close>

section \<open>Launch specification\<close>

definition zellij_variables :: "string list" where
  "zellij_variables =
     [''ZELLIJ'', ''ZELLIJ_SESSION_NAME'', ''ZELLIJ_PANE_ID'', ''ZELLIJ_TAB_INDEX'', ''ZELLIJ_TAB_NAME'']"

definition without_zellij_environment :: "string list \<Rightarrow> string list" where
  "without_zellij_environment env =
     filter (\<lambda>entry. takeWhile (\<lambda>c. c \<noteq> CHR ''='') entry \<notin> set zellij_variables) env"

definition kitty_launch_spec :: "string list \<Rightarrow> string \<Rightarrow> item \<Rightarrow> launch_spec" where
  "kitty_launch_spec env command it =
     \<lparr>ls_command = trim_space command,
      ls_args = (if trim_space (it_cwd it) \<noteq> [] then [''--directory'', trim_space (it_cwd it)] else [])
                @ [''zellij'', ''attach'', ''--'', it_session it],
      ls_env = without_zellij_environment env\<rparr>"

section \<open>Configuration and items\<close>

definition actionable :: "item_status \<Rightarrow> bool" where
  "actionable st \<longleftrightarrow> st = Ready \<or> st = Degraded \<or> st = Already_Open"

definition validate_executor :: "executor \<Rightarrow> string option" where
  "validate_executor e =
     (if trim_space (ex_launcher_command e) = [] then Some ''resume launcher command is empty''
      else if \<not> {Dep_Launcher, Dep_Observer, Dep_Probe, Dep_Mover} \<subseteq> set (ex_deps e)
      then Some ''resume executor dependency is unavailable''
      else if ex_timeout e \<le> 0 \<or> ex_poll_interval e \<le> 0 \<or> ex_timeout e < ex_poll_interval e
      then Some ''resume timeout and poll interval must be positive, and poll interval must not exceed timeout''
      else None)"

definition fail_item :: "item_status \<Rightarrow> string \<Rightarrow> item \<Rightarrow> item" where
  "fail_item st text it = it\<lparr>it_status := st, it_reason := Reason_Text text\<rparr>"

definition fail_actionable :: "string \<Rightarrow> item \<Rightarrow> item" where
  "fail_actionable text it = (if actionable (it_status it) then fail_item Failed text it else it)"

definition multiple_text :: string where
  "multiple_text = ''multiple Niri windows have exact attachment evidence for this Zellij session''"

section \<open>Mapping existing windows\<close>

text \<open>The last focused window of the list.\<close>

definition focused_window :: "observed_window list \<Rightarrow> int" where
  "focused_window windows =
     foldl (\<lambda>focused v. if ow_is_focused v then ow_id v else focused) 0 windows"

definition map_item ::
    "outside \<Rightarrow> observed_window list \<Rightarrow> item \<Rightarrow> trace \<Rightarrow> (item \<times> observed_window option) \<times> trace"
where
  "map_item w windows it h =
     (if \<not> actionable (it_status it) then ((it, None), h)
      else case session_windows_from w windows (it_session it) h of
          (Inl err, h1) \<Rightarrow>
            ((fail_item Failed (''cannot verify existing session attachment: '' @ err) it, None), h1)
        | (Inr [v], h1) \<Rightarrow> ((it, Some v), h1)
        | (Inr [], h1) \<Rightarrow> ((it, None), h1)
        | (Inr _, h1) \<Rightarrow> ((fail_item Failed multiple_text it, None), h1))"

fun map_items ::
    "outside \<Rightarrow> observed_window list \<Rightarrow> item list \<Rightarrow> trace
     \<Rightarrow> (item \<times> observed_window option) list \<times> trace"
where
  "map_items w windows [] h = ([], h)"
| "map_items w windows (it # its) h =
     (case map_item w windows it h of
        (m, h1) \<Rightarrow> (case map_items w windows its h1 of (ms, h2) \<Rightarrow> (m # ms, h2)))"

definition map_existing ::
    "outside \<Rightarrow> item list \<Rightarrow> trace \<Rightarrow> ((item \<times> observed_window option) list \<times> int) \<times> trace"
where
  "map_existing w items h =
     (case see_windows w h of
        (Inl err, h1) \<Rightarrow>
          ((map (\<lambda>it. (fail_actionable (''cannot observe existing Niri windows: '' @ err) it, None)) items,
            0), h1)
      | (Inr windows, h1) \<Rightarrow>
          (case map_items w windows items h1 of
             (ms, h2) \<Rightarrow> ((ms, focused_window windows), h2)))"

section \<open>Launching\<close>

definition source_string :: "candidate_source \<Rightarrow> string" where
  "source_string src =
     (case src of
        No_Source \<Rightarrow> []
      | Current_Active_Catalog \<Rightarrow> ''current_boot_active_catalog''
      | Prior_Active_Allow_List \<Rightarrow> ''prior_boot_active_allow_list'')"

definition revalidate_all_candidate ::
    "executor \<Rightarrow> outside \<Rightarrow> gotime \<Rightarrow> item \<Rightarrow> trace \<Rightarrow> (item \<times> bool) \<times> trace"
where
  "revalidate_all_candidate e w observed_at it h =
     (if it_candidate_source it = No_Source then ((it, True), h)
      else if Dep_Cataloger \<notin> set (ex_deps e)
      then ((fail_item Failed ''exact Zellij catalog re-observation is unavailable before resume --all launch'' it,
             False), h)
      else case see_catalog w h of
          (Inl err, h1) \<Rightarrow>
            ((fail_item Failed (''exact Zellij catalog re-observation failed before launch: '' @ err) it,
              False), h1)
        | (Inr cat, h1) \<Rightarrow>
            (let live = zs_status (exact cat (it_session it)) in
             if it_zellij_status it = status_string Active then
               (if live \<noteq> Active
                then ((fail_item Unavailable
                         (''planned active session changed to exact Zellij safety status ''
                          @ status_string live @ ''; resurrection is blocked'') it, False), h1)
                else ((it, True), h1))
             else if it_zellij_status it = status_string Dead_Resurrectable then
               (if it_candidate_source it \<noteq> Prior_Active_Allow_List
                then ((fail_item Unavailable
                         (''dead-session resurrection is not permitted by candidate source ''
                          @ source_string (it_candidate_source it)) it, False), h1)
                else case live of
                    Active \<Rightarrow> ((it, True), h1)
                  | Dead_Resurrectable \<Rightarrow>
                      (let stale = fail_item Stale ''dead-resurrectable prior-active session blocked because recovery point exceeds maximum age'' it in
                       if ex_recovery_max_age e \<le> 0 \<or> is_zero_time observed_at
                       then ((stale, False), h1)
                       else case read_clock w h1 of
                           (now, h2) \<Rightarrow>
                             if ex_recovery_max_age e < checkpoint_age observed_at now
                             then ((stale, False), h2) else ((it, True), h2))
                  | _ \<Rightarrow>
                      ((fail_item Unavailable
                          (''prior-active session changed to exact Zellij safety status ''
                           @ status_string live) it, False), h1))
             else
               ((fail_item Unavailable ''planned resume --all item lacks a permitted exact Zellij safety status'' it,
                 False), h1)))"

text \<open>The waits for the window and the attachment of a started process, which is killed on failure.\<close>

definition await_launched ::
    "executor \<Rightarrow> outside \<Rightarrow> process \<Rightarrow> item \<Rightarrow> trace
     \<Rightarrow> (item \<times> (observed_window \<times> process) option) \<times> trace"
where
  "await_launched e w p it h =
     (case wait_for_window e w p h of
        (Inl (st, text), h1) \<Rightarrow> ((fail_item st text it, None), kill p h1)
      | (Inr v, h1) \<Rightarrow>
          (case wait_for_attachment e w p (it_session it) h1 of
             (Some (st, text), h2) \<Rightarrow> ((fail_item st text it, None), kill p h2)
           | (None, h2) \<Rightarrow> ((it, Some (v, p)), h2)))"

definition no_client_pid :: string where
  "no_client_pid = ''launcher does not provide a reliable client PID for Niri correlation''"

definition launch_item ::
    "executor \<Rightarrow> outside \<Rightarrow> gotime \<Rightarrow> item \<Rightarrow> trace
     \<Rightarrow> (item \<times> (observed_window \<times> process) option) \<times> trace"
where
  "launch_item e w observed_at it h =
     (case revalidate_all_candidate e w observed_at it h of
        ((it1, False), h1) \<Rightarrow> ((it1, None), h1)
      | ((it1, True), h1) \<Rightarrow>
          (case start_process w (kitty_launch_spec (on_environ w) (ex_launcher_command e) it1) h1 of
             (Inl err, h2) \<Rightarrow> ((fail_item Failed (''Kitty launch failed: '' @ err) it1, None), h2)
           | (Inr None, h2) \<Rightarrow> ((fail_item Failed no_client_pid it1, None), h2)
           | (Inr (Some p), h2) \<Rightarrow>
               if pr_pid p \<le> 0 \<or> \<not> pr_has_done p
               then ((fail_item Failed no_client_pid it1, None), kill p h2)
               else await_launched e w p it1 h2))"

definition revalidate_unique_launched_attachment ::
    "outside \<Rightarrow> item \<Rightarrow> observed_window \<Rightarrow> process \<Rightarrow> trace \<Rightarrow> (item \<times> bool) \<times> trace"
where
  "revalidate_unique_launched_attachment w it launched p h =
     (case all_attached_session_windows w (it_session it) h of
        (Inl err, h1) \<Rightarrow>
          ((fail_item Failed
              (''cannot safely revalidate exact session attachments before placement: '' @ err) it,
            False), kill p h1)
      | (Inr ms, h1) \<Rightarrow>
          if (case ms of [m] \<Rightarrow> ow_id m = ow_id launched \<and> ow_pid m = ow_pid launched | _ \<Rightarrow> False)
          then ((it, True), h1)
          else
            ((fail_item Failed
                (if 1 < length ms
                 then ''another exact session attachment appeared before placement; only the newly launched Kitty was terminated''
                 else ''the newly launched exact session attachment changed before placement; the launched Kitty was terminated'')
                it, False), kill p h1))"

section \<open>Placement\<close>

definition place_attached ::
    "executor \<Rightarrow> outside \<Rightarrow> item \<Rightarrow> observed_window \<Rightarrow> process option \<Rightarrow> bool \<Rightarrow> trace
     \<Rightarrow> (item \<times> bool) \<times> trace"
where
  "place_attached e w it v p new_window h =
     (case it_workspace it of
        None \<Rightarrow>
          if it_status it = Ready
          then ((fail_item Failed ''ready item has no resolved workspace target'' it, False),
                (case p of None \<Rightarrow> h | Some q \<Rightarrow> kill q h))
          else if new_window
          then ((it\<lparr>it_status := Degraded,
                    it_reason := (if it_reason it = No_Reason
                                  then Reason_Text ''session attached without a resolved workspace target''
                                  else it_reason it)\<rparr>, True), h)
          else ((it, True), h)
      | Some t \<Rightarrow>
          (case move_to_workspace w (ow_id v) t h of
             (Some err, h1) \<Rightarrow>
               ((fail_item Failed (''workspace move failed; attached terminal left open: '' @ err) it,
                 False), h1)
           | (None, h1) \<Rightarrow>
               (case wait_for_workspace e w p v (wt_id t) h1 of
                  (Some text, h2) \<Rightarrow>
                    ((fail_item Failed (text @ ''; attached terminal left open'') it, False), h2)
                | (None, h2) \<Rightarrow>
                    ((if new_window then it\<lparr>it_status := Restored, it_reason := No_Reason\<rparr> else it,
                      True), h2))))"

definition apply_optional_layout ::
    "executor \<Rightarrow> outside \<Rightarrow> item \<Rightarrow> int \<Rightarrow> trace \<Rightarrow> item \<times> trace"
where
  "apply_optional_layout e w it wid h =
     (case it_captured_placement it of
        None \<Rightarrow> (it\<lparr>it_layout_status := Layout_Not_Requested\<rparr>, h)
      | Some p \<Rightarrow>
          if pl_is_floating p = None \<and> \<not> snd (snd (preferred_size p))
          then (it\<lparr>it_layout_status := Layout_Not_Requested\<rparr>, h)
          else if Dep_Layout \<notin> set (ex_deps e)
          then (it\<lparr>it_layout_status := Layout_Unsupported,
                   it_layout_reason := ''optional Niri floating and sizing actions are unavailable''\<rparr>, h)
          else
            (case apply_layout w wid p h of
               (r, h1) \<Rightarrow>
                 (it\<lparr>it_layout_status := lr_status r, it_layout_reason := lr_reason r\<rparr>, h1)))"

section \<open>Applying a plan\<close>

definition already_open_item :: "observed_window \<Rightarrow> item \<Rightarrow> item" where
  "already_open_item v it =
     it\<lparr>it_status := Already_Open,
        it_reason := Reason_Text ''matching Zellij session is already open in exactly one verified Niri window'',
        it_current_window_key := ''w:'' @ ow_app_id v @ '':'' @ show_int (ow_id v),
        it_current_window_id := ow_id v\<rparr>"

text \<open>
  The window of an item before anything is launched: the mapped one, the one claimed for the
  same session, or the one found by a fresh observation; \<^term>\<open>Inl\<close> when the item has failed.
\<close>

definition find_window ::
    "outside \<Rightarrow> (string \<times> observed_window) list \<Rightarrow> observed_window option \<Rightarrow> item \<Rightarrow> trace
     \<Rightarrow> (item + observed_window option) \<times> trace"
where
  "find_window w claimed initial it h =
     (case initial of
        Some v \<Rightarrow> (Inr (Some v), h)
      | None \<Rightarrow>
          (case map_of claimed (it_session it) of
             Some v \<Rightarrow> (Inr (Some v), h)
           | None \<Rightarrow>
               (case session_windows w (it_session it) h of
                  (Inl err, h1) \<Rightarrow>
                    (Inl (fail_item Failed
                       (''cannot safely check for an already-open session: '' @ err) it), h1)
                | (Inr [], h1) \<Rightarrow> (Inr None, h1)
                | (Inr [v], h1) \<Rightarrow> (Inr (Some v), h1)
                | (Inr _, h1) \<Rightarrow> (Inl (fail_item Failed multiple_text it), h1))))"

text \<open>
  The window of an item and, when it is new, its process: the item is marked as open, or the
  terminal is launched and its attachment verified to be the only one.
\<close>

definition obtain_window ::
    "executor \<Rightarrow> outside \<Rightarrow> gotime \<Rightarrow> (string \<times> observed_window) list \<Rightarrow> observed_window option \<Rightarrow> item
     \<Rightarrow> trace \<Rightarrow> (item \<times> (observed_window \<times> process option) option) \<times> trace"
where
  "obtain_window e w observed_at claimed initial it h =
     (case find_window w claimed initial it h of
        (Inl it1, h1) \<Rightarrow> ((it1, None), h1)
      | (Inr (Some v), h1) \<Rightarrow> ((already_open_item v it, Some (v, None)), h1)
      | (Inr None, h1) \<Rightarrow>
          (case launch_item e w observed_at it h1 of
             ((it1, None), h2) \<Rightarrow> ((it1, None), h2)
           | ((it1, Some (v, p)), h2) \<Rightarrow>
               (case revalidate_unique_launched_attachment w it1 v p h2 of
                  ((it2, True), h3) \<Rightarrow> ((it2, Some (v, Some p)), h3)
                | ((it2, False), h3) \<Rightarrow> ((it2, None), h3))))"

text \<open>
  One iteration: the new item, the claimed sessions and the window to be ordered, if any.
\<close>

definition apply_item ::
    "executor \<Rightarrow> outside \<Rightarrow> gotime \<Rightarrow> (string \<times> observed_window) list
     \<Rightarrow> observed_window option \<Rightarrow> item \<Rightarrow> trace
     \<Rightarrow> (item \<times> (string \<times> observed_window) list \<times> observed_window option) \<times> trace"
where
  "apply_item e w observed_at claimed initial it h =
     (if \<not> actionable (it_status it) then ((it, claimed, None), h)
      else case obtain_window e w observed_at claimed initial it h of
          ((it1, None), h1) \<Rightarrow> ((it1, claimed, None), h1)
        | ((it1, Some (v, p)), h1) \<Rightarrow>
            (let claimed1 = AList.update (it_session it) v claimed in
             case place_attached e w it1 v p (p \<noteq> None) h1 of
               ((it2, False), h2) \<Rightarrow> ((it2, claimed1, None), h2)
             | ((it2, True), h2) \<Rightarrow>
                 (case apply_optional_layout e w it2 (ow_id v) h2 of
                    (it3, h3) \<Rightarrow> ((it3, claimed1, Some v), h3))))"

fun apply_items ::
    "executor \<Rightarrow> outside \<Rightarrow> gotime \<Rightarrow> (string \<times> observed_window) list \<Rightarrow> nat
     \<Rightarrow> (item \<times> observed_window option) list \<Rightarrow> trace
     \<Rightarrow> (item list \<times> (nat \<times> observed_window) list) \<times> trace"
where
  "apply_items e w observed_at claimed i [] h = (([], []), h)"
| "apply_items e w observed_at claimed i ((it, initial) # rest) h =
     (case apply_item e w observed_at claimed initial it h of
        ((it1, claimed1, target), h1) \<Rightarrow>
          (case apply_items e w observed_at claimed1 (Suc i) rest h1 of
             ((its, targets), h2) \<Rightarrow>
               ((it1 # its, (case target of None \<Rightarrow> targets | Some v \<Rightarrow> (i, v) # targets)), h2)))"

definition resummarize :: "plan \<Rightarrow> plan" where
  "resummarize p = summarize (p\<lparr>pn_summary := zero_summary\<rparr>)"

definition apply_plan ::
    "executor \<Rightarrow> outside \<Rightarrow> plan \<Rightarrow> trace \<Rightarrow> plan \<times> trace"
where
  "apply_plan e w p h =
     (case validate_executor e of
        Some err \<Rightarrow> (resummarize (p\<lparr>pn_items := map (fail_actionable err) (pn_items p)\<rparr>), h)
      | None \<Rightarrow>
          (case map_existing w (pn_items p) h of
             ((ms, focused_id), h1) \<Rightarrow>
               (case apply_items e w (pn_captured_at p) [] 0 ms h1 of
                  ((items, targets), h2) \<Rightarrow>
                    (case order_columns e w targets focused_id items h2 of
                       (items1, h3) \<Rightarrow> (resummarize (p\<lparr>pn_items := items1\<rparr>), h3)))))"

end
