(* ===== verification/Executor_Safety.thy ===== *)
theory Executor_Safety
  imports Executor
begin

text \<open>
  What the resume executor may do to the desktop, as predicates on its trace: what has been
  observed before a terminal is launched, which process may be killed, and what evidence there is
  for a window that is moved, sized or focused.
\<close>

section \<open>Descriptions\<close>

text \<open>Events that change nothing.\<close>

definition observing :: "event \<Rightarrow> bool" where
  "observing ev \<longleftrightarrow>
     (case ev of
        Windows_Seen _ \<Rightarrow> True | Probed _ _ _ \<Rightarrow> True | Exit_Polled _ _ \<Rightarrow> True | Slept _ \<Rightarrow> True
      | Catalog_Seen _ \<Rightarrow> True | Clock_Read _ \<Rightarrow> True | _ \<Rightarrow> False)"

text \<open>The first trace grown by observations to the second.\<close>

definition observes :: "trace \<Rightarrow> trace \<Rightarrow> bool" where
  "observes h h1 \<longleftrightarrow> (\<exists>ns. h1 = ns @ h \<and> list_all observing ns)"

text \<open>Every event of a trace satisfies a predicate of itself and of what happened before it.\<close>

fun trace_ok :: "(event \<Rightarrow> trace \<Rightarrow> bool) \<Rightarrow> trace \<Rightarrow> bool" where
  "trace_ok P [] = True"
| "trace_ok P (ev # h) = (P ev h \<and> trace_ok P h)"

text \<open>Some window of some observation satisfies a predicate.\<close>

definition saw :: "(observed_window \<Rightarrow> bool) \<Rightarrow> trace \<Rightarrow> bool" where
  "saw P h \<longleftrightarrow> list_ex (\<lambda>ev. case ev of Windows_Seen (Inr ws) \<Rightarrow> list_ex P ws | _ \<Rightarrow> False) h"

text \<open>A window that has been observed and whose process the probe has found attached to a session.\<close>

definition seen_attached :: "string \<Rightarrow> observed_window \<Rightarrow> trace \<Rightarrow> bool" where
  "seen_attached session v h \<longleftrightarrow> saw (\<lambda>u. u = v) h \<and> Probed (ow_pid v) session (Inr True) \<in> set h"

definition window_attached :: "string \<Rightarrow> int \<Rightarrow> trace \<Rightarrow> bool" where
  "window_attached session wid h \<longleftrightarrow> saw (\<lambda>v. ow_id v = wid \<and> seen_attached session v h) h"

definition negative_probe :: "string \<Rightarrow> event \<Rightarrow> bool" where
  "negative_probe session ev \<longleftrightarrow>
     (case ev of Probed _ s (Inr b) \<Rightarrow> s = session \<and> \<not> b | _ \<Rightarrow> False)"

text \<open>
  The last thing done was to observe the windows and to probe every terminal window of them for
  the session, with the answer that none is attached.
\<close>

definition none_attached :: "string \<Rightarrow> trace \<Rightarrow> bool" where
  "none_attached session h \<longleftrightarrow>
     (case dropWhile (negative_probe session) h of
        Windows_Seen (Inr ws) # _ \<Rightarrow>
          takeWhile (negative_probe session) h
          = rev (map (\<lambda>v. Probed (ow_pid v) session (Inr False))
                   (filter (\<lambda>v. is_terminal (ow_app_id v) \<and> probed_window v) ws))
      | _ \<Rightarrow> False)"

text \<open>
  The item may be launched: no window is attached to its session, and an item of \<open>resume --all\<close>
  has just been found admissible in the exact catalog.
\<close>

definition launch_authorised :: "executor \<Rightarrow> gotime \<Rightarrow> item \<Rightarrow> trace \<Rightarrow> bool" where
  "launch_authorised e observed_at it h \<longleftrightarrow>
     (if it_candidate_source it = No_Source then none_attached (it_session it) h
      else case h of
          Catalog_Seen (Inr cat) # h1 \<Rightarrow>
            zs_status (exact cat (it_session it)) = Active
            \<and> (it_zellij_status it = ''active''
               \<or> it_zellij_status it = ''dead_resurrectable''
                 \<and> it_candidate_source it = Prior_Active_Allow_List)
            \<and> none_attached (it_session it) h1
        | Clock_Read now # Catalog_Seen (Inr cat) # h1 \<Rightarrow>
            zs_status (exact cat (it_session it)) = Dead_Resurrectable
            \<and> it_zellij_status it = ''dead_resurrectable''
            \<and> it_candidate_source it = Prior_Active_Allow_List
            \<and> 0 < ex_recovery_max_age e \<and> \<not> is_zero_time observed_at
            \<and> checkpoint_age observed_at now \<le> ex_recovery_max_age e
            \<and> none_attached (it_session it) h1
        | _ \<Rightarrow> False)"

definition starts :: "event \<Rightarrow> bool" where
  "starts ev \<longleftrightarrow> (case ev of Started _ _ \<Rightarrow> True | _ \<Rightarrow> False)"

text \<open>The process of the latest launch, with nothing but observations since.\<close>

definition just_started :: "process \<Rightarrow> trace \<Rightarrow> bool" where
  "just_started p h \<longleftrightarrow>
     (case dropWhile observing h of
        Started _ (Inr (Some q)) # _ \<Rightarrow> q = p
      | _ \<Rightarrow> False)"

definition seen_focused :: "int \<Rightarrow> trace \<Rightarrow> bool" where
  "seen_focused wid h \<longleftrightarrow> saw (\<lambda>v. ow_id v = wid \<and> ow_is_focused v) h"

definition captured_column :: "item \<Rightarrow> int option" where
  "captured_column it =
     (case it_captured_placement it of None \<Rightarrow> None | Some p \<Rightarrow> pl_column p)"

definition permitted :: "executor \<Rightarrow> outside \<Rightarrow> gotime \<Rightarrow> item list \<Rightarrow> event \<Rightarrow> trace \<Rightarrow> bool" where
  "permitted e w observed_at its ev h \<longleftrightarrow>
     (case ev of
        Started spec _ \<Rightarrow>
          list_ex (\<lambda>it. actionable (it_status it) \<and> launch_authorised e observed_at it h
                       \<and> spec = kitty_launch_spec (on_environ w) (ex_launcher_command e) it) its
      | Killed p \<Rightarrow> just_started p h
      | Workspace_Moved wid t _ \<Rightarrow>
          list_ex (\<lambda>it. it_workspace it = Some t \<and> window_attached (it_session it) wid h) its
      | Layout_Asked wid p _ \<Rightarrow>
          list_ex (\<lambda>it. it_captured_placement it = Some p
                       \<and> window_attached (it_session it) wid h) its
      | Focus_Asked wid _ \<Rightarrow>
          list_ex (\<lambda>it. window_attached (it_session it) wid h) its \<or> seen_focused wid h
      | Column_Asked c _ \<Rightarrow>
          (case h of
             Windows_Seen (Inr ws) # _ \<Rightarrow>
               list_ex (\<lambda>v. ow_is_focused v
                 \<and> list_ex (\<lambda>it. captured_column it = Some c
                                 \<and> window_attached (it_session it) (ow_id v) h) its) ws
           | _ \<Rightarrow> False)
      | _ \<Rightarrow> True)"

text \<open>What executing a plan never changes of an item.\<close>

definition plan_view ::
    "item \<Rightarrow> string \<times> string \<times> workspace_target option \<times> placement option \<times> candidate_source \<times> string
      \<times> bool" where
  "plan_view it =
     (it_window_key it, it_session it, it_workspace it, it_captured_placement it,
      it_candidate_source it, it_zellij_status it, it_captured_column_occupied it)"

section \<open>Traces\<close>

lemma observes_refl [simp]: "observes h h"
  by (simp add: observes_def)

lemma observes_trans [trans]: "observes a b \<Longrightarrow> observes b c \<Longrightarrow> observes a c"
  by (auto simp: observes_def)

lemma observes_Cons: "observing ev \<Longrightarrow> observes h (ev # h)"
  by (auto simp: observes_def intro: exI [of _ "[ev]"])

lemma observes_set: "observes h h1 \<Longrightarrow> set h \<subseteq> set h1"
  by (auto simp: observes_def)

lemma trace_ok_append: "trace_ok P (later @ ev # earlier) \<Longrightarrow> P ev earlier"
  by (induction later) auto

lemma trace_ok_observes:
  assumes "observes h h1" and "\<And>ev g. observing ev \<Longrightarrow> P ev g"
  shows "trace_ok P h1 = trace_ok P h"
proof -
  obtain ns where ns: "h1 = ns @ h" "list_all observing ns"
    using assms(1) by (auto simp: observes_def)
  have "trace_ok P (ns @ h) = trace_ok P h"
    using ns(2) assms(2) by (induction ns) auto
  then show ?thesis using ns by simp
qed

lemma permitted_observing: "observing ev \<Longrightarrow> permitted e w t its ev h"
  by (cases ev) (simp_all add: observing_def permitted_def)

lemma permitted_observes:
  "observes h h1 \<Longrightarrow> trace_ok (permitted e w t its) h1 = trace_ok (permitted e w t its) h"
  by (rule trace_ok_observes) (simp_all add: permitted_observing)

lemma just_started_observes: "observes h h1 \<Longrightarrow> just_started p h1 = just_started p h"
proof -
  assume "observes h h1"
  then obtain ns where "h1 = ns @ h" "list_all observing ns" by (auto simp: observes_def)
  then show ?thesis by (simp add: just_started_def dropWhile_append list_all_iff)
qed

lemma saw_iff: "saw P h \<longleftrightarrow> (\<exists>ws v. Windows_Seen (Inr ws) \<in> set h \<and> v \<in> set ws \<and> P v)"
  unfolding saw_def
  by (induction h) (auto simp: list_ex_iff split: event.splits sum.splits)

lemma saw_mono: "saw P h \<Longrightarrow> set h \<subseteq> set h1 \<Longrightarrow> (\<And>v. P v \<Longrightarrow> Q v) \<Longrightarrow> saw Q h1"
  by (fastforce simp: saw_iff)

lemma seen_attached_iff:
  "seen_attached s v h \<longleftrightarrow>
     (\<exists>ws. Windows_Seen (Inr ws) \<in> set h \<and> v \<in> set ws) \<and> Probed (ow_pid v) s (Inr True) \<in> set h"
  by (auto simp: seen_attached_def saw_iff)

lemma window_attached_iff:
  "window_attached s wid h \<longleftrightarrow> (\<exists>v. ow_id v = wid \<and> seen_attached s v h)"
  by (auto simp: window_attached_def saw_iff seen_attached_iff)

lemma seen_attached_mono: "seen_attached s v h \<Longrightarrow> set h \<subseteq> set h1 \<Longrightarrow> seen_attached s v h1"
  by (auto simp: seen_attached_iff)

lemma seen_attached_observes: "seen_attached s v h \<Longrightarrow> observes h h1 \<Longrightarrow> seen_attached s v h1"
  using seen_attached_mono observes_set by blast

lemma window_attached_mono: "window_attached s i h \<Longrightarrow> set h \<subseteq> set h1 \<Longrightarrow> window_attached s i h1"
  by (auto simp: window_attached_iff intro: seen_attached_mono)

lemma window_attached_of_seen: "seen_attached s v h \<Longrightarrow> window_attached s (ow_id v) h"
  by (auto simp: window_attached_iff)

section \<open>Calls that only observe\<close>

lemma see_windows_observes: "observes h (snd (see_windows w h))"
  by (simp add: see_windows_def observes_Cons observing_def)

lemma probe_observes: "observes h (snd (probe w pid s h))"
  by (simp add: probe_def observes_Cons observing_def)

lemma poll_done_observes: "observes h (snd (poll_done w p h))"
  by (simp add: poll_done_def observes_Cons observing_def)

lemma sleep_observes: "observes h (snd (sleep w n h))"
  by (simp add: sleep_def Let_def observes_Cons observing_def)

lemma see_catalog_observes: "observes h (snd (see_catalog w h))"
  by (simp add: see_catalog_def observes_Cons observing_def)

lemma read_clock_observes: "observes h (snd (read_clock w h))"
  by (simp add: read_clock_def observes_Cons observing_def)

lemma see_windows_observes': "see_windows w h = (r, h1) \<Longrightarrow> observes h h1"
  using see_windows_observes [of h w] by simp

lemma probe_observes': "probe w pid s h = (r, h1) \<Longrightarrow> observes h h1"
  using probe_observes [of h w pid s] by simp

lemma poll_done_observes': "poll_done w p h = (r, h1) \<Longrightarrow> observes h h1"
  using poll_done_observes [of h w p] by simp

lemma poll_loop_observes:
  assumes body: "\<And>s h r h1. body s h = (r, h1) \<Longrightarrow> observes h h1"
  shows "observes h (snd (poll_loop body give_up w n s h))"
proof (induction n arbitrary: s h)
  case 0
  obtain r h1 where "body s h = (r, h1)" by (cases "body s h")
  moreover from body [OF this] have "observes h h1" .
  ultimately show ?case
    using observes_trans [OF \<open>observes h h1\<close> sleep_observes] by (cases r) auto
next
  case (Suc n)
  obtain r h1 where b: "body s h = (r, h1)" by (cases "body s h")
  then have h1: "observes h h1" by (rule body)
  show ?case
  proof (cases r)
    case (Inl a)
    then show ?thesis using b h1 by simp
  next
    case (Inr s1)
    obtain over h2 where sl: "sleep w (Suc n) h1 = (over, h2)" by (cases "sleep w (Suc n) h1")
    then have h2: "observes h h2"
      using observes_trans [OF h1] sleep_observes [of h1 w "Suc n"] by simp
    show ?thesis
      using b Inr sl h2 observes_trans [OF h2 Suc.IH [of h2 s1]] by (cases over) auto
  qed
qed

text \<open>A result of the loop comes from its body or from giving up.\<close>

lemma poll_loop_result:
  assumes "poll_loop body give_up w n s h = (r, h1)"
    and "\<And>s h r h1. body s h = (r, h1) \<Longrightarrow> observes h h1"
  shows "(\<exists>s0 h0. observes h h0 \<and> body s0 h0 = (Inl r, h1)) \<or> (\<exists>s0. r = give_up s0)"
  using assms(1)
proof (induction n arbitrary: s h)
  case 0
  then show ?case
    by (cases "body s h") (auto split: sum.splits prod.splits intro!: exI [of _ h])
next
  case (Suc n)
  obtain a h2 where b: "body s h = (a, h2)" by (cases "body s h")
  have h2: "observes h h2" using assms(2) [OF b] .
  show ?case
  proof (cases a)
    case (Inl x)
    then show ?thesis using Suc.prems b by (auto intro!: exI [of _ h])
  next
    case (Inr s1)
    obtain over h3 where sl: "sleep w (Suc n) h2 = (over, h3)" by (cases "sleep w (Suc n) h2")
    have h3: "observes h h3"
      using observes_trans [OF h2] sleep_observes [of h2 w "Suc n"] sl by simp
    show ?thesis
    proof (cases over)
      case True
      then show ?thesis using Suc.prems b Inr sl by auto
    next
      case False
      then have "poll_loop body give_up w n s1 h3 = (r, h1)" using Suc.prems b Inr sl by simp
      from Suc.IH [OF this] show ?thesis using observes_trans [OF h3] by blast
    qed
  qed
qed

section \<open>Waiting and probing\<close>

lemma window_step_observes: "window_step w p s h = (r, h1) \<Longrightarrow> observes h h1"
  by (auto simp: window_step_def split: prod.splits option.splits sum.splits list.splits if_splits
      dest!: see_windows_observes' poll_done_observes' intro: observes_trans)

lemma attachment_step_observes: "attachment_step w p session s h = (r, h1) \<Longrightarrow> observes h h1"
  by (auto simp: attachment_step_def
      split: prod.splits option.splits sum.splits bool.splits if_splits
      dest!: probe_observes' poll_done_observes' intro: observes_trans)

lemma observed_step_observes: "observed_step w p i j m d s h = (r, h1) \<Longrightarrow> observes h h1"
  by (auto simp: observed_step_def split: prod.splits option.splits sum.splits if_splits
      dest!: see_windows_observes' poll_done_observes' intro: observes_trans)

lemma transition_step_observes: "transition_step w i b x d s h = (r, h1) \<Longrightarrow> observes h h1"
  by (auto simp: transition_step_def observe_workspace_def split: prod.splits sum.splits if_splits
      dest!: see_windows_observes' intro: observes_trans)

lemma wait_for_window_observes: "wait_for_window e w p h = (r, h1) \<Longrightarrow> observes h h1"
  unfolding wait_for_window_def
  by (drule arg_cong [of _ _ snd], simp, erule subst, rule poll_loop_observes,
      erule window_step_observes)

lemma wait_for_attachment_observes: "wait_for_attachment e w p s h = (r, h1) \<Longrightarrow> observes h h1"
  unfolding wait_for_attachment_def
  by (drule arg_cong [of _ _ snd], simp, erule subst, rule poll_loop_observes,
      erule attachment_step_observes)

lemma wait_for_observed_observes: "wait_for_observed e w p i j m d h = (r, h1) \<Longrightarrow> observes h h1"
  unfolding wait_for_observed_def
  by (drule arg_cong [of _ _ snd], simp, erule subst, rule poll_loop_observes,
      erule observed_step_observes)

lemma wait_for_workspace_observes: "wait_for_workspace e w p v t h = (r, h1) \<Longrightarrow> observes h h1"
  by (simp add: wait_for_workspace_def wait_for_observed_observes)

lemma wait_for_workspace_transition_observes:
  "wait_for_workspace_transition e w i b x d h = (r, h1) \<Longrightarrow> observes h h1"
  unfolding wait_for_workspace_transition_def
  by (drule arg_cong [of _ _ snd], simp, erule subst, rule poll_loop_observes,
      erule transition_step_observes)

lemma observe_workspace_observes: "observe_workspace w i h = (r, h1) \<Longrightarrow> observes h h1"
  by (auto simp: observe_workspace_def split: prod.splits sum.splits dest!: see_windows_observes')

lemma wait_for_window_result:
  assumes "wait_for_window e w p h = (Inr v, h1)"
  shows "\<exists>ws. Windows_Seen (Inr ws) \<in> set h1 \<and> v \<in> set ws \<and> ow_pid v = pr_pid p \<and> 0 < ow_id v"
proof -
  from poll_loop_result [OF assms [unfolded wait_for_window_def]]
  obtain s0 h0 where "window_step w p s0 h0 = (Inl (Inr v), h1)"
    using window_step_observes by (fastforce split: option.splits)
  then obtain h2 ws where ws: "see_windows w h2 = (Inr ws, h1)"
      "filter (\<lambda>u. ow_pid u = pr_pid p) ws = [v]" "0 < ow_id v"
    by (auto simp: window_step_def split: prod.splits option.splits sum.splits list.splits if_splits)
  have "v \<in> set (filter (\<lambda>u. ow_pid u = pr_pid p) ws)" unfolding ws(2) by simp
  then have "v \<in> set ws \<and> ow_pid v = pr_pid p" by simp
  moreover have "Windows_Seen (Inr ws) \<in> set h1" using ws(1) by (auto simp: see_windows_def)
  ultimately show ?thesis using ws(3) by blast
qed

lemma wait_for_attachment_result:
  assumes "wait_for_attachment e w p session h = (None, h1)"
  shows "Probed (pr_pid p) session (Inr True) \<in> set h1"
proof -
  from poll_loop_result [OF assms [unfolded wait_for_attachment_def]]
  obtain s0 h0 where "attachment_step w p session s0 h0 = (Inl None, h1)"
    using attachment_step_observes by (fastforce split: option.splits)
  then obtain h2 h3 where "probe w (pr_pid p) session h2 = (Inr True, h3)" "poll_done w p h3 = (None, h1)"
    by (auto simp: attachment_step_def
        split: prod.splits option.splits sum.splits bool.splits if_splits)
  then show ?thesis by (auto simp: probe_def poll_done_def)
qed

lemma wait_for_workspace_result:
  assumes "wait_for_workspace e w p v t h = (None, h1)"
  shows "\<exists>ws u. Windows_Seen (Inr ws) \<in> set h1 \<and> u \<in> set ws \<and> ow_id u = ow_id v
     \<and> ow_workspace_id u = t"
proof -
  from poll_loop_result [OF assms [unfolded wait_for_workspace_def wait_for_observed_def]]
  obtain s0 h0 where
    "observed_step w p (ow_id v) (ow_pid v) (\<lambda>u. ow_workspace_id u = t) ''workspace movement'' s0 h0
       = (Inl None, h1)"
    using observed_step_observes by (fastforce split: option.splits)
  then obtain h2 ws where "see_windows w h2 = (Inr ws, h1)"
      "list_ex (\<lambda>u. ow_id u = ow_id v \<and> (ow_pid v \<le> 0 \<or> ow_pid u = ow_pid v) \<and> ow_workspace_id u = t) ws"
    by (auto simp: observed_step_def split: prod.splits option.splits sum.splits if_splits)
  then show ?thesis by (auto simp: see_windows_def list_ex_iff)
qed

lemma attached_among_observes: "attached_among w s vs h = (r, h1) \<Longrightarrow> observes h h1"
proof (induction vs arbitrary: h r)
  case Nil
  then show ?case by simp
next
  case (Cons v vs)
  then show ?case
    by (auto split: prod.splits sum.splits dest!: probe_observes' intro: observes_trans)
qed

lemma attached_among_sound:
  "attached_among w s vs h = (Inr ms, h1) \<Longrightarrow>
     set ms \<subseteq> set vs \<and> (\<forall>m \<in> set ms. Probed (ow_pid m) s (Inr True) \<in> set h1)"
proof (induction vs arbitrary: h ms)
  case Nil
  then show ?case by simp
next
  case (Cons v vs)
  obtain b h2 where p: "probe w (ow_pid v) s h = (Inr b, h2)"
    using Cons.prems by (auto split: prod.splits sum.splits)
  obtain ms1 where a: "attached_among w s vs h2 = (Inr ms1, h1)" "ms = (if b then v # ms1 else ms1)"
    using Cons.prems p by (auto split: prod.splits sum.splits)
  have "Probed (ow_pid v) s (Inr b) \<in> set h1"
    using p observes_set [OF attached_among_observes [OF a(1)]] by (auto simp: probe_def)
  then show ?case using Cons.IH [OF a(1)] a(2) by auto
qed

lemma attached_among_none:
  "attached_among w s vs h = (Inr [], h1) \<Longrightarrow>
     h1 = rev (map (\<lambda>v. Probed (ow_pid v) s (Inr False)) vs) @ h"
proof (induction vs arbitrary: h)
  case Nil
  then show ?case by simp
next
  case (Cons v vs)
  then show ?case
    by (fastforce simp: probe_def split: prod.splits sum.splits if_splits)
qed

lemma session_windows_from_observes: "session_windows_from w ws s h = (r, h1) \<Longrightarrow> observes h h1"
  by (simp add: session_windows_from_def attached_among_observes)

lemma session_windows_from_sound:
  assumes "session_windows_from w ws s h = (Inr ms, h1)" and "Windows_Seen (Inr ws) \<in> set h"
    and "m \<in> set ms"
  shows "seen_attached s m h1"
  using assms attached_among_sound [of w s _ h ms h1] attached_among_observes [of w s _ h _ h1]
    observes_set [of h h1]
  by (fastforce simp: session_windows_from_def seen_attached_iff)

lemma session_windows_observes: "session_windows w s h = (r, h1) \<Longrightarrow> observes h h1"
  by (auto simp: session_windows_def split: prod.splits sum.splits
      dest!: see_windows_observes' session_windows_from_observes intro: observes_trans)

lemma session_windows_sound:
  assumes "session_windows w s h = (Inr ms, h1)" and "m \<in> set ms"
  shows "seen_attached s m h1"
  using assms session_windows_from_sound
  by (fastforce simp: session_windows_def see_windows_def split: prod.splits sum.splits)

lemma session_windows_none:
  assumes "session_windows w s h = (Inr [], h1)"
  shows "none_attached s h1"
proof -
  obtain ws where seen: "on_windows w h = Inr ws"
    and from_ws: "session_windows_from w ws s (Windows_Seen (Inr ws) # h) = (Inr [], h1)"
    using assms by (auto simp: session_windows_def see_windows_def split: sum.splits)
  define ns where "ns = rev (map (\<lambda>v. Probed (ow_pid v) s (Inr False))
      (filter (\<lambda>v. is_terminal (ow_app_id v) \<and> probed_window v) ws))"
  have h1: "h1 = ns @ Windows_Seen (Inr ws) # h"
    using attached_among_none [OF from_ws [unfolded session_windows_from_def]] by (simp add: ns_def)
  have all: "list_all (negative_probe s) ns"
    by (auto simp: ns_def list_all_iff negative_probe_def)
  have stop: "\<not> negative_probe s (Windows_Seen (Inr ws))" by (simp add: negative_probe_def)
  have "dropWhile (negative_probe s) h1 = Windows_Seen (Inr ws) # h"
    and "takeWhile (negative_probe s) h1 = ns"
    using all stop by (simp_all add: h1 list_all_iff dropWhile_append takeWhile_append)
  then show ?thesis by (simp add: none_attached_def ns_def)
qed

lemma all_attached_observes: "all_attached_session_windows w s h = (r, h1) \<Longrightarrow> observes h h1"
  by (auto simp: all_attached_session_windows_def split: prod.splits sum.splits
      dest!: see_windows_observes' attached_among_observes intro: observes_trans)

section \<open>Items\<close>

lemma plan_view_update [simp]:
  "plan_view (it\<lparr>it_status := st\<rparr>) = plan_view it"
  "plan_view (it\<lparr>it_reason := r\<rparr>) = plan_view it"
  "plan_view (it\<lparr>it_layout_status := ls\<rparr>) = plan_view it"
  "plan_view (it\<lparr>it_layout_reason := lr\<rparr>) = plan_view it"
  by (simp_all add: plan_view_def)

lemma plan_view_fail_item [simp]: "plan_view (fail_item st t it) = plan_view it"
  by (simp add: plan_view_def fail_item_def)

lemma it_status_fail_item [simp]: "it_status (fail_item st t it) = st"
  by (simp add: fail_item_def)

lemma plan_view_already_open [simp]: "plan_view (already_open_item v it) = plan_view it"
  by (simp add: plan_view_def already_open_item_def)

lemma it_status_already_open [simp]: "it_status (already_open_item v it) = Already_Open"
  by (simp add: already_open_item_def)

lemma actionable_cases: "\<not> actionable Failed" "\<not> actionable Unavailable" "\<not> actionable Stale"
  by (simp_all add: actionable_def)

lemma revalidate_result:
  assumes "revalidate_all_candidate e w t it h = ((it1, b), h1)"
  shows "observes h h1"
    and "plan_view it1 = plan_view it"
    and "b \<Longrightarrow> it1 = it"
    and "b \<Longrightarrow> none_attached (it_session it) h \<Longrightarrow> launch_authorised e t it h1"
    and "\<not> b \<Longrightarrow> it_status it1 \<in> {Failed, Unavailable, Stale}"
  using assms
  by (auto simp: revalidate_all_candidate_def Let_def status_string_def launch_authorised_def
        see_catalog_def read_clock_def observing_def not_less
      split: if_splits sum.splits zstatus.splits prod.splits
      intro!: observes_Cons observes_trans [OF observes_Cons observes_Cons])

lemma wait_for_window_failure:
  assumes "wait_for_window e w p h = (Inl f, h1)"
  shows "fst f \<in> {Failed, Unavailable}"
proof -
  have "case fst (wait_for_window e w p h) of Inl f \<Rightarrow> fst f \<in> {Failed, Unavailable} | Inr _ \<Rightarrow> True"
    unfolding wait_for_window_def
    by (rule poll_loop_post)
       (auto simp: window_step_def
         split: option.splits prod.splits sum.splits list.splits if_splits)
  then show ?thesis using assms by simp
qed

lemma wait_for_attachment_failure:
  assumes "wait_for_attachment e w p s h = (Some f, h1)"
  shows "fst f \<in> {Failed, Unavailable}"
proof -
  have "case fst (wait_for_attachment e w p s h) of
      Some f \<Rightarrow> fst f \<in> {Failed, Unavailable} | None \<Rightarrow> True"
    unfolding wait_for_attachment_def
    by (rule poll_loop_post)
       (auto simp: attachment_step_def
         split: option.splits prod.splits sum.splits bool.splits if_splits)
  then show ?thesis using assms by simp
qed

section \<open>One item\<close>

text \<open>The permitted traces of a run, abbreviated.\<close>

abbreviation run_ok :: "executor \<Rightarrow> outside \<Rightarrow> gotime \<Rightarrow> item list \<Rightarrow> trace \<Rightarrow> bool" where
  "run_ok e w t its \<equiv> trace_ok (permitted e w t its)"

lemma run_ok_kill: "run_ok e w t its h \<Longrightarrow> just_started p h \<Longrightarrow> run_ok e w t its (kill p h)"
  by (simp add: kill_def permitted_def)

text \<open>What a launch may answer: a failed item, or the unchanged item with verified evidence.\<close>

definition launch_outcome ::
    "executor \<Rightarrow> outside \<Rightarrow> gotime \<Rightarrow> item list \<Rightarrow> item \<Rightarrow> trace
     \<Rightarrow> (item \<times> (observed_window \<times> process) option) \<times> trace \<Rightarrow> bool"
where
  "launch_outcome e w t its it h res \<longleftrightarrow>
     (case res of ((it1, r), h1) \<Rightarrow>
        run_ok e w t its h1 \<and> set h \<subseteq> set h1 \<and> plan_view it1 = plan_view it
        \<and> (case r of
             None \<Rightarrow> it_status it1 \<in> {Failed, Unavailable, Stale}
           | Some (v, p) \<Rightarrow>
               it1 = it \<and> seen_attached (it_session it) v h1 \<and> just_started p h1))"

lemma launch_outcome_failed:
  "run_ok e w t its h \<Longrightarrow> just_started p h \<Longrightarrow> st \<in> {Failed, Unavailable, Stale} \<Longrightarrow> set h0 \<subseteq> set h \<Longrightarrow>
   launch_outcome e w t its it h0 ((fail_item st text it, None), kill p h)"
  using run_ok_kill [of e w t its h p] by (auto simp: launch_outcome_def kill_def)

lemma launch_outcome_plain:
  "run_ok e w t its h \<Longrightarrow> st \<in> {Failed, Unavailable, Stale} \<Longrightarrow> set h0 \<subseteq> set h \<Longrightarrow>
   launch_outcome e w t its it h0 ((fail_item st text it, None), h)"
  by (auto simp: launch_outcome_def)

lemma await_launched_outcome:
  assumes ok: "run_ok e w t its h" and js: "just_started p h"
  shows "launch_outcome e w t its it h (await_launched e w p it h)"
proof -
  obtain x h1 where ww: "wait_for_window e w p h = (x, h1)" by (cases "wait_for_window e w p h")
  have ob: "observes h h1" using wait_for_window_observes [OF ww] .
  have ok1: "run_ok e w t its h1" and js1: "just_started p h1"
    using ok js ob by (simp_all add: permitted_observes just_started_observes)
  show ?thesis
  proof (cases x)
    case (Inl f)
    then show ?thesis
      using ww wait_for_window_failure [of e w p h f h1]
        launch_outcome_failed [OF ok1 js1 _ observes_set [OF ob]]
      by (auto simp: await_launched_def split: prod.split)
  next
    case (Inr v)
    obtain y h2 where wa: "wait_for_attachment e w p (it_session it) h1 = (y, h2)"
      by (cases "wait_for_attachment e w p (it_session it) h1")
    have ob2: "observes h1 h2" using wait_for_attachment_observes [OF wa] .
    have ok2: "run_ok e w t its h2" and js2: "just_started p h2" and sub: "set h \<subseteq> set h2"
      using ok1 js1 observes_set [OF ob] observes_set [OF ob2] ob2
      by (auto simp: permitted_observes just_started_observes)
    show ?thesis
    proof (cases y)
      case (Some f)
      then show ?thesis
        using ww wa Inr wait_for_attachment_failure [of e w p "it_session it" h1 f h2]
          launch_outcome_failed [OF ok2 js2 _ sub]
        by (auto simp: await_launched_def split: prod.split)
    next
      case None
      have "seen_attached (it_session it) v h2"
        using wait_for_window_result [OF ww [unfolded Inr]] wait_for_attachment_result [OF wa [unfolded None]]
          observes_set [OF ob2]
        by (auto simp: seen_attached_iff)
      then show ?thesis
        using ww wa Inr None ok2 js2 sub by (simp add: await_launched_def launch_outcome_def)
    qed
  qed
qed

lemma launch_outcome_mono:
  "launch_outcome e w t its it h1 res \<Longrightarrow> set h \<subseteq> set h1 \<Longrightarrow> launch_outcome e w t its it h res"
  by (auto simp: launch_outcome_def split: prod.splits)

lemma launch_item_outcome:
  assumes item: "it \<in> set its" "actionable (it_status it)"
    and ok: "run_ok e w t its h" and none: "none_attached (it_session it) h"
  shows "launch_outcome e w t its it h (launch_item e w t it h)"
proof -
  obtain it1 b h1 where rev: "revalidate_all_candidate e w t it h = ((it1, b), h1)"
    by (metis prod.collapse)
  have ob: "observes h h1" using revalidate_result(1) [OF rev] .
  have ok1: "run_ok e w t its h1" using ok ob by (simp add: permitted_observes)
  show ?thesis
  proof (cases b)
    case False
    then show ?thesis
      using rev ok1 observes_set [OF ob] revalidate_result(2,5) [OF rev]
      by (simp add: launch_item_def launch_outcome_def)
  next
    case True
    have it1: "it1 = it" and auth: "launch_authorised e t it h1"
      using revalidate_result(3,4) [OF rev] True none by blast+
    define spec where "spec = kitty_launch_spec (on_environ w) (ex_launcher_command e) it"
    define h2 where "h2 = Started spec (on_start w h1 spec) # h1"
    have ok2: "run_ok e w t its h2"
      using ok1 item auth by (auto simp: h2_def permitted_def list_ex_iff spec_def)
    have sub: "set h \<subseteq> set h2" using observes_set [OF ob] by (auto simp: h2_def)
    have js: "on_start w h1 spec = Inr (Some p) \<Longrightarrow> just_started p h2" for p
      by (simp add: just_started_def h2_def observing_def)
    have start: "start_process w spec h1 = (on_start w h1 spec, h2)"
      by (simp add: start_process_def h2_def)
    have launch: "launch_item e w t it h =
      (case on_start w h1 spec of
         Inl err \<Rightarrow> ((fail_item Failed (''Kitty launch failed: '' @ err) it, None), h2)
       | Inr None \<Rightarrow> ((fail_item Failed no_client_pid it, None), h2)
       | Inr (Some p) \<Rightarrow>
           if pr_pid p \<le> 0 \<or> \<not> pr_has_done p
           then ((fail_item Failed no_client_pid it, None), kill p h2)
           else await_launched e w p it h2)"
      using rev True it1 start by (simp add: launch_item_def spec_def split: sum.split option.split)
    show ?thesis
      unfolding launch
      using launch_outcome_plain [OF ok2 _ sub] launch_outcome_failed [OF ok2 js _ sub]
        launch_outcome_mono [OF await_launched_outcome [OF ok2 js] sub]
      by (simp split: sum.split option.split)
  qed
qed

lemma unique_attachment_outcome:
  assumes "run_ok e w t its h" and "just_started p h" and "seen_attached (it_session it) v h"
  shows "case revalidate_unique_launched_attachment w it v p h of ((it1, b), h1) \<Rightarrow>
    run_ok e w t its h1 \<and> set h \<subseteq> set h1 \<and> plan_view it1 = plan_view it
    \<and> (if b then it1 = it \<and> just_started p h1 else it_status it1 = Failed)"
proof -
  obtain r h1 where a: "all_attached_session_windows w (it_session it) h = (r, h1)"
    by (cases "all_attached_session_windows w (it_session it) h")
  have ob: "observes h h1" using all_attached_observes [OF a] .
  then have "run_ok e w t its h1" and js: "just_started p h1" and "set h \<subseteq> set h1"
    using assms observes_set [OF ob] by (simp_all add: permitted_observes just_started_observes)
  then show ?thesis
    using a run_ok_kill [of e w t its h1 p]
    by (cases r) (auto simp: revalidate_unique_launched_attachment_def kill_def)
qed

text \<open>The window of an item is verified evidence; without a process it was there before.\<close>

definition window_outcome ::
    "executor \<Rightarrow> outside \<Rightarrow> gotime \<Rightarrow> item list \<Rightarrow> item \<Rightarrow> trace
     \<Rightarrow> (item \<times> (observed_window \<times> process option) option) \<times> trace \<Rightarrow> bool"
where
  "window_outcome e w t its it h res \<longleftrightarrow>
     (case res of ((it1, r), h1) \<Rightarrow>
        run_ok e w t its h1 \<and> set h \<subseteq> set h1 \<and> plan_view it1 = plan_view it
        \<and> (case r of
             None \<Rightarrow> it_status it1 \<in> {Failed, Unavailable, Stale}
           | Some (v, None) \<Rightarrow> it_status it1 = Already_Open \<and> seen_attached (it_session it) v h1
           | Some (v, Some p) \<Rightarrow>
               it_status it1 = it_status it \<and> seen_attached (it_session it) v h1
               \<and> just_started p h1))"

lemma find_window_result:
  assumes find: "find_window w claimed initial it h = (r, h1)"
    and evidence: "\<And>v. initial = Some v \<Longrightarrow> seen_attached (it_session it) v h"
      "\<And>v. map_of claimed (it_session it) = Some v \<Longrightarrow> seen_attached (it_session it) v h"
  shows "observes h h1"
    and "case r of
        Inl it1 \<Rightarrow> plan_view it1 = plan_view it \<and> it_status it1 = Failed
      | Inr (Some v) \<Rightarrow> seen_attached (it_session it) v h1
      | Inr None \<Rightarrow> none_attached (it_session it) h1"
  using find evidence session_windows_sound [of w "it_session it" h _ h1]
    session_windows_none [of w "it_session it" h h1]
  by (fastforce simp: find_window_def dest: session_windows_observes
      split: option.splits prod.splits sum.splits list.splits)+

lemma obtain_window_outcome:
  assumes item: "it \<in> set its" "actionable (it_status it)"
    and ok: "run_ok e w t its h"
    and evidence: "\<And>v. initial = Some v \<Longrightarrow> seen_attached (it_session it) v h"
      "\<And>v. map_of claimed (it_session it) = Some v \<Longrightarrow> seen_attached (it_session it) v h"
  shows "window_outcome e w t its it h (obtain_window e w t claimed initial it h)"
proof -
  obtain r h1 where f: "find_window w claimed initial it h = (r, h1)"
    by (cases "find_window w claimed initial it h")
  note found = find_window_result [OF f evidence]
  have ok1: "run_ok e w t its h1" using ok found(1) by (simp add: permitted_observes)
  have sub1: "set h \<subseteq> set h1" using observes_set [OF found(1)] .
  show ?thesis
  proof (cases r)
    case (Inl it1)
    then show ?thesis using f found(2) ok1 sub1 by (simp add: obtain_window_def window_outcome_def)
  next
    case (Inr x)
    show ?thesis
    proof (cases x)
      case (Some v)
      then show ?thesis
        using Inr f found(2) ok1 sub1 by (simp add: obtain_window_def window_outcome_def)
    next
      case None
      then have none: "none_attached (it_session it) h1" using found(2) Inr by simp
      obtain it1 y h2 where l: "launch_item e w t it h1 = ((it1, y), h2)" by (metis prod.collapse)
      have out: "launch_outcome e w t its it h1 ((it1, y), h2)"
        using launch_item_outcome [OF item ok1 none] l by simp
      show ?thesis
      proof (cases y)
        case None
        then show ?thesis
          using Inr \<open>x = None\<close> f l out sub1
          by (auto simp: obtain_window_def window_outcome_def launch_outcome_def)
      next
        case (Some vp)
        obtain v p where vp: "vp = (v, p)" by (cases vp)
        obtain it2 b h3 where u: "revalidate_unique_launched_attachment w it1 v p h2 = ((it2, b), h3)"
          by (metis prod.collapse)
        show ?thesis
          using Inr \<open>x = None\<close> Some vp f l out sub1 u
            unique_attachment_outcome [of e w t its h2 p it1 v] seen_attached_mono [of _ v h2 h3]
          by (cases b) (auto simp: obtain_window_def window_outcome_def launch_outcome_def)
      qed
    qed
  qed
qed

definition seen_on_workspace :: "int \<Rightarrow> string \<Rightarrow> trace \<Rightarrow> bool" where
  "seen_on_workspace wid workspace_id h \<longleftrightarrow>
     saw (\<lambda>u. ow_id u = wid \<and> ow_workspace_id u = workspace_id) h"

lemma seen_on_workspace_mono: "seen_on_workspace i t h \<Longrightarrow> set h \<subseteq> set h1 \<Longrightarrow> seen_on_workspace i t h1"
  by (auto simp: seen_on_workspace_def saw_iff)

text \<open>A restored item: its window is attached and was seen on the target workspace.\<close>

definition restored_evidence :: "item \<Rightarrow> trace \<Rightarrow> bool" where
  "restored_evidence it h \<longleftrightarrow>
     (case it_workspace it of
        None \<Rightarrow> False
      | Some t \<Rightarrow>
          saw (\<lambda>v. seen_attached (it_session it) v h \<and> seen_on_workspace (ow_id v) (wt_id t) h) h)"

lemma restored_evidence_iff:
  "restored_evidence it h \<longleftrightarrow>
     (\<exists>t v. it_workspace it = Some t \<and> seen_attached (it_session it) v h
        \<and> seen_on_workspace (ow_id v) (wt_id t) h)"
  by (auto simp: restored_evidence_def saw_iff seen_attached_iff split: option.split)

lemma restored_evidence_mono:
  "restored_evidence it h \<Longrightarrow> set h \<subseteq> set h1 \<Longrightarrow> restored_evidence it h1"
  by (meson restored_evidence_iff seen_attached_mono seen_on_workspace_mono)

lemma place_attached_outcome:
  assumes ok: "run_ok e w t its h" and seen: "seen_attached (it_session it) v h"
    and item: "it0 \<in> set its" "plan_view it = plan_view it0"
    and proc: "case p of None \<Rightarrow> it_status it = Already_Open
                | Some q \<Rightarrow> just_started q h \<and> actionable (it_status it)"
  shows "case place_attached e w it v p (p \<noteq> None) h of ((it1, b), h1) \<Rightarrow>
    run_ok e w t its h1 \<and> set h \<subseteq> set h1 \<and> plan_view it1 = plan_view it
    \<and> (if b then it_status it1 \<in> {Restored, Degraded, Already_Open}
                \<and> (it_status it1 = Restored \<longrightarrow> restored_evidence it1 h1)
       else it_status it1 = Failed)"
proof (cases "it_workspace it")
  case None
  then show ?thesis
    using ok proc run_ok_kill [OF ok]
    by (cases p) (auto simp: place_attached_def kill_def actionable_def)
next
  case (Some tgt)
  define h1 where "h1 = Workspace_Moved (ow_id v) tgt (on_move w h (ow_id v) tgt) # h"
  have "it_workspace it0 = Some tgt" "it_session it0 = it_session it"
    using item(2) Some by (auto simp: plan_view_def)
  then have ok1: "run_ok e w t its h1"
    using ok item(1) window_attached_of_seen [OF seen]
    by (auto simp: h1_def permitted_def list_ex_iff)
  have sub1: "set h \<subseteq> set h1" by (auto simp: h1_def)
  have call: "move_to_workspace w (ow_id v) tgt h = (on_move w h (ow_id v) tgt, h1)"
    by (simp add: move_to_workspace_def h1_def)
  show ?thesis
  proof (cases "on_move w h (ow_id v) tgt")
    case (Some err)
    then show ?thesis
      using \<open>it_workspace it = Some tgt\<close> call ok1 sub1 by (simp add: place_attached_def)
  next
    case None
    obtain r h2 where wait: "wait_for_workspace e w p v (wt_id tgt) h1 = (r, h2)"
      by (cases "wait_for_workspace e w p v (wt_id tgt) h1")
    have ob: "observes h1 h2" using wait_for_workspace_observes [OF wait] .
    have ok2: "run_ok e w t its h2" and sub2: "set h \<subseteq> set h2"
      using ok1 sub1 observes_set [OF ob] ob by (auto simp: permitted_observes)
    have evidence: "restored_evidence it1 h2"
      if "r = None" "it_workspace it1 = Some tgt" "it_session it1 = it_session it" for it1
      using wait_for_workspace_result [OF wait [unfolded that(1)]] seen_attached_mono [OF seen sub2] that
      by (auto simp: restored_evidence_iff seen_on_workspace_def saw_iff)
    show ?thesis
      using \<open>it_workspace it = Some tgt\<close> call None wait ok2 sub2 evidence proc
      by (cases r; cases p) (auto simp: place_attached_def actionable_def)
  qed
qed

lemma apply_optional_layout_outcome:
  assumes ok: "run_ok e w t its h" and seen: "seen_attached (it_session it) v h"
    and item: "it0 \<in> set its" "plan_view it = plan_view it0"
  shows "case apply_optional_layout e w it (ow_id v) h of (it1, h1) \<Rightarrow>
    run_ok e w t its h1 \<and> set h \<subseteq> set h1 \<and> plan_view it1 = plan_view it
    \<and> it_status it1 = it_status it"
proof (cases "it_captured_placement it")
  case None
  then show ?thesis using ok by (simp add: apply_optional_layout_def)
next
  case (Some p)
  then have "it_captured_placement it0 = Some p" "it_session it0 = it_session it"
    using item(2) by (auto simp: plan_view_def)
  then have "run_ok e w t its (Layout_Asked (ow_id v) p r # h)" for r
    using ok item(1) window_attached_of_seen [OF seen] by (auto simp: permitted_def list_ex_iff)
  then show ?thesis
    using Some ok by (auto simp: apply_optional_layout_def apply_layout_def Let_def)
qed

text \<open>How an item may end.\<close>

definition settled :: "item \<Rightarrow> item \<Rightarrow> trace \<Rightarrow> bool" where
  "settled it it1 h \<longleftrightarrow>
     plan_view it1 = plan_view it
     \<and> (if actionable (it_status it)
        then it_status it1 \<in> {Restored, Already_Open, Degraded, Failed, Unavailable, Stale}
             \<and> (it_status it1 = Restored \<longrightarrow> restored_evidence it1 h)
        else it_status it1 = it_status it \<and> it_reason it1 = it_reason it)"

lemma settled_mono: "settled it it1 h \<Longrightarrow> set h \<subseteq> set h1 \<Longrightarrow> settled it it1 h1"
  by (auto simp: settled_def intro: restored_evidence_mono)

lemma plan_view_same:
  "plan_view a = plan_view b \<Longrightarrow>
   it_session a = it_session b \<and> it_workspace a = it_workspace b
   \<and> captured_column a = captured_column b"
  by (simp add: plan_view_def captured_column_def)

lemma restored_evidence_view:
  "plan_view a = plan_view b \<Longrightarrow> restored_evidence a h = restored_evidence b h"
  by (simp add: restored_evidence_iff plan_view_def)

definition claims_ok :: "(string \<times> observed_window) list \<Rightarrow> trace \<Rightarrow> bool" where
  "claims_ok claimed h \<longleftrightarrow> (\<forall>s v. map_of claimed s = Some v \<longrightarrow> seen_attached s v h)"

lemma claims_ok_mono: "claims_ok claimed h \<Longrightarrow> set h \<subseteq> set h1 \<Longrightarrow> claims_ok claimed h1"
  by (auto simp: claims_ok_def intro: seen_attached_mono)

lemma claims_ok_update: "claims_ok claimed h \<Longrightarrow> seen_attached s v h \<Longrightarrow> claims_ok (AList.update s v claimed) h"
  by (auto simp: claims_ok_def update_conv)

lemma apply_item_outcome:
  assumes item: "actionable (it_status it) \<Longrightarrow> it \<in> set its" and ok: "run_ok e w t its h"
    and initial: "\<And>v. initial = Some v \<Longrightarrow> seen_attached (it_session it) v h"
    and claims: "claims_ok claimed h"
  shows "case apply_item e w t claimed initial it h of ((it1, claimed1, target), h1) \<Rightarrow>
    run_ok e w t its h1 \<and> set h \<subseteq> set h1 \<and> settled it it1 h1 \<and> claims_ok claimed1 h1
    \<and> (\<forall>v. target = Some v \<longrightarrow> seen_attached (it_session it1) v h1)"
proof (cases "actionable (it_status it)")
  case False
  then show ?thesis using ok claims by (simp add: apply_item_def settled_def)
next
  case True
  have its: "it \<in> set its" using item True .
  obtain it1 r h1 where ob: "obtain_window e w t claimed initial it h = ((it1, r), h1)"
    by (metis prod.collapse)
  have "window_outcome e w t its it h (obtain_window e w t claimed initial it h)"
    by (rule obtain_window_outcome [OF its True ok])
       (simp_all add: initial claims [unfolded claims_ok_def, rule_format])
  then have out: "window_outcome e w t its it h ((it1, r), h1)" by (simp add: ob)
  show ?thesis
  proof (cases r)
    case None
    then show ?thesis
      using True ob out claims_ok_mono [OF claims]
      by (auto simp: apply_item_def window_outcome_def settled_def)
  next
    case (Some vp)
    obtain v p where vp: "vp = (v, p)" by (cases vp)
    have ok1: "run_ok e w t its h1" and sub1: "set h \<subseteq> set h1" and view1: "plan_view it1 = plan_view it"
      and seen1: "seen_attached (it_session it1) v h1"
      and proc: "case p of None \<Rightarrow> it_status it1 = Already_Open
                 | Some q \<Rightarrow> just_started q h1 \<and> actionable (it_status it1)"
      using out Some vp True plan_view_same [of it1 it]
      by (auto simp: window_outcome_def split: option.splits)
    obtain it2 b h2 where pl: "place_attached e w it1 v p (p \<noteq> None) h1 = ((it2, b), h2)"
      by (metis prod.collapse)
    note place = place_attached_outcome [OF ok1 seen1 its view1 proc, unfolded pl prod.case]
    have seen2: "seen_attached (it_session it2) v h2"
      using place seen_attached_mono [OF seen1, of h2] plan_view_same [of it2 it1] by auto
    have claims2: "claims_ok (AList.update (it_session it) v claimed) h2"
      using claims_ok_update [OF claims_ok_mono [OF claims, of h2]] place sub1 view1 seen2
        plan_view_same [of it2 it1] plan_view_same [OF view1] by auto
    obtain it3 h3 where la: "apply_optional_layout e w it2 (ow_id v) h2 = (it3, h3)"
      by (cases "apply_optional_layout e w it2 (ow_id v) h2")
    have view2: "plan_view it2 = plan_view it" using place view1 by auto
    note layout = apply_optional_layout_outcome [OF conjunct1 [OF place] seen2 its view2,
        unfolded la prod.case]
    show ?thesis
    proof (cases b)
      case False
      then show ?thesis
        using True ob Some vp pl place sub1 view2 claims2 by (auto simp: apply_item_def settled_def)
    next
      case True
      have "it_status it2 = Restored \<longrightarrow> restored_evidence it3 h3"
        using place True layout restored_evidence_mono [of it2 h2 h3] restored_evidence_view [of it3 it2]
        by auto
      moreover have "seen_attached (it_session it3) v h3"
        using seen_attached_mono [OF seen2, of h3] layout plan_view_same [of it3 it2] by auto
      ultimately show ?thesis
        using \<open>actionable (it_status it)\<close> True ob Some vp pl place la layout sub1 view2
          claims_ok_mono [OF claims2, of h3]
        by (auto simp: apply_item_def settled_def)
    qed
  qed
qed

end
