(* ===== verification/Executor_Run.thy ===== *)
theory Executor_Run
  imports Executor_Safety
begin

text \<open>
  Whole runs of the resume executor: the loop over the items, the ordering phase and \<open>Apply\<close>,
  with the properties of the executor that span them.
\<close>

section \<open>The loop over the items\<close>

definition target_seen :: "item list \<Rightarrow> trace \<Rightarrow> nat \<times> observed_window \<Rightarrow> bool" where
  "target_seen items h iv \<longleftrightarrow>
     fst iv < length items \<and> seen_attached (it_session (items ! fst iv)) (snd iv) h"

lemma apply_items_outcome:
  assumes "list_all (\<lambda>(it, initial).
        (actionable (it_status it) \<longrightarrow> it \<in> set its)
        \<and> (\<forall>v. initial = Some v \<longrightarrow> seen_attached (it_session it) v h)) ms"
    and "run_ok e w t its h" and "claims_ok claimed h" and "length pre = i"
  shows "case apply_items e w t claimed i ms h of ((items, targets), h1) \<Rightarrow>
    run_ok e w t its h1 \<and> set h \<subseteq> set h1
    \<and> list_all2 (\<lambda>m it1. settled (fst m) it1 h1) ms items
    \<and> list_all (target_seen (pre @ items) h1) targets"
  using assms
proof (induction ms arbitrary: claimed i h pre)
  case Nil
  then show ?case by simp
next
  case (Cons m ms)
  obtain it initial where m: "m = (it, initial)" by (cases m)
  obtain it1 claimed1 target h1 where item:
      "apply_item e w t claimed initial it h = ((it1, claimed1, target), h1)"
    by (metis prod.collapse)
  have out: "run_ok e w t its h1 \<and> set h \<subseteq> set h1 \<and> settled it it1 h1 \<and> claims_ok claimed1 h1
      \<and> (\<forall>v. target = Some v \<longrightarrow> seen_attached (it_session it1) v h1)"
    using apply_item_outcome [of it its e w t h initial claimed] Cons.prems item m by simp
  obtain items targets h2 where rest:
      "apply_items e w t claimed1 (Suc i) ms h1 = ((items, targets), h2)"
    by (metis prod.collapse)
  have "list_all (\<lambda>(it, initial).
        (actionable (it_status it) \<longrightarrow> it \<in> set its)
        \<and> (\<forall>v. initial = Some v \<longrightarrow> seen_attached (it_session it) v h1)) ms"
    using Cons.prems(1) out seen_attached_mono [of _ _ h h1]
    by (fastforce simp: list_all_iff)
  from Cons.IH [OF this, of claimed1 "pre @ [it1]" "Suc i"] Cons.prems(4) out rest
  have IH: "run_ok e w t its h2 \<and> set h1 \<subseteq> set h2
      \<and> list_all2 (\<lambda>m it1. settled (fst m) it1 h2) ms items
      \<and> list_all (target_seen (pre @ it1 # items) h2) targets"
    by simp
  have "target = Some v \<Longrightarrow> target_seen (pre @ it1 # items) h2 (i, v)" for v
    using out IH Cons.prems(4) seen_attached_mono [of _ v h1 h2] by (auto simp: target_seen_def nth_append)
  then show ?case
    using m item rest out IH settled_mono [of it it1 h1 h2] by (auto split: option.split)
qed

section \<open>Mapping existing windows\<close>

lemma map_item_outcome:
  assumes "Windows_Seen (Inr ws) \<in> set h"
  shows "case map_item w ws it h of ((it1, initial), h1) \<Rightarrow>
    observes h h1 \<and> plan_view it1 = plan_view it
    \<and> (it1 = it \<or> actionable (it_status it) \<and> it_status it1 = Failed)
    \<and> (\<forall>v. initial = Some v \<longrightarrow> seen_attached (it_session it) v h1)"
proof -
  obtain r h1 where s: "session_windows_from w ws (it_session it) h = (r, h1)"
    by (cases "session_windows_from w ws (it_session it) h")
  show ?thesis
    using s session_windows_from_observes [OF s] session_windows_from_sound [of w ws "it_session it" h _ h1] assms
    by (auto simp: map_item_def split: sum.split list.split)
qed

text \<open>What the mapping leaves of an item.\<close>

definition mapped_item :: "item \<Rightarrow> item \<times> observed_window option \<Rightarrow> trace \<Rightarrow> bool" where
  "mapped_item it m h \<longleftrightarrow>
     plan_view (fst m) = plan_view it
     \<and> (fst m = it \<or> actionable (it_status it) \<and> it_status (fst m) = Failed)
     \<and> (\<forall>v. snd m = Some v \<longrightarrow> seen_attached (it_session it) v h)"

lemma mapped_item_mono: "mapped_item it m h \<Longrightarrow> set h \<subseteq> set h1 \<Longrightarrow> mapped_item it m h1"
  by (auto simp: mapped_item_def intro: seen_attached_mono)

lemma map_items_outcome:
  assumes "Windows_Seen (Inr ws) \<in> set h"
  shows "case map_items w ws items h of (ms, h1) \<Rightarrow>
    observes h h1 \<and> list_all2 (\<lambda>it m. mapped_item it m h1) items ms"
  using assms
proof (induction items arbitrary: h)
  case Nil
  then show ?case by simp
next
  case (Cons it items)
  obtain m h1 where m: "map_item w ws it h = (m, h1)" by (cases "map_item w ws it h")
  obtain ms h2 where ms: "map_items w ws items h1 = (ms, h2)" by (cases "map_items w ws items h1")
  have "observes h h1" "mapped_item it m h1"
    using map_item_outcome [OF Cons.prems, of it w] m
    by (auto simp: mapped_item_def split: prod.splits)
  moreover have "observes h1 h2 \<and> list_all2 (\<lambda>it m. mapped_item it m h2) items ms"
    using Cons.IH [of h1] Cons.prems observes_set [OF \<open>observes h h1\<close>] ms by auto
  ultimately show ?case
    using m ms observes_trans [of h h1 h2] mapped_item_mono [of it m h1 h2] observes_set [of h1 h2]
    by simp
qed

lemma seen_focused_foldl:
  "foldl (\<lambda>focused v. if ow_is_focused v then ow_id v else focused) z ws = z
   \<or> (\<exists>v \<in> set ws. ow_is_focused v
        \<and> ow_id v = foldl (\<lambda>focused v. if ow_is_focused v then ow_id v else focused) z ws)"
  by (induction ws arbitrary: z) (simp_all, metis)

lemma map_existing_outcome:
  "case map_existing w items h of ((ms, focused_id), h1) \<Rightarrow>
     observes h h1 \<and> list_all2 (\<lambda>it m. mapped_item it m h1) items ms
     \<and> (focused_id \<le> 0 \<or> seen_focused focused_id h1)"
proof (cases "on_windows w h")
  case (Inl err)
  have "list_all2 (\<lambda>it m. mapped_item it m h1) items
      (map (\<lambda>it. (fail_actionable msg it, None)) items)" for msg h1
    by (auto simp: list_all2_map2 list.rel_refl mapped_item_def fail_actionable_def
        intro!: list.rel_refl)
  then show ?thesis
    using Inl
    by (auto simp: map_existing_def see_windows_def observing_def intro!: observes_Cons)
next
  case (Inr ws)
  define h1 where "h1 = Windows_Seen (Inr ws) # h"
  have ob1: "observes h h1" by (auto simp: h1_def observing_def intro: observes_Cons)
  obtain ms h2 where ms: "map_items w ws items h1 = (ms, h2)" by (cases "map_items w ws items h1")
  have out: "observes h1 h2 \<and> list_all2 (\<lambda>it m. mapped_item it m h2) items ms"
    using map_items_outcome [of ws h1 items w] ms by (simp add: h1_def)
  have "Windows_Seen (Inr ws) \<in> set h2" using out observes_set by (fastforce simp: h1_def)
  then have "focused_window ws \<le> 0 \<or> seen_focused (focused_window ws) h2"
    using seen_focused_foldl [of 0 ws] by (auto simp: focused_window_def seen_focused_def saw_iff)
  then show ?thesis
    using Inr ms out observes_trans [OF ob1]
    by (simp add: map_existing_def see_windows_def flip: h1_def)
qed

section \<open>The ordering phase\<close>

text \<open>A target is backed by an item of the plan with its column and by an attached window.\<close>

definition target_ok :: "item list \<Rightarrow> trace \<Rightarrow> column_target \<Rightarrow> bool" where
  "target_ok its h t \<longleftrightarrow>
     list_ex (\<lambda>it. captured_column it = Some (ct_column t)
       \<and> seen_attached (it_session it) (ct_window t) h) its"

lemma target_ok_mono: "target_ok its h t \<Longrightarrow> set h \<subseteq> set h1 \<Longrightarrow> target_ok its h1 t"
  by (auto simp: target_ok_def list_ex_iff intro: seen_attached_mono)

lemma list_all_target_ok_mono:
  "list_all (target_ok its h) ts \<Longrightarrow> set h \<subseteq> set h1 \<Longrightarrow> list_all (target_ok its h1) ts"
  by (auto simp: list_all_iff intro: target_ok_mono)

text \<open>A step of the ordering phase keeps the trace permitted and only extends it.\<close>

definition grows_ok :: "executor \<Rightarrow> outside \<Rightarrow> gotime \<Rightarrow> item list \<Rightarrow> trace \<Rightarrow> trace \<Rightarrow> bool" where
  "grows_ok e w t its h h1 \<longleftrightarrow> (run_ok e w t its h \<longrightarrow> run_ok e w t its h1) \<and> set h \<subseteq> set h1"

lemma grows_ok_refl [simp]: "grows_ok e w t its h h"
  by (simp add: grows_ok_def)

lemma grows_ok_trans [trans]:
  "grows_ok e w t its a b \<Longrightarrow> grows_ok e w t its b c \<Longrightarrow> grows_ok e w t its a c"
  by (auto simp: grows_ok_def)

lemma grows_ok_observes: "observes a b \<Longrightarrow> grows_ok e w t its a b"
  using observes_set by (auto simp: grows_ok_def permitted_observes)

lemma grows_ok_event: "permitted e w t its ev h \<Longrightarrow> grows_ok e w t its h (ev # h)"
  by (auto simp: grows_ok_def)

lemma focus_target_grows:
  assumes "list_ex (\<lambda>it. window_attached (it_session it) wid h) its"
  shows "grows_ok e w t its h (snd (focus_target e w i wid x h))"
proof -
  obtain r h1 where ow: "observe_workspace w i h = (r, h1)" by (cases "observe_workspace w i h")
  have ob: "observes h h1" using observe_workspace_observes [OF ow] .
  have att: "list_ex (\<lambda>it. window_attached (it_session it) wid h1) its"
    using assms observes_set [OF ob] by (auto simp: list_ex_iff intro: window_attached_mono)
  define h2 where "h2 = Focus_Asked wid (on_focus w h1 wid) # h1"
  have g2: "grows_ok e w t its h h2"
    using grows_ok_trans [OF grows_ok_observes [OF ob] grows_ok_event] att
    by (auto simp: h2_def permitted_def)
  have call: "focus_window w wid h1 = (on_focus w h1 wid, h2)"
    by (simp add: focus_window_def h2_def)
  show ?thesis
    using ow grows_ok_observes [OF ob] g2
      grows_ok_trans [OF g2 grows_ok_observes [OF wait_for_workspace_transition_observes]]
    by (auto simp: focus_target_def call split: sum.split option.split prod.split)
qed

lemma move_target_grows:
  assumes "list_ex (\<lambda>it. captured_column it = Some c \<and> window_attached (it_session it) wid h) its"
  shows "grows_ok e w t its h (snd (move_target e w i wid c x h))"
proof -
  obtain r h1 where ow: "observe_workspace w i h = (r, h1)" by (cases "observe_workspace w i h")
  have ob: "observes h h1" using observe_workspace_observes [OF ow] .
  have att: "list_ex (\<lambda>it. captured_column it = Some c \<and> window_attached (it_session it) wid h1) its"
    using assms observes_set [OF ob] by (auto simp: list_ex_iff intro: window_attached_mono)
  define h2 where "h2 = Column_Asked c (on_column w h1 c) # h1"
  have call: "move_column w c h1 = (on_column w h1 c, h2)"
    by (simp add: move_column_def h2_def)
  have g2: "grows_ok e w t its h h2" if r: "r = Inr before" and m: "expected_column_move before wid c = Inr after"
    for before after
  proof -
    obtain ws where ws: "h1 = Windows_Seen (Inr ws) # h" "set before \<subseteq> set ws"
      using ow r by (auto simp: observe_workspace_def see_windows_def split: sum.splits)
    obtain v where v: "v \<in> set before" "ow_id v = wid" "ow_is_focused v"
      using m by (auto simp: expected_column_move_def find_Some_iff in_set_conv_nth
          split: option.splits if_splits)
    have "permitted e w t its (Column_Asked c (on_column w h1 c)) h1"
      using ws v att by (auto simp: permitted_def list_ex_iff)
    from grows_ok_trans [OF grows_ok_observes [OF ob] grows_ok_event [OF this]]
    show ?thesis by (simp add: h2_def)
  qed
  show ?thesis
    using ow grows_ok_observes [OF ob] g2
      grows_ok_trans [OF g2 grows_ok_observes [OF wait_for_workspace_transition_observes]]
    by (auto simp: move_target_def call split: sum.split option.split prod.split)
qed

lemma order_pass_grows:
  assumes "list_all (target_ok its h) ts"
  shows "grows_ok e w t its h (snd (order_pass e w i ts x moved h))"
  using assms
proof (induction ts arbitrary: x moved h)
  case Nil
  then show ?case by simp
next
  case (Cons tg ts)
  define wid where "wid = ow_id (ct_window tg)"
  have backed: "list_ex (\<lambda>it. captured_column it = Some (ct_column tg)
      \<and> window_attached (it_session it) wid h) its"
    using Cons.prems window_attached_of_seen by (fastforce simp: target_ok_def list_ex_iff wid_def)
  obtain r h1 where f: "focus_target e w i wid x h = (r, h1)" by (cases "focus_target e w i wid x h")
  have g1: "grows_ok e w t its h h1"
    using focus_target_grows [of wid h its e w t i x] backed f by (auto simp: list_ex_iff)
  have backed1: "list_ex (\<lambda>it. captured_column it = Some (ct_column tg)
      \<and> window_attached (it_session it) wid h1) its"
    using backed g1 by (auto simp: list_ex_iff grows_ok_def intro: window_attached_mono)
  have next_pass: "grows_ok e w t its h (snd (order_pass e w i ts y m g))"
    if "grows_ok e w t its h g" for y m g
  proof -
    have "list_all (target_ok its g) ts"
      using Cons.prems list_all_target_ok_mono [of its h ts g] that by (simp add: grows_ok_def)
    from grows_ok_trans [OF that Cons.IH [OF this]] show ?thesis .
  qed
  show ?case
    using f g1 next_pass [of h] next_pass grows_ok_trans [OF g1 move_target_grows [OF backed1]]
    by (auto simp flip: wid_def split: sum.split prod.split) (metis grows_ok_refl snd_conv)+
qed

lemma order_passes_grows:
  assumes "list_all (target_ok its h) ts"
  shows "grows_ok e w t its h (snd (order_passes e w i ts r x h))"
  using assms
proof (induction r arbitrary: x h)
  case 0
  then show ?case by simp
next
  case (Suc r)
  obtain y h1 where p: "order_pass e w i ts x False h = (y, h1)"
    by (cases "order_pass e w i ts x False h")
  have g: "grows_ok e w t its h h1" using order_pass_grows [OF Suc.prems, of e w t i x False] p by simp
  then have "list_all (target_ok its h1) ts"
    using Suc.prems list_all_target_ok_mono [of its h ts h1] by (simp add: grows_ok_def)
  from grows_ok_trans [OF g Suc.IH [OF this]] show ?case
    using p g by (auto split: sum.split prod.split)
qed

lemma order_group_grows:
  assumes "list_all (target_ok its h) ts"
  shows "grows_ok e w t its h (snd (order_group e w i ts h))"
proof -
  obtain r h1 where ow: "observe_workspace w i h = (r, h1)" by (cases "observe_workspace w i h")
  have g1: "grows_ok e w t its h h1" using grows_ok_observes [OF observe_workspace_observes [OF ow]] .
  then have ok1: "list_all (target_ok its h1) ts"
    using assms list_all_target_ok_mono [of its h ts h1] by (simp add: grows_ok_def)
  have final: "grows_ok e w t its g (snd (final_check w i ts x g))" for x g
    using grows_ok_observes [OF observe_workspace_observes]
    by (auto simp: final_check_def split: sum.split prod.split option.split)
  obtain y h2 where p: "\<And>x. r = Inr x \<Longrightarrow> order_passes e w i ts (length ts + 1) x h1 = (y, h2)"
    by (cases r) (simp, metis prod.collapse sum.inject(2))
  have g2: "grows_ok e w t its h h2" if "r = Inr x" for x
    using grows_ok_trans [OF g1 order_passes_grows [OF ok1, of e w t i "length ts + 1" x]] p [OF that]
    by simp
  show ?thesis
    using ow g1 g2 p grows_ok_trans [OF g2 final]
    by (cases r; cases y) (simp_all add: order_group_def)
qed

text \<open>Items that differ in their layout result only.\<close>

definition same_but_layout :: "item \<Rightarrow> item \<Rightarrow> bool" where
  "same_but_layout a b \<longleftrightarrow>
     a\<lparr>it_layout_status := it_layout_status b, it_layout_reason := it_layout_reason b\<rparr> = b"

lemma same_but_layout_refl [simp]: "same_but_layout a a"
  by (simp add: same_but_layout_def)

lemma same_but_layout_trans: "same_but_layout a b \<Longrightarrow> same_but_layout b c \<Longrightarrow> same_but_layout a c"
  by (cases a; cases b; cases c) (auto simp: same_but_layout_def)

lemma same_but_layout_mark: "same_but_layout a (mark_column_result st msg a)"
  by (cases a) (auto simp: same_but_layout_def mark_column_result_def Let_def)

lemma same_but_layout_fields:
  "same_but_layout a b \<Longrightarrow> plan_view b = plan_view a \<and> it_status b = it_status a
     \<and> it_reason b = it_reason a"
  by (cases a; cases b) (auto simp: same_but_layout_def plan_view_def)

abbreviation same_items :: "item list \<Rightarrow> item list \<Rightarrow> bool" where
  "same_items \<equiv> list_all2 same_but_layout"

lemma same_items_refl [simp]: "same_items xs xs"
  by (simp add: list.rel_refl)

lemma same_items_trans: "same_items xs ys \<Longrightarrow> same_items ys zs \<Longrightarrow> same_items xs zs"
  by (rule list_all2_trans [OF same_but_layout_trans])

lemma same_items_mark_one: "same_items xs (xs[i := mark_column_result st msg (xs ! i)])"
  by (cases "i < length xs")
     (auto simp: list_all2_conv_all_nth nth_list_update same_but_layout_mark)

lemma same_items_mark_targets: "same_items xs (mark_targets st msg is xs)"
  by (induction "is" arbitrary: xs) (auto intro: same_items_trans [OF same_items_mark_one])

lemma order_groups_outcome:
  assumes "list_all (target_ok its h) ts"
  shows "case order_groups e w ts items h of (items1, h1) \<Rightarrow>
    grows_ok e w t its h h1 \<and> same_items items items1"
  using assms
proof (induction e w ts items h rule: order_groups.induct)
  case (1 e w items h)
  then show ?case by (simp add: order_groups.simps)
next
  case (2 e w tg ts items h)
  define i where "i = wt_id (ct_workspace tg)"
  define gr where "gr = tg # takeWhile (same_group tg) ts"
  define rest where "rest = dropWhile (same_group tg) ts"
  define indices where "indices = map ct_item gr"
  define stacked where "stacked = stacked_reason [] gr"
  note defs = i_def gr_def rest_def indices_def stacked_def
  have gr_ok: "list_all (target_ok its h) gr" and rest_ok: "list_all (target_ok its h) rest"
    using "2.prems" by (auto simp: list_all_iff defs dest: set_takeWhileD set_dropWhileD)
  show ?case
  proof (cases "stacked \<noteq> []")
    case True
    have "case order_groups e w rest (mark_targets Layout_Unsupported stacked indices items) h of
        (items1, h1) \<Rightarrow> grows_ok e w t its h h1
          \<and> same_items (mark_targets Layout_Unsupported stacked indices items) items1"
      using "2.IH"(1) [OF i_def gr_def rest_def indices_def stacked_def True] rest_ok by simp
    then show ?thesis
      using True same_items_trans [OF same_items_mark_targets]
      by (auto simp: order_groups.simps(2) Let_def simp flip: defs)
  next
    case False
    obtain res h1 where og: "order_group e w i gr h = (res, h1)" by (cases "order_group e w i gr h")
    have g1: "grows_ok e w t its h h1" using order_group_grows [OF gr_ok, of e w t i] og by simp
    then have rest1: "list_all (target_ok its h1) rest"
      using rest_ok list_all_target_ok_mono [of its h rest h1] by (simp add: grows_ok_def)
    define items0 where "items0 = (case res of
        Some err \<Rightarrow> mark_targets Layout_Degraded (''workspace column ordering failed: '' @ err) indices items
      | None \<Rightarrow> mark_targets Layout_Applied [] indices items)"
    have same0: "same_items items items0"
      by (simp add: items0_def same_items_mark_targets split: option.split)
    have step: "order_groups e w (tg # ts) items h = order_groups e w rest items0 h1"
      using False og by (simp add: order_groups.simps(2) Let_def items0_def defs split: option.split)
    have "case order_groups e w rest items0 h1 of (items1, h2) \<Rightarrow>
        grows_ok e w t its h1 h2 \<and> same_items items0 items1"
    proof (cases res)
      case None
      then show ?thesis
        using "2.IH"(2) [OF i_def gr_def rest_def indices_def stacked_def False og [symmetric] None] rest1
        by (simp add: items0_def)
    next
      case (Some err)
      then show ?thesis
        using "2.IH"(3) [OF i_def gr_def rest_def indices_def stacked_def False og [symmetric] Some] rest1
        by (simp add: items0_def)
    qed
    then show ?thesis
      unfolding step using grows_ok_trans [OF g1] same_items_trans [OF same0] by auto
  qed
qed

text \<open>Item lists with the same fixed fields.\<close>

abbreviation same_views :: "item list \<Rightarrow> item list \<Rightarrow> bool" where
  "same_views \<equiv> list_all2 (\<lambda>a b. plan_view b = plan_view a)"

lemma same_items_views: "same_items xs ys \<Longrightarrow> same_views xs ys"
  by (erule list_all2_mono) (simp add: same_but_layout_fields)

lemma same_views_trans: "same_views xs ys \<Longrightarrow> same_views ys zs \<Longrightarrow> same_views xs zs"
  by (rule list_all2_trans) simp_all

lemma same_views_nth:
  "same_views xs ys \<Longrightarrow> n < length ys \<Longrightarrow>
   n < length xs \<and> it_session (ys ! n) = it_session (xs ! n)
   \<and> captured_column (ys ! n) = captured_column (xs ! n)"
  using plan_view_same [of "ys ! n" "xs ! n"] by (simp add: list_all2_conv_all_nth)

lemma target_seen_same: "same_views xs ys \<Longrightarrow> target_seen xs h iv \<Longrightarrow> target_seen ys h iv"
  using same_views_nth [of xs ys "fst iv"] by (simp add: target_seen_def list_all2_lengthD)

lemma target_ok_same:
  assumes "same_views xs ys" and "target_ok ys h t"
  shows "target_ok xs h t"
proof -
  obtain n where n: "n < length ys" "captured_column (ys ! n) = Some (ct_column t)"
      "seen_attached (it_session (ys ! n)) (ct_window t) h"
    using assms(2) by (auto simp: target_ok_def list_ex_iff in_set_conv_nth)
  then show ?thesis
    using same_views_nth [OF assms(1) n(1)]
    by (auto simp: target_ok_def list_ex_iff intro!: bexI [of _ "xs ! n"])
qed

lemma collect_ordered_outcome:
  assumes "list_all (target_seen items h) targets"
  shows "case collect_ordered targets items of (ts, items1) \<Rightarrow>
    same_items items items1 \<and> list_all (target_ok items h) ts"
  using assms
proof (induction targets items rule: collect_ordered.induct)
  case (1 items)
  then show ?case by simp
next
  case (2 i v rest items)
  define it where "it = items ! i"
  have it: "it \<in> set items" "seen_attached (it_session it) v h"
    using "2.prems" by (auto simp: it_def target_seen_def)
  show ?case
  proof (cases "captured_column it")
    case None
    then have skip: "collect_ordered ((i, v) # rest) items = collect_ordered rest items"
      by (auto simp: captured_column_def it_def split: option.splits)
    show ?thesis
      unfolding skip
      using "2.IH"(1) None "2.prems" by (auto simp: captured_column_def it_def split: option.splits)
  next
    case (Some c)
    then obtain p where p: "it_captured_placement it = Some p" "pl_column p = Some c"
      by (auto simp: captured_column_def split: option.splits)
    show ?thesis
    proof (cases "it_workspace it")
      case None
      define items0 where "items0 = items[i := mark_column_result Layout_Unsupported
          ''column order requires a resolved workspace'' (items ! i)]"
      have same: "same_items items items0" by (simp add: items0_def same_items_mark_one)
      have "list_all (target_seen items0 h) rest"
        using "2.prems" target_seen_same [OF same_items_views [OF same]] by (auto simp: list_all_iff)
      then have "case collect_ordered rest items0 of (ts, items1) \<Rightarrow>
          same_items items0 items1 \<and> list_all (target_ok items0 h) ts"
        using "2.IH"(2) p None by (simp add: it_def items0_def)
      moreover have "collect_ordered ((i, v) # rest) items = collect_ordered rest items0"
        using p None by (simp add: it_def items0_def)
      ultimately show ?thesis
        using same_items_trans [OF same] target_ok_same [OF same_items_views [OF same]]
        by (auto simp: list_all_iff)
    next
      case (Some tgt)
      have "case collect_ordered rest items of (ts, items1) \<Rightarrow>
          same_items items items1 \<and> list_all (target_ok items h) ts"
        using "2.IH"(3) p Some "2.prems" by (simp add: it_def)
      moreover have "target_ok items h (ct\<lparr>ct_window := v, ct_column := c\<rparr>)" for ct
        using \<open>captured_column it = Some c\<close> it by (auto simp: target_ok_def list_ex_iff)
      ultimately show ?thesis
        using p Some it by (auto simp: it_def target_ok_def list_all_iff)
    qed
  qed
qed

lemma restore_focus_grows:
  assumes "focused_id \<le> 0 \<or> seen_focused focused_id h"
  shows "grows_ok e w t its h (restore_focus e w focused_id h)"
proof (cases "focused_id \<le> 0")
  case True
  then show ?thesis by (simp add: restore_focus_def)
next
  case False
  have "grows_ok e w t its h (Focus_Asked focused_id r # h)" for r
    using assms False by (auto intro!: grows_ok_event simp: permitted_def)
  then show ?thesis
    using False grows_ok_trans [OF _ grows_ok_observes [OF wait_for_observed_observes]]
    by (auto simp: restore_focus_def focus_window_def Let_def split: option.split)
      (metis prod.collapse)
qed

lemma order_columns_outcome:
  assumes targets: "list_all (target_seen items h) targets" and views: "same_views its items"
    and focused: "focused_id \<le> 0 \<or> seen_focused focused_id h"
  shows "case order_columns e w targets focused_id items h of (items1, h1) \<Rightarrow>
    grows_ok e w t its h h1 \<and> same_items items items1"
proof -
  obtain ordered items1 where c: "collect_ordered targets items = (ordered, items1)"
    by (cases "collect_ordered targets items")
  have same1: "same_items items items1" and ordered: "list_all (target_ok its h) (stable_sort target_before ordered)"
    using collect_ordered_outcome [OF targets] c target_ok_same [OF views]
    by (auto simp: list_all_iff)
  obtain items2 h1 where o: "order_groups e w (stable_sort target_before ordered) items1 h = (items2, h1)"
    by (cases "order_groups e w (stable_sort target_before ordered) items1 h")
  have out: "grows_ok e w t its h h1" "same_items items1 items2"
    using order_groups_outcome [OF ordered, of e w t items1] o by auto
  have "focused_id \<le> 0 \<or> seen_focused focused_id h1"
    using focused out(1) saw_mono by (auto simp: seen_focused_def grows_ok_def)
  from grows_ok_trans [OF out(1) restore_focus_grows [OF this]] show ?thesis
    using c o same1 same_items_trans [OF same1] out(2) same_items_mark_targets
    by (auto simp: order_columns_def)
qed

section \<open>Apply\<close>

lemma settled_mapped:
  assumes "mapped_item it m h0" and "settled (fst m) it1 h" and "same_but_layout it1 it2"
  shows "settled it it2 h"
  using assms restored_evidence_view [of it2 it1] same_but_layout_fields [OF assms(3)]
  by (auto simp: settled_def mapped_item_def actionable_cases)

lemma settled_fail_actionable: "settled it (fail_actionable msg it) h"
  by (simp add: settled_def fail_actionable_def)

lemma apply_plan_outcome:
  "case apply_plan e w p [] of (p1, h) \<Rightarrow>
     run_ok e w (pn_captured_at p) (pn_items p) h
     \<and> list_all2 (\<lambda>it it1. settled it it1 h) (pn_items p) (pn_items p1)"
proof (cases "validate_executor e")
  case (Some err)
  then show ?thesis
    by (auto simp: apply_plan_def resummarize_def summarize_def list_all2_map2
        intro!: list.rel_refl settled_fail_actionable)
next
  case None
  define its where "its = pn_items p"
  obtain ms focused_id h1 where m: "map_existing w its [] = ((ms, focused_id), h1)"
    by (metis prod.collapse)
  have mapped: "observes [] h1" "list_all2 (\<lambda>it m. mapped_item it m h1) its ms"
      "focused_id \<le> 0 \<or> seen_focused focused_id h1"
    using map_existing_outcome [of "[]" its w] m by auto
  have pre: "list_all (\<lambda>(it, initial).
        (actionable (it_status it) \<longrightarrow> it \<in> set its)
        \<and> (\<forall>v. initial = Some v \<longrightarrow> seen_attached (it_session it) v h1)) ms"
  proof -
    have "(actionable (it_status (fst m)) \<longrightarrow> fst m \<in> set its)
        \<and> (\<forall>v. snd m = Some v \<longrightarrow> seen_attached (it_session (fst m)) v h1)" if "m \<in> set ms" for m
    proof -
      obtain it where "it \<in> set its" "mapped_item it m h1"
        using \<open>m \<in> set ms\<close> mapped(2)
        by (auto simp: list_all2_conv_all_nth in_set_conv_nth) (metis nth_mem)
      then show ?thesis
        using plan_view_same [of "fst m" it] by (auto simp: mapped_item_def actionable_cases)
    qed
    then show ?thesis by (auto simp: list_all_iff)
  qed
  obtain items targets h2 where a:
      "apply_items e w (pn_captured_at p) [] 0 ms h1 = ((items, targets), h2)"
    by (metis prod.collapse)
  have "run_ok e w (pn_captured_at p) its h1"
    using mapped(1) by (simp add: permitted_observes)
  from apply_items_outcome [OF pre this, of "[]" "[]" 0] a
  have items: "run_ok e w (pn_captured_at p) its h2"
      "list_all2 (\<lambda>m it1. settled (fst m) it1 h2) ms items"
      "list_all (target_seen items h2) targets" "set h1 \<subseteq> set h2"
    by (auto simp: claims_ok_def)
  have views: "same_views its items"
    using list_all2_trans [OF _ mapped(2) items(2), of "\<lambda>a b. plan_view b = plan_view a"]
    by (auto simp: mapped_item_def settled_def)
  obtain items1 h3 where oc: "order_columns e w targets focused_id items h2 = (items1, h3)"
    by (cases "order_columns e w targets focused_id items h2")
  have "focused_id \<le> 0 \<or> seen_focused focused_id h2"
    using mapped(3) items(4) saw_mono by (auto simp: seen_focused_def)
  from order_columns_outcome [OF items(3) views this, of e w "pn_captured_at p"] oc
  have final: "grows_ok e w (pn_captured_at p) its h2 h3" "same_items items items1" by auto
  have "list_all2 (\<lambda>it it1. settled it it1 h3) its items1"
  proof -
    have "list_all2 (\<lambda>m it1. settled (fst m) it1 h3) ms items"
      using items(2) final(1) settled_mono by (auto simp: grows_ok_def elim!: list_all2_mono)
    then have "list_all2 (\<lambda>m it2. \<exists>it1. settled (fst m) it1 h3 \<and> same_but_layout it1 it2) ms items1"
      by (rule list_all2_trans [rotated 1, OF _ final(2)]) blast
    with mapped(2) show ?thesis
      by (rule list_all2_trans [rotated 1]) (auto intro: settled_mapped)
  qed
  then show ?thesis
    using None m a oc final(1) items(1)
    by (simp add: apply_plan_def resummarize_def summarize_def grows_ok_def its_def)
qed

section \<open>Properties\<close>

definition ex_executor :: executor where
  "ex_executor =
     \<lparr>ex_launcher_command = ''kitty'', ex_timeout = 2, ex_poll_interval = 1, ex_recovery_max_age = 10,
      ex_deps = [Dep_Launcher, Dep_Observer, Dep_Probe, Dep_Mover, Dep_Layout, Dep_Orderer,
                 Dep_Cataloger]\<rparr>"

text \<open>
  A desktop on which a started terminal shows one window; whether it attaches is the argument.
\<close>

definition ex_window_now :: "trace \<Rightarrow> observed_window" where
  "ex_window_now h =
     \<lparr>ow_id = 7, ow_pid = 42, ow_app_id = ''kitty'',
      ow_workspace_id = (if list_ex (\<lambda>ev. case ev of Workspace_Moved _ _ _ \<Rightarrow> True | _ \<Rightarrow> False) h
                         then ''w2'' else ''w1''),
      ow_column = Some (if list_ex (\<lambda>ev. case ev of Column_Asked _ _ \<Rightarrow> True | _ \<Rightarrow> False) h
                        then 2 else 1),
      ow_row = Some 1,
      ow_is_focused = list_ex (\<lambda>ev. case ev of Focus_Asked _ _ \<Rightarrow> True | _ \<Rightarrow> False) h\<rparr>"

definition ex_outside :: "bool \<Rightarrow> outside" where
  "ex_outside attaches =
     \<lparr>on_windows = (\<lambda>h. Inr (if list_ex starts h then [ex_window_now h] else [])),
      on_attached = (\<lambda>h pid session. Inr attaches),
      on_start = (\<lambda>h spec. Inr (Some \<lparr>pr_pid = 42, pr_has_done = True\<rparr>)),
      on_done = (\<lambda>h p. None), on_move = (\<lambda>h i t. None),
      on_layout = (\<lambda>h i p. \<lparr>lr_status = Layout_Applied, lr_reason = []\<rparr>),
      on_focus = (\<lambda>h i. None), on_column = (\<lambda>h c. None), on_sleep = (\<lambda>h. False),
      on_catalog = (\<lambda>h. Inr ex_catalog), on_now = (\<lambda>h. 100),
      on_environ = [''ZELLIJ=1'', ''HOME=/h'']\<rparr>"

definition ex_placement :: placement where
  "ex_placement =
     \<lparr>pl_column = Some 2, pl_row = Some 1, pl_is_floating = None, pl_tile_size = [], pl_window_size = [800, 600]\<rparr>"

definition ex_plan :: plan where
  "ex_plan =
     \<lparr>pn_status = Candidate_Ready, pn_source = Prior_Active_Allow_List, pn_boot_id = ''b1'',
      pn_captured_at = 95, pn_age = 5, pn_reason = No_Reason,
      pn_items =
        [zero_item\<lparr>it_session := ''b'', it_status := Ready,
                   it_candidate_source := Prior_Active_Allow_List,
                   it_zellij_status := ''dead_resurrectable'',
                   it_captured_placement := Some ex_placement,
                   it_workspace := Some \<lparr>wt_id = ''w2'', wt_name = ''dev'', wt_output = [],
                                        wt_index = 2, wt_method = By_Name\<rparr>\<rparr>],
      pn_summary = zero_summary\<rparr>"

text \<open>
  C2: a terminal is launched only with authorisation. Whatever the desktop answers, every launch in
  a run of \<open>Apply\<close> is the attach-only command of an actionable item of the plan, made right after
  every terminal window of a fresh observation was probed and none was attached to the item's
  session; and for an item of \<open>resume --all\<close> the exact catalog was observed again in between and
  admits the launch: the session is ACTIVE, or it is dead, comes from the prior allow-list and
  the recovery point is within its maximum age.
\<close>

theorem apply_launch_authorised:
  assumes "snd (apply_plan e w p []) = later @ Started spec r # earlier"
  shows "\<exists>it \<in> set (pn_items p). actionable (it_status it)
    \<and> spec = kitty_launch_spec (on_environ w) (ex_launcher_command e) it
    \<and> launch_authorised e (pn_captured_at p) it earlier"
proof -
  have "run_ok e w (pn_captured_at p) (pn_items p) (later @ Started spec r # earlier)"
    using apply_plan_outcome [of e w p] assms by (auto split: prod.splits)
  from trace_ok_append [OF this] show ?thesis by (auto simp: permitted_def list_ex_iff)
qed

theorem apply_launch_authorised_witness:
  "launch_authorised ex_executor 95 (hd (pn_items ex_plan))
     (drop 24 (snd (apply_plan ex_executor (ex_outside True) ex_plan [])))"
proof -
  define h where "h = snd (apply_plan ex_executor (ex_outside True) ex_plan [])"
  obtain spec r where "h = take 23 h @ Started spec r # drop 24 h"
  proof -
    have "h = take 23 h @ Started (kitty_launch_spec [''HOME=/h''] ''kitty'' (hd (pn_items ex_plan)))
        (Inr (Some \<lparr>pr_pid = 42, pr_has_done = True\<rparr>)) # drop 24 h"
      unfolding h_def by code_simp
    then show thesis by (rule \<open>\<And>spec r. h = take 23 h @ Started spec r # drop 24 h \<Longrightarrow> thesis\<close>)
  qed
  from apply_launch_authorised [OF this [unfolded h_def]]
  have "\<exists>it \<in> set (pn_items ex_plan).
      launch_authorised ex_executor (pn_captured_at ex_plan) it (drop 24 h)"
    unfolding h_def by blast
  then show ?thesis by (simp add: ex_plan_def h_def)
qed

text \<open>
  C30: only the terminal just launched is killed. Every process that \<open>Apply\<close> kills is the one of
  its latest launch, and since that launch nothing but observations has happened: no window was
  moved, sized or focused, and nothing was killed before. A terminal that was there before, or that
  has been placed, is never killed.
\<close>

theorem apply_kills_own_launch:
  assumes "snd (apply_plan e w p []) = later @ Killed q # earlier"
  shows "\<exists>spec ns before. earlier = ns @ Started spec (Inr (Some q)) # before \<and> list_all observing ns"
proof -
  have "run_ok e w (pn_captured_at p) (pn_items p) (later @ Killed q # earlier)"
    using apply_plan_outcome [of e w p] assms by (auto split: prod.splits)
  from trace_ok_append [OF this] have "just_started q earlier" by (simp add: permitted_def)
  then obtain spec before where "dropWhile observing earlier = Started spec (Inr (Some q)) # before"
    by (auto simp: just_started_def split: list.splits event.splits sum.splits option.splits)
  then have "earlier = takeWhile observing earlier @ Started spec (Inr (Some q)) # before"
    by (metis takeWhile_dropWhile_id)
  moreover have "list_all observing (takeWhile observing earlier)"
    by (auto simp: list_all_iff dest: set_takeWhileD)
  ultimately show ?thesis by blast
qed

theorem apply_kills_own_launch_witness:
  "\<exists>spec ns before. drop 1 (snd (apply_plan ex_executor (ex_outside False) ex_plan []))
       = ns @ Started spec (Inr (Some \<lparr>pr_pid = 42, pr_has_done = True\<rparr>)) # before
     \<and> list_all observing ns"
proof -
  have "snd (apply_plan ex_executor (ex_outside False) ex_plan [])
      = [] @ Killed \<lparr>pr_pid = 42, pr_has_done = True\<rparr>
          # drop 1 (snd (apply_plan ex_executor (ex_outside False) ex_plan []))"
    by code_simp
  from apply_kills_own_launch [OF this] show ?thesis .
qed

text \<open>
  Only windows with evidence are moved. Every window that \<open>Apply\<close> moves to a workspace was
  observed with a process that the probe had found attached to exactly the session of an item with
  that target, and whenever a column is moved, the last observation shows the focused window to be
  such a window of an item whose captured column is the destination.
\<close>

theorem apply_moves_with_evidence:
  assumes "snd (apply_plan e w p []) = later @ ev # earlier"
  shows "case ev of
      Workspace_Moved wid t r \<Rightarrow>
        \<exists>it v. it \<in> set (pn_items p) \<and> it_workspace it = Some t \<and> ow_id v = wid
          \<and> seen_attached (it_session it) v earlier
    | Column_Asked c r \<Rightarrow>
        \<exists>it u v ws before. it \<in> set (pn_items p) \<and> captured_column it = Some c
          \<and> earlier = Windows_Seen (Inr ws) # before \<and> u \<in> set ws \<and> ow_is_focused u
          \<and> ow_id v = ow_id u \<and> seen_attached (it_session it) v earlier
    | _ \<Rightarrow> True"
proof -
  have "run_ok e w (pn_captured_at p) (pn_items p) (later @ ev # earlier)"
    using apply_plan_outcome [of e w p] assms by (auto split: prod.splits)
  from trace_ok_append [OF this]
  have ok: "permitted e w (pn_captured_at p) (pn_items p) ev earlier" .
  show ?thesis
  proof (cases ev)
    case (Workspace_Moved wid t r)
    then show ?thesis using ok by (auto simp: permitted_def list_ex_iff window_attached_iff)
  next
    case (Column_Asked c r)
    obtain ws before where "earlier = Windows_Seen (Inr ws) # before"
      using ok Column_Asked
      by (auto simp: permitted_def split: list.splits event.splits sum.splits)
    then show ?thesis
      using ok Column_Asked by (auto simp: permitted_def list_ex_iff window_attached_iff)
  qed simp_all
qed

theorem apply_moves_with_evidence_witness:
  "\<exists>it v. it \<in> set (pn_items ex_plan) \<and> ow_id v = 7
     \<and> seen_attached (it_session it) v
         (drop 12 (snd (apply_plan ex_executor (ex_outside True) ex_plan [])))"
proof -
  have "snd (apply_plan ex_executor (ex_outside True) ex_plan [])
      = take 11 (snd (apply_plan ex_executor (ex_outside True) ex_plan []))
        @ Workspace_Moved 7 (the (it_workspace (hd (pn_items ex_plan)))) None
        # drop 12 (snd (apply_plan ex_executor (ex_outside True) ex_plan []))"
    by code_simp
  from apply_moves_with_evidence [OF this] show ?thesis by auto
qed

text \<open>
  Every item is settled. \<open>Apply\<close> answers a plan with the same items in the same order; an
  actionable item ends restored, already open, degraded, failed, unavailable or stale, and never
  still ready; it is restored only with evidence that its attached window was seen on its target
  workspace; every other item keeps its status and reason.
\<close>

theorem apply_settles:
  "case apply_plan e w p [] of (p1, h) \<Rightarrow>
     list_all2 (\<lambda>it it1. settled it it1 h) (pn_items p) (pn_items p1)"
  using apply_plan_outcome [of e w p] by (auto split: prod.splits)

end
