(* ===== verification/Column_Proofs.thy ===== *)
theory Column_Proofs
  imports Column_Order
begin

text \<open>
  The column ordering phase: the predicted column move is a rotation, the descending passes
  converge within the bound of the loop, and a group is only reported as applied after a final
  observation that shows every target in its place.
\<close>

section \<open>Descriptions\<close>

text \<open>The column of a target in a workspace state.\<close>

definition target_column :: "observed_window list \<Rightarrow> column_target \<Rightarrow> int option" where
  "target_column x t =
     (case find (\<lambda>v. ow_id v = ow_id (ct_window t)) x of None \<Rightarrow> None | Some v \<Rightarrow> ow_column v)"

text \<open>The target is a window of the state, on this workspace and in a column.\<close>

definition placed_on :: "string \<Rightarrow> observed_window list \<Rightarrow> column_target \<Rightarrow> bool" where
  "placed_on i x t \<longleftrightarrow>
     list_all (\<lambda>v. ow_workspace_id v = i) x \<and> target_column x t \<noteq> None"

text \<open>Targets in strictly descending order, in distinct columns of one workspace.\<close>

definition orderable :: "string \<Rightarrow> observed_window list \<Rightarrow> column_target list \<Rightarrow> bool" where
  "orderable i x ts \<longleftrightarrow>
     list_all (placed_on i x) ts \<and> sorted_wrt (\<lambda>a b. ct_column b < ct_column a) ts
     \<and> distinct (map (target_column x) ts)"

text \<open>
  A compositor that does what it is asked, replayed from the trace: a focus request focuses exactly
  that window, a column request rotates the column of the focused window.
\<close>

fun replay :: "observed_window list \<Rightarrow> trace \<Rightarrow> observed_window list" where
  "replay s [] = s"
| "replay s (ev # h) =
     (case ev of
        Focus_Asked k _ \<Rightarrow> map (\<lambda>v. v\<lparr>ow_is_focused := (ow_id v = k)\<rparr>) (replay s h)
      | Column_Asked d _ \<Rightarrow>
          (case find ow_is_focused (replay s h) of
             None \<Rightarrow> replay s h
           | Some v \<Rightarrow>
               (case ow_column v of
                  None \<Rightarrow> replay s h
                | Some c \<Rightarrow>
                    map (\<lambda>u. u\<lparr>ow_column := map_option (moved_column c d) (ow_column u)\<rparr>)
                      (replay s h)))
      | _ \<Rightarrow> replay s h)"

definition obedient :: "observed_window list \<Rightarrow> outside" where
  "obedient s =
     \<lparr>on_windows = (\<lambda>h. Inr (replay s h)), on_attached = (\<lambda>h p session. Inr True),
      on_start = (\<lambda>h spec. Inr None), on_done = (\<lambda>h p. None), on_move = (\<lambda>h i t. None),
      on_layout = (\<lambda>h i p. \<lparr>lr_status = Layout_Applied, lr_reason = []\<rparr>),
      on_focus = (\<lambda>h i. None), on_column = (\<lambda>h c. None), on_sleep = (\<lambda>h. False),
      on_catalog = (\<lambda>h. Inl []), on_now = (\<lambda>h. 0), on_environ = []\<rparr>"

text \<open>Three windows in columns 1 to 3; the first two are to go to columns 3 and 1.\<close>

definition ex_row :: "observed_window list" where
  "ex_row = map (\<lambda>(k, c). \<lparr>ow_id = k, ow_pid = 10 + k, ow_app_id = ''kitty'', ow_workspace_id = ''w'',
      ow_column = Some c, ow_row = Some 1, ow_is_focused = (k = 5)\<rparr>) [(4, 1), (5, 2), (6, 3)]"

definition ex_target :: "nat \<Rightarrow> int \<Rightarrow> column_target" where
  "ex_target n c =
     \<lparr>ct_item = n, ct_window = ex_row ! n,
      ct_workspace = \<lparr>wt_id = ''w'', wt_name = [], wt_output = [], wt_index = 1, wt_method = By_Index\<rparr>,
      ct_column = c, ct_row = Some 1, ct_occupied = False, ct_session = []\<rparr>"

definition ex_ordering :: executor where
  "ex_ordering =
     \<lparr>ex_launcher_command = ''kitty'', ex_timeout = 2, ex_poll_interval = 1, ex_recovery_max_age = 0,
      ex_deps = [Dep_Orderer]\<rparr>"

section \<open>The rotation\<close>

lemma moved_column_inj: "moved_column s d a = moved_column s d b \<longleftrightarrow> a = b"
  by (auto simp: moved_column_def split: if_splits)

section \<open>Verified states\<close>

lemma same_optional_int_iff: "same_optional_int a b \<longleftrightarrow> a = b"
  by (cases a; cases b) (simp_all add: same_optional_int_def)

lemma same_observed_iff: "same_observed a b \<longleftrightarrow> a = b"
  by (cases a; cases b) (auto simp: same_observed_def same_optional_int_iff)

lemma same_workspace_state_iff: "same_workspace_state xs ys \<longleftrightarrow> xs = ys"
  by (auto simp: same_workspace_state_def same_observed_iff list_all_iff list_eq_iff_zip_eq)

lemma find_map_same_id:
  assumes "\<And>v. ow_id (f v) = ow_id v"
  shows "find (\<lambda>v. ow_id v = k) (map f x) = map_option f (find (\<lambda>v. ow_id v = k) x)"
  using assms by (induction x) auto

text \<open>A successful step of a pass rotates the columns and changes nothing else that matters.\<close>

lemma step_state:
  assumes f: "focus_target e w i (ow_id (ct_window t)) x h = (Inr x1, h1)"
    and m: "move_target e w i (ow_id (ct_window t)) d x1 h2 = (Inr x2, h3)"
  shows "\<exists>c. target_column x t = Some c
    \<and> (\<forall>u. target_column x2 u = map_option (moved_column c d) (target_column x u))
    \<and> (\<forall>u. placed_on i x u \<longrightarrow> placed_on i x2 u)"
proof -
  define focus :: "observed_window \<Rightarrow> observed_window"
    where "focus = (\<lambda>v. v\<lparr>ow_is_focused := (ow_id v = ow_id (ct_window t))\<rparr>)"
  have x1: "x1 = map focus x"
    using f by (auto simp: focus_target_def same_workspace_state_iff expected_focused_state_def focus_def
        split: prod.splits sum.splits if_splits option.splits)
  obtain v c where v: "find (\<lambda>v. ow_id v = ow_id (ct_window t)) x1 = Some v" "ow_column v = Some c"
    and x2: "x2 = map (\<lambda>u. u\<lparr>ow_column := map_option (moved_column c d) (ow_column u)\<rparr>) x1"
    using m by (auto simp: move_target_def same_workspace_state_iff expected_column_move_def
        split: prod.splits sum.splits if_splits option.splits)
  have "target_column x t = Some c"
    using v by (auto simp: x1 target_column_def find_map_same_id focus_def)
  moreover have "target_column x2 u = map_option (moved_column c d) (target_column x u)" for u
    by (auto simp: x2 x1 target_column_def find_map_same_id focus_def option.map_comp split: option.split)
  ultimately show ?thesis
    by (auto simp: placed_on_def x1 x2 list_all_iff focus_def)
qed

lemma find_in_set: "find P xs = Some v \<Longrightarrow> v \<in> set xs"
  by (induction xs) (auto split: if_splits)

section \<open>Convergence\<close>

text \<open>The column of a placed target, and the targets that are where they belong.\<close>

abbreviation column_of :: "observed_window list \<Rightarrow> column_target \<Rightarrow> int" where
  "column_of x t \<equiv> the (target_column x t)"

lemma exact_iff:
  "placed_on i x t \<Longrightarrow> window_at_exact_column x (ow_id (ct_window t)) i c \<longleftrightarrow> column_of x t = c"
  using find_in_set [of _ x]
  by (auto simp: placed_on_def window_at_exact_column_def target_column_def list_all_iff
      split: option.split)

lemma orderable_step:
  assumes ord: "orderable i x ts" and t: "t \<in> set ts"
    and f: "focus_target e w i (ow_id (ct_window t)) x h = (Inr x1, h1)"
    and m: "move_target e w i (ow_id (ct_window t)) (ct_column t) x1 h2 = (Inr x2, h3)"
  shows "orderable i x2 ts"
    and "u \<in> set ts \<Longrightarrow> column_of x2 u = moved_column (column_of x t) (ct_column t) (column_of x u)"
proof -
  obtain c where c: "target_column x t = Some c"
    and cols: "\<And>u. target_column x2 u = map_option (moved_column c (ct_column t)) (target_column x u)"
    and on: "\<And>u. placed_on i x u \<Longrightarrow> placed_on i x2 u"
    using step_state [OF f m] by blast
  have some: "target_column x u \<noteq> None" if "u \<in> set ts" for u
    using ord that by (auto simp: orderable_def list_all_iff placed_on_def)
  have "map_option (moved_column c (ct_column t)) a = map_option (moved_column c (ct_column t)) b
      \<longleftrightarrow> a = b" for a b
    by (cases a; cases b) (simp_all add: moved_column_inj)
  then have "distinct (map (target_column x2) ts)"
    using ord by (simp add: cols orderable_def distinct_map inj_on_def)
  then show "orderable i x2 ts" using ord on by (auto simp: orderable_def list_all_iff)
  show "u \<in> set ts \<Longrightarrow> column_of x2 u = moved_column (column_of x t) (ct_column t) (column_of x u)"
    using some [of u] c by (auto simp: cols)
qed

text \<open>The state of the targets between two passes: none left of its place, the last ones exact.\<close>

definition settled_right :: "observed_window list \<Rightarrow> column_target list \<Rightarrow> bool" where
  "settled_right x ts \<longleftrightarrow> list_all (\<lambda>t. ct_column t \<le> column_of x t) ts"

definition exact_targets :: "observed_window list \<Rightarrow> column_target list \<Rightarrow> bool" where
  "exact_targets x ts \<longleftrightarrow> list_all (\<lambda>t. column_of x t = ct_column t) ts"

lemma targets_exact_iff:
  "list_all (placed_on i x) ts \<Longrightarrow> targets_at_exact_columns x i ts \<longleftrightarrow> exact_targets x ts"
  by (induction ts) (simp_all add: targets_at_exact_columns_def exact_targets_def exact_iff)

lemma descending_inj:
  "sorted_wrt (\<lambda>a b. ct_column b < ct_column a) ts \<Longrightarrow> inj_on ct_column (set ts)"
  by (induction ts) auto

lemma orderable_columns:
  "orderable i x ts \<Longrightarrow> u \<in> set ts \<Longrightarrow> t \<in> set ts \<Longrightarrow> ct_column u = ct_column t \<Longrightarrow> u = t"
  using descending_inj [of ts] by (simp add: orderable_def inj_on_def)

lemma orderable_distinct:
  assumes "orderable i x ts" and "t \<in> set ts" "u \<in> set ts" "ct_column u \<noteq> ct_column t"
  shows "column_of x u \<noteq> column_of x t"
proof -
  have "target_column x u \<noteq> target_column x t"
    using assms by (auto simp: orderable_def distinct_map inj_on_def)
  moreover have "target_column x u \<noteq> None" "target_column x t \<noteq> None"
    using assms by (auto simp: orderable_def list_all_iff placed_on_def)
  ultimately show ?thesis by auto
qed

text \<open>Elimination of one target of a pass.\<close>

lemma order_pass_step:
  assumes "order_pass e w i (t # ts) x moved h = (Inr (y, mv), h1)" and "placed_on i x t"
  obtains "column_of x t = ct_column t" and "order_pass e w i ts x moved h = (Inr (y, mv), h1)"
  | x1 g1 x2 g2 where "column_of x t \<noteq> ct_column t"
    and "focus_target e w i (ow_id (ct_window t)) x h = (Inr x1, g1)"
    and "move_target e w i (ow_id (ct_window t)) (ct_column t) x1 g1 = (Inr x2, g2)"
    and "order_pass e w i ts x2 True g2 = (Inr (y, mv), h1)"
proof (cases "window_at_exact_column x (ow_id (ct_window t)) i (ct_column t)")
  case True
  then show ?thesis using assms that(1) by (simp add: exact_iff)
next
  case False
  then have off: "column_of x t \<noteq> ct_column t" using assms(2) by (simp add: exact_iff)
  obtain r1 g1 where f: "focus_target e w i (ow_id (ct_window t)) x h = (r1, g1)"
    by (cases "focus_target e w i (ow_id (ct_window t)) x h")
  obtain x1 where r1: "r1 = Inr x1" using assms(1) False f by (cases r1) simp_all
  obtain r2 g2 where m: "move_target e w i (ow_id (ct_window t)) (ct_column t) x1 g1 = (r2, g2)"
    by (cases "move_target e w i (ow_id (ct_window t)) (ct_column t) x1 g1")
  obtain x2 where r2: "r2 = Inr x2" using assms(1) False f r1 m by (cases r2) simp_all
  show ?thesis
    by (rule that(2) [OF off f [unfolded r1] m [unfolded r2]])
       (use assms(1) False f r1 m r2 in simp)
qed

lemma first_pass:
  assumes "orderable i x (pre @ ts)" and "settled_right x pre"
    and "order_pass e w i ts x moved h = (Inr (y, mv), h1)"
  shows "orderable i y (pre @ ts) \<and> settled_right y (pre @ ts)"
  using assms
proof (induction ts arbitrary: pre x moved h)
  case Nil
  then show ?case by simp
next
  case (Cons t ts)
  have on: "placed_on i x t" using Cons.prems(1) by (simp add: orderable_def)
  from Cons.prems(3) on show ?case
  proof (cases rule: order_pass_step)
    case 1
    then show ?thesis
      using Cons.IH [of x "pre @ [t]"] Cons.prems by (simp add: settled_right_def)
  next
    case (2 x1 g1 x2 g2)
    have t: "t \<in> set (pre @ t # ts)" by simp
    note step = orderable_step [OF Cons.prems(1) t 2(2,3)]
    have "ct_column u \<le> column_of x2 u" if "u \<in> set pre" for u
    proof -
      have "ct_column t < ct_column u" "ct_column u \<le> column_of x u"
        using Cons.prems(1,2) that
        by (auto simp: orderable_def sorted_wrt_append settled_right_def list_all_iff)
      moreover have "column_of x u \<noteq> column_of x t"
        using orderable_distinct [OF Cons.prems(1), of t u] that calculation by simp
      ultimately show ?thesis using step(2) [of u] that by (auto simp: moved_column_def)
    qed
    moreover have "column_of x2 t = ct_column t" using step(2) [of t] by (simp add: moved_column_def)
    ultimately have "settled_right x2 (pre @ [t])" by (auto simp: settled_right_def list_all_iff)
    then show ?thesis using Cons.IH [of x2 "pre @ [t]"] step(1) 2(4) by simp
  qed
qed

lemma exact_pass_id:
  assumes "list_all (placed_on i x) ts" and "exact_targets x ts"
    and "order_pass e w i ts x moved h = (Inr (y, mv), h1)"
  shows "y = x \<and> mv = moved"
  using assms
proof (induction ts arbitrary: h)
  case Nil
  then show ?case by simp
next
  case (Cons t ts)
  from Cons.prems(3) have on: "placed_on i x t" using Cons.prems(1) by simp
  from Cons.prems(3) on show ?case
    by (cases rule: order_pass_step) (use Cons in \<open>auto simp: exact_targets_def\<close>)
qed

text \<open>A pass over targets that are not all exact moves something.\<close>

lemma pass_keeps_moved: "order_pass e w i ts x True h = (Inr (y, mv), h1) \<Longrightarrow> mv"
  by (induction ts arbitrary: x h) (auto split: if_splits prod.splits sum.splits)

lemma pass_progress:
  assumes "list_all (placed_on i x) ts" and "\<not> exact_targets x ts"
    and "order_pass e w i ts x moved h = (Inr (y, mv), h1)"
  shows mv
  using assms
proof (induction ts arbitrary: h)
  case Nil
  then show ?case by (simp add: exact_targets_def)
next
  case (Cons t ts)
  from Cons.prems(1) have on: "placed_on i x t" by simp
  from Cons.prems(3) on show ?case
    by (cases rule: order_pass_step)
       (use Cons pass_keeps_moved in \<open>auto simp: exact_targets_def\<close>)
qed

text \<open>A later pass fixes one more target from the right and keeps the ones fixed before.\<close>

lemma later_pass:
  assumes "orderable i x (pre @ ts @ low)" and "settled_right x (pre @ ts @ low)" and "exact_targets x low"
    and "order_pass e w i (ts @ low) x moved h = (Inr (y, mv), h1)"
  shows "orderable i y (pre @ ts @ low) \<and> settled_right y (pre @ ts @ low)
    \<and> exact_targets y (if ts = [] then low else last ts # low)"
  using assms
proof (induction ts arbitrary: pre x moved h)
  case Nil
  have "y = x \<and> mv = moved"
    using exact_pass_id [of i x low e w moved h y mv h1] Nil by (simp add: orderable_def)
  then show ?case using Nil by (simp add: exact_targets_def)
next
  case (Cons t ts)
  have on: "placed_on i x t" using Cons.prems(1) by (simp add: orderable_def)
  have "order_pass e w i (t # ts @ low) x moved h = (Inr (y, mv), h1)"
    using Cons.prems(4) by (simp only: append_Cons)
  from this on show ?case
  proof (cases rule: order_pass_step)
    case 1
    have "ts = [] \<Longrightarrow> y = x"
      using exact_pass_id [of i x low e w moved h y mv h1] 1(2) Cons.prems(1,3)
      by (simp add: orderable_def)
    then show ?thesis
      using Cons.IH [of x "pre @ [t]" moved h] 1 Cons.prems(1,2,3) by (auto simp: exact_targets_def)
  next
    case (2 x1 g1 x2 g2)
    have t: "t \<in> set (pre @ (t # ts) @ low)" by simp
    note step = orderable_step [OF Cons.prems(1) t 2(2,3)]
    have left: "ct_column t < column_of x t"
      using Cons.prems(2) 2(1) by (simp add: settled_right_def)
    have exact: "column_of x2 t = ct_column t" using step(2) [of t] by (simp add: moved_column_def)
    have "ct_column u \<le> column_of x2 u" if "u \<in> set (pre @ (t # ts) @ low)" for u
    proof (cases "u = t")
      case False
      have "ct_column u \<le> column_of x u"
        using Cons.prems(2) that unfolding settled_right_def list_all_iff by blast
      moreover have "ct_column u \<noteq> ct_column t"
        using orderable_columns [OF Cons.prems(1) that t] False by blast
      moreover from this have "column_of x u \<noteq> column_of x t"
        using orderable_distinct [OF Cons.prems(1) t that] by simp
      ultimately show ?thesis using step(2) [OF that] left by (auto simp: moved_column_def)
    qed (simp add: exact)
    then have right: "settled_right x2 (pre @ (t # ts) @ low)" by (simp add: settled_right_def list_all_iff)
    have low: "exact_targets x2 low"
    proof -
      have "column_of x2 u = ct_column u" if "u \<in> set low" for u
      proof -
        have "ct_column u < ct_column t" "column_of x u = ct_column u"
          using Cons.prems(1,3) that
          by (auto simp: exact_targets_def list_all_iff orderable_def sorted_wrt_append)
        then show ?thesis using step(2) [of u] that left by (simp add: moved_column_def)
      qed
      then show ?thesis by (simp add: exact_targets_def list_all_iff)
    qed
    have "ts = [] \<Longrightarrow> y = x2"
      using exact_pass_id [of i x2 low e w True g2 y mv h1] 2(4) step(1) low
      by (simp add: orderable_def)
    then show ?thesis
      using Cons.IH [of x2 "pre @ [t]" True g2] 2(4) step(1) right low exact
      by (auto simp: exact_targets_def)
  qed
qed

text \<open>The messages of the loop itself differ from every other failure in their first letter.\<close>

definition loop_message :: "string \<Rightarrow> bool" where
  "loop_message err \<longleftrightarrow> err \<noteq> [] \<and> hd err = CHR ''a''"

lemma transition_message:
  assumes "wait_for_workspace_transition e w i b x d h = (Some err, h1)"
    and "d \<noteq> []" "hd d \<noteq> CHR ''a''"
  shows "\<not> loop_message err"
proof -
  have "case fst (wait_for_workspace_transition e w i b x d h) of
      Some err \<Rightarrow> \<not> loop_message err | None \<Rightarrow> True"
    unfolding wait_for_workspace_transition_def
    by (rule poll_loop_post)
       (use assms(2,3) in \<open>auto simp: transition_step_def loop_message_def
          split: prod.splits sum.splits if_splits option.splits\<close>)
  then show ?thesis using assms(1) by simp
qed

lemma step_message:
  "focus_target e w i k x h = (Inl err, h1) \<Longrightarrow> \<not> loop_message err"
  "move_target e w i k c x h = (Inl err, h1) \<Longrightarrow> \<not> loop_message err"
  using transition_message
  by (auto simp: focus_target_def move_target_def expected_focused_state_def expected_column_move_def
        loop_message_def
      split: prod.splits sum.splits if_splits option.splits)

lemma pass_message: "order_pass e w i ts x moved h = (Inl err, h1) \<Longrightarrow> \<not> loop_message err"
  by (induction ts arbitrary: x moved h)
     (auto split: if_splits prod.splits sum.splits dest: step_message)

text \<open>With the last targets exact, as many passes as there are other targets suffice.\<close>

lemma passes_converge:
  assumes "orderable i x (ts @ low)" and "settled_right x (ts @ low)" and "exact_targets x low"
    and "length ts \<le> r"
  shows "case fst (order_passes e w i (ts @ low) r x h) of Inl err \<Rightarrow> \<not> loop_message err | Inr _ \<Rightarrow> True"
  using assms
proof (induction r arbitrary: x ts low h)
  case 0
  then show ?case by (simp add: targets_exact_iff orderable_def)
next
  case (Suc r)
  show ?case
  proof (cases "targets_at_exact_columns x i (ts @ low)")
    case True
    then show ?thesis by simp
  next
    case False
    then have "\<not> exact_targets x ts" "ts \<noteq> []"
      using Suc.prems(1,3) by (auto simp: targets_exact_iff orderable_def exact_targets_def)
    obtain res h1 where p: "order_pass e w i (ts @ low) x False h = (res, h1)"
      by (cases "order_pass e w i (ts @ low) x False h")
    show ?thesis
    proof (cases res)
      case (Inl err)
      then show ?thesis using False p pass_message by auto
    next
      case (Inr ym)
      obtain y mv where ym: "ym = (y, mv)" by (cases ym)
      have out: "orderable i y (ts @ low) \<and> settled_right y (ts @ low)
          \<and> exact_targets y (last ts # low)"
        using later_pass [of i x "[]" ts low e w False h y mv h1] Suc.prems(1,2,3) p Inr ym
          \<open>ts \<noteq> []\<close> by simp
      have mv
        using pass_progress [of i x "ts @ low" e w False h y mv h1] Suc.prems(1) p Inr ym
          \<open>\<not> exact_targets x ts\<close> by (simp add: orderable_def exact_targets_def)
      have split: "ts @ low = butlast ts @ last ts # low" using \<open>ts \<noteq> []\<close> by simp
      have "case fst (order_passes e w i (butlast ts @ last ts # low) r y h1) of
          Inl err \<Rightarrow> \<not> loop_message err | Inr _ \<Rightarrow> True"
        using out Suc.prems(4) \<open>ts \<noteq> []\<close> by (intro Suc.IH) (simp_all flip: split)
      then show ?thesis using False p Inr ym \<open>mv\<close> by (simp flip: split)
    qed
  qed
qed

section \<open>An obedient compositor\<close>

lemma replay_ids: "map ow_id (replay s h) = map ow_id s"
  by (induction h) (auto split: event.split option.split simp: o_def)

lemma replay_workspaces: "map ow_workspace_id (replay s h) = map ow_workspace_id s"
  by (induction h) (auto split: event.split option.split simp: o_def)

lemma insert_by_first: "\<forall>y \<in> set xs. lt x y \<Longrightarrow> (\<And>a b. lt a b \<Longrightarrow> \<not> lt b a) \<Longrightarrow> insert_by lt x xs = x # xs"
  by (cases xs) auto

lemma stable_sort_unchanged:
  "sorted_wrt lt xs \<Longrightarrow> (\<And>a b. lt a b \<Longrightarrow> \<not> lt b a) \<Longrightarrow> stable_sort lt xs = xs"
  by (induction xs) (simp_all add: insert_by_first)

text \<open>The windows of one workspace, listed by identifier.\<close>

definition one_workspace :: "string \<Rightarrow> observed_window list \<Rightarrow> bool" where
  "one_workspace i s \<longleftrightarrow>
     sorted_wrt (\<lambda>a b. a < b) (map ow_id s) \<and> list_all (\<lambda>k. k = i) (map ow_workspace_id s)"

lemma one_workspace_replay: "one_workspace i (replay s h) \<longleftrightarrow> one_workspace i s"
  by (simp only: one_workspace_def replay_ids replay_workspaces)

lemma observe_obedient:
  assumes "one_workspace i s"
  shows "observe_workspace (obedient s) i h = (Inr (replay s h), Windows_Seen (Inr (replay s h)) # h)"
proof -
  have "one_workspace i (replay s h)" using assms by (simp add: one_workspace_replay)
  then have "filter (\<lambda>v. ow_workspace_id v = i) (replay s h) = replay s h"
    and "sorted_wrt (\<lambda>a b. ow_id a < ow_id b) (replay s h)"
    by (auto simp: one_workspace_def list_all_iff sorted_wrt_map)
  then show ?thesis
    using stable_sort_unchanged [of "\<lambda>a b. ow_id a < ow_id b" "replay s h"]
    by (simp add: observe_workspace_def see_windows_def obedient_def)
qed

lemma transition_obedient:
  assumes "one_workspace i s" and "replay s h = y"
  shows "wait_for_workspace_transition e (obedient s) i b y d h = (None, Windows_Seen (Inr y) # h)"
  using assms
  by (cases "polls e")
     (simp_all add: wait_for_workspace_transition_def transition_step_def observe_obedient
        same_workspace_state_iff)

lemma focus_obedient:
  assumes one: "one_workspace i s" and "k \<in> ow_id ` set s" and x: "replay s h = x"
  shows "\<exists>h1. focus_target e (obedient s) i k x h = (Inr (replay s h1), h1)
    \<and> replay s h1 = map (\<lambda>v. v\<lparr>ow_is_focused := (ow_id v = k)\<rparr>) x"
proof -
  have "k \<in> set (map ow_id x)" using assms(2) by (simp add: x [symmetric] replay_ids)
  then have found: "list_ex (\<lambda>v. ow_id v = k) x" by (auto simp: list_ex_iff)
  define y where "y = map (\<lambda>v. v\<lparr>ow_is_focused := (ow_id v = k)\<rparr>) x"
  define h2 where "h2 = Focus_Asked k None # Windows_Seen (Inr x) # h"
  have y: "replay s h2 = y" by (simp add: h2_def y_def x)
  have call: "focus_window (obedient s) k (Windows_Seen (Inr x) # h) = (None, h2)"
    by (simp add: focus_window_def obedient_def h2_def)
  have "focus_target e (obedient s) i k x h = (Inr y, Windows_Seen (Inr y) # h2)"
    using found transition_obedient [OF one y]
    by (simp add: focus_target_def observe_obedient [OF one] x same_workspace_state_iff
        expected_focused_state_def call flip: y_def)
  then show ?thesis by (intro exI [of _ "Windows_Seen (Inr y) # h2"]) (simp add: y flip: y_def)
qed

text \<open>Among distinct identifiers the focused window is the one that was asked for.\<close>

lemma find_focused:
  assumes "distinct (map ow_id x)" and "find (\<lambda>v. ow_id v = k) x = Some v"
  shows "find ow_is_focused (map (\<lambda>v. v\<lparr>ow_is_focused := (ow_id v = k)\<rparr>) x)
    = Some (v\<lparr>ow_is_focused := True\<rparr>)"
  using assms by (induction x) (auto split: if_splits)

lemma move_obedient:
  assumes one: "one_workspace i s" and x: "replay s h = x"
    and v: "find (\<lambda>v. ow_id v = k) x = Some v" "find ow_is_focused x = Some v" "ow_is_focused v"
      "ow_column v = Some c"
  shows "\<exists>h1. move_target e (obedient s) i k d x h = (Inr (replay s h1), h1)"
proof -
  define y where "y = map (\<lambda>u. u\<lparr>ow_column := map_option (moved_column c d) (ow_column u)\<rparr>) x"
  define h2 where "h2 = Column_Asked d None # Windows_Seen (Inr x) # h"
  have y: "replay s h2 = y" using v by (simp add: h2_def y_def x)
  have call: "move_column (obedient s) d (Windows_Seen (Inr x) # h) = (None, h2)"
    by (simp add: move_column_def obedient_def h2_def)
  have "move_target e (obedient s) i k d x h = (Inr y, Windows_Seen (Inr y) # h2)"
    using v transition_obedient [OF one y]
    by (simp add: move_target_def observe_obedient [OF one] x same_workspace_state_iff
        expected_column_move_def call flip: y_def)
  then show ?thesis by (intro exI [of _ "Windows_Seen (Inr y) # h2"]) (simp add: y)
qed

lemma pass_obedient:
  assumes "one_workspace i s" and "orderable i x (pre @ ts)" and "replay s h = x"
  shows "\<exists>y mv h1. order_pass e (obedient s) i ts x moved h = (Inr (y, mv), h1)
    \<and> replay s h1 = y \<and> orderable i y (pre @ ts)"
  using assms(2,3)
proof (induction ts arbitrary: pre x moved h)
  case Nil
  then show ?case by simp
next
  case (Cons t ts)
  have on: "placed_on i x t" using Cons.prems(1) by (simp add: orderable_def)
  have t: "t \<in> set (pre @ t # ts)" by simp
  show ?case
  proof (cases "window_at_exact_column x (ow_id (ct_window t)) i (ct_column t)")
    case True
    then show ?thesis using Cons.IH [of x "pre @ [t]" h moved] Cons.prems by simp
  next
    case False
    obtain v c where v: "find (\<lambda>v. ow_id v = ow_id (ct_window t)) x = Some v" "ow_column v = Some c"
      using on by (auto simp: placed_on_def target_column_def split: option.splits)
    have "v \<in> set x" "ow_id v = ow_id (ct_window t)"
      using v(1) find_in_set by (fastforce, auto simp: find_Some_iff)
    then have "ow_id (ct_window t) \<in> ow_id ` set s"
      using replay_ids [of s h] Cons.prems(2) by (metis image_eqI image_set)
    from focus_obedient [OF assms(1) this Cons.prems(2), of e]
    obtain g1 where f: "focus_target e (obedient s) i (ow_id (ct_window t)) x h = (Inr (replay s g1), g1)"
      and g1: "replay s g1 = map (\<lambda>v. v\<lparr>ow_is_focused := (ow_id v = ow_id (ct_window t))\<rparr>) x" by blast
    have ids: "distinct (map ow_id x)"
      using assms(1) replay_ids [of s h] Cons.prems(2) by (simp add: one_workspace_def strict_sorted_iff)
    have "find (\<lambda>v. ow_id v = ow_id (ct_window t)) (replay s g1) = Some (v\<lparr>ow_is_focused := True\<rparr>)"
      using v(1) \<open>ow_id v = ow_id (ct_window t)\<close> by (simp add: g1 find_map_same_id)
    from move_obedient [OF assms(1) refl this, of c e "ct_column t"] find_focused [OF ids v(1)] v(2)
    obtain g2 where m: "move_target e (obedient s) i (ow_id (ct_window t)) (ct_column t) (replay s g1) g1
        = (Inr (replay s g2), g2)" by (auto simp: g1)
    have "orderable i (replay s g2) (pre @ t # ts)"
      using orderable_step(1) [OF Cons.prems(1) t f m] .
    then show ?thesis
      using Cons.IH [of "replay s g2" "pre @ [t]" g2 True] False f m by simp
  qed
qed

lemma passes_obedient:
  assumes "one_workspace i s" and "orderable i x ts" and "replay s h = x"
  shows "\<exists>res h1. order_passes e (obedient s) i ts r x h = (res, h1)
    \<and> (case res of Inl err \<Rightarrow> loop_message err
       | Inr y \<Rightarrow> replay s h1 = y \<and> orderable i y ts \<and> targets_at_exact_columns y i ts)"
  using assms(2,3)
proof (induction r arbitrary: x h)
  case 0
  then show ?case by (auto simp: no_convergence_def loop_message_def)
next
  case (Suc r)
  obtain y mv h1 where p: "order_pass e (obedient s) i ts x False h = (Inr (y, mv), h1)"
    and y: "replay s h1 = y" "orderable i y ts"
    using pass_obedient [of i s x "[]" ts h e False] assms(1) Suc.prems by auto
  show ?case
    using Suc.IH [OF y(2,1)] Suc.prems p
    by (auto simp: no_progress_def loop_message_def)
qed

lemma converges:
  assumes "orderable i x ts"
  shows "case fst (order_passes e w i ts (length ts + 1) x h) of
    Inl err \<Rightarrow> \<not> loop_message err | Inr _ \<Rightarrow> True"
proof (cases "targets_at_exact_columns x i ts")
  case True
  then show ?thesis by simp
next
  case False
  obtain res h1 where p: "order_pass e w i ts x False h = (res, h1)"
    by (cases "order_pass e w i ts x False h")
  show ?thesis
  proof (cases res)
    case (Inl err)
    then show ?thesis using False p pass_message by auto
  next
    case (Inr ym)
    obtain y mv where ym: "ym = (y, mv)" by (cases ym)
    have "orderable i y ts \<and> settled_right y ts"
      using first_pass [of i x "[]" ts e w False h y mv h1] assms p Inr ym by (simp add: settled_right_def)
    then have "case fst (order_passes e w i (ts @ []) (length ts) y h1) of
        Inl err \<Rightarrow> \<not> loop_message err | Inr _ \<Rightarrow> True"
      by (intro passes_converge) (simp_all add: exact_targets_def)
    moreover have mv
      using pass_progress [of i x ts e w False h y mv h1] assms False p Inr ym
      by (simp add: orderable_def targets_exact_iff)
    ultimately show ?thesis using False p Inr ym by simp
  qed
qed

section \<open>Properties\<close>

text \<open>
  The descending passes converge. For targets in strictly descending order that stand in distinct
  columns of the workspace, the loop never gives up because the columns did not converge or because
  a pass made no progress: whatever the desktop answers, the \<open>len(group) + 1\<close> passes allowed either
  bring every target to its column or stop on a failed observation or action.
\<close>

theorem ordering_converges:
  assumes "orderable i x ts"
  shows "fst (order_passes e w i ts (length ts + 1) x h) \<notin> {Inl no_convergence, Inl no_progress}"
  using converges [OF assms, of e w h]
  by (auto simp: loop_message_def no_convergence_def no_progress_def)

theorem ordering_converges_witness:
  "fst (order_passes ex_ordering (obedient ex_row) ''w'' [ex_target 0 3, ex_target 1 1] 3 ex_row [])
     \<notin> {Inl no_convergence, Inl no_progress}"
proof -
  have "orderable ''w'' ex_row [ex_target 0 3, ex_target 1 1]" by code_simp
  note converge = ordering_converges [OF this, of ex_ordering "obedient ex_row" "[]"]
  have n: "length [ex_target 0 3, ex_target 1 1] + 1 = 3" by simp
  show ?thesis using converge unfolding n .
qed

text \<open>
  An obedient compositor is ordered. On a desktop that performs every focus and every column move
  as requested, ordering a group of targets in strictly descending order, in distinct columns of a
  workspace whose windows are all listed, succeeds, and in the end every target is in its column.
\<close>

theorem obedient_desktop_ordered:
  assumes "one_workspace i s" and "orderable i s ts"
  shows "\<exists>h. order_group e (obedient s) i ts [] = (None, h) \<and> targets_at_exact_columns (replay s h) i ts"
proof -
  define h0 where "h0 = [Windows_Seen (Inr s)]"
  have start: "observe_workspace (obedient s) i [] = (Inr s, h0)"
    using observe_obedient [OF assms(1), of "[]"] by (simp add: h0_def)
  obtain res h1 where p: "order_passes e (obedient s) i ts (length ts + 1) s h0 = (res, h1)"
    and res: "case res of Inl err \<Rightarrow> loop_message err
       | Inr y \<Rightarrow> replay s h1 = y \<and> orderable i y ts \<and> targets_at_exact_columns y i ts"
    using passes_obedient [OF assms, of h0 e "length ts + 1"] by (auto simp: h0_def)
  obtain y where y: "res = Inr y"
    using converges [OF assms(2), of e "obedient s" h0] p res by (cases res) auto
  have "find (\<lambda>t. \<not> window_at_exact_column y (ow_id (ct_window t)) i (ct_column t)) ts = None"
    using res y by (simp add: find_None_iff targets_at_exact_columns_def list_all_iff)
  then show ?thesis
    using start p y res observe_obedient [OF assms(1), of h1]
    by (auto simp: order_group_def final_check_def same_workspace_state_iff)
qed

theorem obedient_desktop_ordered_witness:
  "\<exists>h. order_group ex_ordering (obedient ex_row) ''w'' [ex_target 0 3, ex_target 1 1] [] = (None, h)
     \<and> targets_at_exact_columns (replay ex_row h) ''w'' [ex_target 0 3, ex_target 1 1]"
proof (rule obedient_desktop_ordered)
  show "one_workspace ''w'' ex_row" by code_simp
  show "orderable ''w'' ex_row [ex_target 0 3, ex_target 1 1]" by code_simp
qed

text \<open>
  C26: columns are only reported as applied when they are. Whenever ordering a group succeeds, the last
  thing that happened is an observation of the windows in which every target of the group is on
  its workspace in exactly its captured column.
\<close>

theorem order_group_verified:
  assumes "order_group e w i ts h = (None, h1)"
  shows "\<exists>ws before. h1 = Windows_Seen (Inr ws) # before
    \<and> targets_at_exact_columns
        (stable_sort (\<lambda>a b. ow_id a < ow_id b) (filter (\<lambda>v. ow_workspace_id v = i) ws)) i ts"
proof -
  obtain x h0 where "final_check w i ts x h0 = (None, h1)"
    using assms by (auto simp: order_group_def split: prod.splits sum.splits)
  then obtain ws where "on_windows w h0 = Inr ws" "h1 = Windows_Seen (Inr ws) # h0"
    "find (\<lambda>t. \<not> window_at_exact_column
        (stable_sort (\<lambda>a b. ow_id a < ow_id b) (filter (\<lambda>v. ow_workspace_id v = i) ws))
        (ow_id (ct_window t)) i (ct_column t)) ts = None"
    by (auto simp: final_check_def observe_workspace_def see_windows_def
        split: sum.splits if_splits option.splits)
  then show ?thesis by (auto simp: find_None_iff targets_at_exact_columns_def list_all_iff)
qed

theorem order_group_verified_witness:
  "\<exists>ws before. snd (order_group ex_ordering (obedient ex_row) ''w'' [ex_target 0 3, ex_target 1 1] [])
       = Windows_Seen (Inr ws) # before
     \<and> targets_at_exact_columns
         (stable_sort (\<lambda>a b. ow_id a < ow_id b) (filter (\<lambda>v. ow_workspace_id v = ''w'') ws)) ''w''
         [ex_target 0 3, ex_target 1 1]"
proof -
  have "order_group ex_ordering (obedient ex_row) ''w'' [ex_target 0 3, ex_target 1 1] []
      = (None, snd (order_group ex_ordering (obedient ex_row) ''w'' [ex_target 0 3, ex_target 1 1] []))"
    by code_simp
  from order_group_verified [OF this] show ?thesis .
qed

end
