(* ===== verification/Shell_Words.thy ===== *)
theory Shell_Words
  imports Session_Inventory
begin

text \<open>
  Commands that cross the SSH boundary: \<open>ShellQuote\<close> and \<open>QuoteCommand\<close> of
  \<open>internal/mirror/remote.go\<close>, the parser for exactly that quoting in \<open>projection.go\<close>, and the
  bounded OpenSSH option grammar of \<open>ssh_options.go\<close>.
\<close>

section \<open>Quoting\<close>

abbreviation quote_char :: char where "quote_char \<equiv> CHR 0x27"
abbreviation dquote_char :: char where "dquote_char \<equiv> CHR 0x22"

definition quoted_quote :: string where
  "quoted_quote = [quote_char, dquote_char, quote_char, dquote_char, quote_char]"

definition escape_quotes :: "string \<Rightarrow> string" where
  "escape_quotes v = concat (map (\<lambda>c. if c = quote_char then quoted_quote else [c]) v)"

definition shell_quote :: "string \<Rightarrow> string" where
  "shell_quote v =
     (if v = [] then [quote_char, quote_char] else quote_char # escape_quotes v @ [quote_char])"

fun join_words :: "string list \<Rightarrow> string" where
  "join_words [] = []"
| "join_words [w] = w"
| "join_words (w # ws) = w @ CHR '' '' # join_words ws"

definition quote_command :: "string list \<Rightarrow> string" where
  "quote_command argv = join_words (map shell_quote argv)"

section \<open>The parser of generated words\<close>

text \<open>The loop of \<open>consumeGeneratedShellWord\<close> after the opening quote.\<close>

fun consume_body :: "string \<Rightarrow> string \<Rightarrow> (string \<times> string) option" where
  "consume_body word [] = None"
| "consume_body word (c # s) =
     (if c \<noteq> quote_char then consume_body (word @ [c]) s
      else case s of
          d # e # f # g # t \<Rightarrow>
            if d = dquote_char \<and> e = quote_char \<and> f = dquote_char \<and> g = quote_char
            then consume_body (word @ [quote_char]) t else Some (word, s)
        | _ \<Rightarrow> Some (word, s))"

definition consume_generated_shell_word :: "string \<Rightarrow> (string \<times> string) option" where
  "consume_generated_shell_word input =
     (case input of
        [] \<Rightarrow> None
      | c # rest \<Rightarrow> if c \<noteq> quote_char then None else consume_body [] rest)"

lemma consume_body_length: "consume_body word s = Some (w, r) \<Longrightarrow> length r < length s"
proof (induction word s rule: consume_body.induct)
  case (1 word)
  then show ?case by simp
next
  case (2 word c s)
  show ?case
  proof (cases "c = quote_char")
    case False
    then show ?thesis using 2 by simp
  next
    case True
    show ?thesis
    proof (cases "\<exists>t. s = dquote_char # quote_char # dquote_char # quote_char # t")
      case True
      then show ?thesis using 2 \<open>c = quote_char\<close> by fastforce
    next
      case False
      then have "consume_body word (c # s) = Some (word, s)"
        using True by (auto split: list.splits)
      then show ?thesis using "2.prems" by simp
    qed
  qed
qed

lemma consume_length: "consume_generated_shell_word s = Some (w, r) \<Longrightarrow> length r < length s"
  by (auto simp: consume_generated_shell_word_def dest: consume_body_length
      split: list.splits if_splits)

function parse_words :: "string \<Rightarrow> string list option" where
  "parse_words input =
     (case consume_generated_shell_word input of
        None \<Rightarrow> None
      | Some (word, r) \<Rightarrow>
          if r = [] then Some [word]
          else if hd r \<noteq> CHR '' '' \<or> length r = 1 \<or> r ! 1 = CHR '' '' then None
          else map_option (Cons word) (parse_words (tl r)))"
  by pat_completeness auto
termination
  by (relation "measure length") (auto dest!: consume_length)

declare parse_words.simps [simp del]

definition parse_generated_shell_words :: "string \<Rightarrow> string list option" where
  "parse_generated_shell_words input = (if input = [] then None else parse_words input)"

section \<open>SSH options and arguments\<close>

definition all_ssh_flag_options :: "string \<Rightarrow> bool" where
  "all_ssh_flag_options body \<longleftrightarrow>
     body \<noteq> [] \<and> list_all (\<lambda>c. c \<in> set ''46CaqTtvxn'') body"

definition ssh_option_needs_argument :: "char \<Rightarrow> bool" where
  "ssh_option_needs_argument c \<longleftrightarrow> c \<in> set ''FJilop''"

datatype ssh_error =
    Invalid_Option string
  | Unsupported_Option string
  | Requires_Argument char
  | Invalid_Port string
  | Invalid_Host string
  | Empty_Remote_Command

definition validate_ssh_option_argument :: "char \<Rightarrow> string \<Rightarrow> ssh_error option" where
  "validate_ssh_option_argument option_letter value =
     (if value = [] \<or> value = ''--'' then Some (Requires_Argument option_letter)
      else if option_letter = CHR ''p''
              \<and> (case atoi value of None \<Rightarrow> True | Some port \<Rightarrow> port < 1 \<or> 65535 < port)
      then Some (Invalid_Port value) else None)"

fun validate_ssh_options :: "string list \<Rightarrow> ssh_error option" where
  "validate_ssh_options [] = None"
| "validate_ssh_options (arg # rest) =
     (if length arg < 2 \<or> hd arg \<noteq> CHR ''-'' \<or> arg = ''--'' \<or> prefix ''--'' arg
      then Some (Invalid_Option arg)
      else if all_ssh_flag_options (tl arg) then validate_ssh_options rest
      else
        (let letter = hd (tl arg); value = tl (tl arg) in
         if \<not> ssh_option_needs_argument letter then Some (Unsupported_Option arg)
         else if value = [] then
           (case rest of
              [] \<Rightarrow> Some (Requires_Argument letter)
            | next_arg # rest' \<Rightarrow>
                if next_arg = [] \<or> next_arg = ''--'' then Some (Requires_Argument letter)
                else case validate_ssh_option_argument letter next_arg of
                    Some e \<Rightarrow> Some e
                  | None \<Rightarrow> validate_ssh_options rest')
         else case validate_ssh_option_argument letter value of
             Some e \<Rightarrow> Some e
           | None \<Rightarrow> validate_ssh_options rest))"

definition host_start_char :: "char \<Rightarrow> bool" where
  "host_start_char c \<longleftrightarrow>
     c \<in> set ''ABCDEFGHIJKLMNOPQRSTUVWXYZabcdefghijklmnopqrstuvwxyz0123456789''"

definition host_char :: "char \<Rightarrow> bool" where
  "host_char c \<longleftrightarrow> host_start_char c \<or> c \<in> set ''_.@:[]-''"

definition validate_destination :: "string \<Rightarrow> bool" where
  "validate_destination host \<longleftrightarrow>
     length host \<le> 255
     \<and> (case host of [] \<Rightarrow> False | c # rest \<Rightarrow> host_start_char c \<and> list_all host_char rest)"

definition build_ssh_args ::
    "string list \<Rightarrow> string list \<Rightarrow> string \<Rightarrow> string \<Rightarrow> ssh_error + string list"
where
  "build_ssh_args options internal_options destination remote_command =
     (case validate_ssh_options options of
        Some e \<Rightarrow> Inl e
      | None \<Rightarrow>
          if \<not> validate_destination destination then Inl (Invalid_Host destination)
          else if remote_command = [] then Inl Empty_Remote_Command
          else Inr (options @ internal_options @ [''--'', destination, remote_command]))"

section \<open>Lemmas on quoting\<close>

lemma escape_quotes_Cons:
  "escape_quotes (c # v) = (if c = quote_char then quoted_quote else [c]) @ escape_quotes v"
  by (simp add: escape_quotes_def)

lemma escape_quotes_Nil [simp]: "escape_quotes [] = []"
  by (simp add: escape_quotes_def)

lemma shell_quote_eq: "shell_quote v = quote_char # escape_quotes v @ [quote_char]"
  by (simp add: shell_quote_def)

text \<open>What may follow a closing quote for the word to end there.\<close>

definition word_end :: "string \<Rightarrow> bool" where
  "word_end r \<longleftrightarrow> \<not> prefix [dquote_char, quote_char, dquote_char, quote_char] r"

lemma consume_body_close:
  "word_end r \<Longrightarrow> consume_body word (quote_char # r) = Some (word, r)"
  by (auto simp: word_end_def prefix_def split: list.splits)

lemma consume_body_quote:
  "consume_body word (quoted_quote @ s) = consume_body (word @ [quote_char]) s"
  by (simp add: quoted_quote_def)

lemma consume_body_escape:
  "word_end r \<Longrightarrow> consume_body word (escape_quotes v @ quote_char # r) = Some (word @ v, r)"
proof (induction v arbitrary: word)
  case Nil
  then show ?case using consume_body_close by simp
next
  case (Cons c v)
  show ?case
  proof (cases "c = quote_char")
    case True
    then show ?thesis using Cons by (simp add: escape_quotes_Cons consume_body_quote)
  next
    case False
    then show ?thesis using Cons by (simp add: escape_quotes_Cons)
  qed
qed

lemma consume_shell_quote:
  "word_end r \<Longrightarrow> consume_generated_shell_word (shell_quote v @ r) = Some (v, r)"
  by (simp add: consume_generated_shell_word_def shell_quote_eq consume_body_escape)

lemma consume_body_inverse:
  "consume_body word s = Some (w, r) \<Longrightarrow>
   \<exists>v. w = word @ v \<and> s = escape_quotes v @ quote_char # r \<and> word_end r"
proof (induction word s rule: consume_body.induct)
  case (1 word)
  then show ?case by simp
next
  case (2 word c s)
  show ?case
  proof (cases "c = quote_char")
    case False
    then obtain v where "w = (word @ [c]) @ v" "s = escape_quotes v @ quote_char # r" "word_end r"
      using 2 by auto
    then show ?thesis using False by (intro exI [of _ "c # v"]) (simp add: escape_quotes_Cons)
  next
    case True
    show ?thesis
    proof (cases "\<exists>t. s = dquote_char # quote_char # dquote_char # quote_char # t")
      case True
      then obtain t where t: "s = dquote_char # quote_char # dquote_char # quote_char # t" by blast
      then have "consume_body (word @ [quote_char]) t = Some (w, r)"
        using "2.prems" \<open>c = quote_char\<close> by simp
      then obtain v where "w = (word @ [quote_char]) @ v" "t = escape_quotes v @ quote_char # r" "word_end r"
        using "2.IH"(2) \<open>c = quote_char\<close> t by fastforce
      then show ?thesis using t \<open>c = quote_char\<close>
        by (intro exI [of _ "quote_char # v"]) (simp add: escape_quotes_Cons quoted_quote_def)
    next
      case False
      then have "consume_body word (c # s) = Some (word, s)"
        using True by (auto split: list.splits)
      then have "w = word" "r = s" using "2.prems" by simp_all
      moreover have "word_end s" using False by (auto simp: word_end_def prefix_def)
      ultimately show ?thesis using True by (intro exI [of _ "[]"]) simp
    qed
  qed
qed

lemma consume_inverse:
  assumes "consume_generated_shell_word s = Some (w, r)"
  shows "s = shell_quote w @ r"
proof -
  obtain c rest where s: "s = c # rest" "c = quote_char" "consume_body [] rest = Some (w, r)"
    using assms by (auto simp: consume_generated_shell_word_def split: list.splits if_splits)
  from consume_body_inverse [OF s(3)] obtain v where "w = v" "rest = escape_quotes v @ quote_char # r"
    by auto
  then show ?thesis using s by (simp add: shell_quote_eq)
qed

lemma word_end_simps [simp]: "word_end []" "c \<noteq> dquote_char \<Longrightarrow> word_end (c # r)"
  by (simp_all add: word_end_def)

lemma hd_quote_command: "ws \<noteq> [] \<Longrightarrow> \<exists>r. quote_command ws = quote_char # r"
  by (cases ws rule: join_words.cases) (auto simp: quote_command_def shell_quote_eq)

lemma quote_command_Cons:
  "ws \<noteq> [] \<Longrightarrow> quote_command (w # ws) = shell_quote w @ CHR '' '' # quote_command ws"
  by (cases ws) (simp_all add: quote_command_def)

lemma quote_command_single [simp]: "quote_command [w] = shell_quote w"
  by (simp add: quote_command_def)

lemma quote_command_nonempty: "ws \<noteq> [] \<Longrightarrow> quote_command ws \<noteq> []"
  using hd_quote_command by fastforce

lemma parse_words_quote: "ws \<noteq> [] \<Longrightarrow> parse_words (quote_command ws) = Some ws"
proof (induction ws)
  case Nil
  then show ?case by simp
next
  case (Cons w ws)
  show ?case
  proof (cases "ws = []")
    case True
    then show ?thesis using consume_shell_quote [of "[]" w] by (subst parse_words.simps) simp
  next
    case False
    let ?r = "CHR '' '' # quote_command ws"
    obtain r where r: "quote_command ws = quote_char # r" using hd_quote_command [OF False] by blast
    have "consume_generated_shell_word (shell_quote w @ ?r) = Some (w, ?r)"
      by (rule consume_shell_quote) simp
    then have "parse_words (quote_command (w # ws)) = map_option (Cons w) (parse_words (quote_command ws))"
      unfolding quote_command_Cons [OF False] using r by (subst parse_words.simps) simp
    then show ?thesis using Cons.IH False by simp
  qed
qed

lemma parse_words_inverse: "parse_words s = Some ws \<Longrightarrow> ws \<noteq> [] \<and> s = quote_command ws"
proof (induction s arbitrary: ws rule: parse_words.induct)
  case (1 input)
  from "1.prems" obtain w r where c: "consume_generated_shell_word input = Some (w, r)"
    by (subst (asm) parse_words.simps) (auto split: option.splits)
  note s = consume_inverse [OF c]
  show ?case
  proof (cases "r = []")
    case True
    then show ?thesis using "1.prems" c s by (subst (asm) parse_words.simps) auto
  next
    case False
    with "1.prems" c have ok: "\<not> (hd r \<noteq> CHR '' '' \<or> length r = 1 \<or> r ! 1 = CHR '' '')"
      by (subst (asm) parse_words.simps) (auto split: if_splits)
    with "1.prems" c False obtain ws' where ws: "parse_words (tl r) = Some ws'" "ws = w # ws'"
      by (subst (asm) parse_words.simps) auto
    have "ws' \<noteq> [] \<and> tl r = quote_command ws'"
      by (rule "1.IH" [OF c refl False ok ws(1)])
    moreover have "r = CHR '' '' # tl r" using ok False by (cases r) auto
    ultimately show ?thesis using s ws(2) quote_command_Cons [of ws' w] by simp
  qed
qed

lemma shell_words_exact_iff:
  "parse_generated_shell_words s = Some ws \<longleftrightarrow> ws \<noteq> [] \<and> s = quote_command ws"
proof
  assume "parse_generated_shell_words s = Some ws"
  then show "ws \<noteq> [] \<and> s = quote_command ws"
    by (auto simp: parse_generated_shell_words_def dest: parse_words_inverse split: if_splits)
next
  assume "ws \<noteq> [] \<and> s = quote_command ws"
  then show "parse_generated_shell_words s = Some ws"
    by (simp add: parse_generated_shell_words_def parse_words_quote quote_command_nonempty)
qed

section \<open>Lemmas on SSH arguments\<close>

lemma validate_destination_safe:
  "validate_destination h \<Longrightarrow> h \<noteq> [] \<and> hd h \<noteq> CHR ''-'' \<and> h \<noteq> ''--''"
  by (auto simp: validate_destination_def host_start_char_def split: list.splits)

lemma build_ssh_args_Inr:
  "build_ssh_args opts internal host cmd = Inr args \<Longrightarrow>
   args = opts @ internal @ [''--'', host, cmd] \<and> validate_ssh_options opts = None
   \<and> validate_destination host \<and> cmd \<noteq> []"
  by (auto simp: build_ssh_args_def split: option.splits if_splits)

lemma validate_options_no_boundary: "validate_ssh_options opts = None \<Longrightarrow> ''--'' \<notin> set opts"
proof (induction opts rule: validate_ssh_options.induct)
  case 1
  then show ?case by simp
next
  case (2 arg rest)
  let ?bad = "length arg < 2 \<or> hd arg \<noteq> CHR ''-'' \<or> arg = ''--'' \<or> prefix ''--'' arg"
  have nb: "\<not> ?bad"
  proof
    assume ?bad
    then have "validate_ssh_options (arg # rest) = Some (Invalid_Option arg)"
      by (simp only: validate_ssh_options.simps if_True)
    then show False using "2.prems" by simp
  qed
  then have arg: "arg \<noteq> ''--''" by blast
  show ?case
  proof (cases "all_ssh_flag_options (tl arg)")
    case True
    then show ?thesis using "2.IH"(1) [OF nb True] "2.prems" nb arg
      by (simp only: validate_ssh_options.simps if_False if_True) auto
  next
    case nf: False
    have body: "(let letter = hd (tl arg); value = tl (tl arg) in
         if \<not> ssh_option_needs_argument letter then Some (Unsupported_Option arg)
         else if value = [] then
           (case rest of
              [] \<Rightarrow> Some (Requires_Argument letter)
            | next_arg # rest' \<Rightarrow>
                if next_arg = [] \<or> next_arg = ''--'' then Some (Requires_Argument letter)
                else case validate_ssh_option_argument letter next_arg of
                    Some e \<Rightarrow> Some e
                  | None \<Rightarrow> validate_ssh_options rest')
         else case validate_ssh_option_argument letter value of
             Some e \<Rightarrow> Some e
           | None \<Rightarrow> validate_ssh_options rest) = None"
      using "2.prems" nb nf by (simp only: validate_ssh_options.simps if_False)
    then have need: "ssh_option_needs_argument (hd (tl arg))" by (auto simp: Let_def split: if_splits)
    then have nn: "\<not> \<not> ssh_option_needs_argument (hd (tl arg))" by simp
    show ?thesis
    proof (cases "tl (tl arg) = []")
      case True
      then obtain next_arg rest' where rest: "rest = next_arg # rest'"
        and na: "\<not> (next_arg = [] \<or> next_arg = ''--'')"
        and v: "validate_ssh_option_argument (hd (tl arg)) next_arg = None"
        and r: "validate_ssh_options rest' = None"
        using body need by (auto simp: Let_def split: list.splits if_splits option.splits)
      have "''--'' \<notin> set rest'"
        using "2.IH"(2) [OF nb nf refl refl nn True rest na v r] .
      then show ?thesis using rest na arg by auto
    next
      case False
      then have v: "validate_ssh_option_argument (hd (tl arg)) (tl (tl arg)) = None"
        and r: "validate_ssh_options rest = None"
        using body need by (auto simp: Let_def split: option.splits)
      have "''--'' \<notin> set rest"
        using "2.IH"(3) [OF nb nf refl refl nn False v r] .
      then show ?thesis using arg by auto
    qed
  qed
qed

section \<open>Properties\<close>

text \<open>
  C33: the parser accepts exactly the generated quoting. \<open>parseGeneratedShellWords\<close> of a text answers
  the words \<open>ws\<close> if and only if there is at least one word and the text is \<open>QuoteCommand ws\<close>. So
  quoting is injective, every argument vector survives it byte for byte, and no other spelling
  of a command is taken for a generated one.
\<close>

theorem shell_words_exact:
  "parse_generated_shell_words s = Some ws \<longleftrightarrow> ws \<noteq> [] \<and> s = quote_command ws"
  by (rule shell_words_exact_iff)

text \<open>
  C32: configured options cannot move the boundary. When \<open>buildSSHArgs\<close> accepts its input, the
  first \<open>--\<close> of the argument vector is the one before the destination (for internal options
  without one), the destination and the remote command are the only operands, and the
  destination cannot be read as an option.
\<close>

theorem ssh_args_boundary:
  assumes "build_ssh_args opts internal host cmd = Inr args" and "''--'' \<notin> set internal"
  shows "takeWhile (\<lambda>a. a \<noteq> ''--'') args = opts @ internal
    \<and> dropWhile (\<lambda>a. a \<noteq> ''--'') args = [''--'', host, cmd]
    \<and> host \<noteq> [] \<and> hd host \<noteq> CHR ''-'' \<and> cmd \<noteq> []"
proof -
  have a: "args = (opts @ internal) @ [''--'', host, cmd]" "validate_ssh_options opts = None"
    "validate_destination host" "cmd \<noteq> []"
    using build_ssh_args_Inr [OF assms(1)] by auto
  have "''--'' \<notin> set (opts @ internal)"
    using validate_options_no_boundary [OF a(2)] assms(2) by simp
  then have nb: "x \<noteq> ''--''" if "x \<in> set (opts @ internal)" for x using that by metis
  have "takeWhile (\<lambda>a. a \<noteq> ''--'') args = (opts @ internal) @ takeWhile (\<lambda>a. a \<noteq> ''--'') [''--'', host, cmd]"
    unfolding a(1) by (rule takeWhile_append2) (rule nb)
  moreover have "dropWhile (\<lambda>a. a \<noteq> ''--'') args = dropWhile (\<lambda>a. a \<noteq> ''--'') [''--'', host, cmd]"
    unfolding a(1) by (rule dropWhile_append2) (rule nb)
  ultimately show ?thesis using validate_destination_safe [OF a(3)] a(4) by simp
qed

theorem ssh_args_boundary_witness:
  "dropWhile (\<lambda>a. a \<noteq> ''--'') [''-4q'', ''-p'', ''22'', ''-tt'', ''--'', ''box'', ''true'']
   = [''--'', ''box'', ''true'']"
proof -
  have "build_ssh_args [''-4q'', ''-p'', ''22''] [''-tt''] ''box'' ''true''
        = Inr [''-4q'', ''-p'', ''22'', ''-tt'', ''--'', ''box'', ''true'']"
    by code_simp
  from ssh_args_boundary [OF this] show ?thesis by simp
qed

end
