(* ===== verification/Mirror_Model.thy ===== *)
theory Mirror_Model
  imports Complex_Main State_Model Session_Inventory Shell_Words
begin

text \<open>
  The mirror snapshot: its types and its capture on the source host
  (\<open>internal/mirror/snapshot.go\<close>), and what the local host makes of a received one
  (\<open>internal/mirror/remote.go\<close>: the checks of \<open>DecodeSnapshot\<close>, \<open>SessionName\<close>, \<open>Discover\<close> and
  \<open>FilterSessions\<close>).

  The JSON decoder gives typed values. A nil slice or map differs from an empty one where the code
  asks for nil, so these fields are options. A value of type \<open>any\<close> is a \<open>json_value\<close>: null, a
  string, or the text that \<open>strconv.FormatFloat\<close>, \<open>strconv.Itoa\<close> or \<open>fmt.Sprint\<close> gives for it.
\<close>

section \<open>Data\<close>

datatype json_value = JV_Null | JV_String string | JV_Shown string

definition json_text :: "json_value \<Rightarrow> string \<times> bool" where
  "json_text v =
     (case v of JV_Null \<Rightarrow> ([], False) | JV_String x \<Rightarrow> (x, x \<noteq> []) | JV_Shown x \<Rightarrow> (x, True))"

record rgb =
  rgb_r :: "8 word"
  rgb_g :: "8 word"
  rgb_b :: "8 word"

record segment =
  sg_label :: string
  sg_background :: rgb
  sg_foreground :: rgb

record mirror_terminal =
  mt_cwd :: string
  mt_process_tags :: "string list"
  mt_session :: string
  mt_project :: "segment list"

record mirror_workspace =
  wk_id :: string
  wk_index :: int
  wk_name :: string
  wk_output :: string

record mirror_window =
  mw_order :: int
  mw_source_id :: int
  mw_key :: string
  mw_app_id :: string
  mw_title :: string
  mw_pid :: int
  mw_workspace_id :: string
  mw_workspace_index :: int
  mw_workspace_name :: string
  mw_output :: string
  mw_position :: "float64 list"
  mw_tile_size :: "float64 list"
  mw_window_size :: "int list"
  mw_is_focused :: bool
  mw_is_floating :: bool
  mw_headless :: bool
  mw_session :: string
  mw_terminal :: "mirror_terminal option"

record mirror_snapshot =
  sn_host :: string
  sn_profile :: string
  sn_generated_at :: gotime
  sn_workspaces :: "mirror_workspace list option"
  sn_active :: "string list option"
  sn_ids :: "(string \<times> string) list option"
  sn_windows :: "mirror_window list option"

text \<open>The ranges of the program over a possibly nil slice of windows.\<close>

definition snapshot_windows :: "mirror_snapshot \<Rightarrow> mirror_window list" where
  "snapshot_windows sn = (case sn_windows sn of None \<Rightarrow> [] | Some ws \<Rightarrow> ws)"

definition snapshot_inventory :: "mirror_snapshot \<Rightarrow> session_inventory" where
  "snapshot_inventory sn =
     \<lparr>si_generated_at = sn_generated_at sn, si_active = sn_active sn, si_ids = sn_ids sn\<rparr>"

definition snapshot_exact_id :: "mirror_snapshot \<Rightarrow> string \<Rightarrow> inventory_error + string" where
  "snapshot_exact_id sn n = exact_session_id (snapshot_inventory sn) n"

section \<open>Sessions of a snapshot\<close>

definition session_name :: "mirror_window \<Rightarrow> string" where
  "session_name w =
     (if trim_space (mw_session w) \<noteq> [] then trim_space (mw_session w)
      else case mw_terminal w of Some t \<Rightarrow> trim_space (mt_session t) | None \<Rightarrow> [])"

definition discover_less :: "mirror_window \<Rightarrow> mirror_window \<Rightarrow> bool" where
  "discover_less a b =
     (if mw_order a \<noteq> mw_order b then mw_order a < mw_order b
      else if mw_workspace_index a \<noteq> mw_workspace_index b
      then mw_workspace_index a < mw_workspace_index b
      else if mw_title a \<noteq> mw_title b then mw_title a < mw_title b
      else mw_source_id a < mw_source_id b)"

fun discover_from :: "string list \<Rightarrow> mirror_window list \<Rightarrow> mirror_window list" where
  "discover_from seen [] = []"
| "discover_from seen (w # ws) =
     (if \<not> mw_headless w \<and> \<not> equal_fold (trim_space (mw_app_id w)) ''kitty''
      then discover_from seen ws
      else if session_name w = [] \<or> session_name w \<in> set seen then discover_from seen ws
      else w # discover_from (session_name w # seen) ws)"

definition discover :: "mirror_snapshot \<Rightarrow> mirror_window list" where
  "discover sn = stable_sort discover_less (discover_from [] (snapshot_windows sn))"

datatype filter_error = No_Session_Given | Empty_Session | Sessions_Not_Found "string list"

definition filter_sessions ::
    "mirror_window list \<Rightarrow> string list \<Rightarrow> filter_error + mirror_window list" where
  "filter_sessions windows sessions =
     (let wanted = map trim_space sessions;
          found = map session_name (filter (\<lambda>w. session_name w \<in> set wanted) windows);
          missing = sort_strings (remdups (filter (\<lambda>s. s \<notin> set found) wanted))
      in if sessions = [] then Inl No_Session_Given
         else if [] \<in> set wanted then Inl Empty_Session
         else if missing \<noteq> [] then Inl (Sessions_Not_Found missing)
         else Inr (filter (\<lambda>w. session_name w \<in> set wanted) windows))"

section \<open>Receiving a snapshot\<close>

datatype decode_error =
    Undecodable_Snapshot
  | Host_Empty
  | Generated_At_Empty
  | Windows_Missing
  | Bad_Inventory inventory_error
  | Too_Many_Segments nat
  | Unsafe_Label nat
  | Invalid_Headless nat
  | Lacks_Identity nat

definition safe_label :: "string \<Rightarrow> bool" where
  "safe_label l \<longleftrightarrow>
     trim_space l \<noteq> [] \<and> length (trim_space l) \<le> 4096 \<and> \<not> has_control (trim_space l)"

definition check_window :: "nat \<Rightarrow> mirror_window \<Rightarrow> decode_error option" where
  "check_window i w =
     (let project = (case mw_terminal w of None \<Rightarrow> [] | Some t \<Rightarrow> mt_project t) in
      if 2 < length project then Some (Too_Many_Segments i)
      else if \<not> list_all (\<lambda>s. safe_label (sg_label s)) project then Some (Unsafe_Label i)
      else if mw_headless w
      then (if mw_source_id w \<noteq> 0 \<or> trim_space (mw_app_id w) \<noteq> ''zellij'' \<or> session_name w = []
            then Some (Invalid_Headless i) else None)
      else if mw_source_id w \<le> 0 \<or> trim_space (mw_app_id w) = [] then Some (Lacks_Identity i)
      else None)"

fun check_windows :: "nat \<Rightarrow> mirror_window list \<Rightarrow> decode_error option" where
  "check_windows i [] = None"
| "check_windows i (w # ws) =
     (case check_window i w of Some e \<Rightarrow> Some e | None \<Rightarrow> check_windows (Suc i) ws)"

text \<open>\<open>DecodeSnapshot\<close> of the value that the JSON text decodes to, if it does.\<close>

definition decode_snapshot :: "mirror_snapshot option \<Rightarrow> decode_error + mirror_snapshot" where
  "decode_snapshot decoded =
     (case decoded of
        None \<Rightarrow> Inl Undecodable_Snapshot
      | Some sn \<Rightarrow>
          if trim_space (sn_host sn) = [] then Inl Host_Empty
          else if is_zero_time (sn_generated_at sn) then Inl Generated_At_Empty
          else case sn_windows sn of
              None \<Rightarrow> Inl Windows_Missing
            | Some ws \<Rightarrow>
                (case (if sn_ids sn = None then None else validate_inventory (snapshot_inventory sn)) of
                   Some e \<Rightarrow> Inl (Bad_Inventory e)
                 | None \<Rightarrow>
                     (case check_windows 0 ws of Some e \<Rightarrow> Inl e | None \<Rightarrow> Inr sn)))"

section \<open>Taking a snapshot\<close>

record raw_workspace =
  rw_id :: json_value
  rw_index :: int
  rw_name :: json_value
  rw_output :: string

record raw_window =
  rx_id :: int
  rx_app_id :: json_value
  rx_title :: string
  rx_workspace_id :: json_value
  rx_pid :: int
  rx_is_focused :: bool
  rx_is_floating :: bool
  rx_pos :: "float64 list"
  rx_tile_size :: "float64 list"
  rx_window_size :: "int list"

record raw_payload =
  rp_workspaces :: "raw_workspace list option"
  rp_windows :: "raw_window list"

text \<open>\<open>parsePayload\<close>: the two attempts of the decoder, an object or a bare list of windows.\<close>

definition parse_payload :: "raw_payload option \<Rightarrow> raw_window list option \<Rightarrow> raw_payload option" where
  "parse_payload as_object as_windows =
     (case as_object of
        Some p \<Rightarrow> Some p
      | None \<Rightarrow> map_option (\<lambda>ws. \<lparr>rp_workspaces = None, rp_windows = ws\<rparr>) as_windows)"

definition workspace_of_raw :: "raw_workspace \<Rightarrow> mirror_workspace" where
  "workspace_of_raw w =
     \<lparr>wk_id = fst (json_text (rw_id w)), wk_index = rw_index w,
      wk_name = fst (json_text (rw_name w)), wk_output = rw_output w\<rparr>"

fun raw_workspace_refs ::
    "raw_workspace list \<Rightarrow> (string \<times> mirror_workspace) list \<Rightarrow> (string \<times> mirror_workspace) list"
where
  "raw_workspace_refs [] refs = refs"
| "raw_workspace_refs (w # ws) refs =
     raw_workspace_refs ws
       (let v = workspace_of_raw w in if wk_id v = [] then refs else AList.update (wk_id v) v refs)"

definition workspace_before :: "mirror_workspace \<Rightarrow> mirror_workspace \<Rightarrow> bool" where
  "workspace_before a b =
     (if wk_index a \<noteq> wk_index b then wk_index a < wk_index b else wk_id a < wk_id b)"

definition snapshot_workspaces :: "raw_workspace list option \<Rightarrow> mirror_workspace list option" where
  "snapshot_workspaces wss =
     map_option (\<lambda>ws. stable_sort workspace_before (map workspace_of_raw ws)) wss"

text \<open>The value of a finite float64, as the JSON decoder produces them.\<close>

definition float_value :: "float64 \<Rightarrow> rat" where
  "float_value x =
     (let biased = unat (take_bit 11 (drop_bit 52 x));
          fraction = uint (take_bit 52 x);
          significand = (if biased = 0 then fraction else fraction + 2 ^ 52);
          scale = (if biased = 0 then 1 else biased);
          magnitude =
            (if 1075 \<le> scale then of_int (significand * 2 ^ (scale - 1075))
             else of_int significand / 2 ^ (1075 - scale))
      in if bit x 63 then - magnitude else magnitude)"

definition sort_workspace_index :: "int \<Rightarrow> int" where
  "sort_workspace_index i = (if 0 < i then i else 2 ^ 63 - 1)"

fun sort_position :: "float64 list \<Rightarrow> rat \<times> rat" where
  "sort_position [] = (2 ^ 30, 2 ^ 30)"
| "sort_position [x] = (float_value x, 2 ^ 30)"
| "sort_position (x # y # zs) = (float_value x, float_value y)"

text \<open>\<open>orderedWindow\<close>: a window of the snapshot with the raw window it comes from.\<close>

definition less_window :: "mirror_window \<times> raw_window \<Rightarrow> mirror_window \<times> raw_window \<Rightarrow> bool" where
  "less_window a b =
     (let l = sort_workspace_index (mw_workspace_index (fst a));
          r = sort_workspace_index (mw_workspace_index (fst b));
          p = sort_position (rx_pos (snd a));
          q = sort_position (rx_pos (snd b))
      in if l \<noteq> r then l < r
         else if fst p \<noteq> fst q then fst p < fst q
         else if snd p \<noteq> snd q then snd p < snd q
         else if mw_source_id (fst a) \<noteq> mw_source_id (fst b)
         then mw_source_id (fst a) < mw_source_id (fst b)
         else mw_key (fst a) < mw_key (fst b))"

text \<open>
  What a capture asks of the process table, the project resolver and the session catalog. An
  enrichment that fails is \<^term>\<open>None\<close>; \<open>ct_inventory\<close> is the answer of
  \<open>ObserveSessionInventory\<close>.
\<close>

record capture_tools =
  ct_enrich :: "window \<Rightarrow> terminal option option"
  ct_project :: "string \<Rightarrow> segment list"
  ct_session_cwd :: "string \<Rightarrow> string"
  ct_inventory :: "inventory_error + session_inventory"

datatype snapshot_error = Payload_Failed | Enrich_Failed string | Inventory_Failed inventory_error

definition empty_mirror_workspace :: mirror_workspace where
  "empty_mirror_workspace = \<lparr>wk_id = [], wk_index = 0, wk_name = [], wk_output = []\<rparr>"

definition model_window :: "raw_window \<Rightarrow> window" where
  "model_window r =
     (let app = fst (json_text (rx_app_id r)) in
      \<lparr>w_key = ''w:'' @ app @ '':'' @ show_int (rx_id r), w_app_id = app,
       w_workspace_id = fst (json_text (rx_workspace_id r)), w_workspace_ref = None,
       w_pid = rx_pid r, w_title = rx_title r, w_is_focused = False, w_placement = None,
       w_terminal = None\<rparr>)"

definition source_terminal :: "capture_tools \<Rightarrow> terminal \<Rightarrow> mirror_terminal" where
  "source_terminal c t =
     \<lparr>mt_cwd = t_cwd t, mt_process_tags = t_process_tags t, mt_session = t_session_tag t,
      mt_project = ct_project c (t_cwd t)\<rparr>"

definition capture_window ::
    "capture_tools \<Rightarrow> (string \<times> mirror_workspace) list \<Rightarrow> raw_window
     \<Rightarrow> snapshot_error + mirror_window \<times> raw_window"
where
  "capture_window c refs r =
     (let m = model_window r;
          ref = (case map_of refs (w_workspace_id m) of
                   None \<Rightarrow> empty_mirror_workspace | Some v \<Rightarrow> v)
      in case ct_enrich c m of
           None \<Rightarrow> Inl (Enrich_Failed (w_key m))
         | Some term \<Rightarrow>
             Inr (\<lparr>mw_order = 0, mw_source_id = rx_id r, mw_key = w_key m, mw_app_id = w_app_id m,
                   mw_title = rx_title r, mw_pid = rx_pid r, mw_workspace_id = w_workspace_id m,
                   mw_workspace_index = wk_index ref, mw_workspace_name = wk_name ref,
                   mw_output = wk_output ref, mw_position = rx_pos r,
                   mw_tile_size = rx_tile_size r, mw_window_size = rx_window_size r,
                   mw_is_focused = rx_is_focused r, mw_is_floating = rx_is_floating r,
                   mw_headless = False,
                   mw_session = (case term of None \<Rightarrow> [] | Some t \<Rightarrow> t_session_tag t),
                   mw_terminal = map_option (source_terminal c) term\<rparr>, r))"

fun capture_windows ::
    "capture_tools \<Rightarrow> (string \<times> mirror_workspace) list \<Rightarrow> raw_window list
     \<Rightarrow> snapshot_error + (mirror_window \<times> raw_window) list"
where
  "capture_windows c refs [] = Inr []"
| "capture_windows c refs (r # rs) =
     and_then (capture_window c refs r)
       (\<lambda>e. and_then (capture_windows c refs rs) (\<lambda>es. Inr (e # es)))"

text \<open>\<open>entry.window.Order = i\<close> over the sorted entries.\<close>

definition number_windows :: "(mirror_window \<times> raw_window) list \<Rightarrow> mirror_window list" where
  "number_windows es = map (\<lambda>(i, e). (fst e)\<lparr>mw_order := int i\<rparr>) (enumerate 0 es)"

definition headless_window :: "capture_tools \<Rightarrow> nat \<Rightarrow> string \<Rightarrow> mirror_window" where
  "headless_window c i s =
     (let cwd = trim_space (ct_session_cwd c s) in
      \<lparr>mw_order = int i, mw_source_id = 0, mw_key = ''zellij:'' @ s, mw_app_id = ''zellij'',
       mw_title = s, mw_pid = 0, mw_workspace_id = [], mw_workspace_index = 0,
       mw_workspace_name = [], mw_output = [], mw_position = [], mw_tile_size = [],
       mw_window_size = [], mw_is_focused = False, mw_is_floating = False, mw_headless = True,
       mw_session = s,
       mw_terminal = Some \<lparr>mt_cwd = cwd, mt_process_tags = [], mt_session = s,
                           mt_project = ct_project c cwd\<rparr>\<rparr>)"

fun add_headless ::
    "capture_tools \<Rightarrow> string list \<Rightarrow> mirror_window list \<Rightarrow> string list \<Rightarrow> mirror_window list" where
  "add_headless c shown windows [] = windows"
| "add_headless c shown windows (s # ss) =
     add_headless c shown
       (if s \<in> set shown then windows else windows @ [headless_window c (length windows) s]) ss"

definition default_text :: "string \<Rightarrow> string \<Rightarrow> string" where
  "default_text d s = (if trim_space s = [] then d else s)"

definition capture_snapshot ::
    "capture_tools \<Rightarrow> string \<Rightarrow> string \<Rightarrow> gotime \<Rightarrow> bool \<Rightarrow> raw_payload option
     \<Rightarrow> snapshot_error + mirror_snapshot"
where
  "capture_snapshot c host profile generated_at observe_sessions parsed =
     (case parsed of
        None \<Rightarrow> Inl Payload_Failed
      | Some p \<Rightarrow>
          and_then (capture_windows c
                      (raw_workspace_refs (case rp_workspaces p of None \<Rightarrow> [] | Some ws \<Rightarrow> ws) [])
                      (rp_windows p))
            (\<lambda>entries.
               let visible = number_windows (stable_sort less_window entries);
                   shown = filter (\<lambda>s. s \<noteq> []) (map session_name visible);
                   snap = (\<lambda>active ids windows.
                     \<lparr>sn_host = default_text ''local'' host,
                      sn_profile = default_text ''default'' profile,
                      sn_generated_at = generated_at,
                      sn_workspaces = snapshot_workspaces (rp_workspaces p),
                      sn_active = active, sn_ids = ids, sn_windows = Some windows\<rparr>)
               in if \<not> observe_sessions then Inr (snap None None visible)
                  else case ct_inventory c of
                      Inl e \<Rightarrow> Inl (Inventory_Failed e)
                    | Inr inven \<Rightarrow>
                        Inr (snap (si_active inven) (si_ids inven)
                               (add_headless c shown visible
                                  (case si_active inven of None \<Rightarrow> [] | Some ss \<Rightarrow> ss)))))"

section \<open>Lemmas on sessions\<close>

lemma session_name_headless [simp]: "session_name (headless_window c i s) = trim_space s"
  by (simp add: session_name_def headless_window_def Let_def)

lemma trim_session_name [simp]: "trim_space (session_name w) = session_name w"
  by (auto simp: session_name_def split: option.split)

lemma session_name_order [simp]: "session_name (w\<lparr>mw_order := i\<rparr>) = session_name w"
  by (simp add: session_name_def)

lemma discover_from_subset: "set (discover_from seen ws) \<subseteq> set ws"
  by (induction ws arbitrary: seen) auto

lemma discover_from_names:
  "session_name ` set (discover_from seen ws) =
     {session_name w | w. w \<in> set ws
        \<and> (mw_headless w \<or> equal_fold (trim_space (mw_app_id w)) ''kitty'')
        \<and> session_name w \<noteq> []} - set seen"
  by (induction ws arbitrary: seen) auto

lemma discover_from_distinct: "distinct (map session_name (discover_from seen ws))"
proof (induction ws arbitrary: seen)
  case (Cons w ws)
  have "session_name w \<notin> session_name ` set (discover_from (session_name w # seen) ws)"
    by (simp add: discover_from_names)
  with Cons show ?case by simp
qed simp

lemma discover_distinct: "distinct (map session_name (discover sn))"
  by (simp add: discover_def distinct_map_stable_sort discover_from_distinct)

section \<open>Lemmas on the checks of a received snapshot\<close>

lemma check_windows_None:
  "check_windows i ws = None \<longleftrightarrow> (\<forall>k < length ws. check_window (i + k) (ws ! k) = None)"
proof (induction ws arbitrary: i)
  case (Cons w ws)
  show ?case
    by (cases "check_window i w") (auto simp: Cons less_Suc_eq_0_disj)
qed simp

lemma check_windows_Some:
  "check_windows i ws = Some e \<Longrightarrow> \<exists>k. \<exists>w \<in> set ws. check_window k w = Some e"
  by (induction i ws rule: check_windows.induct) (auto split: option.splits)

lemma check_window_None_index: "check_window i w = None \<longleftrightarrow> check_window 0 w = None"
  by (simp add: check_window_def Let_def)

lemma check_windows_iff: "check_windows i ws = None \<longleftrightarrow> (\<forall>w \<in> set ws. check_window 0 w = None)"
  by (simp add: check_windows_None check_window_None_index [of "_ + _"] all_set_conv_all_nth)

section \<open>Lemmas on the capture\<close>

lemma snd_capture_window: "capture_window c refs r = Inr e \<Longrightarrow> snd e = r"
  by (auto simp: capture_window_def Let_def split: option.splits)

lemma capture_windows_Inr:
  assumes "capture_windows c refs rs = Inr es"
  shows "map snd es = rs \<and> (\<forall>e \<in> set es. capture_window c refs (snd e) = Inr e)"
  using assms
proof (induction rs arbitrary: es)
  case (Cons r rs)
  then obtain e es' where e: "capture_window c refs r = Inr e"
    and es': "capture_windows c refs rs = Inr es'" and es: "es = e # es'"
    by (auto simp: and_then_Inr_iff)
  from Cons.IH [OF es'] snd_capture_window [OF e] e show ?case by (simp add: es)
qed simp

lemma capture_window_fields:
  assumes "capture_window c refs r = Inr e"
  shows "mw_source_id (fst e) = rx_id r \<and> mw_app_id (fst e) = fst (json_text (rx_app_id r))
    \<and> \<not> mw_headless (fst e)
    \<and> (mw_terminal (fst e) = None
       \<or> (\<exists>t. mw_terminal (fst e) = Some (source_terminal c t)))"
  using assms by (auto simp: capture_window_def model_window_def Let_def split: option.splits)

lemma number_windows_nth:
  "number_windows es = map (\<lambda>i. (fst (es ! i))\<lparr>mw_order := int i\<rparr>) [0..<length es]"
  by (rule nth_equalityI) (simp_all add: number_windows_def enumerate_eq_zip)

lemma number_windows_orders: "map mw_order (number_windows es) = map int [0..<length es]"
  by (simp add: number_windows_nth)

lemma length_number_windows [simp]: "length (number_windows es) = length es"
  by (simp add: number_windows_def)

lemma set_number_windows:
  assumes "w \<in> set (number_windows es)"
  shows "\<exists>e \<in> set es. \<exists>i. w = (fst e)\<lparr>mw_order := i\<rparr>"
proof -
  from assms obtain i where "i < length es" "w = (fst (es ! i))\<lparr>mw_order := int i\<rparr>"
    by (auto simp: number_windows_nth)
  then show ?thesis using nth_mem by blast
qed

lemma number_windows_set:
  assumes "e \<in> set es"
  shows "\<exists>i. (fst e)\<lparr>mw_order := i\<rparr> \<in> set (number_windows es)"
proof -
  from assms obtain i where "i < length es" "e = es ! i" by (auto simp: in_set_conv_nth)
  then show ?thesis by (intro exI [of _ "int i"]) (simp add: number_windows_nth)
qed

lemma add_headless_eq:
  "\<exists>hs. add_headless c shown ws ss = ws @ hs
     \<and> set hs \<subseteq> {headless_window c i s | i s. s \<in> set ss}
     \<and> map mw_session hs = filter (\<lambda>s. s \<notin> set shown) ss
     \<and> map mw_order hs = map int [length ws..<length ws + length hs]"
proof (induction ss arbitrary: ws)
  case (Cons s ss)
  show ?case
  proof (cases "s \<in> set shown")
    case True
    obtain hs where hs: "add_headless c shown ws ss = ws @ hs"
      "set hs \<subseteq> {headless_window c i s | i s. s \<in> set ss}"
      "map mw_session hs = filter (\<lambda>s. s \<notin> set shown) ss"
      "map mw_order hs = map int [length ws..<length ws + length hs]"
      using Cons [of ws] by blast
    have "set hs \<subseteq> {headless_window c i t | i t. t \<in> set (s # ss)}"
      by (rule order_trans [OF hs(2)]) (auto intro: list.set_intros)
    with hs True show ?thesis by (intro exI [of _ hs]) simp
  next
    case False
    let ?w = "headless_window c (length ws) s"
    obtain hs where hs: "add_headless c shown (ws @ [?w]) ss = (ws @ [?w]) @ hs"
      "set hs \<subseteq> {headless_window c i s | i s. s \<in> set ss}"
      "map mw_session hs = filter (\<lambda>s. s \<notin> set shown) ss"
      "map mw_order hs = map int [length (ws @ [?w])..<length (ws @ [?w]) + length hs]"
      using Cons [of "ws @ [?w]"] by blast
    have upt: "[length ws..<length ws + length (?w # hs)]
        = length ws # [Suc (length ws)..<Suc (length ws) + length hs]"
      using upt_conv_Cons [of "length ws" "length ws + Suc (length hs)"] by simp
    have order: "mw_order ?w = int (length ws)" and session: "mw_session ?w = s"
      by (simp_all add: headless_window_def Let_def)
    have "map mw_order (?w # hs) = map int [length ws..<length ws + length (?w # hs)]"
      unfolding upt using hs(4) order by (simp del: upt_Suc)
    moreover have "set (?w # hs) \<subseteq> {headless_window c i t | i t. t \<in> set (s # ss)}"
      using order_trans [OF hs(2), of "{headless_window c i t | i t. t \<in> set (s # ss)}"] by auto
    moreover have "map mw_session (?w # hs) = filter (\<lambda>s. s \<notin> set shown) (s # ss)"
      using hs(3) False session by simp
    moreover have "add_headless c shown ws (s # ss) = ws @ (?w # hs)" using hs(1) False by simp
    ultimately show ?thesis by blast
  qed
qed simp

text \<open>What a successful capture returned, in one piece.\<close>

lemma capture_snapshot_Inr:
  assumes "capture_snapshot c host profile t obs (Some p) = Inr sn"
  obtains entries hs where
    "capture_windows c (raw_workspace_refs (case rp_workspaces p of None \<Rightarrow> [] | Some ws \<Rightarrow> ws) [])
       (rp_windows p) = Inr entries"
    and "sn_windows sn = Some (number_windows (stable_sort less_window entries) @ hs)"
    and "set hs \<subseteq> {headless_window c i s | i s.
           s \<in> set (case sn_active sn of None \<Rightarrow> [] | Some ss \<Rightarrow> ss)}"
    and "map mw_session hs =
           filter (\<lambda>s. s \<notin> set (filter (\<lambda>s. s \<noteq> [])
               (map session_name (number_windows (stable_sort less_window entries)))))
             (case sn_active sn of None \<Rightarrow> [] | Some ss \<Rightarrow> ss)"
    and "map mw_order hs = map int [length entries..<length entries + length hs]"
    and "sn_host sn = default_text ''local'' host" and "sn_generated_at sn = t"
    and "if obs then \<exists>inven. ct_inventory c = Inr inven
             \<and> sn_active sn = si_active inven \<and> sn_ids sn = si_ids inven
         else sn_active sn = None \<and> sn_ids sn = None"
proof -
  obtain entries where e:
    "capture_windows c (raw_workspace_refs (case rp_workspaces p of None \<Rightarrow> [] | Some ws \<Rightarrow> ws) [])
       (rp_windows p) = Inr entries"
    using assms by (auto simp: capture_snapshot_def and_then_Inr_iff)
  define visible where "visible = number_windows (stable_sort less_window entries)"
  have len: "length visible = length entries" by (simp add: visible_def)
  show thesis
  proof (cases obs)
    case False
    then show thesis
      using assms e by (intro that [of entries "[]"]) (auto simp: capture_snapshot_def Let_def)
  next
    case True
    then obtain inven where inven: "ct_inventory c = Inr inven"
      using assms e by (auto simp: capture_snapshot_def Let_def split: sum.splits)
    define active where "active = (case si_active inven of None \<Rightarrow> [] | Some ss \<Rightarrow> ss)"
    define shown where "shown = filter (\<lambda>s. s \<noteq> []) (map session_name visible)"
    obtain hs where hs: "add_headless c shown visible active = visible @ hs"
      "set hs \<subseteq> {headless_window c i s | i s. s \<in> set active}"
      "map mw_session hs = filter (\<lambda>s. s \<notin> set shown) active"
      "map mw_order hs = map int [length visible..<length visible + length hs]"
      using add_headless_eq by blast
    have sn: "sn = \<lparr>sn_host = default_text ''local'' host,
        sn_profile = default_text ''default'' profile, sn_generated_at = t,
        sn_workspaces = snapshot_workspaces (rp_workspaces p), sn_active = si_active inven,
        sn_ids = si_ids inven, sn_windows = Some (visible @ hs)\<rparr>"
      using assms e True inven hs(1)
      by (simp add: capture_snapshot_def Let_def visible_def shown_def active_def)
    show thesis
      by (rule that [OF e, of hs])
        (use hs sn True inven len in \<open>auto simp: visible_def active_def shown_def\<close>)
  qed
qed

section \<open>Properties\<close>

text \<open>The windows of a capture that a receiver accepts.\<close>

lemma check_window_visible:
  assumes e: "capture_window c refs r = Inr e"
    and tools: "\<And>d. length (ct_project c d) \<le> 2
      \<and> list_all (\<lambda>g. safe_label (sg_label g)) (ct_project c d)"
  shows "check_window k ((fst e)\<lparr>mw_order := i\<rparr>) =
    (if 0 < rx_id r \<and> trim_space (fst (json_text (rx_app_id r))) \<noteq> [] then None
     else Some (Lacks_Identity k))"
proof -
  have project: "length (mt_project tm) \<le> 2 \<and> list_all (\<lambda>g. safe_label (sg_label g)) (mt_project tm)"
    if "mw_terminal (fst e) = Some tm" for tm
    using capture_window_fields [OF e] that tools by (auto simp: source_terminal_def)
  show ?thesis
    using capture_window_fields [OF e] project
    by (cases "mw_terminal (fst e)") (auto simp: check_window_def Let_def)
qed

lemma check_window_headless:
  assumes tools: "\<And>d. length (ct_project c d) \<le> 2
      \<and> list_all (\<lambda>g. safe_label (sg_label g)) (ct_project c d)"
    and s: "trim_space s \<noteq> []"
  shows "check_window k (headless_window c i s) = None"
proof -
  have "trim_space ''zellij'' = ''zellij''" by code_simp
  then show ?thesis
    using session_name_headless [of c i s] s
      tools [of "trim_space (ct_session_cwd c s)"]
    by (simp add: check_window_def headless_window_def Let_def)
qed

lemma validate_inventory_names:
  assumes "validate_inventory inven = None" and "si_active inven = Some active" and "n \<in> set active"
  shows "trim_space n \<noteq> []"
proof -
  from assms obtain ids where "check_incarnations ids [] [] active = None"
    by (auto simp: validate_inventory_def split: option.splits if_splits)
  from check_incarnations_None [OF this] assms(3) show ?thesis
    by (auto simp: validate_session_def)
qed

definition ex_tools :: capture_tools where
  "ex_tools =
     \<lparr>ct_enrich = (\<lambda>w. if w_app_id w = ''kitty''
         then Some (Some \<lparr>t_cwd = ''/w'', t_process_tags = [], t_session_tag = ''a'',
                          t_session_tag_exact = True\<rparr>)
         else Some None),
      ct_project = (\<lambda>d. []), ct_session_cwd = (\<lambda>s. ''/h''),
      ct_inventory = Inr \<lparr>si_generated_at = 5, si_active = Some [''a'', ''b''],
                          si_ids = Some [(''a'', ex_id 1), (''b'', ex_id 2)]\<rparr>\<rparr>"

definition ex_raw :: "int \<Rightarrow> json_value \<Rightarrow> raw_window" where
  "ex_raw i app =
     \<lparr>rx_id = i, rx_app_id = app, rx_title = ''t'', rx_workspace_id = JV_Shown ''1'', rx_pid = 9,
      rx_is_focused = False, rx_is_floating = False, rx_pos = [], rx_tile_size = [],
      rx_window_size = []\<rparr>"

definition ex_payload :: raw_payload where
  "ex_payload =
     \<lparr>rp_workspaces = Some [\<lparr>rw_id = JV_Shown ''1'', rw_index = 1, rw_name = JV_Null,
                             rw_output = ''DP-1''\<rparr>],
      rp_windows = [ex_raw 4 JV_Null, ex_raw 3 (JV_String ''kitty'')]\<rparr>"

text \<open>The windows of a captured snapshot, as the receiver checks them.\<close>

lemma check_captured_windows:
  assumes e: "capture_windows c refs raws = Inr entries"
    and hs: "\<And>w. w \<in> set hs \<Longrightarrow> \<exists>i s. w = headless_window c i s \<and> trim_space s \<noteq> []"
    and tools: "\<And>d. length (ct_project c d) \<le> 2
      \<and> list_all (\<lambda>g. safe_label (sg_label g)) (ct_project c d)"
  defines "ws \<equiv> number_windows (stable_sort less_window entries) @ hs"
    and "ok \<equiv> \<lambda>r. 0 < rx_id r \<and> trim_space (fst (json_text (rx_app_id r))) \<noteq> []"
  shows "if \<forall>r \<in> set raws. ok r then check_windows 0 ws = None
    else \<exists>i. check_windows 0 ws = Some (Lacks_Identity i)"
proof -
  let ?windows = "number_windows (stable_sort less_window entries)"
  note c = capture_windows_Inr [OF e]
  have headless: "check_window k w = None" if "w \<in> set hs" for k w
  proof -
    from hs [OF that] obtain i s where w: "w = headless_window c i s" "trim_space s \<noteq> []" by blast
    show ?thesis unfolding w(1) by (rule check_window_headless [OF tools w(2)])
  qed
  have seen: "check_window k ((fst x)\<lparr>mw_order := i\<rparr>) =
      (if ok (snd x) then None else Some (Lacks_Identity k))" if "x \<in> set entries" for k x i
    using c that check_window_visible [OF _ tools] unfolding ok_def by blast
  have raw: "set raws = snd ` set entries" using c by (metis list.set_map)
  have bad: "err = Lacks_Identity k \<and> (\<exists>r \<in> set raws. \<not> ok r)"
    if w: "w \<in> set ws" "check_window k w = Some err" for k w err
  proof -
    have "w \<in> set ?windows" using w headless by (auto simp: ws_def)
    then obtain x i where "x \<in> set entries" "w = (fst x)\<lparr>mw_order := i\<rparr>"
      using set_number_windows by fastforce
    with seen [of x k i] w(2) raw show ?thesis by (auto split: if_splits)
  qed
  have good: "ok r" if none: "check_windows 0 ws = None" and r: "r \<in> set raws" for r
  proof -
    from raw r obtain x where x: "x \<in> set entries" "r = snd x" by auto
    then obtain i where "(fst x)\<lparr>mw_order := i\<rparr> \<in> set ?windows"
      using number_windows_set [of x "stable_sort less_window entries"] by auto
    with none have "check_window 0 ((fst x)\<lparr>mw_order := i\<rparr>) = None" by (simp add: check_windows_iff ws_def)
    with seen [OF x(1), of 0 i] x(2) show ?thesis by (simp split: if_splits)
  qed
  show ?thesis
  proof (cases "check_windows 0 ws")
    case None
    with good show ?thesis by auto
  next
    case (Some err)
    with check_windows_Some [OF Some] bad show ?thesis by auto
  qed
qed

text \<open>
  C34: when the receiver refuses a captured snapshot. \<open>DecodeSnapshot\<close> returns the captured snapshot
  unchanged exactly when every Niri window had a positive identifier and an application name; one
  window without an application name, which Niri reports as null and the capture passes on, makes
  the receiver refuse the whole snapshot.
\<close>

theorem capture_decodable:
  assumes cap: "capture_snapshot c host profile t obs (Some p) = Inr sn"
    and time: "t \<noteq> 0"
    and tools: "\<And>d. length (ct_project c d) \<le> 2
      \<and> list_all (\<lambda>g. safe_label (sg_label g)) (ct_project c d)"
    and inven: "\<And>inven. ct_inventory c = Inr inven \<Longrightarrow> validate_inventory inven = None"
  shows "if \<forall>r \<in> set (rp_windows p). 0 < rx_id r \<and> trim_space (fst (json_text (rx_app_id r))) \<noteq> []
         then decode_snapshot (Some sn) = Inr sn
         else \<exists>i. decode_snapshot (Some sn) = Inl (Lacks_Identity i)"
proof -
  obtain entries hs where e: "capture_windows c
      (raw_workspace_refs (case rp_workspaces p of None \<Rightarrow> [] | Some ws \<Rightarrow> ws) []) (rp_windows p)
        = Inr entries"
    and ws: "sn_windows sn = Some (number_windows (stable_sort less_window entries) @ hs)"
    and hs: "set hs \<subseteq> {headless_window c i s | i s.
           s \<in> set (case sn_active sn of None \<Rightarrow> [] | Some ss \<Rightarrow> ss)}"
    and sn: "sn_host sn = default_text ''local'' host" "sn_generated_at sn = t"
    and obs: "if obs then \<exists>inven. ct_inventory c = Inr inven
             \<and> sn_active sn = si_active inven \<and> sn_ids sn = si_ids inven
         else sn_active sn = None \<and> sn_ids sn = None"
    by (rule capture_snapshot_Inr [OF cap]) blast
  have valid: "validate_inventory (snapshot_inventory sn) = None" if obs
  proof -
    from obs that obtain iv where "ct_inventory c = Inr iv"
      "sn_active sn = si_active iv" "sn_ids sn = si_ids iv" by auto
    with inven [of iv] time sn(2) show ?thesis
      by (auto simp: validate_inventory_def snapshot_inventory_def is_zero_time_def
          split: option.splits if_splits)
  qed
  have names: "trim_space s \<noteq> []" if s: "s \<in> set (case sn_active sn of None \<Rightarrow> [] | Some ss \<Rightarrow> ss)" for s
  proof -
    from s obtain ss where ss: "sn_active sn = Some ss" "s \<in> set ss" by (cases "sn_active sn") auto
    with obs have obs by (cases obs) auto
    from validate_inventory_names [OF valid [OF this]] ss show ?thesis
      by (simp add: snapshot_inventory_def)
  qed
  have h: "\<exists>i s. w = headless_window c i s \<and> trim_space s \<noteq> []" if "w \<in> set hs" for w
    using subsetD [OF hs that] names by blast
  note checked = check_captured_windows [where hs = hs, OF e h tools]
  have "trim_space ''local'' \<noteq> []" by code_simp
  then have "trim_space (sn_host sn) \<noteq> []" by (simp add: sn(1) default_text_def)
  moreover have "(if sn_ids sn = None then None else validate_inventory (snapshot_inventory sn)) = None"
    using valid obs by (cases obs) auto
  ultimately have "decode_snapshot (Some sn) =
      (case check_windows 0 (number_windows (stable_sort less_window entries) @ hs) of
         Some err \<Rightarrow> Inl err | None \<Rightarrow> Inr sn)"
    using time ws sn(2) by (simp add: decode_snapshot_def is_zero_time_def)
  with checked show ?thesis by (auto split: if_splits)
qed

theorem capture_decodable_witness:
  "\<exists>sn i. capture_snapshot ex_tools ''h'' ''p'' 5 True (Some ex_payload) = Inr sn
     \<and> decode_snapshot (Some sn) = Inl (Lacks_Identity i)"
proof -
  obtain sn where sn: "capture_snapshot ex_tools ''h'' ''p'' 5 True (Some ex_payload) = Inr sn"
    by (auto simp: capture_snapshot_def ex_payload_def ex_raw_def ex_tools_def capture_window_def
        model_window_def Let_def json_text_def)
  have "validate_inventory inven = None" if "ct_inventory ex_tools = Inr inven" for inven
  proof -
    have "case ct_inventory ex_tools of Inr iv \<Rightarrow> validate_inventory iv = None | Inl _ \<Rightarrow> True"
      by code_simp
    with that show ?thesis by simp
  qed
  from capture_decodable [OF sn _ _ this] sn show ?thesis
    by (auto simp: ex_tools_def ex_payload_def ex_raw_def json_text_def)
qed

text \<open>
  A captured snapshot shows every ACTIVE session exactly where it belongs. The order numbers
  are the positions; the headless entries, at the end, are the ACTIVE sessions, in inventory
  order, that no Niri window shows; so every ACTIVE session has an entry of its name.
\<close>

theorem capture_shows_sessions:
  assumes cap: "capture_snapshot c host profile t True (Some p) = Inr sn"
  shows "\<exists>visible headless active. snapshot_windows sn = visible @ headless
     \<and> sn_active sn = Some active
     \<and> map mw_order (snapshot_windows sn) = map int [0..<length (snapshot_windows sn)]
     \<and> list_all (\<lambda>w. \<not> mw_headless w) visible \<and> list_all mw_headless headless
     \<and> map mw_session headless =
         filter (\<lambda>s. s = [] \<or> s \<notin> set (map session_name visible)) active
     \<and> trim_space ` set active \<subseteq> session_name ` set (snapshot_windows sn)
   \<or> sn_active sn = None"
proof (cases "sn_active sn")
  case (Some active)
  obtain entries hs where e: "capture_windows c
      (raw_workspace_refs (case rp_workspaces p of None \<Rightarrow> [] | Some ws \<Rightarrow> ws) []) (rp_windows p)
        = Inr entries"
    and ws: "sn_windows sn = Some (number_windows (stable_sort less_window entries) @ hs)"
    and hs: "set hs \<subseteq> {headless_window c i s | i s. s \<in> set active}"
    and names: "map mw_session hs =
           filter (\<lambda>s. s \<notin> set (filter (\<lambda>s. s \<noteq> [])
               (map session_name (number_windows (stable_sort less_window entries))))) active"
    and orders: "map mw_order hs = map int [length entries..<length entries + length hs]"
    by (rule capture_snapshot_Inr [OF cap]) (simp add: Some)
  define visible where "visible = number_windows (stable_sort less_window entries)"
  have all: "snapshot_windows sn = visible @ hs" by (simp add: snapshot_windows_def ws visible_def)
  have "map mw_order (visible @ hs) = map int ([0..<length entries] @ [length entries..<length entries + length hs])"
    by (simp add: visible_def number_windows_orders orders)
  also have "\<dots> = map int [0..<length (visible @ hs)]"
    using upt_add_eq_append [of 0 "length entries" "length hs"] by (simp add: visible_def)
  finally have order: "map mw_order (snapshot_windows sn) = map int [0..<length (snapshot_windows sn)]"
    by (simp add: all)
  have "\<not> mw_headless w" if "w \<in> set visible" for w
  proof -
    from set_number_windows that obtain x i where x: "x \<in> set entries" "w = (fst x)\<lparr>mw_order := i\<rparr>"
      by (fastforce simp: visible_def)
    with capture_windows_Inr [OF e] have "capture_window c
        (raw_workspace_refs (case rp_workspaces p of None \<Rightarrow> [] | Some ws \<Rightarrow> ws) []) (snd x) = Inr x"
      by blast
    from capture_window_fields [OF this] x(2) show ?thesis by simp
  qed
  then have shown: "list_all (\<lambda>w. \<not> mw_headless w) visible" by (simp add: list_all_iff)
  have headless: "mw_headless w \<and> session_name w = trim_space (mw_session w)" if "w \<in> set hs" for w
  proof -
    from subsetD [OF hs that] obtain i s where "w = headless_window c i s" by blast
    then show ?thesis by (simp only: session_name_headless) (simp add: headless_window_def Let_def)
  qed
  then have hidden: "list_all mw_headless hs" by (simp add: list_all_iff)
  have filter_eq: "map mw_session hs = filter (\<lambda>s. s = [] \<or> s \<notin> set (map session_name visible)) active"
    using names by (simp add: visible_def) (metis (no_types, lifting))
  have "trim_space s \<in> session_name ` set (visible @ hs)" if s: "s \<in> set active" for s
  proof (cases "s = [] \<or> s \<notin> set (map session_name visible)")
    case True
    with s have "s \<in> set (map mw_session hs)" by (simp only: filter_eq) simp
    then obtain w where "w \<in> set hs" "mw_session w = s" by auto
    with headless [of w] have "w \<in> set (visible @ hs)" "trim_space s = session_name w" by auto
    then show ?thesis by (metis imageI)
  next
    case False
    then obtain w where "w \<in> set visible" "s = session_name w" by auto
    then show ?thesis by auto
  qed
  then have "trim_space ` set active \<subseteq> session_name ` set (snapshot_windows sn)"
    by (auto simp only: all image_subset_iff)
  with all Some order shown hidden filter_eq show ?thesis by blast
qed simp

theorem capture_shows_sessions_witness:
  "\<exists>sn. capture_snapshot ex_tools ''h'' ''p'' 5 True (Some ex_payload) = Inr sn
     \<and> map mw_order (snapshot_windows sn) = map int [0..<length (snapshot_windows sn)]"
proof -
  obtain sn where sn: "capture_snapshot ex_tools ''h'' ''p'' 5 True (Some ex_payload) = Inr sn"
    "sn_active sn \<noteq> None"
    by (auto simp: capture_snapshot_def ex_payload_def ex_raw_def ex_tools_def capture_window_def
        model_window_def Let_def json_text_def)
  from capture_shows_sessions [OF sn(1)] sn show ?thesis by blast
qed

end
