(* ===== verification/Projection.thy ===== *)
theory Projection
  imports Shell_Words
begin

text \<open>
  Recognition of projections by their process arguments, \<open>internal/mirror/projection.go\<close>: the one
  static remote command of earlier launches and the complete SSH argument vector around it.
  \<open>filepath.Clean\<close> is modelled on paths split at the separator.
\<close>

section \<open>Paths\<close>

fun split_path :: "string \<Rightarrow> string list" where
  "split_path [] = [[]]"
| "split_path (c # s) =
     (if c = CHR ''/'' then [] # split_path s
      else (case split_path s of l # ls \<Rightarrow> (c # l) # ls | [] \<Rightarrow> [[c]]))"

text \<open>The elements kept so far, last one first.\<close>

fun clean_elements :: "bool \<Rightarrow> string list \<Rightarrow> string list \<Rightarrow> string list" where
  "clean_elements rooted kept [] = rev kept"
| "clean_elements rooted kept (e # es) =
     (if e = [] \<or> e = ''.'' then clean_elements rooted kept es
      else if e = ''..'' then
        (case kept of
           k # ks \<Rightarrow> if k = ''..'' then clean_elements rooted (''..'' # kept) es
                    else clean_elements rooted ks es
         | [] \<Rightarrow> clean_elements rooted (if rooted then [] else [''..'']) es)
      else clean_elements rooted (e # kept) es)"

fun join_path :: "string list \<Rightarrow> string" where
  "join_path [] = []"
| "join_path [e] = e"
| "join_path (e # es) = e @ CHR ''/'' # join_path es"

definition is_abs :: "string \<Rightarrow> bool" where
  "is_abs p \<longleftrightarrow> p \<noteq> [] \<and> hd p = CHR ''/''"

definition path_clean :: "string \<Rightarrow> string" where
  "path_clean p =
     (let body = join_path (clean_elements (is_abs p) [] (split_path p))
      in if is_abs p then CHR ''/'' # body else if body = [] then ''.'' else body)"

definition same_executable_argv0 :: "string \<Rightarrow> string \<Rightarrow> bool" where
  "same_executable_argv0 observed configured =
     (if is_abs configured \<or> CHR ''/'' \<in> set configured
      then path_clean observed = path_clean configured else observed = configured)"

section \<open>The remote command\<close>

definition zellij_environment :: "string list" where
  "zellij_environment =
     [''ZELLIJ'', ''ZELLIJ_SESSION_NAME'', ''ZELLIJ_PANE_ID'', ''ZELLIJ_TAB_INDEX'', ''ZELLIJ_TAB_NAME'']"

definition env_prefix :: "string list" where
  "env_prefix = ''env'' # concat (map (\<lambda>n. [''-u'', n]) zellij_environment)"

definition token_assignment :: string where
  "token_assignment = ''REDEEM_PROJECTION_TOKEN=''"

text \<open>The optional change of directory before the command.\<close>

definition strip_cd :: "string \<Rightarrow> string option" where
  "strip_cd remote =
     (if \<not> prefix ''cd -- '' remote then Some remote
      else case consume_generated_shell_word (drop 6 remote) of
        None \<Rightarrow> None
      | Some (_, remainder) \<Rightarrow>
          if prefix '' 2>/dev/null || true; exec '' remainder
          then Some (drop (length '' 2>/dev/null || true; '') remainder) else None)"

text \<open>The session of the arguments after \<open>zellij attach\<close>.\<close>

definition attach_session :: "string list \<Rightarrow> string option" where
  "attach_session rest =
     (case rest of
        [a, s, b, c, d] \<Rightarrow>
          if a = ''--create'' \<and> b = ''options'' \<and> c = ''--on-force-close'' \<and> d = ''detach''
          then Some s else None
      | [s, b, c, d] \<Rightarrow>
          if b = ''options'' \<and> c = ''--on-force-close'' \<and> d = ''detach'' then Some s else None
      | [a, s] \<Rightarrow> if a = ''--'' \<and> prefix ''-'' s then Some s else None
      | _ \<Rightarrow> None)"

text \<open>The optional token assignment: the token and the remaining words, or a malformed token.\<close>

definition take_token :: "string list \<Rightarrow> (string \<times> string list) option" where
  "take_token rest =
     (case rest of
        w # ws \<Rightarrow>
          if prefix token_assignment w then
            (let token = drop (length token_assignment) w
             in if is_hex32 token then Some (token, ws) else None)
          else Some ([], rest)
      | [] \<Rightarrow> None)"

definition parse_projection_remote_command :: "string \<Rightarrow> (string \<times> string) option" where
  "parse_projection_remote_command remote0 =
     (case strip_cd remote0 of
        None \<Rightarrow> None
      | Some remote \<Rightarrow>
          if \<not> prefix ''exec '' remote then None
          else case parse_generated_shell_words (drop 5 remote) of
            None \<Rightarrow> None
          | Some words \<Rightarrow>
              if length words < length env_prefix + 4 \<or> take (length env_prefix) words \<noteq> env_prefix
              then None
              else case take_token (drop (length env_prefix) words) of
                None \<Rightarrow> None
              | Some (token, rest) \<Rightarrow>
                  (case rest of
                     a # b # args \<Rightarrow>
                       if length rest < 4 \<or> a \<noteq> ''zellij'' \<or> b \<noteq> ''attach'' then None
                       else (case attach_session args of
                           None \<Rightarrow> None
                         | Some session \<Rightarrow>
                             if validate_session session then Some (session, token) else None)
                   | _ \<Rightarrow> None))"

definition parse_projection_ssh_argv ::
    "string list \<Rightarrow> string \<Rightarrow> string list \<Rightarrow> (string \<times> string \<times> string) option"
where
  "parse_projection_ssh_argv argv ssh_command ssh_options =
     (let want = (if trim_space ssh_command = [] then ''ssh'' else trim_space ssh_command) in
      if length argv < 3 \<or> \<not> same_executable_argv0 (hd argv) want then None
      else
        (let host = argv ! (length argv - 2); remote = argv ! (length argv - 1) in
         case build_ssh_args ssh_options [''-tt''] host remote of
           Inl _ \<Rightarrow> None
         | Inr expected \<Rightarrow>
             if tl argv \<noteq> expected then None
             else (case parse_projection_remote_command remote of
                     None \<Rightarrow> None
                   | Some (session, token) \<Rightarrow> Some (host, session, token))))"

section \<open>The command of earlier launches\<close>

text \<open>The words such a launch ran for a session and a projection token.\<close>

definition launch_words :: "string \<Rightarrow> string \<Rightarrow> string list" where
  "launch_words session token =
     env_prefix @ [token_assignment @ token, ''zellij'', ''attach'', session, ''options'',
       ''--on-force-close'', ''detach'']"

definition launch_remote :: "string \<Rightarrow> string \<Rightarrow> string" where
  "launch_remote session token = ''exec '' @ quote_command (launch_words session token)"

section \<open>Lemmas\<close>

lemma length_env_prefix [simp]: "length env_prefix = 11"
  by (simp add: env_prefix_def zellij_environment_def)

lemma take_token_assignment:
  "is_hex32 token \<Longrightarrow> take_token ((token_assignment @ token) # ws) = Some (token, ws)"
  by (simp add: take_token_def)

lemma strip_cd_exec: "strip_cd (''exec '' @ r) = Some (''exec '' @ r)"
  by (simp add: strip_cd_def)

lemma parse_launch_remote:
  assumes "validate_session session" and "is_hex32 token"
  shows "parse_projection_remote_command (launch_remote session token) = Some (session, token)"
proof -
  have words: "parse_generated_shell_words (quote_command (launch_words session token))
      = Some (launch_words session token)"
    by (simp add: shell_words_exact_iff launch_words_def)
  have split: "take (length env_prefix) (launch_words session token) = env_prefix"
    "drop (length env_prefix) (launch_words session token) =
       [token_assignment @ token, ''zellij'', ''attach'', session, ''options'', ''--on-force-close'', ''detach'']"
    "length (launch_words session token) = 18"
    by (simp_all add: launch_words_def)
  have "drop 5 (''exec '' @ quote_command (launch_words session token))
        = quote_command (launch_words session token)" by simp
  then show ?thesis
    unfolding parse_projection_remote_command_def launch_remote_def strip_cd_exec option.case
    using words split take_token_assignment [OF assms(2)] assms(1)
    by (simp add: attach_session_def)
qed

lemma parse_remote_Some:
  assumes "parse_projection_remote_command remote = Some (session, token)"
  shows "validate_session session \<and> (token = [] \<or> is_hex32 token)"
  using assms
  by (auto simp: parse_projection_remote_command_def take_token_def Let_def
      split: option.splits list.splits if_splits prod.splits)

section \<open>Properties\<close>

text \<open>
  A launched projection is recognised. For every valid session name, projection token,
  destination, option list and remote-command executable, the argument vector that SSH was
  started with is parsed back to exactly that destination, session and token.
\<close>

theorem projection_argv_roundtrip:
  assumes "build_ssh_args opts [''-tt''] host (launch_remote session token) = Inr args"
    and "validate_session session" and "is_hex32 token"
    and "trim_space ssh = ssh" and "ssh \<noteq> []"
  shows "parse_projection_ssh_argv (ssh # args) ssh opts = Some (host, session, token)"
proof -
  have a: "args = opts @ [''-tt''] @ [''--'', host, launch_remote session token]"
    using build_ssh_args_Inr [OF assms(1)] by simp
  have "length (ssh # args) = length opts + 5" by (simp add: a)
  then have idx: "(ssh # args) ! (length (ssh # args) - 2) = host"
    "(ssh # args) ! (length (ssh # args) - 1) = launch_remote session token"
    by (simp_all add: a nth_append)
  have exe: "same_executable_argv0 ssh ssh" by (simp add: same_executable_argv0_def)
  show ?thesis
    unfolding parse_projection_ssh_argv_def Let_def idx
    using assms exe parse_launch_remote [OF assms(2,3)] by (simp add: a)
qed

theorem projection_argv_roundtrip_witness:
  "parse_projection_ssh_argv
     (''ssh'' # [''-4'', ''-tt'', ''--'', ''box'', launch_remote ''it's'' (replicate 32 CHR ''a'')])
     ''ssh'' [''-4''] = Some (''box'', ''it's'', replicate 32 CHR ''a'')"
proof -
  have "build_ssh_args [''-4''] [''-tt''] ''box'' (launch_remote ''it's'' (replicate 32 CHR ''a''))
        = Inr [''-4'', ''-tt'', ''--'', ''box'', launch_remote ''it's'' (replicate 32 CHR ''a'')]"
    by code_simp
  moreover have "validate_session ''it's''" "is_hex32 (replicate 32 CHR ''a'')"
    "trim_space ''ssh'' = ''ssh''"
    by code_simp+
  ultimately show ?thesis using projection_argv_roundtrip by simp
qed

text \<open>
  Nothing else is recognised. Whenever an argument vector is taken for a projection, its
  executable is the configured one, the rest is exactly what \<open>buildSSHArgs\<close> produces for the
  answered destination, the destination and the session are valid, and a token is either absent
  or well-formed.
\<close>

theorem projection_argv_sound:
  assumes "parse_projection_ssh_argv argv ssh opts = Some (host, session, token)"
  shows "validate_destination host \<and> validate_session session \<and> (token = [] \<or> is_hex32 token)
    \<and> (\<exists>exe remote. argv = exe # opts @ [''-tt'', ''--'', host, remote]
         \<and> same_executable_argv0 exe (if trim_space ssh = [] then ''ssh'' else trim_space ssh)
         \<and> parse_projection_remote_command remote = Some (session, token))"
proof -
  let ?want = "if trim_space ssh = [] then ''ssh'' else trim_space ssh"
  let ?host = "argv ! (length argv - 2)" and ?remote = "argv ! (length argv - 1)"
  have "\<not> (length argv < 3 \<or> \<not> same_executable_argv0 (hd argv) ?want)"
    using assms by (auto simp: parse_projection_ssh_argv_def Let_def split: if_splits)
  then have len: "\<not> length argv < 3" and exe: "same_executable_argv0 (hd argv) ?want" by auto
  obtain expected where b: "build_ssh_args opts [''-tt''] ?host ?remote = Inr expected"
    and tl: "tl argv = expected"
    and p: "parse_projection_remote_command ?remote = Some (session, token)" and h: "?host = host"
    using assms len exe
    by (auto simp: parse_projection_ssh_argv_def Let_def split: sum.splits if_splits option.splits prod.splits)
  have e: "expected = opts @ [''-tt''] @ [''--'', host, ?remote]" "validate_destination host"
    using build_ssh_args_Inr [OF b] h by auto
  have "argv = hd argv # opts @ [''-tt'', ''--'', host, ?remote]"
    using len tl e(1) by (cases argv) auto
  then show ?thesis using e(2) parse_remote_Some [OF p] exe p by blast
qed

theorem projection_argv_sound_witness:
  "validate_destination ''box'' \<and> validate_session ''a''"
proof -
  have "parse_projection_ssh_argv
     (''ssh'' # [''-tt'', ''--'', ''box'', launch_remote ''a'' (replicate 32 CHR ''a'')])
     '' '' [] = Some (''box'', ''a'', replicate 32 CHR ''a'')"
    by code_simp
  from projection_argv_sound [OF this] show ?thesis by blast
qed

end
