(* ===== verification/Session_Stream.thy ===== *)
theory Session_Stream
  imports Go_Prelude
begin

text \<open>
  The output side of one attachment transport: \<open>internal/mirror/session_stream.go\<close> with the marker
  of \<open>internal/mirror/session_attach.go\<close>. The decoder is fed chunks of terminal output, takes the
  lifecycle markers out of it and passes everything else through. Bytes are \<^typ>\<open>char\<close>.

  The code searches each chunk for the marker prefix; \<open>scan\<close> is the reference definition, which
  looks at one position at a time.
\<close>

section \<open>The marker\<close>

definition marker_prefix :: string where
  "marker_prefix = CHR 0x1E # ''REDEEM_ATTACH_V1:''"

definition marker_events :: "string list" where
  "marker_events =
     [''ready'', ''detached'', ''missing'', ''replaced'', ''unverifiable'', ''unsupported'', ''invalid'',
      ''failed'', ''cancelled'']"

definition attachment_marker :: "string \<Rightarrow> string \<Rightarrow> string" where
  "attachment_marker attempt ev =
     (if \<not> is_hex32 attempt then []
      else if ev \<in> set marker_events
      then marker_prefix @ attempt @ '':'' @ ev @ [CHR 0x1F] else [])"

section \<open>The decoder\<close>

record decoder =
  dc_attempt :: string
  dc_pending :: string
  dc_ready :: bool
  dc_finished :: bool

text \<open>\<open>bytes.Index\<close> and \<open>bytes.IndexByte\<close>.\<close>

fun index_sub :: "string \<Rightarrow> string \<Rightarrow> nat option" where
  "index_sub pat [] = (if pat = [] then Some 0 else None)"
| "index_sub pat (c # s) =
     (if prefix pat (c # s) then Some 0 else map_option Suc (index_sub pat s))"

fun index_byte :: "string \<Rightarrow> char \<Rightarrow> nat option" where
  "index_byte [] b = None"
| "index_byte (c # s) b = (if c = b then Some 0 else map_option Suc (index_byte s b))"

text \<open>The loop over \<open>n\<close>: the last length of a proper prefix of the marker prefix at the end.\<close>

definition keep_suffix :: "string \<Rightarrow> nat" where
  "keep_suffix p =
     fold (\<lambda>n keep. if suffix (take n marker_prefix) p then n else keep)
       [1..<min (length marker_prefix) (Suc (length p))] 0"

text \<open>A complete candidate: the marker's token and event if it is a valid marker.\<close>

definition parse_marker :: "string \<Rightarrow> (string \<times> string) option" where
  "parse_marker marker =
     (let inner = drop (length marker_prefix) (butlast marker);
          token = takeWhile (\<lambda>c. c \<noteq> CHR '':'') inner;
          ev = drop (length token + 1) inner
      in if CHR '':'' \<in> set inner \<and> attachment_marker token ev = marker
         then Some (token, ev) else None)"

text \<open>What a candidate does: the output it is passed on as, the events, and the new state.\<close>

definition take_marker :: "decoder \<Rightarrow> string \<Rightarrow> string \<times> string list \<times> decoder" where
  "take_marker d marker =
     (case parse_marker marker of
        None \<Rightarrow> (marker, [], d)
      | Some (token, ev) \<Rightarrow>
          if token \<noteq> dc_attempt d \<or> dc_finished d then ([], [], d)
          else if ev = ''ready'' then
            (if dc_ready d then ([], [], d) else ([], [ev], d\<lparr>dc_ready := True\<rparr>))
          else ([], [if ev = ''detached'' \<and> \<not> dc_ready d then ''failed'' else ev],
                d\<lparr>dc_finished := True\<rparr>))"

lemma index_sub_drop: "index_sub pat s = Some i \<Longrightarrow> prefix pat (drop i s) \<and> i \<le> length s"
  by (induction s arbitrary: i) (auto split: if_splits)

lemma index_sub_less: "index_sub pat s = Some i \<Longrightarrow> pat \<noteq> [] \<Longrightarrow> i < length s"
  by (induction s arbitrary: i) (auto split: if_splits)

lemma index_byte_less: "index_byte s b = Some i \<Longrightarrow> i < length s"
  by (induction s arbitrary: i) (auto split: if_splits)

lemma marker_prefix_nonempty [simp]: "marker_prefix \<noteq> []"
  by (simp add: marker_prefix_def)

function feed_loop ::
    "bool \<Rightarrow> decoder \<Rightarrow> string \<Rightarrow> string \<Rightarrow> string list \<Rightarrow> string \<times> string list \<times> decoder"
where
  "feed_loop eof d pending out events =
     (if pending = [] then (out, events, d\<lparr>dc_pending := []\<rparr>)
      else case index_sub marker_prefix pending of
        None \<Rightarrow>
          (let flush = length pending - (if eof then 0 else keep_suffix pending)
           in (out @ take flush pending, events, d\<lparr>dc_pending := drop flush pending\<rparr>))
      | Some start \<Rightarrow>
          (let out1 = out @ take start pending; p = drop start pending in
           case index_byte p (CHR 0x1F) of
             None \<Rightarrow>
               if length p < 128 \<and> \<not> eof then (out1, events, d\<lparr>dc_pending := p\<rparr>)
               else feed_loop eof d (drop 1 p) (out1 @ take 1 p) events
           | Some end_at \<Rightarrow>
               if 128 \<le> end_at then feed_loop eof d (drop 1 p) (out1 @ take 1 p) events
               else
                 (case take_marker d (take (end_at + 1) p) of
                    (text1, evs, d1) \<Rightarrow>
                      feed_loop eof d1 (drop (end_at + 1) p) (out1 @ text1) (events @ evs))))"
  by pat_completeness auto
termination
  by (relation "measure (\<lambda>(eof, d, pending, out, events). length pending)")
    (auto dest: index_sub_less index_byte_less)

declare feed_loop.simps [simp del]

definition feed :: "decoder \<Rightarrow> string \<Rightarrow> bool \<Rightarrow> string \<times> string list \<times> decoder" where
  "feed d data eof = feed_loop eof d (dc_pending d @ data) [] []"

section \<open>The reference\<close>

function scan :: "bool \<Rightarrow> decoder \<Rightarrow> string \<Rightarrow> string \<times> string list \<times> decoder" where
  "scan eof d [] = ([], [], d\<lparr>dc_pending := []\<rparr>)"
| "scan eof d (c # s) =
     (let p = c # s;
          pass = (case scan eof d s of (out, events, d1) \<Rightarrow> (c # out, events, d1))
      in if prefix marker_prefix p then
           (case index_byte (take 128 p) (CHR 0x1F) of
              None \<Rightarrow> if length p < 128 \<and> \<not> eof then ([], [], d\<lparr>dc_pending := p\<rparr>) else pass
            | Some end_at \<Rightarrow>
                (case take_marker d (take (end_at + 1) p) of
                   (text1, evs, d1) \<Rightarrow>
                     (case scan eof d1 (drop end_at s) of
                        (out, events, d2) \<Rightarrow> (text1 @ out, evs @ events, d2))))
         else if prefix p marker_prefix \<and> \<not> eof then ([], [], d\<lparr>dc_pending := p\<rparr>)
         else pass)"
  by pat_completeness auto
termination
  by (relation "measure (\<lambda>(eof, d, p). length p)") (auto dest: index_byte_less)

declare scan.simps(2) [simp del]

section \<open>The loop is the reference\<close>

lemma index_sub_None_Cons:
  "index_sub marker_prefix (c # s) = None \<longleftrightarrow>
     \<not> prefix marker_prefix (c # s) \<and> index_sub marker_prefix s = None"
  by simp

lemma fold_keep_mono:
  assumes "\<And>n. n \<in> set ns \<Longrightarrow> P n \<longleftrightarrow> Q n"
  shows "fold (\<lambda>n keep. if P n then n else keep) ns k = fold (\<lambda>n keep. if Q n then n else keep) ns k"
  using assms by (induction ns arbitrary: k) auto

lemma keep_suffix_Nil [simp]: "keep_suffix [] = 0"
  by (simp add: keep_suffix_def)

lemma keep_suffix_bound: "keep_suffix p \<le> length p"
proof -
  have "fold (\<lambda>n keep. if P n then n else keep) ns k \<le> m"
    if "\<forall>n \<in> set ns. n \<le> m" "k \<le> m" for P and ns :: "nat list" and k m
    using that by (induction ns arbitrary: k) auto
  from this [of "[1..<min (length marker_prefix) (Suc (length p))]" "length p" 0]
  show ?thesis by (simp add: keep_suffix_def)
qed

lemma keep_suffix_less: "keep_suffix p < length marker_prefix"
proof -
  have "fold (\<lambda>n keep. if P n then n else keep) ns k < m"
    if "\<forall>n \<in> set ns. n < m" "k < m" for P and ns :: "nat list" and k m
    using that by (induction ns arbitrary: k) auto
  from this [of "[1..<min (length marker_prefix) (Suc (length p))]" "length marker_prefix" 0]
  show ?thesis by (simp add: keep_suffix_def)
qed

text \<open>A text that is itself a proper prefix of the marker prefix is kept whole.\<close>

lemma keep_suffix_prefix:
  assumes "prefix p marker_prefix" and "p \<noteq> marker_prefix"
  shows "keep_suffix p = length p"
proof (cases "p = []")
  case False
  have "length p < length marker_prefix"
    using assms by (metis prefix_length_less prefix_order.le_neq_trans)
  then have "[1..<min (length marker_prefix) (Suc (length p))] = [1..<length p] @ [length p]"
    using False upt_Suc_append [of 1 "length p"] by (simp add: min_absorb2 Suc_le_eq)
  moreover have "take (length p) marker_prefix = p"
    using assms(1) by (metis append_eq_conv_conj prefix_def)
  ultimately show ?thesis by (simp add: keep_suffix_def)
qed simp

lemma keep_suffix_Cons:
  assumes "\<not> prefix (c # s) marker_prefix"
  shows "keep_suffix (c # s) = keep_suffix s"
proof -
  let ?f = "\<lambda>t n keep. if suffix (take n marker_prefix) t then n else keep"
  have same: "suffix (take n marker_prefix) (c # s) \<longleftrightarrow> suffix (take n marker_prefix) s"
    if "n < length (c # s)" for n
    using that by (auto simp: suffix_Cons) (metis length_Cons length_take less_irrefl min_less_iff_conj not_less_eq)
  have "fold (?f (c # s)) [1..<min (length marker_prefix) (Suc (length s))] 0 = keep_suffix s"
    unfolding keep_suffix_def by (rule fold_keep_mono) (simp only: set_upt, rule same, simp)
  moreover have "fold (?f (c # s)) [1..<min (length marker_prefix) (Suc (Suc (length s)))] 0 =
      fold (?f (c # s)) [1..<min (length marker_prefix) (Suc (length s))] 0"
  proof (cases "Suc (length s) < length marker_prefix")
    case True
    have "\<not> suffix (take (Suc (length s)) marker_prefix) (c # s)"
    proof
      assume "suffix (take (Suc (length s)) marker_prefix) (c # s)"
      moreover have "length (take (Suc (length s)) marker_prefix) = length (c # s)" using True by simp
      ultimately have "take (Suc (length s)) marker_prefix = c # s"
        by (metis suffix_def append_Nil append_eq_conv_conj length_append add_diff_cancel_right' diff_self_eq_0 length_0_conv)
      with assms show False by (metis take_is_prefix)
    qed
    moreover have "min (length marker_prefix) (Suc (Suc (length s))) = Suc (Suc (length s))"
      "min (length marker_prefix) (Suc (length s)) = Suc (length s)" using True by simp_all
    ultimately show ?thesis by (simp add: upt_Suc_append)
  next
    case False
    then have "min (length marker_prefix) (Suc (Suc (length s))) =
        min (length marker_prefix) (Suc (length s))" by simp
    then show ?thesis by simp
  qed
  ultimately show ?thesis by (simp add: keep_suffix_def)
qed

lemma scan_none:
  assumes "index_sub marker_prefix p = None"
  shows "scan eof d p =
    (take (length p - (if eof then 0 else keep_suffix p)) p, [],
     d\<lparr>dc_pending := drop (length p - (if eof then 0 else keep_suffix p)) p\<rparr>)"
  using assms
proof (induction p)
  case (Cons c s)
  have no: "\<not> prefix marker_prefix (c # s)" and s: "index_sub marker_prefix s = None"
    using Cons.prems by (auto split: if_splits)
  note IH = Cons.IH [OF s]
  show ?case
  proof (cases "prefix (c # s) marker_prefix \<and> \<not> eof")
    case True
    then have "c # s \<noteq> marker_prefix" using no by auto
    then have "keep_suffix (c # s) = length (c # s)" using True keep_suffix_prefix by blast
    then show ?thesis using True no by (simp add: scan.simps(2) Let_def)
  next
    case False
    then have "(if eof then 0 else keep_suffix (c # s)) = (if eof then 0 else keep_suffix s)"
      using keep_suffix_Cons by auto
    moreover have "length (c # s) - (if eof then 0 else keep_suffix s)
        = Suc (length s - (if eof then 0 else keep_suffix s))"
      using keep_suffix_bound [of s] by auto
    ultimately show ?thesis using False no IH by (simp add: scan.simps(2) Let_def)
  qed
qed simp

lemma scan_skip:
  assumes "index_sub marker_prefix p = Some i"
  shows "scan eof d p = (case scan eof d (drop i p) of (out, events, d1) \<Rightarrow> (take i p @ out, events, d1))"
  using assms
proof (induction p arbitrary: i)
  case (Cons c s)
  show ?case
  proof (cases "prefix marker_prefix (c # s)")
    case True
    with Cons.prems show ?thesis by (auto split: prod.split)
  next
    case False
    with Cons.prems obtain j where j: "index_sub marker_prefix s = Some j" "i = Suc j" by auto
    from index_sub_drop [OF j(1)] have "length marker_prefix \<le> length s"
      by (metis diff_le_self le_trans length_drop prefix_length_le)
    then have "\<not> prefix (c # s) marker_prefix" by (auto dest: prefix_length_le)
    with False j Cons.IH [OF j(1)] show ?thesis
      by (simp add: scan.simps(2) Let_def split: prod.split)
  qed
qed simp

lemma index_byte_take:
  "index_byte (take n p) b = (case index_byte p b of None \<Rightarrow> None | Some i \<Rightarrow> if i < n then Some i else None)"
proof (induction p arbitrary: n)
  case (Cons c p)
  show ?case by (cases n) (auto simp: Cons split: option.splits)
qed simp

lemma scan_at_prefix:
  assumes "prefix marker_prefix p"
  shows "scan eof d p =
    (case index_byte p (CHR 0x1F) of
       None \<Rightarrow> if length p < 128 \<and> \<not> eof then ([], [], d\<lparr>dc_pending := p\<rparr>)
               else (case scan eof d (drop 1 p) of (out, events, d1) \<Rightarrow> (take 1 p @ out, events, d1))
     | Some end_at \<Rightarrow>
         if 128 \<le> end_at
         then (case scan eof d (drop 1 p) of (out, events, d1) \<Rightarrow> (take 1 p @ out, events, d1))
         else (case take_marker d (take (end_at + 1) p) of
                 (text1, evs, d1) \<Rightarrow>
                   (case scan eof d1 (drop (end_at + 1) p) of
                      (out, events, d2) \<Rightarrow> (text1 @ out, evs @ events, d2))))"
proof -
  obtain c s where p: "p = c # s" using assms by (cases p) auto
  have eq: "scan eof d p =
    (case index_byte (take 128 p) (CHR 0x1F) of
       None \<Rightarrow> if length p < 128 \<and> \<not> eof then ([], [], d\<lparr>dc_pending := p\<rparr>)
               else (case scan eof d (drop 1 p) of (out, events, d1) \<Rightarrow> (take 1 p @ out, events, d1))
     | Some end_at \<Rightarrow>
         (case take_marker d (take (end_at + 1) p) of
            (text1, evs, d1) \<Rightarrow>
              (case scan eof d1 (drop (end_at + 1) p) of
                 (out, events, d2) \<Rightarrow> (text1 @ out, evs @ events, d2))))"
    using assms by (simp add: p scan.simps(2) [of eof d c s] Let_def del: index_byte.simps split: prod.split option.split)
  show ?thesis
  proof (cases "index_byte p (CHR 0x1F)")
    case None
    then show ?thesis unfolding eq by (simp add: index_byte_take)
  next
    case (Some e)
    with index_byte_less [OF Some] show ?thesis unfolding eq by (simp add: index_byte_take)
  qed
qed

lemma feed_loop_scan:
  "feed_loop eof d p out events =
     (case scan eof d p of (o1, e1, d1) \<Rightarrow> (out @ o1, events @ e1, d1))"
proof (induction eof d p out events rule: feed_loop.induct)
  case (1 eof d p out events)
  show ?case
  proof (cases "p = [] \<or> index_sub marker_prefix p = None")
    case True
    then show ?thesis
      by (subst feed_loop.simps) (auto simp: scan_none Let_def simp del: index_sub.simps)
  next
    case False
    then obtain i where i: "p \<noteq> []" "index_sub marker_prefix p = Some i" by auto
    define q where "q = drop i p"
    have q: "prefix marker_prefix q" using index_sub_drop [OF i(2)] by (simp add: q_def)
    show ?thesis
    proof (cases "index_byte q (CHR 0x1F)")
      case None
      show ?thesis
      proof (cases "length q < 128 \<and> \<not> eof")
        case True
        then show ?thesis using i None
          by (subst feed_loop.simps)
            (simp add: scan_skip [OF i(2)] scan_at_prefix [OF q] Let_def flip: q_def)
      next
        case False
        note IH = "1.IH"(1) [OF i(1) i(2) refl refl None [unfolded q_def] False [unfolded q_def]]
        have wait: "(length q < 128 \<and> \<not> eof) = False" using False by simp
        have "feed_loop eof d p out events =
            feed_loop eof d (drop 1 q) ((out @ take i p) @ take 1 q) events"
          using i None
          by (subst feed_loop.simps) (simp only: Let_def option.case wait if_False simp_thms flip: q_def)
        also have "\<dots> = (case scan eof d (drop 1 q) of (o1, e1, d1) \<Rightarrow>
            (((out @ take i p) @ take 1 q) @ o1, events @ e1, d1))"
          using IH by (simp only: q_def)
        finally show ?thesis using None
          by (simp only: scan_skip [OF i(2)] scan_at_prefix [OF q] wait if_False option.case flip: q_def)
            (simp split: prod.split)
      qed
    next
      case (Some e)
      show ?thesis
      proof (cases "128 \<le> e")
        case True
        note IH = "1.IH"(2) [OF i(1) i(2) refl refl Some [unfolded q_def] True]
        have "feed_loop eof d p out events =
            feed_loop eof d (drop 1 q) ((out @ take i p) @ take 1 q) events"
          using i Some True by (subst feed_loop.simps) (simp add: Let_def flip: q_def)
        also have "\<dots> = (case scan eof d (drop 1 q) of (o1, e1, d1) \<Rightarrow>
            (((out @ take i p) @ take 1 q) @ o1, events @ e1, d1))"
          using IH by (simp only: q_def)
        finally show ?thesis using Some True
          by (simp add: scan_skip [OF i(2)] scan_at_prefix [OF q] split: prod.split flip: q_def)
      next
        case False
        obtain text1 evs d1 where m: "take_marker d (take (e + 1) q) = (text1, evs, d1)"
          by (cases "take_marker d (take (e + 1) q)")
        note IH = "1.IH"(3) [OF i(1) i(2) refl refl Some [unfolded q_def] False m [unfolded q_def, symmetric] refl]
        have "feed_loop eof d p out events =
            feed_loop eof d1 (drop (e + 1) q) ((out @ take i p) @ text1) (events @ evs)"
          using i Some False m by (subst feed_loop.simps) (simp add: Let_def flip: q_def)
        also have "\<dots> = (case scan eof d1 (drop (e + 1) q) of (o1, e1, d2) \<Rightarrow>
            (((out @ take i p) @ text1) @ o1, (events @ evs) @ e1, d2))"
          using IH by (simp only: q_def)
        finally show ?thesis using Some False m
          by (simp add: scan_skip [OF i(2)] scan_at_prefix [OF q] split: prod.split flip: q_def)
      qed
    qed
  qed
qed

section \<open>Chunks\<close>

text \<open>One transport: the chunks as they arrive, then the end of the output.\<close>

fun feed_all :: "decoder \<Rightarrow> string list \<Rightarrow> string \<times> string list \<times> decoder" where
  "feed_all d [] = feed d [] True"
| "feed_all d (data # rest) =
     (case feed d data False of
        (out, events, d1) \<Rightarrow>
          (case feed_all d1 rest of
             (out2, events2, d2) \<Rightarrow> (out @ out2, events @ events2, d2)))"

lemma feed_scan: "feed d data eof = scan eof d (dc_pending d @ data)"
  by (simp add: feed_def feed_loop_scan split: prod.split)

lemma take_marker_pending:
  "take_marker (d\<lparr>dc_pending := x\<rparr>) m =
     (case take_marker d m of (text1, evs, d1) \<Rightarrow> (text1, evs, d1\<lparr>dc_pending := x\<rparr>))"
  by (simp add: take_marker_def split: option.split)

text \<open>The cases of one position of the reference.\<close>

lemma scan_marker:
  assumes "prefix marker_prefix (c # s)" and "index_byte (take 128 (c # s)) (CHR 0x1F) = Some e"
    and "take_marker d (take (e + 1) (c # s)) = (text1, evs, d1)"
  shows "scan eof d (c # s) =
    (case scan eof d1 (drop e s) of (out, events, d2) \<Rightarrow> (text1 @ out, evs @ events, d2))"
  unfolding scan.simps(2) Let_def using assms by (simp only: if_True option.case prod.case)

lemma scan_hold:
  assumes "prefix marker_prefix (c # s)" and "index_byte (take 128 (c # s)) (CHR 0x1F) = None"
    and "length (c # s) < 128" and "\<not> eof"
  shows "scan eof d (c # s) = ([], [], d\<lparr>dc_pending := c # s\<rparr>)"
  unfolding scan.simps(2) Let_def using assms by (simp only: if_True option.case simp_thms)

lemma scan_partial:
  assumes "\<not> prefix marker_prefix (c # s)" and "prefix (c # s) marker_prefix" and "\<not> eof"
  shows "scan eof d (c # s) = ([], [], d\<lparr>dc_pending := c # s\<rparr>)"
  unfolding scan.simps(2) Let_def using assms by (simp only: if_True if_False simp_thms)

lemma scan_pass:
  assumes "if prefix marker_prefix (c # s)
    then index_byte (take 128 (c # s)) (CHR 0x1F) = None \<and> \<not> (length (c # s) < 128 \<and> \<not> eof)
    else \<not> (prefix (c # s) marker_prefix \<and> \<not> eof)"
  shows "scan eof d (c # s) = (case scan eof d s of (out, events, d1) \<Rightarrow> (c # out, events, d1))"
  unfolding scan.simps(2) Let_def using assms
  by (cases "prefix marker_prefix (c # s)") (simp_all only: if_True if_False option.case simp_thms)

text \<open>The induction over the positions that follows these cases.\<close>

lemma scan_cases_induct [case_names Nil Marker Hold Partial Pass]:
  assumes "\<And>d. P d []"
    and "\<And>d c s e text1 evs d1. prefix marker_prefix (c # s) \<Longrightarrow>
      index_byte (take 128 (c # s)) (CHR 0x1F) = Some e \<Longrightarrow>
      take_marker d (take (e + 1) (c # s)) = (text1, evs, d1) \<Longrightarrow> P d1 (drop e s) \<Longrightarrow> P d (c # s)"
    and "\<And>d c s. prefix marker_prefix (c # s) \<Longrightarrow>
      index_byte (take 128 (c # s)) (CHR 0x1F) = None \<Longrightarrow> length (c # s) < 128 \<Longrightarrow> \<not> eof \<Longrightarrow> P d (c # s)"
    and "\<And>d c s. \<not> prefix marker_prefix (c # s) \<Longrightarrow> prefix (c # s) marker_prefix \<Longrightarrow> \<not> eof \<Longrightarrow> P d (c # s)"
    and "\<And>d c s. (if prefix marker_prefix (c # s)
        then index_byte (take 128 (c # s)) (CHR 0x1F) = None \<and> \<not> (length (c # s) < 128 \<and> \<not> eof)
        else \<not> (prefix (c # s) marker_prefix \<and> \<not> eof)) \<Longrightarrow> P d s \<Longrightarrow> P d (c # s)"
  shows "P d p"
proof (induction p arbitrary: d rule: length_induct)
  case (1 p)
  show ?case
  proof (cases p)
    case Nil
    then show ?thesis using assms(1) by simp
  next
    case (Cons c s)
    have IH: "P d q" if "length q \<le> length s" for d q using 1 that by (simp add: Cons)
    show ?thesis
    proof (cases "prefix marker_prefix (c # s)")
      case True
      then show ?thesis
      proof (cases "index_byte (take 128 (c # s)) (CHR 0x1F)")
        case None
        then show ?thesis using True assms(3) [of c s d] assms(5) [of c s d] IH [of s d]
          by (cases "length (c # s) < 128 \<and> \<not> eof") (auto simp only: Cons if_True order_refl)
      next
        case (Some e)
        obtain text1 evs d1 where "take_marker d (take (e + 1) (c # s)) = (text1, evs, d1)"
          by (cases "take_marker d (take (e + 1) (c # s))")
        from assms(2) [OF True Some this IH] show ?thesis by (simp add: Cons)
      qed
    next
      case False
      then show ?thesis using assms(4) [of c s d] assms(5) [of c s d] IH [of s d]
        by (cases "prefix (c # s) marker_prefix \<and> \<not> eof") (auto simp only: Cons if_False order_refl)
    qed
  qed
qed

lemma scan_pending: "scan eof (d\<lparr>dc_pending := x\<rparr>) p = scan eof d p"
proof (induction d p arbitrary: x rule: scan_cases_induct [of _ eof])
  case (Marker d c s e text1 evs d1)
  have "take_marker (d\<lparr>dc_pending := x\<rparr>) (take (e + 1) (c # s)) = (text1, evs, d1\<lparr>dc_pending := x\<rparr>)"
    using Marker(3) by (simp only: take_marker_pending) simp
  from scan_marker [OF Marker(1,2) this, of eof] scan_marker [OF Marker(1,2,3), of eof] Marker(4) [of x]
  show ?case by simp
next
  case (Hold d c s)
  show ?case by (simp only: scan_hold [OF Hold]) simp
next
  case (Partial d c s)
  show ?case by (simp only: scan_partial [OF Partial]) simp
next
  case (Pass d c s)
  from Pass(2) [of x] show ?case by (simp only: scan_pass [OF Pass(1)])
qed simp

lemma index_byte_append: "index_byte p b = Some i \<Longrightarrow> index_byte (p @ q) b = Some i"
  by (induction p arbitrary: i) (auto split: if_splits)

lemma index_byte_take_SomeD: "index_byte (take n p) b = Some i \<Longrightarrow> index_byte p b = Some i"
  by (simp add: index_byte_take split: option.splits if_splits)

lemma scan_append:
  "scan eof d (p @ q) =
     (case scan False d p of
        (out1, events1, d1) \<Rightarrow>
          (case scan eof d1 (dc_pending d1 @ q) of
             (out2, events2, d2) \<Rightarrow> (out1 @ out2, events1 @ events2, d2)))"
proof (induction d p rule: scan_cases_induct [of _ False])
  case (Nil d)
  show ?case by (simp add: scan_pending split: prod.split)
next
  case (Marker d c s e text1 evs d1)
  have e: "e < length (c # s)" "e < 128"
    using index_byte_less [OF Marker(2)] by simp_all
  have "prefix marker_prefix (c # (s @ q))" using Marker(1) by (metis append_Cons prefix_prefix)
  moreover have "index_byte (take 128 (c # (s @ q))) (CHR 0x1F) = Some e"
    using index_byte_append [OF index_byte_take_SomeD [OF Marker(2)], of q] e
    by (simp only: index_byte_take append_Cons) simp
  moreover have "take_marker d (take (e + 1) (c # (s @ q))) = (text1, evs, d1)"
    using Marker(3) e by simp
  ultimately have "scan eof d (c # (s @ q)) =
      (case scan eof d1 (drop e (s @ q)) of (out, events, d2) \<Rightarrow> (text1 @ out, evs @ events, d2))"
    by (rule scan_marker)
  moreover have "drop e (s @ q) = drop e s @ q" using e by simp
  ultimately show ?case
    using scan_marker [OF Marker(1,2,3), of False] Marker(4) by (simp split: prod.split)
next
  case (Hold d c s)
  show ?case by (simp only: scan_hold [OF Hold]) (simp add: scan_pending split: prod.split)
next
  case (Partial d c s)
  show ?case by (simp only: scan_partial [OF Partial]) (simp add: scan_pending split: prod.split)
next
  case (Pass d c s)
  have "scan eof d (c # (s @ q)) = (case scan eof d (s @ q) of (out, events, d1) \<Rightarrow> (c # out, events, d1))"
  proof (rule scan_pass, cases "prefix marker_prefix (c # s)")
    case True
    then have "prefix marker_prefix (c # (s @ q))" by (metis append_Cons prefix_prefix)
    moreover have "\<not> length (c # s) < 128" using Pass(1) True by (simp only: if_True) simp
    moreover from this have "take 128 (c # (s @ q)) = take 128 (c # s)" by simp
    ultimately show "if prefix marker_prefix (c # (s @ q))
      then index_byte (take 128 (c # (s @ q))) (CHR 0x1F) = None \<and> \<not> (length (c # (s @ q)) < 128 \<and> \<not> eof)
      else \<not> (prefix (c # (s @ q)) marker_prefix \<and> \<not> eof)"
      using Pass(1) True by (simp only: if_True) simp
  next
    case False
    have "\<not> prefix (c # s) marker_prefix" using Pass(1) False by (simp only: if_False) simp
    with False have "\<not> prefix marker_prefix (c # (s @ q))" "\<not> prefix (c # (s @ q)) marker_prefix"
      by (metis append_Cons prefix_same_cases prefix_prefix prefixI,
        metis append_Cons prefix_order.trans prefixI)
    then show "if prefix marker_prefix (c # (s @ q))
      then index_byte (take 128 (c # (s @ q))) (CHR 0x1F) = None \<and> \<not> (length (c # (s @ q)) < 128 \<and> \<not> eof)
      else \<not> (prefix (c # (s @ q)) marker_prefix \<and> \<not> eof)"
      by (simp only: if_False simp_thms)
  qed
  with scan_pass [OF Pass(1)] Pass(2) show ?case by (simp split: prod.split)
qed

lemma feed_all_scan: "feed_all d chunks = scan True d (dc_pending d @ concat chunks)"
proof (induction chunks arbitrary: d)
  case (Cons data rest)
  obtain out events d1 where f: "scan False d (dc_pending d @ data) = (out, events, d1)"
    by (cases "scan False d (dc_pending d @ data)")
  have "scan True d ((dc_pending d @ data) @ concat rest) =
      (case scan True d1 (dc_pending d1 @ concat rest) of
         (out2, events2, d2) \<Rightarrow> (out @ out2, events @ events2, d2))"
    by (simp only: scan_append [of True d "dc_pending d @ data"] f prod.case)
  then show ?case by (simp add: feed_scan f Cons)
qed (simp add: feed_scan)

section \<open>Lemmas on the events\<close>

lemma take_marker_cases:
  assumes "take_marker d m = (text1, evs, d1)"
  shows "dc_attempt d1 = dc_attempt d \<and>
    (evs = [] \<and> dc_ready d1 = dc_ready d \<and> dc_finished d1 = dc_finished d
     \<or> evs = [''ready''] \<and> \<not> dc_ready d \<and> dc_ready d1 \<and> \<not> dc_finished d \<and> \<not> dc_finished d1
     \<or> (\<exists>ev \<in> set marker_events - {''ready''}. evs = [ev] \<and> \<not> dc_finished d \<and> dc_finished d1
          \<and> dc_ready d1 = dc_ready d \<and> (ev = ''detached'' \<longrightarrow> dc_ready d)))"
proof (cases "parse_marker m")
  case None
  then show ?thesis using assms by (simp add: take_marker_def)
next
  case (Some te)
  obtain token ev where te: "te = (token, ev)" by (cases te)
  have "attachment_marker token ev = m \<and> m \<noteq> []" if "parse_marker m = Some (token, ev)"
    using that by (auto simp: parse_marker_def Let_def attachment_marker_def split: if_splits)
  with Some te have ev: "ev \<in> set marker_events"
    by (auto simp: attachment_marker_def split: if_splits)
  have failed: "''failed'' \<in> set marker_events - {''ready''}" by (simp add: marker_events_def)
  consider "token \<noteq> dc_attempt d \<or> dc_finished d"
    | "token = dc_attempt d" "\<not> dc_finished d" "ev = ''ready''"
    | "token = dc_attempt d" "\<not> dc_finished d" "ev \<noteq> ''ready''" by blast
  then show ?thesis
  proof cases
    case 1
    then have "take_marker d m = ([], [], d)" by (simp add: take_marker_def Some te)
    with assms show ?thesis by simp
  next
    case 2
    then have "take_marker d m =
        (if dc_ready d then ([], [], d) else ([], [''ready''], d\<lparr>dc_ready := True\<rparr>))"
      by (simp add: take_marker_def Some te)
    with assms 2 show ?thesis by (simp split: if_splits) (metis decoder.simps decoder.surjective)
  next
    case 3
    define ev1 where "ev1 = (if ev = ''detached'' \<and> \<not> dc_ready d then ''failed'' else ev)"
    from 3 have "take_marker d m = ([], [ev1], d\<lparr>dc_finished := True\<rparr>)"
      by (simp add: take_marker_def Some te ev1_def)
    then have r: "evs = [ev1]" "d1 = d\<lparr>dc_finished := True\<rparr>" using assms by simp_all
    have "ev1 \<in> set marker_events - {''ready''}" using 3(3) ev failed by (auto simp: ev1_def)
    moreover have "ev1 = ''detached'' \<longrightarrow> dc_ready d" by (simp add: ev1_def)
    moreover have "dc_attempt d1 = dc_attempt d" "dc_ready d1 = dc_ready d" "dc_finished d1"
      by (simp_all add: r(2))
    ultimately show ?thesis using 3(2) r(1) by blast
  qed
qed

text \<open>The events of a stretch of output, from the state before and after it.\<close>

definition stretch :: "decoder \<Rightarrow> string list \<Rightarrow> decoder \<Rightarrow> bool" where
  "stretch d evs d1 \<longleftrightarrow>
     dc_attempt d1 = dc_attempt d \<and>
     (if dc_finished d then evs = [] \<and> dc_finished d1 \<and> dc_ready d1 = dc_ready d
      else (dc_ready d \<longrightarrow> dc_ready d1) \<and>
        (\<exists>last. evs = (if dc_ready d1 \<and> \<not> dc_ready d then [''ready''] else []) @ last
           \<and> (if dc_finished d1
              then \<exists>ev \<in> set marker_events - {''ready''}. last = [ev] \<and> (ev = ''detached'' \<longrightarrow> dc_ready d1)
              else last = [])))"

lemma stretch_refl: "stretch d [] (d\<lparr>dc_pending := x\<rparr>)"
  by (simp add: stretch_def)

lemma stretch_step:
  assumes "take_marker d m = (text1, evs, d1)" and "stretch d1 evs2 d2"
  shows "stretch d (evs @ evs2) d2"
  using take_marker_cases [OF assms(1)] assms(2)
  by (auto simp: stretch_def split: if_splits)

lemma scan_stretch: "scan eof d p = (out, evs, d1) \<Longrightarrow> stretch d evs d1"
proof (induction d p arbitrary: out evs d1 rule: scan_cases_induct [of _ eof])
  case (Nil d)
  then show ?case using stretch_refl by auto
next
  case (Marker d c s e text1 evs1 d2)
  obtain out2 evs2 d3 where r: "scan eof d2 (drop e s) = (out2, evs2, d3)"
    by (cases "scan eof d2 (drop e s)")
  from Marker(5) have "evs = evs1 @ evs2" "d1 = d3"
    by (simp_all only: scan_marker [OF Marker(1,2,3)] r prod.case prod.inject)
  with stretch_step [OF Marker(3) Marker(4) [OF r]] show ?case by simp
next
  case (Hold d c s)
  from Hold(5) show ?case by (simp only: scan_hold [OF Hold(1-4)] prod.inject) (auto simp: stretch_refl)
next
  case (Partial d c s)
  from Partial(4) show ?case
    by (simp only: scan_partial [OF Partial(1-3)] prod.inject) (auto simp: stretch_refl)
next
  case (Pass d c s)
  from Pass(3) show ?case
    by (simp only: scan_pass [OF Pass(1)]) (auto split: prod.splits intro: Pass(2))
qed

section \<open>Properties\<close>

definition ex_decoder :: decoder where
  "ex_decoder = \<lparr>dc_attempt = replicate 32 (CHR ''a''), dc_pending = [], dc_ready = False, dc_finished = False\<rparr>"

text \<open>
  C15: the stream decoder does not depend on the chunks. However the output of a transport is cut,
  the outputs and events of all \<open>feed\<close> calls together are those of the reference on the whole
  output, which decides position by position.
\<close>

theorem feed_chunks:
  "feed_all d chunks = scan True d (dc_pending d @ concat chunks)
   \<and> feed_all d chunks = feed d (concat chunks) True"
  by (simp add: feed_all_scan feed_scan)

text \<open>
  A transport reports its life in order. Whatever bytes arrive, in whatever chunks, the events
  of a fresh decoder are at most one \<open>ready\<close> followed by at most one final event, and a final
  \<open>detached\<close> only comes after \<open>ready\<close>.
\<close>

theorem feed_events_protocol:
  assumes "\<not> dc_ready d" and "\<not> dc_finished d" and "feed_all d chunks = (out, events, d1)"
  shows "\<exists>started last. events = (if started then [''ready''] else []) @ last
    \<and> (last = [] \<or> (\<exists>ev \<in> set marker_events - {''ready''}. last = [ev] \<and> (ev = ''detached'' \<longrightarrow> started)))"
proof -
  have "scan True d (dc_pending d @ concat chunks) = (out, events, d1)"
    using assms(3) by (simp add: feed_all_scan)
  from scan_stretch [OF this] assms(1,2) obtain last where
    "events = (if dc_ready d1 then [''ready''] else []) @ last"
    "if dc_finished d1
      then \<exists>ev \<in> set marker_events - {''ready''}. last = [ev] \<and> (ev = ''detached'' \<longrightarrow> dc_ready d1)
      else last = []"
    by (auto simp: stretch_def)
  then show ?thesis
    by (intro exI [of _ "dc_ready d1"] exI [of _ last]) (simp split: if_splits)
qed

theorem feed_events_protocol_witness:
  "\<exists>out d1. feed_all ex_decoder
       [''x'' @ take 20 (attachment_marker (dc_attempt ex_decoder) ''ready''),
        drop 20 (attachment_marker (dc_attempt ex_decoder) ''ready'') @ ''y'',
        attachment_marker (dc_attempt ex_decoder) ''detached'' @ ''z'']
     = (out, [''ready'', ''detached''], d1)
   \<and> (\<exists>started last. [''ready'', ''detached''] = (if started then [''ready''] else []) @ last
        \<and> (last = [] \<or> (\<exists>ev \<in> set marker_events - {''ready''}. last = [ev] \<and> (ev = ''detached'' \<longrightarrow> started))))"
proof -
  let ?chunks = "[''x'' @ take 20 (attachment_marker (dc_attempt ex_decoder) ''ready''),
        drop 20 (attachment_marker (dc_attempt ex_decoder) ''ready'') @ ''y'',
        attachment_marker (dc_attempt ex_decoder) ''detached'' @ ''z'']"
  obtain out d1 where r: "feed_all ex_decoder ?chunks = (out, [''ready'', ''detached''], d1)"
  proof -
    have "fst (snd (feed_all ex_decoder ?chunks)) = [''ready'', ''detached'']" by code_simp
    then show thesis by (cases "feed_all ex_decoder ?chunks") (auto intro: that)
  qed
  have "\<not> dc_ready ex_decoder" "\<not> dc_finished ex_decoder" by (simp_all add: ex_decoder_def)
  from feed_events_protocol [OF this r] r show ?thesis by blast
qed

text \<open>
  The decoder holds back less than a marker's length. After any chunk fewer than 128 bytes are
  pending, and nothing is pending after the end of the output.
\<close>

theorem feed_pending_bound:
  "length (dc_pending (snd (snd (feed d data False)))) < 128
   \<and> dc_pending (snd (snd (feed d data True))) = []"
proof -
  have "length (dc_pending (snd (snd (scan eof d p)))) < 128
      \<and> (eof \<longrightarrow> dc_pending (snd (snd (scan eof d p))) = [])" for eof p
  proof (induction d p rule: scan_cases_induct [of _ eof])
    case (Marker d c s e text1 evs1 d2)
    obtain out2 evs2 d3 where r: "scan eof d2 (drop e s) = (out2, evs2, d3)"
      by (cases "scan eof d2 (drop e s)")
    from Marker(4) show ?case by (auto simp only: scan_marker [OF Marker(1,2,3)] r prod.case snd_conv)
  next
    case (Hold d c s)
    show ?case unfolding scan_hold [OF Hold] using Hold(3,4) by simp
  next
    case (Partial d c s)
    have "length marker_prefix = 18" by (simp add: marker_prefix_def)
    with prefix_length_le [OF Partial(2)] have "length (c # s) < 128" by simp
    then show ?case unfolding scan_partial [OF Partial] using Partial(3) by simp
  next
    case (Pass d c s)
    obtain out2 evs2 d3 where r: "scan eof d s = (out2, evs2, d3)" by (cases "scan eof d s")
    from Pass(2) show ?case by (auto simp only: scan_pass [OF Pass(1)] r prod.case snd_conv)
  next
    case (Nil d)
    show ?case by simp
  qed
  then show ?thesis by (simp add: feed_scan)
qed

end
