(* ===== verification/Launch_Plan.thy ===== *)
theory Launch_Plan
  imports Mirror_Model Projection Session_Stream
begin

text \<open>
  Launching a persistent view of one exact session, and recognising it again: the remote helper
  commands of \<open>session_remote.go\<close>, \<open>session_attach.go\<close> and \<open>session_create.go\<close>, the supervisor
  arguments and their inspection in \<open>session_projection.go\<close>, the launch plans of \<open>windows.go\<close>, and
  the inventory of local projections of \<open>projection.go\<close> (all in \<open>internal/mirror\<close>).

  JSON encoding, SHA-256, path lookup, the process table and the exchange with a running helper
  are functions of the record \<open>launch_tools\<close>. Command input is not used by these commands.
\<close>

section \<open>Data\<close>

type_synonym failure = string

record command =
  cm_name :: string
  cm_args :: "string list"

record remote_config =
  rc_host :: string
  rc_ssh_command :: string
  rc_ssh_options :: "string list"
  rc_snapshot_command :: "string list"

record input_origin =
  or_client :: string
  or_attempt :: string
  or_generation :: "64 word"

record session_local_state =
  ls_transport :: string
  ls_token :: string
  ls_session :: string
  ls_session_id :: string
  ls_state :: string
  ls_origin :: input_origin

record descendant =
  ds_pid :: int
  ds_parent :: int
  ds_start :: string
  ds_args :: "string list"

record owned_window =
  wn_id :: int
  wn_pid :: int
  wn_title :: string
  wn_workspace_id :: json_value
  wn_app_id :: string
  wn_is_floating :: bool
  wn_tile_size :: "float64 list"
  wn_window_size :: "int list"

record projection =
  pj_window :: owned_window
  pj_source_host :: string
  pj_session :: string
  pj_token :: string
  pj_session_id :: string
  pj_supervised :: bool
  pj_ready :: bool

record projection_inventory =
  pv_exact :: "projection list"
  pv_untracked :: "owned_window list"
  pv_ambiguous :: "owned_window list"
  pv_candidates :: "(int \<times> projection list) list"
  pv_unverified :: "owned_window list"

datatype launch_error =
    No_Helper_Suffix
  | No_Executable_Prefix
  | Empty_Ssh_Command
  | Ssh_Arguments ssh_error
  | Invalid_Attachment_Request
  | Invalid_Generated_Name
  | Invalid_Destination string
  | Needs_Self_And_Token
  | Transport_Too_Large
  | Argv_Too_Large
  | No_Source_Session int
  | Bad_Session string
  | Empty_Launcher
  | Token_Failed failure
  | Bad_Adapter
  | Clipboard_Needs_Socket
  | Unrecognized_Helper
  | Undecodable_Remote
  | Transport_Differs
  | Helper_Query_Failed failure
  | Helper_Differs
  | Processes_Failed failure
  | Tree_Changed
  | Context_Over failure
  | Bad_Options ssh_error

text \<open>
  \<open>lt_encode\<close> and \<open>lt_decode\<close> are the JSON text of a \<open>RemoteConfig\<close>, \<open>lt_digest\<close> the hexadecimal
  SHA-256, \<open>lt_look_path\<close> and \<open>lt_eval_links\<close> \<open>exec.LookPath\<close> and \<open>filepath.EvalSymlinks\<close>,
  \<open>lt_local_state\<close> the query of a running helper and \<open>lt_processes\<close> the bounded process tree
  (the second argument tells the first observation from the recheck). \<open>lt_over\<close> says that an
  error is the end of the caller's context.
\<close>

record launch_tools =
  lt_darwin :: bool
  lt_encode :: "remote_config \<Rightarrow> string"
  lt_decode :: "string \<Rightarrow> remote_config option"
  lt_digest :: "string \<Rightarrow> string"
  lt_look_path :: "string \<Rightarrow> string option"
  lt_eval_links :: "string \<Rightarrow> string option"
  lt_local_state :: "remote_config \<Rightarrow> string \<Rightarrow> failure + session_local_state \<times> int"
  lt_processes :: "int \<Rightarrow> bool \<Rightarrow> failure + descendant list"
  lt_over :: "failure \<Rightarrow> bool"

section \<open>Remote helpers\<close>

definition source_helper_argv ::
    "string list \<Rightarrow> string \<Rightarrow> string list \<Rightarrow> launch_error + string list" where
  "source_helper_argv snapshot_command helper args =
     (let n = length snapshot_command in
      if n < 3 \<or> drop (n - 2) snapshot_command \<noteq> [''mirror'', ''snapshot''] then Inl No_Helper_Suffix
      else if trim_space (hd snapshot_command) = [] then Inl No_Executable_Prefix
      else Inr (take (n - 2) snapshot_command @ [''mirror'', helper] @ args))"

definition unattended_ssh_options :: "string list" where
  "unattended_ssh_options =
     [''-o'', ''BatchMode=yes'', ''-o'', ''ConnectionAttempts=1'', ''-o'', ''ConnectTimeout=5'',
      ''-o'', ''ServerAliveInterval=5'', ''-o'', ''ServerAliveCountMax=2'', ''-o'', ''ControlMaster=no'',
      ''-o'', ''ControlPath=none'']"

definition ssh_command ::
    "remote_config \<Rightarrow> string list \<Rightarrow> string list \<Rightarrow> launch_error + command" where
  "ssh_command cfg internal remote =
     (case build_ssh_args (unattended_ssh_options @ rc_ssh_options cfg) internal (rc_host cfg)
             (quote_command remote) of
        Inl e \<Rightarrow> Inl (Ssh_Arguments e)
      | Inr args \<Rightarrow> Inr \<lparr>cm_name = rc_ssh_command cfg, cm_args = args\<rparr>)"

definition plan_session_catalog :: "remote_config \<Rightarrow> launch_error + command" where
  "plan_session_catalog cfg =
     (if trim_space (rc_ssh_command cfg) = [] then Inl Empty_Ssh_Command
      else and_then (source_helper_argv (rc_snapshot_command cfg) ''session-catalog'' [])
        (\<lambda>remote. ssh_command cfg [''-T'', ''-n''] remote))"

definition plan_session_attachment ::
    "remote_config \<Rightarrow> string \<Rightarrow> string \<Rightarrow> string \<Rightarrow> launch_error + command" where
  "plan_session_attachment cfg session i attempt =
     (if \<not> safe_session_name session \<or> \<not> valid_session_id i \<or> \<not> is_hex32 attempt
         \<or> trim_space (rc_ssh_command cfg) = []
      then Inl Invalid_Attachment_Request
      else and_then (source_helper_argv (rc_snapshot_command cfg) ''session-attach''
             [''--session'', session, ''--session-id'', i, ''--attempt'', attempt])
        (\<lambda>remote. ssh_command cfg [''-tt''] remote))"

definition generated_session :: "string \<Rightarrow> bool" where
  "generated_session s \<longleftrightarrow> prefix ''redeem-'' s \<and> is_hex32 (drop 7 s)"

definition plan_session_creation :: "remote_config \<Rightarrow> string \<Rightarrow> launch_error + command" where
  "plan_session_creation cfg session =
     (if \<not> generated_session session then Inl Invalid_Generated_Name
      else if trim_space (rc_ssh_command cfg) = [] then Inl Empty_Ssh_Command
      else and_then (source_helper_argv (rc_snapshot_command cfg) ''session-create'' [''--session'', session])
        (\<lambda>remote. ssh_command cfg [''-T'', ''-n''] remote))"

section \<open>The supervisor\<close>

definition recovery_identity :: "launch_tools \<Rightarrow> remote_config \<Rightarrow> launch_error + string" where
  "recovery_identity tools remote =
     (if \<not> validate_destination (rc_host remote) then Inl (Invalid_Destination (rc_host remote))
      else if trim_space (rc_ssh_command remote) = [] then Inl Empty_Ssh_Command
      else if 65536 < int (length (lt_encode tools remote)) then Inl Transport_Too_Large
      else Inr (lt_digest tools (lt_encode tools remote)))"

definition fixed_attempt :: string where
  "fixed_attempt = ''0123456789abcdef0123456789abcdef''"

definition session_supervisor_argv ::
    "launch_tools \<Rightarrow> string \<Rightarrow> remote_config \<Rightarrow> string \<Rightarrow> string \<Rightarrow> string
     \<Rightarrow> launch_error + string list"
where
  "session_supervisor_argv tools self remote session i token =
     (if trim_space self = [] \<or> \<not> is_hex32 token then Inl Needs_Self_And_Token
      else and_then (plan_session_attachment remote session i fixed_attempt)
        (\<lambda>_. and_then (recovery_identity tools remote)
          (\<lambda>_.
             let argv = [self, ''mirror'', ''session-supervisor'', ''--remote-json'', lt_encode tools remote,
                         ''--session'', session, ''--session-id'', i, ''--token'', token]
             in if 65536 < sum_list (map (\<lambda>a. int (length a) + 1) argv) then Inl Argv_Too_Large
                else Inr argv)))"

text \<open>\<open>filepath.Dir\<close> and \<open>filepath.Base\<close>.\<close>

definition path_dir :: "string \<Rightarrow> string" where
  "path_dir p = path_clean (rev (dropWhile (\<lambda>c. c \<noteq> CHR ''/'') (rev p)))"

definition path_base :: "string \<Rightarrow> string" where
  "path_base p =
     (if p = [] then ''.''
      else (let s = rev (dropWhile (\<lambda>c. c = CHR ''/'') (rev p));
                base = rev (takeWhile (\<lambda>c. c \<noteq> CHR ''/'') (rev s))
            in if base = [] then ''/'' else base))"

definition same_supervisor_executable :: "launch_tools \<Rightarrow> string \<Rightarrow> string \<Rightarrow> bool" where
  "same_supervisor_executable tools observed configured =
     (if configured = [] then False
      else if same_executable_argv0 observed configured then True
      else
        (let found = (case lt_look_path tools configured of None \<Rightarrow> configured | Some p \<Rightarrow> p);
             resolved = (case lt_eval_links tools found of None \<Rightarrow> found | Some p \<Rightarrow> p)
         in if \<not> is_abs resolved then False
            else if same_executable_argv0 observed resolved then True
            else path_clean observed =
              path_clean (path_dir resolved @ ''/'' @ ''.'' @ path_base resolved @ ''-wrapped'')))"

definition valid_session_local_state :: "session_local_state \<Rightarrow> bool" where
  "valid_session_local_state s \<longleftrightarrow>
     valid_session_id (ls_session_id s) \<and> validate_session (ls_session s)
     \<and> is_hex32 (or_client (ls_origin s))
     \<and> (if ls_state s = ''ready''
        then or_generation (ls_origin s) \<noteq> 0 \<and> is_hex32 (or_attempt (ls_origin s))
        else ls_state s \<in> {''offline'', ''checking'', ''connecting''}
             \<and> or_generation (ls_origin s) = 0)"

record evidence_config =
  ec_ssh_command :: string
  ec_ssh_options :: "string list"
  ec_self_command :: string
  ec_snapshot_command :: "string list option"

definition inspect_supervisor ::
    "launch_tools \<Rightarrow> string list \<Rightarrow> int \<Rightarrow> owned_window \<Rightarrow> evidence_config \<Rightarrow> launch_error + projection"
where
  "inspect_supervisor tools argv pid window cfg =
     (if length argv \<noteq> 11 \<or> \<not> same_supervisor_executable tools (argv ! 0) (ec_self_command cfg)
         \<or> argv ! 1 \<noteq> ''mirror'' \<or> argv ! 2 \<noteq> ''session-supervisor'' \<or> argv ! 3 \<noteq> ''--remote-json''
         \<or> argv ! 5 \<noteq> ''--session'' \<or> argv ! 7 \<noteq> ''--session-id'' \<or> argv ! 9 \<noteq> ''--token''
         \<or> 65536 < int (length (argv ! 4))
      then Inl Unrecognized_Helper
      else case lt_decode tools (argv ! 4) of
        None \<Rightarrow> Inl Undecodable_Remote
      | Some remote \<Rightarrow>
          (let ssh = (if ec_ssh_command cfg = [] then ''ssh'' else ec_ssh_command cfg) in
           if rc_ssh_command remote \<noteq> ssh \<or> rc_ssh_options remote \<noteq> ec_ssh_options cfg
              \<or> (case ec_snapshot_command cfg of
                   None \<Rightarrow> False | Some c \<Rightarrow> rc_snapshot_command remote \<noteq> c)
           then Inl Transport_Differs
           else and_then
             (session_supervisor_argv tools (ec_self_command cfg) remote (argv ! 6) (argv ! 8) (argv ! 10))
             (\<lambda>_.
                case lt_local_state tools remote (argv ! 10) of
                  Inl e \<Rightarrow> Inl (Helper_Query_Failed e)
                | Inr (s, peer) \<Rightarrow>
                    (let identity = (case recovery_identity tools remote of Inl _ \<Rightarrow> [] | Inr d \<Rightarrow> d) in
                     if peer \<noteq> pid \<or> \<not> valid_session_local_state s \<or> ls_transport s \<noteq> identity
                        \<or> ls_token s \<noteq> argv ! 10 \<or> ls_session s \<noteq> argv ! 6
                        \<or> ls_session_id s \<noteq> argv ! 8 \<or> \<not> is_hex32 (or_client (ls_origin s))
                     then Inl Helper_Differs
                     else Inr \<lparr>pj_window = window, pj_source_host = rc_host remote,
                               pj_session = ls_session s, pj_token = ls_token s,
                               pj_session_id = ls_session_id s, pj_supervised = True,
                               pj_ready = (ls_state s = ''ready''
                                           \<and> or_generation (ls_origin s) \<noteq> 0)\<rparr>))))"

section \<open>Launch plans\<close>

record launch_config =
  lc_source_host :: string
  lc_session_id :: string
  lc_snapshot_command :: "string list"
  lc_token :: string
  lc_ssh_command :: string
  lc_ssh_options :: "string list"
  lc_launcher_command :: string
  lc_launcher_adapter :: "string list"
  lc_self_command :: string
  lc_app_id :: string
  lc_socket :: string
  lc_clipboard :: bool

record launch_plan =
  lp_source_host :: string
  lp_session :: string
  lp_title :: string
  lp_order :: int
  lp_remote_cwd :: string
  lp_command :: command

definition launch_title :: "launch_config \<Rightarrow> mirror_window \<Rightarrow> string \<Rightarrow> string" where
  "launch_title cfg window session =
     (let part = trim_space (mw_title window);
          titled = (if part = [] then session else part);
          line = map (\<lambda>c. if c = CHR 0x0A \<or> c = CHR 0x0D then CHR '' '' else c) titled
      in lc_source_host cfg @ ''['' @ show_int (mw_order window) @ ''|'' @ session @ '']: '' @ line)"

definition launch_remote_config :: "launch_config \<Rightarrow> remote_config" where
  "launch_remote_config cfg =
     \<lparr>rc_host = lc_source_host cfg, rc_ssh_command = lc_ssh_command cfg,
      rc_ssh_options = lc_ssh_options cfg, rc_snapshot_command = lc_snapshot_command cfg\<rparr>"

definition adapter_command :: "launch_config \<Rightarrow> string \<Rightarrow> string \<Rightarrow> string list \<Rightarrow> launch_error + command"
where
  "adapter_command cfg title session supervisor =
     (if trim_space (hd (lc_launcher_adapter cfg)) = [] \<or> lc_clipboard cfg then Inl Bad_Adapter
      else Inr \<lparr>cm_name = hd (lc_launcher_adapter cfg),
                cm_args = tl (lc_launcher_adapter cfg)
                  @ [''--protocol-version=1'', ''--title='' @ title,
                     ''--source-host='' @ lc_source_host cfg, ''--session='' @ session,
                     ''--session-id='' @ lc_session_id cfg, ''--''] @ supervisor\<rparr>)"

definition terminal_command ::
    "launch_tools \<Rightarrow> launch_config \<Rightarrow> string \<Rightarrow> string list \<Rightarrow> launch_error + command" where
  "terminal_command tools cfg title supervisor =
     (let mapping = ''map=ctrl+v launch --type=background '' @
            quote_command [lc_self_command cfg, ''mirror'', ''paste-image'', ''--projection-token'',
              lc_token cfg, ''--remote-json'', lt_encode tools (launch_remote_config cfg)];
          args = [''--detach''] @ (if lt_darwin tools then [] else [''--class'', lc_app_id cfg])
            @ [''--override'', ''confirm_os_window_close=0'', ''--title'', title]
      in if lc_clipboard cfg \<and> (trim_space (lc_socket cfg) = [] \<or> trim_space (lc_self_command cfg) = [])
         then Inl Clipboard_Needs_Socket
         else Inr \<lparr>cm_name = lc_launcher_command cfg,
                   cm_args = args
                     @ (if lc_clipboard cfg then [''--listen-on'', lc_socket cfg, ''--override'', mapping] else [])
                     @ [''-e''] @ supervisor\<rparr>)"

text \<open>\<open>random\<close> is the answer of \<open>RandomID\<close>, drawn when the configuration has no token.\<close>

definition plan_zellij_launch ::
    "launch_tools \<Rightarrow> failure + string \<Rightarrow> mirror_window \<Rightarrow> launch_config \<Rightarrow> string
     \<Rightarrow> launch_error + launch_plan"
where
  "plan_zellij_launch tools random window cfg0 session =
     (if \<not> validate_destination (lc_source_host cfg0) then Inl (Invalid_Destination (lc_source_host cfg0))
      else if \<not> validate_session session then Inl (Bad_Session session)
      else if trim_space (lc_ssh_command cfg0) = []
           \<or> (lc_launcher_adapter cfg0 = []
              \<and> (trim_space (lc_launcher_command cfg0) = [] \<or> trim_space (lc_app_id cfg0) = []))
      then Inl Empty_Launcher
      else
        (let cwd = (case mw_terminal window of None \<Rightarrow> [] | Some t \<Rightarrow> trim_space (mt_cwd t)) in
         case (if lc_token cfg0 = [] then random else Inr (lc_token cfg0)) of
           Inl e \<Rightarrow> Inl (Token_Failed e)
         | Inr token \<Rightarrow>
             (let cfg = cfg0\<lparr>lc_token := token\<rparr>; title = launch_title cfg window session in
              and_then (session_supervisor_argv tools (lc_self_command cfg) (launch_remote_config cfg)
                          session (lc_session_id cfg) token)
                (\<lambda>supervisor.
                   and_then (if lc_launcher_adapter cfg \<noteq> []
                             then adapter_command cfg title session supervisor
                             else terminal_command tools cfg title supervisor)
                     (\<lambda>c. Inr \<lparr>lp_source_host = lc_source_host cfg, lp_session = session,
                               lp_title = title, lp_order = mw_order window,
                               lp_remote_cwd = cwd, lp_command = c\<rparr>)))))"

definition plan_launch ::
    "launch_tools \<Rightarrow> failure + string \<Rightarrow> mirror_window \<Rightarrow> launch_config \<Rightarrow> launch_error + launch_plan"
where
  "plan_launch tools random window cfg =
     (if session_name window = [] then Inl (No_Source_Session (mw_source_id window))
      else plan_zellij_launch tools random window cfg (session_name window))"

section \<open>Local projections\<close>

text \<open>
  The walk from a process to the window's process, with at most \<open>n\<close> steps; \<^term>\<open>None\<close> when it
  has not ended by then. \<open>parents\<close> is the map by process identifier, 0 where it has none.
\<close>

fun under_helper :: "nat \<Rightarrow> (int \<times> int) list \<Rightarrow> int list \<Rightarrow> int \<Rightarrow> int \<Rightarrow> bool option" where
  "under_helper 0 parents helpers top_pid parent = None"
| "under_helper (Suc n) parents helpers top_pid parent =
     (if parent = 0 \<or> parent = top_pid then Some False
      else if parent \<in> set helpers then Some True
      else under_helper n parents helpers top_pid
             (case map_of parents parent of None \<Rightarrow> 0 | Some q \<Rightarrow> q))"

fun parent_map :: "descendant list \<Rightarrow> (int \<times> int) list \<Rightarrow> (int \<times> int) list" where
  "parent_map [] m = m"
| "parent_map (d # ds) m = parent_map ds (AList.update (ds_pid d) (ds_parent d) m)"

definition is_helper :: "descendant \<Rightarrow> bool" where
  "is_helper d \<longleftrightarrow>
     3 \<le> length (ds_args d) \<and> ds_args d ! 1 = ''mirror'' \<and> ds_args d ! 2 = ''session-supervisor''"

fun helper_matches ::
    "launch_tools \<Rightarrow> owned_window \<Rightarrow> evidence_config \<Rightarrow> descendant list \<Rightarrow> launch_error + projection list"
where
  "helper_matches tools window cfg [] = Inr []"
| "helper_matches tools window cfg (d # ds) =
     (if is_helper d
      then and_then (inspect_supervisor tools (ds_args d) (ds_pid d) window cfg)
             (\<lambda>p. and_then (helper_matches tools window cfg ds) (\<lambda>ps. Inr (p # ps)))
      else helper_matches tools window cfg ds)"

fun ssh_matches ::
    "nat \<Rightarrow> (int \<times> int) list \<Rightarrow> int list \<Rightarrow> owned_window \<Rightarrow> evidence_config \<Rightarrow> descendant list
     \<Rightarrow> projection list option"
where
  "ssh_matches fuel parents helpers window cfg [] = Some []"
| "ssh_matches fuel parents helpers window cfg (d # ds) =
     (case under_helper fuel parents helpers (wn_pid window) (ds_parent d) of
        None \<Rightarrow> None
      | Some hidden \<Rightarrow>
          (case ssh_matches fuel parents helpers window cfg ds of
             None \<Rightarrow> None
           | Some ps \<Rightarrow>
               (case parse_projection_ssh_argv (ds_args d) (ec_ssh_command cfg) (ec_ssh_options cfg) of
                  Some (host, session, token) \<Rightarrow>
                    Some (if hidden then ps
                          else \<lparr>pj_window = window, pj_source_host = host, pj_session = session,
                                pj_token = token, pj_session_id = [], pj_supervised = False,
                                pj_ready = False\<rparr> # ps)
                | None \<Rightarrow> Some ps)))"

text \<open>\<^term>\<open>None\<close>: the walk along the parents does not end.\<close>

definition inspect_projection_window ::
    "launch_tools \<Rightarrow> owned_window \<Rightarrow> evidence_config \<Rightarrow> (launch_error + projection list) option"
where
  "inspect_projection_window tools window cfg =
     (if wn_id window \<le> 0 \<or> wn_pid window \<le> 0 then Some (Inr [])
      else case lt_processes tools (wn_pid window) False of
        Inl e \<Rightarrow> Some (Inl (Processes_Failed e))
      | Inr processes \<Rightarrow>
          (case helper_matches tools window cfg processes of
             Inl e \<Rightarrow> Some (Inl e)
           | Inr supervised \<Rightarrow>
               (let helpers = map ds_pid (filter is_helper processes) in
                case ssh_matches (length processes + 1) (parent_map processes []) helpers window cfg
                       processes of
                  None \<Rightarrow> None
                | Some plain \<Rightarrow>
                    if helpers = [] then Some (Inr (supervised @ plain))
                    else (case lt_processes tools (wn_pid window) True of
                            Inl e \<Rightarrow> Some (Inl (Processes_Failed e))
                          | Inr after \<Rightarrow>
                              Some (if processes \<noteq> after then Inl Tree_Changed
                                    else Inr (supervised @ plain))))))"

definition context_error :: "launch_tools \<Rightarrow> launch_error \<Rightarrow> bool" where
  "context_error tools e =
     (case e of Processes_Failed f \<Rightarrow> lt_over tools f | Helper_Query_Failed f \<Rightarrow> lt_over tools f
      | _ \<Rightarrow> False)"

definition empty_inventory :: projection_inventory where
  "empty_inventory =
     \<lparr>pv_exact = [], pv_untracked = [], pv_ambiguous = [], pv_candidates = [], pv_unverified = []\<rparr>"

fun inspect_from ::
    "launch_tools \<Rightarrow> evidence_config \<Rightarrow> projection_inventory \<Rightarrow> owned_window list
     \<Rightarrow> (launch_error + projection_inventory) option"
where
  "inspect_from tools cfg v [] = Some (Inr v)"
| "inspect_from tools cfg v (w # ws) =
     (case inspect_projection_window tools w cfg of
        None \<Rightarrow> None
      | Some (Inl e) \<Rightarrow>
          if context_error tools e then Some (Inl e)
          else inspect_from tools cfg
                 (v\<lparr>pv_untracked := pv_untracked v @ [w], pv_unverified := pv_unverified v @ [w]\<rparr>) ws
      | Some (Inr ms) \<Rightarrow>
          inspect_from tools cfg
            (case ms of
               [] \<Rightarrow> v\<lparr>pv_untracked := pv_untracked v @ [w]\<rparr>
             | [m] \<Rightarrow> v\<lparr>pv_exact := pv_exact v @ [m]\<rparr>
             | _ \<Rightarrow> v\<lparr>pv_ambiguous := pv_ambiguous v @ [w],
                      pv_candidates := AList.update (wn_id w) ms (pv_candidates v)\<rparr>) ws)"

definition inspect_projections ::
    "launch_tools \<Rightarrow> owned_window list \<Rightarrow> evidence_config \<Rightarrow> (launch_error + projection_inventory) option"
where
  "inspect_projections tools windows cfg =
     (case validate_ssh_options (ec_ssh_options cfg) of
        Some e \<Rightarrow> Some (Inl (Bad_Options e))
      | None \<Rightarrow> inspect_from tools cfg empty_inventory windows)"

section \<open>Lemmas\<close>

lemma same_executable_refl [simp]: "same_executable_argv0 p p"
  by (simp add: same_executable_argv0_def)

lemma session_supervisor_argv_Inr:
  assumes "session_supervisor_argv tools self remote session i token = Inr argv"
  shows "argv = [self, ''mirror'', ''session-supervisor'', ''--remote-json'', lt_encode tools remote,
                 ''--session'', session, ''--session-id'', i, ''--token'', token]
    \<and> self \<noteq> [] \<and> is_hex32 token \<and> validate_destination (rc_host remote)
    \<and> valid_session_id i \<and> safe_session_name session
    \<and> int (length (lt_encode tools remote)) \<le> 65536
    \<and> recovery_identity tools remote = Inr (lt_digest tools (lt_encode tools remote))"
proof -
  have "self \<noteq> []" using assms by (auto simp: session_supervisor_argv_def)
  with assms show ?thesis
    by (auto simp: session_supervisor_argv_def and_then_Inr_iff recovery_identity_def
        plan_session_attachment_def Let_def split: if_splits)
qed

lemma inspect_supervisor_Inr:
  assumes "inspect_supervisor tools argv pid window cfg = Inr p"
  obtains remote s where "lt_decode tools (argv ! 4) = Some remote"
    and "lt_local_state tools remote (argv ! 10) = Inr (s, pid)"
    and "valid_session_local_state s" and "validate_destination (rc_host remote)"
    and "p = \<lparr>pj_window = window, pj_source_host = rc_host remote, pj_session = ls_session s,
              pj_token = ls_token s, pj_session_id = ls_session_id s, pj_supervised = True,
              pj_ready = (ls_state s = ''ready'' \<and> or_generation (ls_origin s) \<noteq> 0)\<rparr>"
    and "is_hex32 (ls_token s)" and "ls_session s = argv ! 6"
proof -
  obtain remote argv2 s peer where r: "lt_decode tools (argv ! 4) = Some remote"
    and a: "session_supervisor_argv tools (ec_self_command cfg) remote (argv ! 6) (argv ! 8) (argv ! 10)
       = Inr argv2"
    and q: "lt_local_state tools remote (argv ! 10) = Inr (s, peer)"
    using assms
    by (auto simp: inspect_supervisor_def Let_def and_then_Inr_iff split: if_splits option.splits sum.splits)
  note b = session_supervisor_argv_Inr [OF a]
  have rest: "peer = pid" "valid_session_local_state s" "ls_token s = argv ! 10" "ls_session s = argv ! 6"
    "p = \<lparr>pj_window = window, pj_source_host = rc_host remote, pj_session = ls_session s,
              pj_token = ls_token s, pj_session_id = ls_session_id s, pj_supervised = True,
              pj_ready = (ls_state s = ''ready'' \<and> or_generation (ls_origin s) \<noteq> 0)\<rparr>"
    using assms r a q by (auto simp: inspect_supervisor_def Let_def split: if_splits)
  show thesis by (rule that [OF r, of s]) (use q rest b in auto)
qed

lemma helper_matches_window:
  assumes "helper_matches tools window cfg ds = Inr ps" and "p \<in> set ps"
  shows "pj_window p = window \<and> validate_session (pj_session p)
    \<and> validate_destination (pj_source_host p) \<and> is_hex32 (pj_token p)"
  using assms
proof (induction ds arbitrary: ps)
  case (Cons d ds)
  show ?case
  proof (cases "is_helper d")
    case True
    with Cons.prems(1) obtain q qs where q: "inspect_supervisor tools (ds_args d) (ds_pid d) window cfg = Inr q"
      and qs: "helper_matches tools window cfg ds = Inr qs" and ps: "ps = q # qs"
      by (auto simp: and_then_Inr_iff)
    from Cons.prems(2) ps consider "p = q" | "p \<in> set qs" by auto
    then show ?thesis
    proof cases
      case 1
      show ?thesis
        by (rule inspect_supervisor_Inr [OF q]) (simp add: 1 valid_session_local_state_def)
    qed (rule Cons.IH [OF qs])
  next
    case False
    with Cons show ?thesis by simp
  qed
qed simp

lemma ssh_matches_window:
  assumes "ssh_matches fuel parents helpers window cfg ds = Some ps" and "p \<in> set ps"
  shows "pj_window p = window \<and> (\<exists>d \<in> set ds.
    parse_projection_ssh_argv (ds_args d) (ec_ssh_command cfg) (ec_ssh_options cfg)
      = Some (pj_source_host p, pj_session p, pj_token p))"
  using assms
  by (induction ds arbitrary: ps) (fastforce split: option.splits if_splits)+

lemma parse_projection_ssh_argv_valid:
  assumes "parse_projection_ssh_argv argv ssh opts = Some (host, session, token)"
  shows "validate_destination host \<and> validate_session session \<and> (token = [] \<or> is_hex32 token)"
proof -
  obtain expected where "build_ssh_args opts [''-tt''] (argv ! (length argv - 2)) (argv ! (length argv - 1))
      = Inr expected" "parse_projection_remote_command (argv ! (length argv - 1)) = Some (session, token)"
    "host = argv ! (length argv - 2)"
    using assms
    by (auto simp: parse_projection_ssh_argv_def Let_def split: sum.splits if_splits option.splits prod.splits)
  with build_ssh_args_Inr parse_remote_Some show ?thesis by blast
qed

lemma inspect_projection_window_Inr:
  assumes "inspect_projection_window tools window cfg = Some (Inr ps)" and "p \<in> set ps"
  shows "pj_window p = window \<and> validate_destination (pj_source_host p)
    \<and> validate_session (pj_session p) \<and> (pj_token p = [] \<or> is_hex32 (pj_token p))"
proof -
  have pos: "\<not> (wn_id window \<le> 0 \<or> wn_pid window \<le> 0)"
    using assms by (auto simp: inspect_projection_window_def)
  obtain processes where pr: "lt_processes tools (wn_pid window) False = Inr processes"
    using assms pos by (cases "lt_processes tools (wn_pid window) False")
      (auto simp: inspect_projection_window_def)
  obtain hs where h: "helper_matches tools window cfg processes = Inr hs"
    using assms pos pr by (cases "helper_matches tools window cfg processes")
      (auto simp: inspect_projection_window_def)
  let ?m = "ssh_matches (length processes + 1) (parent_map processes [])
      (map ds_pid (filter is_helper processes)) window cfg processes"
  obtain plain where s: "?m = Some plain"
    using assms pos pr h by (cases "?m") (auto simp: inspect_projection_window_def)
  have m: "ssh_matches (length processes + 1) (parent_map processes [])
      (map ds_pid (filter is_helper processes)) window cfg processes = Some plain" "ps = hs @ plain"
    using assms pos pr h s
    by (auto simp: inspect_projection_window_def Let_def split: if_splits sum.splits)
  from assms(2) m consider "p \<in> set hs" | "p \<in> set plain" by auto
  then show ?thesis
  proof cases
    case 1
    from helper_matches_window [OF h 1] show ?thesis by simp
  next
    case 2
    from ssh_matches_window [OF m(1) 2] parse_projection_ssh_argv_valid show ?thesis by blast
  qed
qed

lemma inspect_from_Inr:
  assumes "inspect_from tools cfg v ws = Some (Inr v1)"
  shows "mset (map pj_window (pv_exact v1)) + mset (pv_untracked v1) + mset (pv_ambiguous v1)
      = mset (map pj_window (pv_exact v)) + mset (pv_untracked v) + mset (pv_ambiguous v) + mset ws
    \<and> (set (pv_unverified v) \<subseteq> set (pv_untracked v) \<longrightarrow> set (pv_unverified v1) \<subseteq> set (pv_untracked v1))
    \<and> (\<forall>p \<in> set (pv_exact v1) - set (pv_exact v). pj_window p \<in> set ws
         \<and> inspect_projection_window tools (pj_window p) cfg = Some (Inr [p]))"
  using assms
proof (induction ws arbitrary: v)
  case (Cons w ws)
  show ?case
  proof (cases "inspect_projection_window tools w cfg")
    case None
    with Cons.prems show ?thesis by simp
  next
    case (Some r)
    show ?thesis
    proof (cases r)
      case (Inl e)
      with Some Cons.prems have "inspect_from tools cfg
          (v\<lparr>pv_untracked := pv_untracked v @ [w], pv_unverified := pv_unverified v @ [w]\<rparr>) ws = Some (Inr v1)"
        by (simp split: if_splits)
      from Cons.IH [OF this] show ?thesis by (auto simp: subset_iff)
    next
      case (Inr ms)
      show ?thesis
      proof (cases ms)
        case Nil
        with Some Inr Cons.prems have "inspect_from tools cfg
            (v\<lparr>pv_untracked := pv_untracked v @ [w]\<rparr>) ws = Some (Inr v1)" by simp
        from Cons.IH [OF this] show ?thesis by (auto simp: subset_iff)
      next
        case (Cons m rest)
        note ms = Cons
        have m: "pj_window m = w"
          using inspect_projection_window_Inr [of tools w cfg ms m] Some Inr ms by simp
        show ?thesis
        proof (cases rest)
          case Nil
          with Some Inr ms Cons.prems have "inspect_from tools cfg (v\<lparr>pv_exact := pv_exact v @ [m]\<rparr>) ws
              = Some (Inr v1)" by simp
          from Cons.IH [OF this] m Some Inr ms Nil show ?thesis by auto
        next
          case (Cons m2 rest2)
          with Some Inr ms Cons.prems have "inspect_from tools cfg
              (v\<lparr>pv_ambiguous := pv_ambiguous v @ [w],
                 pv_candidates := AList.update (wn_id w) ms (pv_candidates v)\<rparr>) ws = Some (Inr v1)"
            by simp
          from Cons.IH [OF this] show ?thesis by auto
        qed
      qed
    qed
  qed
qed simp

section \<open>The walk along the parents\<close>

text \<open>
  The order in which the process tree is observed: every process comes after its parent, and no
  identifier occurs twice.
\<close>

definition tree_order :: "int \<Rightarrow> descendant list \<Rightarrow> bool" where
  "tree_order top_pid ds \<longleftrightarrow>
     distinct (map ds_pid ds)
     \<and> list_all (\<lambda>i. ds_parent (ds ! i) \<in> insert top_pid (set (map ds_pid (take i ds)))) [0..<length ds]"

lemma find_by_key: "distinct (map f xs) \<Longrightarrow> x \<in> set xs \<Longrightarrow> find (\<lambda>y. f y = f x) xs = Some x"
  by (induction xs) (auto simp: rev_image_eqI)

lemma map_of_parent_map:
  "distinct (map ds_pid ds) \<Longrightarrow>
     map_of (parent_map ds m) k =
       (case find (\<lambda>d. ds_pid d = k) ds of Some d \<Rightarrow> Some (ds_parent d) | None \<Rightarrow> map_of m k)"
proof (induction ds arbitrary: m)
  case (Cons d ds)
  show ?case
  proof (cases "ds_pid d = k")
    case True
    have "ds_pid x \<noteq> k" if x: "x \<in> set ds" for x
    proof
      assume "ds_pid x = k"
      with imageI [OF x, of ds_pid] True Cons.prems show False by simp
    qed
    then have "find (\<lambda>d. ds_pid d = k) ds = None" by (simp add: find_None_iff)
    with True Cons show ?thesis by simp
  next
    case False
    with Cons show ?thesis by (simp split: option.split)
  qed
qed simp

lemma under_helper_mono:
  "under_helper n parents helpers top_pid q = Some r \<Longrightarrow> n \<le> m
   \<Longrightarrow> under_helper m parents helpers top_pid q = Some r"
proof (induction n parents helpers top_pid q arbitrary: m rule: under_helper.induct)
  case (2 n parents helpers top_pid q)
  then obtain k where k: "m = Suc k" "n \<le> k" by (cases m) auto
  consider "q = 0 \<or> q = top_pid" | "\<not> (q = 0 \<or> q = top_pid)" "q \<in> set helpers"
    | "\<not> (q = 0 \<or> q = top_pid)" "q \<notin> set helpers" by blast
  then show ?case
  proof cases
    case 3
    from 2(1) [OF 3 _ k(2)] 2(2) 3 show ?thesis by (simp only: under_helper.simps k(1)) simp
  qed (use 2(2) k(1) in auto)
qed simp

lemma under_helper_ends:
  assumes tree: "tree_order top_pid ds" and j: "j < length ds"
  shows "under_helper (Suc (Suc j)) (parent_map ds []) helpers top_pid (ds_pid (ds ! j)) \<noteq> None"
  using j
proof (induction j rule: less_induct)
  case (less j)
  let ?d = "ds ! j"
  have dist: "distinct (map ds_pid ds)" using tree by (simp add: tree_order_def)
  have "find (\<lambda>d. ds_pid d = ds_pid ?d) ds = Some ?d"
    using find_by_key [OF dist nth_mem [OF less.prems]] .
  then have parent: "map_of (parent_map ds []) (ds_pid ?d) = Some (ds_parent ?d)"
    by (simp add: map_of_parent_map [OF dist])
  have "ds_parent ?d \<in> insert top_pid (set (map ds_pid (take j ds)))"
    using tree less.prems by (auto simp: tree_order_def list_all_iff)
  then consider "ds_parent ?d = top_pid" | i where "i < j" "ds_parent ?d = ds_pid (ds ! i)"
    using less.prems by (auto simp: in_set_conv_nth)
  then have "under_helper (Suc j) (parent_map ds []) helpers top_pid (ds_parent ?d) \<noteq> None"
  proof cases
    case 2
    with less.IH [of i] less.prems obtain r where
      "under_helper (Suc (Suc i)) (parent_map ds []) helpers top_pid (ds_parent ?d) = Some r" by auto
    with under_helper_mono [OF this, of "Suc j"] 2(1) show ?thesis by simp
  qed simp
  then show ?case
    unfolding under_helper.simps(2) [of "Suc j"] parent option.case by (metis option.distinct(1))
qed

lemma ssh_matches_returns:
  assumes "\<forall>d \<in> set ds. under_helper fuel parents helpers (wn_pid window) (ds_parent d) \<noteq> None"
  shows "ssh_matches fuel parents helpers window cfg ds \<noteq> None"
  using assms by (induction ds) (auto split: option.split prod.split)

section \<open>Properties\<close>

text \<open>
  Inspecting a window returns. When the process table gives every process after its parent and
  once, as the observation of the tree does, the walk from each process up to the window's
  process ends, so the inspection answers with matches or an error.
\<close>

theorem inspection_returns:
  assumes "\<And>ds. lt_processes tools (wn_pid window) False = Inr ds \<Longrightarrow> tree_order (wn_pid window) ds"
  shows "inspect_projection_window tools window cfg \<noteq> None"
proof (cases "wn_id window \<le> 0 \<or> wn_pid window \<le> 0")
  case True
  then show ?thesis by (simp add: inspect_projection_window_def)
next
  case False
  show ?thesis
  proof (cases "lt_processes tools (wn_pid window) False")
    case (Inl e)
    with False show ?thesis by (simp add: inspect_projection_window_def)
  next
    case (Inr ds)
    from assms [OF Inr] have tree: "tree_order (wn_pid window) ds" .
    let ?hs = "map ds_pid (filter is_helper ds)"
    have "under_helper (length ds + 1) (parent_map ds []) ?hs (wn_pid window) (ds_parent d) \<noteq> None"
      if "d \<in> set ds" for d
    proof -
      from that obtain i where i: "i < length ds" "d = ds ! i" by (auto simp: in_set_conv_nth)
      with tree have "ds_parent d \<in> insert (wn_pid window) (set (map ds_pid (take i ds)))"
        by (auto simp: tree_order_def list_all_iff)
      then consider "ds_parent d = wn_pid window" | j where "j < i" "ds_parent d = ds_pid (ds ! j)"
        using i by (auto simp: in_set_conv_nth)
      then show ?thesis
      proof cases
        case 2
        have "under_helper (Suc (Suc j)) (parent_map ds []) ?hs (wn_pid window) (ds_parent d) \<noteq> None"
          unfolding 2(2) by (rule under_helper_ends [OF tree]) (use 2(1) i(1) in simp)
        then obtain r where "under_helper (Suc (Suc j)) (parent_map ds []) ?hs (wn_pid window) (ds_parent d)
            = Some r"
          by blast
        from under_helper_mono [OF this, of "length ds + 1"] 2(1) i(1) show ?thesis by simp
      qed simp
    qed
    with ssh_matches_returns have
      "ssh_matches (length ds + 1) (parent_map ds []) ?hs window cfg ds \<noteq> None" by blast
    with False Inr show ?thesis
      by (auto simp: inspect_projection_window_def Let_def split: sum.split)
  qed
qed

definition ex_launch_config :: launch_config where
  "ex_launch_config =
     \<lparr>lc_source_host = ''box'', lc_session_id = ex_id 7, lc_snapshot_command = [''r'', ''mirror'', ''snapshot''],
      lc_token = replicate 32 (CHR ''a''), lc_ssh_command = ''ssh'', lc_ssh_options = [],
      lc_launcher_command = ''kitty'', lc_launcher_adapter = [], lc_self_command = ''redeem'',
      lc_app_id = ''kitty'', lc_socket = [], lc_clipboard = False\<rparr>"

definition ex_local_state :: session_local_state where
  "ex_local_state =
     \<lparr>ls_transport = ''d'', ls_token = replicate 32 (CHR ''a''), ls_session = ''a'', ls_session_id = ex_id 7,
      ls_state = ''offline'',
      ls_origin = \<lparr>or_client = replicate 32 (CHR ''b''), or_attempt = [], or_generation = 0\<rparr>\<rparr>"

definition ex_launch_tools :: launch_tools where
  "ex_launch_tools =
     \<lparr>lt_darwin = False, lt_encode = (\<lambda>r. ''{}''), lt_decode = (\<lambda>t. Some (launch_remote_config ex_launch_config)),
      lt_digest = (\<lambda>t. ''d''), lt_look_path = (\<lambda>p. None), lt_eval_links = (\<lambda>p. None),
      lt_local_state = (\<lambda>r t. Inr (ex_local_state, 12)),
      lt_processes = (\<lambda>pid again. Inr
        [\<lparr>ds_pid = 11, ds_parent = pid, ds_start = [], ds_args = [''sh'']\<rparr>,
         \<lparr>ds_pid = 12, ds_parent = 11, ds_start = [],
          ds_args = [''redeem'', ''mirror'', ''session-supervisor'', ''--remote-json'', ''{}'', ''--session'', ''a'',
            ''--session-id'', ex_id 7, ''--token'', replicate 32 (CHR ''a'')]\<rparr>]),
      lt_over = (\<lambda>e. False)\<rparr>"

definition ex_owned :: owned_window where
  "ex_owned = \<lparr>wn_id = 5, wn_pid = 10, wn_title = [], wn_workspace_id = JV_Null, wn_app_id = ''kitty'',
     wn_is_floating = False, wn_tile_size = [], wn_window_size = []\<rparr>"

definition ex_evidence :: evidence_config where
  "ex_evidence = \<lparr>ec_ssh_command = [], ec_ssh_options = [], ec_self_command = ''redeem'',
     ec_snapshot_command = None\<rparr>"

definition ex_source_window :: mirror_window where
  "ex_source_window =
     \<lparr>mw_order = 0, mw_source_id = 3, mw_key = [], mw_app_id = ''kitty'', mw_title = ''t'', mw_pid = 9,
      mw_workspace_id = ''1'', mw_workspace_index = 1, mw_workspace_name = [], mw_output = [],
      mw_position = [], mw_tile_size = [], mw_window_size = [], mw_is_focused = False,
      mw_is_floating = False, mw_headless = False, mw_session = ''a'', mw_terminal = None\<rparr>"

theorem inspection_returns_witness:
  "inspect_projection_window ex_launch_tools ex_owned ex_evidence \<noteq> None"
proof (rule inspection_returns)
  fix ds assume "lt_processes ex_launch_tools (wn_pid ex_owned) False = Inr ds"
  then show "tree_order (wn_pid ex_owned) ds"
    by (auto simp: ex_launch_tools_def ex_owned_def tree_order_def)
qed

text \<open>
  C21: what is launched is recognised. The command of a launch plan ends in the arguments of a
  supervisor, and inspecting a process with these arguments, whose helper reports the session,
  incarnation, token and transport it was given, yields the projection of exactly that host,
  session, incarnation and token.
\<close>

theorem launch_recognised:
  assumes plan: "plan_zellij_launch tools random window cfg session = Inr p" and token: "lc_token cfg \<noteq> []"
    and codec: "lt_decode tools (lt_encode tools (launch_remote_config cfg)) = Some (launch_remote_config cfg)"
    and query: "lt_local_state tools (launch_remote_config cfg) (lc_token cfg) = Inr (s, pid)"
    and state: "valid_session_local_state s" "ls_token s = lc_token cfg" "ls_session s = session"
      "ls_session_id s = lc_session_id cfg"
      "ls_transport s = lt_digest tools (lt_encode tools (launch_remote_config cfg))"
    and same: "ec_self_command e = lc_self_command cfg" "ec_ssh_options e = lc_ssh_options cfg"
      "(if ec_ssh_command e = [] then ''ssh'' else ec_ssh_command e) = lc_ssh_command cfg"
      "ec_snapshot_command e \<in> {None, Some (lc_snapshot_command cfg)}"
  shows "\<exists>argv before. cm_args (lp_command p) = before @ argv
    \<and> inspect_supervisor tools argv pid w e =
        Inr \<lparr>pj_window = w, pj_source_host = lc_source_host cfg, pj_session = session,
             pj_token = lc_token cfg, pj_session_id = lc_session_id cfg, pj_supervised = True,
             pj_ready = (ls_state s = ''ready'' \<and> or_generation (ls_origin s) \<noteq> 0)\<rparr>"
proof -
  have cfg: "cfg\<lparr>lc_token := lc_token cfg\<rparr> = cfg" by simp
  let ?title = "launch_title cfg window session"
  have "and_then (session_supervisor_argv tools (lc_self_command cfg) (launch_remote_config cfg) session
          (lc_session_id cfg) (lc_token cfg))
      (\<lambda>supervisor. and_then (if lc_launcher_adapter cfg \<noteq> []
            then adapter_command cfg ?title session supervisor
            else terminal_command tools cfg ?title supervisor)
         (\<lambda>c. Inr \<lparr>lp_source_host = lc_source_host cfg, lp_session = session, lp_title = ?title,
            lp_order = mw_order window,
            lp_remote_cwd = (case mw_terminal window of None \<Rightarrow> [] | Some t \<Rightarrow> trim_space (mt_cwd t)),
            lp_command = c\<rparr>)) = Inr p"
    using plan token by (simp add: plan_zellij_launch_def Let_def cfg split: if_splits)
  then obtain argv c where a: "session_supervisor_argv tools (lc_self_command cfg) (launch_remote_config cfg)
      session (lc_session_id cfg) (lc_token cfg) = Inr argv"
    and c: "(if lc_launcher_adapter cfg \<noteq> [] then adapter_command cfg ?title session argv
       else terminal_command tools cfg ?title argv) = Inr c"
    and p: "lp_command p = c"
    by (auto simp only: and_then_Inr_iff launch_plan.simps)
  note argv = session_supervisor_argv_Inr [OF a]
  have tail: "\<exists>before. cm_args c = before @ argv"
    using c by (auto simp: adapter_command_def terminal_command_def Let_def split: if_splits)
  have remote: "rc_ssh_command (launch_remote_config cfg) = lc_ssh_command cfg"
    "rc_ssh_options (launch_remote_config cfg) = lc_ssh_options cfg"
    "rc_snapshot_command (launch_remote_config cfg) = lc_snapshot_command cfg"
    "rc_host (launch_remote_config cfg) = lc_source_host cfg"
    by (simp_all add: launch_remote_config_def)
  have client: "is_hex32 (or_client (ls_origin s))"
    using state(1) by (simp add: valid_session_local_state_def)
  have exe: "same_supervisor_executable tools (lc_self_command cfg) (lc_self_command cfg)"
    using argv by (simp add: same_supervisor_executable_def)
  have "inspect_supervisor tools argv pid w e =
      Inr \<lparr>pj_window = w, pj_source_host = lc_source_host cfg, pj_session = session,
             pj_token = lc_token cfg, pj_session_id = lc_session_id cfg, pj_supervised = True,
             pj_ready = (ls_state s = ''ready'' \<and> or_generation (ls_origin s) \<noteq> 0)\<rparr>"
    using argv codec query state same(4) client exe a
    by (auto simp: inspect_supervisor_def same(1,2) Let_def remote same(3))
  with tail p show ?thesis by blast
qed

theorem launch_recognised_witness:
  "\<exists>p argv before. plan_zellij_launch ex_launch_tools (Inr []) ex_source_window ex_launch_config ''a'' = Inr p
     \<and> cm_args (lp_command p) = before @ argv
     \<and> (\<exists>q. inspect_supervisor ex_launch_tools argv 12 ex_owned ex_evidence = Inr q \<and> pj_session q = ''a'')"
proof -
  obtain p where p: "plan_zellij_launch ex_launch_tools (Inr []) ex_source_window ex_launch_config ''a'' = Inr p"
  proof -
    have "case plan_zellij_launch ex_launch_tools (Inr []) ex_source_window ex_launch_config ''a'' of
        Inr _ \<Rightarrow> True | Inl _ \<Rightarrow> False" by code_simp
    then show thesis using that by (auto split: sum.splits)
  qed
  have valid: "valid_session_local_state ex_local_state" by code_simp
  from launch_recognised [OF p, where e = ex_evidence and w = ex_owned and s = ex_local_state and pid = 12] p valid
  show ?thesis
    by (fastforce simp: ex_launch_config_def ex_launch_tools_def ex_local_state_def ex_evidence_def)
qed

text \<open>
  The inventory of local projections classifies every owned window exactly once, as exact,
  untracked or ambiguous; unverified windows are untracked; and an exact entry is the single match
  of its own window, for a valid destination and session.
\<close>

theorem inspection_classifies:
  assumes "inspect_projections tools windows cfg = Some (Inr v)"
  shows "mset (map pj_window (pv_exact v)) + mset (pv_untracked v) + mset (pv_ambiguous v) = mset windows
    \<and> set (pv_unverified v) \<subseteq> set (pv_untracked v)
    \<and> (\<forall>p \<in> set (pv_exact v). pj_window p \<in> set windows
         \<and> validate_destination (pj_source_host p) \<and> validate_session (pj_session p)
         \<and> inspect_projection_window tools (pj_window p) cfg = Some (Inr [p]))"
proof -
  have "inspect_from tools cfg empty_inventory windows = Some (Inr v)"
    using assms by (auto simp: inspect_projections_def split: option.splits)
  from inspect_from_Inr [OF this] have r: "mset (map pj_window (pv_exact v)) + mset (pv_untracked v)
        + mset (pv_ambiguous v) = mset windows"
    "set (pv_unverified v) \<subseteq> set (pv_untracked v)"
    "\<forall>p \<in> set (pv_exact v). pj_window p \<in> set windows
         \<and> inspect_projection_window tools (pj_window p) cfg = Some (Inr [p])"
    by (simp_all add: empty_inventory_def)
  with inspect_projection_window_Inr show ?thesis by (metis list.set_intros(1))
qed

theorem inspection_classifies_witness:
  "\<exists>v. inspect_projections ex_launch_tools [ex_owned] ex_evidence = Some (Inr v)
     \<and> mset (map pj_window (pv_exact v)) + mset (pv_untracked v) + mset (pv_ambiguous v) = {#ex_owned#}"
proof -
  obtain v where v: "inspect_projections ex_launch_tools [ex_owned] ex_evidence = Some (Inr v)"
  proof -
    have "case inspect_projections ex_launch_tools [ex_owned] ex_evidence of
        Some (Inr _) \<Rightarrow> True | _ \<Rightarrow> False" by code_simp
    then show thesis using that by (auto split: option.splits sum.splits)
  qed
  from inspection_classifies [OF v] v show ?thesis by simp
qed

end
