(* ===== verification/Follow_Source.thy ===== *)
theory Follow_Source
  imports Launch_Plan
begin

text \<open>
  The source side of the follower, \<open>internal/mirror/follow.go\<close>: the validation of a complete source
  snapshot, the workspaces it offers, the frozen local destination, and the retry delay.
  The declarative description of an acceptable snapshot is \<open>wf_follow\<close>.
\<close>

section \<open>Checked texts\<close>

definition validate_text :: "nat \<Rightarrow> bool \<Rightarrow> string \<Rightarrow> bool" where
  "validate_text limit allow_empty v \<longleftrightarrow>
     \<not> (\<not> allow_empty \<and> v = [] \<or> limit < length v \<or> trim_space v \<noteq> v \<or> has_control v)"

definition has_break :: "string \<Rightarrow> bool" where
  "has_break s \<longleftrightarrow> list_ex (\<lambda>c. c = CHR 0x0D \<or> c = CHR 0x0A \<or> c = CHR 0x00) s"

section \<open>The source snapshot\<close>

datatype follow_error =
    Bad_Profile
  | No_Workspace_Inventory
  | No_Active_Inventory
  | Invalid_Workspace nat
  | Duplicate_Workspace string
  | Ambiguous_Index int
  | Invalid_Workspace_Name string
  | Invalid_Workspace_Output string
  | Ambiguous_Workspace_Name string
  | Malformed_Active string
  | Duplicate_Active string
  | Invalid_Order int
  | Duplicate_Order int
  | Ambiguous_Evidence int
  | Malformed_Session string
  | Ambiguous_Session string
  | Headless_Inactive string
  | Invalid_Window_Id
  | Duplicate_Window_Id int
  | Unknown_Workspace int
  | Inconsistent_Metadata int
  | No_Frozen_Id
  | Workspace_Gone string

fun check_workspaces ::
    "nat \<Rightarrow> mirror_workspace list \<Rightarrow> mirror_workspace list \<Rightarrow> follow_error option" where
  "check_workspaces i seen [] = None"
| "check_workspaces i seen (w # ws) =
     (if wk_id w = [] \<or> 256 < length (wk_id w) \<or> has_break (wk_id w) \<or> wk_index w \<le> 0
      then Some (Invalid_Workspace i)
      else if wk_id w \<in> set (map wk_id seen) then Some (Duplicate_Workspace (wk_id w))
      else if wk_index w \<in> set (map wk_index seen) then Some (Ambiguous_Index (wk_index w))
      else if 256 < length (wk_name w) \<or> wk_name w \<noteq> trim_space (wk_name w) \<or> has_break (wk_name w)
      then Some (Invalid_Workspace_Name (wk_id w))
      else if 256 < length (wk_output w) \<or> wk_output w \<noteq> trim_space (wk_output w) \<or> has_break (wk_output w)
      then Some (Invalid_Workspace_Output (wk_id w))
      else if wk_name w \<noteq> [] \<and> wk_name w \<in> set (map wk_name seen)
      then Some (Ambiguous_Workspace_Name (wk_name w))
      else check_workspaces (Suc i) (seen @ [w]) ws)"

fun check_active_sessions :: "string list \<Rightarrow> string list \<Rightarrow> follow_error option" where
  "check_active_sessions seen [] = None"
| "check_active_sessions seen (s # ss) =
     (if \<not> validate_session s then Some (Malformed_Active s)
      else if s \<in> set seen then Some (Duplicate_Active s)
      else check_active_sessions (seen @ [s]) ss)"

definition terminal_session :: "mirror_window \<Rightarrow> string" where
  "terminal_session w = (case mw_terminal w of None \<Rightarrow> [] | Some t \<Rightarrow> mt_session t)"

definition source_session_identity :: "mirror_window \<Rightarrow> follow_error + string" where
  "source_session_identity w =
     (let top = mw_session w; terminal = terminal_session w;
          session = (if top = [] then terminal else top)
      in if top \<noteq> [] \<and> terminal \<noteq> [] \<and> top \<noteq> terminal then Inl (Ambiguous_Evidence (mw_source_id w))
         else if session = [] then Inr []
         else if \<not> validate_session session then Inl (Malformed_Session session)
         else Inr session)"

text \<open>The variables of the loop over the windows; the maps have the zero value where nothing is set.\<close>

record follow_scan =
  fw_orders :: "int list"
  fw_ids :: "int list"
  fw_sessions :: "string list"
  fw_visible :: "string \<Rightarrow> nat"
  fw_eligible :: "string \<Rightarrow> mirror_window list"

definition empty_scan :: follow_scan where
  "empty_scan = \<lparr>fw_orders = [], fw_ids = [], fw_sessions = [], fw_visible = (\<lambda>_. 0), fw_eligible = (\<lambda>_. [])\<rparr>"

definition count_visible ::
    "string list \<Rightarrow> string \<Rightarrow> mirror_window \<Rightarrow> follow_scan \<Rightarrow> follow_scan" where
  "count_visible active session w st =
     (let i = mw_workspace_id w in
      if \<not> equal_fold (mw_app_id w) ''kitty'' \<or> mw_terminal w = None then st
      else
        (let st1 = st\<lparr>fw_visible := (fw_visible st)(i := fw_visible st i + 1)\<rparr> in
         if session = [] \<or> session \<notin> set active then st1
         else st1\<lparr>fw_eligible := (fw_eligible st1)(i := fw_eligible st1 i @ [w])\<rparr>))"

definition follow_window ::
    "mirror_workspace list \<Rightarrow> string list \<Rightarrow> mirror_window \<Rightarrow> follow_scan \<Rightarrow> follow_error + follow_scan"
where
  "follow_window wss active w st =
     (if mw_order w < 0 then Inl (Invalid_Order (mw_order w))
      else if mw_order w \<in> set (fw_orders st) then Inl (Duplicate_Order (mw_order w))
      else and_then (source_session_identity w)
        (\<lambda>session.
           if session \<noteq> [] \<and> session \<in> set (fw_sessions st) then Inl (Ambiguous_Session session)
           else
             (let st1 = st\<lparr>fw_orders := fw_orders st @ [mw_order w],
                          fw_sessions := fw_sessions st @ (if session = [] then [] else [session])\<rparr>
              in if mw_headless w
                 then (if session \<notin> set active then Inl (Headless_Inactive session) else Inr st1)
                 else if mw_source_id w \<le> 0 then Inl Invalid_Window_Id
                 else if mw_source_id w \<in> set (fw_ids st) then Inl (Duplicate_Window_Id (mw_source_id w))
                 else case find (\<lambda>v. wk_id v = mw_workspace_id w) wss of
                     None \<Rightarrow> Inl (Unknown_Workspace (mw_source_id w))
                   | Some v \<Rightarrow>
                       if mw_workspace_index w \<noteq> wk_index v \<or> mw_workspace_name w \<noteq> wk_name v
                          \<or> mw_output w \<noteq> wk_output v
                       then Inl (Inconsistent_Metadata (mw_source_id w))
                       else Inr (count_visible active session w
                                  (st1\<lparr>fw_ids := fw_ids st @ [mw_source_id w]\<rparr>)))))"

fun follow_windows ::
    "mirror_workspace list \<Rightarrow> string list \<Rightarrow> mirror_window list \<Rightarrow> follow_scan \<Rightarrow> follow_error + follow_scan"
where
  "follow_windows wss active [] st = Inr st"
| "follow_windows wss active (w # ws) st =
     and_then (follow_window wss active w st) (follow_windows wss active ws)"

record follow_source =
  fs_workspaces :: "mirror_workspace list"
  fs_active :: "string list"
  fs_visible :: "string \<Rightarrow> nat"
  fs_eligible :: "string \<Rightarrow> mirror_window list"

definition by_order :: "mirror_window list \<Rightarrow> mirror_window list" where
  "by_order = stable_sort (\<lambda>a b. mw_order a < mw_order b)"

definition validate_follow_snapshot :: "mirror_snapshot \<Rightarrow> follow_error + follow_source" where
  "validate_follow_snapshot sn =
     (if \<not> validate_text 128 False (sn_profile sn) then Inl Bad_Profile
      else case sn_workspaces sn of
        None \<Rightarrow> Inl No_Workspace_Inventory
      | Some wss \<Rightarrow>
          (case sn_active sn of
             None \<Rightarrow> Inl No_Active_Inventory
           | Some active \<Rightarrow>
               (case check_workspaces 0 [] wss of
                  Some e \<Rightarrow> Inl e
                | None \<Rightarrow>
                    (case check_active_sessions [] active of
                       Some e \<Rightarrow> Inl e
                     | None \<Rightarrow>
                         and_then (follow_windows wss active (snapshot_windows sn) empty_scan)
                           (\<lambda>st. Inr \<lparr>fs_workspaces = wss, fs_active = active,
                                      fs_visible = fw_visible st,
                                      fs_eligible = (\<lambda>i. by_order (fw_eligible st i))\<rparr>)))))"

record workspace_choice =
  ch_workspace :: mirror_workspace
  ch_visible :: nat
  ch_eligible :: nat

definition follow_workspace_choices :: "mirror_snapshot \<Rightarrow> follow_error + workspace_choice list" where
  "follow_workspace_choices sn =
     and_then (validate_follow_snapshot sn)
       (\<lambda>src. Inr (stable_sort (\<lambda>a b. workspace_before (ch_workspace a) (ch_workspace b))
          (map (\<lambda>w. \<lparr>ch_workspace = w, ch_visible = fs_visible src (wk_id w),
                      ch_eligible = length (fs_eligible src (wk_id w))\<rparr>)
             (case sn_workspaces sn of None \<Rightarrow> [] | Some ws \<Rightarrow> ws))))"

definition source_workspace :: "follow_source \<Rightarrow> string \<Rightarrow> follow_error + mirror_workspace" where
  "source_workspace src selection =
     (if selection = [] then Inl No_Frozen_Id
      else case find (\<lambda>v. wk_id v = selection) (fs_workspaces src) of
             None \<Rightarrow> Inl (Workspace_Gone selection) | Some v \<Rightarrow> Inr v)"

section \<open>The local destination\<close>

record owned_workspace =
  os_id :: json_value
  os_index :: int
  os_name :: json_value

record runtime_target =
  tg_id :: string
  tg_name :: string
  tg_index :: int

datatype destination_error =
    Absent_Or_Ambiguous | No_Runtime_Id | Ambiguous_Id | Destination_Gone | Ambiguous_Current_Name
  | No_Unique_Selector

definition workspace_name :: "owned_workspace \<Rightarrow> string" where
  "workspace_name v = fst (json_text (os_name v))"

definition workspace_ident :: "owned_workspace \<Rightarrow> string" where
  "workspace_ident v = fst (json_text (os_id v))"

definition resolve_follow_destination ::
    "mirror_workspace \<Rightarrow> owned_workspace list \<Rightarrow> destination_error + string" where
  "resolve_follow_destination source workspaces =
     (case filter (\<lambda>v. wk_name source \<noteq> [] \<and> workspace_name v = wk_name source
                    \<or> wk_name source = [] \<and> os_index v = wk_index source) workspaces of
        [v] \<Rightarrow> if workspace_ident v = [] then Inl No_Runtime_Id else Inr (workspace_ident v)
      | _ \<Rightarrow> Inl Absent_Or_Ambiguous)"

definition current_target ::
    "string \<Rightarrow> owned_workspace list \<Rightarrow> destination_error + runtime_target" where
  "current_target destination workspaces =
     (case filter (\<lambda>v. workspace_ident v = destination) workspaces of
        [] \<Rightarrow> Inl Destination_Gone
      | [v] \<Rightarrow>
          (if workspace_name v \<noteq> [] then
             (if length (filter (\<lambda>u. workspace_name u = workspace_name v) workspaces) \<noteq> 1
              then Inl Ambiguous_Current_Name
              else Inr \<lparr>tg_id = destination, tg_name = workspace_name v, tg_index = os_index v\<rparr>)
           else if 0 < os_index v
                \<and> length (filter (\<lambda>u. os_index u = os_index v) workspaces) = 1
           then Inr \<lparr>tg_id = destination, tg_name = [], tg_index = os_index v\<rparr>
           else Inl No_Unique_Selector)
      | _ \<Rightarrow> Inl Ambiguous_Id)"

section \<open>The retry delay\<close>

definition default_follow_interval :: duration where
  "default_follow_interval = 5 * second"

definition minimum_follow_interval :: duration where
  "minimum_follow_interval = 2 * second"

definition maximum_follow_backoff :: duration where
  "maximum_follow_backoff = 30 * second"

text \<open>\<open>for i := 1; i < failures && delay < max; i++ { delay *= 2 }\<close>, with \<open>n\<close> iterations left.\<close>

fun double_delay :: "nat \<Rightarrow> duration \<Rightarrow> duration" where
  "double_delay 0 delay = delay"
| "double_delay (Suc n) delay =
     (if delay < maximum_follow_backoff then double_delay n (2 * delay) else delay)"

definition follow_retry_delay :: "duration \<Rightarrow> int \<Rightarrow> duration" where
  "follow_retry_delay interval0 failures =
     (let interval = max interval0 minimum_follow_interval in
      if failures \<le> 0 then interval
      else min (double_delay (nat (failures - 1)) interval) maximum_follow_backoff)"

section \<open>The description\<close>

definition ident :: "mirror_window \<Rightarrow> string" where
  "ident w = (if mw_session w = [] then terminal_session w else mw_session w)"

definition evidence_ok :: "mirror_window \<Rightarrow> bool" where
  "evidence_ok w \<longleftrightarrow>
     (mw_session w = [] \<or> terminal_session w = [] \<or> mw_session w = terminal_session w)
     \<and> (ident w = [] \<or> validate_session (ident w))"

definition workspace_ok :: "mirror_workspace \<Rightarrow> bool" where
  "workspace_ok w \<longleftrightarrow>
     wk_id w \<noteq> [] \<and> length (wk_id w) \<le> 256 \<and> \<not> has_break (wk_id w) \<and> 0 < wk_index w
     \<and> length (wk_name w) \<le> 256 \<and> trim_space (wk_name w) = wk_name w \<and> \<not> has_break (wk_name w)
     \<and> length (wk_output w) \<le> 256 \<and> trim_space (wk_output w) = wk_output w \<and> \<not> has_break (wk_output w)"

definition named :: "string list \<Rightarrow> string list" where
  "named = filter (\<lambda>s. s \<noteq> [])"

definition workspaces_ok :: "mirror_workspace list \<Rightarrow> bool" where
  "workspaces_ok wss \<longleftrightarrow>
     (\<forall>w \<in> set wss. workspace_ok w) \<and> distinct (map wk_id wss) \<and> distinct (map wk_index wss)
     \<and> distinct (named (map wk_name wss))"

definition window_ok :: "mirror_workspace list \<Rightarrow> string list \<Rightarrow> mirror_window \<Rightarrow> bool" where
  "window_ok wss active w \<longleftrightarrow>
     0 \<le> mw_order w \<and> evidence_ok w
     \<and> (if mw_headless w then ident w \<in> set active
        else 0 < mw_source_id w \<and> (\<exists>v \<in> set wss. wk_id v = mw_workspace_id w
               \<and> mw_workspace_index w = wk_index v \<and> mw_workspace_name w = wk_name v
               \<and> mw_output w = wk_output v))"

definition windows_ok :: "mirror_workspace list \<Rightarrow> string list \<Rightarrow> mirror_window list \<Rightarrow> bool" where
  "windows_ok wss active ws \<longleftrightarrow>
     (\<forall>w \<in> set ws. window_ok wss active w) \<and> distinct (map mw_order ws)
     \<and> distinct (named (map ident ws))
     \<and> distinct (map mw_source_id (filter (\<lambda>w. \<not> mw_headless w) ws))"

definition wf_follow :: "mirror_snapshot \<Rightarrow> bool" where
  "wf_follow sn \<longleftrightarrow>
     validate_text 128 False (sn_profile sn)
     \<and> (case (sn_workspaces sn, sn_active sn) of
          (Some wss, Some active) \<Rightarrow>
            workspaces_ok wss \<and> (\<forall>s \<in> set active. validate_session s) \<and> distinct active
            \<and> windows_ok wss active (snapshot_windows sn)
        | _ \<Rightarrow> False)"

text \<open>The windows of a workspace that show a terminal, and those of an ACTIVE session.\<close>

definition shown_on :: "string \<Rightarrow> mirror_window \<Rightarrow> bool" where
  "shown_on i w \<longleftrightarrow>
     \<not> mw_headless w \<and> mw_workspace_id w = i \<and> equal_fold (mw_app_id w) ''kitty'' \<and> mw_terminal w \<noteq> None"

definition eligible_on :: "string list \<Rightarrow> string \<Rightarrow> mirror_window \<Rightarrow> bool" where
  "eligible_on active i w \<longleftrightarrow> shown_on i w \<and> ident w \<noteq> [] \<and> ident w \<in> set active"

definition source_of :: "mirror_snapshot \<Rightarrow> follow_source" where
  "source_of sn =
     (let active = (case sn_active sn of None \<Rightarrow> [] | Some a \<Rightarrow> a) in
      \<lparr>fs_workspaces = (case sn_workspaces sn of None \<Rightarrow> [] | Some wss \<Rightarrow> wss), fs_active = active,
       fs_visible = (\<lambda>i. length (filter (shown_on i) (snapshot_windows sn))),
       fs_eligible = (\<lambda>i. by_order (filter (eligible_on active i) (snapshot_windows sn)))\<rparr>)"

section \<open>Lemmas\<close>

lemma named_simps [simp]: "named [] = []" "named (x # xs) = (if x = [] then named xs else x # named xs)"
  "named (xs @ ys) = named xs @ named ys" "set (named xs) = set xs - {[]}"
  by (auto simp: named_def)

lemma check_workspaces_None:
  "check_workspaces i seen ws = None \<longleftrightarrow>
     (\<forall>w \<in> set ws. workspace_ok w) \<and> distinct (map wk_id ws) \<and> distinct (map wk_index ws)
     \<and> distinct (named (map wk_name ws))
     \<and> (\<forall>w \<in> set ws. wk_id w \<notin> set (map wk_id seen) \<and> wk_index w \<notin> set (map wk_index seen)
          \<and> (wk_name w = [] \<or> wk_name w \<notin> set (map wk_name seen)))"
proof (induction ws arbitrary: i seen)
  case (Cons w ws)
  have ok: "workspace_ok w \<longleftrightarrow>
     \<not> (wk_id w = [] \<or> 256 < length (wk_id w) \<or> has_break (wk_id w) \<or> wk_index w \<le> 0)
     \<and> \<not> (256 < length (wk_name w) \<or> wk_name w \<noteq> trim_space (wk_name w) \<or> has_break (wk_name w))
     \<and> \<not> (256 < length (wk_output w) \<or> wk_output w \<noteq> trim_space (wk_output w) \<or> has_break (wk_output w))"
    by (auto simp: workspace_ok_def)
  have step: "check_workspaces i seen (w # ws) = None \<longleftrightarrow>
      workspace_ok w \<and> wk_id w \<notin> set (map wk_id seen) \<and> wk_index w \<notin> set (map wk_index seen)
      \<and> (wk_name w = [] \<or> wk_name w \<notin> set (map wk_name seen))
      \<and> check_workspaces (Suc i) (seen @ [w]) ws = None"
    unfolding ok check_workspaces.simps by (simp only: split: if_split) blast
  have seen: "set (map f (seen @ [w])) = insert (f w) (set (map f seen))" for f :: "mirror_workspace \<Rightarrow> 'z"
    by simp
  have front: "distinct (map f (w # ws)) \<longleftrightarrow> (\<forall>u \<in> set ws. f u \<noteq> f w) \<and> distinct (map f ws)"
    for f :: "mirror_workspace \<Rightarrow> 'z"
    by (auto simp: rev_image_eqI)
  have names: "distinct (named (map wk_name (w # ws))) \<longleftrightarrow>
      (wk_name w = [] \<or> (\<forall>u \<in> set ws. wk_name u \<noteq> wk_name w)) \<and> distinct (named (map wk_name ws))"
    by (auto simp: rev_image_eqI)
  show ?case
    unfolding step Cons [of "Suc i" "seen @ [w]"] seen front names by (cases "wk_name w = []") auto
qed simp

lemma check_active_None:
  "check_active_sessions seen ss = None \<longleftrightarrow>
     (\<forall>s \<in> set ss. validate_session s) \<and> distinct ss \<and> set ss \<inter> set seen = {}"
  by (induction ss arbitrary: seen) auto

lemma source_session_identity_Inr:
  "source_session_identity w = Inr s \<longleftrightarrow> evidence_ok w \<and> s = ident w"
  by (auto simp: source_session_identity_def evidence_ok_def ident_def Let_def)

definition advance :: "string list \<Rightarrow> mirror_window \<Rightarrow> follow_scan \<Rightarrow> follow_scan" where
  "advance active w st =
     (let st1 = st\<lparr>fw_orders := fw_orders st @ [mw_order w],
                  fw_sessions := fw_sessions st @ (if ident w = [] then [] else [ident w])\<rparr>
      in if mw_headless w then st1
         else count_visible active (ident w) w (st1\<lparr>fw_ids := fw_ids st @ [mw_source_id w]\<rparr>))"

lemma find_workspace:
  assumes "distinct (map wk_id wss)"
  shows "find (\<lambda>v. wk_id v = i) wss = Some v \<longleftrightarrow> v \<in> set wss \<and> wk_id v = i"
  using assms by (induction wss) (auto simp: rev_image_eqI)

lemma follow_window_Inr:
  assumes "distinct (map wk_id wss)"
  shows "follow_window wss active w st = Inr st1 \<longleftrightarrow>
     window_ok wss active w \<and> mw_order w \<notin> set (fw_orders st)
     \<and> (ident w = [] \<or> ident w \<notin> set (fw_sessions st))
     \<and> (mw_headless w \<or> mw_source_id w \<notin> set (fw_ids st))
     \<and> st1 = advance active w st"
proof (cases "find (\<lambda>v. wk_id v = mw_workspace_id w) wss")
  case None
  then have "\<not> (\<exists>v \<in> set wss. wk_id v = mw_workspace_id w)" by (auto simp: find_None_iff)
  with None show ?thesis
    by (auto simp: follow_window_def and_then_Inr_iff source_session_identity_Inr window_ok_def
        advance_def Let_def split: if_splits)
next
  case (Some v)
  have v: "v \<in> set wss \<and> wk_id v = mw_workspace_id w" using Some find_workspace [OF assms] by blast
  then have "(\<exists>u \<in> set wss. wk_id u = mw_workspace_id w \<and> mw_workspace_index w = wk_index u
      \<and> mw_workspace_name w = wk_name u \<and> mw_output w = wk_output u)
    \<longleftrightarrow> mw_workspace_index w = wk_index v \<and> mw_workspace_name w = wk_name v \<and> mw_output w = wk_output v"
    using find_workspace [OF assms] Some by (metis option.inject)
  with Some show ?thesis
    by (auto simp: follow_window_def and_then_Inr_iff source_session_identity_Inr window_ok_def
        advance_def Let_def split: if_splits)
qed

lemma advance_fields:
  "fw_orders (advance active w st) = fw_orders st @ [mw_order w]"
  "fw_sessions (advance active w st) = fw_sessions st @ named [ident w]"
  "fw_ids (advance active w st) = fw_ids st @ map mw_source_id (filter (\<lambda>w. \<not> mw_headless w) [w])"
  "fw_visible (advance active w st) i = fw_visible st i + length (filter (shown_on i) [w])"
  "fw_eligible (advance active w st) i = fw_eligible st i @ filter (eligible_on active i) [w]"
  by (auto simp: advance_def count_visible_def shown_on_def eligible_on_def Let_def)

lemma fold_advance:
  "fw_visible (fold (advance active) ws st) i = fw_visible st i + length (filter (shown_on i) ws)"
  "fw_eligible (fold (advance active) ws st) i = fw_eligible st i @ filter (eligible_on active i) ws"
  by (induction ws arbitrary: st) (simp_all add: advance_fields)

lemma windows_ok_Cons:
  "windows_ok wss active (w # ws) \<longleftrightarrow>
     window_ok wss active w \<and> windows_ok wss active ws
     \<and> (\<forall>u \<in> set ws. mw_order u \<noteq> mw_order w
          \<and> (ident w = [] \<or> ident u \<noteq> ident w)
          \<and> (mw_headless w \<or> mw_headless u \<or> mw_source_id u \<noteq> mw_source_id w))"
proof -
  have "distinct (map mw_order (w # ws)) \<longleftrightarrow> (\<forall>u \<in> set ws. mw_order u \<noteq> mw_order w) \<and> distinct (map mw_order ws)"
    by (auto simp: rev_image_eqI)
  moreover have "distinct (named (map ident (w # ws))) \<longleftrightarrow>
      (ident w = [] \<or> (\<forall>u \<in> set ws. ident u \<noteq> ident w)) \<and> distinct (named (map ident ws))"
    by (auto simp: rev_image_eqI)
  moreover have "distinct (map mw_source_id (filter (\<lambda>w. \<not> mw_headless w) (w # ws))) \<longleftrightarrow>
      (mw_headless w \<or> (\<forall>u \<in> set ws. mw_headless u \<or> mw_source_id u \<noteq> mw_source_id w))
      \<and> distinct (map mw_source_id (filter (\<lambda>w. \<not> mw_headless w) ws))"
    by (auto simp: rev_image_eqI)
  ultimately show ?thesis unfolding windows_ok_def by (simp only: list.set ball_simps) blast
qed

lemma follow_windows_Inr:
  assumes "distinct (map wk_id wss)"
  shows "follow_windows wss active ws st = Inr st1 \<longleftrightarrow>
     windows_ok wss active ws
     \<and> (\<forall>u \<in> set ws. mw_order u \<notin> set (fw_orders st)
          \<and> (ident u = [] \<or> ident u \<notin> set (fw_sessions st))
          \<and> (mw_headless u \<or> mw_source_id u \<notin> set (fw_ids st)))
     \<and> st1 = fold (advance active) ws st"
proof (induction ws arbitrary: st)
  case Nil
  show ?case by (auto simp: windows_ok_def)
next
  case (Cons w ws)
  have sets: "set (fw_orders (advance active w st)) = insert (mw_order w) (set (fw_orders st))"
    "set (fw_sessions (advance active w st)) = set (fw_sessions st) \<union> (if ident w = [] then {} else {ident w})"
    "set (fw_ids (advance active w st)) = set (fw_ids st) \<union> (if mw_headless w then {} else {mw_source_id w})"
    by (simp_all add: advance_fields)
  have "follow_windows wss active (w # ws) st = Inr st1 \<longleftrightarrow>
      window_ok wss active w \<and> mw_order w \<notin> set (fw_orders st)
     \<and> (ident w = [] \<or> ident w \<notin> set (fw_sessions st))
     \<and> (mw_headless w \<or> mw_source_id w \<notin> set (fw_ids st))
     \<and> follow_windows wss active ws (advance active w st) = Inr st1"
    unfolding follow_windows.simps and_then_Inr_iff follow_window_Inr [OF assms] by blast
  then show ?case
    unfolding Cons [of "advance active w st"] sets windows_ok_Cons fold_simps list.set
    by (cases "mw_headless w"; cases "ident w = []") auto
qed

lemma wf_source:
  "validate_follow_snapshot sn = Inr src \<longleftrightarrow> wf_follow sn \<and> src = source_of sn"
proof (cases "sn_workspaces sn = None \<or> sn_active sn = None")
  case True
  then show ?thesis by (auto simp: validate_follow_snapshot_def wf_follow_def split: option.split)
next
  case False
  then obtain wss active where s: "sn_workspaces sn = Some wss" "sn_active sn = Some active" by auto
  show ?thesis
  proof (cases "validate_text 128 False (sn_profile sn) \<and> workspaces_ok wss
      \<and> (\<forall>s \<in> set active. validate_session s) \<and> distinct active")
    case True
    then have w: "check_workspaces 0 [] wss = None" "check_active_sessions [] active = None"
      "distinct (map wk_id wss)"
      by (simp_all add: check_workspaces_None check_active_None workspaces_ok_def)
    have "follow_windows wss active (snapshot_windows sn) empty_scan = Inr st \<longleftrightarrow>
        windows_ok wss active (snapshot_windows sn)
        \<and> st = fold (advance active) (snapshot_windows sn) empty_scan" for st
      by (simp add: follow_windows_Inr [OF w(3)] empty_scan_def)
    then show ?thesis using True s w
      by (auto simp: validate_follow_snapshot_def wf_follow_def source_of_def and_then_Inr_iff
          fold_advance empty_scan_def)
  next
    case False
    then have "\<not> (validate_text 128 False (sn_profile sn) \<and> check_workspaces 0 [] wss = None
        \<and> check_active_sessions [] active = None)"
      by (simp add: check_workspaces_None check_active_None workspaces_ok_def)
    then show ?thesis using False s
      by (auto simp: validate_follow_snapshot_def wf_follow_def split: option.split)
  qed
qed

section \<open>Properties\<close>

text \<open>
  C31: what the follower accepts as a source. The validation accepts exactly the snapshots of the
  declarative description, and then its maps are the ones described: the number of terminal
  windows of each workspace, and its windows of ACTIVE sessions by order.
\<close>

theorem follow_source_iff:
  "validate_follow_snapshot sn = Inr src \<longleftrightarrow> wf_follow sn \<and> src = source_of sn"
  by (rule wf_source)

text \<open>
  The selector of a move is unambiguous. \<open>CurrentTarget\<close> only answers for the one workspace that
  has the frozen identifier now, with its current name if it has one and else its index, and
  exactly one workspace answers to that selector.
\<close>

theorem current_target_unique:
  assumes "current_target destination workspaces = Inr target"
  shows "tg_id target = destination
    \<and> (\<exists>v. filter (\<lambda>u. workspace_ident u = destination) workspaces = [v]
         \<and> tg_name target = workspace_name v \<and> tg_index target = os_index v
         \<and> (if tg_name target \<noteq> []
            then filter (\<lambda>u. workspace_name u = tg_name target) workspaces = [v]
            else 0 < tg_index target \<and> filter (\<lambda>u. os_index u = tg_index target) workspaces = [v]))"
proof -
  obtain v where v: "filter (\<lambda>u. workspace_ident u = destination) workspaces = [v]"
    using assms by (auto simp: current_target_def split: list.splits)
  then have mem: "v \<in> set workspaces" by (metis (no_types, lifting) filter_is_subset in_mono list.set_intros(1))
  have single: "filter P workspaces = [v]" if "length (filter P workspaces) = 1" "P v" for P
  proof -
    from that(1) obtain u where u: "filter P workspaces = [u]" by (auto simp: length_Suc_conv)
    have "v \<in> set (filter P workspaces)" using mem that(2) by simp
    with u show ?thesis by simp
  qed
  show ?thesis using assms v single
    by (auto simp: current_target_def split: if_splits)
qed

theorem current_target_unique_witness:
  "\<exists>v. filter (\<lambda>u. workspace_ident u = ''7'')
     [\<lparr>os_id = JV_Shown ''7'', os_index = 2, os_name = JV_Null\<rparr>,
      \<lparr>os_id = JV_Shown ''8'', os_index = 3, os_name = JV_String ''web''\<rparr>] = [v]"
proof -
  have "current_target ''7'' [\<lparr>os_id = JV_Shown ''7'', os_index = 2, os_name = JV_Null\<rparr>,
      \<lparr>os_id = JV_Shown ''8'', os_index = 3, os_name = JV_String ''web''\<rparr>]
    = Inr \<lparr>tg_id = ''7'', tg_name = [], tg_index = 2\<rparr>"
    by (simp add: current_target_def workspace_ident_def workspace_name_def json_text_def)
  from current_target_unique [OF this] show ?thesis by blast
qed

lemma double_delay_min:
  "0 < d \<Longrightarrow> min (double_delay n d) maximum_follow_backoff = min (d * 2 ^ n) maximum_follow_backoff"
proof (induction n arbitrary: d)
  case (Suc n)
  show ?case
  proof (cases "d < maximum_follow_backoff")
    case True
    with Suc.IH [of "2 * d"] Suc.prems show ?thesis by (simp add: algebra_simps)
  next
    case False
    moreover have "d * 1 \<le> d * 2 ^ Suc n"
      using Suc.prems one_le_power [of "2::int" "Suc n"] by (intro mult_left_mono) linarith+
    ultimately show ?thesis by simp
  qed
qed simp

text \<open>
  The retry delay doubles with every failure from the poll interval up to half a minute, and is
  never shorter than two seconds. For a poll interval above half a minute it is shorter than the
  healthy interval: a failing source is then asked more often than a healthy one.
\<close>

theorem retry_delay_closed_form:
  "follow_retry_delay interval failures =
     (if failures \<le> 0 then max interval minimum_follow_interval
      else min (max interval minimum_follow_interval * 2 ^ nat (failures - 1)) maximum_follow_backoff)
   \<and> minimum_follow_interval \<le> follow_retry_delay interval failures
   \<and> follow_retry_delay (60 * second) 1 < follow_retry_delay (60 * second) 0"
proof -
  have pos: "0 < max interval minimum_follow_interval"
    by (simp add: minimum_follow_interval_def second_def)
  have eq: "follow_retry_delay interval failures =
     (if failures \<le> 0 then max interval minimum_follow_interval
      else min (max interval minimum_follow_interval * 2 ^ nat (failures - 1)) maximum_follow_backoff)"
    by (simp add: follow_retry_delay_def Let_def double_delay_min [OF pos])
  have "max interval minimum_follow_interval * 1 \<le> max interval minimum_follow_interval * 2 ^ nat (failures - 1)"
    using pos by (intro mult_left_mono) auto
  then have "minimum_follow_interval \<le> follow_retry_delay interval failures"
    unfolding eq by (auto simp: minimum_follow_interval_def maximum_follow_backoff_def second_def)
  moreover have "follow_retry_delay (60 * second) 1 < follow_retry_delay (60 * second) 0"
    by (simp add: follow_retry_delay_def minimum_follow_interval_def maximum_follow_backoff_def
        second_def Let_def)
  ultimately show ?thesis using eq by blast
qed

end
