(* ===== verification/Follow_Run.thy ===== *)
theory Follow_Run
  imports Follow_Source
begin

text \<open>
  One poll of the follower: \<open>FollowOnce\<close> of \<open>internal/mirror/follow.go\<close>, with
  \<open>waitForNewProjection\<close> of \<open>pin_workflow.go\<close> and the workspace move of
  \<open>internal/resume/runtime.go\<close>.

  The dependencies of a poll (\<open>Runner\<close>, \<open>ListWindows\<close>, \<open>Inspect\<close>, \<open>Workspaces\<close>, \<open>Sleep\<close>, \<open>Token\<close>
  and the contexts) are functions of the record \<open>follow_env\<close>; their answers may depend on all that
  has happened, the trace, newest event first. \<open>context.WithTimeout\<close> expires: in one wait at most
  \<open>ceil(Timeout / EvidenceInterval)\<close> sleeps succeed.
\<close>

section \<open>The world\<close>

datatype follow_event =
    Windows_Listed "failure + owned_window list"
  | Inspected "failure + projection_inventory"
  | Workspaces_Listed "failure + owned_workspace list"
  | Token_Drawn "failure + string"
  | Launched command "failure option"
  | Action_Run command "failure option"
  | Context_Checked "failure option"
  | Wait_Checked "failure option"
  | Slept bool

type_synonym follow_trace = "follow_event list"

record follow_env =
  fe_list :: "follow_trace \<Rightarrow> failure + owned_window list"
  fe_inspect :: "follow_trace \<Rightarrow> owned_window list \<Rightarrow> failure + projection_inventory"
  fe_workspaces :: "follow_trace \<Rightarrow> failure + owned_workspace list"
  fe_token :: "follow_trace \<Rightarrow> failure + string"
  fe_random :: "follow_trace \<Rightarrow> failure + string"
  fe_run :: "follow_trace \<Rightarrow> command \<Rightarrow> failure option"
  fe_context :: "follow_trace \<Rightarrow> failure option"
  fe_wait_context :: "follow_trace \<Rightarrow> failure option"
  fe_sleep :: "follow_trace \<Rightarrow> bool"

record follow_config =
  fc_source_host :: string
  fc_ssh_command :: string
  fc_ssh_options :: "string list"
  fc_launcher_command :: string
  fc_self_command :: string
  fc_snapshot_command :: "string list"
  fc_app_id :: string
  fc_niri_command :: string
  fc_timeout :: duration
  fc_evidence_interval :: duration
  fc_max_per_poll :: int
  fc_max_total :: int

record follow_state =
  ft_attempts :: int
  ft_confirmed :: int
  ft_uncertain :: int

datatype follow_status = Not_Started | Opened | Deferred | Follow_Failed

datatype follow_reason =
    No_Follow_Reason
  | Bad_Host string
  | Bad_Ssh_Options ssh_error
  | Empty_Follow_Command
  | Bad_Follow_Bounds
  | Source_Refused follow_error
  | Evidence_Unavailable failure
  | Evidence_Incomplete nat nat
  | Local_Workspaces_Unavailable failure
  | Destination_Unavailable destination_error
  | Duplicate_Projection string
  | Token_Unavailable failure
  | No_Exact_Attachment inventory_error
  | Launch_Not_Planned launch_error
  | Lifetime_Limit
  | Context_Ended failure
  | Launch_Failed failure
  | Not_Appeared string failure
  | Wait_Timed_Out string
  | Correlation_Unavailable string failure
  | Correlation_Degraded string nat nat
  | Correlation_Ambiguous string
  | Opened_No_Workspaces failure
  | Opened_Not_Moved destination_error
  | Opened_Bad_Move
  | Opened_Move_Failed failure

record follow_item =
  fi_session :: string
  fi_status :: follow_status
  fi_window_id :: int
  fi_reason :: follow_reason

record follow_result =
  fr_healthy :: bool
  fr_eligible :: nat
  fr_existing :: nat
  fr_deferred :: nat
  fr_attempted :: nat
  fr_confirmed :: nat
  fr_uncertain :: nat
  fr_total_attempts :: int
  fr_total_confirmed :: int
  fr_total_uncertain :: int
  fr_items :: "follow_item list"
  fr_reason :: follow_reason

section \<open>Waiting for a launched projection\<close>

definition has_ambiguous_candidate :: "projection_inventory \<Rightarrow> string \<Rightarrow> string \<Rightarrow> string \<Rightarrow> bool" where
  "has_ambiguous_candidate v host session token \<longleftrightarrow>
     list_ex (\<lambda>(_, cs). list_ex (\<lambda>c. pj_source_host c = host \<and> pj_session c = session
                \<and> (token = [] \<or> pj_token c = token)) cs) (pv_candidates v)"

definition new_matches ::
    "projection_inventory \<Rightarrow> string \<Rightarrow> string \<Rightarrow> string \<Rightarrow> int list \<Rightarrow> int list \<Rightarrow> int list" where
  "new_matches v host session token before_exact before_owned =
     map (\<lambda>p. wn_id (pj_window p))
       (filter (\<lambda>p. pj_source_host p = host \<and> pj_session p = session \<and> pj_token p = token
                \<and> wn_id (pj_window p) \<notin> set before_exact \<and> wn_id (pj_window p) \<notin> set before_owned)
          (pv_exact v))"

text \<open>\<open>observeFollow\<close> and \<open>observeApplyWindows\<close>.\<close>

definition observe_follow ::
    "follow_env \<Rightarrow> follow_trace \<Rightarrow> (failure + owned_window list \<times> projection_inventory) \<times> follow_trace"
where
  "observe_follow e h =
     (let windows = fe_list e h; h1 = Windows_Listed windows # h in
      case windows of
        Inl err \<Rightarrow> (Inl err, h1)
      | Inr ws \<Rightarrow>
          (let v = fe_inspect e h1 ws; h2 = Inspected v # h1 in
           case v of Inl err \<Rightarrow> (Inl err, h2) | Inr inven \<Rightarrow> (Inr (ws, inven), h2)))"

text \<open>What one look at the inventory decides; \<^term>\<open>None\<close> goes on waiting.\<close>

definition correlate ::
    "bool \<Rightarrow> string \<Rightarrow> string \<Rightarrow> string \<Rightarrow> int list \<Rightarrow> int list
     \<Rightarrow> failure + owned_window list \<times> projection_inventory \<Rightarrow> (follow_reason + int) option"
where
  "correlate strict host session token before_exact before_owned seen =
     (case seen of
        Inl err \<Rightarrow> if strict then Some (Inl (Correlation_Unavailable session err)) else None
      | Inr (_, v) \<Rightarrow>
          if strict \<and> (pv_untracked v \<noteq> [] \<or> pv_ambiguous v \<noteq> [])
          then Some (Inl (Correlation_Degraded session (length (pv_untracked v)) (length (pv_ambiguous v))))
          else (case new_matches v host session token before_exact before_owned of
              [] \<Rightarrow> if has_ambiguous_candidate v host session token
                    then Some (Inl (Correlation_Ambiguous session)) else None
            | [i] \<Rightarrow> if has_ambiguous_candidate v host session token
                     then Some (Inl (Correlation_Ambiguous session)) else Some (Inr i)
            | _ \<Rightarrow> Some (Inl (Correlation_Ambiguous session))))"

fun wait_for_new_projection ::
    "follow_env \<Rightarrow> bool \<Rightarrow> string \<Rightarrow> string \<Rightarrow> string \<Rightarrow> int list \<Rightarrow> int list \<Rightarrow> nat \<Rightarrow> follow_trace
     \<Rightarrow> (follow_reason + int) \<times> follow_trace"
where
  "wait_for_new_projection e strict host session token before_exact before_owned n h =
     (let over = fe_wait_context e h; h1 = Wait_Checked over # h in
      case over of
        Some err \<Rightarrow> (Inl (Not_Appeared session err), h1)
      | None \<Rightarrow>
          (case observe_follow e h1 of
             (seen, h2) \<Rightarrow>
               (case correlate strict host session token before_exact before_owned seen of
                  Some r \<Rightarrow> (r, h2)
                | None \<Rightarrow>
                    (let stop = (n = 0 \<or> fe_sleep e h2); h3 = Slept stop # h2 in
                     if stop then (Inl (Wait_Timed_Out session), h3)
                     else (case n of
                             0 \<Rightarrow> (Inl (Wait_Timed_Out session), h3)
                           | Suc m \<Rightarrow>
                               wait_for_new_projection e strict host session token before_exact
                                 before_owned m h3)))))"

declare wait_for_new_projection.simps [simp del]

definition follow_polls :: "duration \<Rightarrow> duration \<Rightarrow> nat" where
  "follow_polls timeout interval = nat ((timeout + interval - 1) div interval)"

section \<open>The move\<close>

text \<open>\<open>NiriActions.MoveToWorkspace\<close> through \<open>applyActionRunner\<close>; \<^term>\<open>None\<close> when it refuses.\<close>

definition move_command :: "string \<Rightarrow> int \<Rightarrow> runtime_target \<Rightarrow> command option" where
  "move_command niri window_id target =
     (if window_id \<le> 0 \<or> trim_space (tg_id target) = [] then None
      else
        (let name = trim_space (tg_name target);
             reference = (if name = [] \<and> 0 < tg_index target then show_int (tg_index target) else name)
         in if reference = [] then None
            else Some \<lparr>cm_name = niri,
                       cm_args = [''msg'', ''action'', ''move-window-to-workspace'', ''--window-id'',
                         show_int window_id, ''--focus'', ''false'', reference]\<rparr>))"

section \<open>One poll\<close>

definition validate_follow_config :: "follow_config \<Rightarrow> follow_reason option" where
  "validate_follow_config cfg =
     (if \<not> validate_destination (fc_source_host cfg) then Some (Bad_Host (fc_source_host cfg))
      else case validate_ssh_options (fc_ssh_options cfg) of
        Some e \<Rightarrow> Some (Bad_Ssh_Options e)
      | None \<Rightarrow>
          if trim_space (fc_ssh_command cfg) = [] \<or> trim_space (fc_launcher_command cfg) = []
             \<or> trim_space (fc_app_id cfg) = [] \<or> trim_space (fc_niri_command cfg) = []
          then Some Empty_Follow_Command
          else if fc_timeout cfg \<le> 0 \<or> fc_evidence_interval cfg \<le> 0
               \<or> fc_timeout cfg < fc_evidence_interval cfg \<or> fc_max_per_poll cfg \<le> 0 \<or> fc_max_total cfg \<le> 0
          then Some Bad_Follow_Bounds else None)"

definition set_totals :: "follow_state \<Rightarrow> follow_result \<Rightarrow> follow_result" where
  "set_totals st r =
     r\<lparr>fr_total_attempts := ft_attempts st, fr_total_confirmed := ft_confirmed st,
       fr_total_uncertain := ft_uncertain st\<rparr>"

definition zero_result :: follow_result where
  "zero_result =
     \<lparr>fr_healthy = False, fr_eligible = 0, fr_existing = 0, fr_deferred = 0, fr_attempted = 0,
      fr_confirmed = 0, fr_uncertain = 0, fr_total_attempts = 0, fr_total_confirmed = 0,
      fr_total_uncertain = 0, fr_items = [], fr_reason = No_Follow_Reason\<rparr>"

definition fail_follow_batch ::
    "follow_item \<Rightarrow> follow_reason \<Rightarrow> nat \<Rightarrow> follow_result \<Rightarrow> follow_result" where
  "fail_follow_batch it reason deferred r =
     r\<lparr>fr_healthy := False, fr_reason := reason, fr_deferred := fr_deferred r + deferred,
       fr_items := fr_items r @ [it\<lparr>fi_status := Follow_Failed, fi_reason := reason\<rparr>]\<rparr>"

definition fail_opened_follow_batch ::
    "follow_item \<Rightarrow> follow_reason \<Rightarrow> nat \<Rightarrow> follow_result \<Rightarrow> follow_result" where
  "fail_opened_follow_batch it reason deferred r =
     r\<lparr>fr_healthy := False, fr_reason := reason, fr_deferred := fr_deferred r + deferred,
       fr_items := fr_items r @ [it\<lparr>fi_reason := reason\<rparr>]\<rparr>"

record planned_launch =
  pl_window :: mirror_window
  pl_token :: string
  pl_plan :: launch_plan

definition follow_launch_config :: "follow_config \<Rightarrow> string \<Rightarrow> string \<Rightarrow> launch_config" where
  "follow_launch_config cfg session_id token =
     \<lparr>lc_source_host = fc_source_host cfg, lc_session_id = session_id,
      lc_snapshot_command = fc_snapshot_command cfg, lc_token = token,
      lc_ssh_command = fc_ssh_command cfg, lc_ssh_options = fc_ssh_options cfg,
      lc_launcher_command = fc_launcher_command cfg, lc_launcher_adapter = [],
      lc_self_command = fc_self_command cfg, lc_app_id = fc_app_id cfg, lc_socket = [],
      lc_clipboard = False\<rparr>"

fun prepare_launches ::
    "launch_tools \<Rightarrow> follow_env \<Rightarrow> follow_config \<Rightarrow> mirror_snapshot \<Rightarrow> mirror_window list \<Rightarrow> follow_trace
     \<Rightarrow> (follow_reason + planned_launch list) \<times> follow_trace"
where
  "prepare_launches tools e cfg sn [] h = (Inr [], h)"
| "prepare_launches tools e cfg sn (w # ws) h =
     (let drawn = fe_token e h; h1 = Token_Drawn drawn # h in
      case drawn of
        Inl err \<Rightarrow> (Inl (Token_Unavailable err), h1)
      | Inr token \<Rightarrow>
          (case snapshot_exact_id sn (session_name w) of
             Inl err \<Rightarrow> (Inl (No_Exact_Attachment err), h1)
           | Inr i \<Rightarrow>
               (case plan_launch tools (fe_random e h1) w (follow_launch_config cfg i token) of
                  Inl err \<Rightarrow> (Inl (Launch_Not_Planned err), h1)
                | Inr plan \<Rightarrow>
                    (case prepare_launches tools e cfg sn ws h1 of
                       (Inl r, h2) \<Rightarrow> (Inl r, h2)
                     | (Inr ps, h2) \<Rightarrow>
                         (Inr (\<lparr>pl_window = w, pl_token = token, pl_plan = plan\<rparr> # ps), h2)))))"

text \<open>The sessions of exact projections of the source host; a second one of a session is an error.\<close>

fun open_sessions :: "string \<Rightarrow> string list \<Rightarrow> projection list \<Rightarrow> follow_reason + string list" where
  "open_sessions host seen [] = Inr seen"
| "open_sessions host seen (p # ps) =
     (if pj_source_host p \<noteq> host then open_sessions host seen ps
      else if pj_session p \<in> set seen then Inl (Duplicate_Projection (pj_session p))
      else open_sessions host (pj_session p # seen) ps)"

text \<open>
  The full-poll safety gate: everything before the first launch. It answers the result so far and,
  if the gate is passed, the local windows seen and the planned launches.
\<close>

definition follow_gate ::
    "launch_tools \<Rightarrow> follow_env \<Rightarrow> follow_config \<Rightarrow> mirror_snapshot \<Rightarrow> string \<Rightarrow> string \<Rightarrow> follow_state
     \<Rightarrow> follow_trace
     \<Rightarrow> (follow_result \<times> (owned_window list \<times> planned_launch list) option) \<times> follow_trace"
where
  "follow_gate tools e cfg sn selection destination st h =
     (let r0 = set_totals st zero_result;
          refuse = (\<lambda>r reason h. ((r\<lparr>fr_reason := reason\<rparr>, None), h))
      in case validate_follow_config cfg of
        Some reason \<Rightarrow> refuse r0 reason h
      | None \<Rightarrow>
        (case validate_follow_snapshot sn of
           Inl err \<Rightarrow> refuse r0 (Source_Refused err) h
         | Inr src \<Rightarrow>
        (case source_workspace src selection of
           Inl err \<Rightarrow> refuse r0 (Source_Refused err) h
         | Inr workspace \<Rightarrow>
        (let eligible = fs_eligible src (wk_id workspace); r1 = r0\<lparr>fr_eligible := length eligible\<rparr> in
         case observe_follow e h of
           (Inl err, h1) \<Rightarrow> refuse r1 (Evidence_Unavailable err) h1
         | (Inr (before, v), h1) \<Rightarrow>
           if pv_untracked v \<noteq> [] \<or> pv_ambiguous v \<noteq> []
           then refuse r1 (Evidence_Incomplete (length (pv_untracked v)) (length (pv_ambiguous v))) h1
           else
        (let wss = fe_workspaces e h1; h2 = Workspaces_Listed wss # h1 in
         case wss of
           Inl err \<Rightarrow> refuse r1 (Local_Workspaces_Unavailable err) h2
         | Inr current \<Rightarrow>
        (case current_target destination current of
           Inl err \<Rightarrow> refuse r1 (Destination_Unavailable err) h2
         | Inr _ \<Rightarrow>
        (case open_sessions (fc_source_host cfg) [] (pv_exact v) of
           Inl reason \<Rightarrow> refuse r1 reason h2
         | Inr opened \<Rightarrow>
        (let missing0 = filter (\<lambda>w. session_name w \<notin> set opened) eligible;
             r2 = r1\<lparr>fr_existing := length eligible - length missing0\<rparr>;
             limit = nat (min (fc_max_per_poll cfg) (fc_max_total cfg - ft_attempts st));
             missing = take limit missing0;
             r3 = r2\<lparr>fr_items := map (\<lambda>w. \<lparr>fi_session = session_name w, fi_status = Deferred,
                         fi_window_id = 0, fi_reason = No_Follow_Reason\<rparr>) (drop limit missing0),
                     fr_deferred := length (drop limit missing0)\<rparr>
         in case prepare_launches tools e cfg sn missing h2 of
              (Inl reason, h3) \<Rightarrow> refuse r3 reason h3
            | (Inr plans, h3) \<Rightarrow>
                (((if plans = [] \<and> missing = [] \<and> 0 < fr_deferred r3
                   then r3\<lparr>fr_healthy := True, fr_reason := Lifetime_Limit\<rparr>
                   else r3\<lparr>fr_healthy := True\<rparr>), Some (before, plans)), h3)))))))))"

text \<open>One iteration of the launch loop; the boolean says whether the loop goes on.\<close>

definition follow_launch ::
    "follow_env \<Rightarrow> follow_config \<Rightarrow> string \<Rightarrow> int list \<Rightarrow> planned_launch \<Rightarrow> nat
     \<Rightarrow> follow_state \<times> follow_result \<Rightarrow> follow_trace
     \<Rightarrow> (bool \<times> follow_state \<times> follow_result) \<times> follow_trace"
where
  "follow_launch e cfg destination before_ids p left sr h =
     (case sr of (st, r) \<Rightarrow>
      let session = session_name (pl_window p);
          it = \<lparr>fi_session = session, fi_status = Not_Started, fi_window_id = 0,
                fi_reason = No_Follow_Reason\<rparr>;
          over = fe_context e h; h1 = Context_Checked over # h
      in case over of
        Some err \<Rightarrow> ((False, st, fail_follow_batch it (Context_Ended err) left r), h1)
      | None \<Rightarrow>
        (let st1 = st\<lparr>ft_attempts := ft_attempts st + 1\<rparr>;
             r1 = set_totals st1 (r\<lparr>fr_attempted := fr_attempted r + 1\<rparr>);
             c = lp_command (pl_plan p);
             launched = fe_run e h1 c; h2 = Launched c launched # h1;
             st_bad = st1\<lparr>ft_uncertain := ft_uncertain st1 + 1\<rparr>;
             r_bad = set_totals st_bad (r1\<lparr>fr_uncertain := fr_uncertain r1 + 1\<rparr>)
         in case launched of
              Some err \<Rightarrow> ((False, st_bad, fail_follow_batch it (Launch_Failed err) left r_bad), h2)
            | None \<Rightarrow>
        (case wait_for_new_projection e True (fc_source_host cfg) session (pl_token p) [] before_ids
                (follow_polls (fc_timeout cfg) (fc_evidence_interval cfg)) h2 of
           (Inl reason, h3) \<Rightarrow> ((False, st_bad, fail_follow_batch it reason left r_bad), h3)
         | (Inr window_id, h3) \<Rightarrow>
        (let it1 = it\<lparr>fi_window_id := window_id, fi_status := Opened\<rparr>;
             st2 = st1\<lparr>ft_confirmed := ft_confirmed st1 + 1\<rparr>;
             r2 = set_totals st2 (r1\<lparr>fr_confirmed := fr_confirmed r1 + 1\<rparr>);
             wss = fe_workspaces e h3; h4 = Workspaces_Listed wss # h3
         in case wss of
              Inl err \<Rightarrow> ((False, st2, fail_opened_follow_batch it1 (Opened_No_Workspaces err) left r2), h4)
            | Inr current \<Rightarrow>
        (case current_target destination current of
           Inl err \<Rightarrow> ((False, st2, fail_opened_follow_batch it1 (Opened_Not_Moved err) left r2), h4)
         | Inr target \<Rightarrow>
        (case move_command (fc_niri_command cfg) window_id target of
           None \<Rightarrow> ((False, st2, fail_opened_follow_batch it1 Opened_Bad_Move left r2), h4)
         | Some m \<Rightarrow>
             (let moved = fe_run e h4 m; h5 = Action_Run m moved # h4 in
              case moved of
                Some err \<Rightarrow> ((False, st2, fail_opened_follow_batch it1 (Opened_Move_Failed err) left r2), h5)
              | None \<Rightarrow> ((True, st2, r2\<lparr>fr_items := fr_items r2 @ [it1]\<rparr>), h5))))))))"

fun follow_launches ::
    "follow_env \<Rightarrow> follow_config \<Rightarrow> string \<Rightarrow> int list \<Rightarrow> planned_launch list
     \<Rightarrow> follow_state \<times> follow_result \<Rightarrow> follow_trace
     \<Rightarrow> (follow_state \<times> follow_result) \<times> follow_trace"
where
  "follow_launches e cfg destination before_ids [] sr h = (sr, h)"
| "follow_launches e cfg destination before_ids (p # ps) sr h =
     (case follow_launch e cfg destination before_ids p (length ps) sr h of
        ((continue, sr1), h1) \<Rightarrow>
          if continue then follow_launches e cfg destination before_ids ps sr1 h1 else (sr1, h1))"

definition follow_once ::
    "launch_tools \<Rightarrow> follow_env \<Rightarrow> follow_config \<Rightarrow> mirror_snapshot \<Rightarrow> string \<Rightarrow> string \<Rightarrow> follow_state
     \<Rightarrow> follow_trace \<Rightarrow> (follow_state \<times> follow_result) \<times> follow_trace"
where
  "follow_once tools e cfg sn selection destination st h =
     (case follow_gate tools e cfg sn selection destination st h of
        ((r, None), h1) \<Rightarrow> ((st, r), h1)
      | ((r, Some (before, plans)), h1) \<Rightarrow>
          follow_launches e cfg destination (map wn_id before) plans (st, r) h1)"

section \<open>What happens before the first launch\<close>

text \<open>The commands launched and the moves asked for in a trace, oldest first.\<close>

definition launches_of :: "follow_trace \<Rightarrow> command list" where
  "launches_of tr = rev (concat (map (\<lambda>x. case x of Launched c _ \<Rightarrow> [c] | _ \<Rightarrow> []) tr))"

definition moves_of :: "follow_trace \<Rightarrow> command list" where
  "moves_of tr = rev (concat (map (\<lambda>x. case x of Action_Run c _ \<Rightarrow> [c] | _ \<Rightarrow> []) tr))"

lemma traced_simps [simp]:
  "launches_of [] = []" "moves_of [] = []"
  "launches_of (x # tr) = launches_of tr @ (case x of Launched c _ \<Rightarrow> [c] | _ \<Rightarrow> [])"
  "moves_of (x # tr) = moves_of tr @ (case x of Action_Run c _ \<Rightarrow> [c] | _ \<Rightarrow> [])"
  "launches_of (tr @ tr') = launches_of tr' @ launches_of tr"
  "moves_of (tr @ tr') = moves_of tr' @ moves_of tr"
  by (auto simp: launches_of_def moves_of_def split: follow_event.split)

text \<open>\<open>quiet h h'\<close>: from \<open>h\<close> to \<open>h'\<close> there were only observations.\<close>

definition quiet :: "follow_trace \<Rightarrow> follow_trace \<Rightarrow> bool" where
  "quiet h h' \<longleftrightarrow> (\<exists>new. h' = new @ h \<and> launches_of new = [] \<and> moves_of new = [])"

lemma quiet_refl [simp]: "quiet h h"
  by (auto simp: quiet_def)

lemma quiet_trans: "quiet h h1 \<Longrightarrow> quiet h1 h2 \<Longrightarrow> quiet h h2"
  by (force simp: quiet_def)

lemma quiet_Cons: "quiet h h' \<Longrightarrow> launches_of [x] = [] \<Longrightarrow> moves_of [x] = [] \<Longrightarrow> quiet h (x # h')"
proof -
  assume "quiet h h'" "launches_of [x] = []" "moves_of [x] = []"
  then obtain new where "h' = new @ h" "launches_of (x # new) = []" "moves_of (x # new) = []"
    by (auto simp: quiet_def)
  then show "quiet h (x # h')" unfolding quiet_def by (metis append_Cons)
qed

lemmas quiet_intros = quiet_Cons [of _ _ "Windows_Listed a" for a, simplified]
  quiet_Cons [of _ _ "Inspected a" for a, simplified]
  quiet_Cons [of _ _ "Workspaces_Listed a" for a, simplified]
  quiet_Cons [of _ _ "Token_Drawn a" for a, simplified]
  quiet_Cons [of _ _ "Context_Checked a" for a, simplified]
  quiet_Cons [of _ _ "Wait_Checked a" for a, simplified]
  quiet_Cons [of _ _ "Slept a" for a, simplified]

text \<open>A wait that finds a window ends with the look that found it.\<close>

lemma observe_follow_quiet:
  "observe_follow e h = (seen, h') \<Longrightarrow> quiet h h'
     \<and> (\<forall>ws v. seen = Inr (ws, v) \<longrightarrow> h' = Inspected (Inr v) # Windows_Listed (Inr ws) # h)"
  by (auto simp: observe_follow_def Let_def split: sum.splits intro!: quiet_intros)

lemma correlate_Inr:
  assumes "correlate strict host session token be bo seen = Some (Inr i)"
  obtains ws v where "seen = Inr (ws, v)" "i \<in> set (new_matches v host session token be bo)"
    "strict \<Longrightarrow> pv_untracked v = [] \<and> pv_ambiguous v = []"
  using assms that
  by (auto simp: correlate_def split: sum.splits prod.splits list.splits if_splits)

lemma wait_step:
  assumes "observe_follow e (Wait_Checked (fe_wait_context e h) # h) = (seen, h2)"
  shows "wait_for_new_projection e strict host session token be bo n h =
     (case fe_wait_context e h of
        Some err \<Rightarrow> (Inl (Not_Appeared session err), Wait_Checked (fe_wait_context e h) # h)
      | None \<Rightarrow>
          (case correlate strict host session token be bo seen of
             Some r \<Rightarrow> (r, h2)
           | None \<Rightarrow>
               (if n = 0 \<or> fe_sleep e h2 then (Inl (Wait_Timed_Out session), Slept True # h2)
                else wait_for_new_projection e strict host session token be bo (n - 1) (Slept False # h2))))"
proof (cases "fe_wait_context e h")
  case None
  with assms have o: "observe_follow e (Wait_Checked None # h) = (seen, h2)" by simp
  show ?thesis unfolding None
    by (subst wait_for_new_projection.simps)
      (cases n; cases "correlate strict host session token be bo seen"; simp add: Let_def None o)
next
  case (Some err)
  then show ?thesis by (subst wait_for_new_projection.simps) (simp add: Let_def)
qed

lemma wait_for_new_projection_trace:
  "wait_for_new_projection e strict host session token be bo n h = (r, h') \<Longrightarrow>
   quiet h h' \<and> (\<forall>i. r = Inr i \<longrightarrow> (\<exists>ws v rest. h' = Inspected (Inr v) # Windows_Listed (Inr ws) # rest
     \<and> quiet h rest \<and> i \<in> set (new_matches v host session token be bo)))"
proof (induction n arbitrary: h)
  case (0 h)
  obtain seen h2 where o: "observe_follow e (Wait_Checked (fe_wait_context e h) # h) = (seen, h2)" by fastforce
  note q = observe_follow_quiet [OF o]
  have q0: "quiet h (Wait_Checked x # h)" for x by (simp add: quiet_intros)
  have q1: "quiet h h2" using q q0 quiet_trans by blast
  show ?case
  proof (cases "fe_wait_context e h = None \<and> correlate strict host session token be bo seen = Some r")
    case True
    then have "h' = h2" using 0 by (simp add: wait_step [OF o])
    with True q q0 q1 show ?thesis by (auto elim!: correlate_Inr)
  next
    case False
    then show ?thesis using 0 q0 q1
      by (auto simp: wait_step [OF o] quiet_intros split: option.splits)
  qed
next
  case (Suc n h)
  obtain seen h2 where o: "observe_follow e (Wait_Checked (fe_wait_context e h) # h) = (seen, h2)" by fastforce
  note q = observe_follow_quiet [OF o]
  have q0: "quiet h (Wait_Checked x # h)" for x by (simp add: quiet_intros)
  have q1: "quiet h h2" using q q0 quiet_trans by blast
  note p = Suc.prems [unfolded wait_step [OF o]]
  consider (goes) "wait_for_new_projection e strict host session token be bo n (Slept False # h2) = (r, h')"
    | (found) "correlate strict host session token be bo seen = Some r" "h' = h2"
    | (stopped) "\<exists>x. r = Inl x" "h' = Slept True # h2 \<or> (\<exists>x. h' = Wait_Checked x # h)"
  proof (cases "fe_wait_context e h")
    case (Some err)
    with p show thesis by (intro stopped) auto
  next
    case None
    show thesis
    proof (cases "correlate strict host session token be bo seen")
      case (Some r1)
      with p None show thesis by (intro found) auto
    next
      case c: None
      show thesis
      proof (cases "fe_sleep e h2")
        case True
        with p None c show thesis by (intro stopped) auto
      next
        case False
        with p None c show thesis by (intro goes) auto
      qed
    qed
  qed
  then show ?case
  proof cases
    case goes
    have "quiet h (Slept False # h2)" using q1 by (simp add: quiet_intros)
    then have "quiet h x" if "quiet (Slept False # h2) x" for x using that by (rule quiet_trans)
    with Suc.IH [OF goes] show ?thesis by auto
  next
    case found
    with q q0 q1 show ?thesis by (auto elim!: correlate_Inr)
  next
    case stopped
    with q0 q1 show ?thesis by (auto simp: quiet_intros)
  qed
qed

text \<open>The preparation of the launches.\<close>

lemma prepare_launches_quiet:
  "prepare_launches tools e cfg sn ws h = (r, h') \<Longrightarrow> quiet h h'"
proof (induction ws arbitrary: h h' r)
  case (Cons w ws)
  have q: "quiet h (Token_Drawn x # h)" for x by (simp add: quiet_intros)
  obtain r1 h1 where o: "prepare_launches tools e cfg sn ws (Token_Drawn (fe_token e h) # h) = (r1, h1)"
    by fastforce
  from Cons.IH [OF o] q have "quiet h h1" using quiet_trans by blast
  with Cons.prems o q show ?case by (auto simp: Let_def split: sum.splits)
qed simp

definition planned_ok ::
    "launch_tools \<Rightarrow> follow_config \<Rightarrow> mirror_snapshot \<Rightarrow> planned_launch \<Rightarrow> bool" where
  "planned_ok tools cfg sn p \<longleftrightarrow>
     (\<exists>i random. snapshot_exact_id sn (session_name (pl_window p)) = Inr i
        \<and> plan_launch tools random (pl_window p) (follow_launch_config cfg i (pl_token p)) = Inr (pl_plan p))"

lemma prepare_launches_Inr:
  "prepare_launches tools e cfg sn ws h = (Inr ps, h') \<Longrightarrow>
     map pl_window ps = ws \<and> (\<forall>p \<in> set ps. planned_ok tools cfg sn p)"
proof (induction ws arbitrary: h ps)
  case (Cons w ws)
  then show ?case
    by (fastforce simp: Let_def planned_ok_def split: sum.splits prod.splits)
qed simp

lemma open_sessions_Inr:
  "open_sessions host seen ps = Inr opened \<Longrightarrow>
     set opened = set seen \<union> pj_session ` {p \<in> set ps. pj_source_host p = host}"
  by (induction ps arbitrary: seen) (auto split: if_splits)

text \<open>The sessions of the eligible windows of an accepted source are distinct.\<close>

lemma session_name_ident:
  assumes "evidence_ok w" and "ident w \<noteq> []"
  shows "session_name w = ident w"
  using assms by (auto simp: evidence_ok_def ident_def session_name_def validate_session_def
      terminal_session_def split: option.splits if_splits)

lemma eligible_window:
  assumes "validate_follow_snapshot sn = Inr src" and "w \<in> set (fs_eligible src i)"
  shows "w \<in> set (snapshot_windows sn) \<and> mw_workspace_id w = i \<and> \<not> mw_headless w
    \<and> session_name w = ident w \<and> ident w \<in> set (fs_active src)"
proof -
  from assms(1) have src: "wf_follow sn" "src = source_of sn" by (simp_all add: wf_source)
  with assms(2) show ?thesis
    by (auto simp: source_of_def Let_def by_order_def eligible_on_def shown_on_def wf_follow_def
        windows_ok_def window_ok_def session_name_ident split: option.splits)
qed

lemma eligible_distinct:
  assumes "validate_follow_snapshot sn = Inr src"
  shows "distinct (map session_name (fs_eligible src i))"
proof -
  from assms have src: "wf_follow sn" "src = source_of sn" by (simp_all add: wf_source)
  then have d: "distinct (named (map ident (snapshot_windows sn)))"
    by (auto simp: wf_follow_def windows_ok_def split: option.splits)
  have narrow: "distinct (map ident (filter P ws))" if "distinct (named (map ident ws))" "\<And>w. P w \<Longrightarrow> ident w \<noteq> []"
    for P ws using that by (induction ws) (auto split: if_splits)
  have "distinct (map ident (fs_eligible src i))"
    unfolding src(2) source_of_def Let_def by_order_def follow_source.simps distinct_map_stable_sort
    by (rule narrow [OF d]) (simp add: eligible_on_def)
  moreover have "map session_name (fs_eligible src i) = map ident (fs_eligible src i)"
    using eligible_window [OF assms] by simp
  ultimately show ?thesis by (simp only:)
qed

text \<open>The gate: what it has established when it lets launches through.\<close>

lemma follow_gate_quiet:
  "follow_gate tools e cfg sn selection destination st h = ((r, g), h') \<Longrightarrow> quiet h h'"
proof -
  assume a: "follow_gate tools e cfg sn selection destination st h = ((r, g), h')"
  obtain seen h1 where o: "observe_follow e h = (seen, h1)" by fastforce
  have q: "quiet h h1" "quiet h (Workspaces_Listed x # h1)" for x
    using observe_follow_quiet [OF o] by (simp_all add: quiet_intros)
  have p: "quiet h h3" if "prepare_launches tools e cfg sn ws (Workspaces_Listed x # h1) = (z, h3)" for ws x z h3
    using prepare_launches_quiet [OF that] q quiet_trans by blast
  show ?thesis
    using a p q unfolding follow_gate_def o Let_def
    by (auto split: option.split_asm sum.split_asm prod.split_asm if_split_asm)
qed

lemma follow_gate_passed:
  assumes "follow_gate tools e cfg sn selection destination st h = ((r, Some (before, plans)), h')"
  shows "validate_follow_config cfg = None
    \<and> (\<exists>src v current target.
         validate_follow_snapshot sn = Inr src
       \<and> observe_follow e h = (Inr (before, v), Inspected (Inr v) # Windows_Listed (Inr before) # h)
       \<and> pv_untracked v = [] \<and> pv_ambiguous v = []
       \<and> current_target destination current = Inr target
       \<and> (\<exists>rest. h' = rest @ Workspaces_Listed (Inr current) # Inspected (Inr v)
             # Windows_Listed (Inr before) # h \<and> launches_of rest = [] \<and> moves_of rest = [])
       \<and> (\<exists>rest. map pl_window plans @ rest =
            filter (\<lambda>w. session_name w \<notin> pj_session ` {p \<in> set (pv_exact v). pj_source_host p = fc_source_host cfg})
              (fs_eligible src selection))
       \<and> int (length plans) \<le> max 0 (min (fc_max_per_poll cfg) (fc_max_total cfg - ft_attempts st))
       \<and> (\<forall>p \<in> set plans. planned_ok tools cfg sn p))"
proof -
  obtain seen h1 where o: "observe_follow e h = (seen, h1)" by fastforce
  obtain src w v where s: "validate_follow_config cfg = None" "validate_follow_snapshot sn = Inr src"
      "source_workspace src selection = Inr w" "seen = Inr (before, v)"
      "pv_untracked v = []" "pv_ambiguous v = []"
    using assms unfolding follow_gate_def o Let_def
    by (auto split: option.split_asm sum.split_asm prod.split_asm if_split_asm)
  have h1: "h1 = Inspected (Inr v) # Windows_Listed (Inr before) # h"
    using observe_follow_quiet [OF o] s(4) by blast
  have w: "wk_id w = selection" using s(3)
    by (auto simp: source_workspace_def find_Some_iff split: option.split_asm if_split_asm)
  obtain current target opened where c: "fe_workspaces e h1 = Inr current"
      "current_target destination current = Inr target"
      "open_sessions (fc_source_host cfg) [] (pv_exact v) = Inr opened"
    using assms s unfolding follow_gate_def o Let_def
    by (auto split: option.split_asm sum.split_asm prod.split_asm if_split_asm)
  define limit where "limit = nat (min (fc_max_per_poll cfg) (fc_max_total cfg - ft_attempts st))"
  define missing where "missing = filter (\<lambda>w. session_name w \<notin> set opened) (fs_eligible src selection)"
  have p: "prepare_launches tools e cfg sn (take limit missing) (Workspaces_Listed (Inr current) # h1)
      = (Inr plans, h')"
    using assms s c unfolding follow_gate_def o Let_def limit_def missing_def
    by (auto simp: w split: option.split_asm sum.split_asm prod.split_asm if_split_asm)
  note ps = prepare_launches_Inr [OF p]
  from prepare_launches_quiet [OF p] have "\<exists>rest. h' = rest @ Workspaces_Listed (Inr current) # Inspected (Inr v)
             # Windows_Listed (Inr before) # h \<and> launches_of rest = [] \<and> moves_of rest = []"
    by (simp add: quiet_def h1)
  moreover have "map pl_window plans @ drop limit missing = missing" using ps by simp
  moreover have "missing = filter (\<lambda>w. session_name w \<notin> pj_session ` {p \<in> set (pv_exact v). pj_source_host p = fc_source_host cfg})
              (fs_eligible src selection)"
    using open_sessions_Inr [OF c(3)] by (simp add: missing_def)
  moreover have "length plans = length (take limit missing)" using ps by (metis length_map)
  then have "int (length plans) \<le> max 0 (min (fc_max_per_poll cfg) (fc_max_total cfg - ft_attempts st))"
    by (simp add: limit_def)
  ultimately show ?thesis using s c ps o h1 by blast
qed

section \<open>The launches\<close>

text \<open>What one iteration does, as a trace: the launch, a wait, and perhaps the move.\<close>

definition move_grounds ::
    "follow_config \<Rightarrow> string \<Rightarrow> int list \<Rightarrow> planned_launch \<Rightarrow> command \<Rightarrow> follow_trace \<Rightarrow> bool" where
  "move_grounds cfg destination before_ids p m tr \<longleftrightarrow>
     (\<exists>current v ws rest window_id target q.
        tr = Workspaces_Listed (Inr current) # Inspected (Inr v) # Windows_Listed (Inr ws) # rest
      \<and> launches_of rest \<noteq> [] \<and> last (launches_of rest) = lp_command (pl_plan p)
      \<and> current_target destination current = Inr target
      \<and> move_command (fc_niri_command cfg) window_id target = Some m
      \<and> q \<in> set (pv_exact v) \<and> wn_id (pj_window q) = window_id \<and> window_id \<notin> set before_ids
      \<and> pj_source_host q = fc_source_host cfg \<and> pj_session q = session_name (pl_window p)
      \<and> pj_token q = pl_token p)"

lemma new_matches_iff:
  "i \<in> set (new_matches v host session token be bo) \<longleftrightarrow>
     (\<exists>q \<in> set (pv_exact v). wn_id (pj_window q) = i \<and> pj_source_host q = host
        \<and> pj_session q = session \<and> pj_token q = token \<and> i \<notin> set be \<and> i \<notin> set bo)"
  by (auto simp: new_matches_def)

lemma launches_of_quiet: "quiet h h' \<Longrightarrow> launches_of h' = launches_of h \<and> moves_of h' = moves_of h"
  by (auto simp: quiet_def)

text \<open>
  One iteration: nothing launched and the state unchanged, or exactly the planned command launched,
  one attempt counted and confirmed or not, and at most one move, on grounds.
\<close>

lemma follow_launch_trace:
  assumes "follow_launch e cfg destination before_ids p left (st, r) h = ((go, st1, r1), h1)"
  shows "(\<not> go \<and> st1 = st \<and> quiet h h1)
    \<or> (ft_attempts st1 = ft_attempts st + 1
       \<and> ft_confirmed st1 + ft_uncertain st1 = ft_confirmed st + ft_uncertain st + 1
       \<and> (\<exists>new res. h1 = new @ Launched (lp_command (pl_plan p)) res # Context_Checked None # h \<and> launches_of new = []
            \<and> (moves_of new = []
               \<or> (\<exists>m x post. new = Action_Run m x # post \<and> moves_of post = []
                     \<and> move_grounds cfg destination before_ids p m
                          (post @ Launched (lp_command (pl_plan p)) res # Context_Checked None # h)))))"
proof (cases "fe_context e h")
  case (Some err)
  then show ?thesis using assms by (auto simp: follow_launch_def Let_def quiet_intros)
next
  case None
  define c where "c = lp_command (pl_plan p)"
  define h2 where "h2 = Launched c (fe_run e (Context_Checked None # h) c) # Context_Checked None # h"
  show ?thesis
  proof (cases "fe_run e (Context_Checked None # h) c")
    case (Some err)
    then show ?thesis using assms None by (auto simp: follow_launch_def Let_def c_def)
  next
    case run: None
    obtain w h3 where w: "wait_for_new_projection e True (fc_source_host cfg) (session_name (pl_window p))
        (pl_token p) [] before_ids (follow_polls (fc_timeout cfg) (fc_evidence_interval cfg)) h2 = (w, h3)"
      by fastforce
    note wt = wait_for_new_projection_trace [OF w]
    then obtain new where new: "h3 = new @ h2" "launches_of new = []" "moves_of new = []"
      by (auto simp: quiet_def)
    show ?thesis
    proof (cases w)
      case (Inl reason)
      then show ?thesis
        using assms None run w new by (auto simp: follow_launch_def Let_def c_def h2_def)
    next
      case (Inr i)
      from wt Inr obtain ws v rest q where g: "h3 = Inspected (Inr v) # Windows_Listed (Inr ws) # rest"
        "quiet h2 rest" "q \<in> set (pv_exact v)" "wn_id (pj_window q) = i" "i \<notin> set before_ids"
        "pj_source_host q = fc_source_host cfg" "pj_session q = session_name (pl_window p)"
        "pj_token q = pl_token p"
        by (auto simp: new_matches_iff)
      have launched: "launches_of rest \<noteq> [] \<and> last (launches_of rest) = c"
        using launches_of_quiet [OF g(2)] by (simp add: h2_def)
      have grounds: "move_grounds cfg destination before_ids p m (Workspaces_Listed (Inr current) # h3)"
        if "current_target destination current = Inr target"
          "move_command (fc_niri_command cfg) i target = Some m" for current target m
        unfolding move_grounds_def g(1) using that g launched c_def by blast
      show ?thesis
        using assms None run w Inr new grounds
        by (auto simp: follow_launch_def Let_def c_def h2_def split: sum.splits option.splits)
    qed
  qed
qed

text \<open>\<open>trace_on P new h\<close>: every event of \<open>new\<close> satisfied \<open>P\<close> when it happened.\<close>

fun trace_on :: "(follow_event \<Rightarrow> follow_trace \<Rightarrow> bool) \<Rightarrow> follow_trace \<Rightarrow> follow_trace \<Rightarrow> bool" where
  "trace_on P [] h = True"
| "trace_on P (x # new) h = (trace_on P new h \<and> P x (new @ h))"

lemma trace_on_append [simp]: "trace_on P (a @ b) h \<longleftrightarrow> trace_on P a (b @ h) \<and> trace_on P b h"
  by (induction a) auto

lemma trace_on_mono: "trace_on P new h \<Longrightarrow> (\<And>x tr. P x tr \<Longrightarrow> R x tr) \<Longrightarrow> trace_on R new h"
  by (induction new) auto

text \<open>The moves, and the launches, of \<open>new\<close> satisfied \<open>Q\<close> when they were asked for.\<close>

definition moves_on :: "(command \<Rightarrow> follow_trace \<Rightarrow> bool) \<Rightarrow> follow_trace \<Rightarrow> follow_trace \<Rightarrow> bool" where
  "moves_on Q = trace_on (\<lambda>x tr. case x of Action_Run m _ \<Rightarrow> Q m tr | _ \<Rightarrow> True)"

definition launches_on :: "(command \<Rightarrow> follow_trace \<Rightarrow> bool) \<Rightarrow> follow_trace \<Rightarrow> follow_trace \<Rightarrow> bool" where
  "launches_on Q = trace_on (\<lambda>x tr. case x of Launched c _ \<Rightarrow> Q c tr | _ \<Rightarrow> True)"

lemma asked_on_simps [simp]:
  "moves_on Q [] h" "launches_on Q [] h"
  "moves_on Q (x # new) h \<longleftrightarrow>
     moves_on Q new h \<and> (case x of Action_Run m _ \<Rightarrow> Q m (new @ h) | _ \<Rightarrow> True)"
  "launches_on Q (x # new) h \<longleftrightarrow>
     launches_on Q new h \<and> (case x of Launched c _ \<Rightarrow> Q c (new @ h) | _ \<Rightarrow> True)"
  "moves_on Q (a @ b) h \<longleftrightarrow> moves_on Q a (b @ h) \<and> moves_on Q b h"
  "launches_on Q (a @ b) h \<longleftrightarrow> launches_on Q a (b @ h) \<and> launches_on Q b h"
  by (simp_all add: moves_on_def launches_on_def)

lemma moves_on_none: "moves_of new = [] \<Longrightarrow> moves_on Q new h"
  by (induction new) (auto split: follow_event.splits)

lemma launches_on_none: "launches_of new = [] \<Longrightarrow> launches_on Q new h"
  by (induction new) (auto split: follow_event.splits)

lemma moves_on_mono: "moves_on Q new h \<Longrightarrow> (\<And>m tr. Q m tr \<Longrightarrow> R m tr) \<Longrightarrow> moves_on R new h"
  unfolding moves_on_def by (erule trace_on_mono) (auto split: follow_event.splits)

lemma launches_on_mono: "launches_on Q new h \<Longrightarrow> (\<And>m tr. Q m tr \<Longrightarrow> R m tr) \<Longrightarrow> launches_on R new h"
  unfolding launches_on_def by (erule trace_on_mono) (auto split: follow_event.splits)

lemma follow_launches_trace:
  "follow_launches e cfg destination before_ids ps (st, r) h = ((st1, r1), h1) \<Longrightarrow>
   \<exists>k new. k \<le> length ps \<and> h1 = new @ h
     \<and> launches_of new = map (\<lambda>p. lp_command (pl_plan p)) (take k ps)
     \<and> ft_attempts st1 = ft_attempts st + int k
     \<and> ft_confirmed st1 + ft_uncertain st1 = ft_confirmed st + ft_uncertain st + int k
     \<and> moves_on (\<lambda>m tr. \<exists>p \<in> set ps. move_grounds cfg destination before_ids p m tr) new h"
proof (induction ps arbitrary: st r h)
  case Nil
  then show ?case by auto
next
  case (Cons p ps)
  let ?Q = "\<lambda>ps m tr. \<exists>p \<in> set ps. move_grounds cfg destination before_ids p m tr"
  obtain go st0 r0 h0 where o: "follow_launch e cfg destination before_ids p (length ps) (st, r) h
      = ((go, st0, r0), h0)" by (metis prod_cases3 surj_pair)
  show ?case
  proof (cases "\<not> go \<and> st0 = st \<and> quiet h h0")
    case True
    then have s: "st1 = st" "h1 = h0" using Cons.prems o by auto
    from True obtain new where "h1 = new @ h" "launches_of new = []" "moves_of new = []"
      by (auto simp: quiet_def s)
    then show ?thesis by (intro exI [of _ 0] exI [of _ new]) (simp add: s moves_on_none)
  next
    case False
    with follow_launch_trace [OF o] obtain new0 where n: "h0 = new0 @ h"
      "launches_of new0 = [lp_command (pl_plan p)]" "moves_on (?Q [p]) new0 h"
      and a: "ft_attempts st0 = ft_attempts st + 1"
        "ft_confirmed st0 + ft_uncertain st0 = ft_confirmed st + ft_uncertain st + 1"
      by (force simp: moves_on_none)
    from n(3) have n3: "moves_on (?Q (p # ps)) new0 h" by (rule moves_on_mono) auto
    show ?thesis
    proof (cases go)
      case True
      with Cons.prems o have "follow_launches e cfg destination before_ids ps (st0, r0) h0 = ((st1, r1), h1)"
        by simp
      from Cons.IH [OF this] obtain k new where k: "k \<le> length ps" "h1 = new @ h0"
        "launches_of new = map (\<lambda>p. lp_command (pl_plan p)) (take k ps)"
        "ft_attempts st1 = ft_attempts st0 + int k"
        "ft_confirmed st1 + ft_uncertain st1 = ft_confirmed st0 + ft_uncertain st0 + int k"
        "moves_on (?Q ps) new h0" by blast
      from k(6) have "moves_on (?Q (p # ps)) new h0" by (rule moves_on_mono) auto
      then show ?thesis using k n n3 a
        by (intro exI [of _ "Suc k"] exI [of _ "new @ new0"]) simp
    next
      case False
      with Cons.prems o have "st1 = st0" "h1 = h0" by auto
      then show ?thesis using n n3 a
        by (intro exI [of _ "Suc 0"] exI [of _ new0]) simp
    qed
  qed
qed

lemma moves_onD: "moves_on Q new h \<Longrightarrow> new = post @ Action_Run m x # pre \<Longrightarrow> Q m (pre @ h)"
  by simp

text \<open>A whole poll.\<close>

lemma follow_once_cases:
  assumes "follow_once tools e cfg sn selection destination st h = ((st1, r1), h1)"
  obtains (refused) "st1 = st" "quiet h h1"
  | (passed) r before plans h0 where
      "follow_gate tools e cfg sn selection destination st h = ((r, Some (before, plans)), h0)"
      "follow_launches e cfg destination (map wn_id before) plans (st, r) h0 = ((st1, r1), h1)"
proof -
  obtain r g h0 where o: "follow_gate tools e cfg sn selection destination st h = ((r, g), h0)"
    by (metis surj_pair)
  show thesis
  proof (cases g)
    case None
    with assms o have "st1 = st" "h1 = h0" by (auto simp: follow_once_def)
    with follow_gate_quiet [OF o] refused show thesis by simp
  next
    case (Some bp)
    with assms o passed show thesis by (cases bp) (auto simp: follow_once_def)
  qed
qed

section \<open>An example poll\<close>

definition ex_follow_config :: follow_config where
  "ex_follow_config =
     \<lparr>fc_source_host = ''box'', fc_ssh_command = ''ssh'', fc_ssh_options = [],
      fc_launcher_command = ''kitty'', fc_self_command = ''redeem'',
      fc_snapshot_command = [''r'', ''mirror'', ''snapshot''], fc_app_id = ''kitty'',
      fc_niri_command = ''niri'', fc_timeout = 4 * second, fc_evidence_interval = second,
      fc_max_per_poll = 2, fc_max_total = 5\<rparr>"

definition ex_follow_snapshot :: mirror_snapshot where
  "ex_follow_snapshot =
     \<lparr>sn_host = ''box'', sn_profile = ''default'', sn_generated_at = 5,
      sn_workspaces = Some [\<lparr>wk_id = ''1'', wk_index = 1, wk_name = [], wk_output = []\<rparr>],
      sn_active = Some [''a''], sn_ids = Some [(''a'', ex_id 7)],
      sn_windows = Some [ex_source_window\<lparr>mw_terminal := Some \<lparr>mt_cwd = [], mt_process_tags = [],
        mt_session = ''a'', mt_project = []\<rparr>\<rparr>]\<rparr>"

text \<open>A desktop that shows the launched window from the second look on.\<close>

definition ex_follow_env :: follow_env where
  "ex_follow_env =
     \<lparr>fe_list = (\<lambda>h. Inr (if launches_of h = [] \<or> \<not> list_ex (\<lambda>x. x = Slept False) h then [] else [ex_owned])),
      fe_inspect = (\<lambda>h ws. Inr \<lparr>pv_exact = map (\<lambda>w. \<lparr>pj_window = w, pj_source_host = ''box'', pj_session = ''a'',
          pj_token = replicate 32 (CHR ''a''), pj_session_id = ex_id 7, pj_supervised = True, pj_ready = True\<rparr>) ws,
          pv_untracked = [], pv_ambiguous = [], pv_candidates = [], pv_unverified = []\<rparr>),
      fe_workspaces = (\<lambda>h. Inr [\<lparr>os_id = JV_Shown ''7'', os_index = 2, os_name = JV_Null\<rparr>]),
      fe_token = (\<lambda>h. Inr (replicate 32 (CHR ''a''))), fe_random = (\<lambda>h. Inl []),
      fe_run = (\<lambda>h c. None), fe_context = (\<lambda>h. None), fe_wait_context = (\<lambda>h. None),
      fe_sleep = (\<lambda>h. False)\<rparr>"

definition ex_follow_once :: "(follow_state \<times> follow_result) \<times> follow_trace" where
  "ex_follow_once =
     follow_once ex_launch_tools ex_follow_env ex_follow_config ex_follow_snapshot ''1'' ''7''
       \<lparr>ft_attempts = 0, ft_confirmed = 0, ft_uncertain = 0\<rparr> []"

lemma ex_follow_once_moves:
  obtains m pre st r where "ex_follow_once = ((st, r), [] @ Action_Run m None # pre)"
proof -
  have "(case snd ex_follow_once of Action_Run m None # pre \<Rightarrow> True | _ \<Rightarrow> False)" by code_simp
  then obtain m pre where "snd ex_follow_once = Action_Run m None # pre"
    by (auto split: list.splits follow_event.splits option.splits)
  then show thesis using that by (cases ex_follow_once) (metis append_Nil snd_conv surj_pair)
qed

lemma ex_follow_once_launches: "launches_of (snd ex_follow_once) \<noteq> []"
  by code_simp

section \<open>Properties\<close>

text \<open>
  The budgets of the follower. A poll counts every launch before it is made: the number of launches
  it makes is the growth of the lifetime counter, at most \<open>MaxPerPoll\<close>, and never takes the
  counter beyond \<open>MaxTotal\<close>; and every counted attempt ends as confirmed or as uncertain.
\<close>

theorem follow_budget:
  assumes "follow_once tools e cfg sn selection destination st h = ((st1, r1), new @ h)"
  shows "int (length (launches_of new)) = ft_attempts st1 - ft_attempts st
    \<and> ft_attempts st1 - ft_attempts st \<le> max 0 (fc_max_per_poll cfg)
    \<and> ft_attempts st1 \<le> max (ft_attempts st) (fc_max_total cfg)
    \<and> ft_confirmed st1 + ft_uncertain st1 - (ft_confirmed st + ft_uncertain st)
        = ft_attempts st1 - ft_attempts st"
  using assms
proof (cases rule: follow_once_cases)
  case refused
  then show ?thesis by (auto simp: quiet_def)
next
  case (passed r before plans h0)
  from follow_gate_passed [OF passed(1)]
  have len: "int (length plans) \<le> max 0 (min (fc_max_per_poll cfg) (fc_max_total cfg - ft_attempts st))"
    by blast
  from follow_gate_quiet [OF passed(1)] obtain new0 where n0: "h0 = new0 @ h" "launches_of new0 = []"
    by (auto simp: quiet_def)
  from follow_launches_trace [OF passed(2)] obtain k new1 where k: "k \<le> length plans" "new @ h = new1 @ h0"
    "launches_of new1 = map (\<lambda>p. lp_command (pl_plan p)) (take k plans)"
    "ft_attempts st1 = ft_attempts st + int k"
    "ft_confirmed st1 + ft_uncertain st1 = ft_confirmed st + ft_uncertain st + int k" by blast
  then have "length (launches_of new) = k" using n0 by simp
  with k(1,4,5) len show ?thesis by linarith
qed

theorem follow_budget_witness:
  "int (length (launches_of (snd ex_follow_once))) = ft_attempts (fst (fst ex_follow_once))
   \<and> launches_of (snd ex_follow_once) \<noteq> []"
proof -
  have "follow_once ex_launch_tools ex_follow_env ex_follow_config ex_follow_snapshot ''1'' ''7''
     \<lparr>ft_attempts = 0, ft_confirmed = 0, ft_uncertain = 0\<rparr> []
     = ((fst (fst ex_follow_once), snd (fst ex_follow_once)), snd ex_follow_once @ [])"
    by (simp add: ex_follow_once_def)
  from follow_budget [OF this] show ?thesis by (simp add: ex_follow_once_launches)
qed

text \<open>
  C9: what a poll launches. If a poll launches anything, the source snapshot was accepted and the first
  thing it did was to look at the local windows, all of which were identified. The commands
  launched are, in the order of the selected workspace, the plans for windows of that workspace whose
  exact incarnation the snapshot names and whose session no local window of the host shows;
  no session is launched twice.
\<close>

theorem follow_launches_missing:
  assumes "follow_once tools e cfg sn selection destination st h = ((st1, r1), new @ h)"
    and "launches_of new \<noteq> []"
  shows "\<exists>src v before rest plans skipped.
     validate_follow_snapshot sn = Inr src
   \<and> new = rest @ [Inspected (Inr v), Windows_Listed (Inr before)]
   \<and> pv_untracked v = [] \<and> pv_ambiguous v = []
   \<and> launches_of new = map (\<lambda>p. lp_command (pl_plan p)) plans
   \<and> map pl_window plans @ skipped =
       filter (\<lambda>w. session_name w \<notin> pj_session ` {p \<in> set (pv_exact v). pj_source_host p = fc_source_host cfg})
         (fs_eligible src selection)
   \<and> distinct (map (\<lambda>p. session_name (pl_window p)) plans)
   \<and> (\<forall>p \<in> set plans. planned_ok tools cfg sn p)"
  using assms(1)
proof (cases rule: follow_once_cases)
  case refused
  with assms(2) show ?thesis by (auto simp: quiet_def)
next
  case (passed r before plans h0)
  from follow_gate_passed [OF passed(1)] obtain src v current rest skipped where
    g: "validate_follow_snapshot sn = Inr src" "pv_untracked v = []" "pv_ambiguous v = []"
      "h0 = rest @ Workspaces_Listed (Inr current) # Inspected (Inr v) # Windows_Listed (Inr before) # h"
      "launches_of rest = []" "\<forall>p \<in> set plans. planned_ok tools cfg sn p"
      "map pl_window plans @ skipped =
         filter (\<lambda>w. session_name w \<notin> pj_session ` {p \<in> set (pv_exact v). pj_source_host p = fc_source_host cfg})
           (fs_eligible src selection)" by blast
  from follow_launches_trace [OF passed(2)] obtain k new1 where k: "k \<le> length plans" "new @ h = new1 @ h0"
    "launches_of new1 = map (\<lambda>p. lp_command (pl_plan p)) (take k plans)" by blast
  then have new: "new = (new1 @ rest @ [Workspaces_Listed (Inr current)])
      @ [Inspected (Inr v), Windows_Listed (Inr before)]" using g(4) by simp
  have launched: "launches_of new = map (\<lambda>p. lp_command (pl_plan p)) (take k plans)"
    unfolding new using k(3) g(5) by simp
  have split: "map pl_window (take k plans) @ map pl_window (drop k plans) @ skipped
      = map pl_window plans @ skipped"
    by (metis append.assoc append_take_drop_id map_append)
  have "distinct (map session_name (map pl_window plans @ skipped))"
    unfolding g(7) using eligible_distinct [OF g(1)] by (simp add: distinct_map_filter)
  then have "distinct (map session_name (map pl_window (take k plans)))"
    unfolding split [symmetric] by simp
  then have d: "distinct (map (\<lambda>p. session_name (pl_window p)) (take k plans))" by (simp add: comp_def)
  have ok: "\<forall>p \<in> set (take k plans). planned_ok tools cfg sn p"
    using g(6) in_set_takeD by fast
  show ?thesis
    using g(1-3) new launched split [unfolded g(7)] d ok by blast
qed

theorem follow_launches_missing_witness:
  "\<exists>src v before rest. validate_follow_snapshot ex_follow_snapshot = Inr src
   \<and> snd ex_follow_once = rest @ [Inspected (Inr v), Windows_Listed (Inr before)] \<and> pv_untracked v = []"
proof -
  have "follow_once ex_launch_tools ex_follow_env ex_follow_config ex_follow_snapshot ''1'' ''7''
     \<lparr>ft_attempts = 0, ft_confirmed = 0, ft_uncertain = 0\<rparr> []
     = ((fst (fst ex_follow_once), snd (fst ex_follow_once)), snd ex_follow_once @ [])"
    by (simp add: ex_follow_once_def)
  from follow_launches_missing [OF this ex_follow_once_launches] show ?thesis by blast
qed

text \<open>
  C29: what a poll moves. A window is only moved to the frozen destination, by its current selector, and only
  after the last launch was answered by a window of exactly the launched host, session and
  token that was not there before the first launch.
\<close>

theorem follow_moves_own_window:
  assumes "follow_once tools e cfg sn selection destination st h = ((st1, r1), post @ Action_Run m x # pre @ h)"
  shows "\<exists>before p rest v. pre = rest @ [Inspected (Inr v), Windows_Listed (Inr before)]
    \<and> planned_ok tools cfg sn p
    \<and> move_grounds cfg destination (map wn_id before) p m (pre @ h)"
  using assms
proof (cases rule: follow_once_cases)
  case refused
  then show ?thesis by (auto simp: quiet_def)
next
  case (passed r before plans h0)
  from follow_gate_passed [OF passed(1)] obtain v current rest where
    g: "h0 = rest @ Workspaces_Listed (Inr current) # Inspected (Inr v) # Windows_Listed (Inr before) # h"
      "moves_of rest = []" "\<forall>p \<in> set plans. planned_ok tools cfg sn p" by blast
  define gate where "gate = rest @ [Workspaces_Listed (Inr current), Inspected (Inr v), Windows_Listed (Inr before)]"
  from follow_launches_trace [OF passed(2)] obtain new1 where k: "post @ Action_Run m x # pre @ h = new1 @ h0"
    "moves_on (\<lambda>m tr. \<exists>p \<in> set plans. move_grounds cfg destination (map wn_id before) p m tr) new1 h0" by blast
  have eq: "post @ Action_Run m x # pre = new1 @ gate" using k(1) g(1) by (simp add: gate_def)
  have "Action_Run m x \<notin> set gate"
  proof
    assume "Action_Run m x \<in> set gate"
    then have "m \<in> set (moves_of rest)" by (force simp: gate_def moves_of_def)
    with g(2) show False by simp
  qed
  then obtain us where us: "new1 = post @ Action_Run m x # us" "pre = us @ gate"
    using eq by (auto simp: append_eq_append_conv2 Cons_eq_append_conv)
  then have "pre = (us @ rest @ [Workspaces_Listed (Inr current)]) @ [Inspected (Inr v), Windows_Listed (Inr before)]"
    by (simp add: gate_def)
  moreover have "\<exists>p \<in> set plans. move_grounds cfg destination (map wn_id before) p m (us @ h0)"
    using moves_onD [OF k(2) us(1)] .
  moreover have "us @ h0 = pre @ h" using us g(1) by (simp add: gate_def)
  ultimately show ?thesis using g(3) by metis
qed

theorem follow_moves_own_window_witness:
  "\<exists>before m pre rest v p. snd ex_follow_once = Action_Run m None # pre
    \<and> pre = rest @ [Inspected (Inr v), Windows_Listed (Inr before)]
    \<and> planned_ok ex_launch_tools ex_follow_config ex_follow_snapshot p"
proof -
  obtain m pre st r where o: "ex_follow_once = ((st, r), [] @ Action_Run m None # pre)"
    by (rule ex_follow_once_moves)
  then have "follow_once ex_launch_tools ex_follow_env ex_follow_config ex_follow_snapshot ''1'' ''7''
     \<lparr>ft_attempts = 0, ft_confirmed = 0, ft_uncertain = 0\<rparr> [] = ((st, r), [] @ Action_Run m None # pre @ [])"
    by (simp add: ex_follow_once_def)
  from follow_moves_own_window [OF this] o show ?thesis by (metis append_Nil snd_conv)
qed

end
