(* ===== verification/Pins.thy ===== *)
theory Pins
  imports Follow_Source
begin

text \<open>
  Saved projections, \<open>internal/mirror/pin.go\<close>, and the join that makes them, \<open>BuildPin\<close> of
  \<open>pin_workflow.go\<close>. The store is a directory of nodes; each system call may fail, its answer is
  a field of a record. The JSON text of a pin is the work of the codec \<open>encode\<close>, \<open>decode\<close>; its
  file name, a hash of host and profile, is the argument \<open>name\<close>.
\<close>

section \<open>Pins\<close>

record pinned_projection =
  pp_session :: string
  pp_remote_cwd :: string
  pp_workspace :: workspace_ref
  pp_order :: int
  pp_placement :: placement

record pin =
  pn_version :: int
  pn_source_host :: string
  pn_source_profile :: string
  pn_projections :: "pinned_projection list option"

definition pin_items :: "pin \<Rightarrow> pinned_projection list" where
  "pin_items p = (case pn_projections p of None \<Rightarrow> [] | Some ps \<Rightarrow> ps)"

text \<open>
  \<open>value > 0\<close>, a number, finite and at most a million: the bit patterns of the positive floats are in
  the order of their values, above them are infinity, the positive patterns that are not numbers,
  and all negative patterns.
\<close>

definition million_bits :: float64 where
  "million_bits = 0x412E848000000000"

definition float_size_ok :: "float64 \<Rightarrow> bool" where
  "float_size_ok v \<longleftrightarrow> 0 < v \<and> v \<le> million_bits"

definition validate_float_size :: "float64 list \<Rightarrow> bool" where
  "validate_float_size vs \<longleftrightarrow> length vs \<in> {0, 2} \<and> list_all float_size_ok vs"

definition validate_int_size :: "int list \<Rightarrow> bool" where
  "validate_int_size vs \<longleftrightarrow> length vs \<in> {0, 2} \<and> list_all (\<lambda>v. 0 < v \<and> v \<le> 1000000) vs"

datatype item_error =
    Pinned_Bad_Session
  | Duplicate_Session string
  | Pinned_Bad_Order
  | Pinned_Duplicate_Order int
  | Bad_Remote_Cwd
  | Bad_Selector
  | Bad_Placement
  | Bad_Tile_Size
  | Bad_Window_Size

datatype pin_error =
    Bad_Version int
  | Pin_Bad_Host
  | Pin_Bad_Profile
  | Bad_Count
  | Bad_Item nat item_error

definition check_pinned ::
    "string list \<Rightarrow> int list \<Rightarrow> pinned_projection \<Rightarrow> item_error option" where
  "check_pinned sessions orders p =
     (let ref = pp_workspace p; pl = pp_placement p in
      if \<not> validate_session (pp_session p) then Some Pinned_Bad_Session
      else if pp_session p \<in> set sessions then Some (Duplicate_Session (pp_session p))
      else if pp_order p < 0 \<or> 1000000 < pp_order p then Some Pinned_Bad_Order
      else if pp_order p \<in> set orders then Some (Pinned_Duplicate_Order (pp_order p))
      else if \<not> validate_text 4096 True (pp_remote_cwd p) then Some Bad_Remote_Cwd
      else if \<not> validate_text 256 True (ref_name ref) \<or> ref_output ref \<noteq> [] \<or> ref_index ref < 0
           \<or> 1000000 < ref_index ref \<or> (ref_name ref = [] \<and> ref_index ref = 0)
      then Some Bad_Selector
      else if pl_column pl \<noteq> None \<or> pl_is_floating pl = None then Some Bad_Placement
      else if \<not> validate_float_size (pl_tile_size pl) then Some Bad_Tile_Size
      else if \<not> validate_int_size (pl_window_size pl) then Some Bad_Window_Size
      else None)"

fun check_projections ::
    "nat \<Rightarrow> string list \<Rightarrow> int list \<Rightarrow> pinned_projection list \<Rightarrow> pin_error option" where
  "check_projections i sessions orders [] = None"
| "check_projections i sessions orders (p # ps) =
     (case check_pinned sessions orders p of
        Some e \<Rightarrow> Some (Bad_Item i e)
      | None \<Rightarrow> check_projections (Suc i) (pp_session p # sessions) (pp_order p # orders) ps)"

definition validate_pin :: "pin \<Rightarrow> pin_error option" where
  "validate_pin p =
     (if pn_version p \<noteq> 1 then Some (Bad_Version (pn_version p))
      else if \<not> validate_destination (pn_source_host p) then Some Pin_Bad_Host
      else if \<not> validate_text 128 False (pn_source_profile p) then Some Pin_Bad_Profile
      else if pn_projections p = None \<or> 256 < length (pin_items p) then Some Bad_Count
      else check_projections 0 [] [] (pin_items p))"

definition normalize_pin :: "pin \<Rightarrow> pin" where
  "normalize_pin p =
     p\<lparr>pn_projections := Some (stable_sort (\<lambda>a b. pp_order a < pp_order b) (pin_items p))\<rparr>"

text \<open>The description of a valid pin.\<close>

definition pinned_ok :: "pinned_projection \<Rightarrow> bool" where
  "pinned_ok p \<longleftrightarrow>
     validate_session (pp_session p) \<and> pp_order p \<in> {0..1000000}
     \<and> validate_text 4096 True (pp_remote_cwd p) \<and> validate_text 256 True (ref_name (pp_workspace p))
     \<and> ref_output (pp_workspace p) = [] \<and> ref_index (pp_workspace p) \<in> {0..1000000}
     \<and> (ref_name (pp_workspace p) \<noteq> [] \<or> 0 < ref_index (pp_workspace p))
     \<and> pl_column (pp_placement p) = None \<and> pl_is_floating (pp_placement p) \<noteq> None
     \<and> validate_float_size (pl_tile_size (pp_placement p))
     \<and> validate_int_size (pl_window_size (pp_placement p))"

definition wf_pin :: "pin \<Rightarrow> bool" where
  "wf_pin p \<longleftrightarrow>
     pn_version p = 1 \<and> validate_destination (pn_source_host p)
     \<and> validate_text 128 False (pn_source_profile p)
     \<and> pn_projections p \<noteq> None \<and> length (pin_items p) \<le> 256
     \<and> (\<forall>i \<in> set (pin_items p). pinned_ok i)
     \<and> distinct (map pp_session (pin_items p)) \<and> distinct (map pp_order (pin_items p))"

section \<open>Saving the live projections\<close>

record save_result =
  sv_pin :: pin
  sv_untracked :: nat
  sv_ambiguous :: nat

datatype build_error =
    Build_Bad_Host
  | Host_Mismatch string string
  | Build_Bad_Profile
  | Build_No_Id inventory_error
  | Incarnation_Changed string
  | Built_Invalid pin_error

definition count_session :: "projection_inventory \<Rightarrow> string \<Rightarrow> string \<Rightarrow> nat" where
  "count_session v host session =
     length (filter (\<lambda>p. pj_source_host p = host \<and> pj_session p = session) (pv_exact v))"

text \<open>The maps by window, by workspace and by session: the last assignment wins, for sessions the first.\<close>

definition projection_by_window :: "projection_inventory \<Rightarrow> int \<Rightarrow> projection option" where
  "projection_by_window v i = map_of (rev (map (\<lambda>p. (wn_id (pj_window p), p)) (pv_exact v))) i"

definition workspace_by_id :: "owned_workspace list \<Rightarrow> string \<Rightarrow> owned_workspace" where
  "workspace_by_id wss i =
     (case map_of (rev (filter (\<lambda>(k, _). k \<noteq> []) (map (\<lambda>w. (workspace_ident w, w)) wss))) i of
        None \<Rightarrow> \<lparr>os_id = JV_Null, os_index = 0, os_name = JV_Null\<rparr>
      | Some w \<Rightarrow> w)"

definition pinned_of :: "owned_workspace list \<Rightarrow> mirror_window \<Rightarrow> string \<Rightarrow> nat \<Rightarrow> owned_window \<Rightarrow> pinned_projection"
where
  "pinned_of wss source session i w =
     (let workspace = workspace_by_id wss (fst (json_text (wn_workspace_id w))) in
      \<lparr>pp_session = session,
       pp_remote_cwd = (case mw_terminal source of None \<Rightarrow> [] | Some t \<Rightarrow> trim_space (mt_cwd t)),
       pp_workspace = \<lparr>ref_name = trim_space (workspace_name workspace), ref_output = [],
                       ref_index = os_index workspace\<rparr>,
       pp_order = int i,
       pp_placement = \<lparr>pl_column = None, pl_row = None, pl_is_floating = Some (wn_is_floating w),
                       pl_tile_size = wn_tile_size w, pl_window_size = wn_window_size w\<rparr>\<rparr>)"

text \<open>One window of the loop: how many sessions are ambiguous for it, and what is pinned.\<close>

definition build_window ::
    "mirror_snapshot \<Rightarrow> string \<Rightarrow> owned_workspace list \<Rightarrow> projection_inventory \<Rightarrow> nat \<Rightarrow> owned_window
     \<Rightarrow> build_error + nat \<times> pinned_projection option"
where
  "build_window sn host wss v i w =
     (case projection_by_window v (wn_id w) of
        None \<Rightarrow> Inr (0, None)
      | Some p \<Rightarrow>
          if pj_source_host p \<noteq> host then Inr (0, None)
          else if count_session v host (pj_session p) \<noteq> 1 then Inr (1, None)
          else
            (let pinned = (case find (\<lambda>s. session_name s = pj_session p) (discover sn) of
                             None \<Rightarrow> None | Some s \<Rightarrow> Some (pinned_of wss s (pj_session p) i w))
             in if pj_supervised p
                then (case snapshot_exact_id sn (pj_session p) of
                        Inl e \<Rightarrow> Inl (Build_No_Id e)
                      | Inr k \<Rightarrow> if k \<noteq> pj_session_id p then Inl (Incarnation_Changed (pj_session p))
                               else Inr (0, pinned))
                else Inr (0, pinned)))"

fun build_windows ::
    "mirror_snapshot \<Rightarrow> string \<Rightarrow> owned_workspace list \<Rightarrow> projection_inventory \<Rightarrow> nat \<Rightarrow> owned_window list
     \<Rightarrow> build_error + nat \<times> pinned_projection list"
where
  "build_windows sn host wss v i [] = Inr (0, [])"
| "build_windows sn host wss v i (w # ws) =
     and_then (build_window sn host wss v i w)
       (\<lambda>(n, p). and_then (build_windows sn host wss v (Suc i) ws)
          (\<lambda>(m, ps). Inr (n + m, (case p of None \<Rightarrow> ps | Some q \<Rightarrow> q # ps))))"

definition build_pin ::
    "mirror_snapshot \<Rightarrow> string \<Rightarrow> owned_window list \<Rightarrow> owned_workspace list \<Rightarrow> projection_inventory
     \<Rightarrow> build_error + save_result"
where
  "build_pin sn host windows wss v =
     (if \<not> validate_destination host then Inl Build_Bad_Host
      else if sn_host sn \<noteq> host then Inl (Host_Mismatch (sn_host sn) host)
      else if \<not> validate_text 128 False (sn_profile sn) then Inl Build_Bad_Profile
      else and_then (build_windows sn host wss v 0 windows)
        (\<lambda>(n, ps).
           let p = normalize_pin \<lparr>pn_version = 1, pn_source_host = host,
                     pn_source_profile = sn_profile sn, pn_projections = Some ps\<rparr>
           in case validate_pin p of
                Some e \<Rightarrow> Inl (Built_Invalid e)
              | None \<Rightarrow> Inr \<lparr>sv_pin = p, sv_untracked = length (pv_untracked v),
                             sv_ambiguous = length (pv_ambiguous v) + n\<rparr>))"

section \<open>Directories and files\<close>

record file_stat =
  st_mode :: "32 word"
  st_uid :: "32 word"

datatype open_answer = Opened_Fd | Absent | Open_Error failure

record child_answers =
  ca_open :: open_answer
  ca_mkdir :: "failure option"
  ca_sync :: "failure option"
  ca_reopen :: open_answer
  ca_stat :: "failure + file_stat"

datatype store_failure =
    Store_Io failure
  | Store_Absent
  | Not_A_Directory string
  | Not_Owned string
  | Group_Writable string
  | Insecure_Child string
  | Unsafe_File
  | Lock_Busy
  | Bad_Identity
  | Pin_Not_Found
  | Pin_Too_Large
  | Pin_Undecodable
  | Pin_Identity_Mismatch "pin_error option"
  | Pin_Invalid_To_Write pin_error
  | Pin_Not_Encoded
  | No_Temp_File
  | Lock_Close_Failed failure

definition validate_owned_safe_directory ::
    "32 word \<Rightarrow> string \<Rightarrow> file_stat \<Rightarrow> store_failure option" where
  "validate_owned_safe_directory euid what st =
     (if and (st_mode st) 0xF000 \<noteq> 0x4000 then Some (Not_A_Directory what)
      else if st_uid st \<noteq> euid then Some (Not_Owned what)
      else if and (st_mode st) 0x12 \<noteq> 0 then Some (Group_Writable what)
      else None)"

definition require_owned_safe_directory ::
    "32 word \<Rightarrow> string \<Rightarrow> failure + file_stat \<Rightarrow> store_failure option" where
  "require_owned_safe_directory euid what answer =
     (case answer of Inl e \<Rightarrow> Some (Store_Io e) | Inr st \<Rightarrow> validate_owned_safe_directory euid what st)"

definition require_regular_file :: "32 word \<Rightarrow> 32 word \<Rightarrow> failure + file_stat \<Rightarrow> store_failure option" where
  "require_regular_file euid mode answer =
     (case answer of
        Inl e \<Rightarrow> Some (Store_Io e)
      | Inr st \<Rightarrow>
          if and (st_mode st) 0xF000 \<noteq> 0x8000 \<or> and (st_mode st) 0x1FF \<noteq> mode \<or> st_uid st \<noteq> euid
          then Some Unsafe_File else None)"

text \<open>
  The opening of a component or of a child, with its creation when it is absent. An absent
  directory that is not to be created is \<open>Store_Absent\<close>, the error that wraps \<open>os.ErrNotExist\<close>.
\<close>

definition open_component :: "bool \<Rightarrow> child_answers \<Rightarrow> store_failure option" where
  "open_component create a =
     (let answer = (\<lambda>r. case r of Opened_Fd \<Rightarrow> None | Absent \<Rightarrow> Some Store_Absent
                                | Open_Error e \<Rightarrow> Some (Store_Io e))
      in if ca_open a = Absent \<and> create
         then (case ca_mkdir a of
                 Some e \<Rightarrow> Some (Store_Io e)
               | None \<Rightarrow> (case ca_sync a of Some e \<Rightarrow> Some (Store_Io e) | None \<Rightarrow> answer (ca_reopen a)))
         else answer (ca_open a))"

fun open_absolute_directory :: "bool \<Rightarrow> child_answers list \<Rightarrow> store_failure option" where
  "open_absolute_directory create [] = None"
| "open_absolute_directory create (a # as) =
     (case open_component create a of Some e \<Rightarrow> Some e | None \<Rightarrow> open_absolute_directory create as)"

definition open_child_directory ::
    "32 word \<Rightarrow> bool \<Rightarrow> 32 word \<Rightarrow> bool \<Rightarrow> string \<Rightarrow> child_answers \<Rightarrow> store_failure option" where
  "open_child_directory euid create mode secure what a =
     (case open_component create a of
        Some e \<Rightarrow> Some e
      | None \<Rightarrow>
          if \<not> secure then None
          else (case ca_stat a of
                  Inl e \<Rightarrow> Some (Store_Io e)
                | Inr st \<Rightarrow>
                    if and (st_mode st) 0xF000 \<noteq> 0x4000 \<or> and (st_mode st) 0x1FF \<noteq> mode
                       \<or> st_uid st \<noteq> euid
                    then Some (Insecure_Child what) else None))"

record secure_answers =
  sa_root :: "failure option"
  sa_components :: "child_answers list"
  sa_state :: "failure + file_stat"
  sa_mirror :: child_answers
  sa_child :: child_answers

definition open_secure_child ::
    "32 word \<Rightarrow> bool \<Rightarrow> string \<Rightarrow> secure_answers \<Rightarrow> store_failure option" where
  "open_secure_child euid create what a =
     (case sa_root a of Some e \<Rightarrow> Some (Store_Io e) | None \<Rightarrow>
     (case open_absolute_directory create (sa_components a) of Some e \<Rightarrow> Some e | None \<Rightarrow>
     (case require_owned_safe_directory euid ''state directory'' (sa_state a) of Some e \<Rightarrow> Some e | None \<Rightarrow>
     (case open_child_directory euid create 0x1C0 False ''mirror'' (sa_mirror a) of Some e \<Rightarrow> Some e | None \<Rightarrow>
     (case require_owned_safe_directory euid ''mirror directory'' (ca_stat (sa_mirror a)) of
        Some e \<Rightarrow> Some e
      | None \<Rightarrow> open_child_directory euid create 0x1C0 True what (sa_child a))))))"

section \<open>The lock\<close>

datatype flock_answer = Flocked | Would_Block | Flock_Error failure

record lock_answers =
  la_directory :: secure_answers
  la_open :: "failure option"
  la_stat :: "failure + file_stat"
  la_flock :: flock_answer
  la_close :: "failure option"

definition validate_pin_identity :: "string \<Rightarrow> string \<Rightarrow> bool" where
  "validate_pin_identity host profile \<longleftrightarrow> validate_destination host \<and> validate_text 128 False profile"

definition acquire_pin_lock :: "32 word \<Rightarrow> string \<Rightarrow> string \<Rightarrow> lock_answers \<Rightarrow> store_failure option" where
  "acquire_pin_lock euid host profile a =
     (if \<not> validate_pin_identity host profile then Some Bad_Identity
      else case open_secure_child euid True ''pin-locks'' (la_directory a) of
        Some e \<Rightarrow> Some e
      | None \<Rightarrow>
          (case la_open a of
             Some e \<Rightarrow> Some (Store_Io e)
           | None \<Rightarrow>
               (case require_regular_file euid 0x180 (la_stat a) of
                  Some e \<Rightarrow> Some e
                | None \<Rightarrow>
                    (case la_flock a of
                       Flocked \<Rightarrow> None | Would_Block \<Rightarrow> Some Lock_Busy | Flock_Error e \<Rightarrow> Some (Store_Io e)))))"

section \<open>Reading and writing\<close>

text \<open>A node of the directory: a file with its status and text, or a link, which is never followed.\<close>

datatype pin_node = Pin_File file_stat string | Pin_Link

type_synonym pin_directory = "(string \<times> pin_node) list"

definition max_pin_bytes :: int where
  "max_pin_bytes = 2 * 1024 * 1024"

record read_faults =
  rf_open :: "failure option"
  rf_stat :: "failure option"
  rf_read :: "failure option"

definition read_pin ::
    "32 word \<Rightarrow> (string \<Rightarrow> pin option) \<Rightarrow> (string \<Rightarrow> string \<Rightarrow> string) \<Rightarrow> secure_answers
     \<Rightarrow> read_faults \<Rightarrow> pin_directory \<Rightarrow> string \<Rightarrow> string \<Rightarrow> store_failure + pin"
where
  "read_pin euid decode name a f d host profile =
     (if \<not> validate_pin_identity host profile then Inl Bad_Identity
      else case open_secure_child euid False ''pins'' a of
        Some e \<Rightarrow> Inl (if e = Store_Absent then Pin_Not_Found else e)
      | None \<Rightarrow>
          (case map_of d (name host profile) of
             None \<Rightarrow> Inl Pin_Not_Found
           | Some Pin_Link \<Rightarrow> Inl Unsafe_File
           | Some (Pin_File st payload) \<Rightarrow>
               (case rf_open f of Some e \<Rightarrow> Inl (Store_Io e) | None \<Rightarrow>
               (case require_regular_file euid 0x180
                       (case rf_stat f of Some e \<Rightarrow> Inl e | None \<Rightarrow> Inr st) of
                  Some e \<Rightarrow> Inl e
                | None \<Rightarrow>
                    (case rf_read f of
                       Some e \<Rightarrow> Inl (Store_Io e)
                     | None \<Rightarrow>
                         if max_pin_bytes < int (length payload) then Inl Pin_Too_Large
                         else (case decode payload of
                                 None \<Rightarrow> Inl Pin_Undecodable
                               | Some p \<Rightarrow>
                                   if validate_pin p \<noteq> None \<or> pn_source_host p \<noteq> host
                                      \<or> pn_source_profile p \<noteq> profile
                                   then Inl (Pin_Identity_Mismatch (validate_pin p))
                                   else Inr (normalize_pin p)))))))"

text \<open>\<open>createPinTemp\<close>: the names are the random identifiers drawn, with the answers of \<open>Openat\<close> and the stat.\<close>

datatype temp_answer = Random_Failed failure | Temp_Name string "failure option" "failure + file_stat"

fun create_pin_temp ::
    "32 word \<Rightarrow> nat \<Rightarrow> (nat \<Rightarrow> temp_answer) \<Rightarrow> pin_directory \<Rightarrow> (store_failure + string) \<times> pin_directory"
where
  "create_pin_temp euid 0 answers d = (Inl No_Temp_File, d)"
| "create_pin_temp euid (Suc n) answers d =
     (case answers n of
        Random_Failed e \<Rightarrow> (Inl (Store_Io e), d)
      | Temp_Name name err st \<Rightarrow>
          (let file = ''.pin-'' @ name @ ''.tmp'' in
           if map_of d file \<noteq> None then create_pin_temp euid n answers d
           else case err of
             Some e \<Rightarrow> (Inl (Store_Io e), d)
           | None \<Rightarrow>
               (case require_regular_file euid 0x180 st of
                  Some e \<Rightarrow> (Inl e, d)
                | None \<Rightarrow> (Inr file, AList.update file (Pin_File \<lparr>st_mode = 0x8180, st_uid = euid\<rparr> []) d))))"

record pin_faults =
  pf_lock :: lock_answers
  pf_directory :: secure_answers
  pf_existing :: "failure option"
  pf_temp :: "nat \<Rightarrow> temp_answer"
  pf_write :: "(failure \<times> string) option"
  pf_sync :: "failure option"
  pf_close :: "failure option"
  pf_rename :: "failure option"
  pf_sync_directory :: "failure option"
  pf_unlink_ok :: bool

text \<open>A failed step after the temporary file was made: it is unlinked, if that succeeds.\<close>

definition discard_temp :: "pin_faults \<Rightarrow> string \<Rightarrow> pin_directory \<Rightarrow> pin_directory" where
  "discard_temp f tmp d = (if pf_unlink_ok f then AList.delete tmp d else d)"

definition replace_pin ::
    "32 word \<Rightarrow> pin_faults \<Rightarrow> string \<Rightarrow> string \<Rightarrow> string \<Rightarrow> pin_directory \<Rightarrow> (store_failure option) \<times> pin_directory"
where
  "replace_pin euid f tmp target payload d =
     (let own = \<lparr>st_mode = 0x8180, st_uid = euid\<rparr>; full = AList.update tmp (Pin_File own payload) d;
          fail = (\<lambda>e d. (Some (Store_Io e), discard_temp f tmp d))
      in case pf_write f of
           Some (e, part) \<Rightarrow> fail e (AList.update tmp (Pin_File own part) d)
         | None \<Rightarrow>
             (case pf_sync f of Some e \<Rightarrow> fail e full | None \<Rightarrow>
             (case pf_close f of Some e \<Rightarrow> fail e full | None \<Rightarrow>
             (case pf_rename f of Some e \<Rightarrow> fail e full | None \<Rightarrow>
                (let renamed = (case map_of full tmp of
                     None \<Rightarrow> full | Some node \<Rightarrow> AList.update target node (AList.delete tmp full)) in
                 case pf_sync_directory f of Some e \<Rightarrow> fail e renamed | None \<Rightarrow> (None, renamed))))))"

definition write_locked ::
    "32 word \<Rightarrow> (pin \<Rightarrow> string option) \<Rightarrow> (string \<Rightarrow> string \<Rightarrow> string) \<Rightarrow> pin_faults \<Rightarrow> pin_directory
     \<Rightarrow> pin \<Rightarrow> (store_failure option) \<times> pin_directory"
where
  "write_locked euid encode name f d p =
     (let target = name (pn_source_host p) (pn_source_profile p) in
      case encode p of
        None \<Rightarrow> (Some Pin_Not_Encoded, d)
      | Some json \<Rightarrow>
          (case open_secure_child euid True ''pins'' (pf_directory f) of
             Some e \<Rightarrow> (Some e, d)
           | None \<Rightarrow>
               (let unsafe = (case map_of d target of
                                None \<Rightarrow> map_option Store_Io (pf_existing f)
                              | Some Pin_Link \<Rightarrow> Some Unsafe_File
                              | Some (Pin_File st _) \<Rightarrow> require_regular_file euid 0x180 (Inr st))
                in case unsafe of
                     Some e \<Rightarrow> (Some e, d)
                   | None \<Rightarrow>
                       (case create_pin_temp euid 32 (pf_temp f) d of
                          (Inl e, d1) \<Rightarrow> (Some e, d1)
                        | (Inr tmp, d1) \<Rightarrow> replace_pin euid f tmp target (json @ [CHR 0x0A]) d1))))"

text \<open>The error of \<open>Close\<close> joins the error of the write, which may have succeeded.\<close>

definition write_pin ::
    "32 word \<Rightarrow> (pin \<Rightarrow> string option) \<Rightarrow> (string \<Rightarrow> string \<Rightarrow> string) \<Rightarrow> pin_faults \<Rightarrow> pin_directory
     \<Rightarrow> pin \<Rightarrow> (store_failure list + string) \<times> pin_directory"
where
  "write_pin euid encode name f d p =
     (case validate_pin p of
        Some e \<Rightarrow> (Inl [Pin_Invalid_To_Write e], d)
      | None \<Rightarrow>
          (let q = normalize_pin p in
           case acquire_pin_lock euid (pn_source_host q) (pn_source_profile q) (pf_lock f) of
             Some e \<Rightarrow> (Inl [e], d)
           | None \<Rightarrow>
               (case write_locked euid encode name f d q of
                  (failed, d1) \<Rightarrow>
                    (let errors = (case failed of None \<Rightarrow> [] | Some e \<Rightarrow> [e])
                               @ (case la_close (pf_lock f) of None \<Rightarrow> [] | Some e \<Rightarrow> [Lock_Close_Failed e])
                     in (if errors = [] then Inr (name (pn_source_host q) (pn_source_profile q))
                         else Inl errors, d1)))))"

section \<open>Lemmas on validation\<close>

lemma check_pinned_None:
  "check_pinned sessions orders p = None \<longleftrightarrow>
     pinned_ok p \<and> pp_session p \<notin> set sessions \<and> pp_order p \<notin> set orders"
  by (auto simp: check_pinned_def pinned_ok_def Let_def)

lemma check_projections_None:
  "check_projections i sessions orders ps = None \<longleftrightarrow>
     (\<forall>p \<in> set ps. pinned_ok p \<and> pp_session p \<notin> set sessions \<and> pp_order p \<notin> set orders)
     \<and> distinct (map pp_session ps) \<and> distinct (map pp_order ps)"
proof (induction ps arbitrary: i sessions orders)
  case (Cons p ps)
  have d: "distinct (map f (p # ps)) \<longleftrightarrow> (\<forall>q \<in> set ps. f q \<noteq> f p) \<and> distinct (map f ps)"
    for f :: "pinned_projection \<Rightarrow> 'z"
    by (auto simp: rev_image_eqI)
  have "check_projections i sessions orders (p # ps) = None \<longleftrightarrow>
      check_pinned sessions orders p = None
      \<and> check_projections (Suc i) (pp_session p # sessions) (pp_order p # orders) ps = None"
    by (simp split: option.split)
  then show ?case unfolding Cons check_pinned_None d by auto
qed simp

lemma validate_pin_None: "validate_pin p = None \<longleftrightarrow> wf_pin p"
  by (auto simp: validate_pin_def wf_pin_def check_projections_None)

lemma pin_items_normalize [simp]:
  "pin_items (normalize_pin p) = stable_sort (\<lambda>a b. pp_order a < pp_order b) (pin_items p)"
  by (simp add: normalize_pin_def pin_items_def)

lemma wf_normalize: "wf_pin p \<Longrightarrow> wf_pin (normalize_pin p)"
  by (auto simp: wf_pin_def) (auto simp: normalize_pin_def)

interpretation pin_order: key_order pp_order .

lemma normalize_pin_idem [simp]: "normalize_pin (normalize_pin p) = normalize_pin p"
  by (simp add: normalize_pin_def pin_items_def
      strict_weak.stable_sort_idem [OF pin_order.key_strict_weak])

lemma normalize_pin_identity [simp]:
  "pn_source_host (normalize_pin p) = pn_source_host p"
  "pn_source_profile (normalize_pin p) = pn_source_profile p"
  by (simp_all add: normalize_pin_def)

section \<open>Lemmas on saving\<close>

text \<open>What one pinned projection rests on.\<close>

definition pin_grounds ::
    "mirror_snapshot \<Rightarrow> string \<Rightarrow> owned_window list \<Rightarrow> projection_inventory \<Rightarrow> pinned_projection \<Rightarrow> bool"
where
  "pin_grounds sn host windows v q \<longleftrightarrow>
     (\<exists>p \<in> set (pv_exact v). pj_source_host p = host \<and> pj_session p = pp_session q
        \<and> count_session v host (pp_session q) = 1
        \<and> nat (pp_order q) < length windows \<and> wn_id (windows ! nat (pp_order q)) = wn_id (pj_window p)
        \<and> (pj_supervised p \<longrightarrow> snapshot_exact_id sn (pp_session q) = Inr (pj_session_id p))
        \<and> pp_session q \<in> session_name ` set (discover sn))"

lemma projection_by_window_in:
  "projection_by_window v i = Some p \<Longrightarrow> p \<in> set (pv_exact v) \<and> wn_id (pj_window p) = i"
  unfolding projection_by_window_def by (drule map_of_SomeD) auto

lemma pinned_of_fields [simp]:
  "pp_session (pinned_of wss s n i w) = n" "pp_order (pinned_of wss s n i w) = int i"
  by (simp_all add: pinned_of_def Let_def)

lemma build_window_grounds:
  assumes "build_window sn host wss v i w = Inr (n, Some q)" and "i < length windows" and "windows ! i = w"
  shows "pin_grounds sn host windows v q \<and> pp_order q = int i"
proof -
  obtain p where p: "projection_by_window v (wn_id w) = Some p"
    using assms(1) by (auto simp: build_window_def split: option.splits)
  note b = assms(1) [unfolded build_window_def p option.case]
  from b have h: "pj_source_host p = host" "count_session v host (pj_session p) = 1"
    by (auto split: if_splits)
  obtain s where s: "find (\<lambda>s. session_name s = pj_session p) (discover sn) = Some s"
    "q = pinned_of wss s (pj_session p) i w"
    using b h by (cases "find (\<lambda>s. session_name s = pj_session p) (discover sn)")
      (auto simp: Let_def split: if_splits sum.splits)
  have k: "pj_supervised p \<longrightarrow> snapshot_exact_id sn (pj_session p) = Inr (pj_session_id p)"
    using b h by (auto simp: Let_def split: if_splits sum.splits)
  have "s \<in> set (discover sn) \<and> session_name s = pj_session p"
    using s(1) by (auto simp: find_Some_iff)
  then have "pj_session p \<in> session_name ` set (discover sn)" by force
  then show ?thesis
    using projection_by_window_in [OF p] h s(2) k assms(2,3) unfolding pin_grounds_def by auto
qed

lemma build_windows_grounds:
  "build_windows sn host wss v i ws = Inr (n, ps) \<Longrightarrow> windows = pre @ ws \<Longrightarrow> length pre = i \<Longrightarrow>
   q \<in> set ps \<Longrightarrow> pin_grounds sn host windows v q"
proof (induction ws arbitrary: i n ps pre)
  case (Cons w ws)
  from Cons.prems(1) obtain n1 o1 m ps1 where b: "build_window sn host wss v i w = Inr (n1, o1)"
    "build_windows sn host wss v (Suc i) ws = Inr (m, ps1)" "ps = (case o1 of None \<Rightarrow> ps1 | Some q \<Rightarrow> q # ps1)"
    by (auto simp: and_then_Inr_iff)
  have IH: "q \<in> set ps1 \<Longrightarrow> pin_grounds sn host windows v q"
    using Cons.IH [OF b(2), of "pre @ [w]"] Cons.prems(2,3) by simp
  have "i < length windows" "windows ! i = w" using Cons.prems(2,3) by auto
  with b(1) build_window_grounds have "o1 = Some q \<Longrightarrow> pin_grounds sn host windows v q" by blast
  with IH b(3) Cons.prems(4) show ?case by (auto split: option.splits)
qed simp

section \<open>Lemmas on the store\<close>

text \<open>What the store holds for a reader whose system calls succeed.\<close>

definition pins_of ::
    "32 word \<Rightarrow> (string \<Rightarrow> pin option) \<Rightarrow> (string \<Rightarrow> string \<Rightarrow> string) \<Rightarrow> secure_answers \<Rightarrow> pin_directory
     \<Rightarrow> string \<times> string \<Rightarrow> pin option"
where
  "pins_of euid decode name a d hp =
     (case read_pin euid decode name a \<lparr>rf_open = None, rf_stat = None, rf_read = None\<rparr> d (fst hp) (snd hp) of
        Inl _ \<Rightarrow> None | Inr p \<Rightarrow> Some p)"

lemma pins_of_cong:
  "map_of d1 (name (fst hp) (snd hp)) = map_of d (name (fst hp) (snd hp)) \<Longrightarrow>
   pins_of euid decode name a d1 hp = pins_of euid decode name a d hp"
  unfolding pins_of_def read_pin_def by (simp only:)

lemma own_regular [simp]: "require_regular_file euid 0x180 (Inr \<lparr>st_mode = 0x8180, st_uid = euid\<rparr>) = None"
  by (simp add: require_regular_file_def)

lemma pins_of_written:
  assumes "open_secure_child euid False ''pins'' a = None" and "wf_pin p"
    and "map_of d (name (pn_source_host p) (pn_source_profile p))
      = Some (Pin_File \<lparr>st_mode = 0x8180, st_uid = euid\<rparr> payload)"
    and "decode payload = Some (normalize_pin p)"
  shows "pins_of euid decode name a d (pn_source_host p, pn_source_profile p)
    = (if max_pin_bytes < int (length payload) then None else Some (normalize_pin p))"
proof -
  have "validate_pin_identity (pn_source_host p) (pn_source_profile p)"
    using assms(2) by (simp add: validate_pin_identity_def wf_pin_def)
  moreover have "validate_pin (normalize_pin p) = None"
    using assms(2) by (simp add: validate_pin_None wf_normalize)
  ultimately show ?thesis
    using assms by (simp add: pins_of_def read_pin_def)
qed

lemma create_pin_temp_result:
  "create_pin_temp euid n answers d = (r, d1) \<Longrightarrow>
   (\<forall>file. \<not> prefix ''.pin-'' file \<longrightarrow> map_of d1 file = map_of d file)
   \<and> (\<forall>tmp. r = Inr tmp \<longrightarrow> prefix ''.pin-'' tmp)"
proof (induction n)
  case (Suc n)
  show ?case
  proof (cases "answers n")
    case (Random_Failed e)
    with Suc.prems show ?thesis by auto
  next
    case (Temp_Name name err st)
    with Suc show ?thesis
      by (auto simp: Let_def split: if_splits option.splits)
  qed
qed auto

text \<open>The replacement installs the payload or leaves the target as it was; elsewhere only the temporary file changes.\<close>

lemma replace_pin_result:
  assumes "replace_pin euid f tmp target payload d = (failed, d1)" and "tmp \<noteq> target"
  shows "(\<forall>file. file \<noteq> tmp \<longrightarrow> file \<noteq> target \<longrightarrow> map_of d1 file = map_of d file)
    \<and> (map_of d1 target = map_of d target
       \<or> (pf_rename f = None \<and> map_of d1 target = Some (Pin_File \<lparr>st_mode = 0x8180, st_uid = euid\<rparr> payload)))
    \<and> (failed = None \<longrightarrow> map_of d1 target = Some (Pin_File \<lparr>st_mode = 0x8180, st_uid = euid\<rparr> payload))"
  using assms
  by (auto simp: replace_pin_def discard_temp_def Let_def split: option.splits if_splits)

lemma write_locked_result:
  assumes w: "write_locked euid encode name f d p = (failed, d1)" and json: "encode p = Some json"
    and names: "\<And>h q. \<not> prefix ''.pin-'' (name h q)"
  defines "t \<equiv> name (pn_source_host p) (pn_source_profile p)"
    and "file \<equiv> Pin_File \<lparr>st_mode = 0x8180, st_uid = euid\<rparr> (json @ [CHR 0x0A])"
  shows "(\<forall>n. \<not> prefix ''.pin-'' n \<longrightarrow> n \<noteq> t \<longrightarrow> map_of d1 n = map_of d n)
    \<and> (map_of d1 t = map_of d t \<or> (pf_rename f = None \<and> map_of d1 t = Some file))
    \<and> (failed = None \<longrightarrow> map_of d1 t = Some file)"
proof (cases "open_secure_child euid True ''pins'' (pf_directory f)")
  case (Some e)
  with w json show ?thesis by (auto simp: write_locked_def Let_def)
next
  case opened: None
  define unsafe where "unsafe = (case map_of d t of
        None \<Rightarrow> map_option Store_Io (pf_existing f)
      | Some Pin_Link \<Rightarrow> Some Unsafe_File
      | Some (Pin_File st _) \<Rightarrow> require_regular_file euid 0x180 (Inr st))"
  show ?thesis
  proof (cases unsafe)
    case (Some e)
    with w json opened have "failed = Some e" "d1 = d"
      by (simp_all add: write_locked_def Let_def unsafe_def t_def)
    then show ?thesis by simp
  next
    case safe: None
    obtain r d2 where c: "create_pin_temp euid 32 (pf_temp f) d = (r, d2)" by fastforce
    note cr = create_pin_temp_result [OF c]
    have step: "(case (r, d2) of (Inl e, d1) \<Rightarrow> (Some e, d1)
        | (Inr tmp, d1) \<Rightarrow> replace_pin euid f tmp t (json @ [CHR 0x0A]) d1) = (failed, d1)"
      using w json opened safe c by (cases r) (simp_all add: write_locked_def Let_def unsafe_def t_def)
    show ?thesis
    proof (cases r)
      case (Inl e)
      with step cr names show ?thesis by (auto simp: t_def)
    next
      case (Inr tmp)
      then have "tmp \<noteq> t" using cr names by (auto simp: t_def)
      moreover have "replace_pin euid f tmp t (json @ [CHR 0x0A]) d2 = (failed, d1)" using step Inr by simp
      ultimately show ?thesis
        using replace_pin_result [of euid f tmp t "json @ [CHR 0x0A]" d2 failed d1] cr Inr names
        unfolding t_def file_def by metis
    qed
  qed
qed

section \<open>Examples\<close>

definition ex_pin :: pin where
  "ex_pin =
     \<lparr>pn_version = 1, pn_source_host = ''box'', pn_source_profile = ''default'',
      pn_projections = Some [\<lparr>pp_session = ''a'', pp_remote_cwd = [],
        pp_workspace = \<lparr>ref_name = [], ref_output = [], ref_index = 1\<rparr>, pp_order = 0,
        pp_placement = \<lparr>pl_column = None, pl_row = None, pl_is_floating = Some False,
          pl_tile_size = [0x4059000000000000, 0x4059000000000000], pl_window_size = [90, 90]\<rparr>\<rparr>]\<rparr>"

definition ex_child :: child_answers where
  "ex_child = \<lparr>ca_open = Opened_Fd, ca_mkdir = None, ca_sync = None, ca_reopen = Opened_Fd,
     ca_stat = Inr \<lparr>st_mode = 0x41C0, st_uid = 1000\<rparr>\<rparr>"

definition ex_secure :: secure_answers where
  "ex_secure = \<lparr>sa_root = None, sa_components = [ex_child], sa_state = Inr \<lparr>st_mode = 0x41C0, st_uid = 1000\<rparr>,
     sa_mirror = ex_child, sa_child = ex_child\<rparr>"

definition ex_pin_faults :: pin_faults where
  "ex_pin_faults =
     \<lparr>pf_lock = \<lparr>la_directory = ex_secure, la_open = None, la_stat = Inr \<lparr>st_mode = 0x8180, st_uid = 1000\<rparr>,
        la_flock = Flocked, la_close = None\<rparr>,
      pf_directory = ex_secure, pf_existing = None,
      pf_temp = (\<lambda>n. Temp_Name ''x'' None (Inr \<lparr>st_mode = 0x8180, st_uid = 1000\<rparr>)),
      pf_write = None, pf_sync = None, pf_close = None, pf_rename = None, pf_sync_directory = None,
      pf_unlink_ok = True\<rparr>"

definition ex_pin_name :: "string \<Rightarrow> string \<Rightarrow> string" where
  "ex_pin_name host profile = (if host = ''box'' \<and> profile = ''default'' then ''5.json'' else ''6.json'')"

definition ex_build_snapshot :: mirror_snapshot where
  "ex_build_snapshot =
     \<lparr>sn_host = ''box'', sn_profile = ''default'', sn_generated_at = 5,
      sn_workspaces = None, sn_active = Some [''a''], sn_ids = Some [(''a'', ex_id 7)],
      sn_windows = Some [ex_source_window]\<rparr>"

definition ex_build_inventory :: projection_inventory where
  "ex_build_inventory =
     \<lparr>pv_exact = [\<lparr>pj_window = ex_owned, pj_source_host = ''box'', pj_session = ''a'', pj_token = [],
        pj_session_id = ex_id 7, pj_supervised = True, pj_ready = True\<rparr>],
      pv_untracked = [], pv_ambiguous = [], pv_candidates = [], pv_unverified = []\<rparr>"

section \<open>Properties\<close>

text \<open>
  What is saved is valid and is there. A pin that \<open>BuildPin\<close> answers is a valid pin for the asked
  host and the profile of the snapshot, in the order of the local windows, and each of its entries is a
  local window that is the only exact projection of its session from that host, of a
  session the snapshot shows, and of the same incarnation if the projection is supervised.
\<close>

theorem built_pin_ok:
  assumes "build_pin sn host windows wss v = Inr r"
  shows "wf_pin (sv_pin r) \<and> pn_source_host (sv_pin r) = host \<and> sn_host sn = host
    \<and> pn_source_profile (sv_pin r) = sn_profile sn
    \<and> sorted_wrt (<) (map pp_order (pin_items (sv_pin r)))
    \<and> (\<forall>q \<in> set (pin_items (sv_pin r)). pinned_ok q \<and> pin_grounds sn host windows v q)"
proof -
  obtain n ps where b: "build_windows sn host wss v 0 windows = Inr (n, ps)"
    using assms by (auto simp: build_pin_def and_then_Inr_iff split: if_splits)
  define p where "p = \<lparr>pn_version = 1, pn_source_host = host,
                     pn_source_profile = sn_profile sn, pn_projections = Some ps\<rparr>"
  have r: "validate_pin (normalize_pin p) = None" "sv_pin r = normalize_pin p" "sn_host sn = host"
    using assms b by (auto simp: build_pin_def p_def Let_def split: if_splits option.splits)
  have wf: "wf_pin (sv_pin r)" using r by (simp add: validate_pin_None)
  have items: "set (pin_items (sv_pin r)) = set ps"
    unfolding r(2) pin_items_normalize by (simp add: p_def pin_items_def)
  have "sorted_wrt (\<lambda>a b. \<not> pp_order b < pp_order a) (pin_items (sv_pin r))"
    unfolding r(2) pin_items_normalize
    by (rule strict_weak.sorted_stable_sort [OF pin_order.key_strict_weak])
  then have "sorted (map pp_order (pin_items (sv_pin r)))"
    by (simp add: sorted_wrt_map not_less)
  moreover have "distinct (map pp_order (pin_items (sv_pin r)))" using wf by (simp add: wf_pin_def)
  ultimately have "sorted_wrt (<) (map pp_order (pin_items (sv_pin r)))"
    by (simp add: strict_sorted_iff)
  moreover have "\<forall>q \<in> set ps. pin_grounds sn host windows v q"
    using build_windows_grounds [OF b, of windows "[]"] by simp
  moreover have "pn_source_host (sv_pin r) = host" "pn_source_profile (sv_pin r) = sn_profile sn"
    by (simp_all add: r p_def)
  ultimately show ?thesis using wf r(3) items by (auto simp: wf_pin_def)
qed

theorem built_pin_ok_witness:
  "\<exists>r q. build_pin ex_build_snapshot ''box'' [ex_owned\<lparr>wn_workspace_id := JV_Shown ''7''\<rparr>]
       [\<lparr>os_id = JV_Shown ''7'', os_index = 2, os_name = JV_Null\<rparr>] ex_build_inventory = Inr r
     \<and> wf_pin (sv_pin r) \<and> pin_items (sv_pin r) = [q] \<and> pp_session q = ''a''"
proof -
  let ?b = "build_pin ex_build_snapshot ''box'' [ex_owned\<lparr>wn_workspace_id := JV_Shown ''7''\<rparr>]
       [\<lparr>os_id = JV_Shown ''7'', os_index = 2, os_name = JV_Null\<rparr>] ex_build_inventory"
  have "case ?b of Inr r \<Rightarrow> map pp_session (pin_items (sv_pin r)) = [''a''] | Inl _ \<Rightarrow> False" by code_simp
  then obtain r where r: "?b = Inr r" "map pp_session (pin_items (sv_pin r)) = [''a'']"
    by (auto split: sum.splits)
  from built_pin_ok [OF r(1)] r show ?thesis by (auto simp: map_eq_Cons_conv)
qed

text \<open>
  C25: the store is a map from host and profile to pins. Writing a pin that can be read back either leaves
  the map as it is or updates it at the identity of the pin with the normalised pin; it does the latter
  whenever \<open>Write\<close> succeeds, the former whenever the rename does not happen. What
  \<open>Write\<close> does not check is the size: a larger text is installed and refused by \<open>Read\<close>.
\<close>

theorem pin_store_refines_map:
  assumes written: "write_pin euid encode name f d p = (res, d1)"
    and encoded: "encode (normalize_pin p) = Some json"
    and codec: "decode (json @ [CHR 0x0A]) = Some (normalize_pin p)"
    and names: "\<And>h q. name h q = name (pn_source_host p) (pn_source_profile p) \<Longrightarrow>
        h = pn_source_host p \<and> q = pn_source_profile p" "\<And>h q. \<not> prefix ''.pin-'' (name h q)"
    and directory: "open_secure_child euid False ''pins'' a = None"
  defines "new \<equiv> (if max_pin_bytes < int (length json) + 1 then None else Some (normalize_pin p))"
    and "old \<equiv> pins_of euid decode name a d"
  shows "(pins_of euid decode name a d1 = old
      \<or> pins_of euid decode name a d1 = old((pn_source_host p, pn_source_profile p) := new))
    \<and> (\<forall>path. res = Inr path \<longrightarrow>
        pins_of euid decode name a d1 = old((pn_source_host p, pn_source_profile p) := new))
    \<and> (pf_rename f \<noteq> None \<longrightarrow> pins_of euid decode name a d1 = old)"
proof (cases "validate_pin p = None \<and> acquire_pin_lock euid (pn_source_host p) (pn_source_profile p) (pf_lock f) = None")
  case False
  then show ?thesis using written
    by (auto simp: write_pin_def old_def split: option.splits)
next
  case True
  let ?t = "name (pn_source_host p) (pn_source_profile p)"
  let ?file = "Pin_File \<lparr>st_mode = 0x8180, st_uid = euid\<rparr> (json @ [CHR 0x0A])"
  obtain failed where w: "write_locked euid encode name f d (normalize_pin p) = (failed, d1)"
    and res: "failed \<noteq> None \<Longrightarrow> \<not> (\<exists>path. res = Inr path)"
    using written True
    by (cases "write_locked euid encode name f d (normalize_pin p)") (auto simp: write_pin_def Let_def split: if_splits option.splits)
  have frame: "(\<forall>file. \<not> prefix ''.pin-'' file \<longrightarrow> file \<noteq> ?t \<longrightarrow> map_of d1 file = map_of d file)
    \<and> (map_of d1 ?t = map_of d ?t \<or> (pf_rename f = None \<and> map_of d1 ?t = Some ?file))
    \<and> (failed = None \<longrightarrow> map_of d1 ?t = Some ?file)"
    using write_locked_result [OF w encoded] names(2) by simp
  have others: "pins_of euid decode name a d1 hp = old hp" if "hp \<noteq> (pn_source_host p, pn_source_profile p)" for hp
    unfolding old_def using that frame names by (intro pins_of_cong) (metis prod.collapse)
  have same: "pins_of euid decode name a d1 = old" if "map_of d1 ?t = map_of d ?t"
  proof
    fix hp
    show "pins_of euid decode name a d1 hp = old hp"
      using others that pins_of_cong [of d1 name hp d] by (cases "hp = (pn_source_host p, pn_source_profile p)") (auto simp: old_def)
  qed
  have updated: "pins_of euid decode name a d1 = old((pn_source_host p, pn_source_profile p) := new)"
    if "map_of d1 ?t = Some ?file"
    using pins_of_written [of euid a p d1 name "json @ [CHR 0x0A]" decode] directory that codec True others
    by (auto simp: validate_pin_None new_def fun_eq_iff)
  show ?thesis
  proof (intro conjI allI impI)
    show "pins_of euid decode name a d1 = old
      \<or> pins_of euid decode name a d1 = old((pn_source_host p, pn_source_profile p) := new)"
      using frame same updated by blast
    show "pins_of euid decode name a d1 = old((pn_source_host p, pn_source_profile p) := new)"
      if "res = Inr path" for path
      using frame updated res that by blast
    show "pins_of euid decode name a d1 = old" if "pf_rename f \<noteq> None"
      using frame same that by blast
  qed
qed

theorem pin_store_refines_map_witness:
  "\<exists>path d. write_pin 1000 (\<lambda>p. Some ''j'') ex_pin_name ex_pin_faults [] ex_pin = (Inr path, d)
     \<and> pins_of 1000 (\<lambda>t. Some (normalize_pin ex_pin)) ex_pin_name ex_secure d (''box'', ''default'')
         = Some (normalize_pin ex_pin)"
proof -
  let ?w = "write_pin 1000 (\<lambda>p. Some ''j'') ex_pin_name ex_pin_faults [] ex_pin"
  have "case ?w of (Inr _, _) \<Rightarrow> True | _ \<Rightarrow> False" by code_simp
  then obtain path d where w: "?w = (Inr path, d)" by (auto split: prod.splits sum.splits)
  have host: "pn_source_host ex_pin = ''box''" "pn_source_profile ex_pin = ''default''"
    by (simp_all add: ex_pin_def)
  have ok: "open_secure_child 1000 False ''pins'' ex_secure = None" by code_simp
  have n: "h = pn_source_host ex_pin \<and> q = pn_source_profile ex_pin"
    if "ex_pin_name h q = ex_pin_name (pn_source_host ex_pin) (pn_source_profile ex_pin)" for h q
    using that by (auto simp: host ex_pin_name_def split: if_splits)
  have m: "\<not> prefix ''.pin-'' (ex_pin_name h q)" for h q
    by (simp add: ex_pin_name_def)
  have "pins_of 1000 (\<lambda>t. Some (normalize_pin ex_pin)) ex_pin_name ex_secure d
      = (pins_of 1000 (\<lambda>t. Some (normalize_pin ex_pin)) ex_pin_name ex_secure [])
          ((pn_source_host ex_pin, pn_source_profile ex_pin) :=
            (if max_pin_bytes < int (length ''j'') + 1 then None else Some (normalize_pin ex_pin)))"
    using pin_store_refines_map [OF w refl refl n m ok] by blast
  with w host show ?thesis by (simp add: max_pin_bytes_def)
qed

end
