(* ===== verification/Pin_Apply.thy ===== *)
theory Pin_Apply
  imports Resume_Planner Niri_Actions Follow_Run Pins
begin

text \<open>
  Applying saved projections, \<open>ApplyPinned\<close> of \<open>internal/mirror/pin_workflow.go\<close>, with the Niri layout
  actions of \<open>internal/resume/runtime.go\<close> it ends in. The dependencies are those of a follower poll, the
  record \<open>follow_env\<close> over a trace with the newest event first; the store is that of \<open>Pins\<close>.
\<close>

section \<open>Layout actions\<close>

definition action_command :: "string \<Rightarrow> string \<Rightarrow> string list \<Rightarrow> command" where
  "action_command niri action args = \<lparr>cm_name = niri, cm_args = [''msg'', ''action'', action] @ args\<rparr>"

fun run_actions :: "follow_env \<Rightarrow> command list \<Rightarrow> follow_trace \<Rightarrow> failure list \<times> follow_trace" where
  "run_actions e [] h = ([], h)"
| "run_actions e (c # cs) h =
     (let answer = fe_run e h c in
      case run_actions e cs (Action_Run c answer # h) of
        (fs, h1) \<Rightarrow> ((case answer of None \<Rightarrow> fs | Some f \<Rightarrow> f # fs), h1))"

definition layout_commands :: "string \<Rightarrow> int \<Rightarrow> placement \<Rightarrow> command list" where
  "layout_commands niri window_id p =
     (case pl_is_floating p of
        None \<Rightarrow> []
      | Some floating \<Rightarrow>
          [action_command niri (if floating then ''move-window-to-floating'' else ''move-window-to-tiling'')
             [''--id'', show_int window_id]])
     @ (case preferred_size p of
          (width, height, have_size) \<Rightarrow>
            if have_size
            then [action_command niri ''set-window-width'' [''--id'', show_int window_id, show_int width],
                  action_command niri ''set-window-height'' [''--id'', show_int window_id, show_int height]]
            else [])"

datatype layout_issue = Bad_Window_Id | Action_Failures "failure list"

definition apply_niri_layout ::
    "follow_env \<Rightarrow> string \<Rightarrow> int \<Rightarrow> placement \<Rightarrow> follow_trace
     \<Rightarrow> (layout_status \<times> layout_issue option) \<times> follow_trace"
where
  "apply_niri_layout e niri window_id p h =
     (if window_id \<le> 0 then ((Layout_Degraded, Some Bad_Window_Id), h)
      else (case run_actions e (layout_commands niri window_id p) h of
              (fs, h1) \<Rightarrow>
                ((if layout_commands niri window_id p = [] then (Layout_Not_Requested, None)
                  else if fs \<noteq> [] then (Layout_Degraded, Some (Action_Failures fs))
                  else (Layout_Applied, None)), h1)))"

section \<open>Items\<close>

datatype apply_status =
    Apply_Ready | Apply_Opened | Apply_Already_Open | Apply_Missing | Apply_Ambiguous | Apply_Failed

datatype apply_reason =
    No_Apply_Reason
  | Source_Unavailable
  | Ambiguous_Evidence_Open
  | Unverified_Projection
  | Multiple_Open
  | No_Exact_Id inventory_error
  | Recheck_Failed failure
  | Appeared_Before_Launch
  | Multiple_Before_Launch
  | Apply_Token_Failed failure
  | Apply_Not_Planned launch_error
  | Attach_Launch_Failed failure
  | Not_Correlated follow_reason

datatype layout_reason =
    No_Layout_Reason
  | Destination_Unavailable_Current
  | Workspaces_Unavailable failure
  | Layout_Issues bool bool "failure option" "layout_issue option"

record apply_entry =
  ai_pinned :: pinned_projection
  ai_status :: apply_status
  ai_reason :: apply_reason
  ai_window_id :: int
  ai_layout_status :: layout_status
  ai_layout_reason :: layout_reason
  ai_target :: runtime_target

record apply_result =
  ar_items :: "apply_entry list"
  ar_untracked :: nat
  ar_ambiguous :: nat

definition no_target :: runtime_target where
  "no_target = \<lparr>tg_id = [], tg_name = [], tg_index = 0\<rparr>"

definition resolve_workspace_reference :: "workspace_ref \<Rightarrow> owned_workspace list \<Rightarrow> runtime_target" where
  "resolve_workspace_reference selector wss =
     (let by_index = (if 0 < ref_index selector
            then (case find (\<lambda>w. os_index w = ref_index selector) wss of
                    None \<Rightarrow> no_target
                  | Some w \<Rightarrow> \<lparr>tg_id = workspace_ident w, tg_name = [], tg_index = ref_index selector\<rparr>)
            else no_target)
      in if ref_name selector = [] then by_index
         else (case filter (\<lambda>w. workspace_name w = ref_name selector) wss of
                 [w] \<Rightarrow> \<lparr>tg_id = workspace_ident w, tg_name = ref_name selector, tg_index = os_index w\<rparr>
               | _ \<Rightarrow> by_index))"

definition prepare_item ::
    "string \<Rightarrow> string list \<Rightarrow> projection_inventory \<Rightarrow> owned_workspace list \<Rightarrow> pinned_projection
     \<Rightarrow> apply_entry"
where
  "prepare_item host active v wss p =
     (let session = pp_session p;
          it = \<lparr>ai_pinned = p, ai_status = Apply_Ready, ai_reason = No_Apply_Reason, ai_window_id = 0,
                ai_layout_status = No_Layout_Status, ai_layout_reason = No_Layout_Reason,
                ai_target = no_target\<rparr>
      in if session \<notin> set active
         then it\<lparr>ai_status := Apply_Missing, ai_reason := Source_Unavailable\<rparr>
         else if has_ambiguous_candidate v host session []
         then it\<lparr>ai_status := Apply_Ambiguous, ai_reason := Ambiguous_Evidence_Open\<rparr>
         else if pv_unverified v \<noteq> []
         then it\<lparr>ai_status := Apply_Ambiguous, ai_reason := Unverified_Projection\<rparr>
         else if 1 < count_session v host session
         then it\<lparr>ai_status := Apply_Ambiguous, ai_reason := Multiple_Open\<rparr>
         else if count_session v host session = 1 then it\<lparr>ai_status := Apply_Already_Open\<rparr>
         else
           (let target = resolve_workspace_reference (pp_workspace p) wss in
            if tg_id target = []
            then it\<lparr>ai_target := target, ai_layout_status := Layout_Degraded,
                    ai_layout_reason := Destination_Unavailable_Current\<rparr>
            else it\<lparr>ai_target := target\<rparr>))"

definition prepare_apply ::
    "pin \<Rightarrow> string list \<Rightarrow> projection_inventory \<Rightarrow> owned_workspace list \<Rightarrow> apply_result" where
  "prepare_apply p active v wss =
     \<lparr>ar_items = map (prepare_item (pn_source_host p) active v wss) (pin_items (normalize_pin p)),
      ar_untracked = length (pv_untracked v), ar_ambiguous = length (pv_ambiguous v)\<rparr>"

section \<open>Applying\<close>

record apply_config =
  ac_snapshot :: mirror_snapshot
  ac_source_host :: string
  ac_ssh_command :: string
  ac_ssh_options :: "string list"
  ac_launcher_command :: string
  ac_self_command :: string
  ac_snapshot_command :: "string list"
  ac_app_id :: string
  ac_niri_command :: string
  ac_state_dir :: string
  ac_timeout :: duration
  ac_poll_interval :: duration
  ac_dry_run :: bool

definition exact_active_sessions :: "mirror_snapshot \<Rightarrow> string list option" where
  "exact_active_sessions sn =
     (case sn_active sn of
        None \<Rightarrow> None
      | Some active \<Rightarrow> if check_active_sessions [] active = None then Some active else None)"

definition exact_projection_ids :: "projection_inventory \<Rightarrow> string \<Rightarrow> string \<Rightarrow> int list" where
  "exact_projection_ids v host session =
     remdups (map (\<lambda>p. wn_id (pj_window p))
       (filter (\<lambda>p. pj_source_host p = host \<and> pj_session p = session) (pv_exact v)))"

definition pinned_window :: "pinned_projection \<Rightarrow> mirror_window" where
  "pinned_window p =
     \<lparr>mw_order = pp_order p, mw_source_id = 0, mw_key = [], mw_app_id = [], mw_title = pp_session p,
      mw_pid = 0, mw_workspace_id = [], mw_workspace_index = 0, mw_workspace_name = [], mw_output = [],
      mw_position = [], mw_tile_size = [], mw_window_size = [], mw_is_focused = False,
      mw_is_floating = False, mw_headless = False, mw_session = pp_session p,
      mw_terminal = Some \<lparr>mt_cwd = pp_remote_cwd p, mt_process_tags = [], mt_session = pp_session p,
                          mt_project = []\<rparr>\<rparr>"

definition apply_launch_config :: "apply_config \<Rightarrow> string \<Rightarrow> string \<Rightarrow> launch_config" where
  "apply_launch_config cfg session_id token =
     \<lparr>lc_source_host = ac_source_host cfg, lc_session_id = session_id,
      lc_snapshot_command = ac_snapshot_command cfg, lc_token = token,
      lc_ssh_command = ac_ssh_command cfg, lc_ssh_options = ac_ssh_options cfg,
      lc_launcher_command = ac_launcher_command cfg, lc_launcher_adapter = [],
      lc_self_command = ac_self_command cfg, lc_app_id = ac_app_id cfg, lc_socket = [],
      lc_clipboard = False\<rparr>"

definition apply_pinned_placement ::
    "follow_env \<Rightarrow> apply_config \<Rightarrow> apply_entry \<Rightarrow> int \<Rightarrow> follow_trace
     \<Rightarrow> (layout_status \<times> layout_reason) \<times> follow_trace"
where
  "apply_pinned_placement e cfg it window_id h =
     (let target = ai_target it;
          (no_destination, refused, failed, h1) =
            (if tg_id target = [] then (True, False, None, h)
             else case move_command (ac_niri_command cfg) window_id target of
                 None \<Rightarrow> (False, True, None, h)
               | Some m \<Rightarrow> (let answer = fe_run e h m in (False, False, answer, Action_Run m answer # h)))
      in case apply_niri_layout e (ac_niri_command cfg) window_id (pp_placement (ai_pinned it)) h1 of
           ((status, issue), h2) \<Rightarrow>
             (if no_destination \<or> refused \<or> failed \<noteq> None \<or> issue \<noteq> None
              then ((Layout_Degraded, Layout_Issues no_destination refused failed issue), h2)
              else ((status, No_Layout_Reason), h2)))"

text \<open>The launch of an item, the wait for its window, and the placement.\<close>

definition launch_entry ::
    "follow_env \<Rightarrow> apply_config \<Rightarrow> apply_entry \<Rightarrow> string \<Rightarrow> command \<Rightarrow> int list \<Rightarrow> int list \<Rightarrow> follow_trace
     \<Rightarrow> apply_entry \<times> follow_trace"
where
  "launch_entry e cfg it token c matching before_ids h =
     (let session = pp_session (ai_pinned it); launched = fe_run e h c; h1 = Launched c launched # h in
      case launched of
        Some err \<Rightarrow> (it\<lparr>ai_status := Apply_Failed, ai_reason := Attach_Launch_Failed err\<rparr>, h1)
      | None \<Rightarrow>
          (case wait_for_new_projection e False (ac_source_host cfg) session token matching before_ids
                  (follow_polls (ac_timeout cfg) (ac_poll_interval cfg)) h1 of
             (Inl r, h2) \<Rightarrow>
               (it\<lparr>ai_status := (if r = Correlation_Ambiguous session then Apply_Ambiguous else Apply_Failed),
                  ai_reason := Not_Correlated r\<rparr>, h2)
           | (Inr window_id, h2) \<Rightarrow>
               (case apply_pinned_placement e cfg it window_id h2 of
                  ((status, reason), h3) \<Rightarrow>
                    (it\<lparr>ai_window_id := window_id, ai_layout_status := status, ai_layout_reason := reason,
                       ai_status := Apply_Opened\<rparr>, h3))))"

text \<open>One item of the loop: nothing is done unless it is ready.\<close>

definition apply_entry_step ::
    "launch_tools \<Rightarrow> follow_env \<Rightarrow> apply_config \<Rightarrow> apply_entry \<Rightarrow> follow_trace \<Rightarrow> apply_entry \<times> follow_trace"
where
  "apply_entry_step tools e cfg it h =
     (if ai_status it \<noteq> Apply_Ready then (it, h)
      else
        (let session = pp_session (ai_pinned it); host = ac_source_host cfg;
             settle = (\<lambda>status reason h. (it\<lparr>ai_status := status, ai_reason := reason\<rparr>, h))
         in case observe_follow e h of
              (Inl err, h1) \<Rightarrow> settle Apply_Failed (Recheck_Failed err) h1
            | (Inr (before, v), h1) \<Rightarrow>
                (let matching = exact_projection_ids v host session in
                 if has_ambiguous_candidate v host session []
                 then settle Apply_Ambiguous Ambiguous_Evidence_Open h1
                 else if pv_unverified v \<noteq> [] then settle Apply_Ambiguous Unverified_Projection h1
                 else if length matching = 1 then settle Apply_Already_Open Appeared_Before_Launch h1
                 else if matching \<noteq> [] then settle Apply_Ambiguous Multiple_Before_Launch h1
                 else
                   (let drawn = fe_token e h1; h2 = Token_Drawn drawn # h1 in
                    case drawn of
                      Inl err \<Rightarrow> settle Apply_Failed (Apply_Token_Failed err) h2
                    | Inr token \<Rightarrow>
                        (case snapshot_exact_id (ac_snapshot cfg) session of
                           Inl err \<Rightarrow> settle Apply_Failed (No_Exact_Id err) h2
                         | Inr i \<Rightarrow>
                             (case plan_launch tools (fe_random e h2) (pinned_window (ai_pinned it))
                                     (apply_launch_config cfg i token) of
                                Inl err \<Rightarrow> settle Apply_Failed (Apply_Not_Planned err) h2
                              | Inr plan \<Rightarrow>
                                  launch_entry e cfg it token (lp_command plan) matching (map wn_id before) h2))))))"

fun apply_entries ::
    "launch_tools \<Rightarrow> follow_env \<Rightarrow> apply_config \<Rightarrow> apply_entry list \<Rightarrow> follow_trace
     \<Rightarrow> apply_entry list \<times> follow_trace"
where
  "apply_entries tools e cfg [] h = ([], h)"
| "apply_entries tools e cfg (it # its) h =
     (case apply_entry_step tools e cfg it h of
        (it1, h1) \<Rightarrow>
          (case apply_entries tools e cfg its h1 of (its1, h2) \<Rightarrow> (it1 # its1, h2)))"

text \<open>The answers of the store: the error of \<open>filepath.Abs\<close>, the lock, and the reading of the pin.\<close>

record apply_store =
  as_absolute :: "failure option"
  as_lock :: lock_answers
  as_directory :: secure_answers
  as_faults :: read_faults
  as_pins :: pin_directory

datatype apply_error =
    No_Deadline
  | Wrong_Host
  | Apply_Bad_Ssh_Options ssh_error
  | Apply_Bad_Profile
  | No_Active_Sessions
  | Bad_Apply_Bounds
  | No_Runner
  | No_State_Dir
  | Apply_Store store_failure
  | Apply_Windows failure
  | Apply_Lock_Close failure

definition validate_apply :: "bool \<Rightarrow> bool \<Rightarrow> apply_config \<Rightarrow> apply_error + string list" where
  "validate_apply has_deadline has_runner cfg =
     (if \<not> has_deadline then Inl No_Deadline
      else if sn_host (ac_snapshot cfg) \<noteq> ac_source_host cfg then Inl Wrong_Host
      else case validate_ssh_options (ac_ssh_options cfg) of
        Some e \<Rightarrow> Inl (Apply_Bad_Ssh_Options e)
      | None \<Rightarrow>
          if \<not> validate_text 128 False (sn_profile (ac_snapshot cfg)) then Inl Apply_Bad_Profile
          else (case exact_active_sessions (ac_snapshot cfg) of
                  None \<Rightarrow> Inl No_Active_Sessions
                | Some active \<Rightarrow>
                    if ac_timeout cfg \<le> 0 \<or> ac_poll_interval cfg \<le> 0
                       \<or> ac_timeout cfg < ac_poll_interval cfg then Inl Bad_Apply_Bounds
                    else if \<not> has_runner then Inl No_Runner
                    else Inr active))"

text \<open>The loops over the prepared items: no workspace inventory, and no exact incarnation.\<close>

definition degrade_entry :: "failure + owned_workspace list \<Rightarrow> apply_entry \<Rightarrow> apply_entry" where
  "degrade_entry answer it =
     (case answer of
        Inr _ \<Rightarrow> it
      | Inl err \<Rightarrow> if ai_status it = Apply_Ready
                   then it\<lparr>ai_layout_status := Layout_Degraded,
                           ai_layout_reason := Workspaces_Unavailable err\<rparr> else it)"

definition identify_entry :: "mirror_snapshot \<Rightarrow> apply_entry \<Rightarrow> apply_entry" where
  "identify_entry sn it =
     (if ai_status it = Apply_Ready
      then (case snapshot_exact_id sn (pp_session (ai_pinned it)) of
              Inl err \<Rightarrow> it\<lparr>ai_status := Apply_Failed, ai_reason := No_Exact_Id err\<rparr>
            | Inr _ \<Rightarrow> it)
      else it)"

text \<open>The first look, with the items it gives.\<close>

definition first_look ::
    "follow_env \<Rightarrow> apply_config \<Rightarrow> pin \<Rightarrow> string list \<Rightarrow> follow_trace
     \<Rightarrow> (apply_error + apply_result) \<times> follow_trace"
where
  "first_look e cfg p active h =
     (case observe_follow e h of
        (Inl err, h1) \<Rightarrow> (Inl (Apply_Windows err), h1)
      | (Inr (_, v), h1) \<Rightarrow>
          (let answer = fe_workspaces e h1; h2 = Workspaces_Listed answer # h1;
               r = prepare_apply p active v (case answer of Inl _ \<Rightarrow> [] | Inr wss \<Rightarrow> wss)
           in (Inr (r\<lparr>ar_items := map (\<lambda>it. identify_entry (ac_snapshot cfg) (degrade_entry answer it))
                                    (ar_items r)\<rparr>), h2)))"

definition apply_pinned ::
    "launch_tools \<Rightarrow> 32 word \<Rightarrow> (string \<Rightarrow> pin option) \<Rightarrow> (string \<Rightarrow> string \<Rightarrow> string) \<Rightarrow> bool \<Rightarrow> bool
     \<Rightarrow> follow_env \<Rightarrow> apply_store \<Rightarrow> apply_config \<Rightarrow> follow_trace
     \<Rightarrow> (apply_result option \<times> apply_error list) \<times> follow_trace"
where
  "apply_pinned tools euid decode name has_deadline has_runner e s cfg h =
     (case validate_apply has_deadline has_runner cfg of
        Inl err \<Rightarrow> ((None, [err]), h)
      | Inr active \<Rightarrow>
          if trim_space (ac_state_dir cfg) = [] \<or> as_absolute s \<noteq> None then ((None, [No_State_Dir]), h)
          else
            (let host = ac_source_host cfg; profile = sn_profile (ac_snapshot cfg);
                 locked = (if ac_dry_run cfg then None else acquire_pin_lock euid host profile (as_lock s));
                 released = (if ac_dry_run cfg then [] else
                   case la_close (as_lock s) of None \<Rightarrow> [] | Some f \<Rightarrow> [Apply_Lock_Close f])
             in case locked of
                  Some err \<Rightarrow> ((None, [Apply_Store err]), h)
                | None \<Rightarrow>
                    (case read_pin euid decode name (as_directory s) (as_faults s) (as_pins s) host profile of
                       Inl err \<Rightarrow> ((None, Apply_Store err # released), h)
                     | Inr p \<Rightarrow>
                         (case first_look e cfg p active h of
                            (Inl err, h1) \<Rightarrow> ((None, err # released), h1)
                          | (Inr r, h1) \<Rightarrow>
                              if ac_dry_run cfg then ((Some r, []), h1)
                              else (case apply_entries tools e cfg (ar_items r) h1 of
                                      (its, h2) \<Rightarrow> ((Some (r\<lparr>ar_items := its\<rparr>), released), h2))))))"

section \<open>Lemmas\<close>

lemma run_actions_trace:
  "run_actions e cs h = (fs, h1) \<Longrightarrow> \<exists>new. h1 = new @ h \<and> launches_of new = []"
proof (induction cs arbitrary: h fs h1)
  case (Cons c cs)
  obtain fs1 h2 where o: "run_actions e cs (Action_Run c (fe_run e h c) # h) = (fs1, h2)" by fastforce
  from Cons.IH [OF o] Cons.prems o show ?case
    by (auto simp: Let_def)
qed auto

lemma placement_trace:
  assumes "apply_pinned_placement e cfg it i h = (r, h1)"
  shows "\<exists>new. h1 = new @ h \<and> launches_of new = []"
proof -
  have layout: "\<exists>new. h2 = new @ h0 \<and> launches_of new = []"
    if "apply_niri_layout e niri i pl h0 = (x, h2)" for niri pl h0 x h2
    using that run_actions_trace [of e "layout_commands niri i pl" h0]
    by (cases "run_actions e (layout_commands niri i pl) h0") (auto simp: apply_niri_layout_def split: if_splits)
  let ?l = "apply_niri_layout e (ac_niri_command cfg) i (pp_placement (ai_pinned it))"
  define h0 where "h0 = (if tg_id (ai_target it) = [] then h
     else case move_command (ac_niri_command cfg) i (ai_target it) of
        None \<Rightarrow> h | Some m \<Rightarrow> Action_Run m (fe_run e h m) # h)"
  obtain x h2 where l: "?l h0 = (x, h2)" by fastforce
  then have "h1 = h2"
    using assms by (cases x) (auto simp: apply_pinned_placement_def h0_def Let_def split: if_splits option.splits)
  moreover have "\<exists>new. h0 = new @ h \<and> launches_of new = []"
    by (auto simp: h0_def split: option.split)
  moreover obtain new where "h2 = new @ h0" "launches_of new = []" using layout [OF l] by blast
  ultimately show ?thesis by (metis append.assoc append_Nil traced_simps(1,5))
qed

text \<open>The launch of a pinned projection, and what has been seen right before it.\<close>

definition planned_for ::
    "launch_tools \<Rightarrow> apply_config \<Rightarrow> command \<Rightarrow> pinned_projection \<Rightarrow> bool" where
  "planned_for tools cfg c q \<longleftrightarrow>
     (\<exists>i token random plan. snapshot_exact_id (ac_snapshot cfg) (pp_session q) = Inr i
        \<and> plan_launch tools random (pinned_window q) (apply_launch_config cfg i token) = Inr plan
        \<and> c = lp_command plan)"

definition seen_absent :: "apply_config \<Rightarrow> pinned_projection \<Rightarrow> follow_trace \<Rightarrow> bool" where
  "seen_absent cfg q tr \<longleftrightarrow>
     (\<exists>token v ws rest. tr = Token_Drawn token # Inspected (Inr v) # Windows_Listed (Inr ws) # rest
        \<and> pv_unverified v = [] \<and> count_session v (ac_source_host cfg) (pp_session q) = 0
        \<and> \<not> has_ambiguous_candidate v (ac_source_host cfg) (pp_session q) [])"

lemma exact_ids_Nil: "exact_projection_ids v host session = [] \<longleftrightarrow> count_session v host session = 0"
  by (simp add: exact_projection_ids_def count_session_def)

definition entry_done :: "apply_entry \<Rightarrow> apply_entry \<Rightarrow> bool" where
  "entry_done a b \<longleftrightarrow>
     ai_pinned b = ai_pinned a
     \<and> (if ai_status a = Apply_Ready
        then ai_status b \<in> {Apply_Opened, Apply_Already_Open, Apply_Ambiguous, Apply_Failed}
        else b = a)"

lemma launch_entry_trace:
  assumes "launch_entry e cfg it token c matching before_ids h = (it1, h1)" and "ai_status it = Apply_Ready"
  shows "entry_done it it1 \<and> (\<exists>x post. h1 = post @ Launched c x # h \<and> launches_of post = [])"
proof (cases "fe_run e h c")
  case (Some err)
  with assms show ?thesis
    by (auto simp: launch_entry_def entry_done_def intro: exI [of _ "[]"])
next
  case None
  obtain w h2 where w: "wait_for_new_projection e False (ac_source_host cfg) (pp_session (ai_pinned it)) token
      matching before_ids (follow_polls (ac_timeout cfg) (ac_poll_interval cfg)) (Launched c None # h) = (w, h2)"
    by fastforce
  with wait_for_new_projection_trace [OF w] obtain post where p:
    "h2 = post @ Launched c None # h" "launches_of post = []" by (auto simp: quiet_def)
  show ?thesis
  proof (cases w)
    case (Inl r)
    with assms None w p show ?thesis
      by (auto simp: launch_entry_def entry_done_def split: if_splits)
  next
    case (Inr i)
    obtain y h3 where y: "apply_pinned_placement e cfg it i h2 = (y, h3)" by fastforce
    from placement_trace [OF y] obtain post2 where "h3 = post2 @ h2" "launches_of post2 = []" by blast
    with p have "h3 = (post2 @ post) @ Launched c None # h" "launches_of (post2 @ post) = []" by simp_all
    moreover have "entry_done it it1 \<and> h1 = h3"
      using assms None w Inr y by (cases y) (auto simp: launch_entry_def entry_done_def)
    ultimately show ?thesis by blast
  qed
qed

text \<open>What one item does: settle without a launch, or launch its plan after it was seen absent.\<close>

lemma apply_entry_step_trace:
  assumes "apply_entry_step tools e cfg it h = (it1, h1)" and ready: "ai_status it = Apply_Ready"
  shows "entry_done it it1 \<and> (\<exists>new. h1 = new @ h
    \<and> (launches_of new = []
       \<or> (\<exists>c x post pre. new = post @ Launched c x # pre \<and> launches_of post = [] \<and> launches_of pre = []
            \<and> planned_for tools cfg c (ai_pinned it) \<and> seen_absent cfg (ai_pinned it) (pre @ h))))"
proof -
  let ?q = "ai_pinned it"
  let ?session = "pp_session ?q"
  obtain seen h2 where o: "observe_follow e h = (seen, h2)" by fastforce
  note q = observe_follow_quiet [OF o]
  then obtain new0 where n0: "h2 = new0 @ h" "launches_of new0 = []" by (auto simp: quiet_def)
  note step = assms(1) [unfolded apply_entry_step_def Let_def o]
  have settled: ?thesis if "h1 = h2 \<or> (\<exists>x. h1 = Token_Drawn x # h2)"
    "ai_pinned it1 = ?q" "ai_status it1 \<in> {Apply_Already_Open, Apply_Ambiguous, Apply_Failed}"
    using that ready n0 by (auto simp: entry_done_def intro: exI [of _ "Token_Drawn _ # new0"])
  show ?thesis
  proof (cases seen)
    case (Inl err)
    with step ready show ?thesis by (intro settled) auto
  next
    case (Inr p)
    obtain before v where p: "p = (before, v)" by fastforce
    with q Inr have h2: "h2 = Inspected (Inr v) # Windows_Listed (Inr before) # h" by simp
    show ?thesis
    proof (cases "exact_projection_ids v (ac_source_host cfg) ?session = [] \<and> pv_unverified v = []
        \<and> \<not> has_ambiguous_candidate v (ac_source_host cfg) ?session []
        \<and> (\<exists>t i plan. fe_token e h2 = Inr t \<and> snapshot_exact_id (ac_snapshot cfg) ?session = Inr i
             \<and> plan_launch tools (fe_random e (Token_Drawn (fe_token e h2) # h2)) (pinned_window ?q)
                 (apply_launch_config cfg i t) = Inr plan)")
      case False
      with step ready Inr p show ?thesis
        by (intro settled) (auto split: if_splits sum.splits)
    next
      case True
      then obtain t i plan where t: "fe_token e h2 = Inr t" "snapshot_exact_id (ac_snapshot cfg) ?session = Inr i"
        "plan_launch tools (fe_random e (Token_Drawn (Inr t) # h2)) (pinned_window ?q)
                 (apply_launch_config cfg i t) = Inr plan" by auto
      then have "launch_entry e cfg it t (lp_command plan) [] (map wn_id before) (Token_Drawn (Inr t) # h2) = (it1, h1)"
        using True step ready Inr p by auto
      from launch_entry_trace [OF this ready] obtain x post where l: "entry_done it it1"
        "h1 = (post @ Launched (lp_command plan) x # Token_Drawn (Inr t) # new0) @ h" "launches_of post = []"
        using n0 by auto
      have "seen_absent cfg ?q ((Token_Drawn (Inr t) # new0) @ h)"
        using True n0(1) h2 by (auto simp: seen_absent_def exact_ids_Nil)
      moreover have "planned_for tools cfg (lp_command plan) ?q" using t by (auto simp: planned_for_def)
      moreover have "launches_of (Token_Drawn (Inr t) # new0) = []" using n0 by simp
      ultimately show ?thesis using l by blast
    qed
  qed
qed

lemma apply_entries_trace:
  "apply_entries tools e cfg its h = (its1, h1) \<Longrightarrow>
   list_all2 entry_done its its1
   \<and> (\<exists>new qs. h1 = new @ h \<and> subseq qs (map ai_pinned (filter (\<lambda>it. ai_status it = Apply_Ready) its))
        \<and> list_all2 (planned_for tools cfg) (launches_of new) qs
        \<and> launches_on (\<lambda>c tr. \<exists>q \<in> set qs. planned_for tools cfg c q \<and> seen_absent cfg q tr) new h)"
proof (induction its arbitrary: its1 h)
  case Nil
  then show ?case by (auto intro!: exI [of _ "[]"])
next
  case (Cons it its)
  let ?Q = "\<lambda>qs c tr. \<exists>q \<in> set qs. planned_for tools cfg c q \<and> seen_absent cfg q tr"
  let ?ready = "\<lambda>its. map ai_pinned (filter (\<lambda>it. ai_status it = Apply_Ready) its)"
  obtain it1 h2 where o: "apply_entry_step tools e cfg it h = (it1, h2)" by fastforce
  obtain its2 where its2: "apply_entries tools e cfg its h2 = (its2, h1)" "its1 = it1 # its2"
    using Cons.prems o by (cases "apply_entries tools e cfg its h2") auto
  from Cons.IH [OF its2(1)] obtain new qs where IH: "list_all2 entry_done its its2" "h1 = new @ h2"
    "subseq qs (?ready its)" "list_all2 (planned_for tools cfg) (launches_of new) qs"
    "launches_on (?Q qs) new h2" by blast
  show ?case
  proof (cases "ai_status it = Apply_Ready")
    case False
    with o have "it1 = it" "h2 = h" by (auto simp: apply_entry_step_def)
    moreover from this False have "entry_done it it1" by (simp add: entry_done_def)
    ultimately show ?thesis using IH its2(2) False by auto
  next
    case True
    from apply_entry_step_trace [OF o True] obtain new0 where e: "entry_done it it1" "h2 = new0 @ h"
      and n: "launches_of new0 = [] \<or> (\<exists>c. launches_of new0 = [c] \<and> planned_for tools cfg c (ai_pinned it)
         \<and> launches_on (?Q [ai_pinned it]) new0 h)"
      by (fastforce simp: launches_on_none)
    have mono: "launches_on (?Q qs1) new1 h0 \<Longrightarrow> set qs1 \<subseteq> set qs2 \<Longrightarrow> launches_on (?Q qs2) new1 h0" for qs1 qs2 new1 h0
      by (erule launches_on_mono) blast
    show ?thesis
    proof (cases "launches_of new0 = []")
      case empty: True
      then show ?thesis using IH e True its2(2)
        by (intro conjI exI [of _ "new @ new0"] exI [of _ qs]) (auto simp: launches_on_none)
    next
      case False
      with n obtain c where c: "launches_of new0 = [c]" "planned_for tools cfg c (ai_pinned it)"
        "launches_on (?Q [ai_pinned it]) new0 h" by blast
      have "launches_on (?Q (ai_pinned it # qs)) new0 h" by (rule mono [OF c(3)]) simp
      moreover have "launches_on (?Q (ai_pinned it # qs)) new h2" by (rule mono [OF IH(5)]) auto
      ultimately show ?thesis using IH e True its2(2) c
        by (intro conjI exI [of _ "new @ new0"] exI [of _ "ai_pinned it # qs"]) simp_all
    qed
  qed
qed

lemma first_look_Inr:
  assumes "first_look e cfg p active h = (Inr r, h1)"
  shows "quiet h h1 \<and> map ai_pinned (ar_items r) = pin_items (normalize_pin p)
    \<and> (\<forall>it \<in> set (ar_items r). ai_status it = Apply_Ready \<longrightarrow> pp_session (ai_pinned it) \<in> set active)"
proof -
  obtain seen h2 where o: "observe_follow e h = (seen, h2)" by fastforce
  have prepared: "ai_pinned (prepare_item host active v wss q) = q"
    "ai_status (prepare_item host active v wss q) = Apply_Ready \<Longrightarrow> pp_session q \<in> set active" for host v wss q
    by (auto simp: prepare_item_def Let_def split: if_splits)
  from assms o obtain before v where seen: "seen = Inr (before, v)" "h1 = Workspaces_Listed (fe_workspaces e h2) # h2"
    by (cases seen) (auto simp: first_look_def Let_def)
  have keeps: "ai_pinned (identify_entry sn (degrade_entry x it)) = ai_pinned it"
    "ai_status (identify_entry sn (degrade_entry x it)) = Apply_Ready \<Longrightarrow> ai_status it = Apply_Ready" for sn x it
    by (auto simp: identify_entry_def degrade_entry_def split: sum.splits if_splits)
  have "ar_items r = map (\<lambda>q. identify_entry (ac_snapshot cfg) (degrade_entry (fe_workspaces e h2)
      (prepare_item (pn_source_host p) active v
        (case fe_workspaces e h2 of Inl _ \<Rightarrow> [] | Inr wss \<Rightarrow> wss) q))) (pin_items (normalize_pin p))"
    using assms o seen by (auto simp: first_look_def prepare_apply_def Let_def comp_def)
  moreover have "quiet h h1" using observe_follow_quiet [OF o] seen by (simp add: quiet_intros)
  ultimately show ?thesis
    using keeps(1) prepared(1) keeps(2) [THEN prepared(2)] by (auto simp: comp_def)
qed

text \<open>A run that gets to the items: what it has read and seen.\<close>

lemma apply_pinned_Some:
  assumes "apply_pinned tools euid decode name dl rn e s cfg h = ((Some r, errs), h2)"
  obtains active p r0 h1 where "sn_active (ac_snapshot cfg) = Some active"
    "read_pin euid decode name (as_directory s) (as_faults s) (as_pins s) (ac_source_host cfg)
       (sn_profile (ac_snapshot cfg)) = Inr p"
    "first_look e cfg p active h = (Inr r0, h1)"
    "if ac_dry_run cfg then r = r0 \<and> h2 = h1
     else apply_entries tools e cfg (ar_items r0) h1 = (ar_items r, h2)
       \<and> acquire_pin_lock euid (ac_source_host cfg) (sn_profile (ac_snapshot cfg)) (as_lock s) = None"
proof -
  obtain active where v: "validate_apply dl rn cfg = Inr active"
    using assms by (auto simp: apply_pinned_def split: sum.splits)
  then have a: "sn_active (ac_snapshot cfg) = Some active"
    by (auto simp: validate_apply_def exact_active_sessions_def split: if_splits option.splits)
  obtain p where p: "read_pin euid decode name (as_directory s) (as_faults s) (as_pins s) (ac_source_host cfg)
       (sn_profile (ac_snapshot cfg)) = Inr p"
    using assms v by (auto simp: apply_pinned_def Let_def split: sum.splits if_splits option.splits)
  obtain r0 h1 where f: "first_look e cfg p active h = (Inr r0, h1)"
    using assms v p by (cases "first_look e cfg p active h"; cases "fst (first_look e cfg p active h)")
      (auto simp: apply_pinned_def Let_def split: if_splits option.splits)
  show thesis
  proof (rule that [OF a p f])
    show "if ac_dry_run cfg then r = r0 \<and> h2 = h1
     else apply_entries tools e cfg (ar_items r0) h1 = (ar_items r, h2)
       \<and> acquire_pin_lock euid (ac_source_host cfg) (sn_profile (ac_snapshot cfg)) (as_lock s) = None"
      using assms v p f by (auto simp: apply_pinned_def Let_def split: if_splits option.splits prod.splits)
  qed
qed

text \<open>A run without a result has launched nothing.\<close>

lemma apply_pinned_None:
  assumes "apply_pinned tools euid decode name dl rn e s cfg h = ((None, errs), h2)"
  shows "quiet h h2"
proof -
  have look: "quiet h h1" if "first_look e cfg p active h = (Inl err, h1)" for p active err h1
  proof -
    obtain seen h0 where o: "observe_follow e h = (seen, h0)" by fastforce
    with that have "h1 = h0" by (cases seen) (auto simp: first_look_def Let_def)
    with observe_follow_quiet [OF o] show ?thesis by simp
  qed
  show ?thesis using assms look
    by (auto simp: apply_pinned_def Let_def split: sum.splits if_splits option.splits prod.splits)
qed

section \<open>An example\<close>

definition ex_apply_config :: "bool \<Rightarrow> apply_config" where
  "ex_apply_config dry =
     \<lparr>ac_snapshot = ex_build_snapshot, ac_source_host = ''box'', ac_ssh_command = ''ssh'',
      ac_ssh_options = [], ac_launcher_command = ''kitty'', ac_self_command = ''redeem'',
      ac_snapshot_command = [''r'', ''mirror'', ''snapshot''], ac_app_id = ''kitty'', ac_niri_command = ''niri'',
      ac_state_dir = ''/s'', ac_timeout = 4 * second, ac_poll_interval = second, ac_dry_run = dry\<rparr>"

definition ex_apply_store :: apply_store where
  "ex_apply_store =
     \<lparr>as_absolute = None, as_lock = pf_lock ex_pin_faults, as_directory = ex_secure,
      as_faults = \<lparr>rf_open = None, rf_stat = None, rf_read = None\<rparr>,
      as_pins = [(''5.json'', Pin_File \<lparr>st_mode = 0x8180, st_uid = 1000\<rparr> ''j'')]\<rparr>"

definition ex_apply :: "bool \<Rightarrow> (apply_result option \<times> apply_error list) \<times> follow_trace" where
  "ex_apply dry =
     apply_pinned ex_launch_tools 1000 (\<lambda>t. Some ex_pin) ex_pin_name True True ex_follow_env
       ex_apply_store (ex_apply_config dry) []"

lemma ex_apply_real: "case ex_apply False of ((r, errs), tr) \<Rightarrow> r \<noteq> None \<and> launches_of tr \<noteq> []"
  by code_simp

lemma ex_apply_dry: "case ex_apply True of ((r, errs), tr) \<Rightarrow> r \<noteq> None"
  by code_simp

lemma ex_apply_launches: "launches_of (snd (ex_apply False)) \<noteq> []"
  using ex_apply_real by (auto split: prod.splits)

lemma ex_apply_result: "\<exists>r errs tr. ex_apply dry = ((Some r, errs), tr)"
  using ex_apply_real ex_apply_dry by (cases dry) (auto split: prod.splits)

section \<open>Properties\<close>

text \<open>
  C7: what applying a pin launches. Launches only happen in a real run that holds the pin lock, and are, in the
  order of the pin and at most once each, the attach-only commands of pinned projections whose
  session is ACTIVE in the fresh snapshot under its exact incarnation; right before each launch all
  owned windows were seen to be verified, with no exact and no ambiguous projection of that session.
\<close>

theorem apply_pinned_launches:
  assumes run: "apply_pinned tools euid decode name dl rn e s cfg h = (res, new @ h)"
    and launched: "launches_of new \<noteq> []"
  shows "\<not> ac_dry_run cfg
    \<and> acquire_pin_lock euid (ac_source_host cfg) (sn_profile (ac_snapshot cfg)) (as_lock s) = None
    \<and> (\<exists>p active qs.
         read_pin euid decode name (as_directory s) (as_faults s) (as_pins s) (ac_source_host cfg)
           (sn_profile (ac_snapshot cfg)) = Inr p
       \<and> sn_active (ac_snapshot cfg) = Some active
       \<and> subseq qs (pin_items (normalize_pin p)) \<and> pp_session ` set qs \<subseteq> set active
       \<and> list_all2 (planned_for tools cfg) (launches_of new) qs
       \<and> launches_on (\<lambda>c tr. \<exists>q \<in> set qs. planned_for tools cfg c q \<and> seen_absent cfg q tr) new h)"
proof -
  obtain o1 errs where res: "res = (o1, errs)" by fastforce
  have "o1 \<noteq> None"
  proof
    assume "o1 = None"
    with apply_pinned_None run have "quiet h (new @ h)" unfolding res by blast
    with launched show False by (simp add: quiet_def)
  qed
  then obtain r where r: "apply_pinned tools euid decode name dl rn e s cfg h = ((Some r, errs), new @ h)"
    using run res by auto
  show ?thesis
  proof (rule apply_pinned_Some [OF r])
    fix active p r0 h1
    assume a: "sn_active (ac_snapshot cfg) = Some active"
      "read_pin euid decode name (as_directory s) (as_faults s) (as_pins s) (ac_source_host cfg)
         (sn_profile (ac_snapshot cfg)) = Inr p"
      and look: "first_look e cfg p active h = (Inr r0, h1)"
      and b: "if ac_dry_run cfg then r = r0 \<and> new @ h = h1
       else apply_entries tools e cfg (ar_items r0) h1 = (ar_items r, new @ h)
         \<and> acquire_pin_lock euid (ac_source_host cfg) (sn_profile (ac_snapshot cfg)) (as_lock s) = None"
    note f = first_look_Inr [OF look]
    then obtain new0 where n0: "h1 = new0 @ h" "launches_of new0 = []" by (auto simp: quiet_def)
    have real: "\<not> ac_dry_run cfg" using b n0 launched by auto
    then have "apply_entries tools e cfg (ar_items r0) h1 = (ar_items r, new @ h)" using b by simp
    from apply_entries_trace [OF this] obtain new1 qs where n1: "new @ h = new1 @ h1"
      "subseq qs (map ai_pinned (filter (\<lambda>it. ai_status it = Apply_Ready) (ar_items r0)))"
      "list_all2 (planned_for tools cfg) (launches_of new1) qs"
      "launches_on (\<lambda>c tr. \<exists>q \<in> set qs. planned_for tools cfg c q \<and> seen_absent cfg q tr) new1 h1" by blast
    have "subseq (map ai_pinned (filter (\<lambda>it. ai_status it = Apply_Ready) (ar_items r0)))
        (map ai_pinned (ar_items r0))" by (simp add: subseq_map)
    with n1(2) f have "subseq qs (pin_items (normalize_pin p))" by (metis subseq_order.trans)
    moreover have "set qs \<subseteq> set (map ai_pinned (filter (\<lambda>it. ai_status it = Apply_Ready) (ar_items r0)))"
      using n1(2) by (blast elim: list_emb_set)
    then have "pp_session ` set qs \<subseteq> set active" using f by auto
    moreover have new: "new = new1 @ new0" using n1(1) n0(1) by simp
    moreover have "list_all2 (planned_for tools cfg) (launches_of new) qs"
      using n1(3) n0(2) by (simp add: new)
    moreover have "launches_on (\<lambda>c tr. \<exists>q \<in> set qs. planned_for tools cfg c q \<and> seen_absent cfg q tr) new h"
      using n1(4) launches_on_none [OF n0(2)] by (simp add: new n0(1))
    moreover have "acquire_pin_lock euid (ac_source_host cfg) (sn_profile (ac_snapshot cfg)) (as_lock s) = None"
      using b real by simp
    ultimately show ?thesis using a real by blast
  qed
qed

theorem apply_pinned_launches_witness:
  "\<exists>qs. list_all2 (planned_for ex_launch_tools (ex_apply_config False)) (launches_of (snd (ex_apply False))) qs
     \<and> subseq qs (pin_items (normalize_pin (normalize_pin ex_pin))) \<and> qs \<noteq> []"
proof -
  have "apply_pinned ex_launch_tools 1000 (\<lambda>t. Some ex_pin) ex_pin_name True True ex_follow_env
       ex_apply_store (ex_apply_config False) [] = (fst (ex_apply False), snd (ex_apply False) @ [])"
    by (simp add: ex_apply_def)
  from apply_pinned_launches [OF this ex_apply_launches] obtain p qs where
    p: "read_pin 1000 (\<lambda>t. Some ex_pin) ex_pin_name (as_directory ex_apply_store) (as_faults ex_apply_store)
      (as_pins ex_apply_store) (ac_source_host (ex_apply_config False))
      (sn_profile (ac_snapshot (ex_apply_config False))) = Inr p"
    and q: "subseq qs (pin_items (normalize_pin p))"
      "list_all2 (planned_for ex_launch_tools (ex_apply_config False)) (launches_of (snd (ex_apply False))) qs"
    by blast
  from p have "p = normalize_pin ex_pin"
    by (auto simp: read_pin_def split: if_splits option.splits pin_node.splits)
  with q ex_apply_launches show ?thesis by auto
qed

text \<open>
  C8: a dry run is a preview. It launches and moves nothing, and where it does not report an item
  as ready, a real run from the same situation leaves that item exactly so; a ready item ends as
  opened, already open, ambiguous or failed.
\<close>

theorem dry_run_previews:
  assumes dry: "apply_pinned tools euid decode name dl rn e s (cfg\<lparr>ac_dry_run := True\<rparr>) h = ((Some r, errs), h1)"
    and real: "apply_pinned tools euid decode name dl rn e s (cfg\<lparr>ac_dry_run := False\<rparr>) h = ((Some r', errs'), h2)"
  shows "quiet h h1 \<and> list_all2 entry_done (ar_items r) (ar_items r')"
proof -
  have same: "first_look e (cfg\<lparr>ac_dry_run := b\<rparr>) p active h = first_look e cfg p active h" for b p active
    by (simp add: first_look_def split: prod.split sum.split)
  from apply_pinned_Some [OF dry] obtain active p where d: "sn_active (ac_snapshot cfg) = Some active"
    "read_pin euid decode name (as_directory s) (as_faults s) (as_pins s) (ac_source_host cfg)
       (sn_profile (ac_snapshot cfg)) = Inr p"
    "first_look e cfg p active h = (Inr r, h1)"
    by (simp add: same) metis
  from apply_pinned_Some [OF real] obtain active' p' r0 h3 where q: "sn_active (ac_snapshot cfg) = Some active'"
    "read_pin euid decode name (as_directory s) (as_faults s) (as_pins s) (ac_source_host cfg)
       (sn_profile (ac_snapshot cfg)) = Inr p'"
    "first_look e cfg p' active' h = (Inr r0, h3)"
    "apply_entries tools e (cfg\<lparr>ac_dry_run := False\<rparr>) (ar_items r0) h3 = (ar_items r', h2)"
    by (simp add: same) metis
  then have "r0 = r" using d by simp
  with apply_entries_trace [OF q(4)] first_look_Inr [OF d(3)] show ?thesis by simp
qed

theorem dry_run_previews_witness:
  "\<exists>r r'. fst (fst (ex_apply True)) = Some r \<and> fst (fst (ex_apply False)) = Some r'
     \<and> list_all2 entry_done (ar_items r) (ar_items r')"
proof -
  obtain r errs h1 r' errs' h2 where e: "ex_apply True = ((Some r, errs), h1)" "ex_apply False = ((Some r', errs'), h2)"
    using ex_apply_result by metis
  have cfg: "(ex_apply_config False)\<lparr>ac_dry_run := b\<rparr> = ex_apply_config b" for b
    by (simp add: ex_apply_config_def)
  have "apply_pinned ex_launch_tools 1000 (\<lambda>t. Some ex_pin) ex_pin_name True True ex_follow_env ex_apply_store
      ((ex_apply_config False)\<lparr>ac_dry_run := True\<rparr>) [] = ((Some r, errs), h1)"
    "apply_pinned ex_launch_tools 1000 (\<lambda>t. Some ex_pin) ex_pin_name True True ex_follow_env ex_apply_store
      ((ex_apply_config False)\<lparr>ac_dry_run := False\<rparr>) [] = ((Some r', errs'), h2)"
    unfolding cfg using e unfolding ex_apply_def .
  from dry_run_previews [OF this] e show ?thesis by simp
qed

end
