(* ===== verification/Process_Tree.thy ===== *)
theory Process_Tree
  imports Launch_Plan
begin

text \<open>
  Evidence from the process tree below a terminal window: \<open>internal/procmeta/process_tree.go\<close> and
  \<open>descendant_processes.go\<close>. The process file system changes while it is read: a \<open>proc_world\<close> gives
  its contents at every instant, and each system call takes one instant and advances the clock. The
  path of a file below the root is the process and a \<open>proc_file\<close>.

  The four traversals of the code are the instances of \<open>walk\<close>, which pops a process, refuses a
  repeated one, visits it and queues its children.
\<close>

section \<open>Process files\<close>

datatype proc_file = Stat_File | Cmdline_File | Comm_File | Children_File string

record proc_snapshot =
  ps_file :: "int \<Rightarrow> proc_file \<Rightarrow> string option"
  ps_exe :: "int \<Rightarrow> string option"
  ps_tasks :: "int \<Rightarrow> (string \<times> bool) list option"
  ps_cancelled :: bool

type_synonym proc_world = "nat \<Rightarrow> proc_snapshot"

record process_identity =
  pi_parent :: int
  pi_start :: string

definition max_process_nodes :: nat where "max_process_nodes = 256"
definition max_process_depth :: nat where "max_process_depth = 8"
definition max_process_tasks :: nat where "max_process_tasks = 256"
definition max_process_metadata_bytes :: int where "max_process_metadata_bytes = 64 * 2 ^ 10"

definition normalized_proc_root :: "string \<Rightarrow> string" where
  "normalized_proc_root dir = (if trim_space dir = [] then ''/proc'' else trim_space dir)"

definition read_bounded_file :: "proc_world \<Rightarrow> int \<Rightarrow> proc_file \<Rightarrow> nat \<Rightarrow> string option \<times> nat" where
  "read_bounded_file w pid f t =
     (case ps_file (w t) pid f of
        Some payload \<Rightarrow>
          if int (length payload) \<le> max_process_metadata_bytes then Some payload else None
      | None \<Rightarrow> None, Suc t)"

definition read_dir_bounded :: "proc_world \<Rightarrow> int \<Rightarrow> nat \<Rightarrow> nat \<Rightarrow> (string \<times> bool) list option \<times> nat" where
  "read_dir_bounded w pid limit t =
     (case ps_tasks (w t) pid of
        Some entries \<Rightarrow> if length entries \<le> limit then Some entries else None
      | None \<Rightarrow> None, Suc t)"

definition context_over :: "proc_world \<Rightarrow> nat \<Rightarrow> bool \<times> nat" where
  "context_over w t = (ps_cancelled (w t), Suc t)"

text \<open>
  \<open>strings.Fields\<close>. The first byte of an encoded white space never continues another rune, so the
  encodings can be looked for at every byte.
\<close>

fun span_word :: "string \<Rightarrow> string \<times> string" where
  "span_word [] = ([], [])"
| "span_word (c # s) =
     (if list_ex (\<lambda>e. prefix e (c # s)) space_runes then ([], c # s)
      else (case span_word s of (v, r) \<Rightarrow> (c # v, r)))"

lemma span_word_length: "length (fst (span_word s)) + length (snd (span_word s)) = length s"
  by (induction s rule: span_word.induct) (auto split: prod.splits)

lemma span_word_starts:
  assumes "\<not> list_ex (\<lambda>e. prefix e s) space_runes" and "s \<noteq> []"
  shows "length (snd (span_word s)) < length s"
  using assms span_word_length [of "tl s"] by (cases s) (auto split: prod.splits)

function white_fields :: "string \<Rightarrow> string list" where
  "white_fields s =
     (let t = strip space_runes s in
      if t = [] then [] else fst (span_word t) # white_fields (snd (span_word t)))"
  by pat_completeness auto
termination
proof (relation "measure length", simp)
  fix s t assume t: "t = strip space_runes s" "t \<noteq> []"
  have "find (\<lambda>e. e \<noteq> [] \<and> prefix e t) space_runes = None" unfolding t(1) by (rule strip_clean)
  moreover have "list_all (\<lambda>e. e \<noteq> []) space_runes" by (simp add: space_runes_def)
  ultimately have "\<not> list_ex (\<lambda>e. prefix e t) space_runes"
    by (auto simp: find_None_iff list_ex_iff list_all_iff)
  then have "length (snd (span_word t)) < length t" using t(2) by (rule span_word_starts)
  moreover have "length t \<le> length s" unfolding t(1) by (rule suffix_length_le [OF strip_suffix])
  ultimately show "(snd (span_word t), s) \<in> measure length" by simp
qed

declare white_fields.simps [simp del]

definition parse_process_identity :: "string \<Rightarrow> process_identity option" where
  "parse_process_identity stat =
     (case after_last (CHR '')'') stat of
        None \<Rightarrow> None
      | Some rest \<Rightarrow>
          (let fs = white_fields (drop 1 rest) in
           if length rest \<le> 1 \<or> length fs < 2 then None
           else case atoi (fs ! 1) of
             None \<Rightarrow> None
           | Some ppid \<Rightarrow>
               if ppid < 0 then None
               else Some \<lparr>pi_parent = ppid, pi_start = (if 19 < length fs then fs ! 19 else join_words fs)\<rparr>))"

definition read_process_identity :: "proc_world \<Rightarrow> int \<Rightarrow> nat \<Rightarrow> process_identity option \<times> nat" where
  "read_process_identity w pid t =
     (case read_bounded_file w pid Stat_File t of
        (None, t1) \<Rightarrow> (None, t1)
      | (Some payload, t1) \<Rightarrow> (parse_process_identity payload, t1))"

fun split_nul :: "string \<Rightarrow> string list" where
  "split_nul [] = [[]]"
| "split_nul (c # s) =
     (case split_nul s of
        [] \<Rightarrow> [[c]]
      | part # parts \<Rightarrow> if c = CHR 0x00 then [] # part # parts else (c # part) # parts)"

definition parse_args :: "string \<Rightarrow> string list option" where
  "parse_args payload =
     (if \<not> utf8_valid payload then None
      else if payload = [] then Some []
      else (let parts = split_nul payload in Some (if last parts = [] then butlast parts else parts)))"

definition read_proc_args :: "proc_world \<Rightarrow> int \<Rightarrow> nat \<Rightarrow> string list option \<times> nat" where
  "read_proc_args w pid t =
     (case read_bounded_file w pid Cmdline_File t of
        (None, t1) \<Rightarrow> (None, t1)
      | (Some payload, t1) \<Rightarrow> (parse_args payload, t1))"

text \<open>The child processes that one task lists, without repetition.\<close>

fun add_children :: "string list \<Rightarrow> int list \<Rightarrow> int list option" where
  "add_children [] here = Some here"
| "add_children (f # fs) here =
     (case atoi f of
        None \<Rightarrow> None
      | Some child \<Rightarrow>
          if child \<le> 0 \<or> child \<in> set here then None else add_children fs (here @ [child]))"

fun task_children :: "proc_world \<Rightarrow> int \<Rightarrow> (string \<times> bool) list \<Rightarrow> int list \<Rightarrow> nat \<Rightarrow> int list option \<times> nat"
where
  "task_children w pid [] found t = (Some found, t)"
| "task_children w pid ((name, is_dir) # tasks) found t =
     (if \<not> is_dir then task_children w pid tasks found t
      else if atoi name = None then (None, t)
      else (case read_bounded_file w pid (Children_File name) t of
              (None, t1) \<Rightarrow> (None, t1)
            | (Some payload, t1) \<Rightarrow>
                (case add_children (white_fields payload) [] of
                   None \<Rightarrow> (None, t1)
                 | Some here \<Rightarrow> task_children w pid tasks (List.union here found) t1)))"

definition read_process_children :: "proc_world \<Rightarrow> int \<Rightarrow> nat \<Rightarrow> int list option \<times> nat" where
  "read_process_children w pid t =
     (case read_dir_bounded w pid max_process_tasks t of
        (None, t1) \<Rightarrow> (None, t1)
      | (Some tasks, t1) \<Rightarrow>
          (case task_children w pid tasks [] t1 of
             (None, t2) \<Rightarrow> (None, t2)
           | (Some found, t2) \<Rightarrow> (Some (sort found), t2)))"

section \<open>The process table\<close>

record process_node =
  pn_pid :: int
  pn_parent :: int
  pn_depth :: nat

record process_table =
  pt_ids :: "(int \<times> process_identity) list"
  pt_children :: "(int \<times> int list) list"
  pt_complete :: bool

definition kids :: "process_table \<Rightarrow> int \<Rightarrow> int list" where
  "kids tab pid = (case map_of (pt_children tab) pid of None \<Rightarrow> [] | Some cs \<Rightarrow> cs)"

definition child_nodes :: "process_node \<Rightarrow> int list \<Rightarrow> process_node list" where
  "child_nodes n cs = map (\<lambda>c. \<lparr>pn_pid = c, pn_parent = pn_pid n, pn_depth = pn_depth n + 1\<rparr>) cs"

definition with_child_list :: "process_table \<Rightarrow> int \<Rightarrow> process_identity \<Rightarrow> int list \<Rightarrow> process_table" where
  "with_child_list tab pid i cs =
     tab\<lparr>pt_ids := pt_ids tab @ [(pid, i)], pt_children := pt_children tab @ [(pid, cs)]\<rparr>"

text \<open>
  One pass of the loop. An incomplete table is never used, so it is not kept.
\<close>

datatype table_step = Incomplete_Step | Next_Step process_table "process_node list"

definition table_body ::
    "proc_world \<Rightarrow> process_node \<Rightarrow> process_node list \<Rightarrow> process_table \<Rightarrow> nat \<Rightarrow> table_step \<times> nat"
where
  "table_body w cur queue tab t =
     (case read_process_identity w (pn_pid cur) t of
        (None, t1) \<Rightarrow> (Incomplete_Step, t1)
      | (Some i, t1) \<Rightarrow>
          if 0 < pn_parent cur \<and> pi_parent i \<noteq> pn_parent cur then (Incomplete_Step, t1)
          else (case read_process_children w (pn_pid cur) t1 of
            (None, t2) \<Rightarrow> (Incomplete_Step, t2)
          | (Some cs, t2) \<Rightarrow>
              (let tab1 = with_child_list tab (pn_pid cur) i cs in
               if max_process_depth \<le> pn_depth cur
               then (if cs = [] then (Next_Step tab1 queue, t2) else (Incomplete_Step, t2))
               else if max_process_nodes < length (pt_ids tab1) + length queue + length cs
               then (Incomplete_Step, t2)
               else (Next_Step tab1 (queue @ child_nodes cur cs), t2))))"

text \<open>The processes seen are those of the table, so \<open>len(seen)\<close> is its length.\<close>

function table_loop ::
    "proc_world \<Rightarrow> process_node list \<Rightarrow> process_table \<Rightarrow> nat \<Rightarrow> process_table option \<times> nat" where
  "table_loop w queue tab t =
     (case queue of
        [] \<Rightarrow> (Some (tab\<lparr>pt_complete := True\<rparr>), t)
      | cur # rest \<Rightarrow>
          (case context_over w t of
             (True, t1) \<Rightarrow> (None, t1)
           | (False, t1) \<Rightarrow>
               if max_process_nodes \<le> length (pt_ids tab) \<or> pn_pid cur \<in> fst ` set (pt_ids tab)
               then (Some tab, t1)
               else (case table_body w cur rest tab t1 of
                       (Incomplete_Step, t2) \<Rightarrow> (Some tab, t2)
                     | (Next_Step tab1 queue1, t2) \<Rightarrow> table_loop w queue1 tab1 t2)))"
  by pat_completeness auto
termination
  by (relation "measure (\<lambda>(w, queue, tab, t). max_process_nodes - length (pt_ids tab))")
    (auto simp: table_body_def with_child_list_def Let_def split: option.splits prod.splits if_splits)

declare table_loop.simps [simp del]

definition process_table :: "proc_world \<Rightarrow> int \<Rightarrow> nat \<Rightarrow> process_table option \<times> nat" where
  "process_table w top_pid t =
     (case context_over w t of
        (True, t1) \<Rightarrow> (None, t1)
      | (False, t1) \<Rightarrow>
          table_loop w [\<lparr>pn_pid = top_pid, pn_parent = 0, pn_depth = 0\<rparr>]
            \<lparr>pt_ids = [], pt_children = [], pt_complete = False\<rparr> t1)"

section \<open>Walking the table\<close>

text \<open>
  The loops over the descendants: \<open>over\<close> is the check of the context, \<open>again\<close> the answer for a
  repeated process, \<open>visit\<close> what is done with a process.
\<close>

lemma visited_decreases:
  assumes "pid \<notin> seen"
  shows "card (fst ` set (pt_children tab) - insert pid seen) < card (fst ` set (pt_children tab) - seen)
    \<or> (fst ` set (pt_children tab) - insert pid seen = fst ` set (pt_children tab) - seen \<and> kids tab pid = [])"
proof (cases "pid \<in> fst ` set (pt_children tab)")
  case True
  have "card (fst ` set (pt_children tab) - insert pid seen) < card (fst ` set (pt_children tab) - seen)"
    using True assms by (intro psubset_card_mono) auto
  then show ?thesis ..
next
  case False
  then have "map_of (pt_children tab) pid = None" by (simp add: map_of_eq_None_iff)
  with False show ?thesis by (auto simp: kids_def)
qed

function walk ::
    "(nat \<Rightarrow> 'e option \<times> nat) \<Rightarrow> 'e \<Rightarrow> (int \<Rightarrow> 'a \<Rightarrow> nat \<Rightarrow> ('e + 'a) \<times> nat) \<Rightarrow> process_table
     \<Rightarrow> int list \<Rightarrow> int list \<Rightarrow> 'a \<Rightarrow> nat \<Rightarrow> ('e + 'a) \<times> nat"
where
  "walk over again visit tab queue seen acc t =
     (case queue of
        [] \<Rightarrow> (Inr acc, t)
      | pid # rest \<Rightarrow>
          (case over t of
             (Some e, t1) \<Rightarrow> (Inl e, t1)
           | (None, t1) \<Rightarrow>
               if pid \<in> set seen then (Inl again, t1)
               else (case visit pid acc t1 of
                       (Inl e, t2) \<Rightarrow> (Inl e, t2)
                     | (Inr acc1, t2) \<Rightarrow>
                         walk over again visit tab (rest @ kids tab pid) (pid # seen) acc1 t2)))"
  by pat_completeness auto
termination
  by (relation "measures
    [\<lambda>(over, again, visit, tab, queue, seen, acc, t). card (fst ` set (pt_children tab) - set seen),
     \<lambda>(over, again, visit, tab, queue, seen, acc, t). length queue]")
    (auto dest: visited_decreases)

declare walk.simps [simp del]

section \<open>Sessions shown by a Kitty window\<close>

record session_evidence =
  ev_kitty_verified :: bool
  ev_candidates :: "string list"
  ev_complete :: bool

definition no_evidence :: session_evidence where
  "no_evidence = \<lparr>ev_kitty_verified = False, ev_candidates = [], ev_complete = False\<rparr>"

definition exact_zellij_attach_session :: "string list \<Rightarrow> string option" where
  "exact_zellij_attach_session args =
     (if length args = 4 \<and> path_base (args ! 0) = ''zellij'' \<and> args ! 1 = ''attach'' \<and> args ! 2 = ''--''
         \<and> args ! 3 \<noteq> []
      then Some (args ! 3) else None)"

definition is_kitty_basename :: "string \<Rightarrow> bool" where
  "is_kitty_basename name \<longleftrightarrow>
     to_lower (trim_space name) \<in> {''kitty'', ''kitty.bin'', ''.kitty-wrapped''}"

definition verify_kitty_process :: "proc_world \<Rightarrow> int \<Rightarrow> nat \<Rightarrow> (bool \<times> bool) \<times> nat" where
  "verify_kitty_process w pid t =
     (let exe = ps_exe (w t) pid in
      if (case exe of Some e \<Rightarrow> is_kitty_basename (path_base e) | None \<Rightarrow> False)
      then ((True, True), Suc t)
      else (case read_bounded_file w pid Comm_File (Suc t) of
              (Some payload, t1) \<Rightarrow>
                (if \<not> utf8_valid payload then ((False, False), t1)
                 else
                   (let comm = trim_space payload in
                    if list_ex (\<lambda>c. c \<in> {CHR ''/'', CHR 0x5C, CHR 0x00}) comm then ((False, True), t1)
                    else ((is_kitty_basename comm, True), t1)))
            | (None, t1) \<Rightarrow> ((False, exe \<noteq> None), t1)))"

text \<open>A process keeps the identity of the table while its arguments are read.\<close>

definition read_current ::
    "proc_world \<Rightarrow> process_table \<Rightarrow> int \<Rightarrow> nat \<Rightarrow> bool \<times> nat" where
  "read_current w tab pid t =
     (case map_of (pt_ids tab) pid of
        None \<Rightarrow> (False, t)
      | Some i \<Rightarrow> (case read_process_identity w pid t of (j, t1) \<Rightarrow> (j = Some i, t1)))"

definition read_steady_args ::
    "proc_world \<Rightarrow> process_table \<Rightarrow> int \<Rightarrow> nat \<Rightarrow> string list option \<times> nat" where
  "read_steady_args w tab pid t =
     (case read_current w tab pid t of
        (False, t1) \<Rightarrow> (None, t1)
      | (True, t1) \<Rightarrow>
          (case read_proc_args w pid t1 of
             (None, t2) \<Rightarrow> (None, t2)
           | (Some args, t2) \<Rightarrow>
               (case read_current w tab pid t2 of
                  (False, t3) \<Rightarrow> (None, t3)
                | (True, t3) \<Rightarrow> (Some args, t3))))"

datatype stop_reason = Context_Done | Uncertain | Matched

definition context_stop :: "proc_world \<Rightarrow> nat \<Rightarrow> stop_reason option \<times> nat" where
  "context_stop w t = (case context_over w t of (b, t1) \<Rightarrow> (if b then Some Context_Done else None, t1))"

definition visit_session ::
    "proc_world \<Rightarrow> process_table \<Rightarrow> int \<Rightarrow> string list \<Rightarrow> nat \<Rightarrow> (stop_reason + string list) \<times> nat"
where
  "visit_session w tab pid found t =
     (case read_steady_args w tab pid t of
        (None, t1) \<Rightarrow> (Inl Uncertain, t1)
      | (Some args, t1) \<Rightarrow>
          (case exact_zellij_attach_session args of
             None \<Rightarrow> (Inr found, t1)
           | Some session \<Rightarrow> (Inr (List.insert session found), t1)))"

text \<open>\<open>None\<close> is the error of the context.\<close>

definition observe_zellij_session_evidence ::
    "proc_world \<Rightarrow> int \<Rightarrow> nat \<Rightarrow> session_evidence option \<times> nat" where
  "observe_zellij_session_evidence w top_pid t =
     (if top_pid \<le> 0 then (Some no_evidence, t)
      else case process_table w top_pid t of
        (None, t1) \<Rightarrow> (None, t1)
      | (Some tab, t1) \<Rightarrow>
          if \<not> pt_complete tab then (Some no_evidence, t1)
          else (case read_current w tab top_pid t1 of
            (False, t2) \<Rightarrow> (Some no_evidence, t2)
          | (True, t2) \<Rightarrow>
              (case verify_kitty_process w top_pid t2 of
                 ((verified, known), t3) \<Rightarrow>
                   if \<not> known then (Some no_evidence, t3)
                   else if \<not> verified then (Some (no_evidence\<lparr>ev_complete := True\<rparr>), t3)
                   else (case walk (context_stop w) Uncertain (visit_session w tab) tab (kids tab top_pid) [] [] t3 of
                     (Inl Context_Done, t4) \<Rightarrow> (None, t4)
                   | (Inl e, t4) \<Rightarrow> (Some (no_evidence\<lparr>ev_kitty_verified := True\<rparr>), t4)
                   | (Inr found, t4) \<Rightarrow>
                       (case read_current w tab top_pid t4 of
                          (False, t5) \<Rightarrow> (Some (no_evidence\<lparr>ev_kitty_verified := True\<rparr>), t5)
                        | (True, t5) \<Rightarrow>
                            (Some \<lparr>ev_kitty_verified = True, ev_candidates = sort_strings found,
                                   ev_complete = True\<rparr>, t5))))))"

section \<open>Other questions about the descendants\<close>

definition visit_match ::
    "(string list \<Rightarrow> bool) \<Rightarrow> proc_world \<Rightarrow> process_table \<Rightarrow> int \<Rightarrow> unit \<Rightarrow> nat \<Rightarrow> (stop_reason + unit) \<times> nat"
where
  "visit_match match w tab pid u t =
     (case read_steady_args w tab pid t of
        (None, t1) \<Rightarrow> (Inl Uncertain, t1)
      | (Some args, t1) \<Rightarrow> (if match args then Inl Matched else Inr (), t1))"

definition descendant_argv_match ::
    "(string list \<Rightarrow> bool) option \<Rightarrow> proc_world \<Rightarrow> int \<Rightarrow> nat \<Rightarrow> bool option \<times> nat" where
  "descendant_argv_match match w top_pid t =
     (case match of
        None \<Rightarrow> (Some False, t)
      | Some m \<Rightarrow>
          if top_pid \<le> 0 then (Some False, t)
          else (case process_table w top_pid t of
            (None, t1) \<Rightarrow> (None, t1)
          | (Some tab, t1) \<Rightarrow>
              if \<not> pt_complete tab then (Some False, t1)
              else (case read_current w tab top_pid t1 of
                (False, t2) \<Rightarrow> (Some False, t2)
              | (True, t2) \<Rightarrow>
                  (case walk (context_stop w) Uncertain (visit_match m w tab) tab (kids tab top_pid) [] () t2 of
                     (Inl Context_Done, t3) \<Rightarrow> (None, t3)
                   | (Inl Matched, t3) \<Rightarrow> (Some True, t3)
                   | (_, t3) \<Rightarrow> (Some False, t3)))))"

datatype tree_error = Tree_Cancelled | Tree_Incomplete | Tree_Repeated | Process_Changed | Tree_Root

text \<open>\<open>DescendantPIDs\<close>: its context is never cancelled, the reversal puts leaves before parents.\<close>

definition descendant_pids :: "proc_world \<Rightarrow> int \<Rightarrow> nat \<Rightarrow> (tree_error + int list) \<times> nat" where
  "descendant_pids w top_pid t =
     (case process_table w top_pid t of
        (None, t1) \<Rightarrow> (Inl Tree_Cancelled, t1)
      | (Some tab, t1) \<Rightarrow>
          if \<not> pt_complete tab then (Inl Tree_Incomplete, t1)
          else (case walk (\<lambda>t. (None, t)) Tree_Repeated (\<lambda>pid out t. (Inr (out @ [pid]), t)) tab
                       (kids tab top_pid) [] [] t1 of
                  (Inl e, t2) \<Rightarrow> (Inl e, t2)
                | (Inr out, t2) \<Rightarrow> (Inr (rev out), t2)))"

definition visit_process ::
    "proc_world \<Rightarrow> process_table \<Rightarrow> int \<Rightarrow> descendant list \<Rightarrow> nat \<Rightarrow> (tree_error + descendant list) \<times> nat"
where
  "visit_process w tab pid found t =
     (case read_steady_args w tab pid t of
        (None, t1) \<Rightarrow> (Inl Process_Changed, t1)
      | (Some args, t1) \<Rightarrow>
          (case map_of (pt_ids tab) pid of
             None \<Rightarrow> (Inl Process_Changed, t1)
           | Some i \<Rightarrow>
               (Inr (found @ [\<lparr>ds_pid = pid, ds_parent = pi_parent i, ds_start = pi_start i, ds_args = args\<rparr>]), t1)))"

text \<open>The recheck of the whole table, in the order in which Go ranges over the map.\<close>

fun recheck :: "proc_world \<Rightarrow> process_table \<Rightarrow> int list \<Rightarrow> nat \<Rightarrow> tree_error option \<times> nat" where
  "recheck w tab [] t = (None, t)"
| "recheck w tab (pid # pids) t =
     (case context_over w t of
        (True, t1) \<Rightarrow> (Some Tree_Cancelled, t1)
      | (False, t1) \<Rightarrow>
          (case read_current w tab pid t1 of
             (False, t2) \<Rightarrow> (Some Process_Changed, t2)
           | (True, t2) \<Rightarrow> recheck w tab pids t2))"

definition tree_stop :: "proc_world \<Rightarrow> nat \<Rightarrow> tree_error option \<times> nat" where
  "tree_stop w t = (case context_over w t of (b, t1) \<Rightarrow> (if b then Some Tree_Cancelled else None, t1))"

definition observe_descendant_processes ::
    "(int list \<Rightarrow> int list) \<Rightarrow> proc_world \<Rightarrow> int \<Rightarrow> nat \<Rightarrow> (tree_error + descendant list) \<times> nat" where
  "observe_descendant_processes order w top_pid t =
     (if top_pid \<le> 0 then (Inl Tree_Root, t)
      else case process_table w top_pid t of
        (None, t1) \<Rightarrow> (Inl Tree_Cancelled, t1)
      | (Some tab, t1) \<Rightarrow>
          if \<not> pt_complete tab then (Inl Tree_Incomplete, t1)
          else (case read_current w tab top_pid t1 of
            (False, t2) \<Rightarrow> (Inl Process_Changed, t2)
          | (True, t2) \<Rightarrow>
              (case walk (tree_stop w) Tree_Repeated (visit_process w tab) tab (kids tab top_pid) [] [] t2 of
                 (Inl e, t3) \<Rightarrow> (Inl e, t3)
               | (Inr found, t3) \<Rightarrow>
                   (case recheck w tab (order (map fst (pt_ids tab))) t3 of
                      (Some e, t4) \<Rightarrow> (Inl e, t4)
                    | (None, t4) \<Rightarrow> (Inr found, t4)))))"

section \<open>The tree of a complete table\<close>

inductive below :: "(int \<Rightarrow> int list) \<Rightarrow> int \<Rightarrow> nat \<Rightarrow> int \<Rightarrow> bool" for k top_pid where
  below_top: "below k top_pid 0 top_pid"
| below_child: "below k top_pid n p \<Longrightarrow> c \<in> set (k p) \<Longrightarrow> below k top_pid (Suc n) c"

definition pids :: "process_table \<Rightarrow> int list" where
  "pids tab = map fst (pt_ids tab)"

text \<open>
  Every process is listed by its parent, which is the parent of its identity; nothing is listed
  twice, and every process is at most eight steps below the top.
\<close>

definition process_tree :: "process_table \<Rightarrow> int \<Rightarrow> bool" where
  "process_tree tab top_pid \<longleftrightarrow>
     pids tab = top_pid # concat (map (kids tab) (pids tab)) \<and> distinct (pids tab)
     \<and> length (pids tab) \<le> 256
     \<and> (\<forall>p \<in> set (pids tab). \<exists>n \<le> 8. below (kids tab) top_pid n p)
     \<and> (\<forall>(p, i) \<in> set (pt_ids tab). p = top_pid \<or> (\<exists>q \<in> set (pids tab). p \<in> set (kids tab q) \<and> pi_parent i = q))"

definition growing :: "int \<Rightarrow> process_table \<Rightarrow> process_node list \<Rightarrow> bool" where
  "growing top_pid tab queue \<longleftrightarrow>
     map fst (pt_children tab) = pids tab \<and> distinct (pids tab)
     \<and> pids tab @ map pn_pid queue = top_pid # concat (map (kids tab) (pids tab))
     \<and> (\<forall>p \<in> set (pids tab). 0 < p \<and> (\<exists>n \<le> 8. below (kids tab) top_pid n p))
     \<and> (\<forall>n \<in> set queue. 0 < pn_pid n \<and> pn_depth n \<le> 8 \<and> below (kids tab) top_pid (pn_depth n) (pn_pid n)
          \<and> (pn_pid n = top_pid \<or> 0 < pn_parent n \<and> pn_parent n \<in> set (pids tab)
               \<and> pn_pid n \<in> set (kids tab (pn_parent n))))
     \<and> (\<forall>(p, i) \<in> set (pt_ids tab). p = top_pid \<or> (\<exists>q \<in> set (pids tab). p \<in> set (kids tab q) \<and> pi_parent i = q))
     \<and> length (pids tab) + length queue \<le> 256"

lemma pids_with [simp]: "pids (with_child_list tab p i cs) = pids tab @ [p]"
  by (simp add: pids_def with_child_list_def)

lemma kids_with:
  assumes "map fst (pt_children tab) = pids tab" and "p \<notin> set (pids tab)"
  shows "kids (with_child_list tab p i cs) q = (if q = p then cs else kids tab q)"
proof -
  have "map_of (pt_children tab) p = None"
    using assms by (metis list.set_map map_of_eq_None_iff)
  then show ?thesis
    by (auto simp: kids_def with_child_list_def map_add_def split: option.splits)
qed

lemma kids_new: "map fst (pt_children tab) = pids tab \<Longrightarrow> p \<notin> set (pids tab) \<Longrightarrow> kids tab p = []"
  by (metis (no_types, lifting) kids_def list.set_map map_of_eq_None_iff option.simps(4))

lemma below_mono: "below k r n p \<Longrightarrow> (\<And>q. set (k q) \<subseteq> set (k' q)) \<Longrightarrow> below k' r n p"
  by (induction rule: below.induct) (auto intro: below.intros)

lemma sort_positive: "add_children fs here = Some cs \<Longrightarrow> \<forall>c \<in> set here. 0 < c \<Longrightarrow> \<forall>c \<in> set cs. 0 < c"
  by (induction fs here rule: add_children.induct) (auto split: option.splits if_splits)

lemma task_children_positive:
  "task_children w pid tasks found t = (Some cs, t1) \<Longrightarrow> \<forall>c \<in> set found. 0 < c \<Longrightarrow> \<forall>c \<in> set cs. 0 < c"
proof (induction tasks arbitrary: found t)
  case (Cons task tasks)
  obtain name is_dir where task: "task = (name, is_dir)" by (cases task)
  show ?case
  proof (cases is_dir)
    case True
    with Cons.prems(1) task obtain payload t2 here where r: "read_bounded_file w pid (Children_File name) t = (Some payload, t2)"
      "add_children (white_fields payload) [] = Some here" "atoi name \<noteq> None"
      "task_children w pid tasks (List.union here found) t2 = (Some cs, t1)"
      by (auto split: if_splits prod.splits option.splits)
    from sort_positive [OF r(2)] Cons.prems(2) have "\<forall>c \<in> set (List.union here found). 0 < c" by auto
    with Cons.IH r(4) show ?thesis by blast
  next
    case False
    with Cons.IH Cons.prems task show ?thesis by simp
  qed
qed simp

lemma children_positive: "read_process_children w pid t = (Some cs, t1) \<Longrightarrow> c \<in> set cs \<Longrightarrow> 0 < c"
  using task_children_positive
  by (fastforce simp: read_process_children_def split: prod.splits option.splits)

lemma growing_body:
  assumes g: "growing top_pid tab (cur # rest)" and new: "pn_pid cur \<notin> set (pids tab)"
    and b: "table_body w cur rest tab t = (Next_Step tab1 queue1, t1)"
  shows "growing top_pid tab1 queue1"
proof -
  let ?p = "pn_pid cur"
  obtain i ta where i: "read_process_identity w ?p t = (Some i, ta)"
    and par: "0 < pn_parent cur \<Longrightarrow> pi_parent i = pn_parent cur"
    using b by (auto simp: table_body_def split: option.splits prod.splits if_splits)
  then obtain cs tb where cs: "read_process_children w ?p ta = (Some cs, tb)"
    using b by (auto simp: table_body_def split: option.splits prod.splits if_splits)
  let ?tab = "with_child_list tab ?p i cs"
  have step: "tab1 = ?tab" "queue1 = rest @ child_nodes cur cs"
    "max_process_depth \<le> pn_depth cur \<Longrightarrow> cs = []"
    "cs \<noteq> [] \<Longrightarrow> length (pids ?tab) + length rest + length cs \<le> 256"
    using b i par cs
    by (auto simp: table_body_def Let_def child_nodes_def max_process_nodes_def pids_def
        with_child_list_def split: if_splits)
  have kids: "kids ?tab q = (if q = ?p then cs else kids tab q)" for q
    using g new kids_with by (auto simp: growing_def)
  have none: "kids tab ?p = []" using g new kids_new by (auto simp: growing_def)
  have mono: "below (kids tab) top_pid n q \<Longrightarrow> below (kids ?tab) top_pid n q" for n q
    by (erule below_mono) (use none in \<open>auto simp: kids\<close>)
  have same: "map (kids ?tab) (pids tab) = map (kids tab) (pids tab)"
    using new by (auto simp: kids)
  have pos: "\<forall>c \<in> set cs. 0 < c" using children_positive [OF cs] by blast
  have cur: "0 < ?p" "pn_depth cur \<le> 8" "below (kids tab) top_pid (pn_depth cur) ?p"
    "?p = top_pid \<or> 0 < pn_parent cur \<and> pn_parent cur \<in> set (pids tab) \<and> ?p \<in> set (kids tab (pn_parent cur))"
    using g by (auto simp: growing_def)
  have "pids tab @ ?p # map pn_pid rest = top_pid # concat (map (kids tab) (pids tab))"
    using g by (simp add: growing_def)
  then have order: "pids ?tab @ map pn_pid queue1 = top_pid # concat (map (kids ?tab) (pids ?tab))"
    unfolding step(2) by (simp add: same kids child_nodes_def comp_def)
  have ids: "\<forall>(p, j) \<in> set (pt_ids ?tab). p = top_pid \<or> (\<exists>q \<in> set (pids ?tab). p \<in> set (kids ?tab q) \<and> pi_parent j = q)"
  proof (intro ballI, clarify)
    fix p j assume pj: "(p, j) \<in> set (pt_ids ?tab)" and np: "\<not> (\<exists>q \<in> set (pids ?tab). p \<in> set (kids ?tab q) \<and> pi_parent j = q)"
    show "p = top_pid"
    proof (cases "(p, j) \<in> set (pt_ids tab)")
      case True
      then have "p = top_pid \<or> (\<exists>q \<in> set (pids tab). p \<in> set (kids tab q) \<and> pi_parent j = q)"
        using g by (auto simp: growing_def)
      with np new show ?thesis by (auto simp: kids split: if_splits)
    next
      case False
      then have "p = ?p" "j = i" using pj by (auto simp: with_child_list_def)
      with np cur(4) par new show ?thesis by (auto simp: kids split: if_splits)
    qed
  qed
  have deep: "pn_depth cur < 8" if "cs \<noteq> []"
  proof (rule ccontr)
    assume "\<not> pn_depth cur < 8"
    then show False using step(3) that by (simp add: max_process_depth_def)
  qed
  have "\<forall>n \<in> set queue1. 0 < pn_pid n \<and> pn_depth n \<le> 8 \<and> below (kids ?tab) top_pid (pn_depth n) (pn_pid n)
      \<and> (pn_pid n = top_pid \<or> 0 < pn_parent n \<and> pn_parent n \<in> set (pids ?tab) \<and> pn_pid n \<in> set (kids ?tab (pn_parent n)))"
  proof
    fix n assume "n \<in> set queue1"
    then consider "n \<in> set rest" | c where "c \<in> set cs" "n = \<lparr>pn_pid = c, pn_parent = ?p, pn_depth = pn_depth cur + 1\<rparr>"
      unfolding step(2) by (auto simp: child_nodes_def)
    then show "0 < pn_pid n \<and> pn_depth n \<le> 8 \<and> below (kids ?tab) top_pid (pn_depth n) (pn_pid n)
      \<and> (pn_pid n = top_pid \<or> 0 < pn_parent n \<and> pn_parent n \<in> set (pids ?tab) \<and> pn_pid n \<in> set (kids ?tab (pn_parent n)))"
    proof cases
      case 1
      with g have n: "0 < pn_pid n" "pn_depth n \<le> 8" "below (kids tab) top_pid (pn_depth n) (pn_pid n)"
        "pn_pid n = top_pid \<or> 0 < pn_parent n \<and> pn_parent n \<in> set (pids tab) \<and> pn_pid n \<in> set (kids tab (pn_parent n))"
        by (auto simp: growing_def)
      with new mono show ?thesis by (auto simp: kids)
    next
      case 2
      have "below (kids ?tab) top_pid (Suc (pn_depth cur)) c"
        by (rule below_child [OF mono [OF cur(3)]]) (simp add: kids 2)
      moreover have "pn_depth cur < 8" using deep 2(1) by force
      ultimately show ?thesis using 2 pos cur(1) by (simp add: kids)
    qed
  qed
  moreover have "\<forall>p \<in> set (pids ?tab). 0 < p \<and> (\<exists>n \<le> 8. below (kids ?tab) top_pid n p)"
  proof
    fix p assume "p \<in> set (pids ?tab)"
    then consider "p \<in> set (pids tab)" | "p = ?p" by auto
    then show "0 < p \<and> (\<exists>n \<le> 8. below (kids ?tab) top_pid n p)"
    proof cases
      case 1
      then have "0 < p \<and> (\<exists>n \<le> 8. below (kids tab) top_pid n p)" using g unfolding growing_def by blast
      with mono show ?thesis by blast
    qed (use cur mono in blast)
  qed
  moreover have "map fst (pt_children ?tab) = pids ?tab" "distinct (pids ?tab)"
    using g new by (auto simp: growing_def with_child_list_def pids_def)
  moreover have "length (pids ?tab) + length queue1 \<le> 256"
    using g step(2,4) by (cases "cs = []") (auto simp: growing_def child_nodes_def)
  ultimately show ?thesis using order ids unfolding growing_def step(1) by blast
qed

lemma file_later: "read_bounded_file w p f t = (x, t1) \<Longrightarrow> t1 = Suc t"
  by (auto simp: read_bounded_file_def)

lemma identity_later: "read_process_identity w p t = (x, t1) \<Longrightarrow> t1 = Suc t"
  by (auto simp: read_process_identity_def dest: file_later split: prod.splits option.splits)

lemma args_later: "read_proc_args w p t = (x, t1) \<Longrightarrow> t1 = Suc t"
  by (auto simp: read_proc_args_def dest: file_later split: prod.splits option.splits)

lemma task_children_later: "task_children w p tasks found t = (x, t1) \<Longrightarrow> t \<le> t1"
proof (induction w p tasks found t rule: task_children.induct)
  case (2 w pid name is_dir tasks found t)
  then show ?case
    by (auto split: if_splits prod.splits option.splits dest: file_later)
       (metis Suc_leD file_later)
qed simp

lemma children_later: "read_process_children w p t = (x, t1) \<Longrightarrow> t \<le> t1"
  by (auto simp: read_process_children_def read_dir_bounded_def
      dest!: task_children_later split: prod.splits option.splits if_splits)

lemma table_body_later: "table_body w cur rest tab t = (r, t1) \<Longrightarrow> t \<le> t1"
  by (auto simp: table_body_def Let_def split: prod.splits option.splits if_splits
      dest!: identity_later children_later)

lemma growing_done:
  assumes g: "growing top_pid tab []"
  shows "process_tree (tab\<lparr>pt_complete := True\<rparr>) top_pid"
proof -
  have "kids (tab\<lparr>pt_complete := True\<rparr>) = kids tab" "pids (tab\<lparr>pt_complete := True\<rparr>) = pids tab"
    by (auto simp: kids_def pids_def)
  moreover have "pids tab = top_pid # concat (map (kids tab) (pids tab))"
    using g unfolding growing_def by (simp only: list.map append_Nil2)
  moreover have "distinct (pids tab)" "length (pids tab) \<le> 256"
    "\<forall>p \<in> set (pids tab). \<exists>n \<le> 8. below (kids tab) top_pid n p"
    "\<forall>(p, i) \<in> set (pt_ids tab). p = top_pid \<or> (\<exists>q \<in> set (pids tab). p \<in> set (kids tab q) \<and> pi_parent i = q)"
    using g unfolding growing_def by auto
  ultimately show ?thesis unfolding process_tree_def by simp
qed

text \<open>Every entry of the table was read between \<open>s\<close> and \<open>t\<close>: the identity and, at once, the children.\<close>

definition observed :: "proc_world \<Rightarrow> nat \<Rightarrow> nat \<Rightarrow> process_table \<Rightarrow> bool" where
  "observed w s t tab \<longleftrightarrow>
     (\<forall>(p, i) \<in> set (pt_ids tab). \<exists>a b. s \<le> a \<and> b \<le> t \<and> read_process_identity w p a = (Some i, Suc a)
        \<and> read_process_children w p (Suc a) = (Some (kids tab p), b))"

lemma observed_body:
  assumes o: "observed w s t tab" and keys: "map fst (pt_children tab) = pids tab" and new: "pn_pid cur \<notin> set (pids tab)"
    and b: "table_body w cur rest tab t = (Next_Step tab1 queue1, t1)" and st: "s \<le> t"
  shows "observed w s t1 tab1"
proof -
  let ?p = "pn_pid cur"
  obtain i ta where i: "read_process_identity w ?p t = (Some i, ta)"
    and par: "0 < pn_parent cur \<Longrightarrow> pi_parent i = pn_parent cur"
    using b by (auto simp: table_body_def split: option.splits prod.splits if_splits)
  then obtain cs tb where cs: "read_process_children w ?p ta = (Some cs, tb)"
    using b by (auto simp: table_body_def split: option.splits prod.splits if_splits)
  have step: "tab1 = with_child_list tab ?p i cs" "t1 = tb"
    using b i par cs by (auto simp: table_body_def Let_def split: if_splits)
  have ta: "ta = Suc t" using identity_later [OF i] .
  have tb: "t \<le> tb" using children_later [OF cs] ta by simp
  show ?thesis
    unfolding observed_def
  proof (intro ballI, clarify)
    fix p j assume pj: "(p, j) \<in> set (pt_ids tab1)"
    show "\<exists>a b. s \<le> a \<and> b \<le> t1 \<and> read_process_identity w p a = (Some j, Suc a)
        \<and> read_process_children w p (Suc a) = (Some (kids tab1 p), b)"
    proof (cases "(p, j) \<in> set (pt_ids tab)")
      case True
      then have "p \<in> set (pids tab)" by (force simp: pids_def)
      then have "kids tab1 p = kids tab p" using new kids_with [OF keys new] step by auto
      moreover obtain a b where "s \<le> a" "b \<le> t" "read_process_identity w p a = (Some j, Suc a)"
        "read_process_children w p (Suc a) = (Some (kids tab p), b)"
        using o True unfolding observed_def by blast
      ultimately show ?thesis using tb step(2) by (intro exI [of _ a] exI [of _ b]) simp
    next
      case False
      then have "p = ?p" "j = i" using pj step by (auto simp: with_child_list_def)
      then show ?thesis using i cs ta st step kids_with [OF keys new] by (intro exI [of _ t] exI [of _ tb]) simp
    qed
  qed
qed

lemma table_loop_tree:
  "table_loop w queue tab t = (Some tab1, t1) \<Longrightarrow> growing top_pid tab queue \<Longrightarrow> \<not> pt_complete tab \<Longrightarrow>
     observed w s t tab \<Longrightarrow> s \<le> t \<Longrightarrow>
     t \<le> t1 \<and> (pt_complete tab1 \<longrightarrow> process_tree tab1 top_pid \<and> observed w s t1 tab1)"
proof (induction w queue tab t rule: table_loop.induct)
  case (1 w queue tab t)
  show ?case
  proof (cases queue)
    case Nil
    with "1.prems"(1) have "tab1 = tab\<lparr>pt_complete := True\<rparr>" "t1 = t" by (auto simp: table_loop.simps)
    moreover have "observed w s t (tab\<lparr>pt_complete := True\<rparr>)"
      using "1.prems"(4) by (simp add: observed_def kids_def)
    ultimately show ?thesis using growing_done [of top_pid tab] "1.prems"(2) Nil by simp
  next
    case (Cons cur rest)
    show ?thesis
    proof (cases "ps_cancelled (w t) \<or> max_process_nodes \<le> length (pt_ids tab) \<or> pn_pid cur \<in> fst ` set (pt_ids tab)")
      case True
      with "1.prems" Cons show ?thesis
        by (subst (asm) table_loop.simps) (auto simp: context_over_def split: bool.splits)
    next
      case False
      obtain r t2 where b: "table_body w cur rest tab (Suc t) = (r, t2)"
        by (cases "table_body w cur rest tab (Suc t)")
      then have later: "Suc t \<le> t2" by (rule table_body_later)
      show ?thesis
      proof (cases r)
        case Incomplete_Step
        with "1.prems" Cons False b later show ?thesis
          by (subst (asm) table_loop.simps) (auto simp: context_over_def)
      next
        case (Next_Step tab2 queue2)
        have new: "pn_pid cur \<notin> set (pids tab)" using False by (auto simp: pids_def)
        have g: "growing top_pid tab2 queue2"
          using growing_body [OF _ new b [unfolded Next_Step]] "1.prems"(2) Cons by simp
        have o: "observed w s t2 tab2"
        proof (rule observed_body [OF _ _ new b [unfolded Next_Step]])
          show "observed w s (Suc t) tab" using "1.prems"(4) unfolding observed_def by (fastforce intro: le_SucI)
        qed (use "1.prems"(2,5) in \<open>auto simp: growing_def\<close>)
        have i: "\<not> pt_complete tab2"
          using b Next_Step "1.prems"(3)
          by (auto simp: table_body_def Let_def with_child_list_def split: prod.splits option.splits if_splits)
        have "table_loop w queue2 tab2 t2 = (Some tab1, t1)"
          using "1.prems"(1) Cons False b Next_Step
          by (subst (asm) table_loop.simps) (simp add: context_over_def)
        from "1.IH" [OF Cons _ _ _ b [symmetric] Next_Step] this g i o False later "1.prems"(5) show ?thesis
          by (fastforce simp: context_over_def)
      qed
    qed
  qed
qed

lemma process_table_tree:
  assumes "process_table w top_pid t = (Some tab, t1)" and "0 < top_pid"
  shows "t \<le> t1 \<and> (pt_complete tab \<longrightarrow> process_tree tab top_pid \<and> observed w t t1 tab)"
proof -
  let ?tab = "\<lparr>pt_ids = [], pt_children = [], pt_complete = False\<rparr>"
  have "growing top_pid ?tab [\<lparr>pn_pid = top_pid, pn_parent = 0, pn_depth = 0\<rparr>]"
    using assms(2) below_top by (simp add: growing_def pids_def)
  moreover have "observed w t (Suc t) ?tab" by (simp add: observed_def)
  ultimately have "Suc t \<le> t1 \<and> (pt_complete tab \<longrightarrow> process_tree tab top_pid \<and> observed w t t1 tab)"
    using assms(1) by (intro table_loop_tree) (auto simp: process_table_def context_over_def split: bool.splits)
  then show ?thesis by simp
qed

lemma tree_distinct: "process_tree tab top_pid \<Longrightarrow> distinct (pids tab)"
  by (simp only: process_tree_def)

lemma tree_kids_in: "process_tree tab top_pid \<Longrightarrow> p \<in> set (pids tab) \<Longrightarrow> c \<in> set (kids tab p) \<Longrightarrow> c \<in> set (pids tab) - {top_pid}"
proof -
  assume t: "process_tree tab top_pid" and c: "p \<in> set (pids tab)" "c \<in> set (kids tab p)"
  have e: "pids tab = top_pid # concat (map (kids tab) (pids tab))" and d: "distinct (pids tab)"
    using t by (simp_all add: process_tree_def)
  have "c \<in> set (concat (map (kids tab) (pids tab)))" using c by auto
  moreover have "top_pid \<notin> set (concat (map (kids tab) (pids tab)))" using e d by (metis distinct.simps(2))
  ultimately show ?thesis using e by (metis Diff_iff list.set_intros(2) singletonD)
qed

lemma tree_parent:
  assumes t: "process_tree tab top_pid" and pi: "(c, i) \<in> set (pt_ids tab)"
    and q: "q \<in> set (pids tab)" "c \<in> set (kids tab q)"
  shows "pi_parent i = q"
proof -
  have "c \<noteq> top_pid" using tree_kids_in [OF t q] by simp
  then obtain r where r: "r \<in> set (pids tab)" "c \<in> set (kids tab r)" "pi_parent i = r"
    using t pi by (auto simp: process_tree_def)
  have "distinct (concat (map (kids tab) (pids tab)))" "distinct (pids tab)"
    using t unfolding process_tree_def by (metis distinct.simps(2))+
  then have "r = q"
    using r q
  proof (induction "pids tab" arbitrary: tab)
    case Nil
    then show ?case by simp
  next
    case (Cons x xs)
    have "\<And>ys. distinct (concat (map (kids tab) ys)) \<Longrightarrow> r \<in> set ys \<Longrightarrow> q \<in> set ys \<Longrightarrow> r = q"
      if "c \<in> set (kids tab r)" "c \<in> set (kids tab q)"
    proof -
      fix ys assume "distinct (concat (map (kids tab) ys))" "r \<in> set ys" "q \<in> set ys"
      then show "r = q" using that by (induction ys) auto
    qed
    with Cons.prems show ?case by blast
  qed
  with r(3) show ?thesis by simp
qed

section \<open>Walks over a tree\<close>

text \<open>
  What a walk has done when it answers: the processes it visited, and any relation between them, the
  accumulator and the time that each visit preserves.
\<close>

lemma walk_visits:
  assumes "walk over again visit tab queue seen acc t = (Inr res, t')"
    and "past @ queue = concat (map (kids tab) (top_pid # past))" and "set seen = set past" and "distinct past"
    and "R past acc t"
    and step: "\<And>past pid acc t t1 acc1 t2. R past acc t \<Longrightarrow> pid \<notin> set past \<Longrightarrow>
      \<exists>q \<in> set (top_pid # past). pid \<in> set (kids tab q) \<Longrightarrow> over t = (None, t1) \<Longrightarrow>
      visit pid acc t1 = (Inr acc1, t2) \<Longrightarrow> R (past @ [pid]) acc1 t2"
  shows "\<exists>ps. ps = concat (map (kids tab) (top_pid # ps)) \<and> distinct ps \<and> R ps res t'"
  using assms
proof (induction over again visit tab queue seen acc t arbitrary: past rule: walk.induct)
  case (1 over again visit tab queue seen acc t)
  note step = "1.prems"(6)
  show ?case
  proof (cases queue)
    case Nil
    with "1.prems"(1) have "acc = res" "t = t'" by (auto simp: walk.simps)
    with "1.prems"(2,4,5) Nil show ?thesis by auto
  next
    case (Cons pid rest)
    obtain t1 where o: "over t = (None, t1)"
      using "1.prems"(1) Cons by (subst (asm) walk.simps) (auto split: prod.splits option.splits)
    have new: "pid \<notin> set seen"
      using "1.prems"(1) Cons o by (subst (asm) walk.simps) (auto split: if_splits)
    obtain acc1 t2 where v: "visit pid acc t1 = (Inr acc1, t2)"
      using "1.prems"(1) Cons o new by (subst (asm) walk.simps) (auto split: prod.splits sum.splits)
    have w: "walk over again visit tab (rest @ kids tab pid) (pid # seen) acc1 t2 = (Inr res, t')"
      using "1.prems"(1) Cons o new v by (subst (asm) walk.simps) simp
    have pq: "past @ pid # rest = concat (map (kids tab) (top_pid # past))"
      using "1.prems"(2) Cons by simp
    then have "pid \<in> set (concat (map (kids tab) (top_pid # past)))" by (metis in_set_conv_decomp)
    then have "\<exists>q \<in> set (top_pid # past). pid \<in> set (kids tab q)" by auto
    moreover have np: "pid \<notin> set past" using new "1.prems"(3) by simp
    ultimately have R: "R (past @ [pid]) acc1 t2"
      using step [OF "1.prems"(5)] o v by blast
    have "(past @ [pid]) @ rest @ kids tab pid = concat (map (kids tab) (top_pid # past @ [pid]))"
      using pq by simp
    moreover have "set (pid # seen) = set (past @ [pid])" "distinct (past @ [pid])"
      using "1.prems"(3,4) np by auto
    ultimately have "(past @ [pid]) @ rest @ kids tab pid = concat (map (kids tab) (top_pid # past @ [pid]))"
      "set (pid # seen) = set (past @ [pid])" "distinct (past @ [pid])" by blast+
    note IH = "1.IH" [OF Cons o [symmetric] refl new v [symmetric] refl w]
    show ?thesis by (rule IH) (fact | rule step)+
  qed
qed

text \<open>A walk from the top over the tree of a complete table visits every other process once.\<close>

lemma tree_walk_all:
  assumes t: "process_tree tab top_pid" and ps: "ps = concat (map (kids tab) (top_pid # ps))"
    and inside: "set ps \<subseteq> set (pids tab) - {top_pid}"
  shows "set ps = set (pids tab) - {top_pid}"
proof -
  have step: "c \<in> set ps" if "p \<in> set (top_pid # ps)" "c \<in> set (kids tab p)" for p c
  proof -
    have "c \<in> set (concat (map (kids tab) (top_pid # ps)))" using that by auto
    then show ?thesis unfolding ps [symmetric] .
  qed
  have reach: "p \<in> set (top_pid # ps)" if "below (kids tab) top_pid n p" for n p
    using that
  proof (induction rule: below.induct)
    case (below_child n p c)
    from step [OF below_child.IH below_child.hyps(2)] show ?case by simp
  qed simp
  have "set (pids tab) \<subseteq> set (top_pid # ps)" using t reach unfolding process_tree_def by blast
  with inside show ?thesis by auto
qed

lemma tree_walk:
  assumes t: "process_tree tab top_pid"
    and w: "walk over again visit tab (kids tab top_pid) [] acc t = (Inr res, t')"
    and R: "R [] acc t"
    and step: "\<And>past q pid acc t t1 acc1 t2. R past acc t \<Longrightarrow> pid \<notin> set past \<Longrightarrow> pid \<in> set (pids tab) - {top_pid} \<Longrightarrow>
      q \<in> set (top_pid # past) \<Longrightarrow> pid \<in> set (kids tab q) \<Longrightarrow> over t = (None, t1) \<Longrightarrow>
      visit pid acc t1 = (Inr acc1, t2) \<Longrightarrow> R (past @ [pid]) acc1 t2"
  shows "\<exists>ps. distinct ps \<and> set ps = set (pids tab) - {top_pid} \<and> R ps res t'"
proof -
  let ?R = "\<lambda>past acc t. set past \<subseteq> set (pids tab) - {top_pid} \<and> R past acc t"
  have top: "top_pid \<in> set (pids tab)" using t unfolding process_tree_def by (metis list.set_intros(1))
  have "\<exists>ps. ps = concat (map (kids tab) (top_pid # ps)) \<and> distinct ps \<and> ?R ps res t'"
  proof (rule walk_visits [OF w, where past = "[]" and R = ?R])
    fix past pid acc t t1 acc1 t2
    assume a: "?R past acc t" "pid \<notin> set past" "\<exists>q \<in> set (top_pid # past). pid \<in> set (kids tab q)"
      "over t = (None, t1)" "visit pid acc t1 = (Inr acc1, t2)"
    from a(3) obtain q where q: "q \<in> set (top_pid # past)" "pid \<in> set (kids tab q)" by blast
    with a(1) top have "q \<in> set (pids tab)" by auto
    from tree_kids_in [OF t this q(2)] have p: "pid \<in> set (pids tab) - {top_pid}" .
    have "R (past @ [pid]) acc1 t2" using step [OF _ a(2) p q a(4,5)] a(1) by blast
    with a(1) p show "?R (past @ [pid]) acc1 t2" by simp
  qed (use R in simp_all)
  then obtain ps where ps: "ps = concat (map (kids tab) (top_pid # ps))" "distinct ps" "?R ps res t'" by blast
  from tree_walk_all [OF t ps(1)] ps(2,3) show ?thesis by blast
qed

section \<open>What the answers promise\<close>

text \<open>
  The identity of a process is read, then its arguments, then the same identity again, at instants
  from \<open>t\<close> on and before \<open>t'\<close>.
\<close>

definition steady :: "proc_world \<Rightarrow> nat \<Rightarrow> nat \<Rightarrow> int \<Rightarrow> process_identity \<Rightarrow> string list \<Rightarrow> bool" where
  "steady w t t' pid i args \<longleftrightarrow>
     (\<exists>a \<ge> t. a + 3 \<le> t' \<and> fst (read_process_identity w pid a) = Some i
        \<and> fst (read_proc_args w pid (a + 1)) = Some args \<and> fst (read_process_identity w pid (a + 2)) = Some i)"

lemma steady_widen: "steady w t t' pid i args \<Longrightarrow> s \<le> t \<Longrightarrow> t' \<le> s' \<Longrightarrow> steady w s s' pid i args"
  unfolding steady_def by (meson le_trans)

lemma read_current_true:
  assumes "read_current w tab pid t = (True, t1)"
  shows "\<exists>i. map_of (pt_ids tab) pid = Some i \<and> read_process_identity w pid t = (Some i, t1) \<and> t1 = Suc t"
proof -
  obtain i where i: "map_of (pt_ids tab) pid = Some i"
    using assms by (auto simp: read_current_def split: option.splits)
  then have "read_process_identity w pid t = (Some i, t1)"
    using assms by (auto simp: read_current_def split: prod.splits)
  with i identity_later show ?thesis by blast
qed

lemma read_steady_args_true:
  assumes "read_steady_args w tab pid t = (Some args, t3)"
  shows "\<exists>i. map_of (pt_ids tab) pid = Some i \<and> steady w t t3 pid i args \<and> t3 = t + 3"
proof -
  obtain t1 where r1: "read_current w tab pid t = (True, t1)"
    using assms by (auto simp: read_steady_args_def split: prod.splits bool.splits)
  then obtain t2 where r2: "read_proc_args w pid t1 = (Some args, t2)"
    using assms by (auto simp: read_steady_args_def split: prod.splits bool.splits option.splits)
  have r3: "read_current w tab pid t2 = (True, t3)"
    using assms r1 r2 by (auto simp: read_steady_args_def split: prod.splits bool.splits)
  from read_current_true [OF r1] read_current_true [OF r3] args_later [OF r2] r2
  show ?thesis by (auto simp: steady_def intro!: exI [of _ t])
qed

lemma context_stop_later: "context_stop w t = (x, t1) \<Longrightarrow> t1 = Suc t"
  by (simp add: context_stop_def context_over_def)

lemma tree_stop_later: "tree_stop w t = (x, t1) \<Longrightarrow> t1 = Suc t"
  by (simp add: tree_stop_def context_over_def)

text \<open>The sessions found so far are those of the arguments that the visited processes kept.\<close>

definition sessions_found ::
    "proc_world \<Rightarrow> process_table \<Rightarrow> nat \<Rightarrow> int list \<Rightarrow> string list \<Rightarrow> nat \<Rightarrow> bool" where
  "sessions_found w tab s past found t \<longleftrightarrow>
     s \<le> t \<and> distinct found \<and>
     (\<exists>args. (\<forall>p \<in> set past. \<exists>i. map_of (pt_ids tab) p = Some i \<and> steady w s t p i (args p))
        \<and> set found = {x. \<exists>p \<in> set past. exact_zellij_attach_session (args p) = Some x})"

lemma sessions_found_visit:
  assumes f: "sessions_found w tab s past found t" and new: "pid \<notin> set past"
    and o: "context_stop w t = (None, t1)" and v: "visit_session w tab pid found t1 = (Inr found1, t2)"
  shows "sessions_found w tab s (past @ [pid]) found1 t2"
proof -
  obtain args where a: "\<forall>p \<in> set past. \<exists>i. map_of (pt_ids tab) p = Some i \<and> steady w s t p i (args p)"
    "set found = {x. \<exists>p \<in> set past. exact_zellij_attach_session (args p) = Some x}"
    and st: "s \<le> t" "distinct found"
    using f unfolding sessions_found_def by blast
  obtain as where r: "read_steady_args w tab pid t1 = (Some as, t2)"
    and found1: "found1 = (case exact_zellij_attach_session as of None \<Rightarrow> found | Some x \<Rightarrow> List.insert x found)"
    using v by (auto simp: visit_session_def split: prod.splits option.splits)
  obtain i where i: "map_of (pt_ids tab) pid = Some i" "steady w t1 t2 pid i as" "t2 = t1 + 3"
    using read_steady_args_true [OF r] by blast
  have t1: "t1 = Suc t" using context_stop_later [OF o] .
  let ?args = "args(pid := as)"
  have "\<forall>p \<in> set (past @ [pid]). \<exists>i. map_of (pt_ids tab) p = Some i \<and> steady w s t2 p i (?args p)"
  proof
    fix p assume "p \<in> set (past @ [pid])"
    then consider "p = pid" | "p \<in> set past" "p \<noteq> pid" using new by auto
    then show "\<exists>i. map_of (pt_ids tab) p = Some i \<and> steady w s t2 p i (?args p)"
    proof cases
      case 1
      with i st t1 steady_widen [OF i(2), of s t2] show ?thesis by simp
    next
      case 2
      then obtain j where "map_of (pt_ids tab) p = Some j" "steady w s t p j (args p)" using a(1) by blast
      with 2 i t1 steady_widen [of w s t p j "args p" s t2] show ?thesis by simp
    qed
  qed
  moreover have "set found1 = {x. \<exists>p \<in> set (past @ [pid]). exact_zellij_attach_session (?args p) = Some x}"
    using found1 a(2) new by (cases "exact_zellij_attach_session as") (auto split: if_splits)
  moreover have "distinct found1" "s \<le> t2" using found1 st i t1 by (auto split: option.splits)
  ultimately show ?thesis unfolding sessions_found_def by blast
qed

text \<open>
  C19: evidence is exact. Complete evidence of a verified Kitty window names, once each, exactly the
  sessions of the attach commands in one process tree: every entry of that tree was read in this
  observation, and every process below the window kept its identity while its arguments were read.
\<close>

theorem session_evidence_exact:
  assumes o: "observe_zellij_session_evidence w top_pid t = (Some ev, t')"
    and ev: "ev_complete ev" "ev_kitty_verified ev"
  shows "distinct (ev_candidates ev) \<and> (\<exists>tab args. process_tree tab top_pid \<and> observed w t t' tab
    \<and> (\<forall>(p, i) \<in> set (pt_ids tab). p = top_pid \<or> steady w t t' p i (args p))
    \<and> set (ev_candidates ev)
        = {x. \<exists>p \<in> set (pids tab) - {top_pid}. exact_zellij_attach_session (args p) = Some x})"
proof -
  have pos: "0 < top_pid"
    using o ev by (auto simp: observe_zellij_session_evidence_def no_evidence_def split: if_splits)
  obtain tab t1 where tab: "process_table w top_pid t = (Some tab, t1)" and comp: "pt_complete tab"
    using o ev pos by (auto simp: observe_zellij_session_evidence_def no_evidence_def
        split: prod.splits option.splits if_splits)
  have tree: "process_tree tab top_pid" and obs: "observed w t t1 tab" and t1: "t \<le> t1"
    using process_table_tree [OF tab pos] comp by auto
  obtain t2 where r1: "read_current w tab top_pid t1 = (True, t2)"
    using o ev pos tab comp by (auto simp: observe_zellij_session_evidence_def no_evidence_def
        split: prod.splits bool.splits)
  obtain t3 where k: "verify_kitty_process w top_pid t2 = ((True, True), t3)"
    using o ev pos tab comp r1 by (auto simp: observe_zellij_session_evidence_def no_evidence_def
        split: prod.splits if_splits)
  obtain found t4 where wk: "walk (context_stop w) Uncertain (visit_session w tab) tab (kids tab top_pid) [] [] t3 = (Inr found, t4)"
    using o ev pos tab comp r1 k by (auto simp: observe_zellij_session_evidence_def no_evidence_def
        split: prod.splits sum.splits stop_reason.splits)
  obtain t5 where r2: "read_current w tab top_pid t4 = (True, t5)"
    and res: "ev_candidates ev = sort_strings found" "t' = t5"
    using o ev pos tab comp r1 k wk by (auto simp: observe_zellij_session_evidence_def no_evidence_def
        split: prod.splits bool.splits)
  have t3: "t2 \<le> t3" using k by (auto simp: verify_kitty_process_def Let_def
      split: if_splits option.splits prod.splits dest!: file_later)
  obtain ps where ps: "set ps = set (pids tab) - {top_pid}" "sessions_found w tab t3 ps found t4"
  proof -
    have "\<exists>ps. distinct ps \<and> set ps = set (pids tab) - {top_pid} \<and> sessions_found w tab t3 ps found t4"
      by (rule tree_walk [OF tree wk, where R = "sessions_found w tab t3"])
        (use sessions_found_visit in \<open>blast | simp add: sessions_found_def\<close>)+
    then show ?thesis using that by blast
  qed
  obtain args where args: "\<forall>p \<in> set ps. \<exists>i. map_of (pt_ids tab) p = Some i \<and> steady w t3 t4 p i (args p)"
    "set found = {x. \<exists>p \<in> set ps. exact_zellij_attach_session (args p) = Some x}" "t3 \<le> t4" "distinct found"
    using ps(2) unfolding sessions_found_def by blast
  have times: "t \<le> t3" "t1 \<le> t'" "t4 \<le> t'"
    using read_current_true [OF r1] read_current_true [OF r2] t1 t3 args(3) res by auto
  have "p = top_pid \<or> steady w t t' p i (args p)" if "(p, i) \<in> set (pt_ids tab)" for p i
  proof -
    have d: "distinct (map fst (pt_ids tab))" using tree_distinct [OF tree] unfolding pids_def .
    have "p \<in> set (pids tab)" using that by (force simp: pids_def)
    with args(1) ps(1) consider "p = top_pid" | j where "map_of (pt_ids tab) p = Some j" "steady w t3 t4 p j (args p)"
      by blast
    then show ?thesis
      using map_of_is_SomeI [OF d that] steady_widen [of w t3 t4 p i "args p" t t'] times by cases auto
  qed
  moreover have "observed w t t' tab" using obs times(2) unfolding observed_def by (fastforce intro: le_trans)
  ultimately show ?thesis using tree res args(2,4) ps(1) by (auto intro!: exI [of _ tab] exI [of _ args])
qed

text \<open>Every process stands behind its parent.\<close>

definition parents_first :: "(int \<Rightarrow> int list) \<Rightarrow> int \<Rightarrow> int list \<Rightarrow> bool" where
  "parents_first k top_pid ps \<longleftrightarrow>
     (\<forall>m < length ps. \<exists>q \<in> insert top_pid (set (take m ps)). ps ! m \<in> set (k q))"

lemma parents_first_snoc:
  assumes "parents_first k top_pid ps" and "q \<in> set (top_pid # ps)" and "pid \<in> set (k q)"
  shows "parents_first k top_pid (ps @ [pid])"
  unfolding parents_first_def
proof (intro allI impI)
  fix m assume "m < length (ps @ [pid])"
  then consider "m < length ps" | "m = length ps" by fastforce
  then show "\<exists>q \<in> insert top_pid (set (take m (ps @ [pid]))). (ps @ [pid]) ! m \<in> set (k q)"
    using assms by cases (auto simp: parents_first_def nth_append)
qed

lemma child_behind:
  assumes t: "process_tree tab top_pid" and pf: "parents_first (kids tab) top_pid ps" and d: "distinct ps"
    and ps: "set ps = set (pids tab) - {top_pid}" and k: "k < length ps" and c: "c \<in> set (kids tab (ps ! k))"
  shows "\<exists>m. k < m \<and> m < length ps \<and> ps ! m = c"
proof -
  have pk: "ps ! k \<in> set (pids tab)" "ps ! k \<noteq> top_pid" using ps nth_mem [OF k] by auto
  have "c \<in> set ps" using tree_kids_in [OF t pk(1) c] ps by simp
  then obtain m where m: "m < length ps" "ps ! m = c" by (auto simp: in_set_conv_nth)
  then obtain q where q: "q \<in> insert top_pid (set (take m ps))" "c \<in> set (kids tab q)"
    using pf by (auto simp: parents_first_def)
  have "set (take m ps) \<subseteq> set (pids tab)" using ps set_take_subset [of m ps] by auto
  moreover have "top_pid \<in> set (pids tab)" using t unfolding process_tree_def by (metis list.set_intros(1))
  ultimately have qin: "q \<in> set (pids tab)" using q(1) by auto
  obtain i where i: "(c, i) \<in> set (pt_ids tab)"
    using \<open>c \<in> set ps\<close> ps by (auto simp: pids_def)
  have "q = ps ! k" using tree_parent [OF t i qin q(2)] tree_parent [OF t i pk(1) c] by simp
  with q(1) pk(2) have "ps ! k \<in> set (take m ps)" by simp
  then obtain j where j: "j < m" "j < length ps" "ps ! j = ps ! k" by (auto simp: in_set_conv_nth)
  then have "j = k" using d k nth_eq_iff_index_eq by blast
  with j m show ?thesis by blast
qed

text \<open>
  C38: clean-up order. \<open>DescendantPIDs\<close> lists every process below the root exactly once, and never a
  process before one of its descendants.
\<close>

theorem descendants_leaves_first:
  assumes d: "descendant_pids w top_pid t = (Inr out, t')" and pos: "0 < top_pid"
  shows "distinct out \<and> (\<exists>tab. process_tree tab top_pid \<and> observed w t t' tab
    \<and> set out = set (pids tab) - {top_pid}
    \<and> (\<forall>j < length out. \<forall>c \<in> set (kids tab (out ! j)). c \<in> set (take j out)))"
proof -
  obtain tab t1 where tab: "process_table w top_pid t = (Some tab, t1)" and comp: "pt_complete tab"
    using d by (auto simp: descendant_pids_def split: prod.splits option.splits if_splits)
  have tree: "process_tree tab top_pid" and obs: "observed w t t1 tab"
    using process_table_tree [OF tab pos] comp by auto
  obtain res where wk: "walk (\<lambda>t. (None, t)) Tree_Repeated (\<lambda>pid out t. (Inr (out @ [pid]), t)) tab
      (kids tab top_pid) [] [] t1 = (Inr res, t')" and out: "out = rev res"
    using d tab comp by (auto simp: descendant_pids_def split: prod.splits sum.splits)
  have "\<exists>ps. distinct ps \<and> set ps = set (pids tab) - {top_pid}
      \<and> (res = ps \<and> t' = t1 \<and> parents_first (kids tab) top_pid ps)"
    by (rule tree_walk [OF tree wk, where R = "\<lambda>past acc u. acc = past \<and> u = t1 \<and> parents_first (kids tab) top_pid past"])
      (use parents_first_snoc in \<open>auto simp: parents_first_def\<close>)
  then have res: "distinct res" "set res = set (pids tab) - {top_pid}" "t' = t1"
    "parents_first (kids tab) top_pid res" by auto
  have "c \<in> set (take j out)" if j: "j < length out" "c \<in> set (kids tab (out ! j))" for j c
  proof -
    let ?k = "length res - Suc j"
    have k: "?k < length res" "out ! j = res ! ?k" using j(1) out by (auto simp: rev_nth)
    obtain m where m: "?k < m" "m < length res" "res ! m = c"
      using child_behind [OF tree res(4,1,2) k(1)] j(2) k(2) by auto
    let ?i = "length res - Suc m"
    have "out ! ?i = c" "?i < j" "?i < length out" using m j(1) out by (auto simp: rev_nth)
    then show ?thesis by (auto simp: in_set_conv_nth intro!: exI [of _ ?i])
  qed
  then show ?thesis using tree obs res out by auto
qed

text \<open>The observed processes, while the walk goes on.\<close>

definition described :: "process_identity \<Rightarrow> descendant \<Rightarrow> bool" where
  "described i d \<longleftrightarrow> ds_parent d = pi_parent i \<and> ds_start d = pi_start i"

definition processes_found ::
    "proc_world \<Rightarrow> process_table \<Rightarrow> int \<Rightarrow> nat \<Rightarrow> int list \<Rightarrow> descendant list \<Rightarrow> nat \<Rightarrow> bool" where
  "processes_found w tab top_pid s past found t \<longleftrightarrow>
     s \<le> t \<and> map ds_pid found = past \<and> parents_first (kids tab) top_pid past
     \<and> (\<forall>d \<in> set found. \<exists>i. map_of (pt_ids tab) (ds_pid d) = Some i \<and> described i d
          \<and> steady w s t (ds_pid d) i (ds_args d))"

lemma processes_found_visit:
  assumes f: "processes_found w tab top_pid s past found t"
    and q: "q \<in> set (top_pid # past)" "pid \<in> set (kids tab q)"
    and o: "tree_stop w t = (None, t1)" and v: "visit_process w tab pid found t1 = (Inr found1, t2)"
  shows "processes_found w tab top_pid s (past @ [pid]) found1 t2"
proof -
  obtain as where r: "read_steady_args w tab pid t1 = (Some as, t2)"
    using v by (auto simp: visit_process_def split: prod.splits option.splits)
  obtain i where i: "map_of (pt_ids tab) pid = Some i" "steady w t1 t2 pid i as" "t2 = t1 + 3"
    using read_steady_args_true [OF r] by blast
  have found1: "found1 = found @ [\<lparr>ds_pid = pid, ds_parent = pi_parent i, ds_start = pi_start i, ds_args = as\<rparr>]"
    using v r i(1) by (simp add: visit_process_def)
  have later: "s \<le> t1" "t \<le> t2" "t1 \<le> t2"
    using f i(3) tree_stop_later [OF o] by (auto simp: processes_found_def)
  have old: "\<exists>i. map_of (pt_ids tab) (ds_pid d) = Some i \<and> described i d \<and> steady w s t2 (ds_pid d) i (ds_args d)"
    if "d \<in> set found" for d
    using f that steady_widen [OF _ le_refl later(2)] unfolding processes_found_def by blast
  have "steady w s t2 pid i as" by (rule steady_widen [OF i(2)]) (use later in auto)
  moreover have "parents_first (kids tab) top_pid (past @ [pid])"
    using f parents_first_snoc [of "kids tab" top_pid past q pid] q by (simp only: processes_found_def)
  moreover have "map ds_pid found1 = past @ [pid]" using f found1 by (simp add: processes_found_def)
  ultimately show ?thesis using i(1) later old unfolding found1 by (auto simp: processes_found_def described_def)
qed

lemma recheck_later: "recheck w tab ps t = (x, t1) \<Longrightarrow> t \<le> t1"
proof (induction ps arbitrary: t)
  case (Cons p ps)
  show ?case
  proof (cases "ps_cancelled (w t)")
    case False
    then obtain b t2 where r: "read_current w tab p (Suc t) = (b, t2)" by (cases "read_current w tab p (Suc t)")
    then have "Suc t \<le> t2"
      by (auto simp: read_current_def split: option.splits prod.splits dest!: identity_later)
    with Cons False r show ?thesis by (cases b) (fastforce simp: context_over_def)+
  qed (use Cons.prems in \<open>simp add: context_over_def\<close>)
qed simp

lemma recheck_all:
  "recheck w tab ps t = (None, t1) \<Longrightarrow> p \<in> set ps \<Longrightarrow>
     \<exists>i a. map_of (pt_ids tab) p = Some i \<and> t \<le> a \<and> a < t1 \<and> fst (read_process_identity w p a) = Some i"
proof (induction w tab ps t rule: recheck.induct)
  case (2 w tab pid ps t)
  obtain t2 where c: "context_over w t = (False, Suc t)" and r: "read_current w tab pid (Suc t) = (True, t2)"
    and k: "recheck w tab ps t2 = (None, t1)"
    using "2.prems"(1) by (auto simp: context_over_def split: bool.splits prod.splits)
  from read_current_true [OF r] obtain i where i: "map_of (pt_ids tab) pid = Some i"
    "read_process_identity w pid (Suc t) = (Some i, t2)" "t2 = Suc (Suc t)" by blast
  show ?case
  proof (cases "p = pid")
    case True
    with i recheck_later [OF k] show ?thesis by (intro exI [of _ i] exI [of _ "Suc t"]) auto
  next
    case False
    with "2.IH" [OF c [symmetric] refl r [symmetric] refl k] "2.prems"(2)
    obtain j a where "map_of (pt_ids tab) p = Some j" "t2 \<le> a" "a < t1" "fst (read_process_identity w p a) = Some j"
      by auto
    with i(3) show ?thesis by (intro exI [of _ j] exI [of _ a]) simp
  qed
qed simp

lemma found_tree_order:
  assumes t: "process_tree tab top_pid" and f: "processes_found w tab top_pid s ps ds t1"
    and ps: "distinct ps" "set ps = set (pids tab) - {top_pid}"
  shows "tree_order top_pid ds"
proof -
  have pids: "map ds_pid ds = ps" and pf: "parents_first (kids tab) top_pid ps"
    using f by (auto simp: processes_found_def)
  have top: "top_pid \<in> set (pids tab)" using t unfolding process_tree_def by (metis list.set_intros(1))
  have "ds_parent (ds ! m) \<in> insert top_pid (set (map ds_pid (take m ds)))" if m: "m < length ds" for m
  proof -
    have len: "length ps = length ds" "ps ! m = ds_pid (ds ! m)" using pids m by auto
    have "\<exists>q \<in> insert top_pid (set (take m ps)). ps ! m \<in> set (kids tab q)"
      using pf m len(1) unfolding parents_first_def by simp
    then obtain q where q: "q \<in> insert top_pid (set (take m ps))" "ds_pid (ds ! m) \<in> set (kids tab q)"
      unfolding len(2) by blast
    obtain i where i: "map_of (pt_ids tab) (ds_pid (ds ! m)) = Some i" "described i (ds ! m)"
      using f nth_mem [OF m] by (auto simp: processes_found_def)
    have "q \<in> set (pids tab)" using q(1) top ps(2) set_take_subset [of m ps] by auto
    from tree_parent [OF t map_of_SomeD [OF i(1)] this q(2)] i(2) have "ds_parent (ds ! m) = q"
      by (simp add: described_def)
    with q(1) pids show ?thesis by (simp add: take_map [symmetric])
  qed
  with ps(1) pids show ?thesis by (auto simp: tree_order_def list_all_iff)
qed

lemma observe_found:
  assumes o: "observe_descendant_processes order w top_pid t = (Inr ds, t')"
  shows "\<exists>tab t2 m ps. process_tree tab top_pid \<and> observed w t m tab \<and> t \<le> t2 \<and> distinct ps
    \<and> set ps = set (pids tab) - {top_pid} \<and> processes_found w tab top_pid t2 ps ds m
    \<and> recheck w tab (order (pids tab)) m = (None, t')"
proof -
  have pos: "0 < top_pid" using o by (auto simp: observe_descendant_processes_def split: if_splits)
  obtain tab t1 where tab: "process_table w top_pid t = (Some tab, t1)" and comp: "pt_complete tab"
    using o pos by (auto simp: observe_descendant_processes_def split: prod.splits option.splits if_splits)
  have tree: "process_tree tab top_pid" and obs: "observed w t t1 tab" and t1: "t \<le> t1"
    using process_table_tree [OF tab pos] comp by auto
  obtain t2 where r1: "read_current w tab top_pid t1 = (True, t2)"
    using o pos tab comp by (auto simp: observe_descendant_processes_def split: prod.splits bool.splits)
  obtain m where wk: "walk (tree_stop w) Tree_Repeated (visit_process w tab) tab (kids tab top_pid) [] [] t2 = (Inr ds, m)"
    and rc: "recheck w tab (order (pids tab)) m = (None, t')"
    using o pos tab comp r1
    by (auto simp: observe_descendant_processes_def pids_def split: prod.splits sum.splits option.splits)
  have t2: "t \<le> t2" "t1 \<le> t2" using read_current_true [OF r1] t1 by auto
  have "\<exists>ps. distinct ps \<and> set ps = set (pids tab) - {top_pid} \<and> processes_found w tab top_pid t2 ps ds m"
  proof (rule tree_walk [OF tree wk, where R = "processes_found w tab top_pid t2"])
    show "processes_found w tab top_pid t2 [] [] t2" by (simp add: processes_found_def parents_first_def)
  qed (rule processes_found_visit)
  then obtain ps where ps: "distinct ps" "set ps = set (pids tab) - {top_pid}"
    "processes_found w tab top_pid t2 ps ds m" by blast
  then have "t2 \<le> m" by (simp add: processes_found_def)
  with obs t2 have "observed w t m tab" unfolding observed_def by (fastforce intro: le_trans)
  with tree ps rc t2(1) show ?thesis by blast
qed

lemma observe_ordered:
  assumes "observe_descendant_processes order w top_pid t = (Inr ds, t')"
  shows "tree_order top_pid ds"
proof -
  from observe_found [OF assms] obtain tab t2 m ps where "process_tree tab top_pid"
    "processes_found w tab top_pid t2 ps ds m" "distinct ps" "set ps = set (pids tab) - {top_pid}" by (elim exE conjE)
  then show ?thesis by (rule found_tree_order)
qed

text \<open>
  C20: descendants are a consistent cut. The processes that \<open>ObserveDescendantProcesses\<close> answers are
  all processes below the root of one process tree, every parent before its children. There is an
  instant at which every process of the tree was present: each had its identity before it (with the
  arguments reported), and has the same identity at a reading after it.
\<close>

theorem descendants_consistent:
  assumes o: "observe_descendant_processes order w top_pid t = (Inr ds, t')"
    and order: "\<And>xs. set (order xs) = set xs"
  shows "tree_order top_pid ds \<and> (\<exists>tab m. process_tree tab top_pid \<and> observed w t m tab
    \<and> set (map ds_pid ds) = set (pids tab) - {top_pid}
    \<and> (\<forall>d \<in> set ds. steady w t m (ds_pid d) \<lparr>pi_parent = ds_parent d, pi_start = ds_start d\<rparr> (ds_args d))
    \<and> (\<forall>(p, i) \<in> set (pt_ids tab). \<exists>a \<ge> m. a < t' \<and> fst (read_process_identity w p a) = Some i))"
proof -
  obtain tab t2 m ps where tree: "process_tree tab top_pid" and obs: "observed w t m tab" and t2: "t \<le> t2"
    and ps: "distinct ps" "set ps = set (pids tab) - {top_pid}" "processes_found w tab top_pid t2 ps ds m"
    and rc: "recheck w tab (order (pids tab)) m = (None, t')"
    using observe_found [OF o] by blast
  have "steady w t m (ds_pid d) \<lparr>pi_parent = ds_parent d, pi_start = ds_start d\<rparr> (ds_args d)" if d: "d \<in> set ds" for d
  proof -
    obtain i where i: "described i d" "steady w t2 m (ds_pid d) i (ds_args d)"
      using ps(3) d by (auto simp: processes_found_def)
    then have "i = \<lparr>pi_parent = ds_parent d, pi_start = ds_start d\<rparr>" by (simp add: described_def)
    with steady_widen [OF i(2) t2 le_refl] show ?thesis by simp
  qed
  moreover have "\<exists>a \<ge> m. a < t' \<and> fst (read_process_identity w p a) = Some i" if pi: "(p, i) \<in> set (pt_ids tab)" for p i
  proof -
    have "distinct (map fst (pt_ids tab))" using tree_distinct [OF tree] unfolding pids_def .
    from map_of_is_SomeI [OF this pi] have "map_of (pt_ids tab) p = Some i" .
    moreover have "p \<in> set (order (pids tab))" using pi order unfolding pids_def by force
    ultimately show ?thesis using recheck_all [OF rc] by fastforce
  qed
  moreover have "set (map ds_pid ds) = set (pids tab) - {top_pid}"
    using ps(2,3) by (simp add: processes_found_def)
  ultimately show ?thesis using tree obs observe_ordered [OF o] by (intro conjI exI [of _ tab] exI [of _ m]) auto
qed

section \<open>The inspection of a window over the process tree\<close>

text \<open>
  What the inspection of a local window relies on: parents stand before their children. The bounded
  observer provides it, so that the climb to the helpers ends.
\<close>

locale process_observer =
  fixes observe :: "int \<Rightarrow> bool \<Rightarrow> failure + descendant list"
  assumes ordered: "observe pid again = Inr ds \<Longrightarrow> tree_order pid ds"
begin

lemma inspection_ends:
  "lt_processes tools = observe \<Longrightarrow> inspect_projection_window tools window cfg \<noteq> None"
  by (rule inspection_returns) (simp add: ordered)

end

definition proc_observer ::
    "(tree_error \<Rightarrow> failure) \<Rightarrow> (int list \<Rightarrow> int list) \<Rightarrow> (int \<Rightarrow> bool \<Rightarrow> proc_world \<times> nat)
     \<Rightarrow> int \<Rightarrow> bool \<Rightarrow> failure + descendant list"
where
  "proc_observer fail order look pid again =
     map_sum fail id (fst (observe_descendant_processes order (fst (look pid again)) pid (snd (look pid again))))"

interpretation proc: process_observer "proc_observer fail order look" for fail order look
proof
  fix pid again ds assume "proc_observer fail order look pid again = Inr ds"
  then have "fst (observe_descendant_processes order (fst (look pid again)) pid (snd (look pid again))) = Inr ds"
    by (auto simp: proc_observer_def map_sum_def split: sum.splits)
  then show "tree_order pid ds" using observe_ordered by (metis prod.collapse)
qed

text \<open>
  C39: the inspection of a window ends over every process file system, whatever it answers while it is
  read: the search for a helper among the ancestors of a process never runs in a circle.
\<close>

theorem inspection_of_proc_ends:
  "inspect_projection_window (tools\<lparr>lt_processes := proc_observer fail order look\<rparr>) window cfg \<noteq> None"
  by (rule proc.inspection_ends [of _ fail order look]) simp

section \<open>Matching arguments\<close>

lemma walk_stops:
  assumes "walk over again visit tab queue seen acc t = (Inl e, t')" and "\<And>u. u \<le> snd (over u)"
    and "\<And>pid acc u. u \<le> snd (visit pid acc u)"
  shows "e = again \<or> (\<exists>u. fst (over u) = Some e) \<or> (\<exists>pid acc u. t \<le> u \<and> visit pid acc u = (Inl e, t'))"
  using assms
proof (induction over again visit tab queue seen acc t rule: walk.induct)
  case (1 over again visit tab queue seen acc t)
  show ?case
  proof (cases queue)
    case Nil
    with "1.prems"(1) show ?thesis by (simp add: walk.simps)
  next
    case (Cons pid rest)
    obtain x t1 where o: "over t = (x, t1)" by (cases "over t")
    obtain y t2 where v: "visit pid acc t1 = (y, t2)" by (cases "visit pid acc t1")
    have later: "t \<le> t1" "t1 \<le> t2" using "1.prems"(2) [of t] "1.prems"(3) [of t1 pid acc] o v by simp_all
    consider e1 where "x = Some e1" | "x = None" "pid \<in> set seen" | e1 where "x = None" "pid \<notin> set seen" "y = Inl e1"
      | acc1 where "x = None" "pid \<notin> set seen" "y = Inr acc1"
      by (cases x; cases y) auto
    then show ?thesis
    proof cases
      case (1 e1)
      with "1.prems"(1) Cons o have "fst (over t) = Some e" by (subst (asm) walk.simps) simp
      then show ?thesis by blast
    next
      case 2
      with "1.prems"(1) Cons o show ?thesis by (subst (asm) walk.simps) simp
    next
      case (3 e1)
      with "1.prems"(1) Cons o v have "visit pid acc t1 = (Inl e, t')" by (subst (asm) walk.simps) simp
      with later(1) show ?thesis by blast
    next
      case go: (4 acc1)
      have w: "walk over again visit tab (rest @ kids tab pid) (pid # seen) acc1 t2 = (Inl e, t')"
        using "1.prems"(1) Cons o go v by (subst (asm) walk.simps) simp
      from "1.IH" [OF Cons o [symmetric] go(1) go(2) v [symmetric] go(3) w "1.prems"(2,3)] later
      consider "e = again" | "\<exists>u. fst (over u) = Some e" | "\<exists>pid acc u. t2 \<le> u \<and> visit pid acc u = (Inl e, t')"
        by blast
      then show ?thesis
      proof cases
        case 3
        then obtain p a u where "t2 \<le> u" "visit p a u = (Inl e, t')" by blast
        moreover from this(1) later have "t \<le> u" by simp
        ultimately show ?thesis by blast
      qed blast+
    qed
  qed
qed

text \<open>
  A match is real. \<open>DescendantArgvMatch\<close> answers true only if some process below the root, in a
  process tree read by this call, kept its identity while arguments that match were read.
\<close>

theorem argv_match_sound:
  assumes d: "descendant_argv_match (Some match) w top_pid t = (Some True, t')"
  shows "\<exists>tab p i args. process_tree tab top_pid \<and> observed w t t' tab \<and> (p, i) \<in> set (pt_ids tab)
    \<and> steady w t t' p i args \<and> match args"
proof -
  have pos: "0 < top_pid" using d by (auto simp: descendant_argv_match_def split: if_splits)
  obtain tab t1 where tab: "process_table w top_pid t = (Some tab, t1)" and comp: "pt_complete tab"
    using d pos by (auto simp: descendant_argv_match_def split: prod.splits option.splits if_splits)
  have tree: "process_tree tab top_pid" and obs: "observed w t t1 tab" and t1: "t \<le> t1"
    using process_table_tree [OF tab pos] comp by auto
  obtain t2 where r: "read_current w tab top_pid t1 = (True, t2)"
    using d pos tab comp by (auto simp: descendant_argv_match_def split: prod.splits bool.splits)
  have wk: "walk (context_stop w) Uncertain (visit_match match w tab) tab (kids tab top_pid) [] () t2 = (Inl Matched, t')"
    using d pos tab comp r by (auto simp: descendant_argv_match_def split: prod.splits sum.splits stop_reason.splits)
  have later: "u \<le> snd (visit_match match w tab pid acc u)" for pid acc u
    by (auto simp: visit_match_def read_steady_args_def read_current_def
        split: prod.splits option.splits bool.splits if_splits dest!: identity_later args_later)
  have "u \<le> snd (context_stop w u)" for u by (simp add: context_stop_def context_over_def)
  from walk_stops [OF wk this later]
  have "\<exists>pid acc u. t2 \<le> u \<and> visit_match match w tab pid acc u = (Inl Matched, t')"
    by (auto simp: context_stop_def context_over_def split: if_splits)
  then obtain pid u where u: "t2 \<le> u" "visit_match match w tab pid () u = (Inl Matched, t')" by auto
  then obtain args where a: "read_steady_args w tab pid u = (Some args, t')" "match args"
    by (auto simp: visit_match_def split: prod.splits option.splits if_splits)
  obtain i where i: "map_of (pt_ids tab) pid = Some i" "steady w u t' pid i args" "t' = u + 3"
    using read_steady_args_true [OF a(1)] by blast
  have times: "t \<le> u" "t1 \<le> t'" using read_current_true [OF r] t1 u(1) i(3) by auto
  have "steady w t t' pid i args" using steady_widen [OF i(2) times(1) le_refl] .
  moreover have "observed w t t' tab" using obs times(2) unfolding observed_def by (fastforce intro: le_trans)
  ultimately show ?thesis using tree map_of_SomeD [OF i(1)] a(2) by blast
qed

section \<open>Examples\<close>

text \<open>A window 7 with a shell 8 that runs the attach command as process 9.\<close>

definition ex_file :: "int \<Rightarrow> proc_file \<Rightarrow> string option" where
  "ex_file pid f =
     (case f of
        Stat_File \<Rightarrow> (if pid = 7 then Some ''7 (kitty) S 1'' else if pid = 8 then Some ''8 (sh) S 7''
                       else if pid = 9 then Some ''9 (a) b) S 8'' else None)
      | Cmdline_File \<Rightarrow>
          (if pid = 9 then Some (''/bin/zellij'' @ [CHR 0x00] @ ''attach'' @ [CHR 0x00] @ ''--'' @ [CHR 0x00] @ ''work'' @ [CHR 0x00])
           else Some ''sh'')
      | Comm_File \<Rightarrow> Some ''kitty''
      | Children_File name \<Rightarrow> (if pid = 7 then Some ''8 '' else if pid = 8 then Some ''9 '' else Some []))"

definition ex_proc :: proc_world where
  "ex_proc t = \<lparr>ps_file = ex_file, ps_exe = (\<lambda>pid. None), ps_tasks = (\<lambda>pid. Some [(''1'', True)]), ps_cancelled = False\<rparr>"

lemma ex_evidence_run: "observe_zellij_session_evidence ex_proc 7 0
    = (Some \<lparr>ev_kitty_verified = True, ev_candidates = [''work''], ev_complete = True\<rparr>, 25)"
  by code_simp

lemma session_evidence_exact_witness:
  "\<exists>tab args. process_tree tab 7 \<and> observed ex_proc 0 25 tab
    \<and> set [''work''] = {x. \<exists>p \<in> set (pids tab) - {7}. exact_zellij_attach_session (args p) = Some x}"
proof -
  have "ev_complete \<lparr>ev_kitty_verified = True, ev_candidates = [''work''], ev_complete = True\<rparr>"
    "ev_kitty_verified \<lparr>ev_kitty_verified = True, ev_candidates = [''work''], ev_complete = True\<rparr>" by simp_all
  from session_evidence_exact [OF ex_evidence_run this] show ?thesis
    unfolding session_evidence.simps by (elim conjE exE) (intro exI conjI)
qed

lemma ex_descendants_run: "descendant_pids ex_proc 7 0 = (Inr [9, 8], 13)"
  by code_simp

lemma descendants_leaves_first_witness:
  "distinct [9 :: int, 8] \<and> (\<exists>tab. process_tree tab 7 \<and> observed ex_proc 0 13 tab \<and> {9, 8} = set (pids tab) - {7})"
  using descendants_leaves_first [OF ex_descendants_run] by auto

lemma ex_observe_run: "observe_descendant_processes rev ex_proc 7 0
    = (Inr [\<lparr>ds_pid = 8, ds_parent = 7, ds_start = ''S 7'', ds_args = [''sh'']\<rparr>,
            \<lparr>ds_pid = 9, ds_parent = 8, ds_start = ''S 8'', ds_args = [''/bin/zellij'', ''attach'', ''--'', ''work'']\<rparr>], 28)"
  by code_simp

lemma descendants_consistent_witness:
  "tree_order 7 [\<lparr>ds_pid = 8, ds_parent = 7, ds_start = ''S 7'', ds_args = [''sh'']\<rparr>,
     \<lparr>ds_pid = 9, ds_parent = 8, ds_start = ''S 8'', ds_args = [''/bin/zellij'', ''attach'', ''--'', ''work'']\<rparr>]
   \<and> (\<exists>tab m. process_tree tab 7 \<and> observed ex_proc 0 m tab)"
  using descendants_consistent [OF ex_observe_run set_rev] by (elim conjE exE) (intro conjI exI)

lemma ex_match_run:
  "descendant_argv_match (Some (\<lambda>args. exact_zellij_attach_session args = Some ''work'')) ex_proc 7 0 = (Some True, 22)"
  by code_simp

lemma argv_match_sound_witness:
  "\<exists>tab p i args. process_tree tab 7 \<and> (p, i) \<in> set (pt_ids tab) \<and> steady ex_proc 0 22 p i args
     \<and> exact_zellij_attach_session args = Some ''work''"
  using argv_match_sound [OF ex_match_run] by blast

end
