(* ===== verification/Input_Gate.thy ===== *)
theory Input_Gate
  imports Go_Prelude
begin

text \<open>
  The input side of a persistent session view, \<open>internal/mirror/session_terminal.go\<close>: the gate that
  labels every byte typed at the physical terminal with the generation of the attachment it was
  typed for, and keeps a bracketed paste in one generation. Each byte comes with the reading of
  the clock that \<open>decode\<close> would take for it. The mutex serialises the operations, so each is one
  step here. Reading the terminal is the answer of the operating system, \<open>read_outcome\<close>.
\<close>

section \<open>Data\<close>

definition paste_start :: string where
  "paste_start = CHR 0x1B # ''[200~''"

definition paste_end :: string where
  "paste_end = CHR 0x1B # ''[201~''"

record session_input =
  in_generation :: "64 word"
  in_data :: string
  in_paste :: bool

record gate =
  gt_generation :: "64 word"
  gt_next :: "64 word"
  gt_paste :: bool
  gt_paste_generation :: "64 word"
  gt_prefix :: string
  gt_prefix_generation :: "64 word"
  gt_prefix_at :: gotime

definition session_prefix_timeout :: duration where
  "session_prefix_timeout = 30 * 1000000"

section \<open>Operations\<close>

definition flush_prefix :: "gotime \<Rightarrow> gate \<Rightarrow> session_input list \<times> gate" where
  "flush_prefix now g =
     (if gt_prefix g = [] \<or> time_sub now (gt_prefix_at g) < session_prefix_timeout then ([], g)
      else ([\<lparr>in_generation = gt_prefix_generation g, in_data = gt_prefix g, in_paste = gt_paste g\<rparr>],
            g\<lparr>gt_prefix := []\<rparr>))"

definition close_gate :: "gate \<Rightarrow> gate" where
  "close_gate g = g\<lparr>gt_generation := 0\<rparr>"

definition emit :: "session_input list \<Rightarrow> string \<Rightarrow> 64 word \<Rightarrow> bool \<Rightarrow> session_input list" where
  "emit items data epoch paste =
     (if items \<noteq> [] \<and> in_generation (last items) = epoch \<and> in_paste (last items) = paste
      then butlast items @ [(last items)\<lparr>in_data := in_data (last items) @ data\<rparr>]
      else items @ [\<lparr>in_generation = epoch, in_data = data, in_paste = paste\<rparr>])"

text \<open>\<open>for len(g.prefix) > 0\<close>: what a longer prefix settles.\<close>

function settle :: "gate \<Rightarrow> session_input list \<Rightarrow> gate \<times> session_input list" where
  "settle g items =
     (if gt_prefix g = [] then (g, items)
      else
        (let target = (if gt_paste g then paste_end else paste_start) in
         if prefix (gt_prefix g) target then
           (if length (gt_prefix g) = length target
            then (g\<lparr>gt_paste_generation :=
                      (if gt_paste g then gt_paste_generation g else gt_prefix_generation g),
                    gt_paste := \<not> gt_paste g, gt_prefix := []\<rparr>,
                  emit items (gt_prefix g) (gt_prefix_generation g) True)
            else (g, items))
         else settle (g\<lparr>gt_prefix := drop 1 (gt_prefix g)\<rparr>)
                (emit items (take 1 (gt_prefix g)) (gt_prefix_generation g) (gt_paste g))))"
  by pat_completeness auto
termination
  by (relation "measure (\<lambda>(g, items). length (gt_prefix g))") auto

declare settle.simps [simp del]

definition add_byte :: "gate \<Rightarrow> char \<Rightarrow> gotime \<Rightarrow> gate" where
  "add_byte g b now =
     (let epoch = (if gt_paste g then gt_paste_generation g else gt_generation g);
          h = (if gt_prefix g = []
               then g\<lparr>gt_prefix_generation := epoch, gt_prefix_at := now\<rparr> else g)
      in h\<lparr>gt_prefix := gt_prefix h @ [b]\<rparr>)"

fun decode_from :: "gate \<Rightarrow> session_input list \<Rightarrow> (char \<times> gotime) list \<Rightarrow> session_input list \<times> gate"
where
  "decode_from g items [] = (items, g)"
| "decode_from g items ((b, now) # data) =
     (case settle (add_byte g b now) items of (g1, items1) \<Rightarrow> decode_from g1 items1 data)"

definition decode :: "gate \<Rightarrow> (char \<times> gotime) list \<Rightarrow> session_input list \<times> gate" where
  "decode g data = decode_from g [] data"

text \<open>
  \<open>open\<close>: at most sixteen reads drain the terminal; the parsed backlog is discarded. The list holds
  the outcomes of the reads; where it ends, the reads would block.
\<close>

datatype read_outcome =
    Got "(char \<times> gotime) list" | Would_Block | Interrupted | Read_Failed | Terminal_Closed

datatype open_error = Nonblock_Failed | Drain_Failed | Physical_Closed | Generation_Exhausted

fun drain :: "nat \<Rightarrow> read_outcome list \<Rightarrow> gate \<Rightarrow> (open_error + bool) \<times> gate" where
  "drain 0 reads g = (Inr False, g)"
| "drain (Suc n) [] g = (Inr True, g)"
| "drain (Suc n) (r # reads) g =
     (case r of
        Got data \<Rightarrow> drain n reads (snd (decode g data))
      | Would_Block \<Rightarrow> (Inr True, g)
      | Interrupted \<Rightarrow> drain n reads g
      | Read_Failed \<Rightarrow> (Inl Drain_Failed, g)
      | Terminal_Closed \<Rightarrow> (Inl Physical_Closed, g))"

definition open_gate :: "bool \<Rightarrow> read_outcome list \<Rightarrow> gotime \<Rightarrow> gate \<Rightarrow> (open_error + bool) \<times> gate" where
  "open_gate nonblock_ok reads now g =
     (if \<not> nonblock_ok then (Inl Nonblock_Failed, g)
      else case drain 16 reads g of
        (Inl e, g1) \<Rightarrow> (Inl e, g1)
      | (Inr drained, g1) \<Rightarrow>
          (let g2 = snd (flush_prefix now g1) in
           if \<not> drained \<or> gt_paste g2 \<or> gt_prefix g2 \<noteq> [] then (Inr False, g2)
           else
             (let g3 = g2\<lparr>gt_next := gt_next g2 + 1\<rparr> in
              if gt_next g3 = 0 then (Inl Generation_Exhausted, g3)
              else (Inr True, g3\<lparr>gt_generation := gt_next g3\<rparr>))))"

section \<open>Lemmas\<close>

definition payload :: "session_input list \<Rightarrow> string" where
  "payload items = concat (map in_data items)"

lemma payload_simps [simp]:
  "payload [] = []" "payload (xs @ ys) = payload xs @ payload ys" "payload (x # ys) = in_data x @ payload ys"
  by (simp_all add: payload_def)

lemma payload_emit [simp]: "payload (emit items d e p) = payload items @ d"
proof (cases items rule: rev_cases)
  case Nil
  then show ?thesis by (simp add: emit_def)
next
  case (snoc xs x)
  then show ?thesis by (simp add: emit_def)
qed

lemma set_emit:
  assumes "it \<in> set (emit items d e p)"
  shows "(in_generation it = e \<and> in_paste it = p) \<or> it \<in> set items"
proof (cases items rule: rev_cases)
  case Nil
  with assms show ?thesis by (simp add: emit_def)
next
  case (snoc xs x)
  with assms show ?thesis by (auto simp: emit_def split: if_splits)
qed

lemma settle_lossless:
  "settle g items = (g1, items1) \<Longrightarrow> payload items1 @ gt_prefix g1 = payload items @ gt_prefix g"
proof (induction g items arbitrary: g1 items1 rule: settle.induct)
  case (1 g items)
  show ?case
  proof (cases "gt_prefix g = [] \<or> prefix (gt_prefix g) (if gt_paste g then paste_end else paste_start)")
    case True
    with "1.prems" show ?thesis by (subst (asm) settle.simps) (auto simp: Let_def split: if_splits)
  next
    case False
    let ?g = "g\<lparr>gt_prefix := drop 1 (gt_prefix g)\<rparr>"
    let ?items = "emit items (take 1 (gt_prefix g)) (gt_prefix_generation g) (gt_paste g)"
    have "settle ?g ?items = (g1, items1)"
      using "1.prems" False by (subst (asm) settle.simps) (simp add: Let_def)
    with "1.IH" False have "payload items1 @ gt_prefix g1 = payload ?items @ gt_prefix ?g" by simp
    then show ?thesis by (simp add: append_take_drop_id [of 1 "gt_prefix g", unfolded One_nat_def])
  qed
qed

lemma decode_from_lossless:
  "decode_from g items data = (items1, g1) \<Longrightarrow>
     payload items1 @ gt_prefix g1 = payload items @ gt_prefix g @ map fst data"
proof (induction g items data arbitrary: items1 g1 rule: decode_from.induct)
  case (2 g items b now data)
  obtain g2 items2 where s: "settle (add_byte g b now) items = (g2, items2)"
    by (cases "settle (add_byte g b now) items")
  have "payload items1 @ gt_prefix g1 = payload items2 @ gt_prefix g2 @ map fst data"
    using "2.IH" [OF s [symmetric]] "2.prems" s by simp
  moreover have "payload items2 @ gt_prefix g2 = payload items @ gt_prefix g @ [b]"
    using settle_lossless [OF s] by (simp add: add_byte_def Let_def)
  ultimately show ?case by (metis append.assoc append_Cons append_Nil list.simps(9) fst_conv)
qed auto

section \<open>Runs\<close>

text \<open>
  The operations on the gate, in any order: an iteration of \<open>read\<close>, which flushes a prefix that has timed out
  and decodes what it read, if anything; \<open>close\<close>; and \<open>open\<close>. The items of a read are delivered, in order and until
  the context of the terminal ends; those of an opening are discarded.
\<close>

datatype gate_op = Read gotime "(char \<times> gotime) list" | Closed | Opening bool "read_outcome list" gotime

fun is_opening :: "gate_op \<Rightarrow> bool" where
  "is_opening (Opening ok reads now) = True"
| "is_opening op = False"

fun drained :: "nat \<Rightarrow> read_outcome list \<Rightarrow> gate \<Rightarrow> session_input list" where
  "drained 0 reads g = []"
| "drained (Suc n) [] g = []"
| "drained (Suc n) (r # reads) g =
     (case r of
        Got data \<Rightarrow> fst (decode g data) @ drained n reads (snd (decode g data))
      | Interrupted \<Rightarrow> drained n reads g
      | _ \<Rightarrow> [])"

definition discarded :: "bool \<Rightarrow> read_outcome list \<Rightarrow> gotime \<Rightarrow> gate \<Rightarrow> session_input list" where
  "discarded nonblock_ok reads now g =
     (if \<not> nonblock_ok then []
      else drained 16 reads g
           @ (case drain 16 reads g of (Inl e, g1) \<Rightarrow> [] | (Inr b, g1) \<Rightarrow> fst (flush_prefix now g1)))"

definition read_gate :: "gotime \<Rightarrow> (char \<times> gotime) list \<Rightarrow> gate \<Rightarrow> session_input list \<times> gate" where
  "read_gate now data g =
     (case flush_prefix now g of (items, g1) \<Rightarrow> (case decode g1 data of (items1, g2) \<Rightarrow> (items @ items1, g2)))"

definition gate_step :: "gate \<Rightarrow> gate_op \<Rightarrow> session_input list \<times> gate" where
  "gate_step g op =
     (case op of
        Read now data \<Rightarrow> read_gate now data g
      | Closed \<Rightarrow> ([], close_gate g)
      | Opening ok reads now \<Rightarrow> (discarded ok reads now g, snd (open_gate ok reads now g)))"

text \<open>The items of each operation, marked when they are delivered, and the gate after a run.\<close>

fun run_gate :: "gate \<Rightarrow> gate_op list \<Rightarrow> (bool \<times> session_input list) list \<times> gate" where
  "run_gate g [] = ([], g)"
| "run_gate g (op # ops) =
     (case gate_step g op of
        (items, g1) \<Rightarrow> (case run_gate g1 ops of (log, g2) \<Rightarrow> ((\<not> is_opening op, items) # log, g2)))"

text \<open>The bytes an operation takes from the terminal, and the generation that each was typed under.\<close>

fun taken :: "nat \<Rightarrow> read_outcome list \<Rightarrow> string" where
  "taken 0 reads = []"
| "taken (Suc n) [] = []"
| "taken (Suc n) (r # reads) =
     (case r of Got data \<Rightarrow> map fst data @ taken n reads | Interrupted \<Rightarrow> taken n reads | _ \<Rightarrow> [])"

fun typed :: "gate_op \<Rightarrow> string" where
  "typed (Read now data) = map fst data"
| "typed Closed = []"
| "typed (Opening ok reads now) = (if ok then taken 16 reads else [])"

fun origins :: "gate \<Rightarrow> gate_op list \<Rightarrow> 64 word list" where
  "origins g [] = []"
| "origins g (op # ops) = replicate (length (typed op)) (gt_generation g) @ origins (snd (gate_step g op)) ops"

lemma decode_lossless:
  "decode g data = (items, g1) \<Longrightarrow> payload items @ gt_prefix g1 = gt_prefix g @ map fst data"
  using decode_from_lossless [of g "[]" data items g1] by (simp add: decode_def)

lemma flush_lossless: "flush_prefix now g = (items, g1) \<Longrightarrow> payload items @ gt_prefix g1 = gt_prefix g"
  by (auto simp: flush_prefix_def split: if_splits)

lemma drained_lossless:
  "payload (drained n reads g) @ gt_prefix (snd (drain n reads g)) = gt_prefix g @ taken n reads"
proof (induction n reads g rule: drained.induct)
  case (3 n r reads g)
  show ?case
  proof (cases r)
    case (Got data)
    obtain items g1 where d: "decode g data = (items, g1)" by fastforce
    have "payload (drained n reads g1) @ gt_prefix (snd (drain n reads g1)) = gt_prefix g1 @ taken n reads"
      using "3.IH"(1) [OF Got] by (simp add: d)
    moreover have "payload items @ gt_prefix g1 = gt_prefix g @ map fst data" by (rule decode_lossless [OF d])
    ultimately have "payload items @ payload (drained n reads g1) @ gt_prefix (snd (drain n reads g1))
        = gt_prefix g @ map fst data @ taken n reads"
      by (metis append.assoc)
    then show ?thesis by (simp add: Got d)
  qed (use "3.IH"(2) in simp_all)
qed simp_all

lemma open_prefix:
  "gt_prefix (snd (open_gate ok reads now g)) =
     (if \<not> ok then gt_prefix g
      else case drain 16 reads g of
        (Inl e, g1) \<Rightarrow> gt_prefix g1 | (Inr b, g1) \<Rightarrow> gt_prefix (snd (flush_prefix now g1)))"
  by (auto simp: open_gate_def Let_def split: sum.splits prod.splits)

lemma opening_lossless:
  "payload (discarded ok reads now g) @ gt_prefix (snd (open_gate ok reads now g))
   = gt_prefix g @ (if ok then taken 16 reads else [])"
proof (cases ok)
  case True
  obtain r g1 where d: "drain 16 reads g = (r, g1)" by fastforce
  have l: "payload (drained 16 reads g) @ gt_prefix g1 = gt_prefix g @ taken 16 reads"
    using drained_lossless [of 16 reads g] by (simp only: d snd_conv)
  have f: "payload (fst (flush_prefix now g1)) @ gt_prefix (snd (flush_prefix now g1)) = gt_prefix g1"
    by (rule flush_lossless) simp
  show ?thesis using True l f unfolding open_prefix discarded_def d by (cases r) simp_all
qed (simp add: open_prefix discarded_def)

lemma gate_step_lossless:
  assumes "gate_step g op = (items, g1)"
  shows "payload items @ gt_prefix g1 = gt_prefix g @ typed op"
proof (cases op)
  case (Read now data)
  obtain i1 h where f: "flush_prefix now g = (i1, h)" by fastforce
  obtain i2 h2 where d: "decode h data = (i2, h2)" by fastforce
  show ?thesis
    using assms Read flush_lossless [OF f] decode_lossless [OF d] f d by (auto simp: gate_step_def read_gate_def)
next
  case Closed
  with assms show ?thesis by (auto simp: gate_step_def close_gate_def)
next
  case (Opening ok reads now)
  with assms opening_lossless [of ok reads now g] show ?thesis by (simp add: gate_step_def split: if_splits)
qed

section \<open>Pastes and generations\<close>

text \<open>Each byte with its label: the generation and whether it belongs to a paste.\<close>

type_synonym labelled_byte = "char \<times> 64 word \<times> bool"

definition marked :: "64 word \<Rightarrow> bool \<Rightarrow> string \<Rightarrow> labelled_byte list" where
  "marked e p bs = map (\<lambda>b. (b, e, p)) bs"

definition stream :: "session_input list \<Rightarrow> labelled_byte list" where
  "stream items = concat (map (\<lambda>it. marked (in_generation it) (in_paste it) (in_data it)) items)"

text \<open>Single bytes outside of pastes, and whole pastes, each of one generation.\<close>

inductive framed :: "labelled_byte list \<Rightarrow> bool" where
  framed_nil: "framed []"
| framed_byte: "framed s \<Longrightarrow> framed (s @ [(b, e, False)])"
| framed_paste: "framed s \<Longrightarrow> framed (s @ marked e True (paste_start @ body @ paste_end))"

text \<open>A paste whose end marker has not come.\<close>

definition open_paste :: "64 word \<Rightarrow> labelled_byte list \<Rightarrow> bool" where
  "open_paste e s \<longleftrightarrow> (\<exists>s0 body. framed s0 \<and> s = s0 @ marked e True (paste_start @ body))"

definition framing :: "gate \<Rightarrow> labelled_byte list \<Rightarrow> bool" where
  "framing g s \<longleftrightarrow>
     (if gt_paste g
      then open_paste (gt_paste_generation g) s
           \<and> (gt_prefix g \<noteq> [] \<longrightarrow> gt_prefix_generation g = gt_paste_generation g)
      else framed s)"

text \<open>While input is held or a paste is open, the gate is at its generation or closed.\<close>

definition steady :: "gate \<Rightarrow> bool" where
  "steady g \<longleftrightarrow>
     (gt_prefix g \<noteq> [] \<longrightarrow> gt_generation g = gt_prefix_generation g \<or> gt_generation g = 0)
     \<and> (gt_paste g \<longrightarrow> gt_generation g = gt_paste_generation g \<or> gt_generation g = 0)"

definition tags :: "gate \<Rightarrow> labelled_byte list \<Rightarrow> 64 word list" where
  "tags g s = map (fst \<circ> snd) s @ replicate (length (gt_prefix g)) (gt_prefix_generation g)"

definition typed_under :: "64 word \<Rightarrow> 64 word \<Rightarrow> bool" where
  "typed_under label now_open \<longleftrightarrow> now_open = label \<or> now_open = 0"

definition gate_inv :: "gate \<Rightarrow> labelled_byte list \<Rightarrow> 64 word list \<Rightarrow> bool" where
  "gate_inv g s os \<longleftrightarrow> framing g s \<and> steady g \<and> list_all2 typed_under (tags g s) os"

lemma marked_simps [simp]:
  "marked e p [] = []" "marked e p (xs @ ys) = marked e p xs @ marked e p ys" "length (marked e p xs) = length xs"
  "map (fst \<circ> snd) (marked e p xs) = replicate (length xs) e"
  by (simp_all add: marked_def comp_def map_replicate_const)

lemma stream_simps [simp]:
  "stream [] = []" "stream (xs @ ys) = stream xs @ stream ys"
  "stream (it # items) = marked (in_generation it) (in_paste it) (in_data it) @ stream items"
  by (simp_all add: stream_def)

lemma stream_emit [simp]: "stream (emit items d e p) = stream items @ marked e p d"
proof (cases items rule: rev_cases)
  case Nil
  then show ?thesis by (simp add: emit_def)
next
  case (snoc xs x)
  then show ?thesis by (auto simp: emit_def)
qed

lemma framed_plain: "framed s \<Longrightarrow> framed (s @ marked e False bs)"
proof (induction bs rule: rev_induct)
  case (snoc b bs)
  then show ?case using framed_byte [of "s @ marked e False bs" b e] by (simp add: marked_def)
qed simp

text \<open>Moving held bytes into the stream.\<close>

lemma open_paste_start: "framed s \<Longrightarrow> open_paste e (s @ marked e True paste_start)"
  unfolding open_paste_def by (intro exI [of _ s] exI [of _ "[]"]) simp

lemma open_paste_more: "open_paste e s \<Longrightarrow> open_paste e (s @ marked e True d)"
  unfolding open_paste_def by (metis append.assoc marked_simps(2))

lemma open_paste_end: "open_paste e s \<Longrightarrow> framed (s @ marked e True paste_end)"
  unfolding open_paste_def by (metis append.assoc framed_paste marked_simps(2))

lemma framing_emit:
  assumes "framing g s" and "gt_prefix g \<noteq> []"
  shows "framing (g\<lparr>gt_prefix := bs\<rparr>) (s @ marked (gt_prefix_generation g) (gt_paste g) d)"
  using assms open_paste_more framed_plain by (cases "gt_paste g") (auto simp: framing_def)

lemma framing_marker:
  assumes "framing g s" and "gt_prefix g = (if gt_paste g then paste_end else paste_start)"
  shows "framing (g\<lparr>gt_paste_generation := (if gt_paste g then gt_paste_generation g else gt_prefix_generation g),
      gt_paste := \<not> gt_paste g, gt_prefix := []\<rparr>) (s @ marked (gt_prefix_generation g) True (gt_prefix g))"
  using assms open_paste_start open_paste_end by (cases "gt_paste g") (auto simp: framing_def)

lemma settle_inv:
  "framing g (s @ stream items) \<Longrightarrow> steady g \<Longrightarrow> settle g items = (g1, items1) \<Longrightarrow>
     framing g1 (s @ stream items1) \<and> steady g1 \<and> tags g1 (s @ stream items1) = tags g (s @ stream items)
     \<and> gt_generation g1 = gt_generation g"
proof (induction g items arbitrary: g1 items1 rule: settle.induct)
  case (1 g items)
  let ?target = "if gt_paste g then paste_end else paste_start"
  consider (empty) "gt_prefix g = []" | (part) "gt_prefix g \<noteq> []" "prefix (gt_prefix g) ?target" "gt_prefix g \<noteq> ?target"
    | (all) "gt_prefix g \<noteq> []" "gt_prefix g = ?target" | (other) "gt_prefix g \<noteq> []" "\<not> prefix (gt_prefix g) ?target"
    by blast
  then show ?case
  proof cases
    case empty
    with 1(2-4) show ?thesis by (subst (asm) settle.simps) auto
  next
    case part
    then have "length (gt_prefix g) \<noteq> length ?target" by (metis prefix_length_prefix prefix_order.order_refl prefix_order.antisym le_refl)
    with part 1(2-4) show ?thesis by (subst (asm) settle.simps) (simp add: Let_def)
  next
    case all
    let ?g = "g\<lparr>gt_paste_generation := (if gt_paste g then gt_paste_generation g else gt_prefix_generation g),
      gt_paste := \<not> gt_paste g, gt_prefix := []\<rparr>"
    have e: "g1 = ?g" "items1 = emit items (gt_prefix g) (gt_prefix_generation g) True"
      using 1(4) all by (subst (asm) settle.simps, simp add: Let_def)+
    have "framing g1 (s @ stream items1)"
      using framing_marker [OF 1(2) all(2)] unfolding e by simp
    then show ?thesis using all(1) 1(3) unfolding e by (auto simp: steady_def tags_def)
  next
    case other
    let ?g = "g\<lparr>gt_prefix := drop 1 (gt_prefix g)\<rparr>"
    let ?items = "emit items (take 1 (gt_prefix g)) (gt_prefix_generation g) (gt_paste g)"
    have r: "settle ?g ?items = (g1, items1)"
      using 1(4) other by (subst (asm) settle.simps) (simp add: Let_def)
    have "framing ?g (s @ stream ?items)" using framing_emit [OF 1(2) other(1)] by simp
    moreover have "steady ?g" using 1(3) other(1) by (auto simp: steady_def)
    moreover have "tags ?g (s @ stream ?items) = tags g (s @ stream items)"
      using other(1) by (cases "gt_prefix g") (simp_all add: tags_def)
    ultimately show ?thesis using 1(1) [OF other(1) refl other(2) _ _ r] by simp
  qed
qed

lemma add_byte_inv:
  assumes "framing g s" and "steady g" and "list_all2 typed_under (tags g s) os"
  shows "framing (add_byte g b now) s \<and> steady (add_byte g b now)
    \<and> list_all2 typed_under (tags (add_byte g b now) s) (os @ [gt_generation g])
    \<and> gt_generation (add_byte g b now) = gt_generation g"
proof -
  let ?h = "add_byte g b now"
  have same: "gt_generation ?h = gt_generation g" "gt_paste ?h = gt_paste g"
    "gt_paste_generation ?h = gt_paste_generation g" "gt_prefix ?h = gt_prefix g @ [b]"
    by (simp_all add: add_byte_def Let_def)
  have pg: "gt_prefix_generation ?h = (if gt_prefix g = []
    then if gt_paste g then gt_paste_generation g else gt_generation g else gt_prefix_generation g)"
    by (simp add: add_byte_def Let_def)
  have "framing ?h s" using assms(1) by (auto simp: framing_def same pg)
  moreover have st: "steady ?h" using assms(2) by (auto simp: steady_def same pg)
  moreover have "tags ?h s = tags g s @ [gt_prefix_generation ?h]"
    by (cases "gt_prefix g = []") (simp_all add: tags_def same pg replicate_append_same)
  moreover have "typed_under (gt_prefix_generation ?h) (gt_generation g)"
    using st same by (simp add: steady_def typed_under_def)
  ultimately show ?thesis using assms(3) same(1) by (simp add: list_all2_appendI)
qed

lemma decode_inv:
  assumes "gate_inv g (s @ stream items) os" and "decode_from g items data = (items1, g1)"
  shows "gate_inv g1 (s @ stream items1) (os @ replicate (length data) (gt_generation g))
    \<and> gt_generation g1 = gt_generation g"
  using assms
proof (induction g items data arbitrary: os items1 g1 rule: decode_from.induct)
  case (2 g items b now data)
  obtain g2 items2 where st: "settle (add_byte g b now) items = (g2, items2)" by fastforce
  have inv: "framing g (s @ stream items)" "steady g" "list_all2 typed_under (tags g (s @ stream items)) os"
    using "2.prems"(1) by (simp_all add: gate_inv_def)
  note a = add_byte_inv [OF inv, of b now]
  have "gate_inv g2 (s @ stream items2) (os @ [gt_generation g]) \<and> gt_generation g2 = gt_generation g"
    using settle_inv [of "add_byte g b now" s items, OF _ _ st] a by (simp add: gate_inv_def)
  moreover have "decode_from g2 items2 data = (items1, g1)" using "2.prems"(2) st by simp
  ultimately show ?case using "2.IH" [OF st [symmetric]] by fastforce
qed simp

lemma decode_step_inv:
  "gate_inv g s os \<Longrightarrow> decode g data = (items, g1) \<Longrightarrow>
     gate_inv g1 (s @ stream items) (os @ replicate (length data) (gt_generation g)) \<and> gt_generation g1 = gt_generation g"
  using decode_inv [of g s "[]" os data items g1] by (simp add: decode_def)

lemma flush_inv:
  assumes "gate_inv g s os" and "flush_prefix now g = (items, g1)"
  shows "gate_inv g1 (s @ stream items) os \<and> gt_generation g1 = gt_generation g"
proof (cases "gt_prefix g = [] \<or> time_sub now (gt_prefix_at g) < session_prefix_timeout")
  case True
  then show ?thesis using assms by (auto simp: flush_prefix_def)
next
  case False
  then have e: "items = [\<lparr>in_generation = gt_prefix_generation g, in_data = gt_prefix g, in_paste = gt_paste g\<rparr>]"
    "g1 = g\<lparr>gt_prefix := []\<rparr>"
    using assms(2) by (auto simp: flush_prefix_def)
  have "framing g1 (s @ stream items)"
    using framing_emit [of g s "[]" "gt_prefix g"] assms(1) False unfolding e by (simp add: gate_inv_def)
  moreover have "steady g1" using assms(1) unfolding e by (simp add: gate_inv_def steady_def)
  moreover have "tags g1 (s @ stream items) = tags g s" unfolding e by (simp add: tags_def)
  ultimately show ?thesis using assms(1) e by (simp add: gate_inv_def)
qed

lemma drain_inv:
  "gate_inv g s os \<Longrightarrow>
     gate_inv (snd (drain n reads g)) (s @ stream (drained n reads g))
       (os @ replicate (length (taken n reads)) (gt_generation g))
     \<and> gt_generation (snd (drain n reads g)) = gt_generation g"
proof (induction n reads g arbitrary: s os rule: drained.induct)
  case (3 n r reads g)
  show ?case
  proof (cases r)
    case (Got data)
    obtain items g1 where d: "decode g data = (items, g1)" by fastforce
    note i = decode_step_inv [OF "3.prems" d]
    have "gate_inv (snd (drain n reads g1)) ((s @ stream items) @ stream (drained n reads g1))
        ((os @ replicate (length data) (gt_generation g)) @ replicate (length (taken n reads)) (gt_generation g1))
      \<and> gt_generation (snd (drain n reads g1)) = gt_generation g1"
      using "3.IH"(1) [OF Got, of "s @ stream items" "os @ replicate (length data) (gt_generation g)"] i by (simp add: d)
    then show ?thesis using Got i by (simp add: d replicate_add)
  qed (use "3.prems" "3.IH"(2) in simp_all)
qed simp_all

lemma opening_inv:
  assumes inv: "gate_inv g s os"
  shows "gate_inv (snd (open_gate ok reads now g)) (s @ stream (discarded ok reads now g))
    (os @ replicate (length (typed (Opening ok reads now))) (gt_generation g))"
proof (cases ok)
  case True
  obtain r g1 where d: "drain 16 reads g = (r, g1)" by fastforce
  obtain items g2 where f: "flush_prefix now g1 = (items, g2)" by fastforce
  have i1: "gate_inv g1 (s @ stream (drained 16 reads g)) (os @ replicate (length (taken 16 reads)) (gt_generation g))"
    using drain_inv [OF inv, of 16 reads] by (simp only: d snd_conv)
  then have i2: "gate_inv g2 ((s @ stream (drained 16 reads g)) @ stream items)
      (os @ replicate (length (taken 16 reads)) (gt_generation g))"
    using flush_inv [OF _ f] by blast
  have "gate_inv (g2\<lparr>gt_next := a, gt_generation := b\<rparr>) u os'" if "gate_inv g2 u os'" "\<not> gt_paste g2" "gt_prefix g2 = []"
    for a b u os'
    using that by (simp add: gate_inv_def framing_def steady_def tags_def)
  moreover have "gate_inv (g2\<lparr>gt_next := a\<rparr>) u os'" if "gate_inv g2 u os'" for a u os'
    using that by (simp add: gate_inv_def framing_def steady_def tags_def)
  ultimately show ?thesis
    using True i1 i2 d f by (cases r) (auto simp: open_gate_def discarded_def Let_def)
qed (use inv in \<open>simp add: open_gate_def discarded_def\<close>)

lemma gate_step_inv:
  assumes inv: "gate_inv g s os" and st: "gate_step g op = (items, g1)"
  shows "gate_inv g1 (s @ stream items) (os @ replicate (length (typed op)) (gt_generation g))"
proof (cases op)
  case (Read now data)
  obtain i1 h where f: "flush_prefix now g = (i1, h)" by fastforce
  obtain i2 h2 where d: "decode h data = (i2, h2)" by fastforce
  have "gate_inv h (s @ stream i1) os \<and> gt_generation h = gt_generation g" by (rule flush_inv [OF inv f])
  with decode_step_inv [OF _ d, of "s @ stream i1" os] show ?thesis
    using st Read f d by (auto simp: gate_step_def read_gate_def)
next
  case Closed
  then show ?thesis using st inv
    by (auto simp: gate_step_def close_gate_def gate_inv_def framing_def steady_def tags_def)
next
  case (Opening ok reads now)
  then show ?thesis using opening_inv [OF inv, of ok reads now] st by (simp add: gate_step_def)
qed

lemma run_inv:
  "gate_inv g s os \<Longrightarrow> run_gate g ops = (log, g1) \<Longrightarrow>
     gate_inv g1 (s @ stream (concat (map snd log))) (os @ origins g ops)"
proof (induction ops arbitrary: g s os log)
  case (Cons op ops)
  obtain items h where st: "gate_step g op = (items, h)" by fastforce
  obtain log1 where r: "run_gate h ops = (log1, g1)" "log = (\<not> is_opening op, items) # log1"
    using Cons.prems(2) st by (auto split: prod.splits)
  from Cons.IH [OF gate_step_inv [OF Cons.prems(1) st] r(1)] show ?case by (simp add: r(2) st)
qed simp

text \<open>
  The bytes of one paste, and the state of the gate after the first \<open>n\<close> of them, which are all of
  generation \<open>e\<close>.
\<close>

definition pasted :: "string \<Rightarrow> string" where
  "pasted body = paste_start @ body @ paste_end"

definition within :: "string \<Rightarrow> 64 word \<Rightarrow> nat \<Rightarrow> gate \<Rightarrow> bool" where
  "within body e n g \<longleftrightarrow>
     (if n = 0 then gt_generation g = e \<and> \<not> gt_paste g \<and> gt_prefix g = []
      else if n < 6
      then \<not> gt_paste g \<and> gt_prefix g = take n paste_start \<and> gt_prefix_generation g = e
      else if n \<le> 6 + length body
      then gt_paste g \<and> gt_prefix g = [] \<and> gt_paste_generation g = e
      else if n < 12 + length body
      then gt_paste g \<and> gt_prefix g = take (n - 6 - length body) paste_end
           \<and> gt_prefix_generation g = e \<and> gt_paste_generation g = e
      else \<not> gt_paste g \<and> gt_prefix g = [])"

lemma length_markers [simp]: "length paste_start = 6" "length paste_end = 6"
  by (simp_all add: paste_start_def paste_end_def)

lemma markers_nonempty [simp]: "paste_start \<noteq> []" "paste_end \<noteq> []"
  by (simp_all add: paste_start_def paste_end_def)

lemma length_pasted [simp]: "length (pasted body) = 12 + length body"
  by (simp add: pasted_def)

lemma settle_prefix:
  assumes "gt_prefix g \<noteq> []" and "prefix (gt_prefix g) (if gt_paste g then paste_end else paste_start)"
  shows "settle g items =
    (if length (gt_prefix g) = 6
     then (g\<lparr>gt_paste_generation := (if gt_paste g then gt_paste_generation g else gt_prefix_generation g),
             gt_paste := \<not> gt_paste g, gt_prefix := []\<rparr>,
           emit items (gt_prefix g) (gt_prefix_generation g) True)
     else (g, items))"
  using assms by (subst settle.simps) (simp add: Let_def)

lemma settle_other:
  assumes "gt_prefix g = [b]" and "b \<noteq> CHR 0x1B"
  shows "settle g items = (g\<lparr>gt_prefix := []\<rparr>, emit items [b] (gt_prefix_generation g) (gt_paste g))"
proof -
  have "\<not> prefix [b] paste_end" "\<not> prefix [b] paste_start"
    using assms(2) by (simp_all add: paste_end_def paste_start_def)
  then have "settle g items =
      settle (g\<lparr>gt_prefix := []\<rparr>) (emit items [b] (gt_prefix_generation g) (gt_paste g))"
    using assms(1) by (subst settle.simps) (simp add: Let_def)
  also have "\<dots> = (g\<lparr>gt_prefix := []\<rparr>, emit items [b] (gt_prefix_generation g) (gt_paste g))"
    by (subst settle.simps) simp
  finally show ?thesis .
qed

lemma take_Suc_nth_prefix: "k < length t \<Longrightarrow> prefix (take k t @ [t ! k]) t"
  by (metis take_Suc_conv_app_nth take_is_prefix)

definition all_of :: "64 word \<Rightarrow> session_input list \<Rightarrow> bool" where
  "all_of e items \<longleftrightarrow> (\<forall>it \<in> set items. in_generation it = e \<and> in_paste it)"

lemma all_of_emit: "all_of e items \<Longrightarrow> all_of e (emit items d e True)"
  using set_emit by (fastforce simp: all_of_def)

text \<open>One more byte of the paste.\<close>

lemma within_byte:
  assumes w: "within body e n g" and n: "n < length (pasted body)"
    and plain: "CHR 0x1B \<notin> set body" and items: "all_of e items"
    and s: "settle (add_byte g (pasted body ! n) now) items = (g1, items1)"
  shows "within body e (Suc n) g1 \<and> all_of e items1"
proof -
  let ?b = "pasted body ! n"
  let ?h = "add_byte g ?b now"
  consider "n < 6" | "6 \<le> n" "n < 6 + length body" | "6 + length body \<le> n" "n < 12 + length body"
    using n by fastforce
  then show ?thesis
  proof cases
    case 1
    then have b: "?b = paste_start ! n" by (simp add: pasted_def nth_append)
    have h: "gt_prefix ?h = take (Suc n) paste_start" "\<not> gt_paste ?h" "gt_prefix_generation ?h = e"
      using w 1 by (auto simp: within_def add_byte_def Let_def b take_Suc_conv_app_nth split: if_splits)
    have "settle ?h items =
      (if Suc n = 6 then (?h\<lparr>gt_paste_generation := e, gt_paste := True, gt_prefix := []\<rparr>,
         emit items (take 6 paste_start) e True) else (?h, items))"
      using settle_prefix [of ?h items] h 1 by (auto simp: take_is_prefix)
    with s h 1 show ?thesis
      using all_of_emit [OF items] items by (auto simp: within_def split: if_splits)
  next
    case 2
    then have "n - 6 < length body" by simp
    moreover from this 2 have "?b = body ! (n - 6)" by (simp add: pasted_def nth_append)
    ultimately have b: "?b \<noteq> CHR 0x1B" using plain nth_mem by metis
    have h: "gt_prefix ?h = [?b]" "gt_paste ?h" "gt_prefix_generation ?h = e" "gt_paste_generation ?h = e"
      using w 2 by (auto simp: within_def add_byte_def Let_def)
    from settle_other [OF h(1) b, of items] s h 2 show ?thesis
      using all_of_emit [OF items] by (auto simp: within_def)
  next
    case 3
    define k where "k = n - 6 - length body"
    have k: "k < 6" "n = 6 + length body + k" using 3 by (auto simp: k_def)
    have b: "pasted body ! (6 + length body + k) = paste_end ! k"
      by (simp add: pasted_def nth_append)
    have h: "gt_prefix ?h = take (Suc k) paste_end" "gt_paste ?h" "gt_prefix_generation ?h = e"
      "gt_paste_generation ?h = e"
      using w k by (auto simp: within_def add_byte_def Let_def b take_Suc_conv_app_nth split: if_splits)
    have "settle ?h items =
      (if Suc k = 6 then (?h\<lparr>gt_paste_generation := e, gt_paste := False, gt_prefix := []\<rparr>,
         emit items (take 6 paste_end) e True) else (?h, items))"
      using settle_prefix [of ?h items] h k by (auto simp: take_is_prefix)
    with s h k show ?thesis
      using all_of_emit [OF items] items by (auto simp: within_def split: if_splits)
  qed
qed

lemma within_decode:
  assumes "within body e n g" and "CHR 0x1B \<notin> set body" and "all_of e items"
    and "prefix (map fst data) (drop n (pasted body))"
    and "decode_from g items data = (items1, g1)"
  shows "within body e (n + length data) g1 \<and> all_of e items1"
  using assms
proof (induction g items data arbitrary: n items1 g1 rule: decode_from.induct)
  case (2 g items b now data)
  obtain g2 items2 where s: "settle (add_byte g b now) items = (g2, items2)"
    by (cases "settle (add_byte g b now) items")
  have n: "n < length (pasted body)"
    using "2.prems"(4) by (cases "n < length (pasted body)") auto
  have split: "drop n (pasted body) = pasted body ! n # drop (Suc n) (pasted body)"
    using n by (simp add: Cons_nth_drop_Suc)
  then have b: "b = pasted body ! n" and rest: "prefix (map fst data) (drop (Suc n) (pasted body))"
    using "2.prems"(4) by auto
  from within_byte [OF "2.prems"(1) n "2.prems"(2,3) s [unfolded b]]
  have w: "within body e (Suc n) g2" "all_of e items2" by auto
  have "decode_from g2 items2 data = (items1, g1)" using "2.prems"(5) s by simp
  from "2.IH" [OF s [symmetric] w(1) "2.prems"(2) w(2) rest this] show ?case by simp
qed auto

text \<open>A whole paste in one piece.\<close>

lemma stream_all_of: "all_of e items \<Longrightarrow> stream items = marked e True (payload items)"
  by (induction items) (auto simp: all_of_def stream_def)

lemma paste_recognised:
  assumes "\<not> gt_paste g" and "gt_prefix g = []" and "map fst data = paste_start @ body @ paste_end"
    and "CHR 0x1B \<notin> set body"
  shows "stream (fst (decode g data)) = marked (gt_generation g) True (paste_start @ body @ paste_end)
    \<and> \<not> gt_paste (snd (decode g data)) \<and> gt_prefix (snd (decode g data)) = []"
proof -
  obtain items g1 where d: "decode_from g [] data = (items, g1)" by fastforce
  have w: "within body (gt_generation g) 0 g" using assms(1,2) by (simp add: within_def)
  have pre: "prefix (map fst data) (drop 0 (pasted body))" using assms(3) by (simp add: pasted_def)
  have len: "length data = 12 + length body" using arg_cong [OF assms(3), of length] by simp
  have "all_of (gt_generation g) []" by (simp add: all_of_def)
  from within_decode [OF w assms(4) this pre d]
  have fin: "within body (gt_generation g) (12 + length body) g1" "all_of (gt_generation g) items"
    by (simp_all add: len)
  then have "gt_prefix g1 = []" "\<not> gt_paste g1" by (simp_all add: within_def)
  moreover have "payload items = map fst data"
    using decode_from_lossless [OF d] assms(2) \<open>gt_prefix g1 = []\<close> by simp
  ultimately show ?thesis using stream_all_of [OF fin(2)] assms(3) d by (simp add: decode_def)
qed

lemma settle_next: "gt_next (fst (settle g items)) = gt_next g"
  by (induction g items rule: settle.induct) (subst settle.simps, auto simp: Let_def)

lemma decode_from_next: "gt_next (snd (decode_from g items data)) = gt_next g"
proof (induction g items data rule: decode_from.induct)
  case (2 g items b now data)
  then show ?case
    using settle_next [of "add_byte g b now" items] by (auto simp: add_byte_def Let_def split: prod.splits)
qed simp

lemma drain_next: "gt_next (snd (drain n reads g)) = gt_next g"
  by (induction n reads g rule: drain.induct)
    (auto simp: decode_def decode_from_next split: read_outcome.splits)

section \<open>Properties\<close>

definition ex_gate :: gate where
  "ex_gate = \<lparr>gt_generation = 3, gt_next = 3, gt_paste = False, gt_paste_generation = 0,
     gt_prefix = [], gt_prefix_generation = 0, gt_prefix_at = 0\<rparr>"

text \<open>
  C37: the gate accounts for every byte. Over any sequence of reads, closes and openings, the data of all
  items in order, followed by the held prefix, are exactly the bytes that were held before and those
  taken from the terminal since; the items of reads are delivered, only those of an opening are discarded.
\<close>

theorem gate_accounts:
  "payload (concat (map snd (fst (run_gate g ops)))) @ gt_prefix (snd (run_gate g ops))
     = gt_prefix g @ concat (map typed ops)
   \<and> map fst (fst (run_gate g ops)) = map (Not \<circ> is_opening) ops"
proof (induction ops arbitrary: g)
  case (Cons op ops)
  obtain items g1 where st: "gate_step g op = (items, g1)" by (cases "gate_step g op")
  obtain log g2 where r: "run_gate g1 ops = (log, g2)" by (cases "run_gate g1 ops")
  have ih: "payload (concat (map snd log)) @ gt_prefix g2 = gt_prefix g1 @ concat (map typed ops)"
    "map fst log = map (Not \<circ> is_opening) ops"
    using Cons.IH [of g1] by (simp_all add: r)
  have "payload items @ payload (concat (map snd log)) @ gt_prefix g2 = gt_prefix g @ typed op @ concat (map typed ops)"
    using gate_step_lossless [OF st] ih(1) by (metis append.assoc)
  then show ?case using ih(2) by (simp add: st r)
qed simp


definition ex_ops :: "gate_op list" where
  "ex_ops =
     [Read 0 (map (\<lambda>c. (c, 0)) (CHR 0x1B # ''[200~h'')), Closed, Read 9 (map (\<lambda>c. (c, 9)) (''i'' @ paste_end)),
      Opening True [Got [(CHR ''x'', 9)], Would_Block] 10, Read 11 [(CHR ''y'', 11)]]"

lemma ex_ops_run:
  "stream (concat (map snd (fst (run_gate ex_gate ex_ops))))
    = marked 3 True (paste_start @ ''hi'' @ paste_end) @ marked 0 False ''x'' @ marked 4 False ''y''"
  by code_simp


text \<open>
  A generation is opened at most once. A successful \<open>open\<close> numbers the generation one above every
  earlier one, without wrapping, and leaves no paste and no held prefix; when the counter of 64
  bits is exhausted the gate refuses to open.
\<close>

theorem open_fresh:
  assumes "open_gate ok reads now g = (Inr True, g1)"
  shows "uint (gt_generation g1) = uint (gt_next g) + 1 \<and> gt_next g1 = gt_generation g1
    \<and> \<not> gt_paste g1 \<and> gt_prefix g1 = [] \<and> gt_next g \<noteq> - 1"
proof -
  obtain g2 where d: "drain 16 reads g = (Inr True, g2)"
    and g1: "g1 = (snd (flush_prefix now g2))\<lparr>gt_next := gt_next (snd (flush_prefix now g2)) + 1,
                     gt_generation := gt_next (snd (flush_prefix now g2)) + 1\<rparr>"
    and quiet: "\<not> gt_paste (snd (flush_prefix now g2))" "gt_prefix (snd (flush_prefix now g2)) = []"
    and nz: "gt_next (snd (flush_prefix now g2)) + 1 \<noteq> 0"
    using assms by (auto simp: open_gate_def Let_def split: if_splits prod.splits sum.splits)
  have next_id: "gt_next (snd (flush_prefix now g2)) = gt_next g"
    using drain_next [of 16 reads g] by (simp add: d flush_prefix_def)
  have "gt_next g \<noteq> - 1" using nz next_id by auto
  moreover have "uint (gt_next g + 1) = uint (gt_next g) + 1"
  proof -
    have "uint (gt_next g + 1) \<noteq> 0" using nz next_id by (simp add: uint_0_iff)
    moreover have "uint (gt_next g) < 2 ^ 64" using uint_lt2p [of "gt_next g"] by simp
    ultimately show ?thesis by (simp add: uint_plus_if' split: if_splits)
  qed
  ultimately show ?thesis using g1 quiet next_id by simp
qed

theorem open_fresh_witness:
  "\<exists>g1. open_gate True [Got [(CHR ''x'', 1)], Would_Block] 5 ex_gate = (Inr True, g1)
     \<and> uint (gt_generation g1) = 4"
proof -
  have "fst (open_gate True [Got [(CHR ''x'', 1)], Would_Block] 5 ex_gate) = Inr True" by code_simp
  then obtain g1 where r: "open_gate True [Got [(CHR ''x'', 1)], Would_Block] 5 ex_gate = (Inr True, g1)"
    by (metis prod.collapse)
  from open_fresh [OF r] r show ?thesis by (auto simp: ex_gate_def)
qed

end
