(* ===== verification/Terminal_Queries.thy ===== *)
theory Terminal_Queries
  imports Go_Prelude
begin

text \<open>
  The filter on output that an attachment wrote before it owned the terminal's input,
  \<open>internal/mirror/session_queries.go\<close>: complete terminal queries ahead of the first output of the
  Zellij client are removed, every other byte is kept. Returned lengths are 0 where the code
  returns 0. The properties compare the parser with the list of query forms, \<open>is_query\<close>.
\<close>

section \<open>The parser\<close>

definition esc :: char where
  "esc = CHR 0x1B"

definition bel_char :: char where
  "bel_char = CHR 0x07"

definition backslash :: char where
  "backslash = CHR 0x5C"

definition zellij_client_start :: string where
  "zellij_client_start = esc # ''[?1049h''"

text \<open>The payload read so far and the bytes after it; the loop starts at index 2.\<close>

fun scan_string :: "bool \<Rightarrow> string \<Rightarrow> string \<Rightarrow> string \<times> nat" where
  "scan_string bel acc [] = ([], 0)"
| "scan_string bel acc (c # s) =
     (if bel \<and> c = bel_char then (acc, length acc + 3)
      else if c = esc then (if s \<noteq> [] \<and> hd s = backslash then (acc, length acc + 4) else ([], 0))
      else scan_string bel (acc @ [c]) s)"

definition string_sequence :: "string \<Rightarrow> bool \<Rightarrow> string \<times> nat" where
  "string_sequence sq bel = scan_string bel [] (drop 2 sq)"

definition all_digits :: "string \<Rightarrow> bool" where
  "all_digits s \<longleftrightarrow> s \<noteq> [] \<and> list_all is_digit s"

definition osc_query :: "string \<Rightarrow> bool" where
  "osc_query payload \<longleftrightarrow>
     payload \<in> {''10;?'', ''11;?'', ''12;?''}
     \<or> (prefix ''4;'' payload
        \<and> (let index = drop 2 payload in
            suffix '';?'' index \<and> all_digits (take (length index - 2) index)))"

definition csi_queries :: "string list" where
  "csi_queries =
     [''6n'', ''?6n'', ''5n'', ''c'', ''0c'', ''>c'', ''>0c'', ''=c'', ''=0c'', ''>q'', ''>0q'',
      ''?u'', ''14t'', ''16t'', ''18t'']"

definition dec_mode_query :: "string \<Rightarrow> bool" where
  "dec_mode_query body \<longleftrightarrow>
     prefix ''?'' body
     \<and> (let mode = drop 1 body in suffix ''$p'' mode \<and> all_digits (take (length mode - 2) mode))"

definition param_byte :: "char \<Rightarrow> bool" where
  "param_byte c \<longleftrightarrow> 0x30 \<le> (of_char c :: nat) \<and> of_char c \<le> (0x3F :: nat)"

definition intermediate_byte :: "char \<Rightarrow> bool" where
  "intermediate_byte c \<longleftrightarrow> 0x20 \<le> (of_char c :: nat) \<and> of_char c \<le> (0x2F :: nat)"

definition final_byte :: "char \<Rightarrow> bool" where
  "final_byte c \<longleftrightarrow> 0x40 \<le> (of_char c :: nat) \<and> of_char c \<le> (0x7E :: nat)"

definition csi_query_length :: "string \<Rightarrow> nat" where
  "csi_query_length sq =
     (let params = takeWhile param_byte (drop 2 sq);
          inter = takeWhile intermediate_byte (drop (2 + length params) sq);
          i = 2 + length params + length inter
      in if length sq \<le> i \<or> \<not> final_byte (sq ! i) then 0
         else
           (let body = take (i - 1) (drop 2 sq) in
            if body \<in> set csi_queries \<or> dec_mode_query body then i + 1 else 0))"

fun split_commas :: "string \<Rightarrow> string list" where
  "split_commas [] = [[]]"
| "split_commas (c # s) =
     (if c = CHR '','' then [] # split_commas s
      else (c # hd (split_commas s)) # tl (split_commas s))"

definition kitty_query :: "string \<Rightarrow> bool" where
  "kitty_query payload \<longleftrightarrow>
     prefix ''G'' payload
     \<and> ''a=q'' \<in> set (split_commas (takeWhile (\<lambda>c. c \<noteq> CHR '';'') (drop 1 payload)))"

definition terminal_query_length :: "string \<Rightarrow> nat" where
  "terminal_query_length sq =
     (if length sq < 2 then 0
      else if sq ! 1 = CHR ''['' then csi_query_length sq
      else if sq ! 1 = CHR '']''
      then (case string_sequence sq True of (payload, n) \<Rightarrow> if 0 < n \<and> osc_query payload then n else 0)
      else if sq ! 1 = CHR ''P''
      then (case string_sequence sq False of
              (payload, n) \<Rightarrow> if 0 < n \<and> prefix ''+q'' payload then n else 0)
      else if sq ! 1 = CHR ''_''
      then (case string_sequence sq False of
              (payload, n) \<Rightarrow> if 0 < n \<and> kitty_query payload then n else 0)
      else 0)"

function strip_terminal_queries :: "string \<Rightarrow> string" where
  "strip_terminal_queries data =
     (case data of
        [] \<Rightarrow> []
      | c # rest \<Rightarrow>
          (let n = (if c = esc then terminal_query_length data else 0) in
           if 0 < n then strip_terminal_queries (drop n data)
           else c # strip_terminal_queries rest))"
  by pat_completeness auto
termination
  by (relation "measure length") (auto split: if_splits)

declare strip_terminal_queries.simps [simp del]

text \<open>\<open>bytes.Index\<close>\<close>

fun index_of :: "string \<Rightarrow> string \<Rightarrow> nat option" where
  "index_of pat [] = (if pat = [] then Some 0 else None)"
| "index_of pat (c # s) =
     (if prefix pat (c # s) then Some 0 else map_option Suc (index_of pat s))"

definition strip_pre_client_queries :: "string \<Rightarrow> string" where
  "strip_pre_client_queries data =
     (case index_of zellij_client_start data of
        None \<Rightarrow> strip_terminal_queries data
      | Some start \<Rightarrow>
          (let front = strip_terminal_queries (take start data) in
           if length front = start then data else front @ drop start data))"

section \<open>The query forms\<close>

definition string_end :: "bool \<Rightarrow> string \<Rightarrow> bool" where
  "string_end bel e \<longleftrightarrow> e = [esc, backslash] \<or> (bel \<and> e = [bel_char])"

definition is_string_query :: "char \<Rightarrow> bool \<Rightarrow> (string \<Rightarrow> bool) \<Rightarrow> string \<Rightarrow> bool" where
  "is_string_query intro bel P q \<longleftrightarrow>
     (\<exists>payload e. q = esc # intro # payload @ e \<and> string_end bel e \<and> esc \<notin> set payload
        \<and> (bel \<longrightarrow> bel_char \<notin> set payload) \<and> P payload)"

definition is_csi_query :: "string \<Rightarrow> bool" where
  "is_csi_query q \<longleftrightarrow>
     (\<exists>body. q = esc # CHR ''['' # body
        \<and> (body \<in> set csi_queries \<or> (\<exists>mode. body = ''?'' @ mode @ ''$p'' \<and> all_digits mode)))"

definition is_query :: "string \<Rightarrow> bool" where
  "is_query q \<longleftrightarrow>
     is_csi_query q \<or> is_string_query (CHR '']'') True osc_query q
     \<or> is_string_query (CHR ''P'') False (prefix ''+q'') q
     \<or> is_string_query (CHR ''_'') False kitty_query q"

section \<open>Lemmas\<close>

lemma char_bounds:
  "esc = CHR 0x1B \<and> bel_char = CHR 0x07 \<and> backslash = CHR 0x5C"
  by (simp add: esc_def bel_char_def backslash_def)

lemma scan_string_sound:
  "scan_string bel acc s = (payload, n) \<Longrightarrow> 0 < n \<Longrightarrow>
     \<exists>p e r. s = p @ e @ r \<and> payload = acc @ p \<and> string_end bel e \<and> esc \<notin> set p
       \<and> (bel \<longrightarrow> bel_char \<notin> set p) \<and> n = 2 + length payload + length e"
proof (induction bel acc s rule: scan_string.induct)
  case (2 bel acc c s)
  show ?case
  proof (cases "bel \<and> c = bel_char \<or> c = esc")
    case True
    show ?thesis
    proof (cases "bel \<and> c = bel_char")
      case True
      with "2.prems"(1) have "payload = acc \<and> n = length acc + 3" by auto
      with True show ?thesis
        by (intro exI [of _ "[]"] exI [of _ "[bel_char]"] exI [of _ s]) (simp add: string_end_def)
    next
      case False
      with True have c: "c = esc" by simp
      have "(if s \<noteq> [] \<and> hd s = backslash then (acc, length acc + 4) else ([], 0)) = (payload, n)"
        using "2.prems"(1) c False by (simp only: scan_string.simps if_False refl if_True)
      with "2.prems"(2) have "s \<noteq> [] \<and> hd s = backslash \<and> payload = acc \<and> n = length acc + 4"
        by (auto split: if_splits)
      then obtain r where "s = backslash # r" "payload = acc" "n = length acc + 4"
        by (metis list.collapse)
      with c show ?thesis
        by (intro exI [of _ "[]"] exI [of _ "[esc, backslash]"] exI [of _ r]) (simp add: string_end_def)
    qed
  next
    case False
    with "2.prems" have "scan_string bel (acc @ [c]) s = (payload, n)" by auto
    from "2.IH" [OF _ _ this "2.prems"(2)] False obtain p e r
      where "s = p @ e @ r" "payload = (acc @ [c]) @ p" "string_end bel e" "esc \<notin> set p"
        "bel \<longrightarrow> bel_char \<notin> set p" "n = 2 + length payload + length e"
      by blast
    with False have "c # s = (c # p) @ e @ r \<and> payload = acc @ (c # p) \<and> string_end bel e
        \<and> esc \<notin> set (c # p) \<and> (bel \<longrightarrow> bel_char \<notin> set (c # p))
        \<and> n = 2 + length payload + length e"
      by auto
    then show ?thesis by blast
  qed
qed simp

lemma scan_string_complete:
  assumes "string_end bel e" and "esc \<notin> set p" and "bel \<longrightarrow> bel_char \<notin> set p"
  shows "scan_string bel acc (p @ e @ r) = (acc @ p, 2 + length acc + length p + length e)"
  using assms
  by (induction p arbitrary: acc) (auto simp: string_end_def char_bounds)

lemma string_query_iff:
  assumes "length sq = Suc (Suc k)" and "sq ! 0 = esc" and "sq ! 1 = intro"
  shows "(case string_sequence sq bel of (payload, n) \<Rightarrow> if 0 < n \<and> P payload then n else 0) = m
      \<and> 0 < m \<longleftrightarrow> m \<le> length sq \<and> is_string_query intro bel P (take m sq)"
proof -
  obtain s where sq: "sq = esc # intro # s"
    using assms by (cases sq; cases "tl sq") auto
  show ?thesis (is "?l \<longleftrightarrow> ?r")
  proof
    assume l: ?l
    obtain payload n where sc: "scan_string bel [] s = (payload, n)"
      by (cases "scan_string bel [] s")
    with l sq have n: "0 < n" "P payload" "m = n"
      by (auto simp: string_sequence_def split: if_splits)
    from scan_string_sound [OF sc n(1)] obtain e r where
      "s = payload @ e @ r" "string_end bel e" "esc \<notin> set payload"
      "bel \<longrightarrow> bel_char \<notin> set payload" "n = 2 + length payload + length e" by auto
    with n sq show ?r unfolding is_string_query_def by auto
  next
    assume r: ?r
    then obtain p e where q: "take m sq = esc # intro # p @ e" "string_end bel e" "esc \<notin> set p"
      "bel \<longrightarrow> bel_char \<notin> set p" "P p" by (auto simp: is_string_query_def)
    then have m: "m = 2 + length p + length e"
      using r by (metis append_eq_conv_conj length_Cons length_append length_take min.absorb2
          add_Suc add_2_eq_Suc)
    obtain rest where "sq = (esc # intro # p @ e) @ rest" using q(1) by (metis append_take_drop_id)
    then have "drop 2 sq = p @ e @ rest" by simp
    then have "string_sequence sq bel = (p, m)"
      using scan_string_complete [OF q(2,3,4), of "[]" rest] m by (simp add: string_sequence_def)
    then show ?l using q(5) m by simp
  qed
qed

lemma dec_mode_query_iff:
  "dec_mode_query body \<longleftrightarrow> (\<exists>mode. body = ''?'' @ mode @ ''$p'' \<and> all_digits mode)" (is "?l \<longleftrightarrow> ?r")
proof
  assume ?l
  then obtain rest where b: "body = ''?'' @ rest" "suffix ''$p'' rest"
    "all_digits (take (length rest - 2) rest)"
    unfolding dec_mode_query_def Let_def prefix_def by (metis append_eq_conv_conj length_Cons list.size(3) One_nat_def)
  then obtain mode where "rest = mode @ ''$p''" by (auto simp: suffix_def)
  with b show ?r by auto
next
  assume ?r
  then show ?l by (auto simp: dec_mode_query_def suffix_def)
qed

definition csi_shape :: "string \<Rightarrow> bool" where
  "csi_shape body \<longleftrightarrow>
     (\<exists>ps im f. body = ps @ im @ [f] \<and> list_all param_byte ps \<and> list_all intermediate_byte im
        \<and> final_byte f)"

lemma byte_classes:
  "intermediate_byte c \<Longrightarrow> \<not> param_byte c" "final_byte c \<Longrightarrow> \<not> param_byte c"
  "final_byte c \<Longrightarrow> \<not> intermediate_byte c" "is_digit c \<Longrightarrow> param_byte c"
  by (simp_all add: param_byte_def intermediate_byte_def final_byte_def is_digit_def)

lemma csi_shapeI:
  "list_all param_byte ps \<Longrightarrow> list_all intermediate_byte im \<Longrightarrow> final_byte f \<Longrightarrow> csi_shape (ps @ im @ [f])"
  by (auto simp: csi_shape_def)

lemma csi_queries_shape:
  assumes "body \<in> set csi_queries"
  shows "csi_shape body"
proof -
  have "list_all (\<lambda>b. list_all param_byte (butlast b) \<and> b \<noteq> [] \<and> final_byte (last b)) csi_queries"
    by (simp add: csi_queries_def param_byte_def final_byte_def)
  with assms have "list_all param_byte (butlast body)" "body \<noteq> []" "final_byte (last body)"
    by (auto simp: list_all_iff)
  with csi_shapeI [of "butlast body" "[]" "last body"] show ?thesis by simp
qed

lemma dec_mode_shape:
  assumes "all_digits mode"
  shows "csi_shape (''?'' @ mode @ ''$p'')"
proof -
  have "list_all param_byte (CHR ''?'' # mode)"
    using assms byte_classes(4) by (auto simp: all_digits_def list_all_iff param_byte_def)
  moreover have "list_all intermediate_byte ''$''" "final_byte (CHR ''p'')"
    by (simp_all add: intermediate_byte_def final_byte_def)
  ultimately have "csi_shape ((CHR ''?'' # mode) @ ''$'' @ [CHR ''p''])" by (rule csi_shapeI)
  then show ?thesis by simp
qed

lemma takeWhile_split:
  "list_all P ps \<Longrightarrow> \<not> P (hd rest) \<Longrightarrow> rest \<noteq> [] \<Longrightarrow> takeWhile P (ps @ rest) = ps"
  by (cases rest) (auto simp: takeWhile_append2 list_all_iff)

lemma csi_shape_parse:
  assumes "csi_shape body"
  obtains "takeWhile param_byte (body @ r) @ takeWhile intermediate_byte
      (drop (length (takeWhile param_byte (body @ r))) (body @ r)) @ [last body] = body"
    and "final_byte (last body)"
proof -
  obtain ps im f where b: "body = ps @ im @ [f]" "list_all param_byte ps"
    "list_all intermediate_byte im" "final_byte f"
    using assms by (auto simp: csi_shape_def)
  have "\<not> param_byte (hd (im @ [f] @ r))"
    using b byte_classes by (cases im) auto
  then have p: "takeWhile param_byte (body @ r) = ps"
    using takeWhile_split [OF b(2), of "im @ [f] @ r"] b(1) by simp
  have "\<not> intermediate_byte (hd ([f] @ r))" using b byte_classes by simp
  then have "takeWhile intermediate_byte (im @ [f] @ r) = im"
    using takeWhile_split [OF b(3), of "[f] @ r"] by simp
  with p b show thesis by (intro that) simp_all
qed

lemma csi_query_iff:
  assumes "sq = esc # CHR ''['' # s"
  shows "csi_query_length sq = m \<and> 0 < m \<longleftrightarrow> m \<le> length sq \<and> is_csi_query (take m sq)"
    (is "?l \<longleftrightarrow> ?r")
proof -
  let ?ps = "takeWhile param_byte s"
  let ?im = "takeWhile intermediate_byte (drop (length ?ps) s)"
  define k where "k = length ?ps + length ?im"
  have len: "csi_query_length sq =
    (if length s \<le> k \<or> \<not> final_byte (s ! k) then 0
     else if take (Suc k) s \<in> set csi_queries \<or> dec_mode_query (take (Suc k) s) then k + 3 else 0)"
    by (simp add: csi_query_length_def assms Let_def k_def)
  show ?thesis
  proof
    assume ?l
    then have "k < length s" "m = k + 3"
      "take (Suc k) s \<in> set csi_queries \<or> dec_mode_query (take (Suc k) s)"
      unfolding len by (auto split: if_splits)
    moreover from this have "take m sq = esc # CHR ''['' # take (Suc k) s"
      by (simp add: assms numeral_3_eq_3)
    ultimately show ?r unfolding is_csi_query_def dec_mode_query_iff by (simp add: assms)
  next
    assume r: ?r
    then obtain body where q: "take m sq = esc # CHR ''['' # body"
      and b: "body \<in> set csi_queries \<or> dec_mode_query body"
      by (auto simp: is_csi_query_def dec_mode_query_iff)
    then have shape: "csi_shape body"
      using csi_queries_shape dec_mode_shape by (auto simp: dec_mode_query_iff)
    have "m = length body + 2" using q r by (metis length_Cons length_take min.absorb2 add_2_eq_Suc')
    moreover have "take (m - 2) s = body" using q assms calculation by simp
    ultimately obtain rest where s: "s = body @ rest" and m: "m = length body + 2"
      by (metis append_take_drop_id)
    from csi_shape_parse [OF shape, of rest] s
    have body: "body = ?ps @ ?im @ [last body]" and fin: "final_byte (last body)" by metis+
    then have lb: "length body = Suc k"
      unfolding k_def by (metis add_Suc_right length_Cons length_append list.size(3) add_0_right)
    moreover have "s ! k = last body"
      using s lb by (metis last_conv_nth length_greater_0_conv nth_append diff_Suc_1 lessI zero_less_Suc)
    moreover have "take (Suc k) s = body" "k < length s" using s lb by simp_all
    ultimately show ?l unfolding len using b fin m lb by (simp only: not_le) simp
  qed
qed

text \<open>A sequence starts with at most one query, and the parser answers its length.\<close>

lemma terminal_query_length_iff:
  assumes "sq = esc # s"
  shows "terminal_query_length sq = m \<and> 0 < m \<longleftrightarrow> m \<le> length sq \<and> is_query (take m sq)"
proof (cases s)
  case Nil
  have "\<not> is_query (take m sq)"
    using assms Nil by (cases m) (auto simp: is_query_def is_csi_query_def is_string_query_def)
  then show ?thesis using assms Nil by (auto simp: terminal_query_length_def)
next
  case (Cons c s')
  have len: "length sq = Suc (Suc (length s'))" and at: "sq ! 0 = esc" "sq ! 1 = c"
    using assms Cons by simp_all
  have two: "take m sq = esc # d # r \<Longrightarrow> d = c" for d r
    using assms Cons by (cases m; cases "m - 1") auto
  have other: "d \<noteq> c \<Longrightarrow> \<not> is_string_query d bel P (take m sq)" for d bel P
    using two by (auto simp: is_string_query_def)
  have other_csi: "c \<noteq> CHR ''['' \<Longrightarrow> \<not> is_csi_query (take m sq)"
    using two by (auto simp: is_csi_query_def)
  note str = string_query_iff [OF len at(1), where m = m]
  consider "c = CHR ''[''" | "c = CHR '']''" | "c = CHR ''P''" | "c = CHR ''_''"
    | "c \<notin> {CHR ''['', CHR '']'', CHR ''P'', CHR ''_''}" by auto
  then show ?thesis
  proof cases
    case 1
    with csi_query_iff [of sq s' m] show ?thesis
      using assms Cons other by (simp add: terminal_query_length_def is_query_def)
  next
    case 2
    with str [where bel = True and P = osc_query] show ?thesis
      using len at other other_csi by (simp add: terminal_query_length_def is_query_def)
  next
    case 3
    with str [where bel = False and P = "prefix ''+q''"] show ?thesis
      using len at other other_csi by (simp add: terminal_query_length_def is_query_def)
  next
    case 4
    with str [where bel = False and P = kitty_query] show ?thesis
      using len at other other_csi by (simp add: terminal_query_length_def is_query_def)
  next
    case 5
    then have "\<not> is_query (take m sq)" using other other_csi by (auto simp: is_query_def)
    moreover have "terminal_query_length sq = 0" using 5 len at by (simp add: terminal_query_length_def)
    ultimately show ?thesis by auto
  qed
qed

lemma is_query_esc: "is_query q \<Longrightarrow> \<exists>s. q = esc # s"
  by (auto simp: is_query_def is_csi_query_def is_string_query_def)

lemma query_prefix_unique:
  assumes "is_query q" and "is_query r" and "prefix q s" and "prefix r s"
  shows "q = r"
proof -
  obtain s' where s: "s = esc # s'"
    using is_query_esc [OF assms(1)] assms(3) by (auto simp: prefix_def)
  have "terminal_query_length s = length p" if "is_query p" "prefix p s" for p
    using that terminal_query_length_iff [OF s, of "length p"]
    by (metis append_eq_conv_conj prefix_def prefix_length_le)
  then have "length q = length r" using assms by metis
  with assms(3,4) show ?thesis by (metis append_eq_append_conv prefix_def)
qed

section \<open>Properties\<close>

text \<open>
  The reading of an output as bytes that are kept and queries that are removed: a query is removed
  wherever one starts and the bytes before it are settled.
\<close>

datatype piece = Kept char | Query string

fun kept_text :: "piece \<Rightarrow> string" where
  "kept_text (Kept c) = [c]"
| "kept_text (Query q) = []"

fun reads_as :: "string \<Rightarrow> piece list \<Rightarrow> bool" where
  "reads_as s [] \<longleftrightarrow> s = []"
| "reads_as s (Kept c # ps) \<longleftrightarrow>
     (\<exists>rest. s = c # rest \<and> (\<nexists>q. is_query q \<and> prefix q s) \<and> reads_as rest ps)"
| "reads_as s (Query q # ps) \<longleftrightarrow> is_query q \<and> (\<exists>rest. s = q @ rest \<and> reads_as rest ps)"

lemma no_query_here:
  assumes "c \<noteq> esc \<or> terminal_query_length (c # s) = 0"
  shows "\<nexists>q. is_query q \<and> prefix q (c # s)"
proof
  assume "\<exists>q. is_query q \<and> prefix q (c # s)"
  then obtain q where q: "is_query q" "prefix q (c # s)" by blast
  then have c: "c = esc" using is_query_esc [OF q(1)] by (auto simp: prefix_def)
  have "take (length q) (c # s) = q" "length q \<le> length (c # s)"
    using q(2) prefix_length_le [OF q(2)] by (auto simp: prefix_def)
  with terminal_query_length_iff [of "c # s" s "length q"] q(1) c assms show False
    by auto
qed

lemma strip_reads_as:
  "\<exists>ps. reads_as data ps \<and> strip_terminal_queries data = concat (map kept_text ps)"
proof (induction data rule: strip_terminal_queries.induct)
  case (1 data)
  show ?case
  proof (cases data)
    case Nil
    then have "reads_as data [] \<and> strip_terminal_queries data = concat (map kept_text [])"
      by (simp add: strip_terminal_queries.simps)
    then show ?thesis ..
  next
    case (Cons c rest)
    define n where "n = (if c = esc then terminal_query_length data else 0)"
    show ?thesis
    proof (cases "0 < n")
      case True
      then have c: "data = esc # rest" "terminal_query_length data = n"
        using Cons by (auto simp: n_def split: if_splits)
      from "1.IH"(1) [OF Cons n_def True] obtain ps where
        ps: "reads_as (drop n data) ps" "strip_terminal_queries (drop n data) = concat (map kept_text ps)"
        by blast
      have "is_query (take n data)" using terminal_query_length_iff [OF c(1), of n] c(2) True by simp
      with ps(1) have "reads_as data (Query (take n data) # ps)"
        by (auto intro: exI [of _ "drop n data"])
      moreover have "strip_terminal_queries data = concat (map kept_text (Query (take n data) # ps))"
        using ps(2) c True by (subst strip_terminal_queries.simps) simp
      ultimately show ?thesis by blast
    next
      case False
      from "1.IH"(2) [OF Cons n_def False] obtain ps where
        ps: "reads_as rest ps" "strip_terminal_queries rest = concat (map kept_text ps)"
        by blast
      have "c \<noteq> esc \<or> terminal_query_length (c # rest) = 0"
        using False Cons by (simp add: n_def split: if_splits)
      from no_query_here [OF this] ps(1) have "reads_as data (Kept c # ps)"
        using Cons by auto
      moreover have "strip_terminal_queries data = concat (map kept_text (Kept c # ps))"
        using ps(2) False Cons by (subst strip_terminal_queries.simps) (simp add: n_def)
      ultimately show ?thesis by blast
    qed
  qed
qed

lemma reads_as_unique: "reads_as s ps \<Longrightarrow> reads_as s qs \<Longrightarrow> ps = qs"
proof (induction s ps arbitrary: qs rule: reads_as.induct)
  case (1 s)
  then show ?case by (cases "(s, qs)" rule: reads_as.cases) (auto dest: is_query_esc)
next
  case (2 s c ps)
  show ?case
  proof (cases "(s, qs)" rule: reads_as.cases)
    case (2 s' c' qs')
    with "2.prems" "2.IH" show ?thesis by auto
  qed (use "2.prems" in auto)
next
  case (3 s q ps)
  show ?case
  proof (cases "(s, qs)" rule: reads_as.cases)
    case (3 s' q' qs')
    with "3.prems" have "is_query q" "is_query q'" "prefix q s" "prefix q' s"
      unfolding prefix_def by auto
    then have "q = q'" by (rule query_prefix_unique)
    with 3 "3.prems" "3.IH" show ?thesis by auto
  qed (use "3.prems" in \<open>auto dest: is_query_esc\<close>)
qed

lemma kept_text_length:
  "reads_as s ps \<Longrightarrow> length (concat (map kept_text ps)) \<le> length s
     \<and> (length (concat (map kept_text ps)) = length s \<longrightarrow> concat (map kept_text ps) = s)"
proof (induction s ps rule: reads_as.induct)
  case (3 s q ps)
  then obtain rest where s: "s = q @ rest" "q \<noteq> []" "reads_as rest ps"
    using is_query_esc by fastforce
  with "3.IH" [of rest] show ?case by (auto simp: length_greater_0_conv [symmetric] simp del: length_greater_0_conv)
qed auto

lemma index_of_Some:
  "index_of pat s = Some n \<Longrightarrow>
     n \<le> length s \<and> prefix pat (drop n s) \<and> (\<nexists>i. i < n \<and> prefix pat (drop i s))"
proof (induction pat s arbitrary: n rule: index_of.induct)
  case (2 pat c s)
  show ?case
  proof (cases "prefix pat (c # s)")
    case False
    with "2.prems" obtain m where m: "index_of pat s = Some m" "n = Suc m" by auto
    have "\<not> prefix pat (drop i (c # s))" if "i < n" for i
      using "2.IH" [OF False m(1)] m(2) that False by (cases i) auto
    with "2.IH" [OF False m(1)] m(2) show ?thesis by auto
  qed (use "2.prems" in auto)
qed (auto split: if_splits)

lemma index_of_None:
  "index_of pat s = None \<Longrightarrow> \<nexists>i. i < length s \<and> prefix pat (drop i s)"
proof (induction pat s rule: index_of.induct)
  case (2 pat c s)
  then have np: "\<not> prefix pat (c # s)" and n: "index_of pat s = None" by (auto split: if_splits)
  have "\<not> prefix pat (drop i (c # s))" if "i < length (c # s)" for i
    using "2.IH" [OF np n] np that by (cases i) auto
  then show ?case by blast
qed simp

text \<open>
  Exactly the queries ahead of the client are removed. The output splits at the first client
  start; the part before it has one reading as kept bytes and complete query forms, where no query
  form starts at a kept byte, and the filtered output is its kept bytes followed by the rest
  unchanged.
\<close>

theorem strip_exact:
  "\<exists>front rest ps. data = front @ rest
     \<and> (rest = [] \<or> prefix zellij_client_start rest)
     \<and> (\<nexists>i. i < length front \<and> prefix zellij_client_start (drop i data))
     \<and> reads_as front = (\<lambda>qs. qs = ps)
     \<and> strip_pre_client_queries data = concat (map kept_text ps) @ rest"
proof (cases "index_of zellij_client_start data")
  case None
  obtain ps where "reads_as data ps" "strip_terminal_queries data = concat (map kept_text ps)"
    using strip_reads_as by blast
  moreover from this(1) have "reads_as data = (\<lambda>qs. qs = ps)" using reads_as_unique by blast
  ultimately have "data = data @ [] \<and> ([] = [] \<or> prefix zellij_client_start [])
     \<and> (\<nexists>i. i < length data \<and> prefix zellij_client_start (drop i data))
     \<and> reads_as data = (\<lambda>qs. qs = ps)
     \<and> strip_pre_client_queries data = concat (map kept_text ps) @ []"
    using index_of_None [OF None] None by (simp add: strip_pre_client_queries_def)
  then show ?thesis by blast
next
  case (Some n)
  obtain ps where ps: "reads_as (take n data) ps"
    "strip_terminal_queries (take n data) = concat (map kept_text ps)"
    using strip_reads_as by blast
  have uniq: "reads_as (take n data) = (\<lambda>qs. qs = ps)" using ps(1) reads_as_unique by blast
  note at = index_of_Some [OF Some]
  have "strip_pre_client_queries data = concat (map kept_text ps) @ drop n data"
  proof (cases "length (concat (map kept_text ps)) = n")
    case True
    then have "concat (map kept_text ps) = take n data"
      using kept_text_length [OF ps(1)] at by simp
    then show ?thesis using True Some by (simp add: strip_pre_client_queries_def ps(2))
  next
    case False
    then show ?thesis using Some by (simp add: strip_pre_client_queries_def ps(2))
  qed
  with uniq at have "data = take n data @ drop n data
     \<and> (drop n data = [] \<or> prefix zellij_client_start (drop n data))
     \<and> (\<nexists>i. i < length (take n data) \<and> prefix zellij_client_start (drop i data))
     \<and> reads_as (take n data) = (\<lambda>qs. qs = ps)
     \<and> strip_pre_client_queries data = concat (map kept_text ps) @ drop n data"
    by simp
  then show ?thesis by blast
qed

end
