(* ===== verification/Go_Runes.thy ===== *)
theory Go_Runes
  imports Go_Prelude
begin

text \<open>
  Go's reading of a string as runes: \<open>[]rune(s)\<close> and \<open>range s\<close> decode UTF-8, with U+FFFD for each byte
  that starts no valid encoding. A rune is kept as its encoding.
\<close>

definition between :: "nat \<Rightarrow> nat \<Rightarrow> char \<Rightarrow> bool" where
  "between lo hi c \<longleftrightarrow> lo \<le> of_char c \<and> of_char c \<le> hi"

text \<open>The number of bytes of the rune that a string starts with; 0 for an invalid first byte.\<close>

definition rune_size :: "string \<Rightarrow> nat" where
  "rune_size s =
     (let cont = between 128 191 in
      case s of
        [] \<Rightarrow> 0
      | a # t \<Rightarrow>
          if between 0 127 a then 1
          else if between 194 223 a \<and> t \<noteq> [] \<and> cont (t ! 0) then 2
          else if between 224 239 a \<and> 1 < length t
                  \<and> (if a = CHR 0xE0 then between 160 191 (t ! 0)
                     else if a = CHR 0xED then between 128 159 (t ! 0) else cont (t ! 0))
                  \<and> cont (t ! 1) then 3
          else if between 240 244 a \<and> 2 < length t
                  \<and> (if a = CHR 0xF0 then between 144 191 (t ! 0)
                     else if a = CHR 0xF4 then between 128 143 (t ! 0) else cont (t ! 0))
                  \<and> cont (t ! 1) \<and> cont (t ! 2) then 4
          else 0)"

definition rune_error :: string where
  "rune_error = [CHR 0xEF, CHR 0xBF, CHR 0xBD]"

function runes :: "string \<Rightarrow> string list" where
  "runes s =
     (if s = [] then []
      else if rune_size s = 0 then rune_error # runes (drop 1 s)
      else take (rune_size s) s # runes (drop (rune_size s) s))"
  by pat_completeness auto
termination
  by (relation "measure length") auto

declare runes.simps [simp del]

text \<open>\<open>unicode.IsControl\<close>\<close>

definition control_rune :: "string \<Rightarrow> bool" where
  "control_rune r \<longleftrightarrow>
     (case r of
        [a] \<Rightarrow> (of_char a :: nat) < 32 \<or> of_char a = (127 :: nat)
      | [a, b] \<Rightarrow> a = CHR 0xC2 \<and> between 128 159 b
      | _ \<Rightarrow> False)"

lemma runes_Nil [simp]: "runes [] = []"
  by (subst runes.simps) simp

end
