(* ===== verification/Supervisor.thy ===== *)
theory Supervisor
  imports Launch_Plan Input_Gate Recovery_Coordinator Terminal_Queries Go_Runes
begin

text \<open>
  The helper that owns one physical terminal, \<open>RunSessionSupervisor\<close> of
  \<open>internal/mirror/session_supervisor.go\<close>: the state of its event loop, one step per \<open>select\<close> case,
  and the cleanup on return. The goroutine that reads the terminal is the step \<open>Typed_Ahead\<close>; its
  channel is the queue \<open>su_queue\<close>, whose bound only delays the reader.

  The trace holds what the helper did, newest first. What the rest of the world answers (clock,
  kernel reads and writes, process start, admission lock, random bytes) is a function of the
  trace; \<open>Looked\<close> separates two questions of one step.
\<close>

section \<open>State\<close>

record supervisor_config =
  sc_remote :: remote_config
  sc_session :: string
  sc_session_id :: string
  sc_token :: string
  sc_transport :: string
  sc_admission :: bool

text \<open>\<open>SessionControlReply\<close>, with the reason as text.\<close>

record wire_reply =
  wr_checking :: bool
  wr_reason :: string
  wr_retry_at :: gotime
  wr_grant :: "session_grant option"
  wr_ended :: bool
  wr_reset :: bool
  wr_cancel_attempt :: string

datatype effect =
    Looked
  | Sent control_request
  | Heard wire_reply
  | Queued session_input
  | Fed string session_input bool
  | Called bool "input_origin option" string
  | Pasted string "64 word" string bool
  | Painted string bool
  | Sized string
  | Answered string session_local_state
  | Started string
  | Start_Refused string
  | Proof string
  | Stopped string
  | Ended string
  | Took_Slot
  | Freed_Slot
  | Opened string "64 word"
  | Gate_Shut

record supervisor_env =
  se_now :: "effect list \<Rightarrow> gotime"
  se_drain :: "effect list \<Rightarrow> bool \<times> read_outcome list \<times> gotime"
  se_write_child :: "effect list \<Rightarrow> string \<Rightarrow> bool"
  se_write_screen :: "effect list \<Rightarrow> string \<Rightarrow> bool"
  se_slot :: "effect list \<Rightarrow> string option"
  se_start :: "effect list \<Rightarrow> command \<Rightarrow> string option"
  se_random :: "effect list \<Rightarrow> string option"
  se_winsize :: "effect list \<Rightarrow> bool"

record supervisor =
  su_client :: string
  su_attempt :: string
  su_gate :: gate
  su_queue :: "session_input list"
  su_busy :: "control_request option"
  su_retry :: bool
  su_reports :: "(string \<times> string) list"
  su_child :: "string option"
  su_slot :: bool
  su_grant :: session_grant
  su_proved :: bool
  su_stopping :: bool
  su_startup :: string
  su_failure :: string
  su_last :: wire_reply
  su_notice :: string
  su_shown :: string
  su_admission :: bool
  su_trace :: "effect list"

definition no_grant :: session_grant where
  "no_grant = \<lparr>sg_attempt = [], sg_deadline = 0\<rparr>"

definition waiting_reply :: wire_reply where
  "waiting_reply =
     \<lparr>wr_checking = False, wr_reason = ''Waiting for shared recovery'', wr_retry_at = 0,
      wr_grant = None, wr_ended = False, wr_reset = False, wr_cancel_attempt = []\<rparr>"

definition did :: "effect \<Rightarrow> supervisor \<Rightarrow> supervisor" where
  "did e s = s\<lparr>su_trace := e # su_trace s\<rparr>"

definition clock :: "supervisor_env \<Rightarrow> supervisor \<Rightarrow> gotime \<times> supervisor" where
  "clock env s = (se_now env (su_trace s), did Looked s)"

section \<open>Phase and status screen\<close>

definition session_phase :: "supervisor \<Rightarrow> string" where
  "session_phase s =
     (if gt_generation (su_gate s) \<noteq> 0 then ''ready''
      else if su_child s \<noteq> None then ''connecting''
      else if wr_checking (su_last s) then ''checking''
      else ''offline'')"

definition local_state :: "supervisor_config \<Rightarrow> supervisor \<Rightarrow> session_local_state" where
  "local_state cfg s =
     \<lparr>ls_transport = sc_transport cfg, ls_token = sc_token cfg, ls_session = sc_session cfg,
      ls_session_id = sc_session_id cfg, ls_state = session_phase s,
      ls_origin = \<lparr>or_client = su_client s, or_attempt = sg_attempt (su_grant s),
                   or_generation = gt_generation (su_gate s)\<rparr>\<rparr>"

definition em_dash :: string where
  "em_dash = [CHR 0xE2, CHR 0x80, CHR 0x94]"

definition ellipsis :: string where
  "ellipsis = [CHR 0xE2, CHR 0x80, CHR 0xA6]"

definition crlf :: string where
  "crlf = [CHR 0x0D, CHR 0x0A]"

definition csi :: "string \<Rightarrow> string" where
  "csi s = esc # CHR ''['' # s"

definition session_status_modes :: string where
  "session_status_modes =
     csi ''0m'' @ csi ''?1000l'' @ csi ''?1002l'' @ csi ''?1003l'' @ csi ''?1006l'' @ csi ''?1015l''
     @ csi ''?1004l'' @ csi ''<u'' @ csi ''?25h'' @ csi ''?2004h''"

text \<open>\<open>(wait+time.Second-1)/time.Second\<close> in 64 bits, with the quotient truncated toward zero.\<close>

definition int64 :: "int \<Rightarrow> int" where
  "int64 x = (x + 2 ^ 63) mod 2 ^ 64 - 2 ^ 63"

definition retry_seconds :: "duration \<Rightarrow> int" where
  "retry_seconds wait =
     (let v = int64 (wait + second - 1) in if 0 \<le> v then v div second else - ((- v) div second))"

definition status_base :: "supervisor \<Rightarrow> string" where
  "status_base s =
     (let phase = session_phase s;
          detail =
            (if phase = ''connecting''
             then (if su_proved s then ''Discarding unfinished input before enabling attachment''
                   else ''Connecting '' @ em_dash @ '' input is discarded'')
             else if phase = ''checking'' then ''Checking host'' @ ellipsis
             else if wr_reason (su_last s) = [] then ''Waiting for attachment admission''
             else wr_reason (su_last s))
      in if su_child s = None \<and> su_failure s \<noteq> [] then su_failure s @ ''; '' @ detail else detail)"

definition status_detail :: "supervisor_env \<Rightarrow> supervisor \<Rightarrow> string \<times> supervisor" where
  "status_detail env s =
     (if su_notice s \<noteq> [] then (su_notice s, s)
      else
        (case clock env s of (now, s1) \<Rightarrow>
           let wait = time_sub (wr_retry_at (su_last s)) now in
           (if \<not> is_zero_time (wr_retry_at (su_last s)) \<and> 0 < wait
            then status_base s @ ''; retrying in '' @ show_int (retry_seconds wait) @ ''s''
            else status_base s, s1)))"

definition write_screen :: "supervisor_env \<Rightarrow> string \<Rightarrow> supervisor \<Rightarrow> bool \<times> supervisor" where
  "write_screen env data s =
     (let ok = se_write_screen env (su_trace s) data in (ok, did (Painted data ok) s))"

definition status_screen :: "supervisor_config \<Rightarrow> string \<Rightarrow> string" where
  "status_screen cfg detail =
     rc_host (sc_remote cfg) @ '' / '' @ sc_session cfg @ crlf @ crlf @ detail @ crlf @ crlf
     @ ''Enter to retry now'' @ crlf"

definition render :: "supervisor_config \<Rightarrow> supervisor_env \<Rightarrow> supervisor \<Rightarrow> supervisor" where
  "render cfg env s =
     (if session_phase s = ''ready'' then s
      else case status_detail env s of (detail, s1) \<Rightarrow>
        (let screen = status_screen cfg detail in
         if screen = su_shown s1 then s1
         else case write_screen env (session_status_modes @ csi ''2J'' @ csi ''H'' @ screen) s1 of
           (ok, s2) \<Rightarrow> if ok then s2\<lparr>su_shown := screen\<rparr> else s2))"

section \<open>Exchanges, loss and readiness\<close>

text \<open>\<open>send\<close>: the request of the running exchange is kept where the code only keeps \<open>busy\<close>.\<close>

definition send_request :: "supervisor_config \<Rightarrow> supervisor \<Rightarrow> supervisor" where
  "send_request cfg s =
     (if su_busy s \<noteq> None then s
      else
        (let m = \<lparr>rq_token = sc_token cfg, rq_client = su_client s, rq_session = sc_session cfg,
                  rq_session_id = sc_session_id cfg,
                  rq_attempt = (if su_reports s = [] then su_attempt s else fst (hd (su_reports s))),
                  rq_event = (if su_reports s = [] then [] else snd (hd (su_reports s))),
                  rq_state = session_phase s, rq_retry = su_retry s\<rparr>
         in did (Sent m) (s\<lparr>su_busy := Some m, su_retry := False\<rparr>)))"

definition stop_child :: "supervisor \<Rightarrow> supervisor" where
  "stop_child s = (case su_child s of None \<Rightarrow> s | Some a \<Rightarrow> did (Stopped a) s)"

definition shut_gate :: "supervisor \<Rightarrow> supervisor" where
  "shut_gate s = did Gate_Shut (s\<lparr>su_gate := close_gate (su_gate s)\<rparr>)"

definition lose :: "supervisor \<Rightarrow> supervisor" where
  "lose s = stop_child ((shut_gate s)\<lparr>su_proved := False, su_stopping := True, su_startup := []\<rparr>)"

definition release_pending :: "supervisor \<Rightarrow> supervisor" where
  "release_pending s = (if su_slot s then did Freed_Slot (s\<lparr>su_slot := False\<rparr>) else s)"

text \<open>What follows a successful \<open>gate.open\<close>.\<close>

definition announce_ready :: "supervisor_config \<Rightarrow> supervisor_env \<Rightarrow> supervisor \<Rightarrow> supervisor" where
  "announce_ready cfg env s =
     (let data = csi ''0m'' @ csi ''2J'' @ csi ''H'' @ strip_pre_client_queries (su_startup s) in
      case write_screen env data (s\<lparr>su_startup := [], su_shown := []\<rparr>) of (ok, s1) \<Rightarrow>
        if \<not> ok then lose s1
        else
          (let s2 = release_pending s1 in
           send_request cfg
             (s2\<lparr>su_reports := su_reports s2 @ [(sg_attempt (su_grant s2), ''ready'')],
                 su_notice := []\<rparr>)))"

definition try_gate :: "supervisor_env \<Rightarrow> supervisor \<Rightarrow> (open_error + bool) \<times> supervisor" where
  "try_gate env s =
     (case se_drain env (su_trace s) of (nonblock, reads, now) \<Rightarrow>
        (case open_gate nonblock reads now (su_gate s) of (r, g) \<Rightarrow>
           (r, did (if r = Inr True then Opened (sg_attempt (su_grant s)) (gt_generation g) else Looked)
                 (s\<lparr>su_gate := g\<rparr>))))"

definition open_child :: "supervisor_config \<Rightarrow> supervisor_env \<Rightarrow> supervisor \<Rightarrow> supervisor" where
  "open_child cfg env s =
     (if su_child s = None \<or> su_stopping s \<or> \<not> su_proved s \<or> gt_generation (su_gate s) \<noteq> 0 then s
      else case clock env s of (now, s1) \<Rightarrow>
        if \<not> now < sg_deadline (su_grant s1) then lose s1
        else case try_gate env s1 of
          (Inl e, s2) \<Rightarrow> lose s2
        | (Inr opened, s2) \<Rightarrow> if opened then announce_ready cfg env s2 else s2)"

definition await_admission :: "supervisor_env \<Rightarrow> supervisor \<Rightarrow> supervisor" where
  "await_admission env s =
     (if su_child s = None \<and> gt_generation (su_gate s) = 0 \<and> \<not> wr_ended (su_last s)
      then if wr_checking (su_last s) then s\<lparr>su_admission := True\<rparr>
           else if is_zero_time (wr_retry_at (su_last s)) then s\<lparr>su_admission := False\<rparr>
           else (case clock env s of (now, s1) \<Rightarrow>
                   s1\<lparr>su_admission := \<not> now < wr_retry_at (su_last s)\<rparr>)
      else s\<lparr>su_admission := False\<rparr>)"

text \<open>\<open>freshAttempt\<close>: sixteen random bytes in hexadecimal.\<close>

definition hex_char :: "nat \<Rightarrow> char" where
  "hex_char n = (if n < 10 then char_of (48 + n) else char_of (87 + n))"

definition hex_encode :: "string \<Rightarrow> string" where
  "hex_encode s = concat (map (\<lambda>c. [hex_char (of_char c div 16), hex_char (of_char c mod 16)]) s)"

definition fresh_attempt :: "supervisor_env \<Rightarrow> supervisor \<Rightarrow> supervisor option" where
  "fresh_attempt env s =
     map_option (\<lambda>nonce. (did Looked s)\<lparr>su_attempt := hex_encode nonce\<rparr>) (se_random env (su_trace s))"

section \<open>The cases of the event loop\<close>

datatype exit_reason =
    Cancelled | Terminal_Gone | Detached | Session_Over | Random_Failed | Plan_Failed launch_error

datatype outcome = Continue supervisor | Return exit_reason supervisor

definition same_origin :: "supervisor_config \<Rightarrow> supervisor \<Rightarrow> input_origin \<Rightarrow> bool" where
  "same_origin cfg s origin \<longleftrightarrow>
     su_child s \<noteq> None \<and> or_generation (ls_origin (local_state cfg s)) \<noteq> 0
     \<and> origin = ls_origin (local_state cfg s)"

definition child_attempt :: "supervisor \<Rightarrow> string" where
  "child_attempt s = (case su_child s of None \<Rightarrow> [] | Some a \<Rightarrow> a)"

definition paste_child :: "supervisor_env \<Rightarrow> string \<Rightarrow> supervisor \<Rightarrow> bool \<times> supervisor" where
  "paste_child env data s =
     (let ok = se_write_child env (su_trace s) data;
          s1 = did (Pasted (child_attempt s) (gt_generation (su_gate s)) data ok) s
      in (ok, if ok then s1 else lose s1))"

text \<open>
  \<open>case call := <-localRequests\<close>; \<open>live\<close> is the check of the caller's context and process. The trace
  records the call as it was received.
\<close>

definition local_call ::
    "supervisor_config \<Rightarrow> supervisor_env \<Rightarrow> bool \<Rightarrow> input_origin option \<Rightarrow> string \<Rightarrow> supervisor
     \<Rightarrow> supervisor"
where
  "local_call cfg env live origin input s =
     (let s0 = did (Called live origin input) s;
          (err, s1) =
        (if \<not> live then (''expired terminal request'', s0)
         else case origin of
           None \<Rightarrow> ([], s0)
         | Some org \<Rightarrow>
             if \<not> same_origin cfg s0 org
             then (''attachment changed or is not ready; paste discarded'', s0)
             else (case paste_child env input s0 of
                     (ok, s1) \<Rightarrow> (if ok then [] else ''cannot write to originating attachment'', s1)))
      in did (Answered err (local_state cfg s1)) s1)"

text \<open>\<open>gate.read\<close>: one chunk of the terminal, after a held prefix that has timed out.\<close>

definition typed_ahead :: "gotime \<Rightarrow> (char \<times> gotime) list \<Rightarrow> supervisor \<Rightarrow> supervisor" where
  "typed_ahead now data s =
     (case flush_prefix now (su_gate s) of
        (items, g) \<Rightarrow> (case decode g data of
           (items1, g1) \<Rightarrow>
              s\<lparr>su_gate := g1, su_queue := su_queue s @ items @ items1,
                su_trace := rev (map Queued (items @ items1)) @ su_trace s\<rparr>))"

definition contains_enter :: "string \<Rightarrow> bool" where
  "contains_enter data \<longleftrightarrow> CHR 0x0D \<in> set data \<or> CHR 0x0A \<in> set data"

definition retry_notice :: string where
  "retry_notice = ''Retry requested '' @ em_dash @ '' checking host'' @ ellipsis"

text \<open>\<open>case item := <-input\<close>\<close>

definition deliver ::
    "supervisor_config \<Rightarrow> supervisor_env \<Rightarrow> session_input \<Rightarrow> supervisor \<Rightarrow> supervisor" where
  "deliver cfg env item s =
     (let current = gt_generation (su_gate s);
          s1 =
            (if su_child s \<noteq> None \<and> current \<noteq> 0 \<and> in_generation item = current
             then (let ok = se_write_child env (su_trace s) (in_data item);
                       s1 = did (Fed (child_attempt s) item ok) s
                   in if ok then s1 else lose s1)
             else if current = 0 \<and> in_generation item = 0 \<and> \<not> in_paste item
                     \<and> contains_enter (in_data item)
             then send_request cfg (render cfg env (s\<lparr>su_retry := True, su_notice := retry_notice\<rparr>))
             else s)
      in open_child cfg env s1)"

definition resized :: "supervisor_config \<Rightarrow> supervisor_env \<Rightarrow> supervisor \<Rightarrow> supervisor" where
  "resized cfg env s =
     (let s1 = render cfg env (s\<lparr>su_shown := []\<rparr>) in
      case su_child s1 of
        None \<Rightarrow> s1
      | Some a \<Rightarrow> if se_winsize env (su_trace s1) then did (Sized a) s1 else did Looked s1)"

text \<open>\<open>case packet := <-output\<close>\<close>

definition max_startup :: int where
  "max_startup = 4 * 2 ^ 20"

definition take_output :: "supervisor_env \<Rightarrow> string \<Rightarrow> supervisor \<Rightarrow> supervisor" where
  "take_output env data s =
     (if gt_generation (su_gate s) \<noteq> 0
      then (case write_screen env data s of (ok, s1) \<Rightarrow> if ok then s1 else lose s1)
      else if su_stopping s then s
      else if max_startup < int (length (su_startup s)) + int (length data) then lose s
      else s\<lparr>su_startup := su_startup s @ data\<rparr>)"

definition take_event :: "supervisor \<Rightarrow> string \<Rightarrow> supervisor" where
  "take_event s event =
     (if event = ''ready'' \<and> \<not> su_stopping s
      then did (Proof (child_attempt s)) (s\<lparr>su_proved := True\<rparr>) else lose s)"

definition packet ::
    "supervisor_config \<Rightarrow> supervisor_env \<Rightarrow> string \<Rightarrow> string list \<Rightarrow> supervisor \<Rightarrow> supervisor" where
  "packet cfg env data events s = open_child cfg env (foldl take_event (take_output env data s) events)"

text \<open>\<open>case result := <-done\<close>\<close>

definition child_done :: "supervisor_config \<Rightarrow> supervisor_env \<Rightarrow> string \<Rightarrow> supervisor \<Rightarrow> outcome" where
  "child_done cfg env result s =
     (let s1 = release_pending (stop_child (shut_gate s));
          s2 = did (Ended (child_attempt s1)) (s1\<lparr>su_child := None, su_proved := False, su_startup := []\<rparr>)
      in if result = ''detached'' then Return Detached s2
         else Continue (send_request cfg (render cfg env
           (s2\<lparr>su_reports := su_reports s2 @ [(sg_attempt (su_grant s2), ''lost'')],
               su_failure := ''Connection lost'' @ (if result = [] then [] else '' ('' @ result @ '')''),
               su_notice := []\<rparr>))))"

section \<open>Replies of the coordinator\<close>

definition recovery_display_reason :: "string \<Rightarrow> string" where
  "recovery_display_reason reason =
     concat (take 512 (map (\<lambda>r. if control_rune r then '' '' else r) (runes reason)))"

definition acknowledge ::
    "supervisor_env \<Rightarrow> control_request \<Rightarrow> supervisor \<Rightarrow> supervisor option" where
  "acknowledge env m s =
     (if rq_event m \<noteq> [] \<and> su_reports s \<noteq> [] \<and> hd (su_reports s) = (rq_attempt m, rq_event m)
      then (let s1 = s\<lparr>su_reports := tl (su_reports s)\<rparr> in
            if rq_event m = ''lost'' then fresh_attempt env (s1\<lparr>su_grant := no_grant\<rparr>) else Some s1)
      else Some s)"

definition revoke :: "wire_reply \<Rightarrow> supervisor \<Rightarrow> supervisor" where
  "revoke r s =
     (if su_child s \<noteq> None \<and> wr_cancel_attempt r = sg_attempt (su_grant s) then lose s else s)"

definition apply_reset :: "wire_reply \<Rightarrow> supervisor \<Rightarrow> supervisor" where
  "apply_reset r s =
     (if wr_reset r \<and> gt_generation (su_gate s) = 0
      then if su_child s \<noteq> None then lose s
           else if su_reports s = []
           then s\<lparr>su_grant := no_grant,
                  su_reports := (if wr_cancel_attempt r = su_attempt s then [(su_attempt s, ''lost'')] else [])\<rparr>
           else s
      else s)"

definition grant_for :: "control_request \<Rightarrow> wire_reply \<Rightarrow> supervisor \<Rightarrow> session_grant option" where
  "grant_for m r s =
     (case wr_grant r of
        None \<Rightarrow> None
      | Some g \<Rightarrow>
          if \<not> wr_reset r \<and> rq_event m = [] \<and> su_child s = None \<and> su_reports s = []
             \<and> sg_attempt (su_grant s) = [] \<and> sg_attempt g = su_attempt s \<and> is_hex32 (sg_attempt g)
          then Some g else None)"

text \<open>
  Starting the attachment that was granted: the pending slot, when the control has one to give, and
  the transport.
\<close>

definition acquire_slot :: "supervisor_config \<Rightarrow> supervisor_env \<Rightarrow> supervisor \<Rightarrow> string option \<times> supervisor"
where
  "acquire_slot cfg env s =
     (if \<not> sc_admission cfg then (None, s)
      else case se_slot env (su_trace s) of
        None \<Rightarrow> (None, did Took_Slot (s\<lparr>su_slot := True\<rparr>))
      | Some e \<Rightarrow> (Some e, did Looked (s\<lparr>su_slot := False\<rparr>)))"

definition start_child ::
    "supervisor_env \<Rightarrow> command \<Rightarrow> string \<Rightarrow> supervisor \<Rightarrow> string option \<times> supervisor" where
  "start_child env command attempt s =
     (case se_start env (su_trace s) command of
        None \<Rightarrow> (None, did (Started attempt) (s\<lparr>su_child := Some attempt\<rparr>))
      | Some e \<Rightarrow> (Some e, did (Start_Refused attempt) s))"

definition attach ::
    "supervisor_config \<Rightarrow> supervisor_env \<Rightarrow> command \<Rightarrow> session_grant \<Rightarrow> supervisor \<Rightarrow> supervisor" where
  "attach cfg env command g s =
     (let s1 = s\<lparr>su_grant := g, su_failure := [], su_startup := [], su_stopping := False, su_proved := False\<rparr>;
          (e, s2) = (case acquire_slot cfg env s1 of
                       (Some e, s2) \<Rightarrow> (Some e, s2)
                     | (None, s2) \<Rightarrow> start_child env command (sg_attempt g) s2)
      in case e of
           None \<Rightarrow> s2
         | Some text \<Rightarrow>
             (release_pending s2)\<lparr>su_failure := ''Cannot start attachment: '' @ text,
                su_reports := su_reports s2 @ [(sg_attempt g, ''lost'')]\<rparr>)"

definition settle_reply :: "supervisor_config \<Rightarrow> supervisor_env \<Rightarrow> supervisor \<Rightarrow> supervisor" where
  "settle_reply cfg env s =
     (let s1 = render cfg env s;
          s2 = (if su_reports s1 \<noteq> [] \<or> su_retry s1 then send_request cfg s1 else s1)
      in await_admission env s2)"

definition take_grant ::
    "supervisor_config \<Rightarrow> supervisor_env \<Rightarrow> control_request \<Rightarrow> wire_reply \<Rightarrow> supervisor \<Rightarrow> outcome" where
  "take_grant cfg env m r s =
     (case grant_for m r s of
        None \<Rightarrow> Continue (settle_reply cfg env s)
      | Some g \<Rightarrow>
          (case clock env s of (now, s1) \<Rightarrow>
             if \<not> now < sg_deadline g
             then Continue (send_request cfg
                    (s1\<lparr>su_reports := su_reports s1 @ [(sg_attempt g, ''lost'')]\<rparr>))
             else (case plan_session_attachment (sc_remote cfg) (sc_session cfg) (sc_session_id cfg)
                          (sg_attempt g) of
                     Inl e \<Rightarrow> Return (Plan_Failed e) s1
                   | Inr command \<Rightarrow>
                       Continue (settle_reply cfg env (attach cfg env command g s1)))))"

definition take_reply ::
    "supervisor_config \<Rightarrow> supervisor_env \<Rightarrow> control_request \<Rightarrow> wire_reply \<Rightarrow> supervisor \<Rightarrow> outcome" where
  "take_reply cfg env m r s =
     (case acknowledge env m s of
        None \<Rightarrow> Return Random_Failed s
      | Some s1 \<Rightarrow>
          (let s2 = did (Heard r) (s1\<lparr>su_last := r, su_notice := []\<rparr>) in
           if wr_ended r then Return Session_Over s2
           else take_grant cfg env m r (apply_reset r (revoke r s2))))"

text \<open>\<open>case result := <-replies\<close>\<close>

definition replied ::
    "supervisor_config \<Rightarrow> supervisor_env \<Rightarrow> string + wire_reply \<Rightarrow> control_request \<Rightarrow> supervisor
     \<Rightarrow> outcome"
where
  "replied cfg env result m s =
     (let s1 = s\<lparr>su_busy := None\<rparr> in
      case result of
        Inl err \<Rightarrow>
          Continue (render cfg env
            (s1\<lparr>su_retry := su_retry s1 \<or> rq_retry m,
                su_notice := ''Shared recovery unavailable: '' @ recovery_display_reason err\<rparr>))
      | Inr r \<Rightarrow> take_reply cfg env m r s1)"

definition check_deadline :: "supervisor_env \<Rightarrow> supervisor \<Rightarrow> supervisor" where
  "check_deadline env s =
     (if su_child s \<noteq> None \<and> gt_generation (su_gate s) = 0
      then (case clock env s of (now, s1) \<Rightarrow> if \<not> now < sg_deadline (su_grant s1) then lose s1 else s1)
      else s)"

definition ticked :: "supervisor_config \<Rightarrow> supervisor_env \<Rightarrow> supervisor \<Rightarrow> supervisor" where
  "ticked cfg env s = send_request cfg (render cfg env (open_child cfg env (check_deadline env s)))"

section \<open>The event loop\<close>

datatype loop_event =
    Cancel
  | Local_Call bool "input_origin option" string
  | Typed_Ahead gotime "(char \<times> gotime) list"
  | Deliver
  | Input_Closed
  | Resized
  | Packet string "string list"
  | Child_Done string
  | Replied "string + wire_reply"
  | Admission
  | Tick

definition enabled :: "supervisor \<Rightarrow> loop_event \<Rightarrow> bool" where
  "enabled s ev =
     (case ev of
        Deliver \<Rightarrow> su_queue s \<noteq> []
      | Input_Closed \<Rightarrow> su_queue s = []
      | Packet data events \<Rightarrow> su_child s \<noteq> None
      | Child_Done result \<Rightarrow> su_child s \<noteq> None
      | Replied result \<Rightarrow> su_busy s \<noteq> None
      | Admission \<Rightarrow> su_admission s
      | _ \<Rightarrow> True)"

definition step :: "supervisor_config \<Rightarrow> supervisor_env \<Rightarrow> loop_event \<Rightarrow> supervisor \<Rightarrow> outcome" where
  "step cfg env ev s =
     (case ev of
        Cancel \<Rightarrow> Return Cancelled s
      | Local_Call live origin input \<Rightarrow> Continue (local_call cfg env live origin input s)
      | Typed_Ahead now data \<Rightarrow> Continue (typed_ahead now data s)
      | Deliver \<Rightarrow>
          (case su_queue s of
             [] \<Rightarrow> Continue s
           | item # rest \<Rightarrow> Continue (deliver cfg env item (s\<lparr>su_queue := rest\<rparr>)))
      | Input_Closed \<Rightarrow> Return Terminal_Gone s
      | Resized \<Rightarrow> Continue (resized cfg env s)
      | Packet data events \<Rightarrow> Continue (packet cfg env data events s)
      | Child_Done result \<Rightarrow> child_done cfg env result s
      | Replied result \<Rightarrow>
          (case su_busy s of None \<Rightarrow> Continue s | Some m \<Rightarrow> replied cfg env result m s)
      | Admission \<Rightarrow> Continue (send_request cfg (s\<lparr>su_admission := False\<rparr>))
      | Tick \<Rightarrow> Continue (ticked cfg env s))"

text \<open>
  The state before the loop, and the deferred cleanup: the gate is closed, the child is stopped and
  awaited, the pending slot is released and the terminal modes are reset.
\<close>

definition start_supervisor ::
    "supervisor_config \<Rightarrow> supervisor_env \<Rightarrow> string \<Rightarrow> string \<Rightarrow> launch_error + supervisor" where
  "start_supervisor cfg env nonce first =
     and_then (plan_session_attachment (sc_remote cfg) (sc_session cfg) (sc_session_id cfg) (hex_encode nonce))
       (\<lambda>_. Inr (send_request cfg (render cfg env
          \<lparr>su_client = hex_encode nonce, su_attempt = hex_encode first,
           su_gate = \<lparr>gt_generation = 0, gt_next = 0, gt_paste = False, gt_paste_generation = 0,
                      gt_prefix = [], gt_prefix_generation = 0, gt_prefix_at = 0\<rparr>,
           su_queue = [], su_busy = None, su_retry = False, su_reports = [], su_child = None,
           su_slot = False, su_grant = no_grant, su_proved = False, su_stopping = False,
           su_startup = [], su_failure = [], su_last = waiting_reply, su_notice = [], su_shown = [],
           su_admission = False, su_trace = []\<rparr>)))"

definition finish :: "supervisor_env \<Rightarrow> supervisor \<Rightarrow> supervisor" where
  "finish env s =
     (let s1 = shut_gate s;
          s2 = (case su_child s1 of
                  None \<Rightarrow> s1
                | Some a \<Rightarrow> did (Ended a) ((stop_child s1)\<lparr>su_child := None\<rparr>))
      in snd (write_screen env (csi ''?2004l'' @ csi ''0m'') (release_pending s2)))"

inductive runs :: "supervisor_config \<Rightarrow> supervisor_env \<Rightarrow> supervisor \<Rightarrow> bool"
  for cfg env where
  runs_start: "start_supervisor cfg env nonce first = Inr s \<Longrightarrow> runs cfg env s"
| runs_step: "runs cfg env s \<Longrightarrow> enabled s ev \<Longrightarrow> step cfg env ev s = Continue s' \<Longrightarrow> runs cfg env s'"

end
