(* ===== verification/Supervisor_Safety.thy ===== *)
theory Supervisor_Safety
  imports Supervisor
begin

text \<open>
  What the supervisor of one terminal may do, as a predicate on its trace (newest effect first), and
  the invariant of its state that establishes it: one attachment at a time, started for a granted
  attempt; input only for the attachment that owns the terminal; reports that are true when sent.
\<close>

section \<open>Reading a trace\<close>

text \<open>
  The attachment that runs, whether a pending slot is held, the attachment and generation that own
  the input, whether the running attachment has proved itself, and the last reply with the deadline
  of the running attachment's grant.
\<close>

fun live :: "effect list \<Rightarrow> string option" where
  "live [] = None"
| "live (Started a # t) = Some a"
| "live (Ended a # t) = None"
| "live (e # t) = live t"

fun slot_held :: "effect list \<Rightarrow> bool" where
  "slot_held [] = False"
| "slot_held (Took_Slot # t) = True"
| "slot_held (Freed_Slot # t) = False"
| "slot_held (e # t) = slot_held t"

fun open_for :: "effect list \<Rightarrow> (string \<times> 64 word) option" where
  "open_for [] = None"
| "open_for (Opened a g # t) = Some (a, g)"
| "open_for (Gate_Shut # t) = None"
| "open_for (e # t) = open_for t"

fun proven :: "effect list \<Rightarrow> bool" where
  "proven [] = False"
| "proven (Proof a # t) = True"
| "proven (Started a # t) = False"
| "proven (Stopped a # t) = False"
| "proven (e # t) = proven t"

fun last_heard :: "effect list \<Rightarrow> wire_reply option" where
  "last_heard [] = None"
| "last_heard (Heard r # t) = Some r"
| "last_heard (e # t) = last_heard t"

fun lease :: "effect list \<Rightarrow> gotime option" where
  "lease [] = None"
| "lease (Started a # t) =
     (case last_heard t of None \<Rightarrow> None | Some r \<Rightarrow> map_option sg_deadline (wr_grant r))"
| "lease (e # t) = lease t"

section \<open>Lawful traces\<close>

definition owner_generation :: "effect list \<Rightarrow> 64 word" where
  "owner_generation t = (case open_for t of None \<Rightarrow> 0 | Some (a, g) \<Rightarrow> g)"

fun fits :: "supervisor_config \<Rightarrow> supervisor_env \<Rightarrow> effect \<Rightarrow> effect list \<Rightarrow> bool" where
  "fits cfg env (Fed a item ok) t \<longleftrightarrow> open_for t = Some (a, in_generation item)"
| "fits cfg env (Pasted a g data ok) t \<longleftrightarrow>
     (\<exists>t' org. t = Called True (Some org) data # t' \<and> or_attempt org = a \<and> or_generation org = g
        \<and> open_for t' = Some (a, g))"
| "fits cfg env (Opened a g) t \<longleftrightarrow>
     live t = Some a \<and> proven t \<and> open_for t = None \<and> g \<noteq> 0
     \<and> (\<exists>t' d. t = Looked # t' \<and> lease t = Some d \<and> se_now env t' < d)"
| "fits cfg env (Started a) t \<longleftrightarrow>
     live t = None \<and> open_for t = None \<and> is_hex32 a
     \<and> (\<exists>t' r g. t = (if sc_admission cfg then [Took_Slot] else []) @ Looked # t'
          \<and> last_heard t' = Some r \<and> wr_grant r = Some g \<and> sg_attempt g = a
          \<and> \<not> wr_reset r \<and> \<not> wr_ended r \<and> se_now env t' < sg_deadline g)"
| "fits cfg env (Ended a) t \<longleftrightarrow> live t = Some a \<and> open_for t = None"
| "fits cfg env (Proof a) t \<longleftrightarrow> live t = Some a"
| "fits cfg env Took_Slot t \<longleftrightarrow> sc_admission cfg \<and> \<not> slot_held t \<and> live t = None"
| "fits cfg env (Sent m) t \<longleftrightarrow>
     (rq_event m = ''ready'' \<longrightarrow> (\<exists>g. Opened (rq_attempt m) g \<in> set t))
     \<and> (rq_event m = ''lost'' \<longrightarrow> live t = None)
     \<and> (rq_state m = ''ready'') = (open_for t \<noteq> None)"
| "fits cfg env (Answered err st) t \<longleftrightarrow> or_generation (ls_origin st) = owner_generation t"
| "fits cfg env e t \<longleftrightarrow> True"

fun lawful :: "supervisor_config \<Rightarrow> supervisor_env \<Rightarrow> effect list \<Rightarrow> bool" where
  "lawful cfg env [] \<longleftrightarrow> True"
| "lawful cfg env (e # t) \<longleftrightarrow> fits cfg env e t \<and> lawful cfg env t"

text \<open>Every paste answers a call that names this client.\<close>

fun own_calls :: "string \<Rightarrow> effect list \<Rightarrow> bool" where
  "own_calls c [] \<longleftrightarrow> True"
| "own_calls c (Pasted a g d ok # t) \<longleftrightarrow>
     (\<exists>t' org. t = Called True (Some org) d # t' \<and> or_client org = c) \<and> own_calls c t"
| "own_calls c (e # t) \<longleftrightarrow> own_calls c t"

lemma own_calls_append: "own_calls c (new @ e # old) \<Longrightarrow> own_calls c (e # old)"
proof (induction new)
  case (Cons e' new)
  then show ?case by (cases e') auto
qed simp

lemma lawful_append: "lawful cfg env (new @ e # old) \<Longrightarrow> fits cfg env e old \<and> lawful cfg env old"
  by (induction new) auto

section \<open>The invariant\<close>

definition reports_ok :: "supervisor \<Rightarrow> bool" where
  "reports_ok s \<longleftrightarrow>
     (case su_child s of
        None \<Rightarrow> (\<exists>rs a. su_reports s = map (\<lambda>x. (x, ''ready'')) rs @ [(a, ''lost'')] \<and> length rs \<le> 1)
                \<or> su_reports s = []
      | Some a \<Rightarrow> su_reports s = []
                  \<or> (su_reports s = [(a, ''ready'')]
                     \<and> (su_stopping s \<or> gt_generation (su_gate s) \<noteq> 0)))
     \<and> (\<forall>a. (a, ''ready'') \<in> set (su_reports s) \<longrightarrow> (\<exists>g. Opened a g \<in> set (su_trace s)))"

definition traced :: "supervisor_config \<Rightarrow> supervisor_env \<Rightarrow> supervisor \<Rightarrow> bool" where
  "traced cfg env s \<longleftrightarrow>
     lawful cfg env (su_trace s)
     \<and> live (su_trace s) = su_child s
     \<and> slot_held (su_trace s) = su_slot s
     \<and> open_for (su_trace s) =
         (if gt_generation (su_gate s) = 0 then None
          else Some (sg_attempt (su_grant s), gt_generation (su_gate s)))
     \<and> (su_proved s \<longrightarrow> proven (su_trace s))
     \<and> own_calls (su_client s) (su_trace s)"

definition owned :: "supervisor \<Rightarrow> bool" where
  "owned s \<longleftrightarrow>
     (su_child s \<noteq> None \<longrightarrow> su_child s = Some (sg_attempt (su_grant s))
        \<and> lease (su_trace s) = Some (sg_deadline (su_grant s)))
     \<and> (gt_generation (su_gate s) \<noteq> 0 \<longrightarrow> su_child s \<noteq> None \<and> \<not> su_stopping s)
     \<and> (su_slot s \<longrightarrow> su_child s \<noteq> None)
     \<and> int (length (su_startup s)) \<le> max_startup"

definition sound :: "supervisor_config \<Rightarrow> supervisor_env \<Rightarrow> supervisor \<Rightarrow> bool" where
  "sound cfg env s \<longleftrightarrow> traced cfg env s \<and> owned s \<and> reports_ok s"

lemmas sound_defs = sound_def traced_def owned_def reports_ok_def

section \<open>Preservation\<close>

lemma did_simps [simp]:
  "su_trace (did e s) = e # su_trace s" "su_child (did e s) = su_child s" "su_gate (did e s) = su_gate s"
  "su_grant (did e s) = su_grant s" "su_slot (did e s) = su_slot s" "su_proved (did e s) = su_proved s"
  "su_stopping (did e s) = su_stopping s" "su_startup (did e s) = su_startup s"
  "su_reports (did e s) = su_reports s" "su_queue (did e s) = su_queue s"
  "su_retry (did e s) = su_retry s" "su_attempt (did e s) = su_attempt s" "su_busy (did e s) = su_busy s"
  "su_client (did e s) = su_client s" "su_last (did e s) = su_last s" "su_shown (did e s) = su_shown s"
  by (simp_all add: did_def)

text \<open>Effects that concern neither attachments nor reports.\<close>

fun plain :: "effect \<Rightarrow> bool" where
  "plain Looked = True"
| "plain (Painted d ok) = True"
| "plain (Sized a) = True"
| "plain (Start_Refused a) = True"
| "plain (Queued i) = True"
| "plain e = False"

lemma plain_trace:
  assumes "list_all plain p"
  shows "live (p @ t) = live t \<and> slot_held (p @ t) = slot_held t \<and> open_for (p @ t) = open_for t
    \<and> proven (p @ t) = proven t \<and> last_heard (p @ t) = last_heard t \<and> lease (p @ t) = lease t
    \<and> (lawful cfg env (p @ t) \<longleftrightarrow> lawful cfg env t)
    \<and> (own_calls c (p @ t) \<longleftrightarrow> own_calls c t)
    \<and> (Opened a g \<in> set (p @ t) \<longleftrightarrow> Opened a g \<in> set t)"
  using assms
proof (induction p)
  case (Cons e p)
  then show ?case by (cases e) auto
qed simp

text \<open>Two states that agree on what the invariant reads, up to plain effects.\<close>

definition alike :: "supervisor \<Rightarrow> supervisor \<Rightarrow> bool" where
  "alike s t \<longleftrightarrow>
     (\<exists>p. list_all plain p \<and> su_trace t = p @ su_trace s)
     \<and> su_child t = su_child s \<and> gt_generation (su_gate t) = gt_generation (su_gate s)
     \<and> su_grant t = su_grant s \<and> su_slot t = su_slot s \<and> su_proved t = su_proved s
     \<and> su_stopping t = su_stopping s \<and> su_startup t = su_startup s \<and> su_reports t = su_reports s
     \<and> su_queue t = su_queue s \<and> su_client t = su_client s"

lemma alike_sound:
  assumes "alike s t" and "sound cfg env s"
  shows "sound cfg env t"
proof -
  obtain p where p: "list_all plain p" "su_trace t = p @ su_trace s"
    using assms(1) by (auto simp: alike_def)
  note same = plain_trace [OF p(1), of "su_trace s"]
  from assms(1) have eq: "su_child t = su_child s" "gt_generation (su_gate t) = gt_generation (su_gate s)"
    "su_grant t = su_grant s" "su_slot t = su_slot s" "su_proved t = su_proved s"
    "su_stopping t = su_stopping s" "su_startup t = su_startup s" "su_reports t = su_reports s"
    "su_client t = su_client s"
    by (simp_all add: alike_def)
  from assms(2) show ?thesis
    unfolding sound_defs eq p(2) using same by simp
qed

lemma alike_refl [simp]: "alike s s"
  by (simp add: alike_def)

lemma alike_heard: "alike s t \<Longrightarrow> last_heard (su_trace t) = last_heard (su_trace s)"
  using plain_trace by (auto simp: alike_def)

lemma alike_trans:
  assumes "alike s t" and "alike t u"
  shows "alike s u"
proof -
  obtain p q where "list_all plain p" "su_trace t = p @ su_trace s" "list_all plain q"
    "su_trace u = q @ su_trace t"
    using assms by (auto simp: alike_def)
  then have "list_all plain (q @ p) \<and> su_trace u = (q @ p) @ su_trace s" by simp
  with assms show ?thesis unfolding alike_def by (metis (no_types))
qed

lemma clock_alike: "clock env s = (now, t) \<Longrightarrow> alike s t"
  by (auto simp: clock_def alike_def intro: exI [of _ "[Looked]"])

lemma write_screen_alike: "write_screen env d s = (b, t) \<Longrightarrow> alike s t"
  by (auto simp: write_screen_def alike_def Let_def intro: exI [of _ "[Painted d b]"])

lemma render_alike: "alike s (render cfg env s)"
proof -
  have d: "alike s t" if "status_detail env s = (x, t)" for x t
    using that clock_alike by (auto simp: status_detail_def Let_def split: if_splits prod.splits)
  have shown: "alike s u \<Longrightarrow> alike s (u\<lparr>su_shown := x\<rparr>)" for u x by (simp add: alike_def)
  show ?thesis
    by (auto simp: render_def Let_def intro: d shown alike_trans [OF d write_screen_alike]
        split: prod.splits)
qed

lemma alike_update [simp]:
  "alike s (s\<lparr>su_shown := x\<rparr>)" "alike s (s\<lparr>su_notice := x\<rparr>)" "alike s (s\<lparr>su_retry := b\<rparr>)"
  "alike s (s\<lparr>su_busy := m\<rparr>)" "alike s (s\<lparr>su_admission := b\<rparr>)" "alike s (s\<lparr>su_failure := x\<rparr>)"
  "alike s (s\<lparr>su_attempt := x\<rparr>)" "alike s (s\<lparr>su_last := r\<rparr>)"
  by (simp_all add: alike_def)

lemma send_sound: "sound cfg env s \<Longrightarrow> sound cfg env (send_request cfg s)"
  unfolding sound_defs
  by (cases "su_reports s") (auto simp: send_request_def Let_def session_phase_def split: option.splits)

lemma stop_sound: "sound cfg env s \<Longrightarrow> \<not> su_proved s \<Longrightarrow> sound cfg env (stop_child s)"
  unfolding sound_defs stop_child_def by (auto split: option.splits)

lemma shut_sound:
  "sound cfg env s \<Longrightarrow> su_child s = None \<or> su_stopping s \<or> su_reports s = [] \<Longrightarrow> sound cfg env (shut_gate s)"
  unfolding sound_defs shut_gate_def close_gate_def by (auto split: option.splits)

lemma lose_sound: "sound cfg env s \<Longrightarrow> sound cfg env (lose s)"
  unfolding sound_defs lose_def shut_gate_def close_gate_def stop_child_def
  by (auto simp: max_startup_def split: option.splits)

lemma release_sound: "sound cfg env s \<Longrightarrow> sound cfg env (release_pending s)"
  unfolding sound_defs release_pending_def by (auto split: option.splits)

lemma gate_nonzero: "open_gate n reads now g = (Inr True, h) \<Longrightarrow> gt_generation h \<noteq> 0"
  by (auto simp: open_gate_def Let_def split: if_splits prod.splits sum.splits)

lemma settle_generation: "gt_generation (fst (settle g items)) = gt_generation g"
  by (induction g items rule: settle.induct) (subst settle.simps, auto simp: Let_def)

lemma decode_from_generation: "gt_generation (snd (decode_from g items data)) = gt_generation g"
proof (induction g items data rule: decode_from.induct)
  case (2 g items b now data)
  then show ?case
    using settle_generation [of "add_byte g b now" items]
    by (auto simp: add_byte_def Let_def split: prod.splits)
qed simp

lemma drain_generation: "gt_generation (snd (drain n reads g)) = gt_generation g"
  by (induction n reads g rule: drain.induct)
    (auto simp: decode_def decode_from_generation split: read_outcome.splits)

lemma gate_unopened:
  assumes "open_gate n reads now g = (r, h)" and "r \<noteq> Inr True"
  shows "gt_generation h = gt_generation g"
proof -
  have "gt_generation (snd (flush_prefix now (snd (drain 16 reads g)))) = gt_generation g"
    using drain_generation [of 16 reads g] by (simp add: flush_prefix_def)
  with assms show ?thesis
    using drain_generation [of 16 reads g]
    by (auto simp: open_gate_def Let_def split: if_splits prod.splits sum.splits)
qed

lemma try_gate_sound:
  assumes s: "sound cfg env s" and t: "su_trace s = Looked # t" "se_now env t < sg_deadline (su_grant s)"
    and c: "su_child s \<noteq> None" "\<not> su_stopping s" "su_proved s" "gt_generation (su_gate s) = 0"
    and r: "try_gate env s = (r, s1)"
  shows "sound cfg env s1 \<and> su_proved s1
    \<and> (r = Inr True \<longrightarrow> su_child s1 = Some (sg_attempt (su_grant s1)) \<and> su_reports s1 = []
         \<and> gt_generation (su_gate s1) \<noteq> 0
         \<and> (\<exists>g. Opened (sg_attempt (su_grant s1)) g \<in> set (su_trace s1)))"
proof -
  obtain nb reads now where d: "se_drain env (su_trace s) = (nb, reads, now)"
    by (cases "se_drain env (su_trace s)")
  obtain r' h where o: "open_gate nb reads now (su_gate s) = (r', h)"
    by (cases "open_gate nb reads now (su_gate s)")
  have s1: "r' = r" "s1 = did (if r = Inr True then Opened (sg_attempt (su_grant s)) (gt_generation h) else Looked)
      (s\<lparr>su_gate := h\<rparr>)"
    using r by (auto simp: try_gate_def d o)
  show ?thesis
  proof (cases "r = Inr True")
    case True
    then have "gt_generation h \<noteq> 0" using o s1(1) gate_nonzero by metis
    with s t c True s1(2) show ?thesis
      unfolding sound_defs by (auto split: option.splits)
  next
    case False
    then have "gt_generation h = gt_generation (su_gate s)" using o s1(1) gate_unopened by metis
    then have "alike s s1" using False s1(2) by (auto simp: alike_def intro: exI [of _ "[Looked]"])
    moreover have "su_proved s1" using s1(2) c(3) by simp
    ultimately show ?thesis using s False alike_sound by blast
  qed
qed

lemma announce_sound:
  assumes s: "sound cfg env s" and r: "su_child s = Some (sg_attempt (su_grant s))" "su_reports s = []"
    "gt_generation (su_gate s) \<noteq> 0" "Opened (sg_attempt (su_grant s)) g \<in> set (su_trace s)"
  shows "sound cfg env (announce_ready cfg env s)"
proof -
  let ?s = "s\<lparr>su_startup := [], su_shown := []\<rparr>"
  let ?d = "csi ''0m'' @ csi ''2J'' @ csi ''H'' @ strip_pre_client_queries (su_startup s)"
  obtain ok t where w: "write_screen env ?d ?s = (ok, t)" by (cases "write_screen env ?d ?s")
  have "sound cfg env ?s" using s unfolding sound_defs by (auto simp: max_startup_def split: option.splits)
  then have t: "sound cfg env t" using w write_screen_alike alike_sound by metis
  let ?u = "release_pending t"
  have u: "sound cfg env ?u" using t by (rule release_sound)
  have eq: "su_child ?u = Some (sg_attempt (su_grant ?u))" "su_reports ?u = []"
    "gt_generation (su_gate ?u) \<noteq> 0" "Opened (sg_attempt (su_grant ?u)) g \<in> set (su_trace ?u)"
    using r w by (auto simp: write_screen_def release_pending_def Let_def)
  have "sound cfg env (?u\<lparr>su_reports := su_reports ?u @ [(sg_attempt (su_grant ?u), ''ready'')], su_notice := []\<rparr>)"
    using u eq unfolding sound_defs by auto
  from send_sound [OF this] lose_sound [OF t] show ?thesis
    by (simp add: announce_ready_def Let_def w)
qed

lemma open_sound:
  assumes s: "sound cfg env s"
  shows "sound cfg env (open_child cfg env s)"
proof (cases "su_child s = None \<or> su_stopping s \<or> \<not> su_proved s \<or> gt_generation (su_gate s) \<noteq> 0")
  case False
  obtain now t where c: "clock env s = (now, t)" by (cases "clock env s")
  then have t: "sound cfg env t" using s clock_alike alike_sound by metis
  show ?thesis
  proof (cases "now < sg_deadline (su_grant t)")
    case True
    obtain r u where g: "try_gate env t = (r, u)" by (cases "try_gate env t")
    from try_gate_sound [OF t _ _ _ _ _ _ g, of "su_trace s"] c False True
    have u: "sound cfg env u \<and> su_proved u
      \<and> (r = Inr True \<longrightarrow> su_child u = Some (sg_attempt (su_grant u)) \<and> su_reports u = []
         \<and> gt_generation (su_gate u) \<noteq> 0 \<and> (\<exists>g. Opened (sg_attempt (su_grant u)) g \<in> set (su_trace u)))"
      by (auto simp: clock_def)
    then have "r = Inr True \<Longrightarrow> sound cfg env (announce_ready cfg env u)" using announce_sound by blast
    with u True False c g show ?thesis
      by (auto simp: open_child_def lose_sound split: sum.splits)
  next
    case no: False
    with lose_sound [OF t] c False show ?thesis by (auto simp: open_child_def)
  qed
qed (use s in \<open>auto simp: open_child_def\<close>)

lemma child_attempt_sound:
  "sound cfg env s \<Longrightarrow> gt_generation (su_gate s) \<noteq> 0 \<Longrightarrow>
     su_child s \<noteq> None \<Longrightarrow> open_for (su_trace s) = Some (child_attempt s, gt_generation (su_gate s))"
  by (auto simp: sound_def traced_def owned_def child_attempt_def)

lemma fed_sound:
  "sound cfg env s \<Longrightarrow> open_for (su_trace s) = Some (a, in_generation item) \<Longrightarrow>
     sound cfg env (did (Fed a item ok) s)"
  unfolding sound_defs by (auto split: option.splits)

lemma called_sound: "sound cfg env s \<Longrightarrow> sound cfg env (did (Called l org d) s)"
  unfolding sound_defs by (auto split: option.splits)

lemma pasted_sound:
  assumes "sound cfg env s" and "su_trace s = Called True (Some org) d # t" and "open_for t = Some (a, g)"
    and "or_attempt org = a" "or_generation org = g" "or_client org = su_client s"
  shows "sound cfg env (did (Pasted a g d ok) s)"
  using assms unfolding sound_defs by (auto split: option.splits)

lemma answered_sound: "sound cfg env s \<Longrightarrow> sound cfg env (did (Answered err (local_state cfg s)) s)"
  unfolding sound_defs by (auto simp: local_state_def owner_generation_def split: option.splits if_splits)

lemma paste_sound:
  assumes s: "sound cfg env s" and org: "same_origin cfg (did (Called True (Some org) d) s) org"
    and r: "paste_child env d (did (Called True (Some org) d) s) = (ok, t)"
  shows "sound cfg env t"
proof -
  let ?s = "did (Called True (Some org) d) s"
  have o: "or_client org = su_client s" "or_attempt org = sg_attempt (su_grant s)"
    "or_generation org = gt_generation (su_gate s)" "gt_generation (su_gate s) \<noteq> 0" "su_child s \<noteq> None"
    using org by (simp_all add: same_origin_def local_state_def)
  have own: "open_for (su_trace s) = Some (child_attempt s, gt_generation (su_gate s))"
    by (rule child_attempt_sound [OF s o(4,5)])
  have att: "child_attempt s = sg_attempt (su_grant s)"
    using s o(5) by (auto simp: sound_def owned_def child_attempt_def)
  have "sound cfg env (did (Pasted (child_attempt s) (gt_generation (su_gate s)) d ok) ?s)" for ok
    by (rule pasted_sound [where org = org and t = "su_trace s", OF called_sound [OF s]]) (use own o att in simp_all)
  moreover have "child_attempt ?s = child_attempt s" by (simp add: child_attempt_def)
  ultimately show ?thesis
    using r lose_sound by (auto simp: paste_child_def Let_def split: if_splits)
qed

lemma local_call_sound: "sound cfg env s \<Longrightarrow> sound cfg env (local_call cfg env l org d s)"
  using paste_sound answered_sound called_sound
  by (auto simp: local_call_def Let_def split: option.splits prod.splits)

lemma typed_alike: "alike (s\<lparr>su_queue := su_queue (typed_ahead now d s)\<rparr>) (typed_ahead now d s)"
proof -
  obtain items g where f: "flush_prefix now (su_gate s) = (items, g)" by (cases "flush_prefix now (su_gate s)")
  obtain items1 g1 where d: "decode g d = (items1, g1)" by (cases "decode g d")
  have "gt_generation g1 = gt_generation (su_gate s)"
    using decode_from_generation [of g "[]" d] d f
    by (auto simp: decode_def flush_prefix_def split: if_splits)
  moreover have "list_all plain (rev (map Queued (items @ items1)))"
    by (auto simp: list_all_iff)
  ultimately show ?thesis by (auto simp: typed_ahead_def f d alike_def)
qed

lemma queue_sound [simp]: "sound cfg env (s\<lparr>su_queue := q\<rparr>) = sound cfg env s"
  by (simp add: sound_defs split: option.splits)

lemma typed_sound: "sound cfg env s \<Longrightarrow> sound cfg env (typed_ahead now d s)"
  using alike_sound [OF typed_alike] by simp

lemma render_sound: "sound cfg env s \<Longrightarrow> sound cfg env (render cfg env s)"
  using alike_sound [OF render_alike] .

lemma update_sound [simp]:
  "sound cfg env (s\<lparr>su_notice := x\<rparr>) = sound cfg env s"
  "sound cfg env (s\<lparr>su_shown := x\<rparr>) = sound cfg env s"
  "sound cfg env (s\<lparr>su_retry := b\<rparr>) = sound cfg env s"
  "sound cfg env (s\<lparr>su_busy := m\<rparr>) = sound cfg env s"
  "sound cfg env (s\<lparr>su_admission := b\<rparr>) = sound cfg env s"
  "sound cfg env (s\<lparr>su_failure := x\<rparr>) = sound cfg env s"
  "sound cfg env (s\<lparr>su_attempt := x\<rparr>) = sound cfg env s"
  "sound cfg env (s\<lparr>su_last := r\<rparr>) = sound cfg env s"
  by (simp_all add: sound_defs split: option.splits)

lemma deliver_sound:
  assumes s: "sound cfg env s"
  shows "sound cfg env (deliver cfg env item s)"
proof -
  have "sound cfg env (did (Fed (child_attempt s) item ok) s)"
    if "su_child s \<noteq> None" "gt_generation (su_gate s) \<noteq> 0" "in_generation item = gt_generation (su_gate s)" for ok
    using child_attempt_sound [OF s that(2,1)] fed_sound [OF s] that(3) by simp
  with s show ?thesis
    by (auto simp: deliver_def Let_def intro!: open_sound lose_sound send_sound render_sound)
qed

lemma resized_sound: "sound cfg env s \<Longrightarrow> sound cfg env (resized cfg env s)"
proof -
  assume s: "sound cfg env s"
  let ?r = "render cfg env (s\<lparr>su_shown := []\<rparr>)"
  have r: "sound cfg env ?r" using s by (intro render_sound) simp
  have "alike ?r (did e ?r)" if "plain e" for e
    using that by (auto simp: alike_def intro: exI [of _ "[e]"])
  then have "sound cfg env (did e ?r)" if "plain e" for e using that r alike_sound by blast
  with r show ?thesis by (auto simp: resized_def Let_def split: option.splits)
qed

lemma take_output_sound: "sound cfg env s \<Longrightarrow> sound cfg env (take_output env d s)"
proof -
  assume s: "sound cfg env s"
  have "sound cfg env t" if "write_screen env d s = (ok, t)" for ok t
    using that write_screen_alike alike_sound s by metis
  moreover have "sound cfg env (s\<lparr>su_startup := su_startup s @ d\<rparr>)"
    if "\<not> max_startup < int (length (su_startup s)) + int (length d)"
    using s that unfolding sound_defs by (auto split: option.splits)
  ultimately show ?thesis using s by (auto simp: take_output_def lose_sound split: prod.splits)
qed

lemma take_event_sound:
  "sound cfg env s \<Longrightarrow> su_child s \<noteq> None \<Longrightarrow> sound cfg env (take_event s e) \<and> su_child (take_event s e) \<noteq> None"
proof -
  assume s: "sound cfg env s" and c: "su_child s \<noteq> None"
  have "sound cfg env (did (Proof (child_attempt s)) (s\<lparr>su_proved := True\<rparr>))"
    using s c unfolding sound_defs by (auto simp: child_attempt_def)
  then show ?thesis
    using lose_sound [OF s] c
    by (auto simp: take_event_def lose_def stop_child_def shut_gate_def)
qed

lemma take_output_child: "su_child (take_output env d s) = su_child s"
  by (auto simp: take_output_def write_screen_def lose_def stop_child_def shut_gate_def Let_def
      split: option.splits)

lemma packet_sound:
  "sound cfg env s \<Longrightarrow> su_child s \<noteq> None \<Longrightarrow> sound cfg env (packet cfg env d evs s)"
proof -
  assume s: "sound cfg env s" and c: "su_child s \<noteq> None"
  have "sound cfg env (foldl take_event t evs)" if "sound cfg env t" "su_child t \<noteq> None" for t
    using that
  proof (induction evs arbitrary: t)
    case (Cons e evs)
    then show ?case using take_event_sound [of cfg env t e] by simp
  qed simp
  from this [OF take_output_sound [OF s]] c show ?thesis
    by (simp add: packet_def open_sound take_output_child)
qed

text \<open>What holds of the state after a step that goes on, and after one that returns.\<close>

fun kept :: "supervisor_config \<Rightarrow> supervisor_env \<Rightarrow> outcome \<Rightarrow> bool" where
  "kept cfg env (Continue s) \<longleftrightarrow> sound cfg env s"
| "kept cfg env (Return e s) \<longleftrightarrow> traced cfg env s \<and> owned s"

lemma child_done_kept:
  assumes s: "sound cfg env s" and c: "su_child s = Some a"
  shows "kept cfg env (child_done cfg env result s)"
proof -
  let ?s1 = "release_pending (stop_child (shut_gate s))"
  let ?s2 = "did (Ended (child_attempt ?s1)) (?s1\<lparr>su_child := None, su_proved := False, su_startup := []\<rparr>)"
  have s2: "sound cfg env (?s2\<lparr>su_reports := su_reports ?s2 @ [(sg_attempt (su_grant ?s2), ''lost'')]\<rparr>)
      \<and> traced cfg env ?s2 \<and> owned ?s2"
    using s c unfolding sound_defs
    by (auto simp: release_pending_def stop_child_def shut_gate_def close_gate_def child_attempt_def
        max_startup_def intro: exI [of _ "[]"] exI [of _ "[x]" for x])
  then show ?thesis
    by (simp add: child_done_def Let_def send_sound render_sound)
qed

lemma acknowledge_sound:
  "sound cfg env s \<Longrightarrow> acknowledge env m s = Some t \<Longrightarrow> sound cfg env t"
proof -
  assume s: "sound cfg env s" and a: "acknowledge env m s = Some t"
  show ?thesis
  proof (cases "rq_event m \<noteq> [] \<and> su_reports s \<noteq> [] \<and> hd (su_reports s) = (rq_attempt m, rq_event m)")
    case True
    then obtain rest where r: "su_reports s = (rq_attempt m, rq_event m) # rest"
      by (cases "su_reports s") auto
    have tl: "sound cfg env (s\<lparr>su_reports := rest\<rparr>)"
      using s r unfolding sound_defs
      by (auto simp: Cons_eq_append_conv Cons_eq_map_conv split: option.splits intro: exI [of _ "[]"])
    show ?thesis
    proof (cases "rq_event m = ''lost''")
      case lost: True
      have none: "su_child s = None"
        using s r lost by (auto simp: sound_def reports_ok_def split: option.splits)
      have "su_gate s = su_gate s \<and> gt_generation (su_gate s) = 0"
        using s none by (auto simp: sound_def owned_def)
      then have "sound cfg env (s\<lparr>su_reports := rest, su_grant := no_grant\<rparr>)"
        using tl none unfolding sound_defs by auto
      moreover from True lost a r obtain nonce where
        "t = (did Looked (s\<lparr>su_reports := rest, su_grant := no_grant\<rparr>))\<lparr>su_attempt := hex_encode nonce\<rparr>"
        by (auto simp: acknowledge_def fresh_attempt_def Let_def)
      then have "alike (s\<lparr>su_reports := rest, su_grant := no_grant\<rparr>) t"
        by (auto simp: alike_def intro: exI [of _ "[Looked]"])
      ultimately show ?thesis using alike_sound by blast
    next
      case False
      with True a r tl show ?thesis by (auto simp: acknowledge_def Let_def)
    qed
  qed (use s a in \<open>auto simp: acknowledge_def\<close>)
qed

lemma heard_sound: "sound cfg env s \<Longrightarrow> sound cfg env (did (Heard r) s)"
  unfolding sound_defs by (auto split: option.splits)

lemma reset_sound: "sound cfg env s \<Longrightarrow> sound cfg env (apply_reset r s)"
proof -
  assume s: "sound cfg env s"
  have "sound cfg env (s\<lparr>su_grant := no_grant, su_reports := rs\<rparr>)"
    if "su_child s = None" "gt_generation (su_gate s) = 0" "rs = [] \<or> rs = [(a, ''lost'')]" for rs a
    using s that unfolding sound_defs by (auto intro: exI [of _ "[]"])
  from this [of "[]"] this [of "[(su_attempt s, ''lost'')]" "su_attempt s"] lose_sound [OF s] s
  show ?thesis by (auto simp: apply_reset_def)
qed

lemma lose_heard: "last_heard (su_trace (lose s)) = last_heard (su_trace s)"
  by (simp add: lose_def stop_child_def shut_gate_def split: option.splits)

lemma settled_heard:
  "last_heard (su_trace (apply_reset r (revoke r s))) = last_heard (su_trace s)"
  by (simp add: apply_reset_def revoke_def lose_heard)

lemma await_sound: "sound cfg env s \<Longrightarrow> sound cfg env (await_admission env s)"
proof -
  assume s: "sound cfg env s"
  have "sound cfg env t" if "clock env s = (now, t)" for now t
    using that clock_alike alike_sound s by metis
  with s show ?thesis by (auto simp: await_admission_def split: prod.splits)
qed

lemma settle_sound: "sound cfg env s \<Longrightarrow> sound cfg env (settle_reply cfg env s)"
  by (simp add: settle_reply_def Let_def await_sound send_sound render_sound)

lemma attach_sound:
  assumes s: "sound cfg env s" and c: "su_child s = None" "su_reports s = []"
    and g: "is_hex32 (sg_attempt g)" "last_heard t = Some r" "wr_grant r = Some g" "\<not> wr_reset r"
      "\<not> wr_ended r" "su_trace s = Looked # t" "se_now env t < sg_deadline g"
  shows "sound cfg env (attach cfg env command g s)"
proof -
  have z: "gt_generation (su_gate s) = 0" "\<not> su_slot s" using s c by (auto simp: sound_def owned_def)
  show ?thesis
    using s c g z unfolding sound_defs
    by (auto simp: attach_def acquire_slot_def start_child_def release_pending_def Let_def max_startup_def
        intro!: exI [of _ "[]"] split: option.splits)
qed

lemma take_grant_kept:
  assumes s: "sound cfg env s" and h: "last_heard (su_trace s) = Some r" "\<not> wr_ended r"
  shows "kept cfg env (take_grant cfg env m r s)"
proof (cases "grant_for m r s")
  case None
  with settle_sound [OF s] show ?thesis by (simp add: take_grant_def)
next
  case (Some g)
  then have g: "wr_grant r = Some g" "\<not> wr_reset r" "su_child s = None" "su_reports s = []"
    "is_hex32 (sg_attempt g)"
    by (auto simp: grant_for_def split: option.splits if_splits)
  obtain now t where c: "clock env s = (now, t)" by (cases "clock env s")
  then have t: "sound cfg env t" using s clock_alike alike_sound by metis
  have eq: "su_child t = None" "su_reports t = []" "su_trace t = Looked # su_trace s"
    "now = se_now env (su_trace s)"
    using c g by (auto simp: clock_def)
  have late: "sound cfg env (t\<lparr>su_reports := [(sg_attempt g, ''lost'')]\<rparr>)"
    using t eq unfolding sound_defs by (auto intro: exI [of _ "[]"])
  have "now < sg_deadline g \<Longrightarrow> sound cfg env (attach cfg env command g t)" for command
    using attach_sound [OF t eq(1,2) g(5) h(1) g(1,2) h(2) eq(3)] eq(4) by simp
  moreover have "traced cfg env t" "owned t" using t by (simp_all add: sound_def)
  ultimately show ?thesis
    using Some c eq(2) send_sound [OF late] by (auto simp: take_grant_def settle_sound split: sum.splits)
qed

lemma replied_kept:
  assumes s: "sound cfg env s"
  shows "kept cfg env (replied cfg env result m s)"
proof (cases result)
  case (Inl err)
  with s show ?thesis by (simp add: replied_def Let_def render_sound)
next
  case (Inr r)
  let ?s = "s\<lparr>su_busy := None\<rparr>"
  have s1: "sound cfg env ?s" using s by simp
  show ?thesis
  proof (cases "acknowledge env m ?s")
    case None
    then show ?thesis using s1 Inr by (simp add: replied_def take_reply_def sound_def)
  next
    case (Some t)
    let ?t = "did (Heard r) (t\<lparr>su_last := r, su_notice := []\<rparr>)"
    have t: "sound cfg env ?t" using acknowledge_sound [OF s1 Some] by (simp add: heard_sound)
    then have "sound cfg env (apply_reset r (revoke r ?t))"
      by (simp add: reset_sound revoke_def lose_sound)
    moreover have "last_heard (su_trace (apply_reset r (revoke r ?t))) = Some r"
      by (simp add: settled_heard)
    moreover have "traced cfg env ?t" "owned ?t" using t by (simp_all add: sound_def)
    ultimately show ?thesis
      using take_grant_kept Inr Some by (auto simp: replied_def take_reply_def Let_def)
  qed
qed

lemma ticked_sound: "sound cfg env s \<Longrightarrow> sound cfg env (ticked cfg env s)"
proof -
  assume s: "sound cfg env s"
  have "sound cfg env t" if "clock env s = (now, t)" for now t
    using that clock_alike alike_sound s by metis
  with s show ?thesis
    by (auto simp: ticked_def check_deadline_def intro!: send_sound render_sound open_sound lose_sound
        split: prod.splits)
qed

lemma step_kept:
  assumes s: "sound cfg env s" and e: "enabled s ev"
  shows "kept cfg env (step cfg env ev s)"
proof (cases ev)
  case (Child_Done result)
  with e obtain a where "su_child s = Some a" by (auto simp: enabled_def)
  with s Child_Done show ?thesis by (simp add: step_def child_done_kept)
next
  case (Replied result)
  with s show ?thesis by (auto simp: step_def replied_kept split: option.splits)
next
  case Cancel
  with s show ?thesis by (simp add: step_def sound_def)
next
  case Input_Closed
  with s show ?thesis by (simp add: step_def sound_def)
next
  case Deliver
  with s show ?thesis by (auto simp: step_def deliver_sound split: list.splits)
next
  case (Packet d evs)
  with s e show ?thesis by (simp add: step_def enabled_def packet_sound)
qed (use s in \<open>simp_all add: step_def local_call_sound typed_sound resized_sound
  send_sound ticked_sound\<close>)

lemma start_sound: "start_supervisor cfg env nonce first = Inr s \<Longrightarrow> sound cfg env s"
proof -
  assume a: "start_supervisor cfg env nonce first = Inr s"
  have "sound cfg env
    \<lparr>su_client = hex_encode nonce, su_attempt = hex_encode first,
     su_gate = \<lparr>gt_generation = 0, gt_next = 0, gt_paste = False, gt_paste_generation = 0,
                gt_prefix = [], gt_prefix_generation = 0, gt_prefix_at = 0\<rparr>,
     su_queue = [], su_busy = None, su_retry = False, su_reports = [], su_child = None,
     su_slot = False, su_grant = no_grant, su_proved = False, su_stopping = False,
     su_startup = [], su_failure = [], su_last = waiting_reply, su_notice = [], su_shown = [],
     su_admission = False, su_trace = []\<rparr>"
    by (simp add: sound_defs max_startup_def)
  from send_sound [OF render_sound [OF this]] a show ?thesis
    by (simp add: start_supervisor_def and_then_Inr_iff)
qed

lemma runs_sound: "runs cfg env s \<Longrightarrow> sound cfg env s"
proof (induction rule: runs.induct)
  case (runs_step s ev s')
  then show ?case using step_kept [of cfg env s ev] by simp
qed (rule start_sound)

end
