(* ===== verification/Supervisor_Input.thy ===== *)
theory Supervisor_Input
  imports Supervisor_Safety
begin

text \<open>
  Input of the terminal across attachments: every item that the supervisor forwards was typed after
  the attachment that receives it had been opened, unless generations of 64 bits have run out. And
  the properties of whole runs of the supervisor.
\<close>

section \<open>Labels\<close>

fun opens :: "effect list \<Rightarrow> nat" where
  "opens [] = 0"
| "opens (Opened a g # t) = Suc (opens t)"
| "opens (e # t) = opens t"

fun typed_since :: "effect list \<Rightarrow> session_input list" where
  "typed_since [] = []"
| "typed_since (Opened a g # t) = []"
| "typed_since (Queued i # t) = i # typed_since t"
| "typed_since (e # t) = typed_since t"

definition many :: nat where
  "many = 2 ^ 64 - 1"

fun timely :: "effect list \<Rightarrow> bool" where
  "timely [] = True"
| "timely (Fed a i ok # t) \<longleftrightarrow> (opens t < many \<longrightarrow> i \<in> set (typed_since t)) \<and> timely t"
| "timely (e # t) = timely t"

text \<open>Every generation that the gate may still put on an item is at most \<open>n\<close>.\<close>

definition up_to :: "nat \<Rightarrow> gate \<Rightarrow> bool" where
  "up_to n g \<longleftrightarrow>
     unat (gt_generation g) \<le> n \<and> (gt_paste g \<longrightarrow> unat (gt_paste_generation g) \<le> n)
     \<and> (gt_prefix g \<noteq> [] \<longrightarrow> unat (gt_prefix_generation g) \<le> n)"

definition items_up_to :: "nat \<Rightarrow> session_input list \<Rightarrow> bool" where
  "items_up_to n items \<longleftrightarrow> (\<forall>i \<in> set items. unat (in_generation i) \<le> n)"

lemma emit_up_to: "items_up_to n items \<Longrightarrow> unat e \<le> n \<Longrightarrow> items_up_to n (emit items d e p)"
  using set_emit by (fastforce simp: items_up_to_def)

lemma settle_up_to:
  "up_to n g \<Longrightarrow> items_up_to n items \<Longrightarrow> settle g items = (g1, items1) \<Longrightarrow>
     up_to n g1 \<and> items_up_to n items1"
proof (induction g items arbitrary: g1 items1 rule: settle.induct)
  case (1 g items)
  show ?case
  proof (cases "gt_prefix g = [] \<or> prefix (gt_prefix g) (if gt_paste g then paste_end else paste_start)")
    case True
    with "1.prems" show ?thesis
      by (subst (asm) settle.simps) (auto simp: Let_def up_to_def intro!: emit_up_to split: if_splits)
  next
    case False
    let ?g = "g\<lparr>gt_prefix := drop 1 (gt_prefix g)\<rparr>"
    let ?items = "emit items (take 1 (gt_prefix g)) (gt_prefix_generation g) (gt_paste g)"
    have "settle ?g ?items = (g1, items1)"
      using "1.prems"(3) False by (subst (asm) settle.simps) (simp add: Let_def)
    moreover have "up_to n ?g" "items_up_to n ?items"
      using "1.prems"(1,2) False emit_up_to by (auto simp: up_to_def)
    ultimately show ?thesis using "1.IH" False by simp
  qed
qed

lemma add_byte_up_to: "up_to n g \<Longrightarrow> up_to n (add_byte g b now)"
  by (auto simp: up_to_def add_byte_def Let_def)

lemma decode_from_up_to:
  "up_to n g \<Longrightarrow> items_up_to n items \<Longrightarrow> decode_from g items data = (items1, g1) \<Longrightarrow>
     up_to n g1 \<and> items_up_to n items1"
proof (induction g items data arbitrary: items1 g1 rule: decode_from.induct)
  case (2 g items b now data)
  obtain g2 items2 where s: "settle (add_byte g b now) items = (g2, items2)"
    by (cases "settle (add_byte g b now) items")
  have "up_to n g2 \<and> items_up_to n items2"
    using settle_up_to [OF add_byte_up_to [OF "2.prems"(1)] "2.prems"(2) s] .
  moreover have "decode_from g2 items2 data = (items1, g1)" using "2.prems"(3) s by simp
  ultimately show ?case using "2.IH" [OF s [symmetric]] by blast
qed simp

lemma decode_up_to: "up_to n g \<Longrightarrow> decode g d = (items, g1) \<Longrightarrow> up_to n g1 \<and> items_up_to n items"
  using decode_from_up_to [of n g "[]" d] by (auto simp: decode_def items_up_to_def)

lemma flush_up_to: "up_to n g \<Longrightarrow> flush_prefix now g = (items, g1) \<Longrightarrow> up_to n g1 \<and> items_up_to n items"
  by (auto simp: flush_prefix_def up_to_def items_up_to_def split: if_splits)

lemma drain_up_to: "up_to n g \<Longrightarrow> up_to n (snd (drain k reads g))"
proof (induction k reads g rule: drain.induct)
  case (3 k r reads g)
  have "up_to n (snd (decode g d))" for d
    using decode_up_to [OF "3.prems"] by (cases "decode g d") auto
  with 3 show ?case by (auto split: read_outcome.splits)
qed auto

section \<open>The invariant of labels\<close>

definition labelled :: "supervisor \<Rightarrow> bool" where
  "labelled s \<longleftrightarrow>
     timely (su_trace s)
     \<and> (opens (su_trace s) < many \<longrightarrow>
          unat (gt_next (su_gate s)) = opens (su_trace s)
          \<and> up_to (opens (su_trace s)) (su_gate s)
          \<and> (gt_generation (su_gate s) \<noteq> 0 \<longrightarrow> gt_generation (su_gate s) = gt_next (su_gate s))
          \<and> items_up_to (opens (su_trace s)) (su_queue s)
          \<and> (\<forall>i \<in> set (su_queue s). in_generation i \<noteq> 0 \<longrightarrow> unat (in_generation i) = opens (su_trace s)
               \<longrightarrow> i \<in> set (typed_since (su_trace s))))"

fun mute :: "effect \<Rightarrow> bool" where
  "mute (Opened a g) = False"
| "mute (Queued i) = False"
| "mute (Fed a i ok) = False"
| "mute e = True"

definition calm :: "supervisor \<Rightarrow> supervisor \<Rightarrow> bool" where
  "calm s t \<longleftrightarrow>
     (\<exists>p. list_all mute p \<and> su_trace t = p @ su_trace s) \<and> su_queue t = su_queue s
     \<and> (su_gate t = su_gate s \<or> su_gate t = close_gate (su_gate s))"

lemma mute_trace:
  "list_all mute p \<Longrightarrow> opens (p @ t) = opens t \<and> typed_since (p @ t) = typed_since t
     \<and> timely (p @ t) = timely t"
proof (induction p)
  case (Cons e p)
  then show ?case by (cases e) auto
qed simp

lemma calm_labelled:
  assumes "calm s t" and "labelled s"
  shows "labelled t"
proof -
  obtain p where p: "list_all mute p" "su_trace t = p @ su_trace s" using assms(1) by (auto simp: calm_def)
  from assms(1) have "su_queue t = su_queue s"
    and "su_gate t = su_gate s \<or> su_gate t = close_gate (su_gate s)"
    by (simp_all add: calm_def)
  with assms(2) mute_trace [OF p(1), of "su_trace s"] show ?thesis
    by (auto simp: labelled_def p(2) close_gate_def up_to_def)
qed

lemma calm_refl [simp]: "calm s s"
  by (simp add: calm_def)

lemma calm_trans:
  assumes "calm s t" and "calm t u"
  shows "calm s u"
proof -
  obtain p q where "list_all mute p" "su_trace t = p @ su_trace s" "list_all mute q"
    "su_trace u = q @ su_trace t"
    using assms by (auto simp: calm_def)
  then have "list_all mute (q @ p) \<and> su_trace u = (q @ p) @ su_trace s" by simp
  moreover have "su_gate u = su_gate s \<or> su_gate u = close_gate (su_gate s)"
    using assms by (auto simp: calm_def close_gate_def)
  ultimately show ?thesis using assms unfolding calm_def by (metis (no_types))
qed

lemma calm_did [simp]: "mute e \<Longrightarrow> calm s (did e s)"
  by (auto simp: calm_def intro: exI [of _ "[e]"])

lemma calm_update [simp]:
  "calm s (t\<lparr>su_notice := x\<rparr>) = calm s t" "calm s (t\<lparr>su_shown := x\<rparr>) = calm s t"
  "calm s (t\<lparr>su_retry := b\<rparr>) = calm s t" "calm s (t\<lparr>su_busy := m\<rparr>) = calm s t"
  "calm s (t\<lparr>su_admission := b\<rparr>) = calm s t" "calm s (t\<lparr>su_failure := x\<rparr>) = calm s t"
  "calm s (t\<lparr>su_attempt := x\<rparr>) = calm s t" "calm s (t\<lparr>su_last := r\<rparr>) = calm s t"
  "calm s (t\<lparr>su_reports := rs\<rparr>) = calm s t" "calm s (t\<lparr>su_startup := x\<rparr>) = calm s t"
  "calm s (t\<lparr>su_child := c\<rparr>) = calm s t" "calm s (t\<lparr>su_slot := b\<rparr>) = calm s t"
  "calm s (t\<lparr>su_grant := g\<rparr>) = calm s t" "calm s (t\<lparr>su_proved := b\<rparr>) = calm s t"
  "calm s (t\<lparr>su_stopping := b\<rparr>) = calm s t"
  by (simp_all add: calm_def)

lemma calm_did_after [simp]: "mute e \<Longrightarrow> calm s t \<Longrightarrow> calm s (did e t)"
  using calm_trans calm_did by blast

lemma calm_clock: "clock env t = (now, u) \<Longrightarrow> calm s t \<Longrightarrow> calm s u"
  by (auto simp: clock_def)

lemma calm_screen: "write_screen env d t = (b, u) \<Longrightarrow> calm s t \<Longrightarrow> calm s u"
  by (auto simp: write_screen_def Let_def)

lemma calm_render: "calm s t \<Longrightarrow> calm s (render cfg env t)"
  by (auto simp: render_def status_detail_def Let_def intro: calm_clock calm_screen
      split: prod.splits if_splits)

lemma calm_send: "calm s t \<Longrightarrow> calm s (send_request cfg t)"
  by (simp add: send_request_def Let_def)

lemma calm_stop: "calm s t \<Longrightarrow> calm s (stop_child t)"
  by (simp add: stop_child_def split: option.splits)

lemma calm_shut: "calm s t \<Longrightarrow> calm s (shut_gate t)"
proof -
  assume a: "calm s t"
  have "calm t (shut_gate t)" by (auto simp: shut_gate_def calm_def intro: exI [of _ "[Gate_Shut]"])
  with a show ?thesis by (rule calm_trans)
qed

lemma calm_lose: "calm s t \<Longrightarrow> calm s (lose t)"
  unfolding lose_def by (intro calm_stop) (simp add: calm_shut)

lemma calm_release: "calm s t \<Longrightarrow> calm s (release_pending t)"
  by (simp add: release_pending_def)

lemmas calm_intros = calm_render calm_send calm_stop calm_shut calm_lose calm_release

lemma calm_announce: "calm s t \<Longrightarrow> calm s (announce_ready cfg env t)"
proof -
  assume a: "calm s t"
  have w: "calm s u" if "write_screen env d (t\<lparr>su_startup := [], su_shown := []\<rparr>) = (ok, u)" for d ok u
    by (rule calm_screen [OF that]) (simp add: a)
  show ?thesis
    by (auto simp: announce_ready_def Let_def w intro!: calm_intros split: prod.splits)
qed

lemma calm_await: "calm s t \<Longrightarrow> calm s (await_admission env t)"
  by (auto simp: await_admission_def intro: calm_clock split: prod.splits)

lemma calm_settle: "calm s t \<Longrightarrow> calm s (settle_reply cfg env t)"
  by (simp add: settle_reply_def Let_def calm_await calm_intros)

lemma calm_attach: "calm s t \<Longrightarrow> calm s (attach cfg env command g t)"
proof -
  assume a: "calm s t"
  have slot: "calm s v" if "acquire_slot cfg env u = (e, v)" "calm s u" for e u v
    using that by (auto simp: acquire_slot_def split: if_splits option.splits)
  have start: "calm s v" if "start_child env command (sg_attempt g) u = (e, v)" "calm s u" for e u v
    using that by (auto simp: start_child_def split: option.splits)
  let ?t = "t\<lparr>su_grant := g, su_failure := [], su_startup := [], su_stopping := False, su_proved := False\<rparr>"
  have "calm s ?t" using a by simp
  then show ?thesis
    by (auto simp: attach_def Let_def intro!: calm_release
        dest: slot start split: prod.splits option.splits)
qed

section \<open>Steps\<close>

lemma flush_next [simp]: "gt_next (snd (flush_prefix now g)) = gt_next g"
  "gt_generation (snd (flush_prefix now g)) = gt_generation g"
  by (simp_all add: flush_prefix_def)

lemma unat_next: "unat w < many \<Longrightarrow> unat (w + 1) = Suc (unat w)" for w :: "64 word"
  by (simp add: unat_word_ariths(1) many_def)

text \<open>\<open>gate.open\<close> as long as generations remain: what it leaves when it does not open, and the new generation.\<close>

lemma open_gate_cases:
  assumes o: "open_gate nb reads now g = (r, h)" and n: "unat (gt_next g) = n" "n < many"
    and g: "up_to n g" "gt_generation g = 0"
  shows "if r = Inr True
    then gt_generation h = gt_next h \<and> unat (gt_next h) = Suc n \<and> up_to (Suc n) h
    else gt_generation h = 0 \<and> gt_next h = gt_next g \<and> up_to n h"
proof -
  obtain x g1 where d: "drain 16 reads g = (x, g1)" by (cases "drain 16 reads g")
  have g1: "up_to n g1" "gt_next g1 = gt_next g" "gt_generation g1 = 0"
    using drain_up_to [OF g(1), of 16 reads] drain_next [of 16 reads g] drain_generation [of 16 reads g] g(2)
    by (simp_all add: d)
  define g2 where "g2 = snd (flush_prefix now g1)"
  have g2: "up_to n g2" "gt_next g2 = gt_next g" "gt_generation g2 = 0"
    using flush_up_to [OF g1(1)] g1 by (simp_all add: g2_def) (metis prod.collapse)
  have suc: "unat (gt_next g2 + 1) = Suc n" using unat_next [of "gt_next g2"] g2(2) n by simp
  then have nz: "gt_next g2 + 1 \<noteq> 0" by auto
  show ?thesis
    using o g g1 g2 suc nz
    by (auto simp: open_gate_def d Let_def g2_def [symmetric] up_to_def split: if_splits sum.splits)
qed

lemma try_gate_labelled:
  assumes l: "labelled s" and z: "gt_generation (su_gate s) = 0" and r: "try_gate env s = (r, s1)"
  shows "labelled s1"
proof -
  obtain nb reads now where d: "se_drain env (su_trace s) = (nb, reads, now)"
    by (cases "se_drain env (su_trace s)")
  obtain r' h where o: "open_gate nb reads now (su_gate s) = (r', h)"
    by (cases "open_gate nb reads now (su_gate s)")
  have s1: "r' = r" "s1 = did (if r = Inr True then Opened (sg_attempt (su_grant s)) (gt_generation h) else Looked)
      (s\<lparr>su_gate := h\<rparr>)"
    using r by (auto simp: try_gate_def d o)
  have timely: "timely (su_trace s1)" using l s1(2) by (simp add: labelled_def)
  show ?thesis
  proof (cases "opens (su_trace s) < many")
    case False
    then have "\<not> opens (su_trace s1) < many" using s1(2) by auto
    with timely show ?thesis by (simp add: labelled_def)
  next
    case True
    with l have "unat (gt_next (su_gate s)) = opens (su_trace s)" "up_to (opens (su_trace s)) (su_gate s)"
      "items_up_to (opens (su_trace s)) (su_queue s)" by (simp_all add: labelled_def)
    with open_gate_cases [OF o this(1) True this(2) z] l True timely s1 show ?thesis
      by (auto simp: labelled_def items_up_to_def le_Suc_eq split: if_splits)
  qed
qed

lemma open_child_labelled:
  assumes "labelled s"
  shows "labelled (open_child cfg env s)"
proof (cases "su_child s = None \<or> su_stopping s \<or> \<not> su_proved s \<or> gt_generation (su_gate s) \<noteq> 0")
  case False
  obtain now t where c: "clock env s = (now, t)" by (cases "clock env s")
  have t: "labelled t" using assms calm_clock [OF c calm_refl] calm_labelled by blast
  obtain r u where g: "try_gate env t = (r, u)" by (cases "try_gate env t")
  have "gt_generation (su_gate t) = 0" using c False by (auto simp: clock_def)
  with t g have u: "labelled u" by (metis try_gate_labelled)
  show ?thesis
    using False c g calm_labelled [OF calm_announce [OF calm_refl] u]
      calm_labelled [OF calm_lose [OF calm_refl] u] calm_labelled [OF calm_lose [OF calm_refl] t] u
    by (auto simp: open_child_def split: sum.splits)
qed (use assms in \<open>auto simp: open_child_def\<close>)

lemma queued_trace:
  "opens (rev (map Queued items) @ t) = opens t
     \<and> set (typed_since (rev (map Queued items) @ t)) = set items \<union> set (typed_since t)
     \<and> timely (rev (map Queued items) @ t) = timely t"
proof (induction items rule: rev_induct)
  case (snoc i items)
  then show ?case by auto
qed simp

lemma typed_labelled:
  assumes l: "labelled s"
  shows "labelled (typed_ahead now d s)"
proof -
  obtain items g where f: "flush_prefix now (su_gate s) = (items, g)" by (cases "flush_prefix now (su_gate s)")
  obtain items1 g1 where d: "decode g d = (items1, g1)" by (cases "decode g d")
  have "gt_next g1 = gt_next (su_gate s)" "gt_generation g1 = gt_generation (su_gate s)"
    using decode_from_next [of g "[]" d] decode_from_generation [of g "[]" d] d
      flush_next [of now "su_gate s"] f
    by (simp_all add: decode_def)
  moreover have "up_to n (su_gate s) \<Longrightarrow> up_to n g1 \<and> items_up_to n (items @ items1)" for n
    using flush_up_to [OF _ f] decode_up_to [OF _ d] by (fastforce simp: items_up_to_def)
  ultimately show ?thesis
    using l queued_trace [of "items @ items1" "su_trace s"]
    by (auto simp: labelled_def typed_ahead_def f d items_up_to_def simp del: map_append rev_append)
qed

lemma deliver_labelled:
  assumes l: "labelled s" and q: "su_queue s = item # rest"
  shows "labelled (deliver cfg env item (s\<lparr>su_queue := rest\<rparr>))"
proof -
  let ?s = "s\<lparr>su_queue := rest\<rparr>"
  have s: "labelled ?s" using l q by (auto simp: labelled_def items_up_to_def)
  have fed: "labelled (did (Fed a item ok) ?s)"
    if "gt_generation (su_gate s) \<noteq> 0" "in_generation item = gt_generation (su_gate s)" for a ok
    using s l q that by (auto simp: labelled_def)
  have lost: "labelled t \<Longrightarrow> labelled (lose t)" for t
    using calm_labelled calm_lose calm_refl by blast
  have retry: "labelled (send_request cfg (render cfg env (?s\<lparr>su_retry := True, su_notice := retry_notice\<rparr>)))"
    by (rule calm_labelled [OF _ s]) (intro calm_send calm_render, simp)
  show ?thesis
    using s fed lost retry by (auto simp: deliver_def Let_def intro!: open_child_labelled)
qed

lemma packet_labelled:
  assumes "labelled s"
  shows "labelled (packet cfg env d evs s)"
proof -
  have "calm s (take_output env d s)"
    by (auto simp: take_output_def intro: calm_lose calm_screen calm_lose [OF calm_screen] split: prod.splits)
  moreover have "calm s (foldl take_event t evs)" if "calm s t" for t
    using that by (induction evs arbitrary: t) (auto simp: take_event_def calm_lose)
  ultimately have "labelled (foldl take_event (take_output env d s) evs)"
    using assms calm_labelled by blast
  then show ?thesis by (simp add: packet_def open_child_labelled)
qed

lemma child_done_calm: "child_done cfg env result s = Continue t \<Longrightarrow> calm s t"
  by (auto simp: child_done_def Let_def calm_intros split: if_splits)

lemma replied_calm: "replied cfg env result m s = Continue t \<Longrightarrow> calm s t"
proof (cases result)
  case (Inr r)
  assume a: "replied cfg env result m s = Continue t"
  let ?s = "s\<lparr>su_busy := None\<rparr>"
  from a Inr obtain u where u: "acknowledge env m ?s = Some u"
    and t: "take_grant cfg env m r (apply_reset r (revoke r (did (Heard r) (u\<lparr>su_last := r, su_notice := []\<rparr>))))
      = Continue t"
    by (auto simp: replied_def take_reply_def Let_def split: option.splits if_splits)
  have "calm s u"
    using u by (auto simp: acknowledge_def fresh_attempt_def Let_def split: if_splits)
  then have "calm s (apply_reset r (revoke r (did (Heard r) (u\<lparr>su_last := r, su_notice := []\<rparr>))))" (is "calm s ?v")
    by (auto simp: apply_reset_def revoke_def intro!: calm_lose)
  then have "calm s w" if "clock env ?v = (now, w)" for now w using calm_clock that by blast
  with t \<open>calm s ?v\<close> show ?thesis
    by (auto simp: take_grant_def intro!: calm_settle calm_send calm_attach
        split: option.splits prod.splits if_splits sum.splits)
qed (auto simp: replied_def intro: calm_render)

lemma step_labelled:
  assumes l: "labelled s" and st: "step cfg env ev s = Continue t"
  shows "labelled t"
proof (cases ev)
  case (Local_Call live org d)
  have "calm s t"
    using st Local_Call
    by (auto simp: step_def local_call_def paste_child_def Let_def calm_lose split: option.splits if_splits)
  with l show ?thesis by (metis calm_labelled)
next
  case Resized
  then have "calm s t"
    using st by (auto simp: step_def resized_def Let_def calm_render split: option.splits)
  with l show ?thesis by (metis calm_labelled)
next
  case (Child_Done result)
  with st have "calm s t" by (auto simp: step_def intro: child_done_calm)
  with l show ?thesis by (metis calm_labelled)
next
  case (Replied result)
  with st have "calm s t" by (auto simp: step_def intro: replied_calm split: option.splits)
  with l show ?thesis by (metis calm_labelled)
next
  case Admission
  then have "calm s t" using st by (auto simp: step_def intro: calm_send)
  with l show ?thesis by (metis calm_labelled)
next
  case Tick
  let ?u = "check_deadline env s"
  have "calm s t" if "clock env s = (now, t)" for now t using calm_clock [OF that calm_refl] .
  then have "calm s ?u" by (simp add: check_deadline_def calm_lose split: prod.split)
  then have "labelled (open_child cfg env ?u)" using l calm_labelled open_child_labelled by blast
  moreover have "t = send_request cfg (render cfg env (open_child cfg env ?u))"
    using st Tick by (simp add: step_def ticked_def)
  then have "calm (open_child cfg env ?u) t" by (simp add: calm_send calm_render)
  ultimately show ?thesis by (metis calm_labelled)
qed (use l st deliver_labelled in \<open>auto simp: step_def typed_labelled packet_labelled split: list.splits\<close>)

lemma runs_labelled: "runs cfg env s \<Longrightarrow> labelled s"
proof (induction rule: runs.induct)
  case (runs_start nonce first s)
  let ?s = "\<lparr>su_client = hex_encode nonce, su_attempt = hex_encode first,
     su_gate = \<lparr>gt_generation = 0, gt_next = 0, gt_paste = False, gt_paste_generation = 0,
                gt_prefix = [], gt_prefix_generation = 0, gt_prefix_at = 0\<rparr>,
     su_queue = [], su_busy = None, su_retry = False, su_reports = [], su_child = None,
     su_slot = False, su_grant = no_grant, su_proved = False, su_stopping = False,
     su_startup = [], su_failure = [], su_last = waiting_reply, su_notice = [], su_shown = [],
     su_admission = False, su_trace = []\<rparr>"
  have "labelled ?s" by (simp add: labelled_def up_to_def items_up_to_def)
  moreover have "calm ?s s"
    using runs_start by (auto simp: start_supervisor_def and_then_Inr_iff intro!: calm_send calm_render)
  ultimately show ?case by (metis calm_labelled)
next
  case (runs_step s ev s')
  then show ?case using step_labelled by blast
qed

section \<open>Reading lawful traces\<close>

lemma open_for_split:
  "open_for t = Some (a, g) \<Longrightarrow>
     \<exists>mid old. t = mid @ Opened a g # old \<and> Gate_Shut \<notin> set mid \<and> opens mid = 0"
proof (induction t)
  case (Cons e t)
  show ?case
  proof (cases "e = Opened a g")
    case True
    then show ?thesis by (intro exI [of _ "[]"] exI [of _ t]) simp
  next
    case False
    with Cons.prems have e: "e \<noteq> Gate_Shut" "open_for t = Some (a, g)" "opens (e # x) = opens x" for x
      by (cases e; auto)+
    with Cons.IH obtain mid old where "t = mid @ Opened a g # old" "Gate_Shut \<notin> set mid" "opens mid = 0"
      by blast
    with e show ?thesis by (intro exI [of _ "e # mid"] exI [of _ old]) simp
  qed
qed simp

lemma typed_since_split:
  "i \<in> set (typed_since (mid @ Opened a g # old)) \<Longrightarrow> Queued i \<in> set mid"
proof (induction mid)
  case (Cons e mid)
  then show ?case by (cases e) auto
qed simp

lemma live_split:
  "live t = Some a \<Longrightarrow> proven t \<Longrightarrow>
     \<exists>mid b start old. t = mid @ Proof b # start @ Started a # old
        \<and> Stopped a \<notin> set mid \<and> Ended a \<notin> set (mid @ start)"
proof -
  have alive: "\<exists>start old. t = start @ Started a # old \<and> (\<forall>b. Ended b \<notin> set start)"
    if "live t = Some a" for t
    using that
  proof (induction t)
    case (Cons e t)
    show ?case
    proof (cases "e = Started a")
      case True
      then show ?thesis by (intro exI [of _ "[]"] exI [of _ t]) simp
    next
      case False
      with Cons.prems have e: "live t = Some a" "e \<noteq> Ended b" for b by (cases e; auto)+
      with Cons.IH obtain start old where "t = start @ Started a # old" "\<forall>b. Ended b \<notin> set start"
        by blast
      with e(2) show ?thesis by (intro exI [of _ "e # start"] exI [of _ old]) auto
    qed
  qed simp
  show "live t = Some a \<Longrightarrow> proven t \<Longrightarrow> ?thesis"
  proof (induction t)
    case (Cons e t)
    show ?case
    proof (cases "\<exists>b. e = Proof b")
      case True
      with Cons.prems alive [of t] obtain start old where "t = start @ Started a # old"
        "\<forall>b. Ended b \<notin> set start" by auto
      with True show ?thesis by (metis append_Nil empty_iff list.set(1))
    next
      case False
      with Cons.prems have e: "live t = Some a" "proven t" "e \<noteq> Ended a" "e \<noteq> Stopped a" by (cases e; auto)+
      with Cons.IH obtain mid b start old where "t = mid @ Proof b # start @ Started a # old"
        "Stopped a \<notin> set mid" "Ended a \<notin> set (mid @ start)" by blast
      with e(3,4) show ?thesis
        by (intro exI [of _ "e # mid"] exI [of _ b] exI [of _ start] exI [of _ old]) simp
    qed
  qed simp
qed

lemma started_ends:
  "lawful cfg env (new @ Started a # old) \<Longrightarrow> Ended a \<notin> set new \<Longrightarrow> live (new @ Started a # old) = Some a"
proof (induction new)
  case (Cons e new)
  then show ?case by (cases e) auto
qed simp

lemma slot_freed: "Freed_Slot \<notin> set new \<Longrightarrow> slot_held (new @ Took_Slot # old)"
proof (induction new)
  case (Cons e new)
  then show ?case by (cases e) auto
qed simp

lemma gate_shuts:
  "Gate_Shut \<notin> set new \<Longrightarrow> open_for (new @ Opened a g # old) \<noteq> None"
proof (induction new)
  case (Cons e new)
  then show ?case by (cases e) auto
qed simp

lemma timely_append: "timely (new @ Fed a i ok # old) \<Longrightarrow> opens old < many \<Longrightarrow> i \<in> set (typed_since old)"
proof (induction new)
  case (Cons e new)
  then show ?case by (cases e) auto
qed simp

lemma opens_append: "opens (x @ y) = opens x + opens y"
proof (induction x)
  case (Cons e x)
  then show ?case by (cases e) auto
qed simp

lemma finish_settled:
  assumes "traced cfg env s" and "owned s"
  shows "lawful cfg env (su_trace (finish env s)) \<and> live (su_trace (finish env s)) = None
    \<and> \<not> slot_held (su_trace (finish env s)) \<and> open_for (su_trace (finish env s)) = None"
  using assms unfolding traced_def owned_def
  by (auto simp: finish_def shut_gate_def stop_child_def release_pending_def write_screen_def Let_def
      split: option.splits)

section \<open>Runs of the loop\<close>

fun run_events ::
    "supervisor_config \<Rightarrow> supervisor_env \<Rightarrow> loop_event list \<Rightarrow> supervisor \<Rightarrow> supervisor option" where
  "run_events cfg env [] s = Some s"
| "run_events cfg env (ev # evs) s =
     (if enabled s ev
      then (case step cfg env ev s of
              Continue t \<Rightarrow> run_events cfg env evs t
            | Return e t \<Rightarrow> None)
      else None)"

lemma run_events_runs: "runs cfg env s \<Longrightarrow> run_events cfg env evs s = Some t \<Longrightarrow> runs cfg env t"
proof (induction evs arbitrary: s)
  case (Cons ev evs)
  then show ?case by (auto split: if_splits outcome.splits intro: runs_step)
qed simp

text \<open>A supervisor that is granted an attachment, opens it and forwards a key.\<close>

definition ex_config :: supervisor_config where
  "ex_config =
     \<lparr>sc_remote = launch_remote_config ex_launch_config, sc_session = ''a'', sc_session_id = ex_id 7,
      sc_token = ''t'', sc_transport = ''d'', sc_admission = True\<rparr>"

definition ex_env :: supervisor_env where
  "ex_env =
     \<lparr>se_now = (\<lambda>t. 5), se_drain = (\<lambda>t. (True, [], 5)), se_write_child = (\<lambda>t d. True),
      se_write_screen = (\<lambda>t d. True), se_slot = (\<lambda>t. None), se_start = (\<lambda>t c. None),
      se_random = (\<lambda>t. Some ''ABCDEFGHIJKLMNOP''), se_winsize = (\<lambda>t. True)\<rparr>"

definition ex_reply :: wire_reply where
  "ex_reply =
     \<lparr>wr_checking = False, wr_reason = [], wr_retry_at = 0,
      wr_grant = Some \<lparr>sg_attempt = hex_encode ''ABCDEFGHIJKLMNOP'', sg_deadline = 100\<rparr>,
      wr_ended = False, wr_reset = False, wr_cancel_attempt = []\<rparr>"

definition ex_origin :: input_origin where
  "ex_origin =
     \<lparr>or_client = hex_encode ''abcdefghijklmnop'', or_attempt = hex_encode ''ABCDEFGHIJKLMNOP'',
      or_generation = 1\<rparr>"

definition ex_events :: "loop_event list" where
  "ex_events =
     [Replied (Inr ex_reply), Packet ''hi'' [''ready''], Local_Call True (Some ex_origin) ''p'',
      Typed_Ahead 5 [(CHR ''x'', 5)], Deliver]"

definition ex_run :: "loop_event list \<Rightarrow> supervisor option" where
  "ex_run evs =
     (case start_supervisor ex_config ex_env ''abcdefghijklmnop'' ''ABCDEFGHIJKLMNOP'' of
        Inl e \<Rightarrow> None
      | Inr s \<Rightarrow> run_events ex_config ex_env evs s)"

lemma ex_run_runs: "ex_run evs = Some s \<Longrightarrow> runs ex_config ex_env s"
  unfolding ex_run_def using run_events_runs runs_start by (fastforce split: sum.splits)

fun landmark :: "effect \<Rightarrow> nat" where
  "landmark (Fed a i ok) = 1"
| "landmark (Pasted a g d ok) = 2"
| "landmark (Opened a g) = 3"
| "landmark (Started a) = 4"
| "landmark (Sent m) = (if rq_event m = ''ready'' then 5 else 0)"
| "landmark e = 0"

lemma ex_landmarks:
  "case ex_run ex_events of
     Some s \<Rightarrow> filter (\<lambda>n. n \<noteq> 0) (map landmark (su_trace s)) = [1, 2, 5, 3, 4]
   | None \<Rightarrow> False"
  by code_simp

lemma ex_state:
  obtains s where "runs ex_config ex_env s" and "{1, 2, 3, 4, 5} \<subseteq> landmark ` set (su_trace s)"
    and "opens (su_trace s) = 1"
proof -
  obtain s where r: "ex_run ex_events = Some s"
    and l: "filter (\<lambda>n. n \<noteq> 0) (map landmark (su_trace s)) = [1, 2, 5, 3, 4]"
    using ex_landmarks by (auto split: option.splits)
  have "set (filter (\<lambda>n. n \<noteq> 0) (map landmark (su_trace s))) = {1, 2, 5, 3, 4}"
    by (simp only: l list.set)
  then have "{1, 2, 3, 4, 5} \<subseteq> landmark ` set (su_trace s)" by auto
  moreover have "opens t = length (filter (\<lambda>n. n = 3) (filter (\<lambda>n. n \<noteq> 0) (map landmark t)))" for t
  proof (induction t)
    case (Cons e t)
    then show ?case by (cases e) auto
  qed simp
  then have "opens (su_trace s) = 1" by (simp only: l) simp
  ultimately show thesis using that ex_run_runs [OF r] by blast
qed

lemma landmark_split:
  assumes "n \<in> landmark ` set t"
  shows "n = 1 \<Longrightarrow> \<exists>new a i ok old. t = new @ Fed a i ok # old"
    and "n = 2 \<Longrightarrow> \<exists>new a g d ok old. t = new @ Pasted a g d ok # old"
    and "n = 3 \<Longrightarrow> \<exists>new a g old. t = new @ Opened a g # old"
    and "n = 4 \<Longrightarrow> \<exists>new a old. t = new @ Started a # old"
    and "n = 5 \<Longrightarrow> \<exists>new m old. t = new @ Sent m # old \<and> rq_event m = ''ready''"
proof -
  from assms obtain e new old where e: "landmark e = n" and t: "t = new @ e # old"
    by (auto dest: split_list)
  show "n = 1 \<Longrightarrow> \<exists>new a i ok old. t = new @ Fed a i ok # old"
    using e t by (cases e) (simp_all split: if_splits, blast)
  show "n = 2 \<Longrightarrow> \<exists>new a g d ok old. t = new @ Pasted a g d ok # old"
    using e t by (cases e) (simp_all split: if_splits, blast)
  show "n = 3 \<Longrightarrow> \<exists>new a g old. t = new @ Opened a g # old"
    using e t by (cases e) (simp_all split: if_splits, blast)
  show "n = 4 \<Longrightarrow> \<exists>new a old. t = new @ Started a # old"
    using e t by (cases e) (simp_all split: if_splits, blast)
  show "n = 5 \<Longrightarrow> \<exists>new m old. t = new @ Sent m # old \<and> rq_event m = ''ready''"
    using e t by (cases e) (simp_all split: if_splits, blast)
qed

lemma runs_fits:
  "runs cfg env s \<Longrightarrow> su_trace s = new @ e # old \<Longrightarrow> fits cfg env e old \<and> lawful cfg env old"
  using runs_sound [of cfg env s] lawful_append [of cfg env new e old]
  by (simp add: sound_def traced_def)

lemma owner_lives:
  "lawful cfg env t \<Longrightarrow> open_for t = Some (a, g) \<Longrightarrow> live t = Some a"
proof (induction t)
  case (Cons e t)
  then show ?case by (cases e) auto
qed simp

lemma slots_need_admission: "lawful cfg env t \<Longrightarrow> slot_held t \<Longrightarrow> sc_admission cfg"
proof (induction t)
  case (Cons e t)
  then show ?case by (cases e) auto
qed simp

section \<open>Properties\<close>

text \<open>
  C4: keys reach the attachment they were typed for. Whatever item of terminal input the supervisor
  writes to an attachment, that attachment owns the terminal: it has been opened under the item's
  generation, the gate has not been shut since, and the item was read from the terminal after that
  opening. (Unless 2^64 - 1 attachments have been opened before.)
\<close>

theorem input_reaches_its_attachment:
  assumes "runs cfg env s" and "su_trace s = new @ Fed a item ok # old" and "opens old < 2 ^ 64 - 1"
  shows "\<exists>mid before. old = mid @ Opened a (in_generation item) # before
    \<and> Gate_Shut \<notin> set mid \<and> Queued item \<in> set mid"
proof -
  have "open_for old = Some (a, in_generation item)" using runs_fits [OF assms(1,2)] by simp
  then obtain mid before where old: "old = mid @ Opened a (in_generation item) # before"
    "Gate_Shut \<notin> set mid" using open_for_split by blast
  have "timely (new @ Fed a item ok # old)"
    using runs_labelled [OF assms(1)] assms(2) by (simp add: labelled_def)
  then have "item \<in> set (typed_since old)" using timely_append assms(3) by (simp add: many_def)
  with old typed_since_split show ?thesis by blast
qed

theorem input_reaches_its_attachment_witness:
  "\<exists>s new a item ok old. runs ex_config ex_env s \<and> su_trace s = new @ Fed a item ok # old
     \<and> (\<exists>mid before. old = mid @ Opened a (in_generation item) # before \<and> Queued item \<in> set mid)"
proof -
  obtain s where s: "runs ex_config ex_env s" "{1, 2, 3, 4, 5} \<subseteq> landmark ` set (su_trace s)"
    "opens (su_trace s) = 1" by (rule ex_state)
  then have "1 \<in> landmark ` set (su_trace s)" by auto
  from landmark_split(1) [OF this refl] obtain a item ok new old where t: "su_trace s = new @ Fed a item ok # old"
    by blast
  then have "opens old \<le> 1" using s(3) by (simp add: opens_append)
  then have "opens old < 2 ^ 64 - 1" by simp
  from input_reaches_its_attachment [OF s(1) t this] s(1) t show ?thesis by blast
qed

text \<open>
  C14: asynchronous input does not cross attachments. Data is written to an attachment only in answer to a
  live call that carries this data and names this terminal, that attachment and its generation as its origin,
  and that attachment has owned the terminal, with the gate open, since the named generation was opened.
\<close>

theorem paste_reaches_its_origin:
  assumes "runs cfg env s" and "su_trace s = new @ Pasted a g data ok # old"
  shows "\<exists>call org. old = Called True (Some org) data # call
    \<and> org = \<lparr>or_client = su_client s, or_attempt = a, or_generation = g\<rparr>
    \<and> (\<exists>mid before. call = mid @ Opened a g # before \<and> Gate_Shut \<notin> set mid) \<and> live call = Some a"
proof -
  from runs_fits [OF assms] obtain call org where c: "old = Called True (Some org) data # call"
    "or_attempt org = a" "or_generation org = g" "open_for call = Some (a, g)" "lawful cfg env old"
    by auto
  have "own_calls (su_client s) (su_trace s)" using runs_sound [OF assms(1)] by (simp add: sound_def traced_def)
  then have "or_client org = su_client s" using own_calls_append c(1) by (fastforce simp: assms(2))
  moreover have "lawful cfg env call" using c(1,5) by simp
  moreover obtain mid before where "call = mid @ Opened a g # before" "Gate_Shut \<notin> set mid"
    using open_for_split [OF c(4)] by blast
  moreover have "live call = Some a" using owner_lives [OF \<open>lawful cfg env call\<close> c(4)] .
  ultimately show ?thesis using c(1-3) by (intro exI [of _ call] exI [of _ org]) auto
qed

theorem paste_reaches_its_origin_witness:
  "\<exists>s new a g data ok call org. runs ex_config ex_env s
     \<and> su_trace s = new @ Pasted a g data ok # Called True (Some org) data # call
     \<and> or_client org = su_client s \<and> or_generation org = g \<and> live call = Some a"
proof -
  obtain s where s: "runs ex_config ex_env s" "{1, 2, 3, 4, 5} \<subseteq> landmark ` set (su_trace s)"
    by (rule ex_state)
  then have "2 \<in> landmark ` set (su_trace s)" by auto
  from landmark_split(2) [OF this refl] obtain a g data ok new old where t: "su_trace s = new @ Pasted a g data ok # old"
    by blast
  from paste_reaches_its_origin [OF s(1) t] obtain call org where
    "old = Called True (Some org) data # call" "or_client org = su_client s" "or_generation org = g" "live call = Some a"
    by auto
  with s(1) t show ?thesis by blast
qed

text \<open>
  C6: the terminal is handed over on proof. A generation is opened only for the running attachment,
  after that attachment reported readiness without having been stopped since, while no other
  generation is open, and before the deadline of its grant by a clock reading made for it.
\<close>

theorem opened_on_proof:
  assumes "runs cfg env s" and "su_trace s = new @ Opened a g # old"
  shows "open_for old = None
    \<and> (\<exists>mid b start before. old = mid @ Proof b # start @ Started a # before
         \<and> Stopped a \<notin> set mid \<and> Ended a \<notin> set (mid @ start))
    \<and> (\<exists>t d. old = Looked # t \<and> lease t = Some d \<and> se_now env t < d)"
proof -
  from runs_fits [OF assms] have "fits cfg env (Opened a g) old" by blast
  then show ?thesis using live_split by auto
qed

theorem opened_on_proof_witness:
  "\<exists>s new a g old. runs ex_config ex_env s \<and> su_trace s = new @ Opened a g # old \<and> open_for old = None"
proof -
  obtain s where s: "runs ex_config ex_env s" "{1, 2, 3, 4, 5} \<subseteq> landmark ` set (su_trace s)"
    by (rule ex_state)
  then have "3 \<in> landmark ` set (su_trace s)" by auto
  from landmark_split(3) [OF this refl] obtain a g new old where t: "su_trace s = new @ Opened a g # old"
    by blast
  from opened_on_proof [OF s(1) t] s(1) t show ?thesis by blast
qed

text \<open>
  C5: attachments are admitted. One is started only while none runs, for a valid attempt that the
  last reply granted without reset, at a time before the grant's deadline, and holding a pending slot
  where the control gives slots.
\<close>

theorem attachment_admitted:
  assumes "runs cfg env s" and "su_trace s = new @ Started a # old"
  shows "live old = None \<and> is_hex32 a \<and> (slot_held old = sc_admission cfg)
    \<and> (\<exists>t r g. old = (if sc_admission cfg then [Took_Slot] else []) @ Looked # t
         \<and> last_heard t = Some r \<and> wr_grant r = Some g \<and> sg_attempt g = a \<and> \<not> wr_reset r
         \<and> \<not> wr_ended r \<and> se_now env t < sg_deadline g)"
proof -
  from runs_fits [OF assms] have f: "fits cfg env (Started a) old" "lawful cfg env old" by simp_all
  then have "slot_held old = sc_admission cfg" using slots_need_admission by auto
  with f(1) show ?thesis by simp
qed

theorem attachment_admitted_witness:
  "\<exists>s new a old. runs ex_config ex_env s \<and> su_trace s = new @ Started a # old \<and> live old = None
     \<and> slot_held old"
proof -
  obtain s where s: "runs ex_config ex_env s" "{1, 2, 3, 4, 5} \<subseteq> landmark ` set (su_trace s)"
    by (rule ex_state)
  then have "4 \<in> landmark ` set (su_trace s)" by auto
  from landmark_split(4) [OF this refl] obtain a new old where t: "su_trace s = new @ Started a # old"
    by blast
  from attachment_admitted [OF s(1) t] s(1) t show ?thesis by (auto simp: ex_config_def)
qed

text \<open>
  C13: reports are bounded and true. At most two reports wait, those of one attachment, at most 4 MiB
  of startup output are held, readiness is reported only for an attachment that has been opened, and
  loss only while no attachment runs; the phase is ready exactly while a generation is open.
\<close>

theorem reports_true:
  assumes "runs cfg env s" and "su_trace s = new @ Sent m # old"
  shows "length (su_reports s) \<le> 2 \<and> int (length (su_startup s)) \<le> 4 * 2 ^ 20
    \<and> (rq_event m = ''ready'' \<longrightarrow> (\<exists>g. Opened (rq_attempt m) g \<in> set old))
    \<and> (rq_event m = ''lost'' \<longrightarrow> live old = None)
    \<and> (rq_state m = ''ready'') = (open_for old \<noteq> None)"
proof -
  have "length (su_reports s) \<le> 2" "int (length (su_startup s)) \<le> 4 * 2 ^ 20"
    using runs_sound [OF assms(1)]
    by (auto simp: sound_def owned_def reports_ok_def max_startup_def split: option.splits)
  with runs_fits [OF assms] show ?thesis by simp
qed

theorem reports_true_witness:
  "\<exists>s new m old g. runs ex_config ex_env s \<and> su_trace s = new @ Sent m # old
     \<and> rq_event m = ''ready'' \<and> Opened (rq_attempt m) g \<in> set old"
proof -
  obtain s where s: "runs ex_config ex_env s" "{1, 2, 3, 4, 5} \<subseteq> landmark ` set (su_trace s)"
    by (rule ex_state)
  then have "5 \<in> landmark ` set (su_trace s)" by auto
  from landmark_split(5) [OF this refl] obtain m new old
    where t: "su_trace s = new @ Sent m # old" "rq_event m = ''ready''" by blast
  from reports_true [OF s(1) t(1)] s(1) t show ?thesis by blast
qed

text \<open>
  C12: nothing outlives the supervisor. When a step returns, for whatever reason, the cleanup leaves
  every attachment that was started ended, every pending slot that was taken freed, and every gate
  that was opened shut.
\<close>

theorem exit_leaves_nothing:
  assumes "runs cfg env s" and "enabled s ev" and "step cfg env ev s = Return e t"
  shows "(su_trace (finish env t) = new @ Started a # old \<longrightarrow> Ended a \<in> set new)
    \<and> (su_trace (finish env t) = new @ Took_Slot # old \<longrightarrow> Freed_Slot \<in> set new)
    \<and> (su_trace (finish env t) = new @ Opened a g # old \<longrightarrow> Gate_Shut \<in> set new)"
proof -
  have "traced cfg env t" "owned t"
    using step_kept [OF runs_sound [OF assms(1)] assms(2)] assms(3) by simp_all
  note settled = finish_settled [OF this]
  show ?thesis
  proof (intro conjI impI)
    assume "su_trace (finish env t) = new @ Started a # old"
    with settled started_ends [of cfg env new a old] show "Ended a \<in> set new" by force
  next
    assume "su_trace (finish env t) = new @ Took_Slot # old"
    with settled slot_freed [of new old] show "Freed_Slot \<in> set new" by force
  next
    assume "su_trace (finish env t) = new @ Opened a g # old"
    with settled gate_shuts [of new a g old] show "Gate_Shut \<in> set new" by force
  qed
qed

theorem exit_leaves_nothing_witness:
  "\<exists>s new a old. runs ex_config ex_env s \<and> su_trace (finish ex_env s) = new @ Started a # old
     \<and> Ended a \<in> set new"
proof -
  obtain s where s: "runs ex_config ex_env s" "{1, 2, 3, 4, 5} \<subseteq> landmark ` set (su_trace s)"
    by (rule ex_state)
  then have "4 \<in> landmark ` set (su_trace s)" by auto
  from landmark_split(4) [OF this refl] obtain a new old where t: "su_trace s = new @ Started a # old"
    by blast
  have "\<exists>p. su_trace (finish ex_env s) = p @ su_trace s"
    by (auto simp: finish_def shut_gate_def stop_child_def release_pending_def write_screen_def Let_def
        split: option.splits)
  then obtain p where "su_trace (finish ex_env s) = (p @ new) @ Started a # old" using t by auto
  moreover have "step ex_config ex_env Cancel s = Return Cancelled s" by (simp add: step_def)
  moreover have "enabled s Cancel" by (simp add: enabled_def)
  ultimately show ?thesis using exit_leaves_nothing [OF s(1)] s(1) by blast
qed

end
