(* ===== verification/Attachment_Relay.thy ===== *)
theory Attachment_Relay
  imports Session_Stream
begin

text \<open>
  The relay between one attachment and the Zellij server, \<open>internal/mirror/session_relay.go\<close>: the frames
  of the protocol, and the relay as a transition system whose events are the reads, dials and writes of
  its goroutines in any order. A connection owns the bytes that its client and its server will have
  sent when it ends; a write takes some number of bytes, and fails when it does not take all.
\<close>

section \<open>Frames\<close>

definition max_attachment_frame :: int where "max_attachment_frame = 4 * 2 ^ 20"

text \<open>\<open>binary.Uvarint\<close> and \<open>binary.AppendUvarint\<close>: seven bits a byte, at most ten bytes and 64 bits.\<close>

fun uvarint :: "nat \<Rightarrow> int \<Rightarrow> string \<Rightarrow> (int \<times> string) option" where
  "uvarint i x [] = None"
| "uvarint i x (b # s) =
     (if i = 10 then None
      else if of_char b < (128 :: int) then
        (if i = 9 \<and> 1 < (of_char b :: int) then None else Some (x + of_char b * 2 ^ (7 * i), s))
      else uvarint (Suc i) (x + (of_char b - 128) * 2 ^ (7 * i)) s)"

function append_uvarint :: "int \<Rightarrow> string" where
  "append_uvarint n = (if n < 128 then [char_of n] else char_of (n mod 128 + 128) # append_uvarint (n div 128))"
  by pat_completeness auto
termination by (relation "measure nat") auto

declare append_uvarint.simps [simp del]

definition le32 :: "int \<Rightarrow> string" where
  "le32 n = [char_of n, char_of (n div 2 ^ 8), char_of (n div 2 ^ 16), char_of (n div 2 ^ 24)]"

definition le32_value :: "string \<Rightarrow> int" where
  "le32_value h = of_char (h ! 0) + of_char (h ! 1) * 2 ^ 8 + of_char (h ! 2) * 2 ^ 16 + of_char (h ! 3) * 2 ^ 24"

text \<open>
  A frame is read from the bytes that the peer still sends; the answer is its kind, its body, the
  frame itself and what follows. Every caller gives the connection up after an error.
\<close>

definition parse_payload_frame :: "string \<Rightarrow> (int \<times> string) option" where
  "parse_payload_frame payload =
     (case uvarint 0 0 payload of
        None \<Rightarrow> None
      | Some (tag, rest) \<Rightarrow>
          if tag mod 8 \<noteq> 2 \<or> tag div 8 = 0 then None
          else (case uvarint 0 0 rest of
                  None \<Rightarrow> None
                | Some (size64, body) \<Rightarrow> if size64 \<noteq> int (length body) then None else Some (tag div 8, body)))"

definition read_attachment_frame :: "string \<Rightarrow> (int \<times> string \<times> string \<times> string) option" where
  "read_attachment_frame s =
     (if length s < 4 then None
      else (let n = le32_value (take 4 s) in
            if n = 0 \<or> max_attachment_frame < n then None
            else if int (length s) - 4 < n then None
            else (case parse_payload_frame (take (nat n) (drop 4 s)) of
                    None \<Rightarrow> None
                  | Some (kind, body) \<Rightarrow> Some (kind, body, take (4 + nat n) s, drop (4 + nat n) s))))"

definition attachment_payload :: "int \<Rightarrow> string \<Rightarrow> string" where
  "attachment_payload kind body =
     append_uvarint ((kind * 8 + 2) mod 2 ^ 64) @ append_uvarint (int (length body)) @ body"

definition attachment_frame :: "int \<Rightarrow> string \<Rightarrow> string" where
  "attachment_frame kind body =
     (let payload = attachment_payload kind body in le32 (int (length payload) mod 2 ^ 32) @ payload)"

definition attachment_ready_frame :: "string \<Rightarrow> string" where
  "attachment_ready_frame attempt =
     (let marker = attachment_marker attempt ''ready'' in
      attachment_frame 1 (append_uvarint (1 * 8 + 2) @ append_uvarint (int (length marker)) @ marker))"

lemma of_char_bounds [simp]: "0 \<le> (of_char c :: int)" "(of_char c :: int) < 256"
proof -
  have "int (of_char c) = (of_char c :: int)" by (rule of_nat_of_char)
  moreover have "(of_char c :: nat) < 256" by simp
  ultimately show "0 \<le> (of_char c :: int)" "(of_char c :: int) < 256" by linarith+
qed

lemma of_char_of_int: "0 \<le> n \<Longrightarrow> n < 256 \<Longrightarrow> of_char (char_of n :: char) = (n :: int)"
  by simp

lemma uvarint_append:
  "0 \<le> n \<Longrightarrow> n * 2 ^ (7 * i) < 2 ^ 64 \<Longrightarrow> i \<le> 9 \<Longrightarrow>
     uvarint i x (append_uvarint n @ rest) = Some (x + n * 2 ^ (7 * i), rest)"
proof (induction n arbitrary: i x rule: append_uvarint.induct)
  case (1 n)
  show ?case
  proof (cases "n < 128")
    case True
    have "\<not> (i = 9 \<and> 1 < n)"
    proof
      assume "i = 9 \<and> 1 < n"
      then have "2 * 2 ^ 63 \<le> n * (2 :: int) ^ (7 * i)" by (simp del: power_Suc)
      with "1.prems"(2) show False by simp
    qed
    with True "1.prems" show ?thesis by (subst append_uvarint.simps) simp
  next
    case False
    let ?q = "n div 128" and ?r = "n mod 128"
    have n: "n = ?q * 128 + ?r" by simp
    have pow: "(2 :: int) ^ (7 * Suc i) = 128 * 2 ^ (7 * i)" by (simp add: power_add)
    have "?q * 128 * 2 ^ (7 * i) \<le> n * 2 ^ (7 * i)" by (rule mult_right_mono) (use n in auto)
    moreover have "?q * 2 ^ (7 * Suc i) = ?q * 128 * 2 ^ (7 * i)" unfolding pow by (simp only: mult.assoc)
    ultimately have small: "?q * 2 ^ (7 * Suc i) < 2 ^ 64" using "1.prems"(2) by linarith
    have "1 * (2 :: int) ^ (7 * Suc i) \<le> ?q * 2 ^ (7 * Suc i)" by (rule mult_right_mono) (use False in auto)
    with small have "(2 :: int) ^ (7 * Suc i) < 2 ^ 64" by linarith
    then have "7 * Suc i < 64" by (simp only: power_strict_increasing_iff)
    then have i: "Suc i \<le> 9" by simp
    have "of_char (char_of (?r + 128) :: char) = ?r + 128" by (rule of_char_of_int) auto
    moreover have "uvarint (Suc i) (x + ?r * 2 ^ (7 * i)) (append_uvarint ?q @ rest)
        = Some (x + ?r * 2 ^ (7 * i) + ?q * 2 ^ (7 * Suc i), rest)"
      by (rule "1.IH") (use False "1.prems"(1) small i in auto)
    moreover have "x + ?r * 2 ^ (7 * i) + ?q * 2 ^ (7 * Suc i) = x + n * 2 ^ (7 * i)"
    proof -
      have ring: "r * p + q * (128 * p) = (q * 128 + r) * (p :: int)" for q r p by (simp add: algebra_simps)
      show ?thesis unfolding pow add.assoc ring n [symmetric] ..
    qed
    moreover have "\<not> ?r < 0" by simp
    ultimately show ?thesis using False i by (subst append_uvarint.simps) simp
  qed
qed

lemma uvarint_suffix: "uvarint i x s = Some (v, r) \<Longrightarrow> suffix r s"
  by (induction i x s rule: uvarint.induct) (auto split: if_splits intro: suffix_ConsI)

lemma uvarint_range:
  "uvarint i x s = Some (v, r) \<Longrightarrow> 0 \<le> x \<Longrightarrow> x < 2 ^ (7 * i) \<Longrightarrow> i \<le> 10 \<Longrightarrow> 0 \<le> v \<and> v < 2 ^ 64"
proof (induction i x s rule: uvarint.induct)
  case (2 i x b s)
  have i: "i < 10" using "2.prems" by (auto split: if_splits)
  show ?case
  proof (cases "of_char b < (128 :: int)")
    case True
    then have v: "v = x + of_char b * 2 ^ (7 * i)" and nine: "i = 9 \<longrightarrow> (of_char b :: int) \<le> 1"
      using "2.prems"(1) i by (auto split: if_splits)
    have "v < 2 ^ 64"
    proof (cases "i = 9")
      case True
      with nine have "of_char b * (2 :: int) ^ 63 \<le> 1 * 2 ^ 63" by (intro mult_right_mono) auto
      with True v "2.prems"(3) show ?thesis by simp
    next
      case False
      have "of_char b * (2 :: int) ^ (7 * i) \<le> 127 * 2 ^ (7 * i)" using True by (intro mult_right_mono) auto
      with v "2.prems"(3) have "v < 128 * 2 ^ (7 * i)" by linarith
      also have "\<dots> = 2 ^ (7 * i + 7)" by (simp add: power_add)
      also have "\<dots> \<le> 2 ^ 64" using False i by (intro power_increasing) auto
      finally show ?thesis .
    qed
    with v "2.prems"(2) show ?thesis by simp
  next
    case False
    have "(of_char b - 128) * (2 :: int) ^ (7 * i) \<le> 127 * 2 ^ (7 * i)"
    proof (rule mult_right_mono)
      show "(of_char b :: int) - 128 \<le> 127" using of_char_bounds(2) [of b] by linarith
    qed simp
    with "2.prems"(3) have "x + (of_char b - 128) * 2 ^ (7 * i) < 128 * 2 ^ (7 * i)" by linarith
    then have "x + (of_char b - 128) * 2 ^ (7 * i) < 2 ^ (7 * Suc i)" by (simp add: power_add)
    with False i "2.prems" "2.IH" show ?thesis by (auto split: if_splits)
  qed
qed simp

lemma of_char_char_of: "of_char (char_of n :: char) = n mod (256 :: int)"
  by simp

lemma four_digits:
  "(n :: int) = a * 256 + x \<Longrightarrow> a = b * 256 + y \<Longrightarrow> b = c * 256 + z \<Longrightarrow> x + y * 2 ^ 8 + z * 2 ^ 16 + c * 2 ^ 24 = n"
  by simp

lemma le32_roundtrip: "0 \<le> n \<Longrightarrow> n < 2 ^ 32 \<Longrightarrow> le32_value (le32 n) = n"
proof -
  assume n: "0 \<le> n" "n < 2 ^ 32"
  let ?a = "n div 2 ^ 8" let ?b = "n div 2 ^ 16" let ?c = "n div 2 ^ 24"
  have d: "?b = ?a div 256" "?c = ?b div 256" by (simp_all add: div_mult2_eq [symmetric] zdiv_zmult2_eq [symmetric])
  have "?c * 2 ^ 24 = n - n mod 2 ^ 24" by (simp add: minus_mod_eq_div_mult)
  moreover have "0 \<le> n mod 2 ^ 24" by simp
  ultimately have "?c * 2 ^ 24 < 2 ^ 32" using n(2) by linarith
  then have small: "?c < 256" by simp
  have e: "n = ?a * 256 + n mod 256" "?a = ?b * 256 + ?a mod 256" "?b = ?c * 256 + ?b mod 256"
    unfolding d by simp_all
  have c: "?c mod 256 = ?c" by (rule mod_pos_pos_trivial) (use n(1) small in simp_all)
  have "n mod 256 + ?a mod 256 * 2 ^ 8 + ?b mod 256 * 2 ^ 16 + ?c mod 256 * 2 ^ 24 = n"
    unfolding c by (rule four_digits [OF e])
  moreover have "le32_value (le32 n) = n mod 256 + ?a mod 256 * 2 ^ 8 + ?b mod 256 * 2 ^ 16 + ?c mod 256 * 2 ^ 24"
    unfolding le32_value_def le32_def by (simp only: nth_Cons_0 nth_Cons_numeral nth_Cons' of_char_char_of) simp
  ultimately show ?thesis by (rule trans [rotated])
qed

lemma parse_payload_frame_payload:
  assumes "0 < kind" "kind < 2 ^ 61" "int (length body) < 2 ^ 63"
  shows "parse_payload_frame (attachment_payload kind body) = Some (kind, body)"
proof -
  have tag: "(kind * 8 + 2) mod 2 ^ 64 = kind * 8 + 2" using assms by simp
  have "uvarint 0 0 (append_uvarint (kind * 8 + 2) @ append_uvarint (int (length body)) @ body)
      = Some (0 + (kind * 8 + 2) * 2 ^ (7 * 0), append_uvarint (int (length body)) @ body)"
    by (rule uvarint_append) (use assms in auto)
  moreover have "uvarint 0 0 (append_uvarint (int (length body)) @ body) = Some (0 + int (length body) * 2 ^ (7 * 0), body)"
    by (rule uvarint_append) (use assms in auto)
  ultimately show ?thesis using assms(1) unfolding parse_payload_frame_def attachment_payload_def tag by simp
qed

lemma frame_read:
  assumes "0 < kind" "kind < 2 ^ 61" and len: "int (length (attachment_payload kind body)) \<le> max_attachment_frame"
  shows "read_attachment_frame (attachment_frame kind body @ rest) = Some (kind, body, attachment_frame kind body, rest)"
proof -
  let ?p = "attachment_payload kind body"
  have n: "int (length ?p) < 2 ^ 32" "int (length body) < 2 ^ 63"
    using len by (auto simp: max_attachment_frame_def attachment_payload_def)
  have frame: "attachment_frame kind body = le32 (int (length ?p)) @ ?p"
    using n(1) by (simp add: attachment_frame_def Let_def)
  have four: "length (le32 (int (length ?p))) = 4" by (simp add: le32_def)
  have pos: "0 < length ?p" by (simp add: attachment_payload_def append_uvarint.simps [of "int (length body)"])
  have "le32_value (le32 (int (length ?p))) = int (length ?p)" using n(1) by (intro le32_roundtrip) auto
  with pos len four parse_payload_frame_payload [OF assms(1,2) n(2)] show ?thesis
    by (simp add: read_attachment_frame_def frame)
qed

definition frame_of :: "int \<times> string \<Rightarrow> bool" where
  "frame_of m = (\<exists>body. read_attachment_frame (snd m) = Some (fst m, body, snd m, []))"

lemma read_frame_split:
  assumes "read_attachment_frame s = Some (kind, body, frame, rest)"
  shows "s = frame @ rest" and "0 < kind" and "kind < 2 ^ 61" and "frame \<noteq> []"
    and "int (length frame) \<le> 4 + max_attachment_frame" and "frame_of (kind, frame)"
proof -
  let ?n = "le32_value (take 4 s)"
  have n: "\<not> length s < 4" "\<not> ?n = 0" "\<not> max_attachment_frame < ?n" "\<not> int (length s) - 4 < ?n"
    by (rule notI, use assms in \<open>simp add: read_attachment_frame_def Let_def split: if_splits\<close>)+
  have p: "parse_payload_frame (take (nat ?n) (drop 4 s)) = Some (kind, body)"
    and f: "frame = take (4 + nat ?n) s" "rest = drop (4 + nat ?n) s"
    using assms n by (auto simp: read_attachment_frame_def Let_def split: option.splits)
  have "0 \<le> ?n" by (simp add: le32_value_def)
  have "4 + nat ?n \<le> length s" using n(1,4) by linarith
  then have len: "length frame = 4 + nat ?n" "take 4 frame = take 4 s"
    "take (nat ?n) (drop 4 frame) = take (nat ?n) (drop 4 s)"
    unfolding f(1) by (simp_all add: drop_take)
  show "s = frame @ rest" using f by simp
  show "frame \<noteq> []" "int (length frame) \<le> 4 + max_attachment_frame" using len(1) n(3) \<open>0 \<le> ?n\<close> by auto
  obtain tag r where t: "uvarint 0 0 (take (nat ?n) (drop 4 s)) = Some (tag, r)" "kind = tag div 8" "tag div 8 \<noteq> 0"
    using p by (auto simp: parse_payload_frame_def split: option.splits prod.splits if_splits)
  have "0 \<le> tag \<and> tag < 2 ^ 64" by (rule uvarint_range [OF t(1)]) auto
  with t(2,3) show "0 < kind" "kind < 2 ^ 61" by (auto intro: le_neq_implies_less)
  show "frame_of (kind, frame)"
    unfolding frame_of_def using n p len \<open>0 \<le> ?n\<close>
    by (intro exI [of _ body]) (simp add: read_attachment_frame_def Let_def)
qed

lemma read_frame_shorter: "read_attachment_frame s = Some (kind, body, frame, rest) \<Longrightarrow> length rest < length s"
  using read_frame_split(1,4) [of s kind body frame rest] by simp

text \<open>All frames of a stream, up to the first error.\<close>

function frames :: "string \<Rightarrow> (int \<times> string \<times> string) list" where
  "frames s =
     (case read_attachment_frame s of
        None \<Rightarrow> []
      | Some (kind, body, frame, rest) \<Rightarrow> (kind, body, frame) # frames rest)"
  by pat_completeness auto
termination
  by (relation "measure length") (auto dest: read_frame_shorter)

declare frames.simps [simp del]

text \<open>
  C18: frame boundaries agree. A stream of messages written one after the other is read back as
  exactly these messages, for every kind below \<open>2\<^sup>6\<^sup>1\<close> and every body that fits the bound.
\<close>

theorem messages_roundtrip:
  assumes "\<forall>(kind, body) \<in> set ms. 0 < kind \<and> kind < 2 ^ 61
    \<and> int (length (attachment_payload kind body)) \<le> max_attachment_frame"
  shows "frames (concat (map (\<lambda>(kind, body). attachment_frame kind body) ms))
    = map (\<lambda>(kind, body). (kind, body, attachment_frame kind body)) ms"
  using assms
proof (induction ms)
  case Nil
  then show ?case by (subst frames.simps) (simp add: read_attachment_frame_def)
next
  case (Cons m ms)
  obtain kind body where m: "m = (kind, body)" by (cases m)
  have "read_attachment_frame (attachment_frame kind body @ concat (map (\<lambda>(kind, body). attachment_frame kind body) ms))
      = Some (kind, body, attachment_frame kind body, concat (map (\<lambda>(kind, body). attachment_frame kind body) ms))"
    by (rule frame_read) (use Cons.prems m in auto)
  with Cons m show ?case by (subst frames.simps) simp
qed

section \<open>The relay\<close>

datatype relay_error = Refused_Initial int | Refused_Second | Refused_Message int | Dial_Failed | Write_Failed

text \<open>
  Where a connection is: waiting for its first frame, dialling with that frame, waiting for the reply
  to a probe, or relaying with the loop that reads the client and the loop that reads the server each
  still running or not.
\<close>

datatype conn_phase = Opening | Dialling string | Probing | Relaying bool bool | Over

record conn =
  cn_phase :: conn_phase
  cn_interactive :: bool
  cn_client :: string
  cn_in :: string
  cn_server :: string
  cn_from :: string
  cn_to_server :: string
  cn_to_client :: string

record relay =
  rl_attempt :: string
  rl_conns :: "conn list"
  rl_attached :: bool
  rl_ready :: bool
  rl_detached :: bool
  rl_failed :: "relay_error option"
  rl_ready_closed :: bool

definition new_relay :: "string \<Rightarrow> relay" where
  "new_relay attempt =
     \<lparr>rl_attempt = attempt, rl_conns = [], rl_attached = False, rl_ready = False, rl_detached = False,
      rl_failed = None, rl_ready_closed = False\<rparr>"

definition new_conn :: "string \<Rightarrow> conn" where
  "new_conn client =
     \<lparr>cn_phase = Opening, cn_interactive = False, cn_client = client, cn_in = client, cn_server = [], cn_from = [],
      cn_to_server = [], cn_to_client = []\<rparr>"

definition with_conn :: "nat \<Rightarrow> conn \<Rightarrow> relay \<Rightarrow> relay" where
  "with_conn c cn r = r\<lparr>rl_conns := (rl_conns r)[c := cn]\<rparr>"

definition relay_fail :: "relay_error \<Rightarrow> relay \<Rightarrow> relay" where
  "relay_fail e r = (if rl_failed r = None then r\<lparr>rl_failed := Some e\<rparr> else r)"

definition loops :: "bool \<Rightarrow> bool \<Rightarrow> conn_phase" where
  "loops client server = (if client \<or> server then Relaying client server else Over)"

definition accept :: "string \<Rightarrow> relay \<Rightarrow> relay" where
  "accept client r =
     (if length (filter (\<lambda>cn. cn_phase cn \<noteq> Over) (rl_conns r)) < 4
      then r\<lparr>rl_conns := rl_conns r @ [new_conn client]\<rparr> else r)"

definition first_read :: "nat \<Rightarrow> conn \<Rightarrow> relay \<Rightarrow> relay" where
  "first_read c cn r =
     (case read_attachment_frame (cn_in cn) of
        None \<Rightarrow> with_conn c (cn\<lparr>cn_phase := Over\<rparr>) r
      | Some (kind, body, frame, rest) \<Rightarrow>
          if kind \<noteq> 8 \<and> kind \<noteq> 13
          then with_conn c (cn\<lparr>cn_phase := Over\<rparr>) (relay_fail (Refused_Initial kind) r)
          else if kind = 8 \<and> rl_attached r
          then with_conn c (cn\<lparr>cn_phase := Over\<rparr>) (relay_fail Refused_Second r)
          else with_conn c (cn\<lparr>cn_phase := Dialling frame, cn_interactive := (kind = 8), cn_in := rest\<rparr>)
                 (if kind = 8 then r\<lparr>rl_attached := True\<rparr> else r))"

definition dialled :: "nat \<Rightarrow> conn \<Rightarrow> string \<Rightarrow> string option \<Rightarrow> nat \<Rightarrow> relay \<Rightarrow> relay" where
  "dialled c cn first server n r =
     (case server of
        None \<Rightarrow> with_conn c (cn\<lparr>cn_phase := Over\<rparr>) (if cn_interactive cn then relay_fail Dial_Failed r else r)
      | Some from \<Rightarrow>
          (let cn1 = cn\<lparr>cn_server := from, cn_from := from, cn_to_server := take n first\<rparr> in
           if n < length first
           then with_conn c (cn1\<lparr>cn_phase := Over\<rparr>) (if cn_interactive cn then relay_fail Write_Failed r else r)
           else with_conn c (cn1\<lparr>cn_phase := (if cn_interactive cn then Relaying True True else Probing)\<rparr>) r))"

definition reply_read :: "nat \<Rightarrow> conn \<Rightarrow> nat \<Rightarrow> relay \<Rightarrow> relay" where
  "reply_read c cn n r =
     (case read_attachment_frame (cn_from cn) of
        None \<Rightarrow> with_conn c (cn\<lparr>cn_phase := Over\<rparr>) r
      | Some (reply, body, frame, rest) \<Rightarrow>
          with_conn c (cn\<lparr>cn_phase := Over, cn_from := rest,
                          cn_to_client := (if reply = 4 then take n frame else [])\<rparr>) r)"

definition refused_kind :: "int \<Rightarrow> bool" where
  "refused_kind kind \<longleftrightarrow> kind \<in> {7, 8, 12, 13, 16, 25, 0} \<or> 27 < kind"

text \<open>
  The two loops of an attached connection. One that ends closes the connection that the other reads: the client loop
  calls \<open>server.Close()\<close> on every way out, the server loop has the deferred closes. So a read of the other
  loop fails from then on.
\<close>

definition client_read :: "nat \<Rightarrow> conn \<Rightarrow> bool \<Rightarrow> nat \<Rightarrow> relay \<Rightarrow> relay" where
  "client_read c cn sv n r =
     (case (if sv then read_attachment_frame (cn_in cn) else None) of
        None \<Rightarrow> with_conn c (cn\<lparr>cn_phase := loops False sv\<rparr>) r
      | Some (kind, body, frame, rest) \<Rightarrow>
          if refused_kind kind
          then with_conn c (cn\<lparr>cn_phase := loops False sv\<rparr>) (relay_fail (Refused_Message kind) r)
          else with_conn c (cn\<lparr>cn_phase := loops (length frame \<le> n) sv, cn_in := rest,
                               cn_to_server := cn_to_server cn @ take n frame\<rparr>) r)"

definition exit_bodies :: "string list" where
  "exit_bodies = [[CHR 0x08, CHR 0x01], [CHR 0x08, CHR 0x02]]"

text \<open>Switching the session is turned into a detach.\<close>

definition convert_switch :: "int \<times> string \<times> string \<Rightarrow> int \<times> string \<times> string" where
  "convert_switch m =
     (if fst m = 7 then (3, [CHR 0x08, CHR 0x02], attachment_frame 3 [CHR 0x08, CHR 0x02]) else m)"

text \<open>The rest of an iteration, once the marker has been dealt with.\<close>

definition to_client :: "nat \<Rightarrow> conn \<Rightarrow> bool \<Rightarrow> nat \<Rightarrow> int \<times> string \<times> string \<Rightarrow> relay \<Rightarrow> relay" where
  "to_client c cn cl n m r =
     (case m of (kind, body, frame) \<Rightarrow>
        with_conn c (cn\<lparr>cn_phase := loops cl (length frame \<le> n \<and> kind \<noteq> 3),
                        cn_to_client := cn_to_client cn @ take n frame\<rparr>)
          (if kind = 3 \<and> body \<in> set exit_bodies then r\<lparr>rl_detached := rl_ready r\<rparr> else r))"

definition server_read :: "nat \<Rightarrow> conn \<Rightarrow> bool \<Rightarrow> nat \<Rightarrow> nat \<Rightarrow> relay \<Rightarrow> relay" where
  "server_read c cn cl m n r =
     (case (if cl then read_attachment_frame (cn_from cn) else None) of
        None \<Rightarrow> with_conn c (cn\<lparr>cn_phase := loops cl False\<rparr>) r
      | Some (kind, body, frame, rest) \<Rightarrow>
          (let msg = convert_switch (kind, body, frame); cn1 = cn\<lparr>cn_from := rest\<rparr> in
           if fst msg = 1 \<and> \<not> rl_ready r then
             (let marker = attachment_ready_frame (rl_attempt r);
                  cn2 = cn1\<lparr>cn_to_client := cn_to_client cn @ take m marker\<rparr> in
              if m < length marker
              then with_conn c (cn2\<lparr>cn_phase := loops cl False\<rparr>) (r\<lparr>rl_ready := True\<rparr>)
              else to_client c cn2 cl n msg (r\<lparr>rl_ready := True, rl_ready_closed := True\<rparr>))
           else to_client c cn1 cl n msg r))"

datatype relay_event =
    Accepted string | First_Read nat | Dialled nat "string option" nat | Reply_Read nat nat
  | Client_Read nat nat | Server_Read nat nat nat

text \<open>An event of a connection that is not where the event can happen changes nothing.\<close>

definition at_conn :: "nat \<Rightarrow> (conn \<Rightarrow> relay \<Rightarrow> relay) \<Rightarrow> relay \<Rightarrow> relay" where
  "at_conn c f r = (if c < length (rl_conns r) then f (rl_conns r ! c) r else r)"

fun relay_step :: "relay_event \<Rightarrow> relay \<Rightarrow> relay" where
  "relay_step (Accepted client) r = accept client r"
| "relay_step (First_Read c) r =
     at_conn c (\<lambda>cn r. case cn_phase cn of Opening \<Rightarrow> first_read c cn r | _ \<Rightarrow> r) r"
| "relay_step (Dialled c server n) r =
     at_conn c (\<lambda>cn r. case cn_phase cn of Dialling first \<Rightarrow> dialled c cn first server n r | _ \<Rightarrow> r) r"
| "relay_step (Reply_Read c n) r =
     at_conn c (\<lambda>cn r. case cn_phase cn of Probing \<Rightarrow> reply_read c cn n r | _ \<Rightarrow> r) r"
| "relay_step (Client_Read c n) r =
     at_conn c (\<lambda>cn r. case cn_phase cn of Relaying True sv \<Rightarrow> client_read c cn sv n r | _ \<Rightarrow> r) r"
| "relay_step (Server_Read c m n) r =
     at_conn c (\<lambda>cn r. case cn_phase cn of Relaying cl True \<Rightarrow> server_read c cn cl m n r | _ \<Rightarrow> r) r"

inductive relay_reachable :: "string \<Rightarrow> relay \<Rightarrow> bool" for attempt where
  relay_start: "relay_reachable attempt (new_relay attempt)"
| relay_next: "relay_reachable attempt r \<Longrightarrow> relay_reachable attempt (relay_step ev r)"

section \<open>Authority and the client's view\<close>

text \<open>What one connection may send to the server: a probe, or an attach request and admitted messages.\<close>

definition admitted :: "bool \<Rightarrow> (int \<times> string) list \<Rightarrow> bool" where
  "admitted interactive ms \<longleftrightarrow>
     list_all frame_of ms
     \<and> (case ms of [] \<Rightarrow> True
        | m # rest \<Rightarrow> if interactive then fst m = 8 \<and> list_all (\<lambda>m. \<not> refused_kind (fst m)) rest
                      else fst m = 13 \<and> rest = [])"

text \<open>What the client sees of the frames of the server.\<close>

fun client_view :: "string \<Rightarrow> bool \<Rightarrow> (int \<times> string \<times> string) list \<Rightarrow> string" where
  "client_view attempt ready [] = []"
| "client_view attempt ready (m # ms) =
     (let v = convert_switch m in
      (if fst v = 1 \<and> \<not> ready then attachment_ready_frame attempt else []) @ snd (snd v)
      @ (if fst v = 3 then [] else client_view attempt (ready \<or> fst v = 1) ms))"

definition sent_ok :: "conn \<Rightarrow> bool" where
  "sent_ok cn \<longleftrightarrow>
     (\<exists>ms. admitted (cn_interactive cn) ms \<and> prefix (cn_to_server cn) (concat (map snd ms))
        \<and> prefix (concat (map snd ms)) (cn_client cn))"

definition seen_ok :: "string \<Rightarrow> conn \<Rightarrow> bool" where
  "seen_ok attempt cn \<longleftrightarrow>
     (if cn_interactive cn then prefix (cn_to_client cn) (client_view attempt False (frames (cn_server cn)))
      else cn_to_client cn = [] \<or> (\<exists>f. frame_of (4, f) \<and> prefix (cn_to_client cn) f))"

definition conn_ok :: "string \<Rightarrow> bool \<Rightarrow> conn \<Rightarrow> bool" where
  "conn_ok attempt ready cn \<longleftrightarrow>
     (case cn_phase cn of
        Opening \<Rightarrow> cn_in cn = cn_client cn \<and> cn_to_server cn = [] \<and> cn_to_client cn = [] \<and> \<not> cn_interactive cn
      | Dialling f \<Rightarrow>
          cn_to_server cn = [] \<and> cn_to_client cn = [] \<and> cn_client cn = f @ cn_in cn
          \<and> frame_of (if cn_interactive cn then 8 else 13, f) \<and> (cn_interactive cn \<longrightarrow> \<not> ready)
      | Probing \<Rightarrow>
          \<not> cn_interactive cn \<and> cn_to_client cn = [] \<and> sent_ok cn
      | Relaying cl sv \<Rightarrow>
          cn_interactive cn
          \<and> (if cl then (\<exists>ms. ms \<noteq> [] \<and> admitted True ms \<and> cn_to_server cn = concat (map snd ms)
                          \<and> cn_client cn = cn_to_server cn @ cn_in cn)
             else sent_ok cn)
          \<and> (if sv then client_view attempt False (frames (cn_server cn))
                 = cn_to_client cn @ client_view attempt ready (frames (cn_from cn))
             else seen_ok attempt cn)
      | Over \<Rightarrow> sent_ok cn \<and> seen_ok attempt cn)"

definition relay_ok :: "string \<Rightarrow> relay \<Rightarrow> bool" where
  "relay_ok attempt r \<longleftrightarrow>
     rl_attempt r = attempt
     \<and> (\<forall>c < length (rl_conns r). conn_ok attempt (rl_ready r) (rl_conns r ! c)
          \<and> (cn_interactive (rl_conns r ! c) \<longrightarrow> rl_attached r))
     \<and> (\<forall>c < length (rl_conns r). \<forall>d < length (rl_conns r).
          cn_interactive (rl_conns r ! c) \<longrightarrow> cn_interactive (rl_conns r ! d) \<longrightarrow> c = d)
     \<and> (rl_ready r \<longrightarrow> rl_attached r)
     \<and> (rl_ready_closed r \<longrightarrow> (\<exists>cn \<in> set (rl_conns r). cn_interactive cn
            \<and> sublist (attachment_ready_frame attempt) (cn_to_client cn)))
     \<and> (rl_detached r \<longrightarrow> rl_ready r)"

lemma conn_ok_ready: "\<not> cn_interactive cn \<Longrightarrow> conn_ok attempt ready cn \<longleftrightarrow> conn_ok attempt ready' cn"
  by (auto simp: conn_ok_def split: conn_phase.splits)

lemma relay_ok_update:
  assumes ok: "relay_ok attempt r" and c: "c < length (rl_conns r)"
    and conns: "rl_conns r' = (rl_conns r)[c := cn]" and attempt: "rl_attempt r' = rl_attempt r"
    and cn: "conn_ok attempt (rl_ready r') cn"
    and turned: "rl_ready r' \<noteq> rl_ready r \<Longrightarrow> cn_interactive (rl_conns r ! c)"
    and became: "cn_interactive cn \<Longrightarrow> cn_interactive (rl_conns r ! c) \<or> \<not> rl_attached r"
    and stays: "cn_interactive (rl_conns r ! c) \<Longrightarrow> cn_interactive cn"
    and attached: "rl_attached r \<or> cn_interactive cn \<or> rl_ready r' \<Longrightarrow> rl_attached r'"
    and grows: "prefix (cn_to_client (rl_conns r ! c)) (cn_to_client cn)"
    and closed: "rl_ready_closed r' \<Longrightarrow> rl_ready_closed r
      \<or> cn_interactive cn \<and> sublist (attachment_ready_frame attempt) (cn_to_client cn)"
    and detached: "rl_detached r' \<Longrightarrow> rl_ready r'"
  shows "relay_ok attempt r'"
proof -
  let ?old = "rl_conns r" and ?new = "rl_conns r'"
  have len: "length ?new = length ?old" using conns by simp
  have nth: "?new ! d = (if d = c then cn else ?old ! d)" if "d < length ?old" for d
    using conns that by (simp add: nth_list_update)
  have old: "conn_ok attempt (rl_ready r) (?old ! d)" "cn_interactive (?old ! d) \<Longrightarrow> rl_attached r" if "d < length ?old" for d
    using ok that by (auto simp: relay_ok_def)
  have single: "cn_interactive (?old ! d) \<Longrightarrow> cn_interactive (?old ! e) \<Longrightarrow> d = e" if "d < length ?old" "e < length ?old" for d e
    using ok that by (auto simp: relay_ok_def)
  have other: "conn_ok attempt (rl_ready r') (?old ! d)" if "d < length ?old" "d \<noteq> c" for d
  proof (cases "rl_ready r' = rl_ready r")
    case False
    then have "\<not> cn_interactive (?old ! d)" using single [OF that(1) c] turned that(2) by blast
    then show ?thesis using old(1) [OF that(1)] conn_ok_ready by blast
  qed (use old(1) [OF that(1)] in simp)
  have "conn_ok attempt (rl_ready r') (?new ! d) \<and> (cn_interactive (?new ! d) \<longrightarrow> rl_attached r')" if "d < length ?new" for d
    using that len nth cn other attached old by auto
  moreover have "d = e" if "d < length ?new" "e < length ?new" "cn_interactive (?new ! d)" "cn_interactive (?new ! e)" for d e
    using that len nth single became old(2) c by (metis (full_types))
  moreover have "\<exists>x \<in> set ?new. cn_interactive x \<and> sublist (attachment_ready_frame attempt) (cn_to_client x)"
    if "rl_ready_closed r'"
    using closed [OF that]
  proof
    assume "rl_ready_closed r"
    then obtain d where d: "d < length ?old" "cn_interactive (?old ! d)"
      "sublist (attachment_ready_frame attempt) (cn_to_client (?old ! d))"
      using ok by (auto simp: relay_ok_def in_set_conv_nth)
    then have "cn_interactive (?new ! d) \<and> sublist (attachment_ready_frame attempt) (cn_to_client (?new ! d))"
      using nth [OF d(1)] stays grows by (auto dest: prefix_imp_sublist intro: sublist_order.order.trans)
    with d(1) len show ?thesis by (metis nth_mem)
  next
    assume "cn_interactive cn \<and> sublist (attachment_ready_frame attempt) (cn_to_client cn)"
    moreover have "cn \<in> set ?new" using c conns by (simp add: set_update_memI)
    ultimately show ?thesis by blast
  qed
  moreover have "rl_attempt r' = attempt" using ok attempt by (simp add: relay_ok_def)
  ultimately show ?thesis using attached detached unfolding relay_ok_def by blast
qed

lemma relay_fail_simps [simp]:
  "rl_attempt (relay_fail e r) = rl_attempt r" "rl_conns (relay_fail e r) = rl_conns r"
  "rl_attached (relay_fail e r) = rl_attached r" "rl_ready (relay_fail e r) = rl_ready r"
  "rl_detached (relay_fail e r) = rl_detached r" "rl_ready_closed (relay_fail e r) = rl_ready_closed r"
  by (simp_all add: relay_fail_def)

lemma with_conn_simps [simp]:
  "rl_attempt (with_conn c cn r) = rl_attempt r" "rl_conns (with_conn c cn r) = (rl_conns r)[c := cn]"
  "rl_attached (with_conn c cn r) = rl_attached r" "rl_ready (with_conn c cn r) = rl_ready r"
  "rl_detached (with_conn c cn r) = rl_detached r" "rl_ready_closed (with_conn c cn r) = rl_ready_closed r"
  by (simp_all add: with_conn_def)

lemma with_conn_ok:
  assumes ok: "relay_ok attempt r" and c: "c < length (rl_conns r)"
    and r1: "rl_conns r1 = rl_conns r" "rl_attempt r1 = rl_attempt r"
    and cn: "conn_ok attempt (rl_ready r1) cn"
    and turned: "rl_ready r1 \<noteq> rl_ready r \<Longrightarrow> cn_interactive (rl_conns r ! c)"
    and became: "cn_interactive cn \<Longrightarrow> cn_interactive (rl_conns r ! c) \<or> \<not> rl_attached r"
    and stays: "cn_interactive (rl_conns r ! c) \<Longrightarrow> cn_interactive cn"
    and attached: "rl_attached r \<or> cn_interactive cn \<or> rl_ready r1 \<Longrightarrow> rl_attached r1"
    and grows: "prefix (cn_to_client (rl_conns r ! c)) (cn_to_client cn)"
    and closed: "rl_ready_closed r1 \<Longrightarrow> rl_ready_closed r
      \<or> cn_interactive cn \<and> sublist (attachment_ready_frame attempt) (cn_to_client cn)"
    and detached: "rl_detached r1 \<Longrightarrow> rl_ready r1"
  shows "relay_ok attempt (with_conn c cn r1)"
  by (rule relay_ok_update [OF ok c, where cn = cn]) (use assms in auto)

lemma relay_okD:
  assumes "relay_ok attempt r" and "c < length (rl_conns r)"
  shows "conn_ok attempt (rl_ready r) (rl_conns r ! c)" and "cn_interactive (rl_conns r ! c) \<Longrightarrow> rl_attached r"
    and "rl_ready r \<Longrightarrow> rl_attached r" and "rl_detached r \<Longrightarrow> rl_ready r" and "rl_attempt r = attempt"
  using assms by (auto simp: relay_ok_def)

lemma sent_nothing: "cn_to_server cn = [] \<Longrightarrow> sent_ok cn"
  unfolding sent_ok_def by (intro exI [of _ "[]"]) (simp add: admitted_def)

lemma seen_nothing: "cn_to_client cn = [] \<Longrightarrow> seen_ok attempt cn"
  by (simp add: seen_ok_def)

lemma accept_ok: "relay_ok attempt r \<Longrightarrow> relay_ok attempt (accept client r)"
proof -
  assume ok: "relay_ok attempt r"
  let ?cs = "rl_conns r @ [new_conn client]"
  have new: "conn_ok attempt (rl_ready r) (new_conn client)" "\<not> cn_interactive (new_conn client)"
    by (simp_all add: new_conn_def conn_ok_def)
  have nth: "?cs ! c = (if c < length (rl_conns r) then rl_conns r ! c else new_conn client)"
    if "c < length ?cs" for c using that by (simp add: nth_append)
  have "relay_ok attempt (r\<lparr>rl_conns := ?cs\<rparr>)"
    unfolding relay_ok_def
  proof (intro conjI allI impI)
    fix c d assume "c < length (rl_conns (r\<lparr>rl_conns := ?cs\<rparr>))" "d < length (rl_conns (r\<lparr>rl_conns := ?cs\<rparr>))"
      "cn_interactive (rl_conns (r\<lparr>rl_conns := ?cs\<rparr>) ! c)" "cn_interactive (rl_conns (r\<lparr>rl_conns := ?cs\<rparr>) ! d)"
    then show "c = d" using ok new(2) nth [of c] nth [of d] by (auto simp: relay_ok_def split: if_splits)
  next
    fix c assume "c < length (rl_conns (r\<lparr>rl_conns := ?cs\<rparr>))"
    then show "conn_ok attempt (rl_ready (r\<lparr>rl_conns := ?cs\<rparr>)) (rl_conns (r\<lparr>rl_conns := ?cs\<rparr>) ! c)"
      using ok new(1) nth [of c] by (simp add: relay_ok_def)
  next
    fix c assume "c < length (rl_conns (r\<lparr>rl_conns := ?cs\<rparr>))" "cn_interactive (rl_conns (r\<lparr>rl_conns := ?cs\<rparr>) ! c)"
    then show "rl_attached (r\<lparr>rl_conns := ?cs\<rparr>)"
      using ok new(2) nth [of c] by (auto simp: relay_ok_def split: if_splits)
  qed (use ok in \<open>auto simp: relay_ok_def\<close>)
  then show ?thesis using ok by (simp add: accept_def)
qed

lemma first_read_ok:
  assumes ok: "relay_ok attempt r" and c: "c < length (rl_conns r)" and p: "cn_phase (rl_conns r ! c) = Opening"
  shows "relay_ok attempt (first_read c (rl_conns r ! c) r)"
proof -
  let ?cn = "rl_conns r ! c"
  note d = relay_okD [OF ok c]
  have cn: "cn_in ?cn = cn_client ?cn" "cn_to_server ?cn = []" "cn_to_client ?cn = []" "\<not> cn_interactive ?cn"
    using d(1) p by (auto simp: conn_ok_def)
  have over: "relay_ok attempt (with_conn c (?cn\<lparr>cn_phase := Over\<rparr>) r')"
    if "r' = r \<or> (\<exists>e. r' = relay_fail e r)" for r'
    by (rule with_conn_ok [OF ok c])
      (use that d(2-) cn in \<open>auto simp: conn_ok_def sent_nothing seen_nothing\<close>)
  show ?thesis
  proof (cases "read_attachment_frame (cn_in ?cn)")
    case None
    with over show ?thesis by (simp add: first_read_def)
  next
    case (Some m)
    obtain kind body frame rest where m: "m = (kind, body, frame, rest)" by (cases m)
    note split = read_frame_split [OF Some [unfolded m]]
    show ?thesis
    proof (cases "kind \<noteq> 8 \<and> kind \<noteq> 13 \<or> kind = 8 \<and> rl_attached r")
      case True
      with over Some m show ?thesis by (auto simp: first_read_def)
    next
      case False
      let ?new = "?cn\<lparr>cn_phase := Dialling frame, cn_interactive := (kind = 8), cn_in := rest\<rparr>"
      have "relay_ok attempt (with_conn c ?new (if kind = 8 then r\<lparr>rl_attached := True\<rparr> else r))"
        by (rule with_conn_ok [OF ok c])
          (use False d(2-) cn split in \<open>auto simp: conn_ok_def\<close>)
      with False Some m show ?thesis by (auto simp: first_read_def)
    qed
  qed
qed

lemma dialled_ok:
  assumes ok: "relay_ok attempt r" and c: "c < length (rl_conns r)" and p: "cn_phase (rl_conns r ! c) = Dialling first"
  shows "relay_ok attempt (dialled c (rl_conns r ! c) first server n r)"
proof -
  let ?cn = "rl_conns r ! c"
  note d = relay_okD [OF ok c]
  have cn: "cn_to_server ?cn = []" "cn_to_client ?cn = []" "cn_client ?cn = first @ cn_in ?cn"
    "frame_of (if cn_interactive ?cn then 8 else 13, first)" "cn_interactive ?cn \<longrightarrow> \<not> rl_ready r"
    using d(1) p by (auto simp: conn_ok_def)
  let ?ms = "[(if cn_interactive ?cn then 8 else 13, first)]"
  have ms: "admitted (cn_interactive ?cn) ?ms" "concat (map snd ?ms) = first"
    using cn(4) by (auto simp: admitted_def)
  show ?thesis
  proof (cases server)
    case None
    have "relay_ok attempt (with_conn c (?cn\<lparr>cn_phase := Over\<rparr>) (if cn_interactive ?cn then relay_fail Dial_Failed r else r))"
      by (rule with_conn_ok [OF ok c]) (use d(2-) cn in \<open>auto simp: conn_ok_def sent_nothing seen_nothing split: if_splits\<close>)
    with None show ?thesis by (simp add: dialled_def)
  next
    case (Some bytes)
    let ?cn1 = "?cn\<lparr>cn_server := bytes, cn_from := bytes, cn_to_server := take n first\<rparr>"
    have sent: "sent_ok (?cn1\<lparr>cn_phase := ph\<rparr>)" for ph
      unfolding sent_ok_def using ms cn(3) by (intro exI [of _ ?ms]) (auto simp: take_is_prefix)
    show ?thesis
    proof (cases "n < length first")
      case True
      have "relay_ok attempt (with_conn c (?cn1\<lparr>cn_phase := Over\<rparr>) (if cn_interactive ?cn then relay_fail Write_Failed r else r))"
        by (rule with_conn_ok [OF ok c]) (use d(2-) cn sent in \<open>auto simp: conn_ok_def seen_nothing split: if_splits\<close>)
      with Some True show ?thesis by (simp add: dialled_def Let_def)
    next
      case False
      have "conn_ok attempt (rl_ready r) (?cn1\<lparr>cn_phase := (if cn_interactive ?cn then Relaying True True else Probing)\<rparr>)"
        using False cn ms sent by (auto simp: conn_ok_def intro!: exI [of _ ?ms])
      then have "relay_ok attempt (with_conn c (?cn1\<lparr>cn_phase := (if cn_interactive ?cn then Relaying True True else Probing)\<rparr>) r)"
        by (intro with_conn_ok [OF ok c]) (use d(2-) cn in auto)
      with Some False show ?thesis by (simp add: dialled_def Let_def)
    qed
  qed
qed

lemma reply_read_ok:
  assumes ok: "relay_ok attempt r" and c: "c < length (rl_conns r)" and p: "cn_phase (rl_conns r ! c) = Probing"
  shows "relay_ok attempt (reply_read c (rl_conns r ! c) n r)"
proof -
  let ?cn = "rl_conns r ! c"
  note d = relay_okD [OF ok c]
  have cn: "\<not> cn_interactive ?cn" "cn_to_client ?cn = []" "sent_ok ?cn"
    using d(1) p by (auto simp: conn_ok_def)
  show ?thesis
  proof (cases "read_attachment_frame (cn_from ?cn)")
    case None
    have "relay_ok attempt (with_conn c (?cn\<lparr>cn_phase := Over\<rparr>) r)"
      by (rule with_conn_ok [OF ok c]) (use d(2-) cn in \<open>auto simp: conn_ok_def sent_ok_def seen_nothing\<close>)
    with None show ?thesis by (simp add: reply_read_def)
  next
    case (Some m)
    obtain reply body frame rest where m: "m = (reply, body, frame, rest)" by (cases m)
    note split = read_frame_split [OF Some [unfolded m]]
    let ?new = "?cn\<lparr>cn_phase := Over, cn_from := rest, cn_to_client := (if reply = 4 then take n frame else [])\<rparr>"
    have "seen_ok attempt ?new" using cn(1) split(6) by (auto simp: seen_ok_def take_is_prefix intro!: exI [of _ frame])
    moreover have "sent_ok ?new" using cn(3) by (simp add: sent_ok_def)
    ultimately have "relay_ok attempt (with_conn c ?new r)"
      by (intro with_conn_ok [OF ok c]) (use d(2-) cn in \<open>auto simp: conn_ok_def\<close>)
    with Some m show ?thesis by (simp add: reply_read_def)
  qed
qed

lemma admitted_snoc:
  "admitted True ms \<Longrightarrow> ms \<noteq> [] \<Longrightarrow> frame_of m \<Longrightarrow> \<not> refused_kind (fst m) \<Longrightarrow> admitted True (ms @ [m])"
  by (cases ms) (auto simp: admitted_def)

lemma client_read_ok:
  assumes ok: "relay_ok attempt r" and c: "c < length (rl_conns r)" and p: "cn_phase (rl_conns r ! c) = Relaying True sv"
  shows "relay_ok attempt (client_read c (rl_conns r ! c) sv n r)"
proof -
  let ?cn = "rl_conns r ! c"
  note d = relay_okD [OF ok c]
  have int: "cn_interactive ?cn" using d(1) p by (simp add: conn_ok_def)
  obtain ms where ms: "ms \<noteq> []" "admitted True ms" "cn_to_server ?cn = concat (map snd ms)"
    "cn_client ?cn = cn_to_server ?cn @ cn_in ?cn"
    using d(1) p by (auto simp: conn_ok_def)
  have seen: "if sv then client_view attempt False (frames (cn_server ?cn))
      = cn_to_client ?cn @ client_view attempt (rl_ready r) (frames (cn_from ?cn)) else seen_ok attempt ?cn"
    using d(1) p by (simp add: conn_ok_def)
  have sent: "sent_ok ?cn" unfolding sent_ok_def using ms int by (intro exI [of _ ms]) auto
  have stop: "relay_ok attempt (with_conn c (?cn\<lparr>cn_phase := loops False sv\<rparr>) r')"
    if "r' = r \<or> (\<exists>e. r' = relay_fail e r)" for r'
    by (rule with_conn_ok [OF ok c])
      (use that d(2-) sent seen int in \<open>auto simp: conn_ok_def loops_def sent_ok_def seen_ok_def split: if_splits\<close>)
  show ?thesis
  proof (cases "if sv then read_attachment_frame (cn_in ?cn) else None")
    case None
    with stop show ?thesis by (simp add: client_read_def)
  next
    case some: (Some m)
    then have sv: "sv" and Some: "read_attachment_frame (cn_in ?cn) = Some m" by (simp_all split: if_splits)
    obtain kind body frame rest where m: "m = (kind, body, frame, rest)" by (cases m)
    note split = read_frame_split [OF Some [unfolded m]]
    show ?thesis
    proof (cases "refused_kind kind")
      case True
      with stop some m show ?thesis by (auto simp: client_read_def)
    next
      case False
      let ?new = "?cn\<lparr>cn_phase := loops (length frame \<le> n) sv, cn_in := rest,
          cn_to_server := cn_to_server ?cn @ take n frame\<rparr>"
      let ?ms = "ms @ [(kind, frame)]"
      have a: "admitted True ?ms" by (rule admitted_snoc) (use ms False split in auto)
      have "sent_ok ?new" unfolding sent_ok_def
        using a int ms split(1) by (intro exI [of _ ?ms]) (auto simp: take_is_prefix)
      moreover have "cn_to_server ?new = concat (map snd ?ms) \<and> cn_client ?new = cn_to_server ?new @ rest"
        if "length frame \<le> n"
        using that ms split(1) by simp
      moreover have "seen_ok attempt ?new" if "\<not> sv" using seen that by (simp add: seen_ok_def)
      ultimately have "conn_ok attempt (rl_ready r) ?new"
        using a int seen by (auto simp: conn_ok_def loops_def intro!: exI [of _ ?ms] split: if_splits)
      then have "relay_ok attempt (with_conn c ?new r)"
        by (intro with_conn_ok [OF ok c]) (use d(2-) int in auto)
      with False some m show ?thesis by (simp add: client_read_def)
    qed
  qed
qed

lemma prefix_shown: "prefix (pre @ take n x) (pre @ x @ y)"
  by (metis append_take_drop_id append.assoc prefixI same_prefix_prefix)

text \<open>One message has been shown: the loop goes on with the rest, or ends.\<close>

lemma shown_next:
  assumes view: "client_view attempt False (frames server) = pre @ snd (snd v) @ (if fst v = 3 then [] else rest)"
    and int: "cn_interactive cn" and cn: "cn_server cn = server" "cn_to_client cn = pre @ take n (snd (snd v))"
  shows "seen_ok attempt cn"
    and "length (snd (snd v)) \<le> n \<Longrightarrow> fst v \<noteq> 3 \<Longrightarrow> client_view attempt False (frames server) = cn_to_client cn @ rest"
  using assms prefix_shown by (auto simp: seen_ok_def take_is_prefix)

lemma to_client_ok:
  assumes ok: "relay_ok attempt r" and c: "c < length (rl_conns r)" and p: "cn_phase (rl_conns r ! c) = Relaying cl True"
    and r1: "rl_conns r1 = rl_conns r" "rl_attempt r1 = rl_attempt r" "rl_attached r1 = rl_attached r"
      "rl_detached r1 = rl_detached r" "rl_ready r1 = (rl_ready r \<or> fst v = 1)"
      "rl_ready_closed r1 = (rl_ready_closed r \<or> fst v = 1 \<and> \<not> rl_ready r)"
    and shown: "shown = (if fst v = 1 \<and> \<not> rl_ready r then attachment_ready_frame attempt else [])"
    and cn: "cn = (rl_conns r ! c)\<lparr>cn_from := rest, cn_to_client := cn_to_client (rl_conns r ! c) @ shown\<rparr>"
    and view: "client_view attempt (rl_ready r) (frames (cn_from (rl_conns r ! c)))
      = shown @ snd (snd v) @ (if fst v = 3 then [] else client_view attempt (rl_ready r1) (frames rest))"
  shows "relay_ok attempt (to_client c cn cl n v r1)"
proof -
  let ?old = "rl_conns r ! c"
  note d = relay_okD [OF ok c]
  obtain kind body frame where v: "v = (kind, body, frame)" by (cases v)
  have int: "cn_interactive ?old" using d(1) p by (simp add: conn_ok_def)
  have "client_view attempt False (frames (cn_server ?old))
      = cn_to_client ?old @ client_view attempt (rl_ready r) (frames (cn_from ?old))"
    using d(1) p by (simp add: conn_ok_def)
  then have all: "client_view attempt False (frames (cn_server ?old)) = (cn_to_client ?old @ shown) @ snd (snd v)
      @ (if fst v = 3 then [] else client_view attempt (rl_ready r1) (frames rest))"
    unfolding view by simp
  let ?new = "cn\<lparr>cn_phase := loops cl (length frame \<le> n \<and> kind \<noteq> 3), cn_to_client := cn_to_client cn @ take n frame\<rparr>"
  let ?r2 = "if kind = 3 \<and> body \<in> set exit_bodies then r1\<lparr>rl_detached := rl_ready r1\<rparr> else r1"
  have new: "cn_interactive ?new" "cn_server ?new = cn_server ?old"
    "cn_to_client ?new = (cn_to_client ?old @ shown) @ take n (snd (snd v))"
    using int cn v by simp_all
  note go = shown_next [OF all new]
  have sent: "if cl then (\<exists>ms. ms \<noteq> [] \<and> admitted True ms \<and> cn_to_server ?new = concat (map snd ms)
      \<and> cn_client ?new = cn_to_server ?new @ cn_in ?new) else sent_ok ?new"
  proof -
    have "sent_ok ?new = sent_ok ?old" by (simp add: sent_ok_def cn)
    then show ?thesis using d(1) p cn by (simp add: conn_ok_def split: if_splits)
  qed
  have sent2: "sent_ok ?new"
  proof (cases cl)
    case True
    then show ?thesis using sent new(1) unfolding sent_ok_def by auto
  qed (use sent in simp)
  have "conn_ok attempt (rl_ready ?r2) ?new"
    using sent sent2 go new(1,2) v cn by (auto simp: conn_ok_def loops_def split: if_splits)
  then have "relay_ok attempt (with_conn c ?new ?r2)"
  proof (intro with_conn_ok [OF ok c])
    assume "rl_ready_closed ?r2"
    then have "rl_ready_closed r \<or> fst v = 1 \<and> \<not> rl_ready r" using r1(6) by (auto split: if_splits)
    then show "rl_ready_closed r \<or> cn_interactive ?new \<and> sublist (attachment_ready_frame attempt) (cn_to_client ?new)"
      using new shown by (auto simp: sublist_def)
  qed (use d(2-) int r1 cn in \<open>auto split: if_splits\<close>)
  then show ?thesis by (simp add: to_client_def v)
qed

lemma server_read_ok:
  assumes ok: "relay_ok attempt r" and c: "c < length (rl_conns r)" and p: "cn_phase (rl_conns r ! c) = Relaying cl True"
  shows "relay_ok attempt (server_read c (rl_conns r ! c) cl m n r)"
proof -
  let ?cn = "rl_conns r ! c"
  note d = relay_okD [OF ok c]
  have int: "cn_interactive ?cn" using d(1) p by (simp add: conn_ok_def)
  have view: "client_view attempt False (frames (cn_server ?cn))
      = cn_to_client ?cn @ client_view attempt (rl_ready r) (frames (cn_from ?cn))"
    using d(1) p by (simp add: conn_ok_def)
  have sent: "if cl then (\<exists>ms. ms \<noteq> [] \<and> admitted True ms \<and> cn_to_server ?cn = concat (map snd ms)
      \<and> cn_client ?cn = cn_to_server ?cn @ cn_in ?cn) else sent_ok ?cn" and sent2: "sent_ok ?cn"
    using d(1) p by (auto simp: conn_ok_def sent_ok_def split: if_splits)
  show ?thesis
  proof (cases "if cl then read_attachment_frame (cn_from ?cn) else None")
    case None
    have "conn_ok attempt (rl_ready r) (?cn\<lparr>cn_phase := loops cl False\<rparr>)"
      using int view sent sent2 by (auto simp: conn_ok_def loops_def seen_ok_def sent_ok_def split: if_splits)
    then have "relay_ok attempt (with_conn c (?cn\<lparr>cn_phase := loops cl False\<rparr>) r)"
      by (intro with_conn_ok [OF ok c]) (use d(2-) int in auto)
    with None show ?thesis by (simp add: server_read_def)
  next
    case some: (Some msg)
    then have cl: "cl" and Some: "read_attachment_frame (cn_from ?cn) = Some msg" by (simp_all split: if_splits)
    obtain kind body frame rest where msg: "msg = (kind, body, frame, rest)" by (cases msg)
    let ?v = "convert_switch (kind, body, frame)"
    have frames: "frames (cn_from ?cn) = (kind, body, frame) # frames rest"
      using Some msg by (subst frames.simps) simp
    show ?thesis
    proof (cases "fst ?v = 1 \<and> \<not> rl_ready r")
      case first: True
      let ?marker = "attachment_ready_frame attempt"
      show ?thesis
      proof (cases "m < length ?marker")
        case True
        let ?new = "?cn\<lparr>cn_from := rest, cn_to_client := cn_to_client ?cn @ take m ?marker, cn_phase := loops cl False\<rparr>"
        have "prefix (cn_to_client ?new) (client_view attempt False (frames (cn_server ?cn)))"
          using first prefix_shown unfolding view frames by (simp add: Let_def)
        then have "conn_ok attempt True ?new"
          using int sent sent2 by (auto simp: conn_ok_def loops_def seen_ok_def sent_ok_def split: if_splits)
        then have "relay_ok attempt (with_conn c ?new (r\<lparr>rl_ready := True\<rparr>))"
          by (intro with_conn_ok [OF ok c]) (use d(2-) int in auto)
        with some msg first True d(5) show ?thesis by (simp add: server_read_def Let_def)
      next
        case False
        have "relay_ok attempt (to_client c (?cn\<lparr>cn_from := rest, cn_to_client := cn_to_client ?cn @ ?marker\<rparr>) cl n ?v
            (r\<lparr>rl_ready := True, rl_ready_closed := True\<rparr>))"
          by (rule to_client_ok [OF ok c p, where shown = ?marker and rest = rest])
            (use first in \<open>auto simp: frames Let_def\<close>)
        with some msg first False d(5) show ?thesis by (simp add: server_read_def Let_def)
      qed
    next
      case False
      have "relay_ok attempt (to_client c (?cn\<lparr>cn_from := rest\<rparr>) cl n ?v r)"
        by (rule to_client_ok [OF ok c p, where shown = "[]" and rest = rest])
          (use False in \<open>auto simp: frames Let_def\<close>)
      with some msg False show ?thesis by (auto simp: server_read_def Let_def)
    qed
  qed
qed

lemma relay_step_ok: "relay_ok attempt r \<Longrightarrow> relay_ok attempt (relay_step ev r)"
  by (cases ev)
    (auto simp: at_conn_def accept_ok first_read_ok dialled_ok reply_read_ok client_read_ok server_read_ok
      split: conn_phase.splits bool.splits)

lemma reachable_relay_ok: "relay_reachable attempt r \<Longrightarrow> relay_ok attempt r"
proof (induction rule: relay_reachable.induct)
  case relay_start
  then show ?case by (simp add: relay_ok_def new_relay_def)
qed (rule relay_step_ok)

lemma conn_ok_sent: "conn_ok attempt ready cn \<Longrightarrow> sent_ok cn"
proof (cases "cn_to_server cn = []")
  case False
  moreover assume "conn_ok attempt ready cn"
  ultimately show ?thesis by (cases "cn_phase cn") (auto simp: conn_ok_def sent_ok_def split: if_splits)
qed (rule sent_nothing)

lemma conn_ok_seen: "conn_ok attempt ready cn \<Longrightarrow> seen_ok attempt cn"
  by (cases "cn_phase cn") (auto simp: conn_ok_def seen_nothing seen_ok_def split: if_splits)

text \<open>
  C16: authority. Whatever a connection has sent to the server is a prefix of whole frames that its
  client sent, in order and unchanged: nothing, one probe, or one attach request followed by messages
  none of which attaches, creates, switches, queries or kills. At most one connection of a relay
  attaches.
\<close>

theorem relay_authority:
  assumes "relay_reachable attempt r"
  shows "\<exists>msgs. (\<forall>cn \<in> set (rl_conns r). list_all frame_of (msgs cn)
      \<and> prefix (cn_to_server cn) (concat (map snd (msgs cn))) \<and> prefix (concat (map snd (msgs cn))) (cn_client cn)
      \<and> (msgs cn = [] \<or> map fst (msgs cn) = [13]
         \<or> (\<exists>ks. map fst (msgs cn) = 8 # ks \<and> list_all (\<lambda>k. k \<notin> {0, 7, 8, 12, 13, 16, 25} \<and> k \<le> 27) ks)))
    \<and> (\<forall>c < length (rl_conns r). \<forall>d < length (rl_conns r).
         8 \<in> set (map fst (msgs (rl_conns r ! c))) \<and> 8 \<in> set (map fst (msgs (rl_conns r ! d))) \<longrightarrow> c = d)"
proof -
  have ok: "relay_ok attempt r" using assms by (rule reachable_relay_ok)
  define msgs where "msgs cn = (SOME ms. admitted (cn_interactive cn) ms \<and> prefix (cn_to_server cn) (concat (map snd ms))
     \<and> prefix (concat (map snd ms)) (cn_client cn))" for cn :: conn
  have msgs: "admitted (cn_interactive cn) (msgs cn)" "prefix (cn_to_server cn) (concat (map snd (msgs cn)))"
    "prefix (concat (map snd (msgs cn))) (cn_client cn)" if mem: "cn \<in> set (rl_conns r)" for cn
  proof -
    obtain c where "c < length (rl_conns r)" "rl_conns r ! c = cn" using mem by (auto simp: in_set_conv_nth)
    then have "sent_ok cn" using relay_okD(1) [OF ok] conn_ok_sent by blast
    then have "\<exists>ms. admitted (cn_interactive cn) ms \<and> prefix (cn_to_server cn) (concat (map snd ms))
        \<and> prefix (concat (map snd ms)) (cn_client cn)" by (simp add: sent_ok_def)
    from someI_ex [OF this] show "admitted (cn_interactive cn) (msgs cn)"
      "prefix (cn_to_server cn) (concat (map snd (msgs cn)))" "prefix (concat (map snd (msgs cn))) (cn_client cn)"
      by (auto simp: msgs_def)
  qed
  have shape: "ms = [] \<or> map fst ms = [13]
      \<or> (\<exists>ks. map fst ms = 8 # ks \<and> list_all (\<lambda>k. k \<notin> {0, 7, 8, 12, 13, 16, 25} \<and> k \<le> 27) ks)"
    if "admitted b ms" for b ms
    using that by (cases ms) (auto simp: admitted_def refused_kind_def list_all_iff split: if_splits)
  have eight: "b" if "admitted b ms" "8 \<in> set (map fst ms)" for b ms
    using that by (cases ms) (auto simp: admitted_def split: if_splits)
  have "c = d" if "c < length (rl_conns r)" "d < length (rl_conns r)"
    "8 \<in> set (map fst (msgs (rl_conns r ! c)))" "8 \<in> set (map fst (msgs (rl_conns r ! d)))" for c d
  proof -
    have "cn_interactive (rl_conns r ! c)" "cn_interactive (rl_conns r ! d)"
      using eight msgs(1) that nth_mem by blast+
    with ok that(1,2) show ?thesis by (simp add: relay_ok_def)
  qed
  moreover have "list_all frame_of (msgs cn)" if "cn \<in> set (rl_conns r)" for cn
    using msgs(1) [OF that] by (simp add: admitted_def)
  ultimately show ?thesis using msgs shape by (intro exI [of _ msgs]) blast
qed

text \<open>
  C17: the client's view. An attached client sees the frames of the server in order and unchanged, with
  the readiness marker once, right before the first render, a detach for every attempt to switch, and
  nothing after the exit message. A probe sees at most the reply to a probe. Readiness is announced
  only after the whole marker was written, and a detach counts only after readiness.
\<close>

theorem relay_view:
  assumes "relay_reachable attempt r"
  shows "(\<forall>cn \<in> set (rl_conns r).
      if cn_interactive cn then prefix (cn_to_client cn) (client_view attempt False (frames (cn_server cn)))
      else cn_to_client cn = [] \<or> (\<exists>f. frame_of (4, f) \<and> prefix (cn_to_client cn) f))
    \<and> (rl_ready_closed r \<longrightarrow> (\<exists>cn \<in> set (rl_conns r). cn_interactive cn
          \<and> sublist (attachment_ready_frame attempt) (cn_to_client cn)))
    \<and> (rl_detached r \<longrightarrow> rl_ready r)"
proof -
  have ok: "relay_ok attempt r" using assms by (rule reachable_relay_ok)
  have "seen_ok attempt cn" if "cn \<in> set (rl_conns r)" for cn
    using that relay_okD(1) [OF ok] conn_ok_seen by (metis in_set_conv_nth)
  with ok show ?thesis by (auto simp: relay_ok_def seen_ok_def)
qed

text \<open>A read of the server whose writes are taken in full.\<close>

lemma detach_frame_length: "length (attachment_frame 3 [CHR 0x08, CHR 0x02]) = 8"
  by (simp add: attachment_frame_def attachment_payload_def Let_def le32_def append_uvarint.simps)

lemma server_read_full:
  assumes c: "c < length (rl_conns r)" and m: "read_attachment_frame (cn_from cn) = Some (kind, body, frame, rest)"
    and v: "v = convert_switch (kind, body, frame)"
    and room: "4 + max_attachment_frame \<le> int l" "length (attachment_ready_frame (rl_attempt r)) \<le> l"
  shows "rl_conns (server_read c cn True l l r) ! c = cn\<lparr>cn_phase := loops True (fst v \<noteq> 3), cn_from := rest,
      cn_to_client := cn_to_client cn
        @ (if fst v = 1 \<and> \<not> rl_ready r then attachment_ready_frame (rl_attempt r) else []) @ snd (snd v)\<rparr>"
    and "rl_ready (server_read c cn True l l r) = (rl_ready r \<or> fst v = 1)"
    and "length (rl_conns (server_read c cn True l l r)) = length (rl_conns r)"
proof -
  have "length frame \<le> l" using read_frame_split(5) [OF m] room(1) by simp
  moreover have "8 \<le> l" using room(1) by (simp add: max_attachment_frame_def)
  ultimately have fits: "length (snd (snd v)) \<le> l" using v by (simp add: convert_switch_def detach_frame_length)
  obtain k b f where kbf: "v = (k, b, f)" by (cases v)
  show "rl_conns (server_read c cn True l l r) ! c = cn\<lparr>cn_phase := loops True (fst v \<noteq> 3), cn_from := rest,
      cn_to_client := cn_to_client cn
        @ (if fst v = 1 \<and> \<not> rl_ready r then attachment_ready_frame (rl_attempt r) else []) @ snd (snd v)\<rparr>"
    "rl_ready (server_read c cn True l l r) = (rl_ready r \<or> fst v = 1)"
    "length (rl_conns (server_read c cn True l l r)) = length (rl_conns r)"
    using c m fits room(2) unfolding v [symmetric] kbf
    by (auto simp: server_read_def Let_def v [symmetric] kbf to_client_def)
qed

lemma delivers:
  assumes "relay_ok attempt r" "c < length (rl_conns r)" "cn_phase (rl_conns r ! c) = Relaying True True"
    and room: "4 + max_attachment_frame \<le> int l" "length (attachment_ready_frame attempt) \<le> l"
  shows "\<exists>k. cn_to_client (rl_conns ((relay_step (Server_Read c l l) ^^ k) r) ! c)
    = client_view attempt False (frames (cn_server (rl_conns r ! c)))"
  using assms(1-3)
proof (induction "length (cn_from (rl_conns r ! c))" arbitrary: r rule: less_induct)
  case less
  let ?cn = "rl_conns r ! c"
  have view: "client_view attempt False (frames (cn_server ?cn))
      = cn_to_client ?cn @ client_view attempt (rl_ready r) (frames (cn_from ?cn))"
    using relay_okD(1) [OF less.prems(1,2)] less.prems(3) by (simp add: conn_ok_def)
  have att: "rl_attempt r = attempt" using relay_okD(5) [OF less.prems(1,2)] .
  show ?case
  proof (cases "read_attachment_frame (cn_from ?cn)")
    case None
    then have "frames (cn_from ?cn) = []" by (subst frames.simps) simp
    with view show ?thesis by (intro exI [of _ 0]) simp
  next
    case (Some msg)
    obtain kind body frame rest where msg: "msg = (kind, body, frame, rest)" by (cases msg)
    let ?v = "convert_switch (kind, body, frame)"
    let ?r1 = "relay_step (Server_Read c l l) r"
    have r1: "?r1 = server_read c ?cn True l l r" using less.prems by (simp add: at_conn_def)
    note full = server_read_full [OF less.prems(2) Some [unfolded msg] refl, of l, unfolded att, OF room, folded r1]
    have frames: "frames (cn_from ?cn) = (kind, body, frame) # frames rest"
      using Some msg by (subst frames.simps) simp
    show ?thesis
    proof (cases "fst ?v = 3")
      case True
      then have "cn_to_client (rl_conns ?r1 ! c) = client_view attempt False (frames (cn_server ?cn))"
        unfolding view frames using full(1) by (simp add: Let_def)
      then show ?thesis by (intro exI [of _ 1]) simp
    next
      case False
      have "length (cn_from (rl_conns ?r1 ! c)) < length (cn_from ?cn)"
        using full(1) read_frame_shorter [OF Some [unfolded msg]] by simp
      moreover have "c < length (rl_conns ?r1)" using full(3) less.prems(2) by simp
      moreover have "cn_phase (rl_conns ?r1 ! c) = Relaying True True" using full(1) False by (simp add: loops_def)
      ultimately obtain k where "cn_to_client (rl_conns ((relay_step (Server_Read c l l) ^^ k) ?r1) ! c)
          = client_view attempt False (frames (cn_server (rl_conns ?r1 ! c)))"
        using less.hyps relay_step_ok [OF less.prems(1)] by blast
      then have "cn_to_client (rl_conns ((relay_step (Server_Read c l l) ^^ Suc k) r) ! c)
          = client_view attempt False (frames (cn_server ?cn))"
        using full(1) by (simp add: funpow_swap1)
      then show ?thesis by blast
    qed
  qed
qed

text \<open>
  C40: the relay delivers. While both loops of an attached connection run and the writes to the client are taken in
  full, reading the server goes on until the client has been shown the whole view of everything the
  server sends.
\<close>

theorem relay_delivers:
  assumes "relay_reachable attempt r" and "c < length (rl_conns r)" and "cn_phase (rl_conns r ! c) = Relaying True True"
    and "4 + max_attachment_frame \<le> int l" and "length (attachment_ready_frame attempt) \<le> l"
  shows "\<exists>k. cn_to_client (rl_conns ((relay_step (Server_Read c l l) ^^ k) r) ! c)
    = client_view attempt False (frames (cn_server (rl_conns r ! c)))"
  using delivers [OF reachable_relay_ok [OF assms(1)] assms(2-)] .

section \<open>Examples\<close>

lemma messages_roundtrip_witness:
  "frames (attachment_frame 8 [] @ attachment_frame 300 ''ab'' @ [])
    = [(8, [], attachment_frame 8 []), (300, ''ab'', attachment_frame 300 ''ab'')]"
proof -
  have "int (length (attachment_payload 8 [])) \<le> max_attachment_frame" by code_simp
  moreover have "int (length (attachment_payload 300 ''ab'')) \<le> max_attachment_frame" by code_simp
  ultimately show ?thesis using messages_roundtrip [of "[(8, []), (300, ''ab'')]"] by simp
qed

definition ex_attempt :: string where "ex_attempt = replicate 32 (CHR ''a'')"

text \<open>A client attaches and the server renders once.\<close>

definition ex_relay_events :: "relay_event list" where
  "ex_relay_events =
     [Accepted (attachment_frame 8 []), First_Read 0, Dialled 0 (Some (attachment_frame 1 ''x'')) 100]"

definition ex_relay :: relay where
  "ex_relay = fold relay_step ex_relay_events (new_relay ex_attempt)"

lemma reachable_fold: "relay_reachable attempt r \<Longrightarrow> relay_reachable attempt (fold relay_step evs r)"
  by (induction evs arbitrary: r) (auto intro: relay_next)

lemma ex_relay_reachable: "relay_reachable ex_attempt ex_relay"
  unfolding ex_relay_def by (rule reachable_fold [OF relay_start])

lemma ex_relay_conns: "rl_conns ex_relay =
    [\<lparr>cn_phase = Relaying True True, cn_interactive = True, cn_client = attachment_frame 8 [], cn_in = [],
      cn_server = attachment_frame 1 ''x'', cn_from = attachment_frame 1 ''x'',
      cn_to_server = attachment_frame 8 [], cn_to_client = []\<rparr>]"
  by code_simp

lemma relay_authority_witness:
  "\<exists>ms. prefix (attachment_frame 8 []) (concat (map snd ms)) \<and> prefix (concat (map snd ms)) (attachment_frame 8 [])
    \<and> map fst ms \<noteq> [7 :: int]"
proof -
  let ?cn = "hd (rl_conns ex_relay)"
  have mem: "?cn \<in> set (rl_conns ex_relay)" by (simp add: ex_relay_conns)
  have cn: "cn_to_server ?cn = attachment_frame 8 []" "cn_client ?cn = attachment_frame 8 []"
    by (simp_all add: ex_relay_conns)
  from relay_authority [OF ex_relay_reachable] obtain msgs where
    all: "\<forall>cn \<in> set (rl_conns ex_relay). list_all frame_of (msgs cn)
      \<and> prefix (cn_to_server cn) (concat (map snd (msgs cn))) \<and> prefix (concat (map snd (msgs cn))) (cn_client cn)
      \<and> (msgs cn = [] \<or> map fst (msgs cn) = [13]
         \<or> (\<exists>ks. map fst (msgs cn) = 8 # ks \<and> list_all (\<lambda>k. k \<notin> {0, 7, 8, 12, 13, 16, 25} \<and> k \<le> 27) ks))"
    by (elim exE conjE)
  from bspec [OF all mem] show ?thesis unfolding cn by (intro exI [of _ "msgs ?cn"]) auto
qed

lemma relay_view_witness:
  "prefix (cn_to_client (hd (rl_conns ex_relay)))
     (client_view ex_attempt False (frames (cn_server (hd (rl_conns ex_relay)))))"
proof -
  have "hd (rl_conns ex_relay) \<in> set (rl_conns ex_relay)" "cn_interactive (hd (rl_conns ex_relay))"
    by (simp_all add: ex_relay_conns)
  with relay_view [OF ex_relay_reachable] show ?thesis by auto
qed

lemma relay_delivers_witness:
  "\<exists>k. cn_to_client (rl_conns ((relay_step (Server_Read 0 5000000 5000000) ^^ k) ex_relay) ! 0)
    = attachment_ready_frame ex_attempt @ attachment_frame 1 ''x''"
proof -
  have "client_view ex_attempt False (frames (attachment_frame 1 ''x'')) = attachment_ready_frame ex_attempt @ attachment_frame 1 ''x''"
    by code_simp
  moreover have "int (length (attachment_ready_frame ex_attempt)) \<le> 5000000" by code_simp
  ultimately show ?thesis
    using relay_delivers [OF ex_relay_reachable, of 0 5000000] by (simp add: ex_relay_conns max_attachment_frame_def)
qed

end
