(* ===== verification/Picker.thy ===== *)
theory Picker
  imports Mirror_Model Go_Runes
begin

text \<open>
  The session picker, \<open>internal/mirrortui/model.go\<close>: a model, its messages and the selection it ends
  with. \<open>strings.ToLower\<close> and \<open>unicode.IsPrint\<close> read Unicode tables and are arguments; a key message is
  its name and, for typed text, its runes.
\<close>

section \<open>The model\<close>

record picker_text =
  pt_lower :: "string \<Rightarrow> string"
  pt_printable :: "string \<Rightarrow> bool"

record picker =
  pk_windows :: "mirror_window list"
  pk_visible :: "nat list"
  pk_checked :: "nat \<Rightarrow> bool"
  pk_cursor :: nat
  pk_query :: string
  pk_width :: int
  pk_height :: int
  pk_color :: bool
  pk_done :: bool
  pk_cancelled :: bool

datatype tui_message = Resized int int | Key string "string list option"

fun join_with :: "string \<Rightarrow> string list \<Rightarrow> string" where
  "join_with sep [] = []"
| "join_with sep [v] = v"
| "join_with sep (v # vs) = v @ sep @ join_with sep vs"

section \<open>Groups\<close>

record session_group =
  gr_label :: string
  gr_indexes :: "nat list"
  gr_headless :: bool

definition workspace_group_key :: "mirror_window \<Rightarrow> string" where
  "workspace_group_key w =
     (if trim_space (mw_workspace_id w) \<noteq> [] then ''id:'' @ trim_space (mw_workspace_id w)
      else if 0 < mw_workspace_index w \<or> trim_space (mw_output w) \<noteq> []
      then ''position:'' @ show_int (mw_workspace_index w) @ '':'' @ trim_space (mw_output w)
      else ''window:'' @ show_int (mw_source_id w))"

definition middle_dot :: string where "middle_dot = [CHR 0xC2, CHR 0xB7]"

definition workspace_group_label :: "mirror_window \<Rightarrow> string" where
  "workspace_group_label w =
     (let named = trim_space (mw_workspace_name w);
          indexed = (if named = [] \<and> 0 < mw_workspace_index w
                     then ''Workspace '' @ show_int (mw_workspace_index w) else named);
          placed = (if indexed = [] then trim_space (mw_output w) else indexed);
          label = (if placed \<noteq> [] then placed
                   else if trim_space (mw_workspace_id w) \<noteq> [] then ''Workspace '' @ trim_space (mw_workspace_id w)
                   else ''Workspace (unknown)'');
          output = trim_space (mw_output w) in
      if output \<noteq> [] \<and> output \<noteq> label then label @ '' '' @ middle_dot @ '' '' @ output else label)"

text \<open>The groups in the order of their first window, with their keys, and the headless windows.\<close>

definition add_index ::
    "mirror_window list \<Rightarrow> (string \<times> session_group) list \<times> nat list \<Rightarrow> nat
     \<Rightarrow> (string \<times> session_group) list \<times> nat list"
where
  "add_index ws acc i =
     (case acc of (groups, headless) \<Rightarrow>
        (let w = ws ! i; key = workspace_group_key w in
         if mw_headless w then (groups, headless @ [i])
         else if key \<in> fst ` set groups
         then (map (\<lambda>(k, g). (k, if k = key then g\<lparr>gr_indexes := gr_indexes g @ [i]\<rparr> else g)) groups, headless)
         else (groups @ [(key, \<lparr>gr_label = workspace_group_label w, gr_indexes = [i], gr_headless = False\<rparr>)], headless)))"

definition build_session_groups :: "mirror_window list \<Rightarrow> nat list \<Rightarrow> session_group list" where
  "build_session_groups ws indexes =
     (case foldl (add_index ws) ([], []) indexes of (groups, headless) \<Rightarrow>
        map snd groups
        @ (if headless = [] then []
           else [\<lparr>gr_label = ''Headless Zellij'', gr_indexes = headless, gr_headless = True\<rparr>]))"

section \<open>Filtering\<close>

definition haystack :: "mirror_window \<Rightarrow> string" where
  "haystack w =
     (let cwd = (case mw_terminal w of None \<Rightarrow> [] | Some t \<Rightarrow> mt_cwd t);
          projects = (case mw_terminal w of None \<Rightarrow> []
                      | Some t \<Rightarrow> join_with ''/'' (map sg_label (mt_project t))) in
      join_with [CHR 0x00] [session_name w, mw_title w, mw_workspace_name w, cwd, projects])"

definition window_matches :: "picker_text \<Rightarrow> string \<Rightarrow> mirror_window \<Rightarrow> bool" where
  "window_matches lib query w \<longleftrightarrow>
     pt_lower lib query = [] \<or> sublist (pt_lower lib query) (pt_lower lib (haystack w))"

fun position :: "nat \<Rightarrow> nat list \<Rightarrow> nat option" where
  "position x [] = None"
| "position x (y # ys) = (if x = y then Some 0 else map_option Suc (position x ys))"

definition current_index :: "picker \<Rightarrow> nat option" where
  "current_index m = (if pk_cursor m < length (pk_visible m) then Some (pk_visible m ! pk_cursor m) else None)"

definition refilter :: "picker_text \<Rightarrow> nat option \<Rightarrow> picker \<Rightarrow> picker" where
  "refilter lib preferred m =
     (let matched = filter (\<lambda>i. window_matches lib (pk_query m) (pk_windows m ! i)) [0..<length (pk_windows m)];
          visible = concat (map gr_indexes (build_session_groups (pk_windows m) matched)) in
      m\<lparr>pk_visible := visible,
        pk_cursor := (case preferred of None \<Rightarrow> 0
                      | Some p \<Rightarrow> (case position p visible of None \<Rightarrow> 0 | Some i \<Rightarrow> i))\<rparr>)"

definition new_picker :: "picker_text \<Rightarrow> mirror_window list \<Rightarrow> bool \<Rightarrow> picker" where
  "new_picker lib ws color =
     refilter lib None
       \<lparr>pk_windows = ws, pk_visible = [], pk_checked = (\<lambda>i. False), pk_cursor = 0, pk_query = [], pk_width = 80,
        pk_height = 24, pk_color = color, pk_done = False, pk_cancelled = False\<rparr>"

definition toggle_filtered :: "picker \<Rightarrow> picker" where
  "toggle_filtered m =
     (if pk_visible m = [] then m
      else (let all = list_all (pk_checked m) (pk_visible m) in
            m\<lparr>pk_checked := (\<lambda>i. if i \<in> set (pk_visible m) then \<not> all else pk_checked m i)\<rparr>))"

section \<open>Messages\<close>

text \<open>The second component tells that the message asks the program to quit.\<close>

definition update_picker :: "picker_text \<Rightarrow> tui_message \<Rightarrow> picker \<Rightarrow> picker \<times> bool" where
  "update_picker lib msg m =
     (case msg of
        Resized w h \<Rightarrow> (m\<lparr>pk_width := w, pk_height := h\<rparr>, False)
      | Key name typed \<Rightarrow>
          if name = ''ctrl+c'' then (m\<lparr>pk_cancelled := True, pk_done := True\<rparr>, True)
          else if name = ''esc'' then
            (if pk_query m \<noteq> [] then (refilter lib (current_index m) (m\<lparr>pk_query := []\<rparr>), False)
             else (m\<lparr>pk_cancelled := True, pk_done := True\<rparr>, True))
          else if name = ''up'' then (if 0 < pk_cursor m then m\<lparr>pk_cursor := pk_cursor m - 1\<rparr> else m, False)
          else if name = ''down'' then
            (if pk_cursor m + 1 < length (pk_visible m) then m\<lparr>pk_cursor := pk_cursor m + 1\<rparr> else m, False)
          else if name = '' '' then
            (case current_index m of None \<Rightarrow> (m, False)
             | Some i \<Rightarrow> (m\<lparr>pk_checked := (pk_checked m)(i := \<not> pk_checked m i)\<rparr>, False))
          else if name = ''ctrl+a'' then (toggle_filtered m, False)
          else if name = ''enter'' then (if pk_visible m = [] then (m, False) else (m\<lparr>pk_done := True\<rparr>, True))
          else if name = ''backspace'' then
            (if pk_query m \<noteq> [] then
               (refilter lib (current_index m) (m\<lparr>pk_query := concat (butlast (runes (pk_query m)))\<rparr>), False)
             else (m, False))
          else (case typed of None \<Rightarrow> (m, False)
                | Some rs \<Rightarrow>
                    (let printable = filter (\<lambda>r. pt_printable lib r \<and> \<not> control_rune r) rs in
                     if printable = [] then (m, False)
                     else (refilter lib (current_index m) (m\<lparr>pk_query := pk_query m @ concat printable\<rparr>), False))))"

text \<open>
  The model after a sequence of messages. A message that quits only asks for it: \<open>tea.Quit\<close> is a command, whose
  message reaches the program later, so any messages may be handled after it and nothing is assumed of
  where the sequence ends.
\<close>

definition handled :: "picker_text \<Rightarrow> tui_message list \<Rightarrow> picker \<Rightarrow> picker" where
  "handled lib msgs m = fold (\<lambda>msg m. fst (update_picker lib msg m)) msgs m"

definition picker_selection :: "picker \<Rightarrow> mirror_window list" where
  "picker_selection m =
     (let selected = map ((!) (pk_windows m)) (filter (pk_checked m) [0..<length (pk_windows m)]) in
      if selected \<noteq> [] then selected
      else (case current_index m of None \<Rightarrow> [] | Some i \<Rightarrow> [pk_windows m ! i]))"

text \<open>The result of \<open>Run\<close>: \<open>None\<close> when it was cancelled.\<close>

definition picker_result :: "picker \<Rightarrow> mirror_window list option" where
  "picker_result m = (if pk_cancelled m then None else Some (picker_selection m))"

section \<open>Groups partition the windows\<close>

text \<open>The groups after some of the indexes.\<close>

definition grouped :: "mirror_window list \<Rightarrow> nat list \<Rightarrow> (string \<times> session_group) list \<times> nat list \<Rightarrow> bool" where
  "grouped ws is acc \<longleftrightarrow>
     distinct (map fst (fst acc)) \<and> snd acc = filter (\<lambda>i. mw_headless (ws ! i)) is
     \<and> (\<forall>(k, g) \<in> set (fst acc). \<not> gr_headless g \<and> gr_indexes g \<noteq> []
          \<and> gr_label g = workspace_group_label (ws ! hd (gr_indexes g))
          \<and> gr_indexes g = filter (\<lambda>i. \<not> mw_headless (ws ! i) \<and> workspace_group_key (ws ! i) = k) is)
     \<and> (\<forall>i \<in> set is. \<not> mw_headless (ws ! i) \<longrightarrow> workspace_group_key (ws ! i) \<in> fst ` set (fst acc))"

lemma groupedI:
  assumes "distinct (map fst gs)" and "hs = filter (\<lambda>i. mw_headless (ws ! i)) is"
    and "\<And>k g. (k, g) \<in> set gs \<Longrightarrow> \<not> gr_headless g \<and> gr_indexes g \<noteq> []
      \<and> gr_label g = workspace_group_label (ws ! hd (gr_indexes g))
      \<and> gr_indexes g = filter (\<lambda>i. \<not> mw_headless (ws ! i) \<and> workspace_group_key (ws ! i) = k) is"
    and "\<And>j. j \<in> set is \<Longrightarrow> \<not> mw_headless (ws ! j) \<Longrightarrow> workspace_group_key (ws ! j) \<in> fst ` set gs"
  shows "grouped ws is (gs, hs)"
  unfolding grouped_def fst_conv snd_conv using assms by blast

lemma grouped_add:
  assumes g: "grouped ws is acc"
  shows "grouped ws (is @ [i]) (add_index ws acc i)"
proof -
  obtain groups headless where acc: "acc = (groups, headless)" by (cases acc)
  let ?w = "ws ! i" let ?key = "workspace_group_key ?w"
  let ?new = "\<lparr>gr_label = workspace_group_label ?w, gr_indexes = [i], gr_headless = False\<rparr>"
  have dist: "distinct (map fst groups)" and head: "headless = filter (\<lambda>i. mw_headless (ws ! i)) is"
    and each: "\<And>k g. (k, g) \<in> set groups \<Longrightarrow> \<not> gr_headless g \<and> gr_indexes g \<noteq> []
      \<and> gr_label g = workspace_group_label (ws ! hd (gr_indexes g))
      \<and> gr_indexes g = filter (\<lambda>i. \<not> mw_headless (ws ! i) \<and> workspace_group_key (ws ! i) = k) is"
    and all: "\<And>j. j \<in> set is \<Longrightarrow> \<not> mw_headless (ws ! j) \<Longrightarrow> workspace_group_key (ws ! j) \<in> fst ` set groups"
    using g unfolding grouped_def acc by fastforce+
  show ?thesis
  proof (cases "mw_headless ?w")
    case True
    then show ?thesis using dist head each all unfolding grouped_def acc add_index_def by (auto simp: Let_def)
  next
    case False
    show ?thesis
    proof (cases "?key \<in> fst ` set groups")
      case True
      let ?up = "\<lambda>(k, g). (k, if k = ?key then g\<lparr>gr_indexes := gr_indexes g @ [i]\<rparr> else g)"
      have m1: "map fst (map ?up groups) = map fst groups" by auto
      then have m3: "fst ` set (map ?up groups) = fst ` set groups" by (metis list.set_map)
      have m2: "\<not> gr_headless h \<and> gr_indexes h \<noteq> []
          \<and> gr_label h = workspace_group_label (ws ! hd (gr_indexes h))
          \<and> gr_indexes h = filter (\<lambda>i. \<not> mw_headless (ws ! i) \<and> workspace_group_key (ws ! i) = k) (is @ [i])"
        if mem: "(k, h) \<in> set (map ?up groups)" for k h
      proof -
        obtain b where b: "(k, b) \<in> set groups" "h = (if k = ?key then b\<lparr>gr_indexes := gr_indexes b @ [i]\<rparr> else b)"
          using mem by auto
        have "\<not> gr_headless b" "gr_indexes b \<noteq> []" "gr_label b = workspace_group_label (ws ! hd (gr_indexes b))"
          using each [OF b(1)] by auto
        moreover have "gr_indexes b = filter (\<lambda>i. \<not> mw_headless (ws ! i) \<and> workspace_group_key (ws ! i) = k) is"
          using each [OF b(1)] by blast
        ultimately show ?thesis using b(2) False by (cases "k = ?key") (simp_all add: hd_append2)
      qed
      have m4: "workspace_group_key (ws ! j) \<in> fst ` set (map ?up groups)"
        if "j \<in> set (is @ [i])" "\<not> mw_headless (ws ! j)" for j
        unfolding m3 using that all True by auto
      have add: "add_index ws acc i = (map ?up groups, headless)"
        using False True by (simp add: acc add_index_def Let_def)
      show ?thesis unfolding add
      proof (rule groupedI)
        show "distinct (map fst (map ?up groups))" unfolding m1 by (rule dist)
        show "headless = filter (\<lambda>i. mw_headless (ws ! i)) (is @ [i])" using head False by simp
      qed (fact m2, fact m4)
    next
      case new: False
      have none: "filter (\<lambda>i. \<not> mw_headless (ws ! i) \<and> workspace_group_key (ws ! i) = ?key) is = []"
        unfolding filter_empty_conv using all new by metis
      have "\<not> gr_headless h \<and> gr_indexes h \<noteq> []
          \<and> gr_label h = workspace_group_label (ws ! hd (gr_indexes h))
          \<and> gr_indexes h = filter (\<lambda>i. \<not> mw_headless (ws ! i) \<and> workspace_group_key (ws ! i) = k) (is @ [i])"
        if mem: "(k, h) \<in> set (groups @ [(?key, ?new)])" for k h
      proof (cases "(k, h) \<in> set groups")
        case True
        then have "k \<noteq> ?key" using new by force
        then have eq: "filter (\<lambda>i. \<not> mw_headless (ws ! i) \<and> workspace_group_key (ws ! i) = k) (is @ [i])
            = filter (\<lambda>i. \<not> mw_headless (ws ! i) \<and> workspace_group_key (ws ! i) = k) is" by simp
        show ?thesis unfolding eq by (rule each [OF True])
      next
        case False
        then have "k = ?key" "h = ?new" using mem by auto
        with none \<open>\<not> mw_headless ?w\<close> show ?thesis by simp
      qed
      moreover have add: "add_index ws acc i = (groups @ [(?key, ?new)], headless)"
        using False new by (simp add: acc add_index_def Let_def)
      moreover have "distinct (map fst (groups @ [(?key, ?new)]))" using dist new by simp
      moreover have "workspace_group_key (ws ! j) \<in> fst ` set (groups @ [(?key, ?new)])"
        if "j \<in> set (is @ [i])" "\<not> mw_headless (ws ! j)" for j
        using that all by auto
      moreover have "headless = filter (\<lambda>i. mw_headless (ws ! i)) (is @ [i])" using head False by simp
      ultimately show ?thesis unfolding add by (intro groupedI) blast+
    qed
  qed
qed

lemma grouped_all: "grouped ws is (foldl (add_index ws) ([], []) is)"
proof (induction "is" rule: rev_induct)
  case Nil
  then show ?case by (simp add: grouped_def)
qed (simp add: grouped_add)

text \<open>The windows in the order of the groups.\<close>

lemma groups_visible:
  assumes "distinct is"
  shows "distinct (concat (map gr_indexes (build_session_groups ws is)))"
    and "set (concat (map gr_indexes (build_session_groups ws is))) = set is"
proof -
  obtain groups headless where f: "foldl (add_index ws) ([], []) is = (groups, headless)" by fastforce
  have dist: "distinct (map fst groups)" and head: "headless = filter (\<lambda>i. mw_headless (ws ! i)) is"
    and each: "\<And>k g. (k, g) \<in> set groups \<Longrightarrow>
      gr_indexes g = filter (\<lambda>i. \<not> mw_headless (ws ! i) \<and> workspace_group_key (ws ! i) = k) is"
    and all: "\<And>j. j \<in> set is \<Longrightarrow> \<not> mw_headless (ws ! j) \<Longrightarrow> workspace_group_key (ws ! j) \<in> fst ` set groups"
    using grouped_all [of ws "is"] unfolding f grouped_def by fastforce+
  have vis: "concat (map gr_indexes (build_session_groups ws is)) = concat (map (gr_indexes \<circ> snd) groups) @ headless"
    by (simp add: build_session_groups_def f)
  have "distinct (map fst gs) \<Longrightarrow> set gs \<subseteq> set groups \<Longrightarrow> distinct (concat (map (gr_indexes \<circ> snd) gs))" for gs
  proof (induction gs)
    case (Cons p gs)
    obtain k g where p: "p = (k, g)" by (cases p)
    have "set (gr_indexes g) \<inter> set (concat (map (gr_indexes \<circ> snd) gs)) = {}"
    proof (rule ccontr)
      assume "\<not> ?thesis"
      then obtain i l h where i: "i \<in> set (gr_indexes g)" "(l, h) \<in> set gs" "i \<in> set (gr_indexes h)" by auto
      then have "workspace_group_key (ws ! i) = k" "workspace_group_key (ws ! i) = l"
        using each [of k g] each [of l h] Cons.prems(2) p by auto
      then show False using Cons.prems(1) p i(2) by (auto simp: image_iff)
    qed
    moreover have "distinct (gr_indexes g)" using each [of k g] Cons.prems(2) p assms by simp
    ultimately show ?case using Cons p by simp
  qed simp
  then have "distinct (concat (map (gr_indexes \<circ> snd) groups))" using dist by simp
  moreover have "set (concat (map (gr_indexes \<circ> snd) groups)) = {i \<in> set is. \<not> mw_headless (ws ! i)}"
  proof
    show "set (concat (map (gr_indexes \<circ> snd) groups)) \<subseteq> {i \<in> set is. \<not> mw_headless (ws ! i)}"
      using each by fastforce
    show "{i \<in> set is. \<not> mw_headless (ws ! i)} \<subseteq> set (concat (map (gr_indexes \<circ> snd) groups))"
    proof
      fix i assume i: "i \<in> {i \<in> set is. \<not> mw_headless (ws ! i)}"
      then obtain g where "(workspace_group_key (ws ! i), g) \<in> set groups" using all [of i] by auto
      with each [OF this] i show "i \<in> set (concat (map (gr_indexes \<circ> snd) groups))" by force
    qed
  qed
  ultimately show "distinct (concat (map gr_indexes (build_session_groups ws is)))"
    "set (concat (map gr_indexes (build_session_groups ws is))) = set is"
    using assms unfolding vis head by auto
qed

text \<open>Grouping the visible windows again gives the same groups: the screen shows them in cursor order.\<close>

lemma regroup_one:
  assumes "\<forall>i \<in> set is. \<not> mw_headless (ws ! i) \<and> workspace_group_key (ws ! i) = k"
    and "k \<notin> fst ` set gs" and "js \<noteq> []"
  shows "foldl (add_index ws) (gs @ [(k, \<lparr>gr_label = l, gr_indexes = js, gr_headless = False\<rparr>)], hs) is
    = (gs @ [(k, \<lparr>gr_label = l, gr_indexes = js @ is, gr_headless = False\<rparr>)], hs)"
  using assms
proof (induction "is" arbitrary: js)
  case (Cons i "is")
  have same: "map (\<lambda>(k', g). (k', if k' = k then g\<lparr>gr_indexes := gr_indexes g @ [i]\<rparr> else g)) gs = gs"
    using Cons.prems(2) by (intro map_idI) force
  have "add_index ws (gs @ [(k, \<lparr>gr_label = l, gr_indexes = js, gr_headless = False\<rparr>)], hs) i
      = (gs @ [(k, \<lparr>gr_label = l, gr_indexes = js @ [i], gr_headless = False\<rparr>)], hs)"
    using Cons.prems(1) same by (simp add: add_index_def Let_def)
  with Cons.IH [of "js @ [i]"] Cons.prems show ?case by simp
qed simp

lemma regroup_groups:
  assumes "distinct (map fst (gs @ groups))"
    and "\<forall>(k, g) \<in> set groups. \<not> gr_headless g \<and> gr_indexes g \<noteq> []
      \<and> gr_label g = workspace_group_label (ws ! hd (gr_indexes g))
      \<and> (\<forall>i \<in> set (gr_indexes g). \<not> mw_headless (ws ! i) \<and> workspace_group_key (ws ! i) = k)"
  shows "foldl (add_index ws) (gs, hs) (concat (map (gr_indexes \<circ> snd) groups)) = (gs @ groups, hs)"
  using assms
proof (induction groups arbitrary: gs)
  case (Cons p groups)
  obtain k g where p: "p = (k, g)" by (cases p)
  have g: "\<not> gr_headless g" "gr_indexes g \<noteq> []" "gr_label g = workspace_group_label (ws ! hd (gr_indexes g))"
    "\<forall>i \<in> set (gr_indexes g). \<not> mw_headless (ws ! i) \<and> workspace_group_key (ws ! i) = k"
    using Cons.prems(2) p by auto
  then obtain i "is" where idx: "gr_indexes g = i # is" by (cases "gr_indexes g") auto
  have new: "k \<notin> fst ` set gs" using Cons.prems(1) p by auto
  have "add_index ws (gs, hs) i = (gs @ [(k, \<lparr>gr_label = gr_label g, gr_indexes = [i], gr_headless = False\<rparr>)], hs)"
    using g idx new by (auto simp: add_index_def Let_def)
  moreover have "foldl (add_index ws) (gs @ [(k, \<lparr>gr_label = gr_label g, gr_indexes = [i], gr_headless = False\<rparr>)], hs) is
      = (gs @ [(k, \<lparr>gr_label = gr_label g, gr_indexes = [i] @ is, gr_headless = False\<rparr>)], hs)"
    by (rule regroup_one) (use g idx new in auto)
  moreover have "\<lparr>gr_label = gr_label g, gr_indexes = [i] @ is, gr_headless = False\<rparr> = g" using g(1) idx by simp
  ultimately have one: "foldl (add_index ws) (gs, hs) (gr_indexes g) = (gs @ [p], hs)" using p idx by simp
  have "foldl (add_index ws) (gs @ [p], hs) (concat (map (gr_indexes \<circ> snd) groups)) = ((gs @ [p]) @ groups, hs)"
    by (rule Cons.IH) (use Cons.prems in auto)
  with one p show ?case by (simp add: comp_def)
qed simp

lemma regroup_headless:
  "\<forall>i \<in> set is. mw_headless (ws ! i) \<Longrightarrow> foldl (add_index ws) (gs, hs) is = (gs, hs @ is)"
  by (induction "is" arbitrary: hs) (auto simp: add_index_def Let_def)

lemma regroup:
  "build_session_groups ws (concat (map gr_indexes (build_session_groups ws is))) = build_session_groups ws is"
proof -
  obtain groups headless where f: "foldl (add_index ws) ([], []) is = (groups, headless)" by fastforce
  have g: "grouped ws is (groups, headless)" using grouped_all [of ws "is"] by (simp add: f)
  have "concat (map gr_indexes (build_session_groups ws is)) = concat (map (gr_indexes \<circ> snd) groups) @ headless"
    by (simp add: build_session_groups_def f)
  moreover have "foldl (add_index ws) ([], []) (concat (map (gr_indexes \<circ> snd) groups)) = ([] @ groups, [])"
    by (rule regroup_groups) (use g in \<open>auto simp: grouped_def\<close>)
  moreover have "foldl (add_index ws) (groups, []) headless = (groups, [] @ headless)"
    by (rule regroup_headless) (use g in \<open>auto simp: grouped_def\<close>)
  ultimately have "foldl (add_index ws) ([], []) (concat (map gr_indexes (build_session_groups ws is))) = (groups, headless)"
    by simp
  then show ?thesis unfolding build_session_groups_def f by simp
qed

section \<open>What the picker keeps\<close>

definition picker_ok :: "picker_text \<Rightarrow> mirror_window list \<Rightarrow> picker \<Rightarrow> bool" where
  "picker_ok lib ws m \<longleftrightarrow>
     pk_windows m = ws \<and> distinct (pk_visible m)
     \<and> set (pk_visible m) = {i. i < length ws \<and> window_matches lib (pk_query m) (ws ! i)}
     \<and> pk_visible m = concat (map gr_indexes (build_session_groups ws (pk_visible m)))
     \<and> (if pk_visible m = [] then pk_cursor m = 0 else pk_cursor m < length (pk_visible m))
     \<and> (\<forall>i. pk_checked m i \<longrightarrow> i < length ws)"

lemma position_Some: "position x ys = Some i \<Longrightarrow> i < length ys \<and> ys ! i = x"
  by (induction ys arbitrary: i) (auto split: if_splits)

lemma position_in: "x \<in> set ys \<Longrightarrow> \<exists>i. position x ys = Some i"
  by (induction ys) auto

lemma cursor_in_range:
  "if vis = [] then (case p of None \<Rightarrow> 0 | Some q \<Rightarrow> (case position q vis of None \<Rightarrow> 0 | Some i \<Rightarrow> i)) = 0
   else (case p of None \<Rightarrow> 0 | Some q \<Rightarrow> (case position q vis of None \<Rightarrow> 0 | Some i \<Rightarrow> i)) < length vis"
  by (cases vis) (auto split: option.splits if_splits dest: position_Some)

lemma refilter_visible:
  fixes lib m p
  defines "vis \<equiv> pk_visible (refilter lib p m)"
  shows "distinct vis"
    and "set vis = {i. i < length (pk_windows m) \<and> window_matches lib (pk_query m) (pk_windows m ! i)}"
    and "vis = concat (map gr_indexes (build_session_groups (pk_windows m) vis))"
    and "refilter lib p m = m\<lparr>pk_visible := vis, pk_cursor :=
      (case p of None \<Rightarrow> 0 | Some q \<Rightarrow> (case position q vis of None \<Rightarrow> 0 | Some i \<Rightarrow> i))\<rparr>"
proof -
  let ?matched = "filter (\<lambda>i. window_matches lib (pk_query m) (pk_windows m ! i)) [0..<length (pk_windows m)]"
  have vis: "vis = concat (map gr_indexes (build_session_groups (pk_windows m) ?matched))"
    by (simp add: vis_def refilter_def Let_def)
  show "distinct vis" "set vis = {i. i < length (pk_windows m) \<and> window_matches lib (pk_query m) (pk_windows m ! i)}"
    unfolding vis using groups_visible [of ?matched "pk_windows m"] by auto
  show "vis = concat (map gr_indexes (build_session_groups (pk_windows m) vis))" unfolding vis by (simp only: regroup)
  show "refilter lib p m = m\<lparr>pk_visible := vis, pk_cursor :=
      (case p of None \<Rightarrow> 0 | Some q \<Rightarrow> (case position q vis of None \<Rightarrow> 0 | Some i \<Rightarrow> i))\<rparr>"
    unfolding vis by (simp only: refilter_def Let_def)
qed

lemma refilter_ok:
  assumes "pk_windows m = ws" and "\<forall>i. pk_checked m i \<longrightarrow> i < length ws"
  shows "picker_ok lib ws (refilter lib p m)"
proof -
  define vis where "vis = pk_visible (refilter lib p m)"
  note v = refilter_visible [of lib p m, folded vis_def, unfolded assms(1)]
  have "pk_cursor (refilter lib p m) = (case p of None \<Rightarrow> 0 | Some q \<Rightarrow> (case position q vis of None \<Rightarrow> 0 | Some i \<Rightarrow> i))"
    by (subst v(4)) simp
  with cursor_in_range [of vis p] have c: "if vis = [] then pk_cursor (refilter lib p m) = 0
      else pk_cursor (refilter lib p m) < length vis" by (simp only:)
  have same: "pk_windows (refilter lib p m) = ws" "pk_query (refilter lib p m) = pk_query m"
    "pk_checked (refilter lib p m) = pk_checked m"
    using assms(1) by (simp_all add: refilter_def Let_def)
  show ?thesis unfolding picker_ok_def same vis_def [symmetric] using v(1-3) c assms(2) by blast
qed

lemma update_picker_ok:
  assumes ok: "picker_ok lib ws m"
  shows "picker_ok lib ws (fst (update_picker lib msg m))"
proof -
  have w: "pk_windows m = ws" "\<forall>i. pk_checked m i \<longrightarrow> i < length ws"
    and in_range: "\<And>i. i \<in> set (pk_visible m) \<Longrightarrow> i < length ws" and cur: "\<And>i. current_index m = Some i \<Longrightarrow> i < length ws"
    using ok by (auto simp: picker_ok_def current_index_def split: if_splits dest: nth_mem)
  have q: "picker_ok lib ws (refilter lib p (m\<lparr>pk_query := s\<rparr>))" for p s
    by (rule refilter_ok) (use w in auto)
  have checked: "picker_ok lib ws (m\<lparr>pk_checked := f\<rparr>)" if "\<forall>i. f i \<longrightarrow> i < length ws" for f
    using ok that unfolding picker_ok_def by simp
  have ended: "picker_ok lib ws (m\<lparr>pk_done := b\<rparr>)" "picker_ok lib ws (m\<lparr>pk_cancelled := a, pk_done := b\<rparr>)"
    "picker_ok lib ws (m\<lparr>pk_width := x, pk_height := y\<rparr>)" for a b x y
    using ok unfolding picker_ok_def by simp_all
  have toggled: "picker_ok lib ws (toggle_filtered m)"
    unfolding toggle_filtered_def Let_def using ok w(2) in_range by (auto intro!: checked)
  have flipped: "picker_ok lib ws (m\<lparr>pk_checked := (pk_checked m)(i := b)\<rparr>)" if "current_index m = Some i" for i b
    by (rule checked) (use w(2) cur [OF that] in auto)
  have cursor: "picker_ok lib ws (m\<lparr>pk_cursor := c\<rparr>)" if "c < length (pk_visible m)" for c
    using ok that unfolding picker_ok_def by auto
  have up: "pk_cursor m - 1 < length (pk_visible m)" if "0 < pk_cursor m"
    using ok that unfolding picker_ok_def by (auto split: if_splits)
  have upward: "picker_ok lib ws (m\<lparr>pk_cursor := pk_cursor m - Suc 0\<rparr>)" if "0 < pk_cursor m"
    using cursor [OF up [OF that]] by simp
  show ?thesis
  proof (cases msg)
    case (Resized x y)
    then show ?thesis by (simp add: update_picker_def ended)
  next
    case (Key name typed)
    then show ?thesis
      by (simp add: update_picker_def Let_def q ok ended toggled flipped cursor upward split: option.splits)
  qed
qed

lemma handled_ok: "picker_ok lib ws m \<Longrightarrow> picker_ok lib ws (handled lib msgs m)"
  unfolding handled_def by (induction msgs arbitrary: m) (simp_all add: update_picker_ok)

lemma new_picker_ok: "picker_ok lib ws (new_picker lib ws color)"
  unfolding new_picker_def by (rule refilter_ok) auto

text \<open>
  The picker shows what matches. After any messages it shows exactly the windows that match the
  query, each once, in the order of the groups on the screen; the current row is one of them, and only
  discovered windows can be checked.
\<close>

theorem picker_shows_matches:
  "let m = handled lib msgs (new_picker lib ws color) in
     distinct (pk_visible m)
     \<and> set (pk_visible m) = {i. i < length ws \<and> window_matches lib (pk_query m) (ws ! i)}
     \<and> concat (map gr_indexes (build_session_groups ws (pk_visible m))) = pk_visible m
     \<and> (if pk_visible m = [] then current_index m = None else current_index m \<in> Some ` set (pk_visible m))
     \<and> {i. pk_checked m i} \<subseteq> {..<length ws}"
proof -
  let ?m = "handled lib msgs (new_picker lib ws color)"
  have ok: "picker_ok lib ws ?m" by (rule handled_ok [OF new_picker_ok])
  then have "if pk_visible ?m = [] then current_index ?m = None else current_index ?m \<in> Some ` set (pk_visible ?m)"
    by (auto simp: picker_ok_def current_index_def split: if_splits)
  with ok show ?thesis unfolding Let_def picker_ok_def by auto
qed

text \<open>A message that ends the program.\<close>

lemma update_done:
  assumes "picker_ok lib ws m" and "update_picker lib msg m = (m1, True)" and "\<not> pk_cancelled m1"
  shows "m1 = m\<lparr>pk_done := True\<rparr> \<and> pk_visible m \<noteq> []"
  using assms(2,3) by (cases msg) (auto simp: update_picker_def Let_def split: if_splits option.splits)

text \<open>What a picker selects: the checked windows, else the current row, if there is one.\<close>

definition chosen_indexes :: "picker \<Rightarrow> nat list \<Rightarrow> bool" where
  "chosen_indexes m is \<longleftrightarrow>
     (if {i. pk_checked m i} \<noteq> {} then sorted is \<and> set is = {i. pk_checked m i}
      else is = (if pk_visible m = [] then [] else [pk_visible m ! pk_cursor m]))"

lemma selection_indexes:
  assumes ok: "picker_ok lib ws m"
  shows "\<exists>is. picker_selection m = map ((!) ws) is \<and> distinct is \<and> set is \<subseteq> {..<length ws}
    \<and> chosen_indexes m is"
proof -
  let ?is = "filter (pk_checked m) [0..<length ws]"
  have set: "set ?is = {i. pk_checked m i}" using ok by (auto simp: picker_ok_def)
  have w: "pk_windows m = ws" using ok by (simp add: picker_ok_def)
  show ?thesis
  proof (cases "?is = []")
    case none: True
    have empty: "{i. pk_checked m i} = {}" using none set by simp
    show ?thesis
    proof (cases "pk_visible m = []")
      case True
      then have "picker_selection m = []" using none w by (simp add: picker_selection_def Let_def current_index_def)
      then show ?thesis using True empty by (intro exI [of _ "[]"]) (simp add: chosen_indexes_def)
    next
      case False
      then have cur: "pk_cursor m < length (pk_visible m)" using ok by (simp add: picker_ok_def)
      then have "pk_visible m ! pk_cursor m < length ws" using ok nth_mem by (fastforce simp: picker_ok_def)
      moreover have "picker_selection m = map ((!) ws) [pk_visible m ! pk_cursor m]"
        using none cur w by (simp add: picker_selection_def Let_def current_index_def)
      ultimately show ?thesis
        using False empty by (intro exI [of _ "[pk_visible m ! pk_cursor m]"]) (simp add: chosen_indexes_def)
    qed
  next
    case False
    moreover have "{i. pk_checked m i} \<noteq> {}" using False set by (metis set_empty)
    moreover have "picker_selection m = map ((!) ws) ?is"
      using False w by (simp add: picker_selection_def Let_def)
    moreover have "distinct ?is" "set ?is \<subseteq> {..<length ws}" "sorted ?is" by (auto intro: sorted_wrt_filter)
    ultimately show ?thesis using set by (intro exI [of _ ?is]) (simp add: chosen_indexes_def)
  qed
qed

lemma selection_nonempty: "picker_ok lib ws m \<Longrightarrow> pk_visible m \<noteq> [] \<Longrightarrow> picker_selection m \<noteq> []"
  using selection_indexes [of lib ws m] by (auto simp: chosen_indexes_def split: if_splits)

text \<open>
  C27: what the picker opens is what was chosen. After any messages, also ones that are handled after the
  picker was asked to quit, the result is a cancellation or a selection of discovered windows, none
  twice: the checked ones in discovery order, or the current row when none is checked, or nothing when
  no row is shown either. A message that asks to quit without cancelling, such as Enter, leaves a
  selection that is not empty, so only a later message can empty it.
\<close>

theorem picker_selects:
  assumes m: "m = handled lib msgs (new_picker lib ws color)"
  shows "(case picker_result m of
      None \<Rightarrow> pk_cancelled m
    | Some sel \<Rightarrow> \<not> pk_cancelled m \<and> (\<exists>is. sel = map ((!) ws) is \<and> distinct is \<and> set is \<subseteq> {..<length ws}
        \<and> (if {i. pk_checked m i} \<noteq> {} then sorted is \<and> set is = {i. pk_checked m i}
           else is = (if pk_visible m = [] then [] else [pk_visible m ! pk_cursor m]))))
    \<and> (\<forall>msg. snd (update_picker lib msg m) \<longrightarrow> picker_result (fst (update_picker lib msg m)) \<noteq> Some [])"
proof -
  have ok: "picker_ok lib ws m" unfolding m by (rule handled_ok [OF new_picker_ok])
  have "picker_result (fst (update_picker lib msg m)) \<noteq> Some []" if quit: "snd (update_picker lib msg m)" for msg
  proof (cases "pk_cancelled (fst (update_picker lib msg m))")
    case False
    have u: "update_picker lib msg m = (fst (update_picker lib msg m), True)" using quit by (simp add: prod_eq_iff)
    have "pk_visible (fst (update_picker lib msg m)) \<noteq> []" using update_done [OF ok u False] by simp
    then have "picker_selection (fst (update_picker lib msg m)) \<noteq> []" by (rule selection_nonempty [OF update_picker_ok [OF ok]])
    then show ?thesis by (simp add: picker_result_def)
  qed (simp add: picker_result_def)
  moreover have "case picker_result m of
      None \<Rightarrow> pk_cancelled m
    | Some sel \<Rightarrow> \<not> pk_cancelled m \<and> (\<exists>is. sel = map ((!) ws) is \<and> distinct is \<and> set is \<subseteq> {..<length ws} \<and> chosen_indexes m is)"
    using selection_indexes [OF ok] by (simp add: picker_result_def)
  ultimately show ?thesis unfolding chosen_indexes_def by blast
qed

text \<open>
  Filtering keeps the place. When a message changes the query and the current window still
  matches, it stays the current one.
\<close>

theorem filter_keeps_current:
  assumes "picker_ok lib ws m" and "current_index m = Some i"
    and "update_picker lib msg m = (m1, False)" and "pk_query m1 \<noteq> pk_query m"
    and "window_matches lib (pk_query m1) (ws ! i)"
  shows "current_index m1 = Some i"
proof -
  obtain s where s: "m1 = refilter lib (Some i) (m\<lparr>pk_query := s\<rparr>)"
    using assms(2-4) by (cases msg) (auto simp: update_picker_def toggle_filtered_def Let_def split: if_splits option.splits)
  let ?m = "m\<lparr>pk_query := s\<rparr>"
  define vis where "vis = pk_visible m1"
  note v = refilter_visible [of lib "Some i" ?m, folded s, folded vis_def]
  have w: "pk_windows m = ws" "i < length ws"
    using assms(1,2) by (auto simp: picker_ok_def current_index_def split: if_splits dest: nth_mem)
  have "pk_query m1 = s" unfolding s by (simp add: refilter_def Let_def)
  with v(2) w assms(5) have "i \<in> set vis" by simp
  then obtain k where k: "position i vis = Some k" using position_in by blast
  with v(4) have "pk_cursor m1 = k" by simp
  with position_Some [OF k] show ?thesis by (simp add: current_index_def vis_def)
qed

section \<open>Examples\<close>

definition ex_text :: picker_text where
  "ex_text = \<lparr>pt_lower = (\<lambda>s. s), pt_printable = (\<lambda>r. CHR 0x0A \<notin> set r)\<rparr>"

definition ex_mirror_window :: "string \<Rightarrow> int \<Rightarrow> bool \<Rightarrow> mirror_window" where
  "ex_mirror_window name workspace headless =
     \<lparr>mw_order = 0, mw_source_id = 7, mw_key = name, mw_app_id = ''kitty'', mw_title = name, mw_pid = 1,
      mw_workspace_id = [], mw_workspace_index = workspace, mw_workspace_name = [], mw_output = [], mw_position = [],
      mw_tile_size = [], mw_window_size = [], mw_is_focused = False, mw_is_floating = False, mw_headless = headless,
      mw_session = name, mw_terminal = None\<rparr>"

definition ex_windows :: "mirror_window list" where
  "ex_windows = [ex_mirror_window ''work'' 1 False, ex_mirror_window ''logs'' 0 True, ex_mirror_window ''worker'' 2 False,
     ex_mirror_window ''word'' 1 False]"

text \<open>Enter and, before the program has ended, another key.\<close>

definition ex_typed :: "tui_message list" where
  "ex_typed = [Key ''down'' None, Key '' '' (Some ['' '']), Key ''enter'' None, Key ''down'' None]"

definition ex_final :: picker where
  "ex_final = handled ex_text ex_typed (new_picker ex_text ex_windows False)"

lemma ex_picked:
  "(let m = ex_final in
      (pk_done m, pk_cancelled m, map (pk_checked m) [0, 1, 2, 3])) = (True, False, [False, False, False, True])"
  by code_simp

lemma picker_selects_witness:
  "\<exists>is. picker_result ex_final = Some (map ((!) ex_windows) is) \<and> distinct is \<and> set is = {i. pk_checked ex_final i}
    \<and> 3 \<in> set is"
proof -
  have d: "\<not> pk_cancelled ex_final" "pk_checked ex_final 3" using ex_picked by (simp_all add: Let_def)
  then have "{i. pk_checked ex_final i} \<noteq> {}" by blast
  with picker_selects [OF ex_final_def] d show ?thesis by (auto simp: picker_result_def)
qed

text \<open>A key handled after Enter can leave nothing selected, and the picker does not report a cancellation.\<close>

lemma late_key_selects_nothing:
  "picker_result (handled ex_text [Key ''enter'' None, Key ''z'' (Some [''z''])]
     (new_picker ex_text [ex_mirror_window ''a'' 1 False] False)) = Some []"
  by code_simp

lemma filter_keeps_current_witness:
  "current_index (fst (update_picker ex_text (Key ''w'' (Some [''w'']))
     (fst (update_picker ex_text (Key ''down'' None) (new_picker ex_text ex_windows False))))) = Some 3"
proof -
  let ?m = "fst (update_picker ex_text (Key ''down'' None) (new_picker ex_text ex_windows False))"
  let ?u = "update_picker ex_text (Key ''w'' (Some [''w''])) ?m"
  have ok: "picker_ok ex_text ex_windows ?m" by (rule update_picker_ok [OF new_picker_ok])
  have facts: "current_index ?m = Some 3" "snd ?u = False" "pk_query (fst ?u) \<noteq> pk_query ?m"
    "window_matches ex_text (pk_query (fst ?u)) (ex_windows ! 3)"
    by code_simp+
  show ?thesis
    by (rule filter_keeps_current [OF ok facts(1) _ facts(3,4)]) (use facts(2) in \<open>simp add: prod_eq_iff\<close>)
qed

end
