(* ===== verification/Picker_Screen.thy ===== *)
theory Picker_Screen
  imports Picker Zellij_Catalog "HOL-Library.Signed_Division" "HOL-Library.Sublist"
begin

text \<open>
  The screen of the session picker, the rest of \<open>internal/mirrortui/model.go\<close>. The display width of a
  text and its truncation with an ellipsis are functions of \<open>charmbracelet/x/ansi\<close>, the home directory
  is the answer of \<open>os.UserHomeDir\<close>.
\<close>

section \<open>Text\<close>

record screen_text =
  st_width :: "string \<Rightarrow> int"
  st_truncate :: "string \<Rightarrow> int \<Rightarrow> string"
  st_home :: "string option"

definition ellipsis :: string where "ellipsis = [CHR 0xE2, CHR 0x80, CHR 0xA6]"

definition spaces :: "int \<Rightarrow> string" where "spaces n = replicate (nat n) (CHR '' '')"

definition fit :: "screen_text \<Rightarrow> string \<Rightarrow> int \<Rightarrow> string" where
  "fit lib value width =
     (if width \<le> 0 then [] else if st_width lib value \<le> width then value else st_truncate lib value width)"

text \<open>The first suffix, cut between runes, that fits; the empty one if none does.\<close>

function fit_suffix :: "screen_text \<Rightarrow> int \<Rightarrow> string \<Rightarrow> string" where
  "fit_suffix lib available s =
     (if s = [] then []
      else if st_width lib s \<le> available then s else fit_suffix lib available (drop (max 1 (rune_size s)) s))"
  by pat_completeness auto
termination by (relation "measure (\<lambda>(lib, available, s). length s)") auto

declare fit_suffix.simps [simp del]

definition fit_path :: "screen_text \<Rightarrow> string \<Rightarrow> int \<Rightarrow> string" where
  "fit_path lib value width =
     (if width \<le> 0 then []
      else if st_width lib value \<le> width then value
      else if width = 1 then ellipsis
      else ellipsis @ fit_suffix lib (width - st_width lib ellipsis) value)"

definition pad_cell :: "screen_text \<Rightarrow> string \<Rightarrow> int \<Rightarrow> string" where
  "pad_cell lib value width =
     (let v = fit lib value width in if 0 < width - st_width lib v then v @ spaces (width - st_width lib v) else v)"

definition pad_path :: "screen_text \<Rightarrow> string \<Rightarrow> int \<Rightarrow> string" where
  "pad_path lib value width =
     (let v = fit_path lib value width in if 0 < width - st_width lib v then v @ spaces (width - st_width lib v) else v)"

section \<open>Colours\<close>

datatype semantic_role =
  Role_Accent | Role_Success | Role_Text | Role_Muted | Role_Dim | Role_Warning | Role_Error

fun role_color :: "semantic_role \<Rightarrow> string" where
  "role_color Role_Accent = ''#8abeb7''"
| "role_color Role_Success = ''#b5bd68''"
| "role_color Role_Text = ''#d4d4d4''"
| "role_color Role_Muted = ''#808080''"
| "role_color Role_Dim = ''#666666''"
| "role_color Role_Warning = ''#ffff00''"
| "role_color Role_Error = ''#cc6666''"

definition selected_bg_color :: string where "selected_bg_color = ''#3a3a4a''"

definition hex_value :: "char \<Rightarrow> nat" where
  "hex_value c = (let n = of_char c in if n < 58 then n - 48 else n - 87)"

definition rgb_ansi :: "string \<Rightarrow> nat \<Rightarrow> nat \<Rightarrow> nat \<Rightarrow> string" where
  "rgb_ansi layer red green blue =
     CHR 0x1B # ''['' @ layer @ '';2;'' @ show_nat red @ '';'' @ show_nat green @ '';'' @ show_nat blue @ ''m''"

definition color_ansi :: "string \<Rightarrow> string \<Rightarrow> string" where
  "color_ansi layer hex =
     rgb_ansi layer (16 * hex_value (hex ! 1) + hex_value (hex ! 2)) (16 * hex_value (hex ! 3) + hex_value (hex ! 4))
       (16 * hex_value (hex ! 5) + hex_value (hex ! 6))"

definition foreground_ansi :: "string \<Rightarrow> string" where "foreground_ansi hex = color_ansi ''38'' hex"
definition background_ansi :: "string \<Rightarrow> string" where "background_ansi hex = color_ansi ''48'' hex"

definition reset_ansi :: string where "reset_ansi = CHR 0x1B # ''[0m''"

definition inline :: "bool \<Rightarrow> semantic_role \<Rightarrow> string \<Rightarrow> string" where
  "inline color role value =
     (if \<not> color \<or> value = [] then value
      else foreground_ansi (role_color role) @ value @ foreground_ansi (role_color Role_Text))"

definition paint :: "bool \<Rightarrow> string \<Rightarrow> semantic_role \<Rightarrow> bool \<Rightarrow> string" where
  "paint color value role selected =
     (if \<not> color \<or> value = [] then value
      else foreground_ansi (role_color role) @ (if selected then background_ansi selected_bg_color else [])
           @ value @ reset_ansi)"

section \<open>Rows\<close>

record rendered_line =
  rd_text :: string
  rd_role :: semantic_role
  rd_selected :: bool
  rd_active :: bool

definition plain_line :: "string \<Rightarrow> semantic_role \<Rightarrow> rendered_line" where
  "plain_line t role = \<lparr>rd_text = t, rd_role = role, rd_selected = False, rd_active = False\<rparr>"

definition row_line :: "string \<Rightarrow> bool \<Rightarrow> rendered_line" where
  "row_line t active = \<lparr>rd_text = t, rd_role = Role_Text, rd_selected = active, rd_active = active\<rparr>"

definition row_prefix_width :: int where "row_prefix_width = 8"

definition column_widths :: "int \<Rightarrow> int \<times> int \<times> int" where
  "column_widths width =
     (let available = width - row_prefix_width - 4;
          session = min 24 (available sdiv 4);
          project = ((available - session) * 55) sdiv 100 in
      (project, available - session - project, session))"

definition column_heading :: "screen_text \<Rightarrow> int \<Rightarrow> string" where
  "column_heading lib width =
     (case column_widths width of (project, activity, session) \<Rightarrow>
        spaces row_prefix_width @ pad_cell lib ''PROJECT / DIRECTORY'' project @ ''  ''
        @ pad_cell lib ''ACTIVITY'' activity @ ''  '' @ fit lib ''SESSION'' session)"

definition display_activity :: "mirror_window \<Rightarrow> string" where
  "display_activity w =
     (let title = trim_space (mw_title w); session = trim_space (session_name w); lead = session @ '' | '' in
      if title = session then []
      else trim_space (if session \<noteq> [] \<and> prefix lead title then drop (length lead) title else title))"

definition shorten_home :: "string option \<Rightarrow> string \<Rightarrow> string" where
  "shorten_home home dir =
     (let cwd = trim_space dir in
      case home of
        None \<Rightarrow> cwd
      | Some h \<Rightarrow>
          if h = [] \<or> h = ''/'' then cwd
          else if cwd = h then ''~''
          else if prefix (h @ ''/'') cwd then ''~'' @ drop (length h) cwd else cwd)"

definition project_directory :: "screen_text \<Rightarrow> mirror_window \<Rightarrow> string" where
  "project_directory lib w =
     (case mw_terminal w of
        None \<Rightarrow> ''(unknown)''
      | Some t \<Rightarrow> if trim_space (mt_cwd t) = [] then ''(unknown)'' else shorten_home (st_home lib) (mt_cwd t))"

text \<open>The loop over the labels with the width and the sum_left that remain.\<close>

fun chip_labels :: "screen_text \<Rightarrow> int \<Rightarrow> int \<Rightarrow> string list \<Rightarrow> string list" where
  "chip_labels lib remaining sum_left [] = []"
| "chip_labels lib remaining sum_left (label # labels) =
     (let segments = int (length labels) + 1;
          share = remaining sdiv segments;
          wanted = (if 0 < sum_left then max share (remaining * st_width lib label sdiv sum_left) else share);
          allocation = max 1 (min wanted (remaining - (segments - 1)));
          fitted = fit_path lib label allocation in
      fitted # chip_labels lib (remaining - st_width lib fitted) (sum_left - st_width lib label) labels)"

definition fit_chip_labels :: "screen_text \<Rightarrow> string list \<Rightarrow> int \<Rightarrow> string list" where
  "fit_chip_labels lib labels width =
     (let available = width - (int (length labels) * 2 + int (length labels) - 1);
          sum_left = sum_list (map (st_width lib) labels) in
      if available < int (length labels) then []
      else if sum_left \<le> available then labels
      else chip_labels lib available sum_left labels)"

definition project_labels :: "mirror_window \<Rightarrow> string list" where
  "project_labels w =
     (case mw_terminal w of None \<Rightarrow> []
      | Some t \<Rightarrow> filter (\<lambda>l. l \<noteq> []) (map (trim_space \<circ> sg_label) (mt_project t)))"

definition chip :: "bool \<Rightarrow> segment \<Rightarrow> string \<Rightarrow> string" where
  "chip selected sg label =
     rgb_ansi ''48'' (unat (rgb_r (sg_background sg))) (unat (rgb_g (sg_background sg))) (unat (rgb_b (sg_background sg)))
     @ rgb_ansi ''38'' (unat (rgb_r (sg_foreground sg))) (unat (rgb_g (sg_foreground sg))) (unat (rgb_b (sg_foreground sg)))
     @ CHR 0x1B # ''[1m '' @ label @ '' '' @ reset_ansi @ foreground_ansi (role_color Role_Text)
     @ (if selected then background_ansi selected_bg_color else [])"

definition project_cell :: "screen_text \<Rightarrow> bool \<Rightarrow> mirror_window \<Rightarrow> int \<Rightarrow> bool \<Rightarrow> string" where
  "project_cell lib color w width selected =
     (case mw_terminal w of
        None \<Rightarrow> []
      | Some t \<Rightarrow>
          (let labels = project_labels w; chips = fit_chip_labels lib labels width;
               shown = filter (\<lambda>sg. trim_space (sg_label sg) \<noteq> []) (mt_project t) in
           if width \<le> 0 \<or> labels = [] then []
           else if \<not> color then pad_path lib (join_with ''/'' labels) width
           else if chips = [] then inline color Role_Accent (fit_path lib (join_with ''/'' labels) width)
           else pad_cell lib (join_with ''/'' (map2 (chip selected) shown chips)) width))"

definition window_lines :: "screen_text \<Rightarrow> bool \<Rightarrow> bool \<Rightarrow> mirror_window \<Rightarrow> int \<Rightarrow> bool \<Rightarrow> rendered_line list" where
  "window_lines lib color checked w width active =
     (let lead = (if active then inline color Role_Accent ''> '' else ''  '')
            @ (if checked then inline color Role_Success ''[x] '' else inline color Role_Muted ''[ ] '')
            @ (if mw_is_focused w then inline color Role_Warning ''* '' else ''  '');
          session = session_name w; activity = display_activity w; directory = project_directory lib w in
      if 72 \<le> width then
        (case column_widths width of (project_width, activity_width, session_width) \<Rightarrow>
           (let cell = project_cell lib color w project_width active;
                shown = (if cell = [] then inline color Role_Accent (pad_path lib directory project_width) else cell) in
            [row_line (lead @ shown @ ''  '' @ pad_cell lib activity activity_width @ ''  ''
                       @ inline color Role_Dim (fit lib session session_width)) active]))
      else
        (let project_width = width - st_width lib lead;
             cell = project_cell lib color w project_width active;
             shown = (if cell = [] then inline color Role_Accent (fit_path lib directory project_width) else cell);
             indent = spaces (st_width lib lead) in
         [row_line (lead @ shown) active]
         @ (if activity \<noteq> [] then [row_line (indent @ inline color Role_Muted ''activity: '' @ activity) active] else [])
         @ (if trim_space session \<noteq> [] then [row_line (indent @ inline color Role_Dim (''session: '' @ session)) active]
            else [])))"

definition group_lines :: "screen_text \<Rightarrow> picker \<Rightarrow> int \<Rightarrow> session_group \<Rightarrow> rendered_line list" where
  "group_lines lib m width g =
     plain_line ((if gr_headless g then ''  '' else ''  Workspace: '') @ gr_label g
                 @ '' ('' @ show_nat (length (gr_indexes g)) @ '')'') Role_Accent
     # concat (map (\<lambda>i. window_lines lib (pk_color m) (pk_checked m i) (pk_windows m ! i) width
                          (current_index m = Some i)) (gr_indexes g))"

definition body_lines :: "screen_text \<Rightarrow> picker \<Rightarrow> int \<Rightarrow> rendered_line list" where
  "body_lines lib m width =
     (if pk_visible m = [] then
        (if pk_windows m = []
         then [\<lparr>rd_text = ''No sessions are available.'', rd_role = Role_Error, rd_selected = False, rd_active = True\<rparr>]
         else [\<lparr>rd_text = ''No sessions match the current filter.'', rd_role = Role_Warning, rd_selected = False,
                rd_active = True\<rparr>])
      else concat (map (group_lines lib m width) (build_session_groups (pk_windows m) (pk_visible m))))"

section \<open>The screen\<close>

text \<open>The first run of active lines, from its first line to the one after its last.\<close>

definition active_run :: "rendered_line list \<Rightarrow> int \<times> int" where
  "active_run ls =
     (let start = length (takeWhile (\<lambda>l. \<not> rd_active l) ls) in
      if start = length ls then (0, 1)
      else (int start, int start + int (length (takeWhile rd_active (drop start ls)))))"

definition slice :: "'a list \<Rightarrow> int \<Rightarrow> int \<Rightarrow> 'a list" where
  "slice xs start end_at = take (nat (end_at - start)) (drop (nat start) xs)"

definition viewport :: "rendered_line list \<Rightarrow> int \<Rightarrow> rendered_line list" where
  "viewport ls capacity =
     (if capacity \<le> 0 \<or> ls = [] then []
      else if int (length ls) \<le> capacity then ls
      else (case active_run ls of (a, b) \<Rightarrow>
        if capacity < b - a then slice ls a (a + capacity)
        else
          (let start = min (max 0 (b - capacity)) a;
               end_at = start + capacity;
               (start1, end1) = (if end_at < b then (b - capacity, b) else (start, end_at));
               (start2, end2) = (if int (length ls) < end1 then (int (length ls) - capacity, int (length ls))
                                 else (start1, end1)) in
           slice ls start2 end2)))"

definition arrows_footer :: string where
  "arrows_footer = [CHR 0xE2, CHR 0x86, CHR 0x91] @ ''/'' @ [CHR 0xE2, CHR 0x86, CHR 0x93]
     @ '' move  Space select  Ctrl+A matches  Enter open  Esc clear/cancel  * source focus''"

definition checked_count :: "picker \<Rightarrow> nat" where
  "checked_count m = length (filter (pk_checked m) [0..<length (pk_windows m)])"

definition counts_text :: "picker \<Rightarrow> string" where
  "counts_text m =
     ''Selected: '' @ show_nat (checked_count m) @ ''  Matching: '' @ show_nat (length (pk_visible m)) @ ''/''
     @ show_nat (length (pk_windows m))"

definition top_lines :: "screen_text \<Rightarrow> picker \<Rightarrow> int \<Rightarrow> rendered_line list" where
  "top_lines lib m width =
     (let filter_line = plain_line (''Filter: '' @ pk_query m) Role_Text in
      if width < 72 then
        [plain_line ''Mirror sessions'' Role_Accent, plain_line (counts_text m) Role_Muted, filter_line]
      else [plain_line (''Mirror sessions  '' @ counts_text m) Role_Accent, filter_line]
           @ (if pk_visible m \<noteq> [] then [plain_line (column_heading lib width) Role_Muted] else []))"

definition screen_width :: "picker \<Rightarrow> int" where
  "screen_width m = (if pk_width m \<le> 0 then 80 else pk_width m)"

text \<open>The lines above the body; the last line of the screen is kept for the body.\<close>

definition lines_above :: "screen_text \<Rightarrow> picker \<Rightarrow> rendered_line list" where
  "lines_above lib m =
     (let above = top_lines lib m (screen_width m); limit = max 0 (pk_height m - 1) in
      if 0 < pk_height m \<and> body_lines lib m (screen_width m) \<noteq> [] \<and> limit < int (length above)
      then take (nat limit) above else above)"

definition screen_lines :: "screen_text \<Rightarrow> picker \<Rightarrow> rendered_line list" where
  "screen_lines lib m =
     (let above = lines_above lib m; body = body_lines lib m (screen_width m); height = pk_height m;
          room = height - int (length above) - 1;
          crowded = (0 < height \<and> room < 1 \<and> body \<noteq> []);
          capacity = (if height \<le> 0 then int (length body)
                      else max 0 (if crowded then height - int (length above) else room));
          ls = above @ viewport body capacity;
          ls1 = (if \<not> crowded \<and> (height \<le> 0 \<or> int (length ls) < height) then ls @ [plain_line arrows_footer Role_Dim]
                 else ls) in
      if 0 < height \<and> height < int (length ls1) then take (nat height) ls1 else ls1)"

text \<open>Each of these lines is painted and the view joins them; a text with a newline takes more than one row.\<close>

definition painted :: "screen_text \<Rightarrow> picker \<Rightarrow> rendered_line \<Rightarrow> string" where
  "painted lib m l =
     (let fitted = fit lib (rd_text l) (screen_width m) in
      paint (pk_color m) (if rd_selected l then pad_cell lib fitted (screen_width m) else fitted)
        (rd_role l) (rd_selected l))"

definition view :: "screen_text \<Rightarrow> picker \<Rightarrow> string" where
  "view lib m =
     (if pk_done m then [] else join_with [CHR 0x0A] (map (painted lib m) (screen_lines lib m)))"

section \<open>The row of the cursor is on the screen\<close>

lemma window_lines_active:
  "l \<in> set (window_lines lib color checked w width active) \<Longrightarrow> rd_active l = active"
  by (auto simp: window_lines_def Let_def row_line_def split: if_splits prod.splits)

lemma window_lines_count:
  "window_lines lib color checked w width active \<noteq> []"
  "length (window_lines lib color checked w width active) \<le> 3"
  by (auto simp: window_lines_def Let_def split: prod.splits)

lemma slice_whole:
  assumes "a \<le> length xs" and "length xs + length ys \<le> b"
  shows "\<exists>us vs. take (b - a) (drop a (xs @ ys @ zs)) = us @ ys @ vs"
proof -
  have "take (b - a) (drop a (xs @ ys @ zs)) = drop a xs @ ys @ take (b - a - (length xs - a) - length ys) zs"
    using assms by simp
  then show ?thesis by blast
qed

lemma take_bound: "length (take n xs) \<le> n"
  by simp

lemma slice_head:
  assumes "ys \<noteq> []" and "0 < n"
  shows "hd ys \<in> set (take n (drop (length xs) (xs @ ys @ zs)))"
  using assms by (cases ys; cases n) auto

lemma viewport_active:
  assumes quiet: "\<forall>l \<in> set xs. \<not> rd_active l" "\<forall>l \<in> set zs. \<not> rd_active l"
    and loud: "\<forall>l \<in> set ys. rd_active l" "ys \<noteq> []" and cap: "0 < capacity"
  shows "int (length (viewport (xs @ ys @ zs) capacity)) \<le> capacity"
    and "hd ys \<in> set (viewport (xs @ ys @ zs) capacity)"
    and "int (length ys) \<le> capacity \<Longrightarrow> \<exists>us vs. viewport (xs @ ys @ zs) capacity = us @ ys @ vs"
proof -
  let ?ls = "xs @ ys @ zs" let ?v = "viewport ?ls capacity"
  have tx: "takeWhile (\<lambda>l. \<not> rd_active l) ?ls = xs"
    using quiet(1) loud by (cases ys) (auto simp: takeWhile_append)
  have ty: "takeWhile rd_active (ys @ zs) = ys"
    using quiet(2) loud(1) by (cases zs) (auto simp: takeWhile_append)
  have run: "active_run ?ls = (int (length xs), int (length xs) + int (length ys))"
    unfolding active_run_def Let_def tx using loud(2) ty by simp
  have in_ys: "hd ys \<in> set ys" using loud(2) by simp
  consider (all) "int (length ?ls) \<le> capacity"
    | (long) "capacity < int (length ?ls)" "capacity < int (length ys)"
    | (cut) "capacity < int (length ?ls)" "int (length ys) \<le> capacity" by linarith
  then have "int (length ?v) \<le> capacity \<and> hd ys \<in> set ?v
    \<and> (int (length ys) \<le> capacity \<longrightarrow> (\<exists>us vs. ?v = us @ ys @ vs))"
  proof cases
    case all
    then have "?v = ?ls" using cap loud(2) by (simp add: viewport_def)
    then show ?thesis using all in_ys by auto
  next
    case long
    then have v: "?v = take (nat capacity) (drop (length xs) ?ls)"
      using cap loud(2) by (simp add: viewport_def run slice_def)
    show ?thesis using long slice_head [OF loud(2), of "nat capacity" xs zs] cap unfolding v by (simp del: drop_append)
  next
    case cut
    define a where "a = nat (max 0 (int (length xs) + int (length ys) - capacity))"
    have a: "int a = max 0 (int (length xs) + int (length ys) - capacity)" by (simp add: a_def)
    have le: "a \<le> length xs" and ge: "length xs + length ys \<le> a + nat capacity" using a cut(2) cap by linarith+
    have first: "min (max 0 (int (length xs) + int (length ys) - capacity)) (int (length xs)) = int a" using a le by linarith
    have inside: "\<not> int a + capacity < int (length xs) + int (length ys)" "\<not> int (length ?ls) < int a + capacity"
      using a cut cap by auto
    have v: "?v = take (nat capacity) (drop a ?ls)"
    proof -
      have "?v = slice ?ls (int a) (int a + capacity)"
        using cut cap loud(2) inside unfolding viewport_def run by (simp add: first Let_def)
      then show ?thesis by (simp add: slice_def)
    qed
    obtain us vs where "take (a + nat capacity - a) (drop a ?ls) = us @ ys @ vs" using slice_whole [OF le ge] by blast
    then have "?v = us @ ys @ vs" by (simp add: v)
    moreover have "int (length ?v) \<le> capacity"
      unfolding v using cap take_bound [of "nat capacity" "drop a ?ls"] by linarith
    ultimately show ?thesis using in_ys by auto
  qed
  then show "int (length ?v) \<le> capacity" "hd ys \<in> set ?v"
    "int (length ys) \<le> capacity \<Longrightarrow> \<exists>us vs. ?v = us @ ys @ vs" by blast+
qed

text \<open>The body is quiet but for the row of the cursor.\<close>

definition cursor_row :: "screen_text \<Rightarrow> picker \<Rightarrow> int \<Rightarrow> nat \<Rightarrow> rendered_line list" where
  "cursor_row lib m width i = window_lines lib (pk_color m) (pk_checked m i) (pk_windows m ! i) width True"

lemma group_quiet:
  assumes "current_index m = Some i" and "i \<notin> set (gr_indexes g)"
  shows "\<forall>l \<in> set (group_lines lib m width g). \<not> rd_active l"
proof
  fix l assume "l \<in> set (group_lines lib m width g)"
  then consider "l = hd (group_lines lib m width g)"
    | j where "j \<in> set (gr_indexes g)"
        "l \<in> set (window_lines lib (pk_color m) (pk_checked m j) (pk_windows m ! j) width (current_index m = Some j))"
    by (auto simp: group_lines_def)
  then show "\<not> rd_active l"
  proof cases
    case 1
    then show ?thesis by (simp add: group_lines_def plain_line_def)
  next
    case 2
    then show ?thesis using assms window_lines_active [OF 2(2)] by auto
  qed
qed

lemma rows_quiet:
  assumes "current_index m = Some i" and "i \<notin> set js"
  shows "\<forall>l \<in> set (concat (map (\<lambda>j. window_lines lib (pk_color m) (pk_checked m j) (pk_windows m ! j) width
    (current_index m = Some j)) js)). \<not> rd_active l"
  using assms by (auto dest: window_lines_active)

lemma body_split:
  assumes ok: "picker_ok plib ws m" and cur: "current_index m = Some i"
  shows "\<exists>xs zs. body_lines lib m width = xs @ cursor_row lib m width i @ zs
    \<and> (\<forall>l \<in> set xs. \<not> rd_active l) \<and> (\<forall>l \<in> set zs. \<not> rd_active l)"
proof -
  let ?gs = "build_session_groups (pk_windows m) (pk_visible m)"
  let ?row = "\<lambda>j. window_lines lib (pk_color m) (pk_checked m j) (pk_windows m ! j) width (current_index m = Some j)"
  have vis: "concat (map gr_indexes ?gs) = pk_visible m" and dist: "distinct (concat (map gr_indexes ?gs))"
    using ok unfolding picker_ok_def by auto
  have mem: "i \<in> set (pk_visible m)" using cur by (auto simp: current_index_def split: if_splits)
  then have in_groups: "i \<in> set (concat (map gr_indexes ?gs))" by (simp only: vis)
  obtain g where g: "g \<in> set ?gs" "i \<in> set (gr_indexes g)"
    using in_groups by auto
  obtain hs ks where gs: "?gs = hs @ g # ks" using split_list [OF g(1)] by blast
  obtain bs cs where idx: "gr_indexes g = bs @ i # cs" using split_list [OF g(2)] by blast
  have d: "distinct (concat (map gr_indexes hs) @ (bs @ i # cs) @ concat (map gr_indexes ks))"
    using dist unfolding gs by (simp only: map_append concat_append list.map concat.simps idx)
  then have not: "i \<notin> set bs" "i \<notin> set cs" "i \<notin> \<Union> (set ` gr_indexes ` set hs)" "i \<notin> \<Union> (set ` gr_indexes ` set ks)"
    by auto
  define xs where "xs = concat (map (group_lines lib m width) hs) @ hd (group_lines lib m width g) # concat (map ?row bs)"
  define zs where "zs = concat (map ?row cs) @ concat (map (group_lines lib m width) ks)"
  have "pk_visible m \<noteq> []" using mem by auto
  then have "body_lines lib m width = concat (map (group_lines lib m width) ?gs)" by (simp add: body_lines_def)
  also have "\<dots> = xs @ cursor_row lib m width i @ zs"
    unfolding gs xs_def zs_def by (simp add: group_lines_def idx cursor_row_def cur)
  finally have "body_lines lib m width = xs @ cursor_row lib m width i @ zs" .
  moreover have "\<forall>l \<in> set xs. \<not> rd_active l"
  proof -
    have "\<not> rd_active (hd (group_lines lib m width g))" by (simp add: group_lines_def plain_line_def)
    moreover have "\<forall>l \<in> set (concat (map (group_lines lib m width) hs)). \<not> rd_active l"
      using group_quiet [OF cur] not(3) by fastforce
    ultimately show ?thesis using rows_quiet [OF cur not(1), of lib width] unfolding xs_def by auto
  qed
  moreover have "\<forall>l \<in> set zs. \<not> rd_active l"
  proof -
    have "\<forall>l \<in> set (concat (map (group_lines lib m width) ks)). \<not> rd_active l"
      using group_quiet [OF cur] not(4) by fastforce
    then show ?thesis using rows_quiet [OF cur not(2), of lib width] unfolding zs_def by auto
  qed
  ultimately show ?thesis by blast
qed

lemma top_lines_count: "length (top_lines lib m width) \<le> 3" "1 \<le> length (top_lines lib m width)"
  by (simp_all add: top_lines_def Let_def)

text \<open>On a screen of a known height the lines above, the part of the body and the footer.\<close>

lemma screen_shape:
  assumes "0 < pk_height m" and body: "body_lines lib m (screen_width m) \<noteq> []"
    and short: "\<And>capacity. 0 < capacity \<Longrightarrow>
      int (length (viewport (body_lines lib m (screen_width m)) capacity)) \<le> capacity"
  shows "\<exists>above capacity below. 0 < capacity
    \<and> screen_lines lib m = above @ viewport (body_lines lib m (screen_width m)) capacity @ below
    \<and> int (length (screen_lines lib m)) \<le> pk_height m
    \<and> (7 \<le> pk_height m \<longrightarrow> 3 \<le> capacity \<and> above = top_lines lib m (screen_width m)
        \<and> below = [plain_line arrows_footer Role_Dim])"
proof -
  let ?h = "pk_height m" let ?body = "body_lines lib m (screen_width m)" let ?top = "top_lines lib m (screen_width m)"
  define above where "above = lines_above lib m"
  have above: "above = (if max 0 (?h - 1) < int (length ?top) then take (nat (max 0 (?h - 1))) ?top else ?top)"
    using assms(1) body by (simp add: above_def lines_above_def Let_def)
  then have la: "int (length above) \<le> ?h - 1" using assms(1) by simp
  define crowded where "crowded \<longleftrightarrow> ?h - int (length above) - 1 < 1"
  define capacity where "capacity = max 0 (if crowded then ?h - int (length above) else ?h - int (length above) - 1)"
  define below where "below = (if crowded then [] else [plain_line arrows_footer Role_Dim])"
  define shown where "shown = viewport ?body capacity"
  have cap: "0 < capacity" "int (length above) + capacity + int (length below) \<le> ?h"
    using la by (auto simp: capacity_def crowded_def below_def)
  have v: "int (length shown) \<le> capacity" unfolding shown_def by (rule short [OF cap(1)])
  have room: "int (length (above @ shown)) < ?h" if "\<not> crowded"
    using that cap v by (simp add: below_def)
  have fits: "int (length (above @ shown @ below)) \<le> ?h" using cap v by simp
  have pos: "(0 < ?h) = True" "(?h \<le> 0) = False" "(?body = []) = False" using assms(1) body by auto
  have "screen_lines lib m =
      (let ls1 = (if \<not> crowded \<and> (?h \<le> 0 \<or> int (length (above @ shown)) < ?h)
                  then (above @ shown) @ [plain_line arrows_footer Role_Dim] else above @ shown) in
       if 0 < ?h \<and> ?h < int (length ls1) then take (nat ?h) ls1 else ls1)"
    unfolding screen_lines_def above_def [symmetric] shown_def capacity_def crowded_def Let_def
    by (simp only: pos if_True if_False simp_thms)
  also have "\<dots> = above @ shown @ below"
  proof (cases crowded)
    case True
    then show ?thesis using fits by (simp add: Let_def below_def)
  next
    case False
    then show ?thesis using fits room by (simp add: Let_def below_def)
  qed
  finally have shape: "screen_lines lib m = above @ shown @ below" .
  have "3 \<le> capacity \<and> above = ?top \<and> below = [plain_line arrows_footer Role_Dim]" if "7 \<le> ?h"
  proof -
    have "above = ?top" using that top_lines_count(1) [of lib m "screen_width m"] by (simp add: above)
    then show ?thesis
      using that top_lines_count(1) [of lib m "screen_width m"] by (simp add: crowded_def capacity_def below_def)
  qed
  then show ?thesis using cap(1) fits shape unfolding shown_def by metis
qed

lemma screen_lines_fit:
  assumes ok: "picker_ok plib ws m" and "0 < pk_height m" and cur: "current_index m = Some i"
  shows "int (length (screen_lines lib m)) \<le> pk_height m
    \<and> hd (cursor_row lib m (screen_width m) i) \<in> set (screen_lines lib m)
    \<and> (7 \<le> pk_height m \<longrightarrow> (\<exists>us vs. screen_lines lib m = top_lines lib m (screen_width m) @ us
          @ cursor_row lib m (screen_width m) i @ vs @ [plain_line arrows_footer Role_Dim]))"
proof -
  let ?w = "screen_width m" let ?row = "cursor_row lib m ?w i"
  obtain xs zs where body: "body_lines lib m ?w = xs @ ?row @ zs"
    and quiet: "\<forall>l \<in> set xs. \<not> rd_active l" "\<forall>l \<in> set zs. \<not> rd_active l"
    using body_split [OF ok cur] by blast
  have loud: "\<forall>l \<in> set ?row. rd_active l" "?row \<noteq> []" and three: "length ?row \<le> 3"
    using window_lines_active window_lines_count unfolding cursor_row_def by blast+
  note seen = viewport_active [OF quiet loud]
  have "body_lines lib m ?w \<noteq> []" using body loud(2) by simp
  then obtain above capacity below where shape: "0 < capacity"
    "screen_lines lib m = above @ viewport (body_lines lib m ?w) capacity @ below"
    "int (length (screen_lines lib m)) \<le> pk_height m"
    "7 \<le> pk_height m \<longrightarrow> 3 \<le> capacity \<and> above = top_lines lib m ?w \<and> below = [plain_line arrows_footer Role_Dim]"
    using screen_shape [OF assms(2), of lib] seen(1) body by metis
  have "hd ?row \<in> set (screen_lines lib m)" unfolding shape(2) body using seen(2) [OF shape(1)] by simp
  moreover have "\<exists>us vs. screen_lines lib m = top_lines lib m ?w @ us @ ?row @ vs @ [plain_line arrows_footer Role_Dim]"
    if tall: "7 \<le> pk_height m"
  proof -
    have "int (length ?row) \<le> capacity" using shape(4) tall three by linarith
    then obtain us vs where "viewport (xs @ ?row @ zs) capacity = us @ ?row @ vs" using seen(3) [OF shape(1)] by blast
    then show ?thesis using shape(2,4) tall body by auto
  qed
  ultimately show ?thesis using shape(3) by blast
qed

section \<open>Every line is one row\<close>

definition one_line :: "string \<Rightarrow> bool" where "one_line s \<longleftrightarrow> CHR 0x0A \<notin> set s"

definition plain_window :: "mirror_window \<Rightarrow> bool" where
  "plain_window w \<longleftrightarrow>
     list_all one_line [mw_title w, mw_session w, mw_workspace_id w, mw_workspace_name w, mw_output w]
     \<and> (case mw_terminal w of None \<Rightarrow> True
        | Some t \<Rightarrow> one_line (mt_session t) \<and> one_line (mt_cwd t) \<and> list_all (one_line \<circ> sg_label) (mt_project t))"

text \<open>A printable rune is no newline, and truncation adds none.\<close>

definition line_laws :: "picker_text \<Rightarrow> screen_text \<Rightarrow> bool" where
  "line_laws plib lib \<longleftrightarrow>
     (\<forall>r. pt_printable plib r \<longrightarrow> one_line r) \<and> (\<forall>s w. one_line s \<longrightarrow> one_line (st_truncate lib s w))"

lemma one_line_simps [simp]:
  "one_line []" "one_line (c # s) \<longleftrightarrow> c \<noteq> CHR 0x0A \<and> one_line s" "one_line (s @ t) \<longleftrightarrow> one_line s \<and> one_line t"
  "one_line (concat xs) \<longleftrightarrow> (\<forall>x \<in> set xs. one_line x)"
  by (auto simp: one_line_def)

lemma one_line_drop [simp]: "one_line s \<Longrightarrow> one_line (drop n s)"
  by (auto simp: one_line_def dest: in_set_dropD)

lemma one_line_spaces [simp]: "one_line (spaces n)"
  by (simp add: one_line_def spaces_def)

lemma digit_no_newline: "d < 10 \<Longrightarrow> digit_char d \<noteq> CHR 0x0A"
proof
  assume "d < 10" and "digit_char d = CHR 0x0A"
  then have "(of_char (digit_char d) :: nat) = of_char (CHR 0x0A)" by simp
  then show False using \<open>d < 10\<close> by (simp add: digit_char_def of_char_of)
qed

lemma one_line_show_nat [simp]: "one_line (show_nat n)"
  by (induction n rule: show_nat.induct) (subst show_nat.simps, simp add: digit_no_newline)

lemma one_line_show_int [simp]: "one_line (show_int n)"
  by (simp add: show_int_def)

lemma one_line_strip: "one_line s \<Longrightarrow> one_line (strip encs s)"
proof (induction encs s rule: strip.induct)
  case (1 encs s)
  then show ?case by (subst strip.simps) (simp split: option.splits)
qed

lemma one_line_trim [simp]: "one_line s \<Longrightarrow> one_line (trim_space s)"
proof -
  have rev: "one_line (rev s) = one_line s" for s by (simp add: one_line_def)
  show "one_line s \<Longrightarrow> one_line (trim_space s)" by (simp add: trim_space_def rev one_line_strip)
qed

lemma one_line_join [simp]: "one_line sep \<Longrightarrow> \<forall>x \<in> set xs. one_line x \<Longrightarrow> one_line (join_with sep xs)"
  by (induction sep xs rule: join_with.induct) auto

lemma one_line_runes: "one_line q \<Longrightarrow> \<forall>r \<in> set (runes q). one_line r"
proof (induction q rule: runes.induct)
  case (1 s)
  have "one_line (take n s)" for n using 1(3) by (auto simp: one_line_def dest: in_set_takeD)
  then show ?case using 1 by (subst runes.simps) (auto simp: rune_error_def)
qed

lemma one_line_colors [simp]:
  "one_line (rgb_ansi layer a b c) \<longleftrightarrow> one_line layer" "one_line (color_ansi layer h) \<longleftrightarrow> one_line layer"
  "one_line (foreground_ansi h)" "one_line (background_ansi h)" "one_line reset_ansi"
  by (auto simp: rgb_ansi_def color_ansi_def foreground_ansi_def background_ansi_def reset_ansi_def)

lemma one_line_inline [simp]: "one_line (inline color role s) \<longleftrightarrow> one_line s"
  by (simp add: inline_def)

lemma one_line_paint [simp]: "one_line (paint color s role selected) \<longleftrightarrow> one_line s"
  by (simp add: paint_def)

lemma one_line_fit [simp]: "line_laws plib lib \<Longrightarrow> one_line s \<Longrightarrow> one_line (fit lib s w)"
  by (simp add: fit_def line_laws_def)

lemma one_line_suffix: "one_line s \<Longrightarrow> one_line (fit_suffix lib w s)"
proof (induction lib w s rule: fit_suffix.induct)
  case (1 lib w s)
  then show ?case by (subst fit_suffix.simps) simp
qed

lemma one_line_fit_path [simp]: "one_line s \<Longrightarrow> one_line (fit_path lib s w)"
  by (simp add: fit_path_def ellipsis_def one_line_suffix)

lemma one_line_pads [simp]:
  "line_laws plib lib \<Longrightarrow> one_line s \<Longrightarrow> one_line (pad_cell lib s w)" "one_line s \<Longrightarrow> one_line (pad_path lib s w)"
  by (simp_all add: pad_cell_def pad_path_def Let_def)

lemma plain_windowD:
  assumes "plain_window w"
  shows "one_line (session_name w)" "one_line (display_activity w)" "one_line (project_directory lib w)"
    and "\<forall>l \<in> set (project_labels w). one_line l" "one_line (workspace_group_label w)"
proof -
  show "one_line (session_name w)" "\<forall>l \<in> set (project_labels w). one_line l"
    using assms by (auto simp: plain_window_def session_name_def project_labels_def list_all_iff split: option.splits)
  then show "one_line (display_activity w)"
    using assms by (auto simp: display_activity_def Let_def plain_window_def)
  show "one_line (project_directory lib w)"
    using assms by (auto simp: project_directory_def shorten_home_def Let_def plain_window_def split: option.splits)
  have "one_line middle_dot" by (simp add: middle_dot_def)
  then show "one_line (workspace_group_label w)"
    using assms by (simp add: workspace_group_label_def Let_def plain_window_def)
qed

lemma one_line_chip_labels: "\<forall>l \<in> set ls. one_line l \<Longrightarrow> \<forall>l \<in> set (chip_labels lib a b ls). one_line l"
  by (induction ls arbitrary: a b) (auto simp: Let_def)

lemma one_line_fit_labels: "\<forall>l \<in> set ls. one_line l \<Longrightarrow> \<forall>l \<in> set (fit_chip_labels lib ls w). one_line l"
  using one_line_chip_labels by (auto simp: fit_chip_labels_def Let_def)

lemma one_line_project_cell:
  assumes "line_laws plib lib" and "plain_window w"
  shows "one_line (project_cell lib color w width selected)"
proof -
  note labels = plain_windowD(4) [OF assms(2)]
  have "one_line (join_with ''/'' (project_labels w))" using labels by (intro one_line_join) auto
  moreover have "one_line (chip selected sg l)" if "one_line l" for sg l using that by (simp add: chip_def)
  then have "\<forall>c \<in> set (map2 (chip selected) sgs (fit_chip_labels lib (project_labels w) width)). one_line c" for sgs
    using one_line_fit_labels [OF labels] by (auto dest: set_zip_rightD)
  then have "one_line (join_with ''/'' (map2 (chip selected) sgs (fit_chip_labels lib (project_labels w) width)))" for sgs
    by (intro one_line_join) auto
  ultimately show ?thesis
    using assms(1) by (auto simp: project_cell_def Let_def split: option.splits)
qed

lemma one_line_window_lines:
  assumes "line_laws plib lib" and "plain_window w" and "l \<in> set (window_lines lib color checked w width active)"
  shows "one_line (rd_text l)"
proof -
  note d = plain_windowD(1-3) [OF assms(2)] one_line_project_cell [OF assms(1,2)]
  show ?thesis
    using assms(3) d one_line_fit [OF assms(1)] one_line_pads(1) [OF assms(1)]
    by (auto simp: window_lines_def Let_def row_line_def split: prod.splits if_splits)
qed

lemma one_line_groups:
  assumes "\<forall>i \<in> set is. i < length ws" and "list_all plain_window ws"
    and "g \<in> set (build_session_groups ws is)"
  shows "one_line (gr_label g)"
proof -
  obtain groups headless where f: "foldl (add_index ws) ([], []) is = (groups, headless)" by fastforce
  have "grouped ws is (groups, headless)" using grouped_all [of ws "is"] by (simp add: f)
  then have each: "gr_indexes h \<noteq> []" "gr_label h = workspace_group_label (ws ! hd (gr_indexes h))"
    "gr_indexes h = filter (\<lambda>i. \<not> mw_headless (ws ! i) \<and> workspace_group_key (ws ! i) = k) is"
    if "(k, h) \<in> set groups" for k h
    using that unfolding grouped_def by fastforce+
  have "one_line (gr_label h)" if "(k, h) \<in> set groups" for k h
  proof -
    have "hd (gr_indexes h) \<in> set (gr_indexes h)" using each(1) [OF that] by (rule hd_in_set)
    moreover have "set (gr_indexes h) \<subseteq> set is" by (subst each(3) [OF that]) auto
    ultimately have "plain_window (ws ! hd (gr_indexes h))" using assms(1,2) by (auto simp: list_all_length)
    then show ?thesis using each(2) [OF that] plain_windowD(5) by simp
  qed
  then show ?thesis using assms(3) by (auto simp: build_session_groups_def f split: if_splits)
qed

lemma refilter_query [simp]: "pk_query (refilter lib preferred m) = pk_query m"
  by (simp add: refilter_def Let_def)

lemma query_step:
  assumes "P (pk_query m)" and "P []" and "P (concat (butlast (runes (pk_query m))))"
    and "\<And>rs. P (pk_query m @ concat (filter (\<lambda>r. pt_printable plib r \<and> \<not> control_rune r) rs))"
  shows "P (pk_query (fst (update_picker plib msg m)))"
proof -
  have "pk_query (toggle_filtered m) = pk_query m" by (simp add: toggle_filtered_def Let_def)
  moreover have "P (concat (filter (\<lambda>r. pt_printable plib r \<and> \<not> control_rune r) rs))" if "pk_query m = []" for rs
    using assms(4) [of rs] that by simp
  ultimately show ?thesis
    using assms unfolding update_picker_def Let_def by (cases msg) (simp_all split: option.split)
qed

lemma one_line_query:
  assumes laws: "line_laws plib lib" and query: "one_line (pk_query m)"
  shows "one_line (pk_query (fst (update_picker plib msg m)))"
proof (rule query_step)
  show "one_line (concat (butlast (runes (pk_query m))))"
    using one_line_runes [OF query] by (auto dest: in_set_butlastD)
  show "one_line (pk_query m @ concat (filter (\<lambda>r. pt_printable plib r \<and> \<not> control_rune r) rs))" for rs
    using laws query unfolding line_laws_def by simp
qed (simp_all add: query)

lemma handled_query:
  assumes "line_laws plib lib"
  shows "one_line (pk_query m) \<Longrightarrow> one_line (pk_query (handled plib msgs m))"
  unfolding handled_def by (induction msgs arbitrary: m) (simp_all add: one_line_query [OF assms])

lemma viewport_subset: "set (viewport ls capacity) \<subseteq> set ls"
  by (auto simp: viewport_def slice_def Let_def split: prod.splits if_splits dest!: in_set_takeD in_set_dropD)

lemma set_cut_subset: "set (if c then take n xs else xs) \<subseteq> set xs"
  by (simp add: set_take_subset)

lemma screen_lines_subset:
  "set (screen_lines lib m) \<subseteq> set (top_lines lib m (screen_width m)) \<union> set (body_lines lib m (screen_width m))
    \<union> {plain_line arrows_footer Role_Dim}"
proof -
  have above: "set (lines_above lib m) \<subseteq> set (top_lines lib m (screen_width m))"
    unfolding lines_above_def Let_def by (rule set_cut_subset)
  have "set (if c then (lines_above lib m @ viewport (body_lines lib m (screen_width m)) k)
        @ [plain_line arrows_footer Role_Dim] else lines_above lib m @ viewport (body_lines lib m (screen_width m)) k)
    \<subseteq> set (top_lines lib m (screen_width m)) \<union> set (body_lines lib m (screen_width m))
    \<union> {plain_line arrows_footer Role_Dim}" for c k
    using above viewport_subset [of "body_lines lib m (screen_width m)" k] by auto
  then show ?thesis unfolding screen_lines_def Let_def by (rule subset_trans [OF set_cut_subset])
qed

lemma one_line_screen:
  assumes laws: "line_laws plib lib" and ok: "picker_ok plib ws m" and ws: "list_all plain_window ws"
    and query: "one_line (pk_query m)" and l: "l \<in> set (screen_lines lib m)"
  shows "one_line (rd_text l)"
proof -
  have w: "pk_windows m = ws" and vis: "\<forall>i \<in> set (pk_visible m). i < length ws"
    and perm: "pk_visible m = concat (map gr_indexes (build_session_groups ws (pk_visible m)))"
    using ok unfolding picker_ok_def by auto
  have counts: "one_line (counts_text m)" by (simp add: counts_text_def)
  have heading: "one_line (column_heading lib width)" for width
    using one_line_pads(1) [OF laws] one_line_fit [OF laws] by (simp add: column_heading_def split: prod.splits)
  have tops: "\<forall>l \<in> set (top_lines lib m width). one_line (rd_text l)" for width
    using counts heading query by (simp add: top_lines_def Let_def plain_line_def)
  have body: "\<forall>l \<in> set (body_lines lib m width). one_line (rd_text l)" for width
  proof (cases "pk_visible m = []")
    case False
    have "one_line (rd_text l)"
      if g: "g \<in> set (build_session_groups ws (pk_visible m))" and l: "l \<in> set (group_lines lib m width g)" for g l
    proof -
      have "set (gr_indexes g) \<subseteq> set (pk_visible m)" using g by (subst perm) auto
      then have plain: "plain_window (ws ! i)" if "i \<in> set (gr_indexes g)" for i
        using that vis ws by (auto simp: list_all_length)
      consider "l = plain_line ((if gr_headless g then ''  '' else ''  Workspace: '') @ gr_label g
          @ '' ('' @ show_nat (length (gr_indexes g)) @ '')'') Role_Accent"
        | i checked active where "i \<in> set (gr_indexes g)"
          "l \<in> set (window_lines lib (pk_color m) checked (ws ! i) width active)"
        using l by (auto simp: group_lines_def w)
      then show ?thesis
      proof cases
        case 1
        then show ?thesis using one_line_groups [OF vis ws g] by (simp add: plain_line_def)
      next
        case 2
        show ?thesis by (rule one_line_window_lines [OF laws plain [OF 2(1)] 2(2)])
      qed
    qed
    then show ?thesis using False by (auto simp: body_lines_def w)
  qed (simp add: body_lines_def)
  have "l \<in> set (top_lines lib m (screen_width m)) \<union> set (body_lines lib m (screen_width m))
    \<union> {plain_line arrows_footer Role_Dim}"
    using l screen_lines_subset by blast
  moreover have "one_line arrows_footer" by (simp add: arrows_footer_def)
  ultimately show ?thesis using tops body by (auto simp: plain_line_def)
qed

lemma split_join: "one_line s \<Longrightarrow> split_newline (s @ CHR 0x0A # t) = s # split_newline t"
  by (induction s) auto

lemma split_one_line: "one_line s \<Longrightarrow> split_newline s = [s]"
  by (induction s) auto

lemma split_rows: "xs \<noteq> [] \<Longrightarrow> \<forall>x \<in> set xs. one_line x \<Longrightarrow> split_newline (join_with [CHR 0x0A] xs) = xs"
  by (induction "[CHR 0x0A]" xs rule: join_with.induct) (simp_all add: split_join split_one_line)

text \<open>
  C35: The screen of a known height never overflows and always shows the row of the cursor. After any messages, while
  the picker has not been asked to quit, and when no text of the windows holds a newline, the view of the
  picker has at most as many rows as the terminal; the first line of the row of the current session is one
  of them, and a terminal of at least seven rows shows that row whole, under the whole heading and over the
  help line.
\<close>

theorem screen_fits:
  assumes "line_laws plib lib" and "list_all plain_window ws"
    and m: "m = handled plib msgs (new_picker plib ws color)" and "\<not> pk_done m" and "0 < pk_height m"
    and cur: "current_index m = Some i"
  shows "int (length (split_newline (view lib m))) \<le> pk_height m
    \<and> painted lib m (hd (cursor_row lib m (screen_width m) i)) \<in> set (split_newline (view lib m))
    \<and> (7 \<le> pk_height m \<longrightarrow> (\<exists>us vs. split_newline (view lib m) =
          map (painted lib m) (top_lines lib m (screen_width m)) @ us
          @ map (painted lib m) (cursor_row lib m (screen_width m) i) @ vs
          @ [painted lib m (plain_line arrows_footer Role_Dim)]))"
proof -
  have ok: "picker_ok plib ws m" unfolding m by (rule handled_ok [OF new_picker_ok])
  have query: "one_line (pk_query m)"
    unfolding m by (rule handled_query [OF assms(1)]) (simp add: new_picker_def refilter_def Let_def)
  note fit = screen_lines_fit [OF ok assms(5) cur, of lib]
  have "one_line (painted lib m l)" if "l \<in> set (screen_lines lib m)" for l
    using one_line_screen [OF assms(1) ok assms(2) query that] one_line_fit [OF assms(1)] one_line_pads(1) [OF assms(1)]
    by (simp add: painted_def Let_def)
  moreover have "screen_lines lib m \<noteq> []" using fit by auto
  ultimately have "split_newline (view lib m) = map (painted lib m) (screen_lines lib m)"
    using assms(4) by (simp add: view_def split_rows)
  then have rows: "split_newline (view lib m) = map (painted lib m) (screen_lines lib m)" .
  show ?thesis unfolding rows
  proof (intro conjI impI)
    assume "7 \<le> pk_height m"
    then obtain us vs where "screen_lines lib m = top_lines lib m (screen_width m) @ us
        @ cursor_row lib m (screen_width m) i @ vs @ [plain_line arrows_footer Role_Dim]"
      using fit by blast
    then have "map (painted lib m) (screen_lines lib m) = map (painted lib m) (top_lines lib m (screen_width m))
        @ map (painted lib m) us @ map (painted lib m) (cursor_row lib m (screen_width m) i)
        @ map (painted lib m) vs @ [painted lib m (plain_line arrows_footer Role_Dim)]"
      by simp
    then show "\<exists>us vs. map (painted lib m) (screen_lines lib m) =
        map (painted lib m) (top_lines lib m (screen_width m)) @ us
        @ map (painted lib m) (cursor_row lib m (screen_width m) i) @ vs
        @ [painted lib m (plain_line arrows_footer Role_Dim)]"
      by blast
  qed (use fit in auto)
qed

section \<open>Chips fit their cell\<close>

text \<open>What the code relies on of the widths of \<open>x/ansi\<close>.\<close>

definition width_laws :: "screen_text \<Rightarrow> bool" where
  "width_laws lib \<longleftrightarrow>
     st_width lib [] = 0 \<and> st_width lib ellipsis = 1
     \<and> (\<forall>s. 0 \<le> st_width lib s \<and> st_width lib (ellipsis @ s) \<le> 1 + st_width lib s)"

lemma fit_suffix_fits:
  "width_laws lib \<Longrightarrow> 0 \<le> available \<Longrightarrow> st_width lib (fit_suffix lib available s) \<le> available"
proof (induction lib available s rule: fit_suffix.induct)
  case (1 lib available s)
  then show ?case by (subst fit_suffix.simps) (auto simp: width_laws_def)
qed

lemma fit_path_fits:
  assumes "width_laws lib" and "1 \<le> width"
  shows "st_width lib (fit_path lib value width) \<le> width" and "0 \<le> st_width lib (fit_path lib value width)"
proof -
  have "st_width lib (ellipsis @ fit_suffix lib (width - 1) value) \<le> 1 + (width - 1)"
    using assms fit_suffix_fits [OF assms(1), of "width - 1" "value"] unfolding width_laws_def
    by (meson add_left_mono diff_ge_0_iff_ge order_trans)
  then show "st_width lib (fit_path lib value width) \<le> width"
    using assms unfolding fit_path_def width_laws_def by auto
  show "0 \<le> st_width lib (fit_path lib value width)" using assms(1) unfolding width_laws_def by blast
qed

lemma chip_labels_fit:
  assumes "width_laws lib"
  shows "int (length labels) \<le> remaining \<Longrightarrow>
    sum_list (map (st_width lib) (chip_labels lib remaining sum_left labels)) \<le> remaining
    \<and> length (chip_labels lib remaining sum_left labels) = length labels"
proof (induction labels arbitrary: remaining sum_left)
  case (Cons label labels)
  define n where "n = int (length labels)"
  define wanted where "wanted = (if 0 < sum_left
    then max (remaining sdiv (n + 1)) (remaining * st_width lib label sdiv sum_left) else remaining sdiv (n + 1))"
  define allocation where "allocation = max 1 (min wanted (remaining - n))"
  define fitted where "fitted = fit_path lib label allocation"
  have step: "chip_labels lib remaining sum_left (label # labels)
    = fitted # chip_labels lib (remaining - st_width lib fitted) (sum_left - st_width lib label) labels"
    by (simp add: Let_def fitted_def allocation_def wanted_def n_def)
  have "allocation \<le> remaining - n" "1 \<le> allocation" using Cons.prems by (auto simp: allocation_def n_def)
  then have "st_width lib fitted \<le> remaining - n"
    using fit_path_fits(1) [OF assms, of allocation label] by (simp add: fitted_def)
  then have "int (length labels) \<le> remaining - st_width lib fitted" by (simp add: n_def)
  from Cons.IH [OF this, of "sum_left - st_width lib label"] show ?case unfolding step by simp
qed simp

text \<open>
  C36: The chips of a project fit their cell: the labels that are kept, each with a space on either side and one
  separator between two, take at most the width of the cell, and either every label of the project has its chip or
  none has.
\<close>

theorem chips_fit:
  assumes "width_laws lib" and "labels \<noteq> []" and "fit_chip_labels lib labels width \<noteq> []"
  shows "length (fit_chip_labels lib labels width) = length labels
    \<and> sum_list (map (\<lambda>l. st_width lib l + 2) (fit_chip_labels lib labels width)) + int (length labels - 1) \<le> width"
proof -
  let ?n = "int (length labels)" let ?chips = "fit_chip_labels lib labels width"
  let ?available = "width - (?n * 2 + ?n - 1)"
  have room: "?n \<le> ?available" using assms(3) by (auto simp: fit_chip_labels_def Let_def split: if_splits)
  have "sum_list (map (st_width lib) ?chips) \<le> ?available \<and> length ?chips = length labels"
    using room chip_labels_fit [OF assms(1) room] by (auto simp: fit_chip_labels_def Let_def)
  moreover have "sum_list (map (\<lambda>l. st_width lib l + 2) ls) = sum_list (map (st_width lib) ls) + 2 * int (length ls)" for ls
    by (induction ls) auto
  moreover have "1 \<le> length labels" using assms(2) by (cases labels) auto
  ultimately show ?thesis by (simp add: of_nat_diff)
qed

section \<open>Examples\<close>

text \<open>Every character is one column wide: the bytes that start one are counted.\<close>

definition ex_screen :: screen_text where
  "ex_screen = \<lparr>st_width = (\<lambda>s. int (length (filter (\<lambda>c. of_char c < (128 :: nat) \<or> 192 \<le> (of_char c :: nat)) s))),
     st_truncate = (\<lambda>s n. take (nat n) s), st_home = Some ''/home/me''\<rparr>"

definition ex_shown :: picker where
  "ex_shown = handled ex_text [Resized 90 7, Key ''down'' None, Key ''down'' None]
     (new_picker ex_text ex_windows False)"

lemma ex_shown_facts: "(pk_height ex_shown, current_index ex_shown, pk_done ex_shown) = (7, Some 2, False)"
  by code_simp

lemma ex_line_laws: "line_laws ex_text ex_screen"
  by (auto simp: line_laws_def ex_text_def ex_screen_def one_line_def dest: in_set_takeD)

lemma screen_fits_witness:
  "int (length (split_newline (view ex_screen ex_shown))) \<le> 7
    \<and> painted ex_screen ex_shown (hd (cursor_row ex_screen ex_shown (screen_width ex_shown) 2))
        \<in> set (split_newline (view ex_screen ex_shown))"
proof -
  have f: "0 < pk_height ex_shown" "pk_height ex_shown = 7" "current_index ex_shown = Some 2" "\<not> pk_done ex_shown"
    using ex_shown_facts by simp_all
  have "list_all plain_window ex_windows"
    by (simp add: ex_windows_def ex_mirror_window_def plain_window_def)
  from screen_fits [OF ex_line_laws this ex_shown_def f(4,1,3)] f(2) show ?thesis by simp
qed

text \<open>
  A title with a newline takes two rows: a view with as many lines as the terminal has rows is then higher than the
  terminal.
\<close>

definition ex_bytes :: screen_text where
  "ex_bytes = \<lparr>st_width = (\<lambda>s. int (length s)), st_truncate = (\<lambda>s n. take (nat n) s), st_home = None\<rparr>"

lemma newline_overflows:
  "map (\<lambda>l. length (split_newline (fit ex_bytes (rd_text l) 30)))
     (window_lines ex_bytes False False ((ex_mirror_window ''a'' 1 False)\<lparr>mw_title := ''x'' @ [CHR 0x0A] @ ''y''\<rparr>) 30 True)
   = [1, 2, 1]"
  by code_simp

lemma ex_screen_laws: "width_laws ex_screen"
proof -
  have "st_width ex_screen ellipsis = 1" by code_simp
  then show ?thesis unfolding width_laws_def by (simp add: ex_screen_def ellipsis_def)
qed

lemma chips_fit_witness:
  "(let chips = fit_chip_labels ex_screen [''terminal-redeemer'', ''main''] 20 in
      length chips = 2 \<and> sum_list (map (\<lambda>l. st_width ex_screen l + 2) chips) + 1 \<le> 20)"
proof -
  have "fit_chip_labels ex_screen [''terminal-redeemer'', ''main''] 20 \<noteq> []" by code_simp
  from chips_fit [OF ex_screen_laws _ this] show ?thesis by (simp add: Let_def)
qed

end
