(* ===== verification/Loading_Picker.thy ===== *)
theory Loading_Picker
  imports Picker_Screen Follow_Source Zellij_Catalog
begin

text \<open>
  The workspace picker of \<open>internal/mirrortui/workspace.go\<close> and the loading screen of \<open>loading.go\<close>, which runs
  the discovery as a command and then hands every message to the picker it loaded. The loading screen knows
  the inner picker only as an interface: the locale \<open>loaded_picker\<close>, interpreted on both pickers.
\<close>

section \<open>The workspace picker\<close>

record workspace_picker =
  wp_choices :: "workspace_choice list"
  wp_visible :: "nat list"
  wp_cursor :: nat
  wp_query :: string
  wp_width :: int
  wp_height :: int
  wp_color :: bool
  wp_done :: bool
  wp_cancelled :: bool

definition workspace_choice_label :: "mirror_workspace \<Rightarrow> string" where
  "workspace_choice_label w =
     (if trim_space (wk_name w) \<noteq> [] then wk_name w @ '' (#'' @ show_int (wk_index w) @ '')''
      else ''Workspace '' @ show_int (wk_index w))"

definition workspace_matches :: "picker_text \<Rightarrow> string \<Rightarrow> workspace_choice \<Rightarrow> bool" where
  "workspace_matches lib query c \<longleftrightarrow>
     (let w = ch_workspace c; needle = pt_lower lib query in
      needle = []
      \<or> sublist needle (pt_lower lib (workspace_choice_label w @ '' '' @ show_int (wk_index w) @ '' '' @ wk_output w)))"

definition workspace_matching :: "picker_text \<Rightarrow> string \<Rightarrow> workspace_choice list \<Rightarrow> nat list" where
  "workspace_matching lib query choices = filter (\<lambda>i. workspace_matches lib query (choices ! i)) [0..<length choices]"

definition refilter_workspaces :: "picker_text \<Rightarrow> workspace_picker \<Rightarrow> workspace_picker" where
  "refilter_workspaces lib m =
     (let visible = workspace_matching lib (wp_query m) (wp_choices m) in
      m\<lparr>wp_visible := visible,
        wp_cursor := (if length visible \<le> wp_cursor m then length visible - 1 else wp_cursor m)\<rparr>)"

definition new_workspace_picker :: "picker_text \<Rightarrow> workspace_choice list \<Rightarrow> bool \<Rightarrow> workspace_picker" where
  "new_workspace_picker lib choices color =
     refilter_workspaces lib
       \<lparr>wp_choices = choices, wp_visible = [], wp_cursor = 0, wp_query = [], wp_width = 80, wp_height = 24,
        wp_color = color, wp_done = False, wp_cancelled = False\<rparr>"

definition update_workspace_picker ::
    "picker_text \<Rightarrow> tui_message \<Rightarrow> workspace_picker \<Rightarrow> workspace_picker \<times> bool"
where
  "update_workspace_picker lib msg m =
     (case msg of
        Resized w h \<Rightarrow> (m\<lparr>wp_width := w, wp_height := h\<rparr>, False)
      | Key name typed \<Rightarrow>
          if name = ''ctrl+c'' then (m\<lparr>wp_cancelled := True, wp_done := True\<rparr>, True)
          else if name = ''esc'' then
            (if wp_query m \<noteq> [] then (refilter_workspaces lib (m\<lparr>wp_query := []\<rparr>), False)
             else (m\<lparr>wp_cancelled := True, wp_done := True\<rparr>, True))
          else if name = ''up'' then (if 0 < wp_cursor m then m\<lparr>wp_cursor := wp_cursor m - 1\<rparr> else m, False)
          else if name = ''down'' then
            (if wp_cursor m + 1 < length (wp_visible m) then m\<lparr>wp_cursor := wp_cursor m + 1\<rparr> else m, False)
          else if name = ''enter'' then
            (if wp_visible m \<noteq> [] then (m\<lparr>wp_done := True\<rparr>, True) else (m, False))
          else if name = ''backspace'' then
            (if wp_query m \<noteq> [] then
               (refilter_workspaces lib (m\<lparr>wp_query := concat (butlast (runes (wp_query m)))\<rparr>), False)
             else (m, False))
          else (case typed of None \<Rightarrow> (m, False)
                | Some rs \<Rightarrow>
                    (refilter_workspaces lib
                       (m\<lparr>wp_query := wp_query m @ concat (filter (\<lambda>r. pt_printable lib r \<and> \<not> control_rune r) rs)\<rparr>),
                     False)))"

definition workspace_selection :: "workspace_picker \<Rightarrow> workspace_choice option" where
  "workspace_selection m =
     (if wp_cursor m < length (wp_visible m) then Some (wp_choices m ! (wp_visible m ! wp_cursor m)) else None)"

subsection \<open>Its screen\<close>

definition style_text :: "string \<Rightarrow> string \<Rightarrow> bool \<Rightarrow> string" where
  "style_text value color enabled = (if enabled then foreground_ansi color @ value @ reset_ansi else value)"

definition workspace_row :: "screen_text \<Rightarrow> workspace_picker \<Rightarrow> int \<Rightarrow> nat \<Rightarrow> string" where
  "workspace_row lib m width row =
     (let c = wp_choices m ! (wp_visible m ! row);
          line = fit lib ((if row = wp_cursor m then ''> '' else ''  '') @ workspace_choice_label (ch_workspace c) @ ''  ''
                   @ show_nat (ch_eligible c) @ '' eligible / '' @ show_nat (ch_visible c) @ '' terminals'') width in
      if row = wp_cursor m \<and> wp_color m
      then background_ansi selected_bg_color @ foreground_ansi (role_color Role_Text) @ pad_cell lib line width @ reset_ansi
      else line)"

definition workspace_footer :: string where
  "workspace_footer = [CHR 0xE2, CHR 0x86, CHR 0x91] @ ''/'' @ [CHR 0xE2, CHR 0x86, CHR 0x93]
     @ '' move  Enter follow  Esc clear/cancel  j/k filter''"

definition workspace_capacity :: "workspace_picker \<Rightarrow> nat" where
  "workspace_capacity m = (if wp_height m \<le> 0 then length (wp_visible m) else nat (wp_height m - 3))"

definition workspace_rows :: "workspace_picker \<Rightarrow> nat list" where
  "workspace_rows m =
     (let capacity = workspace_capacity m;
          start = (if capacity \<le> wp_cursor m \<and> 0 < capacity then wp_cursor m - capacity + 1 else 0) in
      [start..<min (start + capacity) (length (wp_visible m))])"

definition workspace_lines :: "screen_text \<Rightarrow> workspace_picker \<Rightarrow> string list" where
  "workspace_lines lib m =
     (let width = (if wp_width m \<le> 0 then 80 else wp_width m); height = wp_height m;
          ls = [style_text ''Mirror workspace follow'' (role_color Role_Accent) (wp_color m), fit lib (''Filter: '' @ wp_query m) width]
               @ (if wp_visible m = [] then [fit lib ''No workspaces match the current filter.'' width]
                  else map (workspace_row lib m width) (workspace_rows m));
          ls1 = (if height \<le> 0 \<or> int (length ls) < height then ls @ [fit lib workspace_footer width] else ls) in
      if 0 < height \<and> height < int (length ls1) then take (nat height) ls1 else ls1)"

definition workspace_view :: "screen_text \<Rightarrow> workspace_picker \<Rightarrow> string" where
  "workspace_view lib m = (if wp_done m then [] else join_with [CHR 0x0A] (workspace_lines lib m))"

subsection \<open>What it keeps\<close>

definition workspace_picker_ok :: "picker_text \<Rightarrow> workspace_choice list \<Rightarrow> workspace_picker \<Rightarrow> bool" where
  "workspace_picker_ok lib choices m \<longleftrightarrow>
     wp_choices m = choices
     \<and> wp_visible m = workspace_matching lib (wp_query m) choices
     \<and> (wp_visible m = [] \<longrightarrow> wp_cursor m = 0) \<and> (wp_visible m \<noteq> [] \<longrightarrow> wp_cursor m < length (wp_visible m))"

lemma refilter_workspaces_ok:
  "wp_choices m = choices \<Longrightarrow> workspace_picker_ok lib choices (refilter_workspaces lib m)"
  by (auto simp: workspace_picker_ok_def refilter_workspaces_def Let_def)

lemma new_workspace_picker_ok: "workspace_picker_ok lib choices (new_workspace_picker lib choices color)"
  unfolding new_workspace_picker_def by (rule refilter_workspaces_ok) simp

lemma update_workspace_picker_ok:
  assumes ok: "workspace_picker_ok lib choices m"
  shows "workspace_picker_ok lib choices (fst (update_workspace_picker lib msg m))"
proof -
  have re: "workspace_picker_ok lib choices (refilter_workspaces lib (m\<lparr>wp_query := q\<rparr>))" for q
    by (rule refilter_workspaces_ok) (use ok in \<open>simp add: workspace_picker_ok_def\<close>)
  have ch: "wp_choices m = choices" and vis: "wp_visible m = workspace_matching lib (wp_query m) choices"
    and cur: "wp_visible m = [] \<longrightarrow> wp_cursor m = 0" "wp_visible m \<noteq> [] \<longrightarrow> wp_cursor m < length (wp_visible m)"
    using ok unfolding workspace_picker_ok_def by blast+
  have kept: "workspace_picker_ok lib choices (m\<lparr>wp_done := b\<rparr>)" "workspace_picker_ok lib choices (m\<lparr>wp_cancelled := a, wp_done := b\<rparr>)"
    "workspace_picker_ok lib choices (m\<lparr>wp_width := x, wp_height := y\<rparr>)" for a b x y
    unfolding workspace_picker_ok_def using ch vis cur by simp_all
  have up: "workspace_picker_ok lib choices (m\<lparr>wp_cursor := wp_cursor m - Suc 0\<rparr>)" if "0 < wp_cursor m"
    unfolding workspace_picker_ok_def using ch vis cur that by (auto split: if_splits)
  have down: "workspace_picker_ok lib choices (m\<lparr>wp_cursor := c\<rparr>)" if "c < length (wp_visible m)" for c
    unfolding workspace_picker_ok_def using ch vis that by auto
  show ?thesis
    unfolding update_workspace_picker_def
    using ok re kept up down by (cases msg) (simp_all split: option.splits)
qed

lemma update_workspace_picker_quits:
  assumes "workspace_picker_ok lib choices m" and "snd (update_workspace_picker lib msg m)"
  shows "wp_cancelled (fst (update_workspace_picker lib msg m)) \<or> wp_visible (fst (update_workspace_picker lib msg m)) \<noteq> []"
  using assms(2) by (cases msg) (auto simp: update_workspace_picker_def split: if_splits option.splits)

lemma workspace_selection_ok:
  assumes ok: "workspace_picker_ok lib choices m"
  shows "case workspace_selection m of None \<Rightarrow> wp_visible m = []
    | Some c \<Rightarrow> c \<in> set choices \<and> workspace_matches lib (wp_query m) c"
proof (cases "wp_visible m = []")
  case False
  then have cur: "wp_cursor m < length (wp_visible m)" using ok unfolding workspace_picker_ok_def by blast
  then have "wp_visible m ! wp_cursor m \<in> set (wp_visible m)" by (rule nth_mem)
  then have "wp_visible m ! wp_cursor m < length choices
    \<and> workspace_matches lib (wp_query m) (choices ! (wp_visible m ! wp_cursor m))"
    using ok unfolding workspace_picker_ok_def workspace_matching_def by auto
  moreover have "wp_choices m = choices" using ok unfolding workspace_picker_ok_def by blast
  ultimately show ?thesis using cur by (simp add: workspace_selection_def)
qed (simp add: workspace_selection_def)

text \<open>
  The workspace screen fits and never loses the cursor: after any messages, on a terminal of a known height, the
  screen has at most that many lines, and from four lines on the row of the workspace that Enter would follow is
  among them.
\<close>

theorem workspace_screen_fits:
  assumes "workspace_picker_ok plib choices m" and "0 < wp_height m"
  shows "int (length (workspace_lines lib m)) \<le> wp_height m
    \<and> (4 \<le> wp_height m \<longrightarrow> wp_visible m \<noteq> [] \<longrightarrow>
        workspace_row lib m (if wp_width m \<le> 0 then 80 else wp_width m) (wp_cursor m) \<in> set (workspace_lines lib m))"
proof -
  let ?width = "if wp_width m \<le> 0 then 80 else wp_width m" let ?h = "wp_height m"
  define ls where "ls = [style_text ''Mirror workspace follow'' (role_color Role_Accent) (wp_color m),
      fit lib (''Filter: '' @ wp_query m) ?width]
    @ (if wp_visible m = [] then [fit lib ''No workspaces match the current filter.'' ?width]
       else map (workspace_row lib m ?width) (workspace_rows m))"
  define ls1 where "ls1 = (if ?h \<le> 0 \<or> int (length ls) < ?h then ls @ [fit lib workspace_footer ?width] else ls)"
  have lines: "workspace_lines lib m = (if 0 < ?h \<and> ?h < int (length ls1) then take (nat ?h) ls1 else ls1)"
    unfolding workspace_lines_def Let_def ls1_def ls_def by (rule refl)
  have "int (length (workspace_lines lib m)) \<le> ?h"
    unfolding lines using assms(2) take_bound [of "nat ?h" ls1] by (simp split: if_split)
  moreover have "workspace_row lib m ?width (wp_cursor m) \<in> set (workspace_lines lib m)"
    if tall: "4 \<le> ?h" and vis: "wp_visible m \<noteq> []"
  proof -
    have cap: "workspace_capacity m = nat (?h - 3)" using assms(2) by (simp add: workspace_capacity_def)
    have cur: "wp_cursor m < length (wp_visible m)" using assms(1) vis unfolding workspace_picker_ok_def by blast
    have rows: "wp_cursor m \<in> set (workspace_rows m)" "length (workspace_rows m) \<le> workspace_capacity m"
      using cur cap tall by (auto simp: workspace_rows_def Let_def)
    have "int (length ls) \<le> ?h - 1" using rows(2) cap tall vis by (simp add: ls_def)
    then have "workspace_lines lib m = ls @ [fit lib workspace_footer ?width]" unfolding lines ls1_def by simp
    then show ?thesis using rows(1) vis by (simp add: ls_def)
  qed
  ultimately show ?thesis by blast
qed

section \<open>The loading screen\<close>

datatype load_error =
  Load_Failed string | No_Sessions string | No_Workspaces | No_Picker | Unexpected_Model
  | Unexpected_Workspace_Model | No_Workspace_Selected

fun load_error_text :: "load_error \<Rightarrow> string" where
  "load_error_text (Load_Failed e) = e"
| "load_error_text (No_Sessions host) =
     ''no live Zellij sessions found'' @ (if host \<noteq> [] then '' on '' @ host else [])"
| "load_error_text No_Workspaces = ''source has no selectable workspaces''"
| "load_error_text No_Picker = ''loader returned no picker''"
| "load_error_text Unexpected_Model = ''mirror picker returned an unexpected model''"
| "load_error_text Unexpected_Workspace_Model = ''workspace picker returned an unexpected model''"
| "load_error_text No_Workspace_Selected = ''workspace picker returned no selection''"

text \<open>A message: the result of the load, a tick of the spinner or one of the terminal.\<close>

datatype 'i load_message = Loaded "load_error option" "'i option" | Spinner_Tick | Terminal tui_message

datatype tui_command = No_Command | Quit | Spin

record 'i loading =
  ld_title :: string
  ld_subject :: string
  ld_inner :: "'i option"
  ld_error :: "load_error option"
  ld_frame :: nat
  ld_width :: int
  ld_height :: int
  ld_sized :: bool
  ld_color :: bool
  ld_cancelled :: bool
  ld_done :: bool

definition new_loading :: "string \<Rightarrow> string \<Rightarrow> bool \<Rightarrow> 'i loading" where
  "new_loading title subject color =
     \<lparr>ld_title = title, ld_subject = subject, ld_inner = None, ld_error = None, ld_frame = 0, ld_width = 80,
      ld_height = 24, ld_sized = False, ld_color = color, ld_cancelled = False, ld_done = False\<rparr>"

definition spinner_frames :: "string list" where
  "spinner_frames =
     map (\<lambda>(b, c). [CHR 0xE2, b, c])
       [(CHR 0xA0, CHR 0x8B), (CHR 0xA0, CHR 0x99), (CHR 0xA0, CHR 0xB9), (CHR 0xA0, CHR 0xB8), (CHR 0xA0, CHR 0xBC),
        (CHR 0xA0, CHR 0xB4), (CHR 0xA0, CHR 0xA6), (CHR 0xA0, CHR 0xA7), (CHR 0xA0, CHR 0x87), (CHR 0xA0, CHR 0x8F)]"

text \<open>The inner picker takes over at its size; neither picker has a first command or reads other messages.\<close>

definition take_over :: "(tui_message \<Rightarrow> 'i \<Rightarrow> 'i \<times> bool) \<Rightarrow> 'i \<Rightarrow> 'i loading \<Rightarrow> 'i loading \<times> tui_command" where
  "take_over upd p m =
     (if ld_sized m
      then (case upd (Resized (ld_width m) (ld_height m)) p of
              (q, quit) \<Rightarrow> (m\<lparr>ld_inner := Some q\<rparr>, if quit then Quit else No_Command))
      else (m\<lparr>ld_inner := Some p\<rparr>, No_Command))"

definition update_loading ::
    "(tui_message \<Rightarrow> 'i \<Rightarrow> 'i \<times> bool) \<Rightarrow> 'i load_message \<Rightarrow> 'i loading \<Rightarrow> 'i loading \<times> tui_command"
where
  "update_loading upd msg m =
     (case ld_inner m of
        Some p \<Rightarrow>
          (case msg of
             Terminal t \<Rightarrow> (case upd t p of (q, quit) \<Rightarrow> (m\<lparr>ld_inner := Some q\<rparr>, if quit then Quit else No_Command))
           | _ \<Rightarrow> (m, No_Command))
      | None \<Rightarrow>
          (case msg of
             Terminal (Resized w h) \<Rightarrow> (m\<lparr>ld_width := w, ld_height := h, ld_sized := True\<rparr>, No_Command)
           | Loaded err model \<Rightarrow>
               if ld_done m then (m, No_Command)
               else (case err of
                       Some e \<Rightarrow> (m\<lparr>ld_error := Some e\<rparr>, No_Command)
                     | None \<Rightarrow> (case model of
                                  None \<Rightarrow> (m\<lparr>ld_error := Some No_Picker\<rparr>, No_Command)
                                | Some p \<Rightarrow> take_over upd p m))
           | Spinner_Tick \<Rightarrow>
               if ld_error m = None \<and> \<not> ld_done m
               then (m\<lparr>ld_frame := (ld_frame m + 1) mod length spinner_frames\<rparr>, Spin) else (m, No_Command)
           | Terminal (Key name typed) \<Rightarrow>
               if name \<in> {''ctrl+c'', ''esc'', ''q''}
               then (m\<lparr>ld_cancelled := (ld_error m = None), ld_done := True\<rparr>, Quit)
               else if name = ''enter'' \<and> ld_error m \<noteq> None then (m\<lparr>ld_done := True\<rparr>, Quit)
               else (m, No_Command)))"

text \<open>
  The model after any messages. Asking to quit is a command, so messages may still be handled after it.
\<close>

definition received :: "(tui_message \<Rightarrow> 'i \<Rightarrow> 'i \<times> bool) \<Rightarrow> 'i load_message list \<Rightarrow> 'i loading \<Rightarrow> 'i loading" where
  "received upd msgs m = fold (\<lambda>msg m. fst (update_loading upd msg m)) msgs m"

definition asks_quit :: "(tui_message \<Rightarrow> 'i \<Rightarrow> 'i \<times> bool) \<Rightarrow> 'i load_message \<Rightarrow> 'i loading \<Rightarrow> bool" where
  "asks_quit upd msg m \<longleftrightarrow> snd (update_loading upd msg m) = Quit"

subsection \<open>Its view\<close>

text \<open>\<open>strings.TrimRight\<close> of carriage returns.\<close>

definition trim_returns :: "string \<Rightarrow> string" where
  "trim_returns s = rev (dropWhile (\<lambda>c. c = CHR 0x0D) (rev s))"

definition paint_role :: "bool \<Rightarrow> string \<Rightarrow> semantic_role \<Rightarrow> string" where
  "paint_role color value role =
     (if \<not> color \<or> value = [] then value else foreground_ansi (role_color role) @ value @ reset_ansi)"

definition loading_lines :: "screen_text \<Rightarrow> 'i loading \<Rightarrow> string list" where
  "loading_lines lib m =
     (let width = (if ld_width m \<le> 0 then 80 else ld_width m);
          ls = [paint_role (ld_color m) (fit lib (ld_title m) width) Role_Accent, []]
               @ (case ld_error m of
                    Some e \<Rightarrow>
                      paint_role (ld_color m) (fit lib (''Could not load '' @ ld_subject m @ '':'') width) Role_Error
                      # map (\<lambda>l. fit lib (''  '' @ trim_returns l) width) (split_newline (trim_space (load_error_text e)))
                      @ [[], paint_role (ld_color m) (fit lib ''Enter/Esc/q close'' width) Role_Dim]
                  | None \<Rightarrow>
                      [fit lib (spinner_frames ! ld_frame m @ '' Loading '' @ ld_subject m @ ellipsis) width, [],
                       paint_role (ld_color m) (fit lib ''Esc/q cancel'' width) Role_Dim]) in
      if 0 < ld_height m \<and> ld_height m < int (length ls) then take (nat (ld_height m)) ls else ls)"

definition loading_view :: "screen_text \<Rightarrow> ('i \<Rightarrow> string) \<Rightarrow> 'i loading \<Rightarrow> string" where
  "loading_view lib inner_view m =
     (case ld_inner m of
        Some p \<Rightarrow> inner_view p
      | None \<Rightarrow> if ld_done m then [] else join_with [CHR 0x0A] (loading_lines lib m))"

section \<open>What the loading screen relies on\<close>

text \<open>
  An inner picker keeps its invariant and its cancellation at every message, and a message that asks to quit leaves
  it cancelled or with a result.
\<close>

locale loaded_picker =
  fixes upd :: "tui_message \<Rightarrow> 'i \<Rightarrow> 'i \<times> bool"
    and ok :: "'i \<Rightarrow> bool"
    and cancelled :: "'i \<Rightarrow> bool"
    and chosen :: "'i \<Rightarrow> bool"
  assumes keeps: "ok p \<Longrightarrow> ok (fst (upd msg p))"
    and stays: "cancelled p \<Longrightarrow> cancelled (fst (upd msg p))"
    and quits: "ok p \<Longrightarrow> snd (upd msg p) \<Longrightarrow> cancelled (fst (upd msg p)) \<or> chosen (fst (upd msg p))"
begin

text \<open>The result of one load: an error, or a picker in its first state.\<close>

definition outcome_ok :: "load_error option \<times> 'i option \<Rightarrow> bool" where
  "outcome_ok r \<longleftrightarrow> fst r \<noteq> None \<or> (\<exists>p. snd r = Some p \<and> ok p)"

definition lawful :: "load_error option \<times> 'i option \<Rightarrow> 'i loading \<Rightarrow> bool" where
  "lawful r m \<longleftrightarrow>
     (\<forall>e. ld_error m = Some e \<longrightarrow> fst r = Some e \<and> ld_inner m = None \<and> \<not> ld_cancelled m)
     \<and> (\<forall>p. ld_inner m = Some p \<longrightarrow> ok p \<and> fst r = None \<and> ld_error m = None \<and> \<not> ld_cancelled m)
     \<and> (ld_cancelled m \<longrightarrow> ld_done m)"

lemma lawful_new: "lawful r (new_loading title subject color)"
  by (simp add: lawful_def new_loading_def)

lemma take_over_inner:
  assumes "ok p"
  shows "\<exists>q. fst (take_over upd p m) = m\<lparr>ld_inner := Some q\<rparr> \<and> ok q
    \<and> (snd (take_over upd p m) = Quit \<longrightarrow> cancelled q \<or> chosen q)"
  using assms keeps quits by (auto simp: take_over_def split: prod.split if_splits) (metis fst_conv snd_conv)+

lemma update_inner:
  assumes "ld_inner m = Some p" and "ok p"
  shows "\<exists>q. fst (update_loading upd msg m) = m\<lparr>ld_inner := Some q\<rparr> \<and> ok q \<and> (cancelled p \<longrightarrow> cancelled q)
    \<and> (snd (update_loading upd msg m) = Quit \<longrightarrow> cancelled q \<or> chosen q)"
proof (cases msg)
  case (Terminal t)
  obtain q quit where q: "upd t p = (q, quit)" by fastforce
  have "ok q \<and> (cancelled p \<longrightarrow> cancelled q) \<and> (quit \<longrightarrow> cancelled q \<or> chosen q)"
    using keeps [OF assms(2), of t] stays [of p t] quits [OF assms(2), of t] q by simp
  then show ?thesis using q assms(1) Terminal by (intro exI [of _ q]) (simp add: update_loading_def)
qed (use assms in \<open>auto simp: update_loading_def intro!: exI [of _ p]\<close>)

text \<open>A message before the picker is there.\<close>

lemma update_outer:
  assumes r: "outcome_ok r" and load: "\<And>e p. msg = Loaded e p \<Longrightarrow> (e, p) = r" and law: "lawful r m" and "ld_inner m = None"
  shows "(let m1 = fst (update_loading upd msg m) in
      lawful r m1 \<and> (ld_cancelled m \<longrightarrow> ld_cancelled m1) \<and> (ld_error m \<noteq> None \<longrightarrow> ld_error m1 = ld_error m)
      \<and> (snd (update_loading upd msg m) = Quit \<longrightarrow>
           ld_cancelled m1 \<or> ld_error m1 \<noteq> None \<or> (\<exists>q. ld_inner m1 = Some q \<and> (cancelled q \<or> chosen q))))"
proof (cases msg)
  case (Loaded e p)
  then have r': "r = (e, p)" using load by simp
  show ?thesis
  proof (cases "ld_done m \<or> e \<noteq> None")
    case True
    then show ?thesis
      using law assms(4) Loaded r' by (auto simp: update_loading_def lawful_def Let_def)
  next
    case False
    then obtain q where q: "p = Some q" "ok q" using r r' by (auto simp: outcome_ok_def)
    have plain: "ld_error m = None" "\<not> ld_cancelled m" using False law r' by (auto simp: lawful_def)
    have "update_loading upd msg m = take_over upd q m"
      using False assms(4) Loaded q(1) by (simp add: update_loading_def)
    then show ?thesis
      using take_over_inner [OF q(2), of m] plain False r' by (auto simp: lawful_def Let_def)
  qed
next
  case Spinner_Tick
  then show ?thesis using law assms(4) by (auto simp: update_loading_def lawful_def Let_def)
next
  case (Terminal t)
  then show ?thesis
    using law assms(4) by (cases t) (auto simp: update_loading_def lawful_def Let_def split: if_splits)
qed

lemma loading_step:
  assumes r: "outcome_ok r" and load: "\<And>e p. msg = Loaded e p \<Longrightarrow> (e, p) = r" and law: "lawful r m"
  shows "lawful r (fst (update_loading upd msg m))"
    and "ld_cancelled m \<Longrightarrow> ld_cancelled (fst (update_loading upd msg m))"
    and "ld_error m = Some e \<Longrightarrow> ld_error (fst (update_loading upd msg m)) = Some e"
    and "ld_inner m = Some p \<Longrightarrow>
      \<exists>q. ld_inner (fst (update_loading upd msg m)) = Some q \<and> (cancelled p \<longrightarrow> cancelled q)"
    and "asks_quit upd msg m \<Longrightarrow> ld_cancelled (fst (update_loading upd msg m))
      \<or> ld_error (fst (update_loading upd msg m)) \<noteq> None
      \<or> (\<exists>q. ld_inner (fst (update_loading upd msg m)) = Some q \<and> (cancelled q \<or> chosen q))"
proof -
  note outer = update_outer [OF r load law, unfolded Let_def]
  have inner: "\<exists>q. fst (update_loading upd msg m) = m\<lparr>ld_inner := Some q\<rparr> \<and> ok q \<and> (cancelled p \<longrightarrow> cancelled q)
    \<and> (snd (update_loading upd msg m) = Quit \<longrightarrow> cancelled q \<or> chosen q)" if "ld_inner m = Some p" for p
    using update_inner [OF that] law that unfolding lawful_def by blast
  show "lawful r (fst (update_loading upd msg m))"
  proof (cases "ld_inner m")
    case None
    then show ?thesis using outer by blast
  next
    case (Some p)
    then obtain q where "fst (update_loading upd msg m) = m\<lparr>ld_inner := Some q\<rparr>" "ok q" using inner by blast
    then show ?thesis using law Some by (simp add: lawful_def)
  qed
  show "ld_cancelled (fst (update_loading upd msg m))" if "ld_cancelled m"
  proof -
    have "ld_inner m = None" using law that by (cases "ld_inner m") (auto simp: lawful_def)
    then show ?thesis using outer that by blast
  qed
  show "ld_error (fst (update_loading upd msg m)) = Some e" if "ld_error m = Some e"
  proof -
    have "ld_inner m = None" using law that by (simp add: lawful_def)
    then show ?thesis using outer that by simp
  qed
  show "ld_inner m = Some p \<Longrightarrow>
      \<exists>q. ld_inner (fst (update_loading upd msg m)) = Some q \<and> (cancelled p \<longrightarrow> cancelled q)"
    using inner by fastforce
  show "asks_quit upd msg m \<Longrightarrow> ld_cancelled (fst (update_loading upd msg m))
      \<or> ld_error (fst (update_loading upd msg m)) \<noteq> None
      \<or> (\<exists>q. ld_inner (fst (update_loading upd msg m)) = Some q \<and> (cancelled q \<or> chosen q))"
    using outer inner unfolding asks_quit_def by (cases "ld_inner m") (blast, fastforce)
qed

text \<open>Over any messages: the law holds, and a cancellation, an error and a loaded picker are there for good.\<close>

lemma received_lawful:
  assumes r: "outcome_ok r"
  shows "\<forall>e p. Loaded e p \<in> set msgs \<longrightarrow> (e, p) = r \<Longrightarrow> lawful r m \<Longrightarrow> lawful r (received upd msgs m)"
  unfolding received_def by (induction msgs arbitrary: m) (simp_all add: loading_step(1) [OF r])

lemma received_final:
  assumes r: "outcome_ok r"
  shows "\<forall>e p. Loaded e p \<in> set msgs \<longrightarrow> (e, p) = r \<Longrightarrow> lawful r m \<Longrightarrow>
    (ld_cancelled m \<longrightarrow> ld_cancelled (received upd msgs m))
    \<and> (\<forall>e. ld_error m = Some e \<longrightarrow> ld_error (received upd msgs m) = Some e)
    \<and> (\<forall>p. ld_inner m = Some p \<longrightarrow> (\<exists>q. ld_inner (received upd msgs m) = Some q \<and> (cancelled p \<longrightarrow> cancelled q)))"
proof (induction msgs arbitrary: m)
  case (Cons msg msgs)
  let ?m1 = "fst (update_loading upd msg m)"
  have load: "\<And>e p. msg = Loaded e p \<Longrightarrow> (e, p) = r" using Cons.prems(1) by simp
  note step = loading_step [OF r load Cons.prems(2)]
  have later: "received upd (msg # msgs) m = received upd msgs ?m1" by (simp add: received_def)
  have rest: "(ld_cancelled ?m1 \<longrightarrow> ld_cancelled (received upd msgs ?m1))
    \<and> (\<forall>e. ld_error ?m1 = Some e \<longrightarrow> ld_error (received upd msgs ?m1) = Some e)
    \<and> (\<forall>p. ld_inner ?m1 = Some p \<longrightarrow> (\<exists>q. ld_inner (received upd msgs ?m1) = Some q \<and> (cancelled p \<longrightarrow> cancelled q)))"
    by (rule Cons.IH) (use Cons.prems(1) step(1) in auto)
  show ?case unfolding later using rest step(2-4) by blast
qed (simp add: received_def)

text \<open>The three ways a run that was asked to quit stands, and how it stands at the end.\<close>

lemma asked_then_late:
  assumes r: "outcome_ok r" and load: "\<forall>e p. Loaded e p \<in> set (before @ msg # late) \<longrightarrow> (e, p) = r"
    and asked: "asks_quit upd msg (received upd before (new_loading title subject color))"
    and m1: "m1 = received upd (before @ [msg]) (new_loading title subject color)" and m: "m = received upd late m1"
  obtains "ld_cancelled m1" "ld_cancelled m"
  | e where "\<not> ld_cancelled m1" "\<not> ld_cancelled m" "fst r = Some e" "ld_error m1 = Some e" "ld_error m = Some e"
  | p q where "\<not> ld_cancelled m1" "\<not> ld_cancelled m" "fst r = None" "ld_error m1 = None" "ld_error m = None"
      "ld_inner m1 = Some p" "ok p" "cancelled p \<or> chosen p" "ld_inner m = Some q" "ok q" "cancelled p \<longrightarrow> cancelled q"
proof -
  let ?m0 = "received upd before (new_loading title subject color)"
  have law0: "lawful r ?m0" by (rule received_lawful [OF r _ lawful_new]) (use load in auto)
  have load1: "\<And>e p. msg = Loaded e p \<Longrightarrow> (e, p) = r" using load by auto
  have one: "m1 = fst (update_loading upd msg ?m0)" by (simp add: m1 received_def)
  have law1: "lawful r m1" unfolding one by (rule loading_step(1) [OF r load1 law0])
  have late: "\<forall>e p. Loaded e p \<in> set late \<longrightarrow> (e, p) = r" using load by auto
  have law: "lawful r m" unfolding m by (rule received_lawful [OF r late law1])
  have settled: "ld_cancelled m1 \<or> ld_error m1 \<noteq> None \<or> (\<exists>q. ld_inner m1 = Some q \<and> (cancelled q \<or> chosen q))"
    unfolding one by (rule loading_step(5) [OF r load1 law0 asked])
  note final = received_final [OF r late law1, folded m]
  show thesis
  proof (cases "ld_cancelled m1")
    case True
    then show thesis using final that(1) by blast
  next
    case uncancelled: False
    show thesis
    proof (cases "ld_error m1")
      case (Some e)
      then have "ld_error m = Some e" using final by blast
      then show thesis using that(2) [of e] Some law1 law unfolding lawful_def by blast
    next
      case None
      then obtain p where p: "ld_inner m1 = Some p" "cancelled p \<or> chosen p" using settled uncancelled by blast
      then obtain q where q: "ld_inner m = Some q" "cancelled p \<longrightarrow> cancelled q" using final by blast
      have "ok p" "fst r = None" using law1 p(1) unfolding lawful_def by simp_all
      moreover have "ok q" "ld_error m = None" "\<not> ld_cancelled m" using law q(1) unfolding lawful_def by simp_all
      ultimately show thesis using that(3) [of p q] p q uncancelled None by simp
    qed
  qed
qed

end

section \<open>The two loading pickers\<close>

text \<open>
  The load of each picker, from what its discovery returned; the host is trimmed. The results are \<open>Inr None\<close> when
  the picker was cancelled.
\<close>

definition session_load ::
    "picker_text \<Rightarrow> bool \<Rightarrow> string \<Rightarrow> string + mirror_window list \<Rightarrow> load_error option \<times> picker option"
where
  "session_load lib color host discovered =
     (case discovered of
        Inl e \<Rightarrow> (Some (Load_Failed e), None)
      | Inr ws \<Rightarrow> if ws = [] then (Some (No_Sessions (trim_space host)), None) else (None, Some (new_picker lib ws color)))"

definition session_loading_result :: "picker loading \<Rightarrow> load_error + mirror_window list option" where
  "session_loading_result m =
     (if ld_cancelled m then Inr None
      else (case ld_error m of
              Some e \<Rightarrow> Inl e
            | None \<Rightarrow> (case ld_inner m of
                         None \<Rightarrow> Inl Unexpected_Model
                       | Some p \<Rightarrow> if pk_cancelled p then Inr None else Inr (Some (picker_selection p)))))"

definition workspace_load ::
    "picker_text \<Rightarrow> bool \<Rightarrow> string + workspace_choice list \<Rightarrow> load_error option \<times> workspace_picker option"
where
  "workspace_load lib color discovered =
     (case discovered of
        Inl e \<Rightarrow> (Some (Load_Failed e), None)
      | Inr cs \<Rightarrow> if cs = [] then (Some No_Workspaces, None) else (None, Some (new_workspace_picker lib cs color)))"

definition workspace_loading_result :: "workspace_picker loading \<Rightarrow> load_error + workspace_choice option" where
  "workspace_loading_result m =
     (if ld_cancelled m then Inr None
      else (case ld_error m of
              Some e \<Rightarrow> Inl e
            | None \<Rightarrow> (case ld_inner m of
                         None \<Rightarrow> Inl Unexpected_Workspace_Model
                       | Some p \<Rightarrow>
                           if wp_cancelled p then Inr None
                           else (case workspace_selection p of None \<Rightarrow> Inl No_Workspace_Selected | Some c \<Rightarrow> Inr (Some c)))))"

definition session_loading :: "string \<Rightarrow> bool \<Rightarrow> picker loading" where
  "session_loading host color =
     new_loading ''Mirror sessions''
       (''sessions'' @ (if trim_space host \<noteq> [] then '' from '' @ trim_space host else [])) color"

definition workspace_loading :: "string \<Rightarrow> bool \<Rightarrow> workspace_picker loading" where
  "workspace_loading host color =
     new_loading ''Mirror workspace follow''
       (''workspaces'' @ (if trim_space host \<noteq> [] then '' from '' @ trim_space host else [])) color"

text \<open>A picker that stands before a row has a result.\<close>

lemma update_picker_quits:
  assumes ok: "picker_ok lib ws p" and quit: "snd (update_picker lib msg p)"
  shows "pk_cancelled (fst (update_picker lib msg p)) \<or> pk_visible (fst (update_picker lib msg p)) \<noteq> []"
proof (cases "pk_cancelled (fst (update_picker lib msg p))")
  case False
  have "update_picker lib msg p = (fst (update_picker lib msg p), True)" using quit by (simp add: prod_eq_iff)
  from update_done [OF ok this False] show ?thesis by simp
qed simp

lemma update_picker_cancelled: "pk_cancelled p \<Longrightarrow> pk_cancelled (fst (update_picker lib msg p))"
  unfolding update_picker_def Let_def
  by (cases msg) (simp_all add: refilter_def toggle_filtered_def Let_def split: option.split)

lemma update_workspace_picker_cancelled:
  "wp_cancelled p \<Longrightarrow> wp_cancelled (fst (update_workspace_picker lib msg p))"
  unfolding update_workspace_picker_def Let_def
  by (cases msg) (simp_all add: refilter_workspaces_def Let_def split: option.split)

interpretation sessions: loaded_picker "update_picker lib" "picker_ok lib ws" pk_cancelled "\<lambda>q. pk_visible q \<noteq> []"
  for lib ws
  by unfold_locales (rule update_picker_ok, assumption, rule update_picker_cancelled, assumption,
    rule update_picker_quits)

interpretation workspaces: loaded_picker "update_workspace_picker lib" "workspace_picker_ok lib cs" wp_cancelled
    "\<lambda>q. wp_visible q \<noteq> []"
  for lib cs
  by unfold_locales (rule update_workspace_picker_ok, assumption, rule update_workspace_picker_cancelled, assumption,
    rule update_workspace_picker_quits)

text \<open>
  C22: The loading screen of the sessions returns what was discovered. Take any messages before one that asks to quit
  and any that are still handled after it, among them, early, late or never, the result of the one load. When the quit is asked
  for, the result is the error of the discovery, or a cancellation, or a selection of discovered sessions that is
  not empty and names none twice; it is never an unexpected model. What comes late cannot change an error or a
  cancellation, so a discovery that ends after the cancellation is ignored. It can change a selection: to a
  cancellation, or to another selection of discovered sessions, which is empty only when no session is checked and
  the filter shows none.
\<close>

theorem session_loading_returns:
  assumes load: "\<And>e p. Loaded e p \<in> set (before @ msg # late) \<Longrightarrow> (e, p) = session_load lib color host discovered"
    and asked: "asks_quit (update_picker lib) msg (received (update_picker lib) before (session_loading host color))"
    and m1: "m1 = received (update_picker lib) (before @ [msg]) (session_loading host color)"
    and m: "m = received (update_picker lib) late m1"
  shows "(case session_loading_result m1 of
        Inl e \<Rightarrow> (case discovered of Inl x \<Rightarrow> e = Load_Failed x | Inr ws \<Rightarrow> ws = [] \<and> e = No_Sessions (trim_space host))
      | Inr None \<Rightarrow> ld_cancelled m1 \<or> (\<exists>p. ld_inner m1 = Some p \<and> pk_cancelled p)
      | Inr (Some sel) \<Rightarrow> (\<exists>ws is. discovered = Inr ws \<and> sel = map ((!) ws) is \<and> is \<noteq> [] \<and> distinct is
          \<and> set is \<subseteq> {..<length ws}))
    \<and> (case session_loading_result m1 of
        Inr (Some _) \<Rightarrow> session_loading_result m = Inr None
          \<or> (\<exists>ws is q. discovered = Inr ws \<and> session_loading_result m = Inr (Some (map ((!) ws) is)) \<and> distinct is
              \<and> set is \<subseteq> {..<length ws} \<and> ld_inner m = Some q \<and> chosen_indexes q is)
      | r \<Rightarrow> session_loading_result m = r)"
proof -
  let ?r = "session_load lib color host discovered"
  define ws where "ws = (case discovered of Inl x \<Rightarrow> [] | Inr ws \<Rightarrow> ws)"
  have ok: "sessions.outcome_ok lib ws ?r"
    using new_picker_ok [of lib ws color]
    by (auto simp: sessions.outcome_ok_def session_load_def ws_def split: sum.splits)
  have all: "\<forall>e p. Loaded e p \<in> set (before @ msg # late) \<longrightarrow> (e, p) = ?r" using load by blast
  from sessions.asked_then_late [OF ok all asked [unfolded session_loading_def] m1 [unfolded session_loading_def] m]
  show ?thesis
  proof cases
    case 1
    then show ?thesis by (simp add: session_loading_result_def)
  next
    case (2 e)
    then show ?thesis by (auto simp: session_loading_result_def session_load_def split: sum.splits if_splits)
  next
    case (3 p q)
    have d: "discovered = Inr ws" using 3(3) by (auto simp: session_load_def ws_def split: sum.splits)
    have r1: "session_loading_result m1 = (if pk_cancelled p then Inr None else Inr (Some (picker_selection p)))"
      and r: "session_loading_result m = (if pk_cancelled q then Inr None else Inr (Some (picker_selection q)))"
      using 3 by (simp_all add: session_loading_result_def)
    show ?thesis
    proof (cases "pk_cancelled p")
      case True
      then show ?thesis using r1 r 3 by simp
    next
      case False
      obtain "is" where i: "picker_selection p = map ((!) ws) is" "distinct is" "set is \<subseteq> {..<length ws}"
        using selection_indexes [OF 3(7)] by blast
      have "is \<noteq> []" using selection_nonempty [OF 3(7)] 3(8) False i(1) by auto
      moreover obtain js where "picker_selection q = map ((!) ws) js" "distinct js" "set js \<subseteq> {..<length ws}" "chosen_indexes q js"
        using selection_indexes [OF 3(10)] by blast
      ultimately show ?thesis using r1 r False i d 3(9) by auto
    qed
  qed
qed

text \<open>
  The loading screen of the workspaces likewise: when the quit is asked for, the result is the error of the discovery,
  or a cancellation, or a discovered workspace that matches the filter it was chosen under. What comes late can only turn a choice into
  a cancellation, another such workspace, or the error that nothing is selected, and that only when the filter
  shows no workspace.
\<close>

theorem workspace_loading_returns:
  assumes load: "\<And>e p. Loaded e p \<in> set (before @ msg # late) \<Longrightarrow> (e, p) = workspace_load lib color discovered"
    and asked: "asks_quit (update_workspace_picker lib) msg
      (received (update_workspace_picker lib) before (workspace_loading host color))"
    and m1: "m1 = received (update_workspace_picker lib) (before @ [msg]) (workspace_loading host color)"
    and m: "m = received (update_workspace_picker lib) late m1"
  shows "(case workspace_loading_result m1 of
        Inl e \<Rightarrow> (case discovered of Inl x \<Rightarrow> e = Load_Failed x | Inr cs \<Rightarrow> cs = [] \<and> e = No_Workspaces)
      | Inr None \<Rightarrow> ld_cancelled m1 \<or> (\<exists>p. ld_inner m1 = Some p \<and> wp_cancelled p)
      | Inr (Some c) \<Rightarrow> (\<exists>cs p. discovered = Inr cs \<and> ld_inner m1 = Some p \<and> c \<in> set cs
          \<and> workspace_matches lib (wp_query p) c))
    \<and> (case workspace_loading_result m1 of
        Inr (Some _) \<Rightarrow> workspace_loading_result m = Inr None
          \<or> (\<exists>cs q. discovered = Inr cs \<and> ld_inner m = Some q
              \<and> (workspace_loading_result m = Inl No_Workspace_Selected \<and> wp_visible q = []
                 \<or> (\<exists>c \<in> set cs. workspace_loading_result m = Inr (Some c) \<and> workspace_matches lib (wp_query q) c)))
      | r \<Rightarrow> workspace_loading_result m = r)"
proof -
  let ?r = "workspace_load lib color discovered"
  define cs where "cs = (case discovered of Inl x \<Rightarrow> [] | Inr cs \<Rightarrow> cs)"
  have ok: "workspaces.outcome_ok lib cs ?r"
    using new_workspace_picker_ok [of lib cs color]
    by (auto simp: workspaces.outcome_ok_def workspace_load_def cs_def split: sum.splits)
  have all: "\<forall>e p. Loaded e p \<in> set (before @ msg # late) \<longrightarrow> (e, p) = ?r" using load by blast
  from workspaces.asked_then_late [OF ok all asked [unfolded workspace_loading_def] m1 [unfolded workspace_loading_def] m]
  show ?thesis
  proof cases
    case 1
    then show ?thesis by (simp add: workspace_loading_result_def)
  next
    case (2 e)
    then show ?thesis by (auto simp: workspace_loading_result_def workspace_load_def split: sum.splits if_splits)
  next
    case (3 p q)
    have d: "discovered = Inr cs" using 3(3) by (auto simp: workspace_load_def cs_def split: sum.splits)
    have r1: "workspace_loading_result m1 = (if wp_cancelled p then Inr None
        else (case workspace_selection p of None \<Rightarrow> Inl No_Workspace_Selected | Some c \<Rightarrow> Inr (Some c)))"
      and r: "workspace_loading_result m = (if wp_cancelled q then Inr None
        else (case workspace_selection q of None \<Rightarrow> Inl No_Workspace_Selected | Some c \<Rightarrow> Inr (Some c)))"
      using 3 by (simp_all add: workspace_loading_result_def)
    show ?thesis
    proof (cases "wp_cancelled p")
      case True
      then show ?thesis using r1 r 3 by simp
    next
      case False
      then obtain c where "workspace_selection p = Some c" "c \<in> set cs" "workspace_matches lib (wp_query p) c"
        using workspace_selection_ok [OF 3(7)] 3(8) by (auto split: option.splits)
      then show ?thesis
        using r1 r False d 3(6,9) workspace_selection_ok [OF 3(10)] by (auto split: option.splits)
    qed
  qed
qed

section \<open>Examples\<close>

definition ex_choice :: "int \<Rightarrow> string \<Rightarrow> workspace_choice" where
  "ex_choice i name =
     \<lparr>ch_workspace = \<lparr>wk_id = name, wk_index = i, wk_name = name, wk_output = ''DP-1''\<rparr>, ch_visible = 2, ch_eligible = 1\<rparr>"

definition ex_choices :: "workspace_choice list" where
  "ex_choices = [ex_choice 1 ''web'', ex_choice 2 ''code'', ex_choice 3 ''chat'']"

definition ex_workspaces :: workspace_picker where
  "ex_workspaces = fst (update_workspace_picker ex_text (Key ''down'' None)
     (fst (update_workspace_picker ex_text (Resized 40 4) (new_workspace_picker ex_text ex_choices False))))"

lemma ex_workspaces_facts:
  "(wp_height ex_workspaces, wp_width ex_workspaces, wp_cursor ex_workspaces, wp_visible ex_workspaces) = (4, 40, 1, [0, 1, 2])"
  by code_simp

lemma workspace_screen_fits_witness:
  "int (length (workspace_lines ex_screen ex_workspaces)) \<le> 4
    \<and> workspace_row ex_screen ex_workspaces 40 1 \<in> set (workspace_lines ex_screen ex_workspaces)"
proof -
  have ok: "workspace_picker_ok ex_text ex_choices ex_workspaces"
    unfolding ex_workspaces_def by (intro update_workspace_picker_ok new_workspace_picker_ok)
  have f: "wp_height ex_workspaces = 4" "wp_width ex_workspaces = 40" "wp_cursor ex_workspaces = 1"
    "wp_visible ex_workspaces = [0, 1, 2]"
    using ex_workspaces_facts by simp_all
  have "0 < wp_height ex_workspaces" by (simp add: f(1))
  from workspace_screen_fits [OF ok this, of ex_screen] show ?thesis by (simp add: f)
qed

definition ex_discovered :: "string + mirror_window list" where
  "ex_discovered = Inr [ex_mirror_window ''a'' 1 False, ex_mirror_window ''b'' 1 False]"

definition ex_loading_messages :: "picker load_message list" where
  "ex_loading_messages =
     [Spinner_Tick, Terminal (Resized 90 10),
      Loaded (fst (session_load ex_text False [] ex_discovered)) (snd (session_load ex_text False [] ex_discovered)),
      Spinner_Tick, Terminal (Key ''down'' None)]"

definition ex_loaded :: "picker loading" where
  "ex_loaded = received (update_picker ex_text) (ex_loading_messages @ [Terminal (Key ''enter'' None)]) (session_loading [] False)"

text \<open>A key that filters every session away, handled after Enter.\<close>

definition ex_loaded_late :: "picker loading" where
  "ex_loaded_late = received (update_picker ex_text) [Terminal (Key ''z'' (Some [''z'']))] ex_loaded"

lemma ex_loaded_facts:
  "asks_quit (update_picker ex_text) (Terminal (Key ''enter'' None))
     (received (update_picker ex_text) ex_loading_messages (session_loading [] False))"
  "map_sum id (map_option (map mw_key)) (session_loading_result ex_loaded) = Inr (Some [''b''])"
  "map_sum id (map_option (map mw_key)) (session_loading_result ex_loaded_late) = Inr (Some [])"
  by code_simp+

lemma session_loading_returns_witness:
  "(\<exists>sel. session_loading_result ex_loaded = Inr (Some sel)
      \<and> (\<exists>ws is. ex_discovered = Inr ws \<and> sel = map ((!) ws) is \<and> is \<noteq> [] \<and> distinct is \<and> set is \<subseteq> {..<length ws}))
    \<and> (\<exists>q. ld_inner ex_loaded_late = Some q \<and> chosen_indexes q [])"
proof -
  obtain sel where sel: "session_loading_result ex_loaded = Inr (Some sel)"
    using ex_loaded_facts(2) by (cases "session_loading_result ex_loaded"; cases "projr (session_loading_result ex_loaded)") auto
  have late: "session_loading_result ex_loaded_late = Inr (Some [])"
    using ex_loaded_facts(3)
    by (cases "session_loading_result ex_loaded_late"; cases "projr (session_loading_result ex_loaded_late)") auto
  have load: "(e, p) = session_load ex_text False [] ex_discovered"
    if "Loaded e p \<in> set (ex_loading_messages @ Terminal (Key ''enter'' None) # [Terminal (Key ''z'' (Some [''z'']))])" for e p
    using that unfolding ex_loading_messages_def by (auto simp: prod_eq_iff)
  from session_loading_returns [OF load ex_loaded_facts(1) ex_loaded_def ex_loaded_late_def] sel late
  show ?thesis by simp
qed

definition ex_workspace_messages :: "workspace_picker load_message list" where
  "ex_workspace_messages =
     [Loaded (fst (workspace_load ex_text False (Inr ex_choices))) (snd (workspace_load ex_text False (Inr ex_choices))),
      Terminal (Key ''c'' (Some [''c''])), Terminal (Key ''down'' None)]"

definition ex_workspace_loaded :: "workspace_picker loading" where
  "ex_workspace_loaded = received (update_workspace_picker ex_text)
     (ex_workspace_messages @ [Terminal (Key ''enter'' None)]) (workspace_loading ''lattice'' False)"

lemma ex_workspace_loaded_facts:
  "asks_quit (update_workspace_picker ex_text) (Terminal (Key ''enter'' None))
     (received (update_workspace_picker ex_text) ex_workspace_messages (workspace_loading ''lattice'' False))"
  "workspace_loading_result ex_workspace_loaded = Inr (Some (ex_choice 3 ''chat''))"
  by code_simp+

lemma workspace_loading_returns_witness:
  "ex_choice 3 ''chat'' \<in> set ex_choices
    \<and> (\<exists>p. ld_inner ex_workspace_loaded = Some p \<and> workspace_matches ex_text (wp_query p) (ex_choice 3 ''chat''))"
proof -
  have none: "ex_workspace_loaded = received (update_workspace_picker ex_text) [] ex_workspace_loaded"
    by (simp add: received_def)
  have load: "(e, p) = workspace_load ex_text False (Inr ex_choices)"
    if "Loaded e p \<in> set (ex_workspace_messages @ Terminal (Key ''enter'' None) # [])" for e p
    using that unfolding ex_workspace_messages_def by (auto simp: prod_eq_iff)
  from workspace_loading_returns [OF load ex_workspace_loaded_facts(1) ex_workspace_loaded_def none]
    ex_workspace_loaded_facts(2)
  show ?thesis by auto
qed

end
